(* ===== verification/Mddb_Prelude.thy ===== *)
theory Mddb_Prelude
  imports Main "HOL-Library.Word" "HOL-Library.Char_ord" "HOL-Library.List_Lexorder"
    "HOL-Library.Sublist" "HOL-Library.Multiset"
begin

section \<open>Prelude: byte strings, outcomes, number formats\<close>

text \<open>
  What every component shares.  A Go \<^verbatim>\<open>string\<close> or \<^verbatim>\<open>[]byte\<close> is a list of
  8-bit characters (\<open>bytes\<close>); the order on it from \<open>Char_ord\<close> and
  \<open>List_Lexorder\<close> is Go's byte-wise string order, which is also the order of the keys of a
  bolt bucket.  A Go call that can fail returns an \<open>outcome\<close>: a value, an error, or a run-time
  panic.  The number formats are \<^verbatim>\<open>encoding/binary.BigEndian\<close> and \<^verbatim>\<open>fmt\<close>'s
  decimal and \<^verbatim>\<open>%020d\<close> verbs.
\<close>

type_synonym bytes = "char list"
type_synonym u64 = "64 word"
type_synonym u32 = "32 word"
type_synonym u16 = "16 word"
type_synonym u8 = "8 word"

named_theorems key_defs "definitions of the storage key builders"
named_theorems store_simps "laws of the key-value store, as rewrite rules"
named_theorems cache_simps "laws of the document caches"

datatype ('e, 'a) outcome = Ok 'a | Err 'e | Panic

fun is_ok :: "('e, 'a) outcome \<Rightarrow> bool" where
  "is_ok (Ok _) = True"
| "is_ok _ = False"

definition wrap64 :: "int \<Rightarrow> int" where
  "wrap64 n = sint (word_of_int n :: 64 word)"

lemma wrap64_id [simp]: "- (2 ^ 63) \<le> n \<Longrightarrow> n < 2 ^ 63 \<Longrightarrow> wrap64 n = n"
  unfolding wrap64_def by (subst sint_sbintrunc') (auto simp: signed_take_bit_int_eq_self)

subsection \<open>Lists\<close>

lemma takeWhile_append_stop:
  "(\<forall>x \<in> set xs. P x) \<Longrightarrow> \<not> P y \<Longrightarrow> takeWhile P (xs @ y # ys) = xs"
  by (induction xs) auto

lemma dropWhile_append_stop:
  "(\<forall>x \<in> set xs. P x) \<Longrightarrow> \<not> P y \<Longrightarrow> dropWhile P (xs @ y # ys) = y # ys"
  by (induction xs) auto

lemma takeWhile_neq_sep [simp]: "x \<notin> set a \<Longrightarrow> takeWhile (\<lambda>c. c \<noteq> x) (a @ x # r) = a"
  by (rule takeWhile_append_stop) auto

lemma dropWhile_neq_sep [simp]: "x \<notin> set a \<Longrightarrow> dropWhile (\<lambda>c. c \<noteq> x) (a @ x # r) = x # r"
  by (rule dropWhile_append_stop) auto

lemma append_sep_inject:
  assumes "a @ x # r = b @ x # s" and "x \<notin> set a" and "x \<notin> set b"
  shows "a = b \<and> r = s"
  using assms
proof (induction a arbitrary: b)
  case Nil
  then show ?case by (cases b) auto
next
  case (Cons c a)
  then obtain b' where "b = c # b'" by (cases b) auto
  with Cons show ?case by auto
qed

text \<open>The key of the first \<open>n\<close> elements of an array that is written from the left.\<close>

lemma take_overwrite:
  "n + length t \<le> length buf \<Longrightarrow> take (n + length t) (take n buf @ t @ drop (n + length t) buf) = take n buf @ t"
  by simp

lemma length_overwrite [simp]:
  "n + length t \<le> length buf \<Longrightarrow> length (take n buf @ t @ drop (n + length t) buf) = length buf"
  by simp

subsection \<open>Big-endian fields\<close>

text \<open>
  \<open>be_bytes k n\<close> is the \<open>k\<close>-byte big-endian form of \<open>n\<close> modulo \<open>256 ^ k\<close>, as
  \<^verbatim>\<open>binary.BigEndian.AppendUint64/32/16\<close> append it; \<open>be_nat\<close> reads it back.
\<close>

primrec be_bytes :: "nat \<Rightarrow> nat \<Rightarrow> bytes" where
  "be_bytes 0 n = []"
| "be_bytes (Suc k) n = be_bytes k (n div 256) @ [char_of (n mod 256)]"

definition be_nat :: "bytes \<Rightarrow> nat" where
  "be_nat bs = foldl (\<lambda>a c. a * 256 + of_char c) 0 bs"

lemma be_nat_Nil [simp]: "be_nat [] = 0"
  by (simp add: be_nat_def)

lemma be_nat_snoc [simp]: "be_nat (bs @ [c]) = be_nat bs * 256 + of_char c"
  by (simp add: be_nat_def)

lemma length_be_bytes [simp]: "length (be_bytes k n) = k"
  by (induction k arbitrary: n) auto

lemma be_nat_be_bytes [simp]: "be_nat (be_bytes k n) = n mod 256 ^ k"
proof (induction k arbitrary: n)
  case 0
  then show ?case by simp
next
  case (Suc k)
  have "n mod (256 * 256 ^ k) = 256 * (n div 256 mod 256 ^ k) + n mod 256"
    by (rule mod_mult2_eq)
  with Suc show ?case by (simp add: mult.commute)
qed

lemma be_nat_less: "be_nat bs < 256 ^ length bs"
proof (induction bs rule: rev_induct)
  case Nil
  then show ?case by simp
next
  case (snoc c bs)
  have "(of_char c :: nat) < 256" by simp
  moreover have "be_nat bs * 256 + 256 \<le> 256 ^ length bs * 256"
    using snoc by (simp add: algebra_simps)
  ultimately have "be_nat bs * 256 + of_char c < 256 ^ length bs * 256" by linarith
  then show ?case by (simp add: mult.commute)
qed

lemma be_bytes_be_nat [simp]: "be_bytes (length bs) (be_nat bs) = bs"
proof (induction bs rule: rev_induct)
  case Nil
  then show ?case by simp
next
  case (snoc c bs)
  have c: "(of_char c :: nat) < 256" by simp
  then have "(be_nat bs * 256 + of_char c) div 256 = be_nat bs"
    and "(be_nat bs * 256 + of_char c) mod 256 = of_char c"
    by simp_all
  with snoc show ?case by simp
qed

definition be64 :: "u64 \<Rightarrow> bytes" where
  "be64 w = be_bytes 8 (unat w)"

definition be32 :: "u32 \<Rightarrow> bytes" where
  "be32 w = be_bytes 4 (unat w)"

definition be16 :: "u16 \<Rightarrow> bytes" where
  "be16 w = be_bytes 2 (unat w)"

definition get_be64 :: "bytes \<Rightarrow> u64" where
  "get_be64 bs = word_of_nat (be_nat (take 8 bs))"

definition get_be32 :: "bytes \<Rightarrow> u32" where
  "get_be32 bs = word_of_nat (be_nat (take 4 bs))"

definition get_be16 :: "bytes \<Rightarrow> u16" where
  "get_be16 bs = word_of_nat (be_nat (take 2 bs))"

lemma unat_less_exp: "unat (w :: 'a::len word) < 2 ^ LENGTH('a)"
  by transfer (simp add: take_bit_eq_mod nat_less_iff)

lemma length_be [simp]: "length (be64 w) = 8" "length (be32 v) = 4" "length (be16 u) = 2"
  by (simp_all add: be64_def be32_def be16_def)

lemma get_be64_be64 [simp]: "get_be64 (be64 w @ r) = w"
  using unat_less_exp [of w] by (simp add: get_be64_def be64_def)

lemma get_be32_be32 [simp]: "get_be32 (be32 w @ r) = w"
  using unat_less_exp [of w] by (simp add: get_be32_def be32_def)

lemma get_be16_be16 [simp]: "get_be16 (be16 w @ r) = w"
  using unat_less_exp [of w] by (simp add: get_be16_def be16_def)

lemma be64_get_be64: "8 \<le> length bs \<Longrightarrow> be64 (get_be64 bs) = take 8 bs"
  using be_nat_less [of "take 8 bs"] be_bytes_be_nat [of "take 8 bs"]
  by (simp add: be64_def get_be64_def unat_of_nat)

lemma be32_get_be32: "4 \<le> length bs \<Longrightarrow> be32 (get_be32 bs) = take 4 bs"
  using be_nat_less [of "take 4 bs"] be_bytes_be_nat [of "take 4 bs"]
  by (simp add: be32_def get_be32_def unat_of_nat)

lemma be16_get_be16: "2 \<le> length bs \<Longrightarrow> be16 (get_be16 bs) = take 2 bs"
  using be_nat_less [of "take 2 bs"] be_bytes_be_nat [of "take 2 bs"]
  by (simp add: be16_def get_be16_def unat_of_nat)

subsection \<open>Decimal digits\<close>

fun dec_nat :: "nat \<Rightarrow> bytes" where
  "dec_nat n = (if n < 10 then [char_of (48 + n)] else dec_nat (n div 10) @ [char_of (48 + n mod 10)])"

declare dec_nat.simps [simp del]

definition pad_zero :: "nat \<Rightarrow> bytes \<Rightarrow> bytes" where
  "pad_zero w ds = replicate (w - length ds) (CHR ''0'') @ ds"

text \<open>\<^verbatim>\<open>fmt.Sprintf("%020d", n)\<close>: the sign counts towards the width.\<close>

definition fmt_020d :: "int \<Rightarrow> bytes" where
  "fmt_020d n = (if n < 0 then CHR ''-'' # pad_zero 19 (dec_nat (nat (- n)))
                 else pad_zero 20 (dec_nat (nat n)))"

text \<open>The number a digit string denotes, to compare digit strings.\<close>

definition dec_val :: "bytes \<Rightarrow> nat" where
  "dec_val ds = foldl (\<lambda>a c. a * 10 + (of_char c - 48)) 0 ds"

lemma dec_val_Nil [simp]: "dec_val [] = 0"
  by (simp add: dec_val_def)

lemma dec_val_snoc [simp]: "dec_val (ds @ [c]) = dec_val ds * 10 + (of_char c - 48)"
  by (simp add: dec_val_def)

definition is_digit :: "char \<Rightarrow> bool" where
  "is_digit c \<longleftrightarrow> 48 \<le> (of_char c :: nat) \<and> (of_char c :: nat) \<le> 57"

lemma digit_char [simp]:
  "d < 10 \<Longrightarrow> of_char (char_of (48 + d) :: char) = (48 + d :: nat)"
  by simp

lemma dec_nat_digits: "\<forall>c \<in> set (dec_nat n). is_digit c"
proof (induction n rule: dec_nat.induct)
  case (1 n)
  show ?case
  proof (cases "n < 10")
    case True
    then show ?thesis by (subst dec_nat.simps) (simp add: is_digit_def)
  next
    case False
    with 1 show ?thesis by (subst dec_nat.simps) (simp add: is_digit_def)
  qed
qed

lemma dec_val_dec_nat [simp]: "dec_val (dec_nat n) = n"
proof (induction n rule: dec_nat.induct)
  case (1 n)
  show ?case
  proof (cases "n < 10")
    case True
    then show ?thesis by (subst dec_nat.simps) (simp add: dec_val_def)
  next
    case False
    with 1 show ?thesis by (subst dec_nat.simps) simp
  qed
qed

lemma length_dec_nat: "n < 10 ^ Suc k \<Longrightarrow> length (dec_nat n) \<le> Suc k"
proof (induction k arbitrary: n)
  case 0
  then show ?case by (subst dec_nat.simps) simp
next
  case (Suc k)
  show ?case
  proof (cases "n < 10")
    case True
    then show ?thesis by (subst dec_nat.simps) simp
  next
    case False
    have "n div 10 < 10 ^ Suc k" using Suc.prems by (simp add: div_less_iff_less_mult mult.commute)
    then have "length (dec_nat (n div 10)) \<le> Suc k" by (rule Suc.IH)
    with False show ?thesis by (subst dec_nat.simps) simp
  qed
qed

lemma length_pad_zero: "length ds \<le> w \<Longrightarrow> length (pad_zero w ds) = w"
  by (simp add: pad_zero_def)

lemma dec_val_replicate_zero [simp]: "dec_val (replicate m (CHR ''0'') @ ds) = dec_val ds"
proof (induction ds rule: rev_induct)
  case Nil
  show ?case by (induction m) (simp_all add: dec_val_def)
next
  case (snoc c ds)
  then show ?case
    using dec_val_snoc [of "replicate m (CHR ''0'') @ ds" c] by simp
qed

lemma length_fmt_020d: "0 \<le> n \<Longrightarrow> n < 2 ^ 63 \<Longrightarrow> length (fmt_020d n) = 20"
proof -
  assume "0 \<le> n" and "n < 2 ^ 63"
  then have "nat n < 10 ^ Suc 19" by (simp add: nat_less_iff)
  then have "length (dec_nat (nat n)) \<le> Suc 19" by (rule length_dec_nat)
  with \<open>0 \<le> n\<close> show ?thesis by (simp add: fmt_020d_def length_pad_zero)
qed

text \<open>Digit strings of one length are ordered as the numbers they denote.\<close>

lemma dec_val_Cons:
  "dec_val (c # ds) = (of_char c - 48) * 10 ^ length ds + dec_val ds"
proof (induction ds rule: rev_induct)
  case Nil
  then show ?case by (simp add: dec_val_def)
next
  case (snoc d ds)
  then show ?case using dec_val_snoc [of "c # ds" d] by (simp add: algebra_simps)
qed

lemma dec_val_less: "\<forall>c \<in> set ds. is_digit c \<Longrightarrow> dec_val ds < 10 ^ length ds"
proof (induction ds)
  case Nil
  then show ?case by simp
next
  case (Cons c ds)
  from Cons.prems have "(of_char c :: nat) \<le> 57" by (simp add: is_digit_def)
  then have c: "(of_char c - 48 :: nat) \<le> 9" by linarith
  have "(of_char c - 48) * 10 ^ length ds \<le> (9 * 10 ^ length ds :: nat)"
    using c by (intro mult_right_mono) auto
  moreover have "dec_val ds < 10 ^ length ds" using Cons by simp
  ultimately have "(of_char c - 48) * 10 ^ length ds + dec_val ds < 10 * 10 ^ length ds" by linarith
  then show ?case by (simp add: dec_val_Cons)
qed

lemma digit_strings_less_iff:
  assumes "length a = length b" and "\<forall>c \<in> set a. is_digit c" and "\<forall>c \<in> set b. is_digit c"
  shows "a < b \<longleftrightarrow> dec_val a < dec_val b"
  using assms
proof (induction a b rule: list_induct2)
  case Nil
  then show ?case by simp
next
  case (Cons c cs d ds)
  have vc: "dec_val cs < 10 ^ length ds" and vd: "dec_val ds < 10 ^ length ds"
    using Cons dec_val_less [of cs] dec_val_less [of ds] by auto
  have cd: "c < d \<longleftrightarrow> (of_char c :: nat) < of_char d"
    by (simp add: less_char_def)
  define x where "x = (of_char c - 48 :: nat)"
  define y where "y = (of_char d - 48 :: nat)"
  have xy: "c < d \<longleftrightarrow> x < y" "c = d \<longleftrightarrow> x = y"
    using Cons.prems cd of_char_eq_iff [where ?'a = nat, of c d]
    by (auto simp: x_def y_def is_digit_def simp del: of_char_eq_iff)
  have step: "x < y \<Longrightarrow> x * 10 ^ length ds + dec_val cs < y * 10 ^ length ds + dec_val ds"
    if "dec_val cs < 10 ^ length ds" for x y :: nat and cs ds :: bytes
  proof -
    assume "x < y"
    then have "Suc x * 10 ^ length ds \<le> y * 10 ^ length ds" by (intro mult_right_mono) auto
    with that show ?thesis by simp
  qed
  show ?case
  proof (cases "x = y")
    case True
    with Cons xy show ?thesis by (simp add: dec_val_Cons x_def y_def)
  next
    case False
    then consider "x < y" | "y < x" by linarith
    then show ?thesis
    proof cases
      case 1
      then show ?thesis
        using step [OF vc 1] xy Cons.hyps by (simp add: dec_val_Cons x_def y_def)
    next
      case 2
      have "y * 10 ^ length ds + dec_val ds < x * 10 ^ length ds + dec_val cs"
        using step [of ds cs y x] vd 2 Cons.hyps by simp
      then show ?thesis
        using xy 2 Cons.hyps by (auto simp: dec_val_Cons x_def y_def)
    qed
  qed
qed

lemma fmt_020d_digits: "0 \<le> n \<Longrightarrow> \<forall>c \<in> set (fmt_020d n). is_digit c"
  using dec_nat_digits [of "nat n"] by (auto simp: fmt_020d_def pad_zero_def is_digit_def)

lemma dec_val_fmt_020d: "0 \<le> n \<Longrightarrow> dec_val (fmt_020d n) = nat n"
  by (simp add: fmt_020d_def pad_zero_def)

lemma fmt_020d_less_iff:
  assumes "0 \<le> m" "m < 2 ^ 63" "0 \<le> n" "n < 2 ^ 63"
  shows "fmt_020d m < fmt_020d n \<longleftrightarrow> m < n"
  using assms
  by (auto simp: digit_strings_less_iff length_fmt_020d fmt_020d_digits dec_val_fmt_020d)

lemma fmt_020d_inject:
  assumes "0 \<le> m" "m < 2 ^ 63" "0 \<le> n" "n < 2 ^ 63"
  shows "fmt_020d m = fmt_020d n \<longleftrightarrow> m = n"
proof
  assume "fmt_020d m = fmt_020d n"
  then have "dec_val (fmt_020d m) = dec_val (fmt_020d n)" by simp
  with assms show "m = n" by (simp add: dec_val_fmt_020d)
qed simp

subsection \<open>Prefixes in the byte order\<close>

lemma append_less_iff [simp]: "p @ a < p @ b \<longleftrightarrow> a < (b :: bytes)"
  by (induction p) auto

lemma prefix_ge: "prefix p k \<Longrightarrow> p \<le> (k :: bytes)"
proof -
  have "p \<le> p @ r" for r :: bytes
    by (induction p) auto
  then show "prefix p k \<Longrightarrow> p \<le> k" by (auto simp: prefix_def)
qed

text \<open>The keys with a given prefix are convex in the byte order.\<close>

lemma prefix_convex:
  assumes "p \<le> (a :: bytes)" and "a \<le> b" and "prefix p b"
  shows "prefix p a"
  using assms
proof (induction p arbitrary: a b)
  case Nil
  then show ?case by simp
next
  case (Cons c p)
  from Cons.prems(3) obtain b' where b: "b = c # b'" and pb: "prefix p b'"
    by (cases b) auto
  from Cons.prems(1) obtain d a' where a: "a = d # a'" by (cases a) auto
  from Cons.prems a b have "d = c" and "p \<le> a'" and "a' \<le> b'" by auto
  with Cons.IH [of a' b'] pb a show ?case by simp
qed

end
