(* ===== verification/Storage_Keys.thy ===== *)
theory Storage_Keys
  imports Mddb_Prelude "HOL-Library.Monad_Syntax"
begin

section \<open>Documents, storage keys and byte helpers\<close>

text \<open>
  The persisted data model: the document record (\<^verbatim>\<open>internal/storage/doc.go\<close>), the bolt key
  builders (\<^verbatim>\<open>internal/storage/keys.go\<close>), the allocation-free \<^verbatim>\<open>KeyBuilder\<close> with its
  512-byte buffer (\<^verbatim>\<open>keybuilder.go\<close>), the byte helpers (\<^verbatim>\<open>bytes_utils.go\<close>), document ids
  (\<^verbatim>\<open>util.go\<close>) and the comparison of metadata maps (\<^verbatim>\<open>metadata.go\<close>).

  A Go map is the list of its entries in the order one iteration yields them; a theorem about
  every such list is a theorem about every iteration order.
\<close>

type_synonym meta = "(bytes \<times> bytes list) list"

record Doc =
  ID :: bytes
  DKey :: bytes
  Lang :: bytes
  Meta :: meta
  ContentMD :: bytes
  AddedAt :: int
  UpdatedAt :: int
  ExpiresAt :: int

text \<open>The zero value \<^verbatim>\<open>storage.Doc{}\<close>.\<close>

definition empty_doc :: Doc where
  "empty_doc = \<lparr>ID = [], DKey = [], Lang = [], Meta = [], ContentMD = [],
                AddedAt = 0, UpdatedAt = 0, ExpiresAt = 0\<rparr>"

subsection \<open>Key builders of the storage package\<close>

definition DocKey :: "bytes \<Rightarrow> bytes \<Rightarrow> bytes" where
  "DocKey coll i = ''doc|'' @ coll @ ''|'' @ i"

definition ByKeyKey :: "bytes \<Rightarrow> bytes \<Rightarrow> bytes \<Rightarrow> bytes" where
  "ByKeyKey coll key lang = ''bykey|'' @ coll @ ''|'' @ key @ ''|'' @ lang"

definition RevPrefix :: "bytes \<Rightarrow> bytes \<Rightarrow> bytes" where
  "RevPrefix coll i = ''rev|'' @ coll @ ''|'' @ i @ ''|''"

definition MetaKeyPrefix :: "bytes \<Rightarrow> bytes \<Rightarrow> bytes \<Rightarrow> bytes" where
  "MetaKeyPrefix coll mk mv = ''meta|'' @ coll @ ''|'' @ mk @ ''|'' @ mv @ ''|''"

lemmas [key_defs] = DocKey_def ByKeyKey_def RevPrefix_def MetaKeyPrefix_def

subsection \<open>Document ids\<close>

definition lower_byte :: "char \<Rightarrow> char" where
  "lower_byte c = (if CHR ''A'' \<le> c \<and> c \<le> CHR ''Z'' then char_of (of_char c + 32 :: nat) else c)"

fun genID :: "bytes list \<Rightarrow> bytes" where
  "genID [] = []"
| "genID [p] = map lower_byte p"
| "genID (p # ps) = map lower_byte p @ ''|'' @ genID ps"

subsection \<open>Metadata maps\<close>

definition meta_get :: "meta \<Rightarrow> bytes \<Rightarrow> bytes list option" where
  "meta_get m k = map_of m k"

fun vals_equal :: "bytes list \<Rightarrow> bytes list \<Rightarrow> bool" where
  "vals_equal [] [] = True"
| "vals_equal (a # as) (b # bs) = (a = b \<and> vals_equal as bs)"
| "vals_equal _ _ = False"

fun metadataEqual_loop :: "meta \<Rightarrow> meta \<Rightarrow> bool" where
  "metadataEqual_loop [] b = True"
| "metadataEqual_loop ((key, aVals) # a) b =
     (case meta_get b key of
        None \<Rightarrow> False
      | Some bVals \<Rightarrow>
          if length aVals \<noteq> length bVals then False
          else if \<not> vals_equal aVals bVals then False
          else metadataEqual_loop a b)"

definition metadataEqual :: "meta \<Rightarrow> meta \<Rightarrow> bool" where
  "metadataEqual a b = (if length a \<noteq> length b then False else metadataEqual_loop a b)"

definition metadataChanged :: "meta \<Rightarrow> meta \<Rightarrow> bool" where
  "metadataChanged existing new =
     (if length existing = 0 \<and> length new > 0 then True
      else if length existing = 0 \<and> length new = 0 then False
      else \<not> metadataEqual existing new)"

lemma vals_equal_iff [simp]: "vals_equal a b \<longleftrightarrow> a = b"
  by (induction a b rule: vals_equal.induct) auto

lemma metadataEqual_loop_iff:
  "distinct (map fst a) \<Longrightarrow> metadataEqual_loop a b \<longleftrightarrow> (\<forall>k v. map_of a k = Some v \<longrightarrow> map_of b k = Some v)"
proof (induction a)
  case Nil
  then show ?case by simp
next
  case (Cons p a)
  obtain k v where p: "p = (k, v)" by (cases p)
  with Cons have IH: "metadataEqual_loop a b \<longleftrightarrow> (\<forall>k v. map_of a k = Some v \<longrightarrow> map_of b k = Some v)"
    and nk: "map_of a k = None"
    by (auto simp: map_of_eq_None_iff)
  have "metadataEqual_loop (p # a) b \<longleftrightarrow> map_of b k = Some v \<and> metadataEqual_loop a b"
    by (auto simp: p meta_get_def split: option.splits)
  also have "\<dots> \<longleftrightarrow> (\<forall>k' v'. map_of (p # a) k' = Some v' \<longrightarrow> map_of b k' = Some v')"
    using nk by (auto simp: IH p)
  finally show ?case .
qed

lemma map_of_eqI_card:
  assumes "distinct (map fst a)" and "distinct (map fst b)" and "length a = length b"
    and "\<forall>k v. map_of a k = Some v \<longrightarrow> map_of b k = Some v"
  shows "map_of a = map_of b"
proof -
  have "set a \<subseteq> set b"
    using assms by (auto dest: map_of_SomeD)
  moreover have "card (set a) = card (set b)"
    using assms(1-3) by (simp add: distinct_card distinct_map)
  ultimately have "set a = set b" by (simp add: card_subset_eq)
  then show ?thesis using assms(1,2) by (simp add: map_of_inject_set)
qed

text \<open>\<^verbatim>\<open>metadataChanged\<close> is inequality of the two maps, whatever order they iterate in.\<close>

lemma metadataChanged_iff:
  assumes "distinct (map fst a)" and "distinct (map fst b)"
  shows "metadataChanged a b \<longleftrightarrow> map_of a \<noteq> map_of b"
proof -
  have eq: "metadataEqual a b \<longleftrightarrow> map_of a = map_of b"
  proof
    assume "metadataEqual a b"
    then show "map_of a = map_of b"
      using assms by (auto simp: metadataEqual_def metadataEqual_loop_iff split: if_splits
          intro!: map_of_eqI_card)
  next
    assume m: "map_of a = map_of b"
    then have "set a = set b" using assms by (simp add: map_of_inject_set)
    then have "length a = length b"
      using assms by (metis distinct_card distinct_map)
    with m assms show "metadataEqual a b"
      by (simp add: metadataEqual_def metadataEqual_loop_iff)
  qed
  have ne: "map_of [] \<noteq> map_of c" if "c \<noteq> []" for c :: meta
    using that by (cases c) (auto simp: fun_eq_iff)
  show ?thesis
    using eq ne [of a] ne [of b] by (auto simp: metadataChanged_def)
qed

subsection \<open>Key builders on the 512-byte buffer\<close>

text \<open>
  The state of a build is the buffer and the write index.  \<open>kb_copy\<close> is
  \<^verbatim>\<open>n += copy(kb.buf[n:], src)\<close>, which stops at the end of the array; \<open>kb_sep\<close> is
  \<^verbatim>\<open>kb.buf[n] = '|'; n++\<close>, which panics (\<open>None\<close>) when the index is out of range.
\<close>

type_synonym kb_state = "bytes \<times> nat"

definition kb_copy :: "kb_state \<Rightarrow> bytes \<Rightarrow> kb_state" where
  "kb_copy st src =
     (let (buf, n) = st; m = min (length buf - n) (length src)
      in (take n buf @ take m src @ drop (n + m) buf, n + m))"

definition kb_sep :: "kb_state \<Rightarrow> kb_state option" where
  "kb_sep st = (let (buf, n) = st in if n < length buf then Some (buf[n := CHR ''|''], Suc n) else None)"

definition kb_result :: "kb_state \<Rightarrow> bytes \<times> bytes" where
  "kb_result st = (let (buf, n) = st in (buf, take n buf))"

definition BuildDocKey :: "bytes \<Rightarrow> bytes \<Rightarrow> bytes \<Rightarrow> (bytes \<times> bytes) option" where
  "BuildDocKey buf coll i = do {
     st \<leftarrow> kb_sep (kb_copy (kb_copy (buf, 0) ''doc|'') coll);
     Some (kb_result (kb_copy st i)) }"

definition BuildByKey :: "bytes \<Rightarrow> bytes \<Rightarrow> bytes \<Rightarrow> bytes \<Rightarrow> (bytes \<times> bytes) option" where
  "BuildByKey buf coll key lang = do {
     st \<leftarrow> kb_sep (kb_copy (kb_copy (buf, 0) ''bykey|'') coll);
     st \<leftarrow> kb_sep (kb_copy st key);
     Some (kb_result (kb_copy st lang)) }"

definition BuildRevPrefix :: "bytes \<Rightarrow> bytes \<Rightarrow> bytes \<Rightarrow> (bytes \<times> bytes) option" where
  "BuildRevPrefix buf coll i = do {
     st \<leftarrow> kb_sep (kb_copy (kb_copy (buf, 0) ''rev|'') coll);
     st \<leftarrow> kb_sep (kb_copy st i);
     Some (kb_result st) }"

definition BuildMetaKeyPrefix :: "bytes \<Rightarrow> bytes \<Rightarrow> bytes \<Rightarrow> bytes \<Rightarrow> (bytes \<times> bytes) option" where
  "BuildMetaKeyPrefix buf coll mk mv = do {
     st \<leftarrow> kb_sep (kb_copy (kb_copy (buf, 0) ''meta|'') coll);
     st \<leftarrow> kb_sep (kb_copy st mk);
     st \<leftarrow> kb_sep (kb_copy st mv);
     Some (kb_result st) }"

definition BuildMetaKey :: "bytes \<Rightarrow> bytes \<Rightarrow> bytes \<Rightarrow> bytes \<Rightarrow> bytes \<Rightarrow> (bytes \<times> bytes) option" where
  "BuildMetaKey buf coll mk mv docID = do {
     st \<leftarrow> kb_sep (kb_copy (kb_copy (buf, 0) ''meta|'') coll);
     st \<leftarrow> kb_sep (kb_copy st mk);
     st \<leftarrow> kb_sep (kb_copy st mv);
     Some (kb_result (kb_copy st docID)) }"

text \<open>
  \<^verbatim>\<open>FormatTimestamp\<close>: the digits are collected least significant first, then reversed into
  the right end of the 20-byte buffer it is given.
\<close>

function ft_digits :: "int \<Rightarrow> bytes" where
  "ft_digits n = (if n > 0 then char_of (nat (48 + n mod 10)) # ft_digits (n div 10) else [])"
  by pat_completeness auto
termination
  by (relation "measure nat") auto

declare ft_digits.simps [simp del]

definition FormatTimestamp :: "int \<Rightarrow> bytes" where
  "FormatTimestamp timestamp =
     (if timestamp = 0 then replicate 20 (CHR ''0'')
      else let digits = ft_digits timestamp; padding = 20 - length digits
           in replicate padding (CHR ''0'') @ rev digits)"

definition BuildRevKey :: "bytes \<Rightarrow> bytes \<Rightarrow> bytes \<Rightarrow> int \<Rightarrow> (bytes \<times> bytes) option" where
  "BuildRevKey buf coll i timestamp = do {
     st \<leftarrow> kb_sep (kb_copy (kb_copy (buf, 0) ''rev|'') coll);
     (buf', n) \<leftarrow> kb_sep (kb_copy st i);
     if n + 20 \<le> length buf' then Some (kb_result (kb_copy (buf', n) (FormatTimestamp timestamp)))
     else None }"

subsection \<open>Byte helpers\<close>

text \<open>\<open>cur\<close> is the slice \<^verbatim>\<open>data[start:i]\<close> of the loops below.\<close>

fun BytesSplit_loop :: "char \<Rightarrow> bytes \<Rightarrow> bytes \<Rightarrow> bytes list" where
  "BytesSplit_loop sep cur [] = [cur]"
| "BytesSplit_loop sep cur (c # cs) =
     (if c = sep then cur # BytesSplit_loop sep [] cs else BytesSplit_loop sep (cur @ [c]) cs)"

definition BytesSplit :: "bytes \<Rightarrow> char \<Rightarrow> bytes list" where
  "BytesSplit data sep = (if length data = 0 then [] else BytesSplit_loop sep [] data)"

definition BytesHasPrefix :: "bytes \<Rightarrow> bytes \<Rightarrow> bool" where
  "BytesHasPrefix b p \<longleftrightarrow> length b \<ge> length p \<and> take (length p) b = p"

fun BytesIndexByte_loop :: "nat \<Rightarrow> bytes \<Rightarrow> char \<Rightarrow> int" where
  "BytesIndexByte_loop i [] c = -1"
| "BytesIndexByte_loop i (b # bs) c = (if b = c then int i else BytesIndexByte_loop (Suc i) bs c)"

definition BytesIndexByte :: "bytes \<Rightarrow> char \<Rightarrow> int" where
  "BytesIndexByte b c = BytesIndexByte_loop 0 b c"

fun BytesLastIndexByte_loop :: "nat \<Rightarrow> bytes \<Rightarrow> char \<Rightarrow> int" where
  "BytesLastIndexByte_loop 0 b c = -1"
| "BytesLastIndexByte_loop (Suc i) b c = (if b ! i = c then int i else BytesLastIndexByte_loop i b c)"

definition BytesLastIndexByte :: "bytes \<Rightarrow> char \<Rightarrow> int" where
  "BytesLastIndexByte b c = BytesLastIndexByte_loop (length b) b c"

fun ExtractPart_loop :: "int \<Rightarrow> int \<Rightarrow> bytes \<Rightarrow> bytes \<Rightarrow> bytes option" where
  "ExtractPart_loop partIndex currentPart cur [] = (if currentPart = partIndex then Some cur else None)"
| "ExtractPart_loop partIndex currentPart cur (c # cs) =
     (if c = CHR ''|'' then
        (if currentPart = partIndex then Some cur
         else ExtractPart_loop partIndex (currentPart + 1) [] cs)
      else ExtractPart_loop partIndex currentPart (cur @ [c]) cs)"

definition ExtractPart :: "bytes \<Rightarrow> int \<Rightarrow> bytes option" where
  "ExtractPart data partIndex =
     (if length data = 0 then None else ExtractPart_loop partIndex 0 [] data)"

definition AppendBytes :: "bytes \<Rightarrow> bytes list \<Rightarrow> bytes" where
  "AppendBytes dst parts = foldl (\<lambda>d p. d @ p) dst parts"

definition BytesToLower :: "bytes \<Rightarrow> bytes" where
  "BytesToLower b = map lower_byte b"

fun CompareBytes :: "bytes \<Rightarrow> bytes \<Rightarrow> int" where
  "CompareBytes (a # as) (b # bs) = (if a < b then -1 else if a > b then 1 else CompareBytes as bs)"
| "CompareBytes [] [] = 0"
| "CompareBytes [] (b # bs) = -1"
| "CompareBytes (a # as) [] = 1"

definition CopyBytes :: "bytes option \<Rightarrow> bytes option" where
  "CopyBytes src = (case src of None \<Rightarrow> None | Some b \<Rightarrow> Some b)"

text \<open>\<^verbatim>\<open>strings.SplitN(s, sep, n)\<close> for a one-byte separator and \<open>n > 0\<close>.\<close>

fun SplitN :: "nat \<Rightarrow> char \<Rightarrow> bytes \<Rightarrow> bytes list" where
  "SplitN (Suc (Suc n)) sep s =
     (if sep \<in> set s
      then takeWhile (\<lambda>c. c \<noteq> sep) s # SplitN (Suc n) sep (tl (dropWhile (\<lambda>c. c \<noteq> sep) s))
      else [s])"
| "SplitN (Suc 0) sep s = [s]"
| "SplitN 0 sep s = []"

subsection \<open>The buffer builders compute the storage keys, cut at 512 bytes\<close>

text \<open>\<open>kb_rep st s\<close>: the build state holds the first 512 bytes of the key \<open>s\<close>.\<close>

definition kb_rep :: "kb_state \<Rightarrow> bytes \<Rightarrow> bool" where
  "kb_rep st s \<longleftrightarrow> length (fst st) = 512 \<and> snd st = min 512 (length s) \<and> take (snd st) (fst st) = take 512 s"

lemma kb_rep_init: "length buf = 512 \<Longrightarrow> kb_rep (buf, 0) []"
  by (simp add: kb_rep_def)

lemma kb_rep_copy:
  assumes "kb_rep st s"
  shows "kb_rep (kb_copy st t) (s @ t)"
proof -
  obtain buf n where st: "st = (buf, n)" by (cases st)
  define m where "m = min (512 - n) (length t)"
  from assms have l: "length buf = 512" and n: "n = min 512 (length s)" and pre: "take n buf = take 512 s"
    by (auto simp: kb_rep_def st)
  have step: "kb_copy st t = (take n buf @ take m t @ drop (n + m) buf, n + m)"
    by (simp add: kb_copy_def st l m_def Let_def)
  have le: "n + m \<le> 512" "m \<le> length t" using n by (auto simp: m_def)
  have tk: "take (n + m) (take n buf @ take m t @ drop (n + m) buf) = take n buf @ take m t"
    using le l n by simp
  have "take 512 (s @ t) = take 512 s @ take (512 - length s) t" by simp
  moreover have "take m t = take (512 - length s) t"
    using n by (auto simp: m_def min_def)
  ultimately have "take n buf @ take m t = take 512 (s @ t)" using pre by simp
  moreover have "n + m = min 512 (length (s @ t))" using n by (auto simp: m_def min_def)
  moreover have "length (take n buf @ take m t @ drop (n + m) buf) = 512"
    using le l n by simp
  ultimately show ?thesis using step tk by (simp add: kb_rep_def)
qed

lemma kb_rep_sep:
  assumes "kb_rep st s"
  shows "if length s < 512 then \<exists>st'. kb_sep st = Some st' \<and> kb_rep st' (s @ ''|'') else kb_sep st = None"
proof -
  obtain buf n where st: "st = (buf, n)" by (cases st)
  from assms have l: "length buf = 512" and n: "n = min 512 (length s)" and pre: "take n buf = take 512 s"
    by (auto simp: kb_rep_def st)
  show ?thesis
  proof (cases "length s < 512")
    case True
    then have "n = length s" and "n < length buf" using n l by auto
    then have "take (Suc n) (buf[n := CHR ''|'']) = take n buf @ ''|''"
      by (simp add: take_Suc_conv_app_nth)
    with True pre n l \<open>n = length s\<close> show ?thesis
      by (simp add: st kb_sep_def kb_rep_def)
  next
    case False
    then show ?thesis using n l by (simp add: st kb_sep_def)
  qed
qed

lemma kb_sep_bind:
  assumes "kb_rep st s"
    and "\<And>st'. kb_rep st' (s @ ''|'') \<Longrightarrow> map_option snd (f st') = g"
  shows "map_option snd (kb_sep st \<bind> f) = (if length s < 512 then g else None)"
  using kb_rep_sep [OF assms(1)] assms(2) by (auto split: if_splits)

lemma kb_rep_result: "kb_rep st s \<Longrightarrow> snd (kb_result st) = take 512 s"
  by (cases st) (simp add: kb_rep_def kb_result_def)

lemmas kb_rep_intros = kb_rep_init kb_rep_copy

lemma BuildDocKey_eq:
  assumes "length buf = 512"
  shows "map_option snd (BuildDocKey buf coll i) =
           (if 4 + length coll < 512 then Some (take 512 (DocKey coll i)) else None)"
proof -
  have "kb_rep (kb_copy (kb_copy (buf, 0) ''doc|'') coll) (([] @ ''doc|'') @ coll)"
    by (intro kb_rep_intros assms)
  then show ?thesis
    unfolding BuildDocKey_def
    by (subst kb_sep_bind) (auto simp: DocKey_def dest: kb_rep_copy [where t = i] simp: kb_rep_result)
qed

lemma BuildByKey_eq:
  assumes "length buf = 512"
  shows "map_option snd (BuildByKey buf coll key lang) =
           (if 7 + length coll + length key < 512 then Some (take 512 (ByKeyKey coll key lang)) else None)"
proof -
  have s1: "kb_rep (kb_copy (kb_copy (buf, 0) ''bykey|'') coll) (([] @ ''bykey|'') @ coll)"
    by (intro kb_rep_intros assms)
  have s2: "map_option snd (kb_sep (kb_copy st key) \<bind> (\<lambda>st. Some (kb_result (kb_copy st lang)))) =
      (if 7 + length coll + length key < 512 then Some (take 512 (ByKeyKey coll key lang)) else None)"
    if "kb_rep st ((([] @ ''bykey|'') @ coll) @ ''|'')" for st
    using that
    by (subst kb_sep_bind [OF kb_rep_copy [OF that]])
      (auto simp: ByKeyKey_def dest: kb_rep_copy [where t = lang] simp: kb_rep_result)
  show ?thesis
    unfolding BuildByKey_def by (subst kb_sep_bind [OF s1 s2]) auto
qed

lemma BuildRevPrefix_eq:
  assumes "length buf = 512"
  shows "map_option snd (BuildRevPrefix buf coll i) =
           (if 5 + length coll + length i < 512 then Some (take 512 (RevPrefix coll i)) else None)"
proof -
  have s1: "kb_rep (kb_copy (kb_copy (buf, 0) ''rev|'') coll) (([] @ ''rev|'') @ coll)"
    by (intro kb_rep_intros assms)
  have s2: "map_option snd (kb_sep (kb_copy st i) \<bind> (\<lambda>st. Some (kb_result st))) =
      (if 5 + length coll + length i < 512 then Some (take 512 (RevPrefix coll i)) else None)"
    if "kb_rep st ((([] @ ''rev|'') @ coll) @ ''|'')" for st
    using that
    by (subst kb_sep_bind [OF kb_rep_copy [OF that]]) (auto simp: RevPrefix_def kb_rep_result)
  show ?thesis
    unfolding BuildRevPrefix_def by (subst kb_sep_bind [OF s1 s2]) auto
qed

lemma BuildMetaKey_eq:
  assumes "length buf = 512"
  shows "map_option snd (BuildMetaKey buf coll mk mv docID) =
           (if 7 + length coll + length mk + length mv < 512
            then Some (take 512 (MetaKeyPrefix coll mk mv @ docID)) else None)"
proof -
  have s1: "kb_rep (kb_copy (kb_copy (buf, 0) ''meta|'') coll) (([] @ ''meta|'') @ coll)"
    by (intro kb_rep_intros assms)
  have s3: "map_option snd (kb_sep (kb_copy st mv) \<bind> (\<lambda>st. Some (kb_result (kb_copy st docID)))) =
      (if 7 + length coll + length mk + length mv < 512
       then Some (take 512 (MetaKeyPrefix coll mk mv @ docID)) else None)"
    if "kb_rep st ((((([] @ ''meta|'') @ coll) @ ''|'') @ mk) @ ''|'')" for st
    using that
    by (subst kb_sep_bind [OF kb_rep_copy [OF that]])
      (auto simp: MetaKeyPrefix_def dest: kb_rep_copy [where t = docID] simp: kb_rep_result)
  have s2: "map_option snd (kb_sep (kb_copy st mk) \<bind>
        (\<lambda>st. kb_sep (kb_copy st mv) \<bind> (\<lambda>st. Some (kb_result (kb_copy st docID))))) =
      (if 7 + length coll + length mk + length mv < 512
       then Some (take 512 (MetaKeyPrefix coll mk mv @ docID)) else None)"
    if "kb_rep st ((([] @ ''meta|'') @ coll) @ ''|'')" for st
    by (subst kb_sep_bind [OF kb_rep_copy [OF that] s3]) auto
  show ?thesis
    unfolding BuildMetaKey_def by (subst kb_sep_bind [OF s1 s2]) auto
qed

lemma BuildMetaKeyPrefix_eq:
  assumes "length buf = 512"
  shows "map_option snd (BuildMetaKeyPrefix buf coll mk mv) =
           (if 7 + length coll + length mk + length mv < 512
            then Some (take 512 (MetaKeyPrefix coll mk mv)) else None)"
proof -
  have "kb_copy st [] = st" for st by (cases st) (simp add: kb_copy_def)
  then have "BuildMetaKeyPrefix buf coll mk mv = BuildMetaKey buf coll mk mv []"
    unfolding BuildMetaKeyPrefix_def BuildMetaKey_def by simp
  then show ?thesis using BuildMetaKey_eq [OF assms, of coll mk mv "[]"] by simp
qed

text \<open>The digits of a positive number, reversed, are its decimal form.\<close>

lemma rev_ft_digits: "0 < n \<Longrightarrow> rev (ft_digits n) = dec_nat (nat n)"
proof (induction n rule: ft_digits.induct)
  case (1 n)
  then have n: "0 < n" by simp
  have c: "char_of (nat (48 + n mod 10)) = (char_of (48 + nat n mod 10) :: char)"
    using n by (simp add: nat_add_distrib nat_mod_distrib)
  show ?case
  proof (cases "n < 10")
    case True
    with n have "n div 10 = 0" by simp
    moreover have "nat n < 10" using True n by simp
    ultimately show ?thesis
      using n c by (subst ft_digits.simps, subst dec_nat.simps) (simp add: ft_digits.simps)
  next
    case False
    then have "\<not> nat n < 10" and d: "0 < n div 10" and "nat (n div 10) = nat n div 10"
      by (auto simp: nat_div_distrib)
    with 1 n c show ?thesis
      by (subst ft_digits.simps, subst dec_nat.simps) simp
  qed
qed

lemma FormatTimestamp_eq: "0 \<le> t \<Longrightarrow> FormatTimestamp t = fmt_020d t"
proof (cases "t = 0")
  case True
  have "replicate (Suc 19) (CHR ''0'') = replicate 19 (CHR ''0'') @ ''0''"
    by (simp only: replicate_Suc replicate_append_same)
  moreover have "dec_nat 0 = ''0''" by (subst dec_nat.simps) (simp add: char_of_eq_iff)
  ultimately show ?thesis using True
    by (simp add: FormatTimestamp_def fmt_020d_def pad_zero_def)
next
  case False
  assume "0 \<le> t"
  with False have t: "0 < t" by simp
  then have "length (ft_digits t) = length (dec_nat (nat t))"
    using rev_ft_digits [OF t] by (metis length_rev)
  with t show ?thesis
    by (simp add: FormatTimestamp_def fmt_020d_def pad_zero_def rev_ft_digits)
qed

lemma BuildRevKey_eq:
  assumes "length buf = 512" and "0 \<le> t" and "t < 2 ^ 63"
  shows "map_option snd (BuildRevKey buf coll i t) =
           (if length (RevPrefix coll i) + 20 \<le> 512 then Some (RevPrefix coll i @ fmt_020d t) else None)"
proof -
  let ?f = "\<lambda>(buf', n). if n + 20 \<le> length buf'
      then Some (kb_result (kb_copy (buf', n) (FormatTimestamp t))) else None"
  have s1: "kb_rep (kb_copy (kb_copy (buf, 0) ''rev|'') coll) (([] @ ''rev|'') @ coll)"
    by (intro kb_rep_intros assms)
  have fin: "map_option snd (?f st) =
      (if length (RevPrefix coll i) + 20 \<le> 512 then Some (RevPrefix coll i @ fmt_020d t) else None)"
    if "kb_rep st (((([] @ ''rev|'') @ coll) @ ''|'') @ i @ ''|'')" for st
  proof -
    have rep: "kb_rep st (RevPrefix coll i)" using that by (simp add: RevPrefix_def)
    obtain buf' n where st: "st = (buf', n)" by (cases st)
    from rep have "length buf' = 512" and "n = min 512 (length (RevPrefix coll i))"
      by (auto simp: kb_rep_def st)
    moreover have "snd (kb_result (kb_copy (buf', n) (FormatTimestamp t))) =
        take 512 (RevPrefix coll i @ fmt_020d t)"
      using kb_rep_result [OF kb_rep_copy [OF rep]] assms(2) by (simp add: st FormatTimestamp_eq)
    ultimately show ?thesis
      using assms(2,3) by (auto simp: st length_fmt_020d)
  qed
  have s2: "map_option snd (kb_sep (kb_copy st i) \<bind> ?f) =
      (if length (RevPrefix coll i) + 20 \<le> 512 then Some (RevPrefix coll i @ fmt_020d t) else None)"
    if "kb_rep st ((([] @ ''rev|'') @ coll) @ ''|'')" for st
    using that
    by (subst kb_sep_bind [OF kb_rep_copy [OF that] fin]) (auto simp: RevPrefix_def)
  show ?thesis
    unfolding BuildRevKey_def by (subst kb_sep_bind [OF s1 s2]) (auto simp: RevPrefix_def)
qed

subsection \<open>Keys identify what they are built from\<close>

text \<open>\<open>nosep s\<close>: the separator does not occur in \<open>s\<close>.\<close>

abbreviation nosep :: "bytes \<Rightarrow> bool" where
  "nosep s \<equiv> CHR ''|'' \<notin> set s"

lemma DocKey_inject:
  "nosep c \<Longrightarrow> nosep c' \<Longrightarrow> DocKey c i = DocKey c' i' \<longleftrightarrow> c = c' \<and> i = i'"
  by (auto simp: DocKey_def dest: append_sep_inject)

lemma DocKey_inject_id [simp]: "DocKey c i = DocKey c i' \<longleftrightarrow> i = i'"
  by (simp add: DocKey_def)

lemma ByKeyKey_inject:
  "nosep c \<Longrightarrow> nosep c' \<Longrightarrow> nosep k \<Longrightarrow> nosep k' \<Longrightarrow>
   ByKeyKey c k l = ByKeyKey c' k' l' \<longleftrightarrow> c = c' \<and> k = k' \<and> l = l'"
  by (auto simp: ByKeyKey_def dest: append_sep_inject)

lemma RevPrefix_inject:
  "nosep c \<Longrightarrow> nosep c' \<Longrightarrow> RevPrefix c i @ fmt_020d t = RevPrefix c' i' @ fmt_020d t' \<Longrightarrow>
   0 \<le> t \<Longrightarrow> t < 2 ^ 63 \<Longrightarrow> 0 \<le> t' \<Longrightarrow> t' < 2 ^ 63 \<Longrightarrow> c = c' \<and> i = i' \<and> t = t'"
proof -
  assume c: "nosep c" "nosep c'" and t: "0 \<le> t" "t < 2 ^ 63" "0 \<le> t'" "t' < 2 ^ 63"
    and eq: "RevPrefix c i @ fmt_020d t = RevPrefix c' i' @ fmt_020d t'"
  have "c @ CHR ''|'' # (i @ ''|'' @ fmt_020d t) = c' @ CHR ''|'' # (i' @ ''|'' @ fmt_020d t')"
    using eq by (simp add: RevPrefix_def)
  with c have "c = c'" and r: "i @ ''|'' @ fmt_020d t = i' @ ''|'' @ fmt_020d t'"
    by (auto dest: append_sep_inject)
  moreover have "length (fmt_020d t) = length (fmt_020d t')" using t by (simp add: length_fmt_020d)
  ultimately have "i @ ''|'' = i' @ ''|''" and "fmt_020d t = fmt_020d t'"
    using append_eq_append_conv [of "fmt_020d t" "fmt_020d t'" "i @ ''|''" "i' @ ''|''"] by auto
  with t \<open>c = c'\<close> show ?thesis by (simp add: fmt_020d_inject)
qed

lemma MetaKey_inject:
  "nosep mk \<Longrightarrow> nosep mk' \<Longrightarrow> nosep mv \<Longrightarrow> nosep mv' \<Longrightarrow>
   MetaKeyPrefix c mk mv @ i = MetaKeyPrefix c mk' mv' @ i' \<longleftrightarrow> mk = mk' \<and> mv = mv' \<and> i = i'"
  by (auto simp: MetaKeyPrefix_def dest: append_sep_inject)

lemma genID_nosep_parts_lower: "genID [c, k, l] = map lower_byte c @ ''|'' @ map lower_byte k @ ''|'' @ map lower_byte l"
  by simp

lemma rev_key_less_iff:
  assumes "0 \<le> t" "t < 2 ^ 63" "0 \<le> u" "u < 2 ^ 63"
  shows "RevPrefix c i @ fmt_020d t < RevPrefix c i @ fmt_020d u \<longleftrightarrow> t < u"
  using assms by (simp add: fmt_020d_less_iff)

subsection \<open>The byte helpers against their specifications\<close>

lemma BytesSplit_loop_nonempty: "BytesSplit_loop sep cur cs \<noteq> []"
  by (induction sep cur cs rule: BytesSplit_loop.induct) auto

lemma ExtractPart_loop_eq:
  "p \<ge> c \<Longrightarrow> ExtractPart_loop p c cur cs =
     (if nat (p - c) < length (BytesSplit_loop (CHR ''|'') cur cs)
      then Some (BytesSplit_loop (CHR ''|'') cur cs ! nat (p - c)) else None)"
proof (induction p c cur cs rule: ExtractPart_loop.induct)
  case (1 p c cur)
  then show ?case by auto
next
  case (2 p c cur x cs)
  show ?case
  proof (cases "x = CHR ''|''")
    case False
    with 2 show ?thesis by simp
  next
    case True
    show ?thesis
    proof (cases "c = p")
      case True
      then show ?thesis using \<open>x = CHR ''|''\<close> by simp
    next
      case False
      with "2.prems" have "nat (p - c) = Suc (nat (p - (c + 1)))" by simp
      moreover have "p \<ge> c + 1" using False "2.prems" by simp
      ultimately show ?thesis
        using 2 \<open>x = CHR ''|''\<close> False by simp
    qed
  qed
qed

lemma ExtractPart_eq:
  "ExtractPart data p =
     (if 0 \<le> p \<and> nat p < length (BytesSplit data (CHR ''|''))
      then Some (BytesSplit data (CHR ''|'') ! nat p) else None)"
proof -
  have neg: "p < c \<Longrightarrow> ExtractPart_loop p c cur cs = None" for c cur cs
    by (induction p c cur cs rule: ExtractPart_loop.induct) auto
  show ?thesis
    by (cases "0 \<le> p") (auto simp: ExtractPart_def BytesSplit_def ExtractPart_loop_eq neg)
qed

lemma CompareBytes_cases:
  "CompareBytes a b = (if a < b then -1 else if a = b then 0 else 1)"
  by (induction a b rule: CompareBytes.induct) auto

lemma AppendBytes_eq: "AppendBytes dst parts = dst @ concat parts"
proof -
  have "foldl (\<lambda>d p. d @ p) dst parts = dst @ concat parts" for dst
    by (induction parts arbitrary: dst) auto
  then show ?thesis by (simp add: AppendBytes_def)
qed

lemma BytesHasPrefix_iff: "BytesHasPrefix b p \<longleftrightarrow> prefix p b"
  by (metis BytesHasPrefix_def append_take_drop_id prefixI prefix_length_le take_is_prefix
      append_eq_conv_conj prefixE)

lemma BytesIndexByte_loop_eq:
  "BytesIndexByte_loop i bs c = (if c \<in> set bs then int (i + length (takeWhile (\<lambda>b. b \<noteq> c) bs)) else -1)"
  by (induction i bs c rule: BytesIndexByte_loop.induct) auto

lemma SplitN3_join:
  "nosep a \<Longrightarrow> nosep b \<Longrightarrow> SplitN 3 (CHR ''|'') (a @ ''|'' @ b @ ''|'' @ r) = [a, b, r]"
  by (simp add: numeral_3_eq_3 del: takeWhile_append2 dropWhile_append2)

subsection \<open>Properties\<close>

text \<open>The buffer builders compute the storage keys the server uses, cut at the 512 bytes of
  their buffer; they panic exactly when a separator does not fit any more.\<close>

theorem keybuilder_refines:
  assumes "length buf = 512"
  shows "map_option snd (BuildDocKey buf coll i) =
           (if 4 + length coll < 512 then Some (take 512 (DocKey coll i)) else None)
       \<and> map_option snd (BuildByKey buf coll key lang) =
           (if 7 + length coll + length key < 512 then Some (take 512 (ByKeyKey coll key lang)) else None)
       \<and> map_option snd (BuildRevPrefix buf coll i) =
           (if 5 + length coll + length i < 512 then Some (take 512 (RevPrefix coll i)) else None)
       \<and> map_option snd (BuildMetaKey buf coll mk mv i) =
           (if 7 + length coll + length mk + length mv < 512
            then Some (take 512 (MetaKeyPrefix coll mk mv @ i)) else None)"
  using assms by (intro conjI BuildDocKey_eq BuildByKey_eq BuildRevPrefix_eq BuildMetaKey_eq)

theorem keybuilder_refines_witness:
  "map_option snd (BuildDocKey (replicate 512 (CHR ''x'')) ''c'' ''i'') = Some ''doc|c|i''"
  using conjunct1 [OF keybuilder_refines [of "replicate 512 (CHR ''x'')" "''c''" "''i''" "[]" "[]" "[]" "[]"]]
  by (simp add: DocKey_def)

text \<open>Revision keys sort by time: of two revision keys built for the same document, the
  bytewise smaller one is that of the earlier timestamp, for every non-negative 64-bit time.\<close>

theorem rev_keys_sort_by_time:
  assumes "length buf = 512" and "length buf' = 512"
    and "0 \<le> t" and "t < 2 ^ 63" and "0 \<le> u" and "u < 2 ^ 63"
    and "map_option snd (BuildRevKey buf c i t) = Some k" and "map_option snd (BuildRevKey buf' c i u) = Some k'"
  shows "k < k' \<longleftrightarrow> t < u"
proof -
  have "k = RevPrefix c i @ fmt_020d t" "k' = RevPrefix c i @ fmt_020d u"
    using assms by (simp_all add: BuildRevKey_eq split: if_splits)
  then show ?thesis using rev_key_less_iff [OF assms(3-6)] by simp
qed

theorem rev_keys_sort_by_time_witness:
  "RevPrefix ''c'' ''i'' @ fmt_020d 9 < RevPrefix ''c'' ''i'' @ fmt_020d 10"
  by (subst rev_keys_sort_by_time [where buf = "replicate 512 (CHR ''x'')" and buf' = "replicate 512 (CHR ''x'')"
        and t = 9 and u = 10 and c = "''c''" and i = "''i''"])
    (simp_all add: BuildRevKey_eq, simp_all add: RevPrefix_def)

text \<open>Metadata counts as changed exactly when the old and the new metadata are different maps,
  whatever the iteration order of the two.\<close>

theorem metadataChanged_spec:
  assumes "distinct (map fst a)" and "distinct (map fst b)"
  shows "metadataChanged a b \<longleftrightarrow> map_of a \<noteq> map_of b"
  using assms by (rule metadataChanged_iff)

theorem metadataChanged_spec_witness:
  "\<not> metadataChanged [(''a'', [''1'']), (''b'', [])] [(''b'', []), (''a'', [''1''])]"
  using metadataChanged_spec [of "[(''a'', [''1'']), (''b'', [])]" "[(''b'', []), (''a'', [''1''])]"]
  by (simp add: fun_upd_twist)

text \<open>The allocation-free field extractor agrees with splitting the key at its separators, for
  every position, out of range included.\<close>

theorem ExtractPart_spec:
  "ExtractPart data p =
     (if 0 \<le> p \<and> nat p < length (BytesSplit data (CHR ''|''))
      then Some (BytesSplit data (CHR ''|'') ! nat p) else None)"
  by (rule ExtractPart_eq)

end
