(* ===== verification/Doc_Codec.thy ===== *)
theory Doc_Codec
  imports Storage_Keys
begin

section \<open>Serialised documents: compression, encryption at rest, format detection\<close>

text \<open>
  Models \<^verbatim>\<open>internal/compression/compression.go\<close>,
  \<^verbatim>\<open>internal/encryption/encryption.go\<close>, \<^verbatim>\<open>encryption_glue.go\<close>,
  \<^verbatim>\<open>storage.go\<close> and \<^verbatim>\<open>internal/storage/proto.go\<close>.  The compressors, the protobuf
  and JSON codecs and the AEAD cipher are not in the repository: they are the parameter \<open>L\<close>, a
  record of the calls the code makes, and the locale \<open>codec_laws\<close> states what the code relies on:
  decoding inverts encoding, opening inverts sealing under the same key and nonce.  A key byte
  is a character; the nonce of a seal is an argument, \<open>None\<close> when the random source fails.
\<close>

text \<open>The protobuf message (\<^verbatim>\<open>pb.Document\<close>).\<close>

record Document =
  pbId :: bytes
  pbKey :: bytes
  pbLang :: bytes
  pbMeta :: meta
  pbContentMd :: bytes
  pbAddedAt :: int
  pbUpdatedAt :: int
  pbExpiresAt :: int

record 'k codec_lib =
  snappy_enc :: "bytes \<Rightarrow> bytes"
  snappy_dec :: "bytes \<Rightarrow> bytes option"
  zstd_enc :: "bytes \<Rightarrow> bytes"
  zstd_dec :: "bytes \<Rightarrow> bytes option"
  aead_new :: "bytes \<Rightarrow> 'k"
  aead_seal :: "'k \<Rightarrow> bytes \<Rightarrow> bytes \<Rightarrow> bytes"
  aead_open :: "'k \<Rightarrow> bytes \<Rightarrow> bytes \<Rightarrow> bytes option"
  base64_dec :: "bytes \<Rightarrow> bytes option"
  proto_marshal :: "Document \<Rightarrow> bytes option"
  proto_unmarshal :: "bytes \<Rightarrow> Document option"
  json_doc :: "bytes \<Rightarrow> Doc option"
  json_keys :: "bytes \<Rightarrow> (nat \<times> bytes) list option"

locale codec_laws =
  fixes L :: "'k codec_lib"
  assumes snappy_law: "snappy_dec L (snappy_enc L x) = Some x"
    and zstd_law: "zstd_dec L (zstd_enc L x) = Some x"
    and aead_law: "length n = 12 \<Longrightarrow> aead_open L k n (aead_seal L k n x) = Some x"
    and proto_law: "proto_marshal L d = Some b \<Longrightarrow> proto_unmarshal L b = Some d"

subsection \<open>Compression\<close>

abbreviation FlagUncompressed :: char where "FlagUncompressed \<equiv> CHR 0x00"
abbreviation FlagSnappy :: char where "FlagSnappy \<equiv> CHR 0x01"
abbreviation FlagZstd :: char where "FlagZstd \<equiv> CHR 0x02"

record compression_config =
  compressionEnabled :: bool
  thresholdSmall :: int
  thresholdMedium :: int

definition default_compression :: compression_config where
  "default_compression = \<lparr>compressionEnabled = True, thresholdSmall = 1024, thresholdMedium = 10 * 1024\<rparr>"

definition ConfigureCompression :: "bool \<Rightarrow> int \<Rightarrow> int \<Rightarrow> compression_config \<Rightarrow> compression_config" where
  "ConfigureCompression enabled small medium c =
     (let c = c\<lparr>compressionEnabled := enabled\<rparr>;
          c = (if small > 0 then c\<lparr>thresholdSmall := small\<rparr> else c)
      in if medium > 0 then c\<lparr>thresholdMedium := medium\<rparr> else c)"

definition CompressDoc :: "'k codec_lib \<Rightarrow> compression_config \<Rightarrow> bytes \<Rightarrow> bytes" where
  "CompressDoc L c data =
     (let dataLen = int (length data)
      in if \<not> compressionEnabled c then FlagUncompressed # data
      else if dataLen < thresholdSmall c then FlagUncompressed # data
      else if dataLen < thresholdMedium c then
        (let compressed = snappy_enc L data
         in if int (length compressed) < dataLen then FlagSnappy # compressed else FlagUncompressed # data)
      else
        (let compressed = zstd_enc L data
         in if int (length compressed) < dataLen then FlagZstd # compressed else FlagUncompressed # data))"

datatype codec_error =
    EmptyData | DecompressFailed | ProtoError | JsonError | NotInitialized | NotConfigured
  | PayloadTooShort | UnknownKeyID char | OpenFailed | RandError
  | BadKey | BadKeyID | KeyIDReserved | KeyIDCollision char | BadKeyList

definition DecompressDoc :: "'k codec_lib \<Rightarrow> bytes \<Rightarrow> codec_error + bytes" where
  "DecompressDoc L data =
     (case data of [] \<Rightarrow> Inl EmptyData
      | flag # payload \<Rightarrow>
          if flag = FlagUncompressed then Inr payload
          else if flag = FlagSnappy then
            (case snappy_dec L payload of None \<Rightarrow> Inl DecompressFailed | Some d \<Rightarrow> Inr d)
          else if flag = FlagZstd then
            (case zstd_dec L payload of None \<Rightarrow> Inl DecompressFailed | Some d \<Rightarrow> Inr d)
          else Inr data)"

definition GetCompressionStats :: "'k codec_lib \<Rightarrow> compression_config \<Rightarrow> bytes \<Rightarrow> nat \<times> nat \<times> bytes" where
  "GetCompressionStats L c data =
     (let compressed = CompressDoc L c data
      in (length data, length compressed,
          if compressed ! 0 = FlagSnappy then ''snappy''
          else if compressed ! 0 = FlagZstd then ''zstd'' else ''none''))"

subsection \<open>The encryptor\<close>

definition MagicV1 :: bytes where "MagicV1 = ''MDDB_ENC_V1'' @ [CHR 0x00]"
definition MagicV2 :: bytes where "MagicV2 = ''MDDB_ENC_V2'' @ [CHR 0x00]"

definition CiphertextVersion :: "bytes \<Rightarrow> int" where
  "CiphertextVersion data =
     (if length data < 12 then 0
      else if take 12 data = MagicV2 then 2
      else if take 12 data = MagicV1 then 1
      else 0)"

definition CiphertextKeyID :: "bytes \<Rightarrow> char option" where
  "CiphertextKeyID data =
     (if CiphertextVersion data \<noteq> 2 then None
      else if length data < 12 + 1 then None else Some (data ! 12))"

definition IsEncrypted :: "bytes \<Rightarrow> bool" where
  "IsEncrypted data = (CiphertextVersion data = 1 \<or> CiphertextVersion data = 2)"

record 'k Encryptor =
  enc_enabled :: bool
  primaryID :: char
  primary :: "'k option"
  previous :: "char \<rightharpoonup> 'k"
  collectionEnabled :: "bytes \<Rightarrow> bool"

definition empty_encryptor :: "'k Encryptor" where
  "empty_encryptor = \<lparr>enc_enabled = False, primaryID = CHR 0x00, primary = None, previous = Map.empty,
                      collectionEnabled = (\<lambda>_. False)\<rparr>"

definition buildAEAD :: "'k codec_lib \<Rightarrow> bytes \<Rightarrow> codec_error + 'k" where
  "buildAEAD L rawBase64 =
     (case base64_dec L rawBase64 of None \<Rightarrow> Inl BadKey
      | Some key \<Rightarrow> if length key \<noteq> 32 then Inl BadKey else Inr (aead_new L key))"

text \<open>\<open>strings.TrimSpace\<close> on ASCII white space, and \<open>strconv.Atoi\<close> within the range that matters.\<close>

definition is_space :: "char \<Rightarrow> bool" where
  "is_space c \<longleftrightarrow> c \<in> {CHR 0x09, CHR 0x0A, CHR 0x0B, CHR 0x0C, CHR 0x0D, CHR 0x20}"

definition TrimSpace :: "bytes \<Rightarrow> bytes" where
  "TrimSpace s = rev (dropWhile is_space (rev (dropWhile is_space s)))"

definition Atoi :: "bytes \<Rightarrow> int option" where
  "Atoi s =
     (let (neg, ds) = (case s of [] \<Rightarrow> (False, [])
                       | c # r \<Rightarrow> if c = CHR ''-'' then (True, r) else if c = CHR ''+'' then (False, r) else (False, s))
      in if ds = [] \<or> \<not> list_all is_digit ds then None
         else let n = int (dec_val ds); v = (if neg then - n else n)
              in if v < - (2 ^ 63) \<or> v \<ge> 2 ^ 63 then None else Some v)"

definition parseKeyID :: "bytes \<Rightarrow> char \<Rightarrow> codec_error + char" where
  "parseKeyID raw def =
     (let raw = TrimSpace raw
      in if raw = [] then Inr def
         else case Atoi raw of None \<Rightarrow> Inl BadKeyID
              | Some n \<Rightarrow> if n < 1 \<or> n > 255 then Inl BadKeyID else Inr (char_of (nat n)))"

text \<open>The loop over the previous keys; a byte that does not fit in JSON's \<open>id\<close> is a parse error.\<close>

fun load_previous :: "'k codec_lib \<Rightarrow> (nat \<times> bytes) list \<Rightarrow> 'k Encryptor \<Rightarrow> 'k Encryptor \<times> codec_error option" where
  "load_previous L [] e = (e, None)"
| "load_previous L ((i, key) # entries) e =
     (let p = char_of i
      in if i = 0 then (e, Some KeyIDReserved)
         else if p = primaryID e then (e, Some (KeyIDCollision p))
         else case buildAEAD L key of
                Inl err \<Rightarrow> (e, Some err)
              | Inr aead \<Rightarrow> load_previous L entries (e\<lparr>previous := (previous e)(p \<mapsto> aead)\<rparr>))"

definition NewEncryptor :: "'k codec_lib \<Rightarrow> bytes \<Rightarrow> bytes \<Rightarrow> bytes \<Rightarrow> 'k Encryptor \<times> codec_error option" where
  "NewEncryptor L rawKey rawID rawPrevious =
     (if rawKey = [] then (empty_encryptor, None)
      else case buildAEAD L rawKey of Inl err \<Rightarrow> (empty_encryptor, Some err)
      | Inr k \<Rightarrow>
        (case parseKeyID rawID (CHR 0x01) of Inl err \<Rightarrow> (empty_encryptor, Some err)
         | Inr keyID \<Rightarrow>
             let e = empty_encryptor\<lparr>primaryID := keyID, primary := Some k, enc_enabled := True\<rparr>;
                 rawPrev = TrimSpace rawPrevious
             in if rawPrev = [] then (e, None)
                else case json_keys L rawPrev of
                       None \<Rightarrow> (e, Some BadKeyList)
                     | Some entries \<Rightarrow>
                         if \<exists>(i, _) \<in> set entries. i > 255 then (e, Some BadKeyList)
                         else load_previous L entries e))"

definition Enabled :: "'k Encryptor \<Rightarrow> bool" where "Enabled e = enc_enabled e"

definition PrimaryKeyID :: "'k Encryptor \<Rightarrow> char" where
  "PrimaryKeyID e = (if \<not> Enabled e then CHR 0x00 else primaryID e)"

definition SetCollectionEnabled :: "bytes \<Rightarrow> bool \<Rightarrow> 'k Encryptor \<Rightarrow> 'k Encryptor" where
  "SetCollectionEnabled collection on e = e\<lparr>collectionEnabled := (collectionEnabled e)(collection := on)\<rparr>"

definition CollectionEnabled :: "bytes \<Rightarrow> 'k Encryptor \<Rightarrow> bool" where
  "CollectionEnabled collection e = collectionEnabled e collection"

definition sealRaw :: "'k codec_lib \<Rightarrow> bytes option \<Rightarrow> 'k Encryptor \<Rightarrow> bytes \<Rightarrow> (codec_error, bytes) outcome" where
  "sealRaw L rand e plaintext =
     (case rand of None \<Rightarrow> Err RandError
      | Some nonce \<Rightarrow>
          (case primary e of None \<Rightarrow> Panic
           | Some k \<Rightarrow> Ok (MagicV2 @ [primaryID e] @ nonce @ aead_seal L k nonce plaintext)))"

definition Encrypt :: "'k codec_lib \<Rightarrow> bytes option \<Rightarrow> 'k Encryptor \<Rightarrow> bytes \<Rightarrow> bytes \<Rightarrow> (codec_error, bytes) outcome" where
  "Encrypt L rand e plaintext collection =
     (if \<not> Enabled e \<or> \<not> CollectionEnabled collection e then Ok plaintext else sealRaw L rand e plaintext)"

definition EncryptAlways :: "'k codec_lib \<Rightarrow> bytes option \<Rightarrow> 'k Encryptor \<Rightarrow> bytes \<Rightarrow> (codec_error, bytes) outcome" where
  "EncryptAlways L rand e plaintext =
     (if \<not> Enabled e then Err NotConfigured else sealRaw L rand e plaintext)"

definition lookupKey :: "char \<Rightarrow> 'k Encryptor \<Rightarrow> codec_error + 'k option" where
  "lookupKey i e =
     (if i = primaryID e then Inr (primary e)
      else case previous e i of Some k \<Rightarrow> Inr (Some k) | None \<Rightarrow> Inl (UnknownKeyID i))"

definition aead_try :: "'k codec_lib \<Rightarrow> 'k option \<Rightarrow> bytes \<Rightarrow> bytes \<Rightarrow> (codec_error, bytes) outcome" where
  "aead_try L ko nonce ct =
     (case ko of None \<Rightarrow> Panic
      | Some k \<Rightarrow> (case aead_open L k nonce ct of None \<Rightarrow> Err OpenFailed | Some pt \<Rightarrow> Ok pt))"

definition decryptV1 :: "'k codec_lib \<Rightarrow> 'k Encryptor \<Rightarrow> bytes \<Rightarrow> (codec_error, bytes) outcome" where
  "decryptV1 L e data =
     (if \<not> Enabled e then Err NotConfigured
      else if length data < 12 + 12 then Err PayloadTooShort
      else aead_try L (primary e) (take 12 (drop 12 data)) (drop 24 data))"

definition decryptV2 :: "'k codec_lib \<Rightarrow> 'k Encryptor \<Rightarrow> bytes \<Rightarrow> (codec_error, bytes) outcome" where
  "decryptV2 L e data =
     (if \<not> Enabled e then Err NotConfigured
      else if length data < 12 + 1 + 12 then Err PayloadTooShort
      else case lookupKey (data ! 12) e of
             Inl err \<Rightarrow> Err err
           | Inr k \<Rightarrow> aead_try L k (take 12 (drop 13 data)) (drop 25 data))"

definition Decrypt :: "'k codec_lib \<Rightarrow> 'k Encryptor \<Rightarrow> bytes \<Rightarrow> (codec_error, bytes) outcome" where
  "Decrypt L e data =
     (if CiphertextVersion data = 0 then Ok data
      else if CiphertextVersion data = 1 then decryptV1 L e data
      else decryptV2 L e data)"

definition IsEncryptedWithPrimary :: "'k Encryptor \<Rightarrow> bytes \<Rightarrow> bool" where
  "IsEncryptedWithPrimary e data =
     (Enabled e \<and> (case CiphertextKeyID data of None \<Rightarrow> False | Some i \<Rightarrow> i = primaryID e))"

subsection \<open>Documents\<close>

definition DocToProto :: "Doc \<Rightarrow> Document" where
  "DocToProto doc = \<lparr>pbId = ID doc, pbKey = DKey doc, pbLang = Lang doc, pbMeta = Meta doc,
     pbContentMd = ContentMD doc, pbAddedAt = AddedAt doc, pbUpdatedAt = UpdatedAt doc,
     pbExpiresAt = ExpiresAt doc\<rparr>"

definition ProtoToDoc :: "Document \<Rightarrow> Doc" where
  "ProtoToDoc p = \<lparr>ID = pbId p, DKey = pbKey p, Lang = pbLang p, Meta = pbMeta p,
     ContentMD = pbContentMd p, AddedAt = pbAddedAt p, UpdatedAt = pbUpdatedAt p,
     ExpiresAt = pbExpiresAt p\<rparr>"

definition marshalDoc :: "'k codec_lib \<Rightarrow> compression_config \<Rightarrow> Doc \<Rightarrow> codec_error + bytes" where
  "marshalDoc L c doc =
     (case proto_marshal L (DocToProto doc) of None \<Rightarrow> Inl ProtoError
      | Some data \<Rightarrow> Inr (CompressDoc L c data))"

text \<open>The process-wide encryptor is the argument \<open>g\<close>, \<open>None\<close> for a nil pointer.\<close>

definition marshalAndEncrypt ::
    "'k codec_lib \<Rightarrow> compression_config \<Rightarrow> 'k Encryptor option \<Rightarrow> bytes option \<Rightarrow> Doc \<Rightarrow> bytes \<Rightarrow>
     (codec_error, bytes) outcome" where
  "marshalAndEncrypt L c g rand doc collection =
     (case marshalDoc L c doc of Inl err \<Rightarrow> Err err
      | Inr buf \<Rightarrow> (case g of None \<Rightarrow> Ok buf | Some e \<Rightarrow> Encrypt L rand e buf collection))"

definition maybeDecrypt :: "'k codec_lib \<Rightarrow> 'k Encryptor option \<Rightarrow> bytes \<Rightarrow> (codec_error, bytes) outcome" where
  "maybeDecrypt L g data =
     (if \<not> IsEncrypted data then Ok data
      else case g of None \<Rightarrow> Err NotInitialized | Some e \<Rightarrow> Decrypt L e data)"

definition unmarshal_plain :: "'k codec_lib \<Rightarrow> bytes \<Rightarrow> (codec_error, Doc) outcome" where
  "unmarshal_plain L data =
     (case DecompressDoc L data of Inl err \<Rightarrow> Err err
      | Inr decompressed \<Rightarrow>
          (case proto_unmarshal L decompressed of None \<Rightarrow> Err ProtoError
           | Some p \<Rightarrow> Ok (ProtoToDoc p)))"

definition unmarshalDoc :: "'k codec_lib \<Rightarrow> 'k Encryptor option \<Rightarrow> bytes \<Rightarrow> (codec_error, Doc) outcome" where
  "unmarshalDoc L g data =
     (if IsEncrypted data
      then (case maybeDecrypt L g data of Err err \<Rightarrow> Err err | Panic \<Rightarrow> Panic | Ok pt \<Rightarrow> unmarshal_plain L pt)
      else unmarshal_plain L data)"

definition load_plain :: "'k codec_lib \<Rightarrow> 'k Encryptor option \<Rightarrow> bytes \<Rightarrow> (codec_error, Doc) outcome" where
  "load_plain L g data =
     (case data of [] \<Rightarrow> Panic
      | b # _ \<Rightarrow>
          if b = CHR 0x7B
          then (case json_doc L data of None \<Rightarrow> Err JsonError | Some doc \<Rightarrow> Ok doc)
          else unmarshalDoc L g data)"

definition loadDoc :: "'k codec_lib \<Rightarrow> 'k Encryptor option \<Rightarrow> bytes \<Rightarrow> (codec_error, Doc) outcome" where
  "loadDoc L g data =
     (if length data = 0 then Err EmptyData
      else if IsEncrypted data
      then (case maybeDecrypt L g data of Err err \<Rightarrow> Err err | Panic \<Rightarrow> Panic | Ok pt \<Rightarrow> load_plain L g pt)
      else load_plain L g data)"

subsection \<open>The layers, one by one\<close>

lemma CompressDoc_cases:
  obtains "CompressDoc L c d = FlagUncompressed # d" | "CompressDoc L c d = FlagSnappy # snappy_enc L d"
  | "CompressDoc L c d = FlagZstd # zstd_enc L d"
proof -
  have "CompressDoc L c d = FlagUncompressed # d \<or> CompressDoc L c d = FlagSnappy # snappy_enc L d \<or>
      CompressDoc L c d = FlagZstd # zstd_enc L d"
    by (simp add: CompressDoc_def Let_def)
  then show ?thesis using that by blast
qed

lemma DecompressDoc_flags:
  "DecompressDoc L (FlagUncompressed # d) = Inr d"
  "DecompressDoc L (FlagSnappy # d) = (case snappy_dec L d of None \<Rightarrow> Inl DecompressFailed | Some x \<Rightarrow> Inr x)"
  "DecompressDoc L (FlagZstd # d) = (case zstd_dec L d of None \<Rightarrow> Inl DecompressFailed | Some x \<Rightarrow> Inr x)"
  by (simp_all add: DecompressDoc_def)

context codec_laws begin

lemma Decompress_Compress: "DecompressDoc L (CompressDoc L c d) = Inr d"
  by (rule CompressDoc_cases [of L c d]) (simp_all add: DecompressDoc_flags snappy_law zstd_law)

lemma unmarshal_plain_marshal: "marshalDoc L c doc = Inr buf \<Longrightarrow> unmarshal_plain L buf = Ok doc"
  by (auto simp: marshalDoc_def unmarshal_plain_def Decompress_Compress dest!: proto_law
      simp: DocToProto_def ProtoToDoc_def split: option.splits)

end

lemma CiphertextVersion_flag:
  "CompressDoc L c d = f # r \<Longrightarrow> f \<noteq> CHR ''M'' \<and> f \<noteq> CHR 0x7B"
  by (rule CompressDoc_cases [of L c d]) auto

lemma not_encrypted_flag: "f \<noteq> CHR ''M'' \<Longrightarrow> \<not> IsEncrypted (f # r)"
  by (auto simp: IsEncrypted_def CiphertextVersion_def MagicV1_def MagicV2_def)

lemma version_V2: "CiphertextVersion (MagicV2 @ r) = 2" and version_V1: "CiphertextVersion (MagicV1 @ r) = 1"
  by (simp_all add: CiphertextVersion_def MagicV2_def MagicV1_def)

lemma length_Magic [simp]: "length MagicV1 = 12" "length MagicV2 = 12"
  by (simp_all add: MagicV1_def MagicV2_def)

text \<open>A buffer written without encryption reads back whatever the encryptor.\<close>

lemma load_plain_marshal:
  assumes "codec_laws L" and "marshalDoc L c doc = Inr buf"
  shows "load_plain L g buf = Ok doc" and "\<not> IsEncrypted buf" and "buf \<noteq> []"
proof -
  from assms(2) obtain d where buf: "buf = CompressDoc L c d"
    by (auto simp: marshalDoc_def split: option.splits)
  obtain f r where fr: "buf = f # r"
    unfolding buf by (rule CompressDoc_cases [of L c d]) auto
  with buf have f: "f \<noteq> CHR ''M''" "f \<noteq> CHR 0x7B" using CiphertextVersion_flag by metis+
  then show ne: "\<not> IsEncrypted buf" "buf \<noteq> []" using not_encrypted_flag by (simp_all add: fr)
  have "unmarshal_plain L buf = Ok doc" using codec_laws.unmarshal_plain_marshal [OF assms] .
  with ne f show "load_plain L g buf = Ok doc" by (simp add: load_plain_def unmarshalDoc_def fr)
qed

lemma loadDoc_plain:
  assumes "codec_laws L" and "marshalDoc L c doc = Inr buf"
  shows "loadDoc L g buf = Ok doc"
  using load_plain_marshal [OF assms] by (simp add: loadDoc_def)

text \<open>Opening what was sealed, with any encryptor that still knows the key.\<close>

definition knows_key :: "'k Encryptor \<Rightarrow> 'k Encryptor \<Rightarrow> bool" where
  "knows_key e e' \<longleftrightarrow> Enabled e' \<and> lookupKey (primaryID e) e' = Inr (primary e)"

lemma Decrypt_sealRaw:
  assumes laws: "codec_laws L" and seal: "sealRaw L (Some n) e p = Ok buf" and n: "length n = 12"
    and k: "knows_key e e'"
  shows "Decrypt L e' buf = Ok p" and "CiphertextVersion buf = 2" and "CiphertextKeyID buf = Some (primaryID e)"
proof -
  from seal obtain key where key: "primary e = Some key"
    and buf: "buf = MagicV2 @ primaryID e # n @ aead_seal L key n p"
    by (auto simp: sealRaw_def split: option.splits)
  show v: "CiphertextVersion buf = 2" by (simp add: buf version_V2)
  have nth: "buf ! 12 = primaryID e" by (simp add: buf nth_append)
  then show "CiphertextKeyID buf = Some (primaryID e)" by (simp add: CiphertextKeyID_def v) (simp add: buf)
  have "take 12 (drop 13 buf) = n" "drop 25 buf = aead_seal L key n p" using n by (simp_all add: buf)
  moreover have "\<not> length buf < 12 + 1 + 12" using n by (simp add: buf)
  moreover have "aead_open L key n (aead_seal L key n p) = Some p"
    using codec_laws.aead_law [OF laws n] .
  ultimately show "Decrypt L e' buf = Ok p"
    using k key nth v by (simp add: Decrypt_def decryptV2_def knows_key_def aead_try_def)
qed

lemma knows_own_key: "Enabled e \<Longrightarrow> knows_key e e"
  by (simp add: knows_key_def lookupKey_def)

text \<open>A rotation: the old primary becomes a previous key.\<close>

lemma knows_rotated_key:
  "Enabled e' \<Longrightarrow> primaryID e' \<noteq> primaryID e \<Longrightarrow> primary e = Some k \<Longrightarrow> previous e' (primaryID e) = Some k \<Longrightarrow>
   knows_key e e'"
  by (simp add: knows_key_def lookupKey_def)

lemma marshalAndEncrypt_cases:
  assumes "marshalAndEncrypt L c g rand doc coll = Ok buf"
  obtains plain where "marshalDoc L c doc = Inr plain"
    "(\<exists>e. g = Some e \<and> Enabled e \<and> CollectionEnabled coll e \<and> sealRaw L rand e plain = Ok buf) \<or>
     (buf = plain \<and> \<not> (\<exists>e. g = Some e \<and> Enabled e \<and> CollectionEnabled coll e))"
  using assms by (auto simp: marshalAndEncrypt_def Encrypt_def split: sum.splits option.splits if_splits)

lemma loadDoc_marshalAndEncrypt:
  assumes laws: "codec_laws L" and m: "marshalAndEncrypt L c g (Some n) doc coll = Ok buf" and n: "length n = 12"
    and g': "\<And>e. g = Some e \<Longrightarrow> Enabled e \<Longrightarrow> CollectionEnabled coll e \<Longrightarrow> \<exists>e'. g' = Some e' \<and> knows_key e e'"
  shows "loadDoc L g' buf = Ok doc"
proof -
  from m obtain plain where plain: "marshalDoc L c doc = Inr plain"
    and cases: "(\<exists>e. g = Some e \<and> Enabled e \<and> CollectionEnabled coll e \<and> sealRaw L (Some n) e plain = Ok buf) \<or>
      (buf = plain \<and> \<not> (\<exists>e. g = Some e \<and> Enabled e \<and> CollectionEnabled coll e))"
    by (rule marshalAndEncrypt_cases)
  from cases show ?thesis
  proof
    assume "buf = plain \<and> \<not> (\<exists>e. g = Some e \<and> Enabled e \<and> CollectionEnabled coll e)"
    with loadDoc_plain [OF laws plain] show ?thesis by simp
  next
    assume "\<exists>e. g = Some e \<and> Enabled e \<and> CollectionEnabled coll e \<and> sealRaw L (Some n) e plain = Ok buf"
    then obtain e where e: "g = Some e" "Enabled e" "CollectionEnabled coll e" "sealRaw L (Some n) e plain = Ok buf" by blast
    with g' obtain e' where e': "g' = Some e'" "knows_key e e'" by blast
    note D = Decrypt_sealRaw [OF laws e(4) n e'(2)]
    have "buf \<noteq> []" using D(2) by (auto simp: CiphertextVersion_def)
    with D e'(1) load_plain_marshal(1) [OF laws plain] show ?thesis
      by (simp add: loadDoc_def maybeDecrypt_def IsEncrypted_def)
  qed
qed

lemma unmarshalDoc_marshalAndEncrypt:
  assumes laws: "codec_laws L" and m: "marshalAndEncrypt L c g (Some n) doc coll = Ok buf" and n: "length n = 12"
  shows "unmarshalDoc L g buf = Ok doc"
proof -
  from m obtain plain where plain: "marshalDoc L c doc = Inr plain"
    and cases: "(\<exists>e. g = Some e \<and> Enabled e \<and> CollectionEnabled coll e \<and> sealRaw L (Some n) e plain = Ok buf) \<or>
      (buf = plain \<and> \<not> (\<exists>e. g = Some e \<and> Enabled e \<and> CollectionEnabled coll e))"
    by (rule marshalAndEncrypt_cases)
  have up: "unmarshal_plain L plain = Ok doc" using codec_laws.unmarshal_plain_marshal [OF laws plain] .
  from cases show ?thesis
  proof
    assume "buf = plain \<and> \<not> (\<exists>e. g = Some e \<and> Enabled e \<and> CollectionEnabled coll e)"
    with up load_plain_marshal(2) [OF laws plain] show ?thesis by (simp add: unmarshalDoc_def)
  next
    assume "\<exists>e. g = Some e \<and> Enabled e \<and> CollectionEnabled coll e \<and> sealRaw L (Some n) e plain = Ok buf"
    then obtain e where e: "g = Some e" "Enabled e" "sealRaw L (Some n) e plain = Ok buf" by blast
    note D = Decrypt_sealRaw [OF laws e(3) n knows_own_key [OF e(2)]]
    with e(1) up show ?thesis by (simp add: unmarshalDoc_def maybeDecrypt_def IsEncrypted_def)
  qed
qed

subsection \<open>What the document store relies on\<close>

text \<open>The codec interface of the document operations: what was marshalled loads back, through
  either of the two readers.\<close>

locale doc_codec =
  fixes marshal :: "Doc \<Rightarrow> bytes \<Rightarrow> (codec_error, bytes) outcome"
    and load :: "bytes \<Rightarrow> (codec_error, Doc) outcome"
    and unmarshal :: "bytes \<Rightarrow> (codec_error, Doc) outcome"
  assumes load_marshal: "marshal d coll = Ok buf \<Longrightarrow> load buf = Ok d"
    and unmarshal_marshal: "marshal d coll = Ok buf \<Longrightarrow> unmarshal buf = Ok d"

text \<open>The code's own codec provides it, whatever the process-wide encryptor and the nonces.\<close>

lemma doc_codec_stored:
  assumes "codec_laws L" and "\<And>d coll. length (nonce d coll) = 12"
  shows "doc_codec (\<lambda>d coll. marshalAndEncrypt L c g (Some (nonce d coll)) d coll) (loadDoc L g) (unmarshalDoc L g)"
proof
  fix d coll buf assume m: "marshalAndEncrypt L c g (Some (nonce d coll)) d coll = Ok buf"
  show "unmarshalDoc L g buf = Ok d" by (rule unmarshalDoc_marshalAndEncrypt [OF assms(1) m assms(2)])
  show "loadDoc L g buf = Ok d"
    by (rule loadDoc_marshalAndEncrypt [OF assms(1) m assms(2)]) (blast intro: knows_own_key)
qed

subsection \<open>A library that obeys the laws\<close>

text \<open>Compressors that keep the data, a cipher that tags it with key and nonce, and a protobuf codec
  that knows one message.\<close>

definition ref_doc :: Doc where
  "ref_doc = empty_doc\<lparr>ID := ''c|k|en'', DKey := ''k'', Lang := ''en'', AddedAt := 5, UpdatedAt := 5\<rparr>"

definition ref_lib :: "bytes codec_lib" where
  "ref_lib = \<lparr>snappy_enc = id, snappy_dec = Some, zstd_enc = id, zstd_dec = Some,
     aead_new = id, aead_seal = (\<lambda>k n p. k @ n @ p),
     aead_open = (\<lambda>k n c. if take (length (k @ n)) c = k @ n then Some (drop (length (k @ n)) c) else None),
     base64_dec = Some,
     proto_marshal = (\<lambda>d. if d = DocToProto ref_doc then Some ''doc'' else None),
     proto_unmarshal = (\<lambda>b. if b = ''doc'' then Some (DocToProto ref_doc) else None),
     json_doc = (\<lambda>_. None), json_keys = (\<lambda>_. None)\<rparr>"

interpretation ref: codec_laws ref_lib
  by unfold_locales (auto simp: ref_lib_def split: if_splits)

definition ref_encryptor :: "char \<Rightarrow> bytes \<Rightarrow> (char \<rightharpoonup> bytes) \<Rightarrow> bytes Encryptor" where
  "ref_encryptor i k prev = \<lparr>enc_enabled = True, primaryID = i, primary = Some k, previous = prev,
     collectionEnabled = (\<lambda>_. True)\<rparr>"

interpretation ref_store: doc_codec
  "\<lambda>d coll. marshalAndEncrypt ref_lib default_compression
     (Some (ref_encryptor (CHR 0x01) ''key1'' Map.empty)) (Some ''123456789012'') d coll"
  "loadDoc ref_lib (Some (ref_encryptor (CHR 0x01) ''key1'' Map.empty))"
  "unmarshalDoc ref_lib (Some (ref_encryptor (CHR 0x01) ''key1'' Map.empty))"
  using doc_codec_stored [OF ref.codec_laws_axioms, of "\<lambda>_ _. ''123456789012''"] by simp

subsection \<open>Properties\<close>



text \<open>Documents of a collection that is opted into encryption never reach the store in the
  clear: what is written is a V2 envelope that names the primary key; a collection that is not
  opted in is stored unencrypted.\<close>

theorem sealed_at_rest:
  assumes "codec_laws L" and "marshalAndEncrypt L c (Some e) (Some n) doc coll = Ok buf" and "length n = 12"
    and "Enabled e"
  shows "(IsEncrypted buf \<longleftrightarrow> CollectionEnabled coll e) \<and>
     (CollectionEnabled coll e \<longrightarrow> IsEncryptedWithPrimary e buf \<and> CiphertextKeyID buf = Some (PrimaryKeyID e))"
proof -
  from assms(2) obtain plain where plain: "marshalDoc L c doc = Inr plain"
    and cases: "(\<exists>x. Some e = Some x \<and> Enabled x \<and> CollectionEnabled coll x \<and> sealRaw L (Some n) x plain = Ok buf) \<or>
      (buf = plain \<and> \<not> (\<exists>x. Some e = Some x \<and> Enabled x \<and> CollectionEnabled coll x))"
    by (rule marshalAndEncrypt_cases)
  have sealed: "CollectionEnabled coll e \<Longrightarrow> sealRaw L (Some n) e plain = Ok buf"
    and clear: "\<not> CollectionEnabled coll e \<Longrightarrow> buf = plain" using cases assms(4) by auto
  note D = Decrypt_sealRaw(2,3) [OF assms(1) sealed assms(3) knows_own_key [OF assms(4)]]
  show ?thesis
  proof (cases "CollectionEnabled coll e")
    case True
    with D assms(4) show ?thesis
      by (simp add: IsEncrypted_def IsEncryptedWithPrimary_def PrimaryKeyID_def)
  next
    case False
    with clear load_plain_marshal(2) [OF assms(1) plain] show ?thesis by simp
  qed
qed

theorem sealed_at_rest_witness:
  "case marshalAndEncrypt ref_lib default_compression (Some (ref_encryptor (CHR 0x01) ''key1'' Map.empty))
      (Some ''123456789012'') ref_doc ''c'' of Ok buf \<Rightarrow> IsEncrypted buf | _ \<Rightarrow> False"
proof -
  let ?e = "ref_encryptor (CHR 0x01) ''key1'' Map.empty"
  let ?m = "marshalAndEncrypt ref_lib default_compression (Some ?e) (Some ''123456789012'') ref_doc ''c''"
  have "\<exists>buf. ?m = Ok buf"
    by (simp add: marshalAndEncrypt_def marshalDoc_def ref_lib_def Encrypt_def Enabled_def CollectionEnabled_def
        ref_encryptor_def sealRaw_def)
  then obtain buf where buf: "?m = Ok buf" by blast
  have "Enabled ?e" "CollectionEnabled ''c'' ?e" by (simp_all add: ref_encryptor_def Enabled_def CollectionEnabled_def)
  with sealed_at_rest [OF ref.codec_laws_axioms buf] buf show ?thesis by simp
qed

text \<open>Rotating the key makes every document in the legacy V1 format unreadable: a V1 envelope is
  opened with the current primary key only, even when the key that sealed it is loaded as a
  previous key and would open it.\<close>

theorem V1_lost_after_rotation:
  assumes "codec_laws L" and "length n = 12" and "Enabled e'" and "primary e' = Some k'"
    and "previous e' i = Some k" and "aead_open L k' n (aead_seal L k n p) = None"
  shows "Decrypt L e' (MagicV1 @ n @ aead_seal L k n p) = Err OpenFailed \<and>
     loadDoc L (Some e') (MagicV1 @ n @ aead_seal L k n p) = Err OpenFailed \<and>
     (\<exists>i k. previous e' i = Some k \<and> aead_open L k n (aead_seal L k n p) = Some p)"
proof -
  let ?b = "MagicV1 @ n @ aead_seal L k n p"
  have "take 12 (drop 12 ?b) = n" "drop 24 ?b = aead_seal L k n p" using assms(2) by simp_all
  moreover have "\<not> length ?b < 12 + 12" using assms(2) by simp
  ultimately have "Decrypt L e' ?b = Err OpenFailed"
    using assms(3,4,6) by (simp add: Decrypt_def version_V1 decryptV1_def aead_try_def)
  moreover have "?b \<noteq> []" by (simp add: MagicV1_def)
  moreover have "aead_open L k n (aead_seal L k n p) = Some p"
    using codec_laws.aead_law [OF assms(1,2)] .
  ultimately show ?thesis
    using assms(5) by (auto simp: loadDoc_def maybeDecrypt_def IsEncrypted_def version_V1)
qed

theorem V1_lost_after_rotation_witness:
  "Decrypt ref_lib (ref_encryptor (CHR 0x02) ''key2'' [CHR 0x01 \<mapsto> ''key1''])
     (MagicV1 @ ''123456789012'' @ aead_seal ref_lib ''key1'' ''123456789012'' ''x'') = Err OpenFailed"
  using V1_lost_after_rotation [OF ref.codec_laws_axioms, of "''123456789012''"
      "ref_encryptor (CHR 0x02) ''key2'' [CHR 0x01 \<mapsto> ''key1'']" "''key2''" "CHR 0x01" "''key1''" "''x''"]
  by (simp add: ref_encryptor_def Enabled_def ref_lib_def)

end
