(* ===== verification/Frame_Codec.thy ===== *)
theory Frame_Codec
  imports Mddb_Prelude
begin

unbundle bit_operations_syntax

section \<open>Framed logs: checksums, buffered writers, the codec interface\<close>

text \<open>
  What the binlog and the write-ahead log share: the checksum of \<^verbatim>\<open>hash/crc32\<close>, the
  buffered writer of \<^verbatim>\<open>bufio\<close>, and the interface \<open>record_codec\<close> between a log
  and the code that writes and parses one record of it.
\<close>

subsection \<open>crc32.ChecksumIEEE\<close>

fun crc32_bits :: "nat \<Rightarrow> u32 \<Rightarrow> u32" where
  "crc32_bits 0 c = c"
| "crc32_bits (Suc n) c =
     crc32_bits n (if c AND 1 = 1 then drop_bit 1 c XOR 0xEDB88320 else drop_bit 1 c)"

definition crc32_byte :: "u32 \<Rightarrow> char \<Rightarrow> u32" where
  "crc32_byte c b = crc32_bits 8 (c XOR of_char b)"

definition ChecksumIEEE :: "bytes \<Rightarrow> u32" where
  "ChecksumIEEE data = NOT (foldl crc32_byte 0xFFFFFFFF data)"

subsection \<open>bufio.Writer over an append-only file\<close>

text \<open>
  \<open>wfile\<close> is what the file holds, \<open>wbuf\<close> what the writer still buffers, \<open>werr\<close> the sticky
  error of \<^verbatim>\<open>bufio.Writer\<close>.  The argument \<open>io\<close> of an operation says whether the
  operating system accepts the writes of this call; a refused write stores nothing.
\<close>

record bufw =
  wfile :: bytes
  wbuf :: bytes
  werr :: bool

definition bw_stream :: "bufw \<Rightarrow> bytes" where
  "bw_stream w = wfile w @ wbuf w"

definition bw_new :: "bytes \<Rightarrow> bufw" where
  "bw_new file = \<lparr>wfile = file, wbuf = [], werr = False\<rparr>"

definition bw_flush :: "bool \<Rightarrow> bufw \<Rightarrow> bufw \<times> bool" where
  "bw_flush io w =
     (if werr w then (w, False)
      else if wbuf w = [] then (w, True)
      else if io then (w\<lparr>wfile := wfile w @ wbuf w, wbuf := []\<rparr>, True)
      else (w\<lparr>werr := True\<rparr>, False))"

text \<open>
  \<^verbatim>\<open>Write\<close>: a write that does not fit is sent directly when the buffer is empty; otherwise
  it fills the buffer, flushes it and goes on with the rest.
\<close>

definition bw_write_empty :: "nat \<Rightarrow> bool \<Rightarrow> bufw \<Rightarrow> bytes \<Rightarrow> bufw \<times> bool" where
  "bw_write_empty cap io w p =
     (if length p \<le> cap then (w\<lparr>wbuf := p\<rparr>, True)
      else if io then (w\<lparr>wfile := wfile w @ p\<rparr>, True)
      else (w\<lparr>werr := True\<rparr>, False))"

definition bw_write :: "nat \<Rightarrow> bool \<Rightarrow> bufw \<Rightarrow> bytes \<Rightarrow> bufw \<times> bool" where
  "bw_write cap io w p =
     (if werr w then (w, False)
      else if length p \<le> cap - length (wbuf w) then (w\<lparr>wbuf := wbuf w @ p\<rparr>, True)
      else if wbuf w = [] then bw_write_empty cap io w p
      else
        let n = cap - length (wbuf w);
            w1 = w\<lparr>wbuf := wbuf w @ take n p\<rparr>;
            (w2, ok) = bw_flush io w1
        in if ok then bw_write_empty cap io w2 (drop n p) else (w2, False))"

lemma bw_flush_stream [simp]: "bw_stream (fst (bw_flush io w)) = bw_stream w"
  by (auto simp: bw_flush_def bw_stream_def)

lemma bw_flush_ok:
  "bw_flush io w = (w', True) \<Longrightarrow> wfile w' = bw_stream w \<and> wbuf w' = [] \<and> werr w' = False"
  by (auto simp: bw_flush_def bw_stream_def split: if_splits)

lemma bw_flush_succeeds: "\<not> werr w \<Longrightarrow> snd (bw_flush True w)"
  by (auto simp: bw_flush_def)

lemma bw_write_empty_ok:
  "wbuf w = [] \<Longrightarrow> bw_write_empty cap io w p = (w', True) \<Longrightarrow>
   bw_stream w' = bw_stream w @ p \<and> werr w' = werr w"
  by (auto simp: bw_write_empty_def bw_stream_def split: if_splits)

text \<open>A successful write appends exactly its argument to the stream.\<close>

lemma bw_write_ok:
  assumes "bw_write cap io w p = (w', True)"
  shows "bw_stream w' = bw_stream w @ p \<and> werr w' = False"
proof (cases "werr w \<or> length p \<le> cap - length (wbuf w) \<or> wbuf w = []")
  case True
  with assms show ?thesis
    by (auto simp: bw_write_def bw_write_empty_def bw_stream_def split: if_splits)
next
  case False
  define n where "n = cap - length (wbuf w)"
  define w1 where "w1 = w\<lparr>wbuf := wbuf w @ take n p\<rparr>"
  obtain w2 ok where fl: "bw_flush io w1 = (w2, ok)" by (cases "bw_flush io w1")
  with assms False have ok and we: "bw_write_empty cap io w2 (drop n p) = (w', True)"
    by (auto simp: bw_write_def Let_def n_def [symmetric] w1_def [symmetric] split: if_splits)
  with fl have w2: "wfile w2 = bw_stream w1" "wbuf w2 = []" "werr w2 = False"
    using bw_flush_ok by auto
  then have "bw_stream w' = bw_stream w1 @ drop n p \<and> werr w' = False"
    using bw_write_empty_ok [OF _ we] by (simp add: bw_stream_def)
  then show ?thesis by (simp add: w1_def bw_stream_def)
qed

lemma bw_write_succeeds: "\<not> werr w \<Longrightarrow> snd (bw_write cap True w p)"
proof -
  assume "\<not> werr w"
  then show ?thesis
    by (auto simp: bw_write_def bw_write_empty_def Let_def split: prod.splits if_splits
        dest: arg_cong [where f = snd] simp: bw_flush_def)
qed

subsection \<open>The interface between a log and its record codec\<close>

text \<open>
  The log calls \<open>enc\<close> to write a record and \<open>dec\<close> to parse the record at the head of a byte
  string; \<open>scan\<close> is its read loop.  \<open>valid\<close> is the records whose fields fit their length
  fields, \<open>norm\<close> what a record looks like when it is read back.  The provider promises that a
  written record is parsed back whatever follows it, and that a torn record is refused.
\<close>

locale record_codec =
  fixes enc :: "'e \<Rightarrow> bytes"
    and dec :: "bytes \<Rightarrow> ('e \<times> nat) option"
    and valid :: "'e \<Rightarrow> bool"
    and norm :: "'e \<Rightarrow> 'e"
    and scan :: "bytes \<Rightarrow> 'e list"
  assumes dec_enc: "valid e \<Longrightarrow> dec (enc e @ r) = Some (norm e, length (enc e))"
    and dec_nil: "dec [] = None"
    and dec_torn: "valid e \<Longrightarrow> n < length (enc e) \<Longrightarrow> dec (take n (enc e)) = None"
    and scan_step: "dec bs = Some (e, n) \<Longrightarrow> scan bs = e # scan (drop n bs)"
    and scan_stop: "dec bs = None \<Longrightarrow> scan bs = []"
begin

lemma scan_append: "(\<forall>e \<in> set es. valid e) \<Longrightarrow> scan (concat (map enc es) @ r) = map norm es @ scan r"
proof (induction es)
  case Nil
  then show ?case by simp
next
  case (Cons e es)
  have "scan (enc e @ (concat (map enc es) @ r)) = norm e # scan (concat (map enc es) @ r)"
    using Cons.prems scan_step [OF dec_enc] by simp
  with Cons show ?case by simp
qed

lemma scan_log: "(\<forall>e \<in> set es. valid e) \<Longrightarrow> scan (concat (map enc es)) = map norm es"
  using scan_append [of es "[]"] by (simp add: scan_stop dec_nil)

text \<open>A crash in the middle of a write loses that record and no other.\<close>

lemma scan_torn_tail:
  "(\<forall>e \<in> set es. valid e) \<Longrightarrow> valid e \<Longrightarrow> n < length (enc e) \<Longrightarrow>
   scan (concat (map enc es) @ take n (enc e)) = map norm es"
  by (simp add: scan_append scan_stop dec_torn)

lemma scan_snoc:
  "(\<forall>e \<in> set es. valid e) \<Longrightarrow> valid e \<Longrightarrow>
   scan (concat (map enc es) @ enc e) = scan (concat (map enc es)) @ [norm e]"
  using scan_log [of "es @ [e]"] scan_log [of es] by simp

end

end
