(* ===== verification/Binlog_Entry.thy ===== *)
theory Binlog_Entry
  imports Frame_Codec
begin

section \<open>Binlog entries and their binary format\<close>

text \<open>
  Models \<^verbatim>\<open>internal/binlog/binlog_entry.go\<close>: the entry type, the wire format
  \<^verbatim>\<open>[lsn:8][type:1][timestamp:8][bucketNameLen:2][bucketName][keyLen:4][key][valueLen:4][value][checksum:4]\<close>,
  its parser with every truncation check, and the \<open>BinlogOps\<close> collector a transaction fills.
  A timestamp is the 64 bits of Go's \<^verbatim>\<open>int64\<close>: the conversions to and from
  \<^verbatim>\<open>uint64\<close> in the code keep the bits.
\<close>

abbreviation BinlogPut :: u8 where "BinlogPut \<equiv> 1"
abbreviation BinlogDelete :: u8 where "BinlogDelete \<equiv> 2"
abbreviation BinlogDeleteBucket :: u8 where "BinlogDeleteBucket \<equiv> 3"
abbreviation BinlogCheckpoint :: u8 where "BinlogCheckpoint \<equiv> 4"

record BinlogEntry =
  LSN :: u64
  EType :: u8
  ETimestamp :: u64
  BucketName :: bytes
  EKey :: bytes
  EValue :: bytes
  Checksum :: u32

datatype binlog_error =
    TooShort | TruncatedBucketName | TruncatedKeyLength | TruncatedKeyData
  | TruncatedValueLength | TruncatedValueData | TruncatedChecksum | ChecksumMismatch u32 u32

definition binlogEntryHeaderSize :: nat where
  "binlogEntryHeaderSize = 19"

definition MarshalBinlogEntry :: "BinlogEntry \<Rightarrow> bytes" where
  "MarshalBinlogEntry e =
     (let buf = be64 (LSN e);
          buf = buf @ [char_of (unat (EType e))];
          buf = buf @ be64 (ETimestamp e);
          buf = buf @ be16 (word_of_nat (length (BucketName e)));
          buf = buf @ BucketName e;
          buf = buf @ be32 (word_of_nat (length (EKey e)));
          buf = buf @ EKey e;
          buf = buf @ be32 (word_of_nat (length (EValue e)));
          buf = buf @ EValue e
      in buf @ be32 (ChecksumIEEE buf))"

definition UnmarshalBinlogEntry :: "bytes \<Rightarrow> binlog_error + (BinlogEntry \<times> nat)" where
  "UnmarshalBinlogEntry data =
     (if length data < binlogEntryHeaderSize then Inl TooShort else
      let lsn = get_be64 data;
          entryType = (of_char (data ! 8) :: u8);
          timestamp = get_be64 (drop 9 data);
          bucketNameLen = unat (get_be16 (drop 17 data));
          pos = 19
      in if pos + bucketNameLen > length data then Inl TruncatedBucketName else
      let bucketName = take bucketNameLen (drop pos data);
          pos = pos + bucketNameLen
      in if pos + 4 > length data then Inl TruncatedKeyLength else
      let keyLen = unat (get_be32 (drop pos data));
          pos = pos + 4
      in if pos + keyLen > length data then Inl TruncatedKeyData else
      let key = take keyLen (drop pos data);
          pos = pos + keyLen
      in if pos + 4 > length data then Inl TruncatedValueLength else
      let valueLen = unat (get_be32 (drop pos data));
          pos = pos + 4
      in if pos + valueLen > length data then Inl TruncatedValueData else
      let val = take valueLen (drop pos data);
          pos = pos + valueLen
      in if pos + 4 > length data then Inl TruncatedChecksum else
      let storedChecksum = get_be32 (drop pos data);
          computedChecksum = ChecksumIEEE (take pos data)
      in if storedChecksum \<noteq> computedChecksum
         then Inl (ChecksumMismatch storedChecksum computedChecksum)
         else Inr (\<lparr>LSN = lsn, EType = entryType, ETimestamp = timestamp,
                    BucketName = bucketName, EKey = key, EValue = val,
                    Checksum = storedChecksum\<rparr>, pos + 4))"

subsection \<open>Collecting the operations of a transaction\<close>

type_synonym BinlogOps = "BinlogEntry list"

definition zero_entry :: BinlogEntry where
  "zero_entry = \<lparr>LSN = 0, EType = 0, ETimestamp = 0, BucketName = [], EKey = [], EValue = [], Checksum = 0\<rparr>"

definition ops_Put :: "BinlogOps \<Rightarrow> bytes \<Rightarrow> bytes \<Rightarrow> bytes \<Rightarrow> BinlogOps" where
  "ops_Put bo bucket key val =
     bo @ [zero_entry\<lparr>EType := BinlogPut, BucketName := bucket, EKey := key, EValue := val\<rparr>]"

definition ops_Delete :: "BinlogOps \<Rightarrow> bytes \<Rightarrow> bytes \<Rightarrow> BinlogOps" where
  "ops_Delete bo bucket key =
     bo @ [zero_entry\<lparr>EType := BinlogDelete, BucketName := bucket, EKey := key\<rparr>]"

definition ops_Len :: "BinlogOps \<Rightarrow> nat" where
  "ops_Len bo = length bo"

subsection \<open>Entries whose fields fit\<close>

definition entry_fits :: "BinlogEntry \<Rightarrow> bool" where
  "entry_fits e \<longleftrightarrow> length (BucketName e) < 2 ^ 16 \<and> length (EKey e) < 2 ^ 32 \<and> length (EValue e) < 2 ^ 32"

definition entry_body :: "BinlogEntry \<Rightarrow> bytes" where
  "entry_body e = be64 (LSN e) @ [char_of (unat (EType e))] @ be64 (ETimestamp e) @
     be16 (word_of_nat (length (BucketName e))) @ BucketName e @
     be32 (word_of_nat (length (EKey e))) @ EKey e @
     be32 (word_of_nat (length (EValue e))) @ EValue e"

definition entry_read :: "BinlogEntry \<Rightarrow> BinlogEntry" where
  "entry_read e = e\<lparr>Checksum := ChecksumIEEE (entry_body e)\<rparr>"

lemma Marshal_body: "MarshalBinlogEntry e = entry_body e @ be32 (ChecksumIEEE (entry_body e))"
  by (simp add: MarshalBinlogEntry_def entry_body_def Let_def)

lemma length_entry_body:
  "length (entry_body e) = 27 + length (BucketName e) + length (EKey e) + length (EValue e)"
  by (simp add: entry_body_def)

lemma length_Marshal:
  "length (MarshalBinlogEntry e) = 31 + length (BucketName e) + length (EKey e) + length (EValue e)"
  by (simp add: Marshal_body length_entry_body)

lemma unat_len16: "n < 2 ^ 16 \<Longrightarrow> unat (word_of_nat n :: u16) = n"
  by (simp add: unat_of_nat)

lemma unat_len32: "n < 2 ^ 32 \<Longrightarrow> unat (word_of_nat n :: u32) = n"
  by (simp add: unat_of_nat)

lemma of_char_type [simp]: "(of_char (char_of (unat (t :: u8))) :: u8) = t"
proof -
  have "unat t < 256" using unat_less_exp [of t] by simp
  then have "(of_char (char_of (unat t) :: char) :: nat) = unat t" by simp
  then have "(word_of_nat (of_char (char_of (unat t) :: char)) :: u8) = t" by (simp del: of_char_mod_256)
  then show ?thesis by (simp only: of_nat_of_char)
qed

subsection \<open>The round trip\<close>

lemma Unmarshal_Marshal:
  assumes "entry_fits e"
  shows "UnmarshalBinlogEntry (MarshalBinlogEntry e @ r) = Inr (entry_read e, length (MarshalBinlogEntry e))"
proof -
  let ?bn = "BucketName e" and ?k = "EKey e" and ?v = "EValue e"
  let ?lb = "be16 (word_of_nat (length ?bn))" and ?lk = "be32 (word_of_nat (length ?k))"
  let ?lv = "be32 (word_of_nat (length ?v))" and ?c = "be32 (ChecksumIEEE (entry_body e))"
  let ?h = "be64 (LSN e) @ [char_of (unat (EType e))] @ be64 (ETimestamp e)"
  define data where "data = MarshalBinlogEntry e @ r"
  have data: "data = entry_body e @ ?c @ r"
    by (simp add: data_def Marshal_body)
  have h: "length ?h = 17" by simp
  have at: "drop n (A @ B) = B" if "length A = n" for n and A B :: bytes using that by simp
  have d9: "drop 9 data = be64 (ETimestamp e) @ (?lb @ ?bn @ ?lk @ ?k @ ?lv @ ?v @ ?c @ r)"
    using at [of "be64 (LSN e) @ [char_of (unat (EType e))]" 9] by (simp add: data entry_body_def)
  have d17: "drop 17 data = ?lb @ (?bn @ ?lk @ ?k @ ?lv @ ?v @ ?c @ r)"
    using at [OF h] by (simp add: data entry_body_def)
  have d19: "drop 19 data = ?bn @ (?lk @ ?k @ ?lv @ ?v @ ?c @ r)"
    using at [of "?h @ ?lb" 19] by (simp add: data entry_body_def)
  have dk: "drop (19 + length ?bn) data = ?lk @ (?k @ ?lv @ ?v @ ?c @ r)"
    using at [of "?h @ ?lb @ ?bn" "19 + length ?bn"] by (simp add: data entry_body_def)
  have dk': "drop (19 + length ?bn + 4) data = ?k @ (?lv @ ?v @ ?c @ r)"
    using at [of "?h @ ?lb @ ?bn @ ?lk" "19 + length ?bn + 4"] by (simp add: data entry_body_def)
  have dv: "drop (19 + length ?bn + 4 + length ?k) data = ?lv @ (?v @ ?c @ r)"
    using at [of "?h @ ?lb @ ?bn @ ?lk @ ?k" "19 + length ?bn + 4 + length ?k"]
    by (simp add: data entry_body_def)
  have dv': "drop (19 + length ?bn + 4 + length ?k + 4) data = ?v @ (?c @ r)"
    using at [of "?h @ ?lb @ ?bn @ ?lk @ ?k @ ?lv" "19 + length ?bn + 4 + length ?k + 4"]
    by (simp add: data entry_body_def)
  have dc: "drop (19 + length ?bn + 4 + length ?k + 4 + length ?v) data = ?c @ r"
    and tc: "take (19 + length ?bn + 4 + length ?k + 4 + length ?v) data = entry_body e"
    using length_entry_body [of e] by (simp_all add: data)
  have ty: "data ! 8 = char_of (unat (EType e))"
    by (simp add: data entry_body_def nth_append)
  have lsn: "get_be64 data = LSN e"
    by (simp add: data entry_body_def)
  have len: "length data = 31 + length ?bn + length ?k + length ?v + length r"
    by (simp add: data length_entry_body)
  have fits: "unat (word_of_nat (length ?bn) :: u16) = length ?bn"
    "unat (word_of_nat (length ?k) :: u32) = length ?k"
    "unat (word_of_nat (length ?v) :: u32) = length ?v"
    using assms by (simp_all only: entry_fits_def unat_len16 unat_len32)
  have "UnmarshalBinlogEntry data =
      Inr (\<lparr>LSN = LSN e, EType = EType e, ETimestamp = ETimestamp e, BucketName = ?bn, EKey = ?k,
            EValue = ?v, Checksum = ChecksumIEEE (entry_body e)\<rparr>,
           19 + length ?bn + 4 + length ?k + 4 + length ?v + 4)"
    unfolding UnmarshalBinlogEntry_def binlogEntryHeaderSize_def Let_def
      lsn ty d9 d17 d19 get_be16_be16 get_be64_be64 fits dk dk' get_be32_be32 dv dv' dc tc
      of_char_type len
    by (simp add: length_entry_body)
  then show ?thesis
    by (simp add: data_def [symmetric] entry_read_def length_Marshal)
qed

text \<open>What the parser accepts is exactly what the writer writes.\<close>

lemma char_of_type [simp]: "char_of (unat (of_char c :: u8)) = c"
proof -
  have "unat (word_of_nat (of_char c) :: u8) = of_char c"
    by (subst unat_of_nat) simp
  then have "unat (of_char c :: u8) = of_char c" by (simp only: of_nat_of_char)
  then show ?thesis by simp
qed

lemma Unmarshal_canonical:
  assumes "UnmarshalBinlogEntry data = Inr (e, n)"
  shows "31 \<le> n \<and> n \<le> length data \<and> entry_fits e \<and> take n data = MarshalBinlogEntry e"
proof -
  define bl where "bl = unat (get_be16 (drop 17 data))"
  define kl where "kl = unat (get_be32 (drop (19 + bl) data))"
  define vl where "vl = unat (get_be32 (drop (19 + bl + 4 + kl) data))"
  let ?p1 = "19 + bl + 4" and ?p2 = "19 + bl + 4 + kl + 4" and ?p3 = "19 + bl + 4 + kl + 4 + vl"
  note U = assms [unfolded UnmarshalBinlogEntry_def binlogEntryHeaderSize_def Let_def,
      folded bl_def, folded kl_def, folded vl_def]
  have le: "?p3 + 4 \<le> length data" and n: "n = ?p3 + 4"
    and crc: "get_be32 (drop ?p3 data) = ChecksumIEEE (take ?p3 data)"
    and e: "e = \<lparr>LSN = get_be64 data, EType = of_char (data ! 8), ETimestamp = get_be64 (drop 9 data),
        BucketName = take bl (drop 19 data), EKey = take kl (drop ?p1 data),
        EValue = take vl (drop ?p2 data), Checksum = get_be32 (drop ?p3 data)\<rparr>"
    using U by (simp_all split: if_splits)
  have lens: "length (BucketName e) = bl" "length (EKey e) = kl" "length (EValue e) = vl"
    using le by (simp_all add: e)
  have bounds: "bl < 2 ^ 16" "kl < 2 ^ 32" "vl < 2 ^ 32"
    using unat_less_exp [of "get_be16 (drop 17 data)"] unat_less_exp [of "get_be32 (drop (19 + bl) data)"]
      unat_less_exp [of "get_be32 (drop (19 + bl + 4 + kl) data)"]
    by (simp_all add: bl_def kl_def vl_def)
  have nth: "[data ! 8] = take 1 (drop 8 data)"
    using le by (simp add: take_Suc_conv_app_nth)
  have split: "take (m + k) data = take m data @ take k (drop m data)" for m k
    by (rule take_add)
  have body: "entry_body e = take ?p3 data"
  proof -
    have "entry_body e = take 8 data @ take 1 (drop 8 data) @ take 8 (drop 9 data) @ take 2 (drop 17 data) @
        take bl (drop 19 data) @ take 4 (drop (19 + bl) data) @ take kl (drop ?p1 data) @
        take 4 (drop (19 + bl + 4 + kl) data) @ take vl (drop ?p2 data)"
      unfolding entry_body_def lens
      using le by (simp add: e nth be64_get_be64 be32_get_be32 be16_get_be16 bl_def kl_def vl_def)
    also have "\<dots> = take (8 + 1 + 8 + 2 + bl + 4 + kl + 4 + vl) data"
      by (simp only: split append_assoc) simp
    finally show ?thesis by simp
  qed
  have "take n data = take ?p3 data @ take 4 (drop ?p3 data)"
    using split [of ?p3 4] by (simp only: n)
  also have "take 4 (drop ?p3 data) = be32 (get_be32 (drop ?p3 data))"
    using le by (subst be32_get_be32) auto
  finally have "take n data = MarshalBinlogEntry e"
    by (simp only: Marshal_body body crc)
  with n le lens bounds show ?thesis by (simp add: entry_fits_def)
qed

lemma Unmarshal_torn:
  assumes "entry_fits e" and "n < length (MarshalBinlogEntry e)"
  shows "\<exists>err. UnmarshalBinlogEntry (take n (MarshalBinlogEntry e)) = Inl err"
proof (rule ccontr)
  assume "\<not> ?thesis"
  then obtain e' m where U: "UnmarshalBinlogEntry (take n (MarshalBinlogEntry e)) = Inr (e', m)"
    by (metis obj_sumE surj_pair)
  from Unmarshal_canonical [OF U] have m: "m \<le> n" and fits: "entry_fits e'"
    and tk: "take m (take n (MarshalBinlogEntry e)) = MarshalBinlogEntry e'" by auto
  have "MarshalBinlogEntry e = MarshalBinlogEntry e' @ drop m (MarshalBinlogEntry e)"
    using tk m by (metis append_take_drop_id min.absorb1 take_take)
  then have "UnmarshalBinlogEntry (MarshalBinlogEntry e) = Inr (entry_read e', length (MarshalBinlogEntry e'))"
    using Unmarshal_Marshal [OF fits, of "drop m (MarshalBinlogEntry e)"] by simp
  moreover have "UnmarshalBinlogEntry (MarshalBinlogEntry e) = Inr (entry_read e, length (MarshalBinlogEntry e))"
    using Unmarshal_Marshal [OF assms(1), of "[]"] by simp
  ultimately have "length (MarshalBinlogEntry e') = length (MarshalBinlogEntry e)" by simp
  moreover have "length (MarshalBinlogEntry e') \<le> n"
    using tk by (metis length_take min.bounded_iff order_refl m min.cobounded1 order_trans)
  ultimately show False using assms(2) by simp
qed

subsection \<open>The read loop, and the codec interface\<close>

definition binlog_dec :: "bytes \<Rightarrow> (BinlogEntry \<times> nat) option" where
  "binlog_dec data = (case UnmarshalBinlogEntry data of Inl _ \<Rightarrow> None | Inr r \<Rightarrow> Some r)"

text \<open>
  The loop of \<^verbatim>\<open>ReadFrom\<close> before its filter: entries are parsed until the first one that
  does not parse (\<^verbatim>\<open>possibly truncated entry at end\<close>).
\<close>

function binlog_scan :: "bytes \<Rightarrow> BinlogEntry list" where
  "binlog_scan data =
     (case UnmarshalBinlogEntry data of
        Inl _ \<Rightarrow> []
      | Inr (entry, n) \<Rightarrow> entry # binlog_scan (drop n data))"
  by pat_completeness auto
termination
  by (relation "measure length") (auto dest!: Unmarshal_canonical)

declare binlog_scan.simps [simp del]

interpretation binlog_codec: record_codec MarshalBinlogEntry binlog_dec entry_fits entry_read binlog_scan
proof
  show "binlog_dec [] = None"
    by (simp add: binlog_dec_def UnmarshalBinlogEntry_def binlogEntryHeaderSize_def)
  fix e r n bs
  show "entry_fits e \<Longrightarrow> binlog_dec (MarshalBinlogEntry e @ r) = Some (entry_read e, length (MarshalBinlogEntry e))"
    by (simp add: binlog_dec_def Unmarshal_Marshal)
  show "entry_fits e \<Longrightarrow> n < length (MarshalBinlogEntry e) \<Longrightarrow> binlog_dec (take n (MarshalBinlogEntry e)) = None"
    using Unmarshal_torn by (fastforce simp: binlog_dec_def)
  show "binlog_dec bs = Some (e, n) \<Longrightarrow> binlog_scan bs = e # binlog_scan (drop n bs)"
    by (subst binlog_scan.simps) (simp add: binlog_dec_def split: sum.splits)
  show "binlog_dec bs = None \<Longrightarrow> binlog_scan bs = []"
    by (subst binlog_scan.simps) (simp add: binlog_dec_def split: sum.splits)
qed

subsection \<open>Properties\<close>

lemma zero_entry_fits: "entry_fits zero_entry"
  by (simp add: entry_fits_def zero_entry_def)

text \<open>C14: The wire format round-trips: an entry whose fields fit is parsed back from its encoding
  whatever follows, and whatever the parser accepts is the encoding of the entry it returns.\<close>

theorem binlog_roundtrip:
  assumes "entry_fits e" and "UnmarshalBinlogEntry data = Inr (e', n)"
  shows "UnmarshalBinlogEntry (MarshalBinlogEntry e @ r) = Inr (entry_read e, length (MarshalBinlogEntry e)) \<and>
         n \<le> length data \<and> take n data = MarshalBinlogEntry e'"
  using Unmarshal_Marshal [OF assms(1)] Unmarshal_canonical [OF assms(2)] by blast

theorem binlog_roundtrip_witness:
  "UnmarshalBinlogEntry (MarshalBinlogEntry zero_entry @ ''xy'') =
     Inr (entry_read zero_entry, length (MarshalBinlogEntry zero_entry))"
  by (rule binlog_roundtrip [OF zero_entry_fits Unmarshal_Marshal [OF zero_entry_fits, of "[]"], THEN conjunct1])

text \<open>A crash in the middle of writing an entry loses that entry and no other: a reader gets
  every complete entry before the torn one.\<close>

theorem binlog_torn_write:
  assumes "\<forall>x \<in> set es. entry_fits x" and "entry_fits e" and "n < length (MarshalBinlogEntry e)"
  shows "binlog_scan (concat (map MarshalBinlogEntry es) @ take n (MarshalBinlogEntry e)) = map entry_read es"
  using assms by (rule binlog_codec.scan_torn_tail)

theorem binlog_torn_write_witness:
  "binlog_scan (MarshalBinlogEntry zero_entry @ take 30 (MarshalBinlogEntry zero_entry)) = [entry_read zero_entry]"
  using binlog_torn_write [of "[zero_entry]" zero_entry 30]
  by (simp add: length_Marshal entry_fits_def zero_entry_def)

end
