(* ===== verification/Bolt_Store.thy ===== *)
theory Bolt_Store
  imports Binlog_Entry "HOL-Library.AList"
begin

section \<open>The key-value store underneath\<close>

text \<open>
  The daemon keeps its data in bbolt, which is not part of the repository: it is the parameter
  \<open>B\<close> of the operations that use it, a record of the calls they make on a transaction, whose
  type \<open>'tx\<close> stays abstract.  \<open>None\<close> is an error of the call.  \<open>bk_scan\<close> is the loop
  \<^verbatim>\<open>for k, v := c.Seek(p); k != nil && bytes.HasPrefix(k, p); k, v = c.Next()\<close> with
  a body that does not write; \<open>bk_walk\<close> the keys the same loop visits when its body deletes each
  key it visits, about which bbolt promises nothing (\<^verbatim>\<open>Changing data while traversing with
  a cursor may cause it to be invalidated and return unexpected keys\<close>).
  \<open>bolt_laws\<close> states the documented behaviour of the other calls over the contents of the
  buckets.
\<close>

record 'tx bolt =
  bk_get :: "bytes \<Rightarrow> bytes \<Rightarrow> 'tx \<Rightarrow> bytes option"
  bk_put :: "bytes \<Rightarrow> bytes \<Rightarrow> bytes \<Rightarrow> 'tx \<Rightarrow> 'tx option"
  bk_delete :: "bytes \<Rightarrow> bytes \<Rightarrow> 'tx \<Rightarrow> 'tx option"
  bk_scan :: "bytes \<Rightarrow> bytes \<Rightarrow> 'tx \<Rightarrow> (bytes \<times> bytes) list"
  bk_walk :: "bytes \<Rightarrow> bytes \<Rightarrow> 'tx \<Rightarrow> bytes list"
  bk_create :: "bytes \<Rightarrow> 'tx \<Rightarrow> 'tx option"
  bk_drop :: "bytes \<Rightarrow> 'tx \<Rightarrow> 'tx option"
  bk_commit :: "'tx \<Rightarrow> 'tx option"

text \<open>The contents of the buckets.\<close>

type_synonym contents = "bytes \<Rightarrow> bytes \<Rightarrow> bytes option"

definition c_put :: "bytes \<Rightarrow> bytes \<Rightarrow> bytes \<Rightarrow> contents \<Rightarrow> contents" where
  "c_put b k v c = c(b := (c b)(k := Some v))"

definition c_delete :: "bytes \<Rightarrow> bytes \<Rightarrow> contents \<Rightarrow> contents" where
  "c_delete b k c = c(b := (c b)(k := None))"

definition c_drop :: "bytes \<Rightarrow> contents \<Rightarrow> contents" where
  "c_drop b c = c(b := (\<lambda>_. None))"

lemma c_put_apply: "c_put b k v c b' k' = (if b' = b \<and> k' = k then Some v else c b' k')"
  and c_delete_apply: "c_delete b k c b' k' = (if b' = b \<and> k' = k then None else c b' k')"
  and c_drop_apply: "c_drop b c b' k' = (if b' = b then None else c b' k')"
  by (simp_all add: c_put_def c_delete_def c_drop_def)

lemmas [store_simps] = c_put_apply c_delete_apply c_drop_apply

locale bolt_laws =
  fixes B :: "'tx bolt" and cont :: "'tx \<Rightarrow> contents"
  assumes get_law: "bk_get B b k tx = cont tx b k"
    and put_law: "bk_put B b k v tx = Some tx' \<Longrightarrow> cont tx' = c_put b k v (cont tx)"
    and delete_law: "bk_delete B b k tx = Some tx' \<Longrightarrow> cont tx' = c_delete b k (cont tx)"
    and delete_ok: "bk_delete B b k tx \<noteq> None"
    and scan_sorted: "sorted_wrt (<) (map fst (bk_scan B b p tx))"
    and scan_set: "set (bk_scan B b p tx) = {(k, v). cont tx b k = Some v \<and> prefix p k}"
    and create_law: "bk_create B b tx = Some tx' \<Longrightarrow> cont tx' = cont tx"
    and create_ok: "b \<noteq> [] \<Longrightarrow> bk_create B b tx \<noteq> None"
    and drop_law: "bk_drop B b tx = Some tx' \<Longrightarrow> cont tx' = c_drop b (cont tx)"
    and commit_law: "bk_commit B tx = Some tx' \<Longrightarrow> cont tx' = cont tx"
begin

lemma scan_keys: "set (map fst (bk_scan B b p tx)) = {k. cont tx b k \<noteq> None \<and> prefix p k}"
  by (force simp: scan_set)

lemma scan_distinct: "distinct (map fst (bk_scan B b p tx))"
  using scan_sorted strict_sorted_iff by blast

text \<open>The keys of a scan depend on the contents only.\<close>

lemma scan_keys_list: "map fst (bk_scan B b p tx) = sorted_list_of_set {k. cont tx b k \<noteq> None \<and> prefix p k}"
  using sorted_list_of_set.idem_if_sorted_distinct [of "map fst (bk_scan B b p tx)"]
    scan_sorted scan_distinct by (simp only: scan_keys strict_sorted_iff)

end

subsection \<open>DBUpdate\<close>

text \<open>
  \<^verbatim>\<open>Server.DBUpdate\<close>: the function runs in a transaction that is committed when it
  returns nil; when it fails, or the commit does, the store is unchanged.
\<close>

definition DBUpdate :: "'tx bolt \<Rightarrow> 'e \<Rightarrow> ('tx \<Rightarrow> 'e + ('tx \<times> 'r)) \<Rightarrow> 'tx \<Rightarrow> 'tx \<times> ('e + 'r)" where
  "DBUpdate B commitErr fn tx =
     (case fn tx of Inl err \<Rightarrow> (tx, Inl err)
      | Inr (tx', r) \<Rightarrow> (case bk_commit B tx' of None \<Rightarrow> (tx, Inl commitErr) | Some db \<Rightarrow> (db, Inr r)))"

lemma DBUpdate_Inl: "DBUpdate B ce fn tx = (db, Inl err) \<Longrightarrow> db = tx"
  by (auto simp: DBUpdate_def split: sum.splits option.splits)

lemma DBUpdate_Inr:
  "DBUpdate B ce fn tx = (db, Inr r) \<longleftrightarrow> (\<exists>tx'. fn tx = Inr (tx', r) \<and> bk_commit B tx' = Some db)"
  by (auto simp: DBUpdate_def split: sum.splits option.splits)

subsection \<open>Replaying recorded operations\<close>

text \<open>What the operations collected for the binlog do to the contents of a store.\<close>

fun replay_entry :: "BinlogEntry \<Rightarrow> contents \<Rightarrow> contents" where
  "replay_entry e c =
     (if EType e = BinlogPut then c_put (BucketName e) (EKey e) (EValue e) c
      else if EType e = BinlogDelete then c_delete (BucketName e) (EKey e) c
      else if EType e = BinlogDeleteBucket then c_drop (BucketName e) c
      else c)"

definition replay :: "BinlogEntry list \<Rightarrow> contents \<Rightarrow> contents" where
  "replay es c = fold replay_entry es c"

lemma replay_simps [simp]:
  "replay [] c = c" "replay (e # es) c = replay es (replay_entry e c)"
  "replay (xs @ ys) c = replay ys (replay xs c)"
  by (simp_all add: replay_def)

lemma replay_Put: "replay (ops_Put bo b k v) c = c_put b k v (replay bo c)"
  and replay_Delete: "replay (ops_Delete bo b k) c = c_delete b k (replay bo c)"
  by (simp_all add: ops_Put_def ops_Delete_def zero_entry_def)

text \<open>Stamping an entry with its LSN and time does not change what it does.\<close>

lemma replay_entry_stamp [simp]: "replay_entry (e\<lparr>LSN := l, ETimestamp := t\<rparr>) c = replay_entry e c"
  by simp

declare replay_entry.simps [simp del]

subsection \<open>A store in memory that obeys the laws\<close>

type_synonym mem_db = "(bytes \<times> (bytes \<times> bytes) list) list"

definition mem_bucket :: "mem_db \<Rightarrow> bytes \<Rightarrow> (bytes \<times> bytes) list" where
  "mem_bucket db b = (case map_of db b of None \<Rightarrow> [] | Some kv \<Rightarrow> kv)"

definition mem_contents :: "mem_db \<Rightarrow> contents" where
  "mem_contents db b k = map_of (mem_bucket db b) k"

definition mem_keys :: "bytes \<Rightarrow> bytes \<Rightarrow> mem_db \<Rightarrow> bytes list" where
  "mem_keys b p db = sort (remdups (filter (\<lambda>k. take (length p) k = p) (map fst (mem_bucket db b))))"

definition mem_bolt :: "mem_db bolt" where
  "mem_bolt = \<lparr>
     bk_get = (\<lambda>b k db. mem_contents db b k),
     bk_put = (\<lambda>b k v db. if k = [] \<or> length k > 32768 then None
                 else Some (AList.update b (AList.update k v (mem_bucket db b)) db)),
     bk_delete = (\<lambda>b k db. Some (AList.update b (AList.delete k (mem_bucket db b)) db)),
     bk_scan = (\<lambda>b p db. map (\<lambda>k. (k, the (mem_contents db b k))) (mem_keys b p db)),
     bk_walk = mem_keys,
     bk_create = (\<lambda>b db. if b = [] then None
                 else Some (if map_of db b = None then AList.update b [] db else db)),
     bk_drop = (\<lambda>b db. if map_of db b = None then None else Some (AList.update b [] db)),
     bk_commit = Some\<rparr>"

lemma mem_bucket_update [simp]: "mem_bucket (AList.update b kv db) b' = (if b' = b then kv else mem_bucket db b')"
  by (simp add: mem_bucket_def AList.update_conv')

lemma take_prefix_iff: "take (length p) k = p \<longleftrightarrow> prefix p k"
  by (metis append_eq_conv_conj prefix_def)

lemma mem_keys_set: "set (mem_keys b p db) = {k. mem_contents db b k \<noteq> None \<and> prefix p k}"
  by (auto simp: mem_keys_def mem_contents_def take_prefix_iff map_of_eq_None_iff image_iff)

interpretation mem: bolt_laws mem_bolt mem_contents
proof
  fix b p k v b' and tx tx' :: mem_db
  show "bk_get mem_bolt b k tx = mem_contents tx b k" by (simp add: mem_bolt_def)
  show "bk_put mem_bolt b k v tx = Some tx' \<Longrightarrow> mem_contents tx' = c_put b k v (mem_contents tx)"
    by (auto simp: mem_bolt_def mem_contents_def c_put_def fun_eq_iff AList.update_conv' split: if_splits)
  show "bk_delete mem_bolt b k tx = Some tx' \<Longrightarrow> mem_contents tx' = c_delete b k (mem_contents tx)"
    by (auto simp: mem_bolt_def mem_contents_def c_delete_def fun_eq_iff AList.delete_conv')
  show "bk_delete mem_bolt b k tx \<noteq> None" by (simp add: mem_bolt_def)
  show "sorted_wrt (<) (map fst (bk_scan mem_bolt b p tx))"
    by (simp add: mem_bolt_def comp_def mem_keys_def strict_sorted_iff)
  show "set (bk_scan mem_bolt b p tx) = {(k, v). mem_contents tx b k = Some v \<and> prefix p k}"
    by (auto simp: mem_bolt_def mem_keys_set image_iff)
  show "bk_create mem_bolt b tx = Some tx' \<Longrightarrow> mem_contents tx' = mem_contents tx"
    by (auto simp: mem_bolt_def mem_contents_def fun_eq_iff mem_bucket_def AList.update_conv'
        split: if_splits option.splits)
  show "b \<noteq> [] \<Longrightarrow> bk_create mem_bolt b tx \<noteq> None" by (simp add: mem_bolt_def)
  show "bk_drop mem_bolt b tx = Some tx' \<Longrightarrow> mem_contents tx' = c_drop b (mem_contents tx)"
    by (auto simp: mem_bolt_def mem_contents_def c_drop_def fun_eq_iff split: if_splits)
  show "bk_commit mem_bolt tx = Some tx' \<Longrightarrow> mem_contents tx' = mem_contents tx"
    by (simp add: mem_bolt_def)
qed

end
