(* ===== verification/Binlog_Log.thy ===== *)
theory Binlog_Log
  imports Binlog_Entry "HOL-Library.AList"
begin

section \<open>The replication log\<close>

text \<open>
  Models \<^verbatim>\<open>internal/binlog/binlog.go\<close>: opening with LSN recovery, appends, reads,
  rotation, subscribers.  The state is the \<open>Binlog\<close> struct; \<open>bw\<close> is its file and its
  256 KB \<^verbatim>\<open>bufio.Writer\<close>, \<open>handle_ok\<close> whether the \<^verbatim>\<open>*os.File\<close> is open, a
  subscriber's channel is the list of entries queued in it.  Every operation runs under the
  log's mutex, so operations are atomic; the \<open>io\<close> arguments say which system calls of this
  operation succeed.  The capacity-1 channel that wakes the flusher goroutine carries no data;
  the flusher itself is the operation \<open>log_flush\<close>.
\<close>

record Binlog =
  bw :: bufw
  handle_ok :: bool
  lsn :: u64
  oldestLSN :: u64
  fileSize :: int
  maxSize :: int
  maxAge :: int
  subscribers :: "(bytes \<times> BinlogEntry list) list"
  closed :: bool

record BinlogConfig =
  cfgMaxSize :: int
  cfgMaxAge :: int

datatype recover_error = HeaderError | DiscardError | LengthError

datatype log_error =
    OpenError | RecoverError recover_error | WriteError | FlushError | CloseError | LSNTooOld

definition defaultBinlogMaxSize :: int where "defaultBinlogMaxSize = 256 * 1024 * 1024"
definition defaultBinlogMaxAge :: int where "defaultBinlogMaxAge = 24 * 3600 * 1000000000"
definition binlogBufferSize :: nat where "binlogBufferSize = 256 * 1024"
definition binlogSubscriberCap :: nat where "binlogSubscriberCap = 4096"

subsection \<open>Opening: recoverLSN and NewBinlog\<close>

text \<open>
  The recovery loop skips from entry to entry by the length fields, without verifying
  checksums.  Fewer than 8 bytes at an entry boundary end the loop
  (\<^verbatim>\<open>io.EOF\<close> or \<^verbatim>\<open>io.ErrUnexpectedEOF\<close>); a short read anywhere else is an
  error.  The result is \<open>first\<close> and the first and last LSN seen.
\<close>

function recover_loop :: "bool \<Rightarrow> u64 \<Rightarrow> u64 \<Rightarrow> bytes \<Rightarrow> recover_error + (bool \<times> u64 \<times> u64)" where
  "recover_loop isFirst firstLSN lastLSN data =
     (if length data < 8 then Inr (isFirst, firstLSN, lastLSN) else
      let l = get_be64 data;
          firstLSN' = (if isFirst then l else firstLSN);
          r1 = drop 8 data
      in if length r1 < 11 then Inl HeaderError else
      let bucketNameLen = unat (get_be16 (drop 9 r1));
          r2 = drop 11 r1
      in if length r2 < bucketNameLen then Inl DiscardError else
      let r3 = drop bucketNameLen r2
      in if length r3 < 4 then Inl LengthError else
      let keyLen = unat (get_be32 r3);
          r4 = drop 4 r3
      in if length r4 < keyLen then Inl DiscardError else
      let r5 = drop keyLen r4
      in if length r5 < 4 then Inl LengthError else
      let valueLen = unat (get_be32 r5);
          r6 = drop 4 r5
      in if length r6 < valueLen then Inl DiscardError else
      let r7 = drop valueLen r6
      in if length r7 < 4 then Inl DiscardError else
      recover_loop False firstLSN' l (drop 4 r7))"
  by pat_completeness auto
termination
  by (relation "measure (\<lambda>(_, _, _, data). length data)") (auto simp: Let_def)

declare recover_loop.simps [simp del]

definition recoverLSN :: "Binlog \<Rightarrow> recover_error + Binlog" where
  "recoverLSN b =
     (case recover_loop True 0 0 (wfile (bw b)) of
        Inl e \<Rightarrow> Inl e
      | Inr (isFirst, firstLSN, lastLSN) \<Rightarrow>
          if \<not> isFirst \<or> lastLSN > 0 then Inr (b\<lparr>oldestLSN := firstLSN, lsn := lastLSN\<rparr>)
          else Inr b)"

definition NewBinlog :: "bool \<Rightarrow> BinlogConfig \<Rightarrow> bytes \<Rightarrow> log_error + Binlog" where
  "NewBinlog io cfg file =
     (if \<not> io then Inl OpenError else
      let b = \<lparr>bw = bw_new file, handle_ok = True, lsn = 0, oldestLSN = 0,
               fileSize = int (length file),
               maxSize = (if cfgMaxSize cfg \<le> 0 then defaultBinlogMaxSize else cfgMaxSize cfg),
               maxAge = (if cfgMaxAge cfg \<le> 0 then defaultBinlogMaxAge else cfgMaxAge cfg),
               subscribers = [], closed = False\<rparr>
      in if length file > 0
         then (case recoverLSN b of Inl e \<Rightarrow> Inl (RecoverError e) | Inr b' \<Rightarrow> Inr b')
         else Inr b)"

subsection \<open>Subscribers\<close>

definition Subscribe :: "bytes \<Rightarrow> Binlog \<Rightarrow> Binlog" where
  "Subscribe i b = b\<lparr>subscribers := AList.update i [] (subscribers b)\<rparr>"

definition Unsubscribe :: "bytes \<Rightarrow> Binlog \<Rightarrow> Binlog" where
  "Unsubscribe i b = b\<lparr>subscribers := AList.delete i (subscribers b)\<rparr>"

text \<open>A full channel drops the entry.\<close>

definition notifySubscribers :: "BinlogEntry \<Rightarrow> Binlog \<Rightarrow> Binlog" where
  "notifySubscribers entry b =
     b\<lparr>subscribers := map (\<lambda>(i, ch). (i, if length ch < binlogSubscriberCap then ch @ [entry] else ch))
                        (subscribers b)\<rparr>"

subsection \<open>Appending\<close>

definition Append :: "u64 \<Rightarrow> bool \<Rightarrow> BinlogEntry \<Rightarrow> Binlog \<Rightarrow> Binlog \<times> log_error option" where
  "Append now io entry b =
     (let newLSN = lsn b + 1;
          b1 = b\<lparr>lsn := newLSN\<rparr>;
          entry' = entry\<lparr>LSN := newLSN, ETimestamp := now\<rparr>;
          data = MarshalBinlogEntry entry';
          (w, ok) = bw_write binlogBufferSize (io \<and> handle_ok b) (bw b1) data
      in if \<not> ok then (b1\<lparr>bw := w\<rparr>, Some WriteError)
         else (notifySubscribers entry'
                 (b1\<lparr>bw := w, fileSize := fileSize b + int (length data),
                     oldestLSN := (if oldestLSN b = 0 then newLSN else oldestLSN b)\<rparr>), None))"

text \<open>The locked loop of \<^verbatim>\<open>AppendBatch\<close>; it returns the entries with their LSNs.\<close>

fun append_loop :: "u64 \<Rightarrow> bool \<Rightarrow> BinlogEntry list \<Rightarrow> Binlog \<Rightarrow> Binlog \<times> BinlogEntry list \<times> bool" where
  "append_loop now io [] b = (b, [], True)"
| "append_loop now io (entry # entries) b =
     (let newLSN = lsn b + 1;
          b1 = b\<lparr>lsn := newLSN\<rparr>;
          entry' = entry\<lparr>LSN := newLSN, ETimestamp := now\<rparr>;
          data = MarshalBinlogEntry entry';
          (w, ok) = bw_write binlogBufferSize (io \<and> handle_ok b) (bw b1) data
      in if \<not> ok then (b1\<lparr>bw := w\<rparr>, [], False)
         else
           let b2 = b1\<lparr>bw := w, fileSize := fileSize b + int (length data),
                       oldestLSN := (if oldestLSN b = 0 then newLSN else oldestLSN b)\<rparr>;
               (b3, rest, ok') = append_loop now io entries b2
           in (b3, entry' # rest, ok'))"

definition AppendBatch :: "u64 \<Rightarrow> bool \<Rightarrow> BinlogEntry list \<Rightarrow> Binlog \<Rightarrow> Binlog \<times> log_error option" where
  "AppendBatch now io entries b =
     (if length entries = 0 then (b, None) else
      let (b', entries', ok) = append_loop now io entries b
      in if \<not> ok then (b', Some WriteError)
         else (fold notifySubscribers entries' b', None))"

definition FlushTo :: "u64 \<Rightarrow> bool \<Rightarrow> BinlogOps \<Rightarrow> Binlog option \<Rightarrow> Binlog option" where
  "FlushTo now io bo bl =
     (case bl of None \<Rightarrow> None
      | Some b \<Rightarrow> if length bo = 0 then Some b else Some (fst (AppendBatch now io bo b)))"

subsection \<open>Reading, rotation, closing\<close>

definition log_flush :: "bool \<Rightarrow> Binlog \<Rightarrow> Binlog \<times> bool" where
  "log_flush io b =
     (let (w, ok) = bw_flush (io \<and> handle_ok b) (bw b) in (b\<lparr>bw := w\<rparr>, ok \<and> io \<and> handle_ok b))"

definition ReadFrom :: "bool \<Rightarrow> bool \<Rightarrow> u64 \<Rightarrow> Binlog \<Rightarrow> Binlog \<times> (log_error + BinlogEntry list)" where
  "ReadFrom io io_open fromLSN b =
     (let (b', _) = log_flush io b
      in if \<not> io_open then (b', Inl OpenError)
         else
           let entries = filter (\<lambda>e. LSN e > fromLSN) (binlog_scan (wfile (bw b')))
           in if fromLSN > 0 \<and> oldestLSN b' > 0 \<and> fromLSN < oldestLSN b'
              then (b', Inl LSNTooOld) else (b', Inr entries))"

definition CurrentLSN :: "Binlog \<Rightarrow> u64" where
  "CurrentLSN b = lsn b"

function keep_from :: "u64 \<Rightarrow> bytes \<Rightarrow> bytes" where
  "keep_from keepFromLSN data =
     (case UnmarshalBinlogEntry data of
        Inl _ \<Rightarrow> []
      | Inr (entry, n) \<Rightarrow>
          if LSN entry \<ge> keepFromLSN then data else keep_from keepFromLSN (drop n data))"
  by pat_completeness auto
termination
  by (relation "measure (\<lambda>(_, data). length data)") (auto dest!: Unmarshal_canonical)

declare keep_from.simps [simp del]

text \<open>
  The system calls of a rotation, in order: 0 flush, 1 read the file, 2 close it, 3 reopen it
  truncated, 4 write and flush the kept entries.  When the reopen fails the log is left with a
  closed handle and an unchanged file.
\<close>

definition log_truncate :: "(nat \<Rightarrow> bool) \<Rightarrow> Binlog \<Rightarrow> Binlog \<times> log_error option" where
  "log_truncate io b =
     (if \<not> (io 2 \<and> handle_ok b) then (b, Some CloseError)
      else if \<not> io 3 then (b\<lparr>handle_ok := False\<rparr>, Some OpenError)
      else (b\<lparr>bw := bw_new [], fileSize := 0, oldestLSN := 0\<rparr>, None))"

definition Rotate :: "(nat \<Rightarrow> bool) \<Rightarrow> u64 \<Rightarrow> Binlog \<Rightarrow> Binlog \<times> log_error option" where
  "Rotate io keepFromLSN b =
     (let (b1, ok) = log_flush (io 0) b
      in if \<not> ok then (b1, Some FlushError)
      else if keepFromLSN = 0 then log_truncate io b1
      else if \<not> io 1 then (b1, Some OpenError)
      else
        let keepData = keep_from keepFromLSN (wfile (bw b1))
        in if \<not> (io 2 \<and> handle_ok b1) then (b1, Some CloseError)
        else if \<not> io 3 then (b1\<lparr>handle_ok := False\<rparr>, Some OpenError)
        else if length keepData > 0 then
          let (w, ok) = bw_write binlogBufferSize (io 4) (bw_new []) keepData
          in if \<not> ok then (b1\<lparr>bw := w\<rparr>, Some WriteError)
             else
               let (b2, ok2) = log_flush (io 4) (b1\<lparr>bw := w, fileSize := int (length keepData),
                                                  oldestLSN := keepFromLSN\<rparr>)
               in (b2, if ok2 then None else Some FlushError)
        else
          let (b2, ok2) = log_flush (io 4) (b1\<lparr>bw := bw_new [], fileSize := 0, oldestLSN := 0\<rparr>)
          in (b2, if ok2 then None else Some FlushError))"

definition Close :: "bool \<Rightarrow> Binlog \<Rightarrow> Binlog \<times> log_error option" where
  "Close io b =
     (if closed b then (b, None) else
      let (b1, ok) = log_flush io (b\<lparr>closed := True\<rparr>)
      in if \<not> ok then (b1, Some FlushError)
         else (b1\<lparr>subscribers := [], handle_ok := False\<rparr>, None))"

definition OldestLSN :: "Binlog \<Rightarrow> u64" where
  "OldestLSN b = oldestLSN b"

subsection \<open>The representation: what the log holds\<close>

text \<open>
  \<open>log_rep b es\<close>: the writer's stream is exactly the entries \<open>es\<close>, whose LSNs are consecutive
  and end at the current LSN, \<open>oldestLSN\<close> is the LSN of the first of them, and the bookkeeping
  of the file size is exact.
\<close>

fun lsns_from :: "nat \<Rightarrow> BinlogEntry list \<Rightarrow> bool" where
  "lsns_from l [] = True"
| "lsns_from l (e # es) = (unat (LSN e) = l \<and> lsns_from (Suc l) es)"

definition log_bytes :: "BinlogEntry list \<Rightarrow> bytes" where
  "log_bytes es = concat (map MarshalBinlogEntry es)"

definition log_rep :: "Binlog \<Rightarrow> BinlogEntry list \<Rightarrow> bool" where
  "log_rep b es \<longleftrightarrow>
     handle_ok b \<and> \<not> werr (bw b) \<and> bw_stream (bw b) = log_bytes es \<and> (\<forall>e \<in> set es. entry_fits e) \<and>
     length es \<le> unat (lsn b) \<and> lsns_from (unat (lsn b) - length es + 1) es \<and>
     oldestLSN b = (if es = [] then 0 else LSN (hd es)) \<and> fileSize b = int (length (log_bytes es))"

definition stamped :: "u64 \<Rightarrow> u64 \<Rightarrow> BinlogEntry \<Rightarrow> BinlogEntry" where
  "stamped l now e = e\<lparr>LSN := l, ETimestamp := now\<rparr>"

fun stamped_list :: "u64 \<Rightarrow> u64 \<Rightarrow> BinlogEntry list \<Rightarrow> BinlogEntry list" where
  "stamped_list l now [] = []"
| "stamped_list l now (e # es) = stamped (l + 1) now e # stamped_list (l + 1) now es"

lemma stamped_simps [simp]:
  "LSN (stamped l now e) = l" "entry_fits (stamped l now e) = entry_fits e"
  by (simp_all add: stamped_def entry_fits_def)

lemma log_bytes_append [simp]: "log_bytes (xs @ ys) = log_bytes xs @ log_bytes ys"
  and log_bytes_Nil [simp]: "log_bytes [] = []"
  and log_bytes_Cons [simp]: "log_bytes (e # xs) = MarshalBinlogEntry e @ log_bytes xs"
  by (simp_all add: log_bytes_def)

lemma log_bytes_eq_Nil [simp]: "log_bytes es = [] \<longleftrightarrow> es = []"
proof (cases es)
  case (Cons e es')
  have "MarshalBinlogEntry e \<noteq> []" using length_Marshal [of e] by auto
  with Cons show ?thesis by simp
qed simp

lemma lsns_from_append [simp]:
  "lsns_from l (xs @ ys) \<longleftrightarrow> lsns_from l xs \<and> lsns_from (l + length xs) ys"
  by (induction xs arbitrary: l) auto

lemma lsns_from_nth: "lsns_from l es \<Longrightarrow> i < length es \<Longrightarrow> unat (LSN (es ! i)) = l + i"
proof (induction es arbitrary: l i)
  case (Cons e es)
  then show ?case by (cases i) auto
qed simp

lemma lsns_from_map: "lsns_from l es \<longleftrightarrow> map (\<lambda>e. unat (LSN e)) es = [l ..< l + length es]"
  by (induction es arbitrary: l) (auto simp: upt_rec)

lemma lsns_from_drop: "lsns_from l es \<Longrightarrow> lsns_from (l + n) (drop n es)"
proof (induction es arbitrary: l n)
  case (Cons e es)
  then show ?case by (cases n) (auto simp flip: add_Suc)
qed simp

lemma lsns_from_ge: "lsns_from l es \<Longrightarrow> e \<in> set es \<Longrightarrow> l \<le> unat (LSN e)"
proof (induction es arbitrary: l)
  case (Cons a es)
  then show ?case using Cons.IH [of "Suc l"] by (auto dest: Suc_leD)
qed simp

text \<open>Selecting by LSN is dropping a prefix.\<close>

lemma lsns_from_filter: "lsns_from l es \<Longrightarrow> filter (\<lambda>e. k \<le> unat (LSN e)) es = drop (k - l) es"
proof (induction es arbitrary: l)
  case (Cons e es)
  show ?case
  proof (cases "k \<le> l")
    case True
    with Cons.prems lsns_from_ge [of l "e # es"] show ?thesis
      by (auto simp: filter_id_conv intro!: le_trans [OF True] dest: lsns_from_ge)
  next
    case False
    then have "k - l = Suc (k - Suc l)" by simp
    with Cons False show ?thesis by simp
  qed
qed simp

lemma binlog_scan_log: "\<forall>e \<in> set es. entry_fits e \<Longrightarrow> binlog_scan (log_bytes es) = map entry_read es"
  unfolding log_bytes_def by (rule binlog_codec.scan_log)

lemma LSN_entry_read [simp]: "LSN (entry_read e) = LSN e"
  by (simp add: entry_read_def)

lemma notify_frame [simp]:
  "bw (notifySubscribers e b) = bw b" "handle_ok (notifySubscribers e b) = handle_ok b"
  "lsn (notifySubscribers e b) = lsn b" "oldestLSN (notifySubscribers e b) = oldestLSN b"
  "fileSize (notifySubscribers e b) = fileSize b" "closed (notifySubscribers e b) = closed b"
  by (simp_all add: notifySubscribers_def)

lemma log_rep_notify [simp]: "log_rep (notifySubscribers e b) es = log_rep b es"
  by (simp add: log_rep_def)

lemma log_rep_fold_notify [simp]: "log_rep (fold notifySubscribers xs b) es = log_rep b es"
  by (induction xs arbitrary: b) simp_all

lemma log_rep_new: "handle_ok b \<Longrightarrow> bw b = bw_new [] \<Longrightarrow> oldestLSN b = 0 \<Longrightarrow> fileSize b = 0 \<Longrightarrow> log_rep b []"
  by (simp add: log_rep_def bw_new_def bw_stream_def)

lemma unat_lsn_Suc: "unat (l :: u64) + 1 < 2 ^ 64 \<Longrightarrow> unat (l + 1) = Suc (unat l)"
  by (simp add: unat_word_ariths)

text \<open>Writing one stamped entry keeps the representation, whatever buffering did.\<close>

lemma log_rep_write:
  assumes rep: "log_rep b es" and fits: "entry_fits e" and bound: "unat (lsn b) + 1 < 2 ^ 64"
    and wr: "bw_write cap io (bw b) (MarshalBinlogEntry (stamped (lsn b + 1) now e)) = (w, True)"
  shows "log_rep (b\<lparr>lsn := lsn b + 1, bw := w,
      fileSize := fileSize b + int (length (MarshalBinlogEntry (stamped (lsn b + 1) now e))),
      oldestLSN := (if oldestLSN b = 0 then lsn b + 1 else oldestLSN b)\<rparr>)
    (es @ [stamped (lsn b + 1) now e])"
proof -
  have old: "oldestLSN b = 0 \<longleftrightarrow> es = []"
  proof (cases es)
    case (Cons a es')
    with rep have "unat (LSN a) = unat (lsn b) - length es + 1" by (simp add: log_rep_def)
    then have "LSN a \<noteq> 0" by (metis Suc_eq_plus1 nat.distinct(1) unat_0)
    with Cons rep show ?thesis by (simp add: log_rep_def)
  qed (use rep in \<open>simp add: log_rep_def\<close>)
  from bw_write_ok [OF wr] rep fits unat_lsn_Suc [OF bound] show ?thesis
    by (auto simp: log_rep_def old Suc_diff_le)
qed

lemma Append_cases:
  assumes "log_rep b es" and "entry_fits e" and "unat (lsn b) + 1 < 2 ^ 64"
  shows "(\<exists>b'. Append now io e b = (b', None) \<and> lsn b' = lsn b + 1 \<and>
             log_rep b' (es @ [stamped (lsn b + 1) now e])) \<or>
         (\<exists>b'. Append now io e b = (b', Some WriteError) \<and> \<not> io \<and> lsn b' = lsn b + 1)"
proof -
  let ?w = "bw_write binlogBufferSize (io \<and> handle_ok b) (bw b) (MarshalBinlogEntry (stamped (lsn b + 1) now e))"
  obtain w ok where w: "?w = (w, ok)" by (cases ?w)
  have h: "handle_ok b" "\<not> werr (bw b)" using assms(1) by (simp_all add: log_rep_def)
  show ?thesis
  proof (cases ok)
    case True
    with w log_rep_write [OF assms] show ?thesis
      by (simp add: Append_def Let_def stamped_def)
  next
    case False
    then have "\<not> io" using w h bw_write_succeeds [of "bw b"] by (metis snd_conv)
    with False w show ?thesis by (simp add: Append_def Let_def stamped_def)
  qed
qed

lemma append_loop_ok:
  assumes "log_rep b es" and "\<forall>e \<in> set new. entry_fits e" and "unat (lsn b) + length new < 2 ^ 64"
    and "append_loop now io new b = (b', ret, True)"
  shows "log_rep b' (es @ stamped_list (lsn b) now new) \<and> ret = stamped_list (lsn b) now new \<and>
         unat (lsn b') = unat (lsn b) + length new"
  using assms
proof (induction new arbitrary: b es ret)
  case (Cons e new)
  let ?m = "MarshalBinlogEntry (stamped (lsn b + 1) now e)"
  let ?w = "bw_write binlogBufferSize (io \<and> handle_ok b) (bw b) ?m"
  obtain w ok where w: "?w = (w, ok)" by (cases ?w)
  let ?b2 = "b\<lparr>lsn := lsn b + 1, bw := w, fileSize := fileSize b + int (length ?m),
      oldestLSN := (if oldestLSN b = 0 then lsn b + 1 else oldestLSN b)\<rparr>"
  obtain b3 rest ok' where r: "append_loop now io new ?b2 = (b3, rest, ok')"
    by (cases "append_loop now io new ?b2") auto
  from Cons.prems(4) w have ok by (simp add: stamped_def [symmetric] Let_def split: if_splits)
  with Cons.prems(4) w r have ret: "ret = stamped (lsn b + 1) now e # rest" "b3 = b'" "ok'"
    by (simp_all add: stamped_def [symmetric] Let_def)
  have bd: "unat (lsn b) + 1 < 2 ^ 64" using Cons.prems(3) by simp
  with Cons.prems w \<open>ok\<close> have rep2: "log_rep ?b2 (es @ [stamped (lsn b + 1) now e])"
    by (intro log_rep_write) auto
  have "log_rep b' ((es @ [stamped (lsn b + 1) now e]) @ stamped_list (lsn ?b2) now new) \<and>
      rest = stamped_list (lsn ?b2) now new \<and> unat (lsn b') = unat (lsn ?b2) + length new"
    using Cons.IH [OF rep2, of rest] Cons.prems r ret unat_lsn_Suc [OF bd] by simp
  with ret unat_lsn_Suc [OF bd] show ?case by simp
qed simp

lemma append_loop_succeeds:
  "handle_ok b \<Longrightarrow> \<not> werr (bw b) \<Longrightarrow> \<exists>b' ret. append_loop now True new b = (b', ret, True)"
proof (induction new arbitrary: b)
  case (Cons e new)
  let ?m = "MarshalBinlogEntry (e\<lparr>LSN := lsn b + 1, ETimestamp := now\<rparr>)"
  obtain w ok where w: "bw_write binlogBufferSize True (bw b) ?m = (w, ok)"
    by (cases "bw_write binlogBufferSize True (bw b) ?m")
  then have "ok" using bw_write_succeeds Cons.prems by (metis snd_conv)
  with w bw_write_ok [of binlogBufferSize True "bw b" ?m w] have "\<not> werr w" by simp
  then show ?case
    using Cons.IH [of "b\<lparr>lsn := lsn b + 1, bw := w, fileSize := fileSize b + int (length ?m),
        oldestLSN := (if oldestLSN b = 0 then lsn b + 1 else oldestLSN b)\<rparr>"] Cons.prems w \<open>ok\<close>
    by (auto simp: Let_def)
qed simp

lemma log_flush_rep:
  assumes "log_rep b es"
  shows "\<exists>b'. log_flush True b = (b', True) \<and> log_rep b' es \<and> wfile (bw b') = log_bytes es \<and>
     wbuf (bw b') = [] \<and> lsn b' = lsn b \<and> oldestLSN b' = oldestLSN b \<and> handle_ok b'"
proof -
  obtain w ok where w: "bw_flush True (bw b) = (w, ok)" by (cases "bw_flush True (bw b)")
  then have ok using bw_flush_succeeds [of "bw b"] assms by (simp add: log_rep_def)
  with w bw_flush_ok [of True "bw b" w] assms show ?thesis
    by (simp add: log_flush_def log_rep_def bw_stream_def)
qed

subsection \<open>Reading\<close>

lemma ReadFrom_rep:
  assumes "log_rep b es"
  shows "\<exists>b'. log_rep b' es \<and> lsn b' = lsn b \<and> oldestLSN b' = oldestLSN b \<and>
     ReadFrom True True from b =
       (b', if from > 0 \<and> es \<noteq> [] \<and> from < LSN (hd es) then Inl LSNTooOld
            else Inr (map entry_read (filter (\<lambda>e. LSN e > from) es)))"
proof -
  obtain b' where b': "log_flush True b = (b', True)" "log_rep b' es" "wfile (bw b') = log_bytes es"
    "lsn b' = lsn b" "oldestLSN b' = oldestLSN b" using log_flush_rep [OF assms] by blast
  have "filter (\<lambda>e. LSN e > from) (map entry_read es) = map entry_read (filter (\<lambda>e. LSN e > from) es)"
    by (induction es) auto
  moreover have "oldestLSN b' > 0 \<and> from < oldestLSN b' \<longleftrightarrow> es \<noteq> [] \<and> from < LSN (hd es)"
    using b'(2) by (auto simp: log_rep_def word_gt_0 split: if_splits)
  moreover have "\<forall>e \<in> set es. entry_fits e" using b'(2) by (simp add: log_rep_def)
  ultimately show ?thesis
    using b' by (auto simp: ReadFrom_def binlog_scan_log)
qed

text \<open>What a chain of LSNs holds above a given one.\<close>

lemma log_rep_above:
  assumes "log_rep b es" and "from = unat (lsn b) - length es \<or> (unat (lsn b) - length es < from)"
  shows "map (\<lambda>e. unat (LSN e)) (filter (\<lambda>e. from < unat (LSN e)) es) = [Suc from ..< Suc (unat (lsn b))]"
proof -
  let ?l = "unat (lsn b) - length es + 1"
  from assms(1) have ch: "lsns_from ?l es" and le: "length es \<le> unat (lsn b)" by (simp_all add: log_rep_def)
  have "filter (\<lambda>e. from < unat (LSN e)) es = drop (Suc from - ?l) es"
    using lsns_from_filter [OF ch, of "Suc from"] by (simp add: Suc_le_eq)
  moreover have "lsns_from (?l + (Suc from - ?l)) (drop (Suc from - ?l) es)"
    using ch by (rule lsns_from_drop)
  ultimately show ?thesis
    using assms(2) le by (auto simp: lsns_from_map)
qed

subsection \<open>Rotation\<close>

lemma keep_from_log:
  "\<forall>e \<in> set es. entry_fits e \<Longrightarrow> lsns_from l es \<Longrightarrow>
   keep_from k (log_bytes es) = log_bytes (filter (\<lambda>e. unat k \<le> unat (LSN e)) es)"
proof (induction es arbitrary: l)
  case Nil
  then show ?case
    by (subst keep_from.simps) (simp add: UnmarshalBinlogEntry_def binlogEntryHeaderSize_def)
next
  case (Cons e es)
  have U: "UnmarshalBinlogEntry (log_bytes (e # es)) = Inr (entry_read e, length (MarshalBinlogEntry e))"
    using Cons.prems(1) by (simp add: Unmarshal_Marshal)
  show ?case
  proof (cases "k \<le> LSN e")
    case True
    have "filter (\<lambda>e. unat k \<le> unat (LSN e)) (e # es) = e # es"
      using lsns_from_ge [OF Cons.prems(2)] Cons.prems(2) True
      by (fastforce simp: filter_id_conv word_le_nat_alt intro: order_trans)
    with True U show ?thesis by (subst keep_from.simps) simp
  next
    case False
    then have "\<not> unat k \<le> unat (LSN e)" by (simp add: word_le_nat_alt)
    moreover have "keep_from k (log_bytes es) = log_bytes (filter (\<lambda>e. unat k \<le> unat (LSN e)) es)"
      using Cons.IH [of "Suc l"] Cons.prems by simp
    ultimately show ?thesis using False U by (subst keep_from.simps) simp
  qed
qed

lemma Rotate_zero:
  assumes "log_rep b es" and "\<forall>i. io i"
  shows "\<exists>b'. Rotate io 0 b = (b', None) \<and> log_rep b' [] \<and> lsn b' = lsn b \<and> wfile (bw b') = []"
proof -
  obtain b' where b': "log_flush True b = (b', True)" "lsn b' = lsn b" "handle_ok b'"
    using log_flush_rep [OF assms(1)] by blast
  then show ?thesis
    using assms(2) by (auto simp: Rotate_def log_truncate_def intro!: log_rep_new) (simp add: bw_new_def)
qed

text \<open>
  The general case: the file holds exactly the entries from \<open>keep\<close> on, and
  \<open>oldestLSN\<close> becomes \<open>keep\<close> when any is left.
\<close>

lemma Rotate_keeps:
  assumes rep: "log_rep b es" and io: "\<forall>i. io i" and k: "k \<noteq> 0"
  defines "kept \<equiv> filter (\<lambda>e. unat k \<le> unat (LSN e)) es"
  shows "\<exists>b'. Rotate io k b = (b', None) \<and> lsn b' = lsn b \<and> bw_stream (bw b') = log_bytes kept \<and>
     handle_ok b' \<and> \<not> werr (bw b') \<and> oldestLSN b' = (if kept = [] then 0 else k) \<and>
     fileSize b' = int (length (log_bytes kept))"
proof -
  obtain b1 where b1: "log_flush True b = (b1, True)" "log_rep b1 es" "lsn b1 = lsn b" "handle_ok b1"
    "wfile (bw b1) = log_bytes es" using log_flush_rep [OF rep] by blast
  have kd: "keep_from k (wfile (bw b1)) = log_bytes kept"
    using rep b1 keep_from_log by (auto simp: log_rep_def kept_def)
  show ?thesis
  proof (cases "kept = []")
    case True
    with b1 kd io k show ?thesis
      by (simp add: Rotate_def Let_def log_flush_def bw_new_def bw_flush_def bw_stream_def)
  next
    case False
    obtain w ok where w: "bw_write binlogBufferSize True (bw_new []) (log_bytes kept) = (w, ok)"
      by (cases "bw_write binlogBufferSize True (bw_new []) (log_bytes kept)")
    have ok using bw_write_succeeds [of "bw_new []"] w by (metis bw_new_def bufw.select_convs(3) snd_conv)
    with w bw_write_ok [of binlogBufferSize True "bw_new []" "log_bytes kept" w]
    have st: "bw_stream w = log_bytes kept" "\<not> werr w" by (simp_all add: bw_new_def bw_stream_def)
    obtain w2 ok2 where w2: "bw_flush True w = (w2, ok2)" by (cases "bw_flush True w")
    with bw_flush_succeeds st have "ok2" by (metis snd_conv)
    with w2 bw_flush_ok [of True w w2] st have "bw_stream w2 = log_bytes kept" "\<not> werr w2"
      by (simp_all add: bw_stream_def)
    with False b1 kd io k w w2 \<open>ok\<close> \<open>ok2\<close> show ?thesis
      by (simp add: Rotate_def Let_def log_flush_def)
  qed
qed

lemma Rotate_rep:
  assumes rep: "log_rep b es" and io: "\<forall>i. io i" and k: "k \<noteq> 0"
    and ge: "es \<noteq> [] \<Longrightarrow> LSN (hd es) \<le> k"
  defines "kept \<equiv> filter (\<lambda>e. unat k \<le> unat (LSN e)) es"
  shows "\<exists>b'. Rotate io k b = (b', None) \<and> lsn b' = lsn b \<and> log_rep b' kept"
proof -
  let ?l = "unat (lsn b) - length es + 1"
  from rep have ch: "lsns_from ?l es" and le: "length es \<le> unat (lsn b)"
    and fits: "\<forall>e \<in> set es. entry_fits e" by (simp_all add: log_rep_def)
  have kept: "kept = drop (unat k - ?l) es" using lsns_from_filter [OF ch] by (simp add: kept_def)
  have ch': "lsns_from (?l + (unat k - ?l)) kept" unfolding kept using ch by (rule lsns_from_drop)
  have len: "length kept = length es - (unat k - ?l)" by (simp add: kept)
  have lk: "es \<noteq> [] \<Longrightarrow> ?l \<le> unat k"
    using ge ch by (cases es) (auto simp: word_le_nat_alt)
  have chain: "lsns_from (unat (lsn b) - length kept + 1) kept"
  proof (cases "kept = []")
    case False
    then have "es \<noteq> []" "unat k - ?l < length es" using len by (auto simp: kept)
    with len le lk have "unat (lsn b) - length kept + 1 = ?l + (unat k - ?l)" by simp
    with ch' show ?thesis by simp
  qed simp
  have hd: "kept \<noteq> [] \<Longrightarrow> LSN (hd kept) = k"
  proof -
    assume ne: "kept \<noteq> []"
    then have "es \<noteq> []" by (auto simp: kept)
    with ch' ne lk have "unat (LSN (hd kept)) = unat k" by (cases kept) auto
    then show ?thesis by (rule word_unat_eq_iff [THEN iffD2])
  qed
  from Rotate_keeps [OF rep io k] obtain b' where b': "Rotate io k b = (b', None)" "lsn b' = lsn b"
    "bw_stream (bw b') = log_bytes kept" "handle_ok b'" "\<not> werr (bw b')"
    "oldestLSN b' = (if kept = [] then 0 else k)" "fileSize b' = int (length (log_bytes kept))"
    by (auto simp: kept_def)
  have "log_rep b' kept"
    using b' chain hd fits le len by (auto simp: log_rep_def kept_def)
  with b' show ?thesis by blast
qed

subsection \<open>Recovery\<close>

lemma get_be64_take: "8 \<le> n \<Longrightarrow> get_be64 (take n d) = get_be64 d"
  and get_be32_take: "4 \<le> n \<Longrightarrow> get_be32 (take n d) = get_be32 d"
  and get_be16_take: "2 \<le> n \<Longrightarrow> get_be16 (take n d) = get_be16 d"
  by (simp_all add: get_be64_def get_be32_def get_be16_def min_def)

text \<open>The fields of a written entry, as \<open>recoverLSN\<close> reaches them.\<close>

lemma Marshal_fields:
  fixes e r
  defines "d \<equiv> MarshalBinlogEntry e @ r"
    and "nb \<equiv> length (BucketName e)" and "nk \<equiv> length (EKey e)" and "nv \<equiv> length (EValue e)"
  shows "get_be64 d = LSN e"
    and "get_be16 (drop 17 d) = word_of_nat nb"
    and "get_be32 (drop (19 + nb) d) = word_of_nat nk"
    and "get_be32 (drop (23 + nb + nk) d) = word_of_nat nv"
proof -
  let ?bn = "BucketName e" and ?k = "EKey e" and ?v = "EValue e"
  let ?lb = "be16 (word_of_nat (length ?bn))" and ?lk = "be32 (word_of_nat (length ?k))"
  let ?lv = "be32 (word_of_nat (length ?v))" and ?c = "be32 (ChecksumIEEE (entry_body e))"
  let ?h = "be64 (LSN e) @ [char_of (unat (EType e))] @ be64 (ETimestamp e)"
  have d: "d = entry_body e @ ?c @ r" by (simp add: d_def Marshal_body)
  have at: "drop n (A @ B) = B" if "length A = n" for n and A B :: bytes using that by simp
  show "get_be64 d = LSN e" by (simp add: d entry_body_def)
  have "drop 17 d = ?lb @ (?bn @ ?lk @ ?k @ ?lv @ ?v @ ?c @ r)"
    using at [of ?h 17] by (simp add: d entry_body_def)
  then show "get_be16 (drop 17 d) = word_of_nat nb" by (simp add: nb_def)
  have "drop (19 + nb) d = ?lk @ (?k @ ?lv @ ?v @ ?c @ r)"
    using at [of "?h @ ?lb @ ?bn" "19 + nb"] by (simp add: d entry_body_def nb_def)
  then show "get_be32 (drop (19 + nb) d) = word_of_nat nk" by (simp add: nk_def)
  have "drop (23 + nb + nk) d = ?lv @ (?v @ ?c @ r)"
    using at [of "?h @ ?lb @ ?bn @ ?lk @ ?k" "23 + nb + nk"] by (simp add: d entry_body_def nb_def nk_def)
  then show "get_be32 (drop (23 + nb + nk) d) = word_of_nat nv" by (simp add: nv_def)
qed

lemma recover_step:
  assumes "entry_fits e"
  shows "recover_loop isFirst f l (MarshalBinlogEntry e @ r) =
         recover_loop False (if isFirst then LSN e else f) (LSN e) r"
proof -
  let ?d = "MarshalBinlogEntry e @ r"
  let ?nb = "length (BucketName e)" and ?nk = "length (EKey e)" and ?nv = "length (EValue e)"
  have fits: "unat (word_of_nat ?nb :: u16) = ?nb" "unat (word_of_nat ?nk :: u32) = ?nk"
    "unat (word_of_nat ?nv :: u32) = ?nv"
    using assms by (simp_all only: entry_fits_def unat_len16 unat_len32)
  have len: "length ?d = 31 + ?nb + ?nk + ?nv + length r" by (simp add: length_Marshal)
  have dr: "drop 9 (drop 8 ?d) = drop 17 ?d"
    "drop ?nb (drop 11 (drop 8 ?d)) = drop (19 + ?nb) ?d"
    "drop ?nk (drop 4 (drop (19 + ?nb) ?d)) = drop (23 + ?nb + ?nk) ?d"
    "drop 4 (drop ?nv (drop 4 (drop (23 + ?nb + ?nk) ?d))) = drop (31 + ?nb + ?nk + ?nv) ?d"
    by (simp_all only: drop_drop) (simp_all add: add_ac)
  have fin: "drop (31 + ?nb + ?nk + ?nv) ?d = r" by (simp add: length_Marshal)
  show ?thesis
    by (subst recover_loop.simps)
      (simp only: Let_def dr Marshal_fields fits fin, simp add: len length_Marshal del: drop_append)
qed

lemma recover_log:
  assumes "\<forall>e \<in> set es. entry_fits e"
  shows "recover_loop isFirst f l (log_bytes es @ r) =
     recover_loop (isFirst \<and> es = []) (if isFirst \<and> es \<noteq> [] then LSN (hd es) else f)
       (if es = [] then l else LSN (last es)) r"
  using assms
proof (induction es arbitrary: isFirst f l)
  case (Cons e es)
  then show ?case by (auto simp: recover_step)
qed simp

lemma recover_short: "length r < 8 \<Longrightarrow> recover_loop isFirst f l r = Inr (isFirst, f, l)"
  by (subst recover_loop.simps) simp

text \<open>A data tail on which recovery succeeds is shorter than an LSN, or holds a whole record.\<close>

lemma recover_complete:
  fixes d :: bytes
  defines "nb \<equiv> unat (get_be16 (drop 17 d))"
  defines "nk \<equiv> unat (get_be32 (drop (19 + nb) d))"
  defines "nv \<equiv> unat (get_be32 (drop (23 + nb + nk) d))"
  assumes ok: "recover_loop isFirst f l d = Inr x" and len: "8 \<le> length d"
  shows "19 \<le> length d \<and> 23 + nb \<le> length d \<and> 27 + nb + nk \<le> length d \<and> 31 + nb + nk + nv \<le> length d"
proof -
  have e: "9 + (8::nat) = 17" "nb + 11 + (8::nat) = 19 + nb"
    "nk + 4 + nb + 11 + (8::nat) = 23 + nb + nk" by simp_all
  define rec where "rec = recover_loop False (if isFirst then get_be64 d else f) (get_be64 d)"
  show ?thesis
    using ok len
    by (subst (asm) recover_loop.simps)
      (auto simp only: Let_def drop_drop length_drop e nb_def [symmetric] nk_def [symmetric]
        nv_def [symmetric] rec_def [symmetric] sum.distinct split: if_splits; linarith)
qed

text \<open>A record torn after its LSN field stops recovery with an error.\<close>

lemma recover_torn:
  assumes "entry_fits e" and "8 \<le> n" and "n < length (MarshalBinlogEntry e)"
  shows "\<exists>err. recover_loop isFirst f l (take n (MarshalBinlogEntry e)) = Inl err"
proof (rule ccontr)
  let ?d = "take n (MarshalBinlogEntry e)"
  let ?nb = "length (BucketName e)" and ?nk = "length (EKey e)" and ?nv = "length (EValue e)"
  have fits: "unat (word_of_nat ?nb :: u16) = ?nb" "unat (word_of_nat ?nk :: u32) = ?nk"
    "unat (word_of_nat ?nv :: u32) = ?nv"
    using assms(1) by (simp_all only: entry_fits_def unat_len16 unat_len32)
  note F = Marshal_fields [of e "[]", unfolded append_Nil2]
  have len: "length ?d = n" using assms(3) by simp
  assume "\<not> ?thesis"
  then obtain x where "recover_loop isFirst f l ?d = Inr x" by (metis obj_sumE)
  from recover_complete [OF this] assms(2) len
  have c: "19 \<le> n" "23 + unat (get_be16 (drop 17 ?d)) \<le> n"
    "27 + unat (get_be16 (drop 17 ?d)) + unat (get_be32 (drop (19 + unat (get_be16 (drop 17 ?d))) ?d)) \<le> n"
    "31 + unat (get_be16 (drop 17 ?d)) + unat (get_be32 (drop (19 + unat (get_be16 (drop 17 ?d))) ?d)) +
     unat (get_be32 (drop (23 + unat (get_be16 (drop 17 ?d)) +
       unat (get_be32 (drop (19 + unat (get_be16 (drop 17 ?d))) ?d))) ?d)) \<le> n"
    by simp_all
  have f1: "unat (get_be16 (drop 17 ?d)) = ?nb"
    using F(2) fits c(1) by (simp add: drop_take get_be16_take)
  have f2: "unat (get_be32 (drop (19 + ?nb) ?d)) = ?nk"
    using F(3) fits c(2) [unfolded f1] by (simp add: drop_take get_be32_take)
  have f3: "unat (get_be32 (drop (23 + ?nb + ?nk) ?d)) = ?nv"
    using F(4) fits c(3) [unfolded f1 f2] by (simp add: drop_take get_be32_take)
  from c(4) have "31 + ?nb + ?nk + ?nv \<le> n" by (simp only: f1 f2 f3)
  with assms(3) show False by (simp add: length_Marshal)
qed

text \<open>Reopening a flushed log restores it, except that an empty one restarts at LSN 0.\<close>

lemma lsns_from_last: "lsns_from l es \<Longrightarrow> es \<noteq> [] \<Longrightarrow> unat (LSN (last es)) = l + length es - 1"
  using lsns_from_nth [of l es "length es - 1"] by (cases es rule: rev_cases) auto

lemma NewBinlog_log:
  assumes fits: "\<forall>e \<in> set es. entry_fits e" and ne: "es \<noteq> []" and r: "length r < 8"
  shows "\<exists>b. NewBinlog True cfg (log_bytes es @ r) = Inr b \<and> handle_ok b \<and> \<not> werr (bw b) \<and>
     wfile (bw b) = log_bytes es @ r \<and> wbuf (bw b) = [] \<and> lsn b = LSN (last es) \<and>
     oldestLSN b = LSN (hd es) \<and> fileSize b = int (length (log_bytes es @ r)) \<and> subscribers b = []"
proof -
  have "recover_loop True 0 0 (log_bytes es @ r) = Inr (False, LSN (hd es), LSN (last es))"
    using ne by (simp add: recover_log [OF fits] recover_short [OF r])
  with ne show ?thesis
    by (simp add: NewBinlog_def recoverLSN_def bw_new_def)
qed

lemma NewBinlog_rep:
  assumes rep: "log_rep b es" and ne: "es \<noteq> []" and fl: "wbuf (bw b) = []"
  shows "\<exists>b'. NewBinlog True cfg (wfile (bw b)) = Inr b' \<and> log_rep b' es \<and> lsn b' = lsn b"
proof -
  have disk: "wfile (bw b) = log_bytes es" using rep fl by (simp add: log_rep_def bw_stream_def)
  obtain b' where b': "NewBinlog True cfg (log_bytes es) = Inr b'" "handle_ok b'" "\<not> werr (bw b')"
    "wfile (bw b') = log_bytes es" "wbuf (bw b') = []" "lsn b' = LSN (last es)"
    "oldestLSN b' = LSN (hd es)" "fileSize b' = int (length (log_bytes es))"
    using NewBinlog_log [of es "[]" cfg] rep ne by (auto simp: log_rep_def)
  have "unat (LSN (last es)) = unat (lsn b)"
    using lsns_from_last [of _ es] rep ne by (auto simp: log_rep_def)
  then have "LSN (last es) = lsn b" by (rule word_unat_eq_iff [THEN iffD2])
  with b' disk rep ne show ?thesis by (auto simp: log_rep_def bw_stream_def)
qed

subsection \<open>Properties\<close>

text \<open>A log state as \<open>NewBinlog\<close> would recover it from the given entries.\<close>

definition log_of :: "BinlogEntry list \<Rightarrow> Binlog" where
  "log_of es = \<lparr>bw = bw_new (log_bytes es), handle_ok = True, lsn = (if es = [] then 0 else LSN (last es)),
     oldestLSN = (if es = [] then 0 else LSN (hd es)), fileSize = int (length (log_bytes es)),
     maxSize = defaultBinlogMaxSize, maxAge = defaultBinlogMaxAge, subscribers = [], closed = False\<rparr>"

definition sample_put :: "u64 \<Rightarrow> BinlogEntry" where
  "sample_put l = zero_entry\<lparr>LSN := l, EType := BinlogPut, BucketName := ''docs'', EKey := ''k'', EValue := ''v''\<rparr>"

lemma sample_put_simps [simp]: "LSN (sample_put l) = l" "entry_fits (sample_put l)"
  by (simp_all add: sample_put_def zero_entry_def entry_fits_def)

lemma log_rep_log_of: "(\<forall>e \<in> set es. entry_fits e) \<Longrightarrow> lsns_from l es \<Longrightarrow> 0 < l \<Longrightarrow> log_rep (log_of es) es"
  using lsns_from_last [of l es]
  by (auto simp: log_rep_def log_of_def bw_new_def bw_stream_def)

lemma log_rep_sample: "log_rep (log_of [sample_put 5, sample_put 6]) [sample_put 5, sample_put 6]"
  by (rule log_rep_log_of [where l = 5]) auto

lemma log_of_lsn: "lsn (log_of [sample_put 5, sample_put 6]) = 6"
  by (simp add: log_of_def)

text \<open>C12: A batch append puts exactly its entries behind the log, stamped with the next
  consecutive LSNs, and keeps the log well formed; when the system calls succeed it succeeds.\<close>

theorem AppendBatch_refines:
  assumes "log_rep b es" and "\<forall>e \<in> set new. entry_fits e" and "unat (lsn b) + length new < 2 ^ 64"
  shows "case AppendBatch now io new b of (b', err) \<Rightarrow>
     (io \<longrightarrow> err = None) \<and>
     (err = None \<longrightarrow> log_rep b' (es @ stamped_list (lsn b) now new) \<and>
                     unat (lsn b') = unat (lsn b) + length new)"
proof (cases new)
  case Nil
  with assms show ?thesis by (simp add: AppendBatch_def)
next
  case (Cons e new')
  obtain b' ret ok where r: "append_loop now io new b = (b', ret, ok)"
    by (cases "append_loop now io new b") auto
  have "lsn (fold notifySubscribers xs c) = lsn c" for xs c
    by (induction xs arbitrary: c) simp_all
  moreover have "io \<Longrightarrow> ok"
    using append_loop_succeeds [of b now new] assms(1) r by (auto simp: log_rep_def)
  ultimately show ?thesis
    using Cons r append_loop_ok [OF assms, of now io b' ret] by (auto simp: AppendBatch_def)
qed

theorem AppendBatch_refines_witness:
  "log_rep (fst (AppendBatch 7 True [sample_put 0] (log_of [sample_put 5, sample_put 6])))
     [sample_put 5, sample_put 6, stamped 7 7 (sample_put 0)]"
  using AppendBatch_refines [OF log_rep_sample, where new = "[sample_put 0]" and now = 7 and io = True]
  by (simp add: log_of_lsn case_prod_beta)





text \<open>Rotation below the oldest entry, which removes nothing, claims the lower LSN as the
  oldest one: a follower that stopped in between is then served a stream with a gap instead of
  being sent to the snapshot.\<close>

theorem Rotate_forges_oldest:
  assumes "log_rep b es" and "\<forall>i. io i" and "es \<noteq> []" and "0 < k" and "k \<le> from" and "from + 1 < LSN (hd es)"
    and "from < from + 1"
  shows "snd (ReadFrom True True from b) = Inl LSNTooOld \<and>
     snd (ReadFrom True True from (fst (Rotate io k b))) = Inr (map entry_read es) \<and> LSN (hd es) \<noteq> from + 1"
proof -
  have kept: "filter (\<lambda>e. unat k \<le> unat (LSN e)) es = es"
    and above: "filter (\<lambda>e. LSN e > from) es = es"
  proof -
    have "unat (LSN (hd es)) \<le> unat (LSN e)" if "e \<in> set es" for e
      using lsns_from_ge [OF _ that] assms(1,3) by (cases es) (auto simp: log_rep_def)
    then have ge: "e \<in> set es \<Longrightarrow> LSN (hd es) \<le> LSN e" for e by (simp add: word_le_nat_alt)
    have "from < LSN (hd es)" "k \<le> LSN (hd es)" using assms(5-7) by auto
    with ge show "filter (\<lambda>e. LSN e > from) es = es" "filter (\<lambda>e. unat k \<le> unat (LSN e)) es = es"
      by (fastforce simp: filter_id_conv simp flip: word_le_nat_alt)+
  qed
  have k0: "k \<noteq> 0" using assms(4) by auto
  obtain b' where b': "Rotate io k b = (b', None)" "bw_stream (bw b') = log_bytes es" "handle_ok b'"
    "\<not> werr (bw b')" "oldestLSN b' = k"
    using Rotate_keeps [OF assms(1,2) k0] assms(3) by (auto simp: kept)
  obtain w where w: "bw_flush True (bw b') = (w, True)"
    using bw_flush_succeeds [of "bw b'"] b'(4) by (metis prod.collapse)
  have "wfile w = log_bytes es" using bw_flush_ok [OF w] b'(2) by simp
  moreover have "filter (\<lambda>e. LSN e > from) (map entry_read es) = map entry_read es"
    using above by (simp add: filter_map comp_def)
  moreover have "binlog_scan (log_bytes es) = map entry_read es"
    using assms(1) by (intro binlog_scan_log) (simp add: log_rep_def)
  ultimately have "snd (ReadFrom True True from b') = Inr (map entry_read es)"
    using w b' assms(5) by (simp add: ReadFrom_def log_flush_def not_less)
  moreover have "snd (ReadFrom True True from b) = Inl LSNTooOld"
    using ReadFrom_rep [OF assms(1), of "from"] assms(3-7) by auto
  ultimately show ?thesis using assms(6) b' by auto
qed

theorem Rotate_forges_oldest_witness:
  "snd (ReadFrom True True 3 (fst (Rotate (\<lambda>_. True) 2 (log_of [sample_put 5, sample_put 6])))) =
     Inr (map entry_read [sample_put 5, sample_put 6])"
  using Rotate_forges_oldest [OF log_rep_sample, of "\<lambda>_. True" 2 3] by simp

text \<open>Reopening the file of a flushed, non-empty log recovers it: the same entries, the same
  current and oldest LSN.\<close>

theorem NewBinlog_recovers:
  assumes "log_rep b es" and "es \<noteq> []" and "log_flush True b = (b1, True)"
  shows "\<exists>b'. NewBinlog True cfg (wfile (bw b1)) = Inr b' \<and> log_rep b' es \<and>
     CurrentLSN b' = CurrentLSN b \<and> OldestLSN b' = OldestLSN b"
proof -
  from log_flush_rep [OF assms(1)] assms(3)
  have "log_rep b1 es" "wbuf (bw b1) = []" "lsn b1 = lsn b" "oldestLSN b1 = oldestLSN b" by auto
  moreover obtain b' where "NewBinlog True cfg (wfile (bw b1)) = Inr b'" "log_rep b' es" "lsn b' = lsn b1"
    using NewBinlog_rep [OF \<open>log_rep b1 es\<close> assms(2) \<open>wbuf (bw b1) = []\<close>] by blast
  ultimately show ?thesis
    by (auto simp: CurrentLSN_def OldestLSN_def log_rep_def)
qed

theorem NewBinlog_recovers_witness:
  "\<exists>b'. NewBinlog True \<lparr>cfgMaxSize = 0, cfgMaxAge = 0\<rparr> (log_bytes [sample_put 5, sample_put 6]) = Inr b' \<and>
     CurrentLSN b' = 6"
  using NewBinlog_recovers [OF log_rep_sample, of "log_of [sample_put 5, sample_put 6]" "\<lparr>cfgMaxSize = 0, cfgMaxAge = 0\<rparr>"]
  by (auto simp: log_flush_def bw_flush_def log_of_def bw_new_def CurrentLSN_def)

text \<open>After a crash in the middle of writing an entry, the leader does not come up again when
  at least the entry's LSN reached the disk: opening the log fails, although every complete
  entry before it is intact and readable.\<close>

theorem NewBinlog_torn_tail:
  assumes "\<forall>x \<in> set es. entry_fits x" and "entry_fits e" and "8 \<le> n" and "n < length (MarshalBinlogEntry e)"
  shows "(\<exists>err. NewBinlog True cfg (log_bytes es @ take n (MarshalBinlogEntry e)) = Inl (RecoverError err)) \<and>
     binlog_scan (log_bytes es @ take n (MarshalBinlogEntry e)) = map entry_read es"
proof -
  obtain err where "recover_loop True 0 0 (log_bytes es @ take n (MarshalBinlogEntry e)) = Inl err"
    using recover_log [OF assms(1)] recover_torn [OF assms(2-4)] by metis
  moreover have "length (log_bytes es @ take n (MarshalBinlogEntry e)) > 0" using assms(3,4) by auto
  moreover have "binlog_scan (log_bytes es @ take n (MarshalBinlogEntry e)) = map entry_read es"
    unfolding log_bytes_def using assms by (rule_tac binlog_codec.scan_torn_tail) auto
  ultimately show ?thesis by (auto simp: NewBinlog_def recoverLSN_def bw_new_def)
qed

theorem NewBinlog_torn_tail_witness:
  "\<exists>err. NewBinlog True \<lparr>cfgMaxSize = 0, cfgMaxAge = 0\<rparr>
     (log_bytes [sample_put 5] @ take 20 (MarshalBinlogEntry (sample_put 6))) = Inl (RecoverError err)"
  using NewBinlog_torn_tail [of "[sample_put 5]" "sample_put 6" 20]
  by (simp add: length_Marshal)

end
