(* ===== verification/Doc_Cache.thy ===== *)
theory Doc_Cache
  imports Mddb_Prelude "HOL-Library.AList"
begin

unbundle bit_operations_syntax

section \<open>The document caches\<close>

text \<open>
  Models \<^verbatim>\<open>internal/cache/cache.go\<close> and \<^verbatim>\<open>internal/cache/lockfree_cache.go\<close>.  A
  Go map is an association list with distinct keys.  Go iterates a map in an arbitrary order, so
  the entry an insertion evicts is chosen by an argument \<open>r\<close> of the operation.  Clock readings
  are arguments; an expiry time is a 64-bit sum that may wrap.  The interface \<open>doc_cache\<close> is
  what the callers of either cache rely on.
\<close>

record CacheEntry =
  CData :: bytes
  CExpiresAt :: int

type_synonym entries = "(bytes \<times> CacheEntry) list"

text \<open>Deleting an arbitrary entry.\<close>

definition evict :: "nat \<Rightarrow> entries \<Rightarrow> entries" where
  "evict r m = (if m = [] then m else AList.delete (fst (m ! (r mod length m))) m)"

definition live :: "int \<Rightarrow> entries \<Rightarrow> bytes \<Rightarrow> bytes option" where
  "live now m key =
     (case map_of m key of None \<Rightarrow> None
      | Some e \<Rightarrow> if now > CExpiresAt e then None else Some (CData e))"

subsection \<open>DocumentCache\<close>

record DocumentCache =
  dc_cache :: entries
  dc_maxSize :: int
  dc_ttl :: int
  dc_hits :: u64
  dc_misses :: u64

definition NewDocumentCache :: "int \<Rightarrow> int \<Rightarrow> DocumentCache" where
  "NewDocumentCache maxSize ttlSeconds =
     \<lparr>dc_cache = [], dc_maxSize = (if maxSize \<le> 0 then 1000 else maxSize),
      dc_ttl = (if ttlSeconds \<le> 0 then 300 else ttlSeconds), dc_hits = 0, dc_misses = 0\<rparr>"

definition dc_Get :: "int \<Rightarrow> bytes \<Rightarrow> DocumentCache \<Rightarrow> DocumentCache \<times> bytes option" where
  "dc_Get now key dc =
     (case map_of (dc_cache dc) key of
        None \<Rightarrow> (dc\<lparr>dc_misses := dc_misses dc + 1\<rparr>, None)
      | Some entry \<Rightarrow>
          if now > CExpiresAt entry then (dc\<lparr>dc_misses := dc_misses dc + 1\<rparr>, None)
          else (dc\<lparr>dc_hits := dc_hits dc + 1\<rparr>, Some (CData entry)))"

definition dc_Set :: "int \<Rightarrow> nat \<Rightarrow> bytes \<Rightarrow> bytes \<Rightarrow> DocumentCache \<Rightarrow> DocumentCache" where
  "dc_Set now r key data dc =
     (let cache = (if int (length (dc_cache dc)) \<ge> dc_maxSize dc then evict r (dc_cache dc) else dc_cache dc)
      in dc\<lparr>dc_cache := AList.update key \<lparr>CData = data, CExpiresAt = wrap64 (now + dc_ttl dc)\<rparr> cache\<rparr>)"

definition dc_Delete :: "bytes \<Rightarrow> DocumentCache \<Rightarrow> DocumentCache" where
  "dc_Delete key dc = dc\<lparr>dc_cache := AList.delete key (dc_cache dc)\<rparr>"

definition dc_Clear :: "DocumentCache \<Rightarrow> DocumentCache" where
  "dc_Clear dc = dc\<lparr>dc_cache := []\<rparr>"

definition dc_Stats :: "DocumentCache \<Rightarrow> u64 \<times> u64 \<times> nat" where
  "dc_Stats dc = (dc_hits dc, dc_misses dc, length (dc_cache dc))"

definition dc_cleanup :: "int \<Rightarrow> DocumentCache \<Rightarrow> DocumentCache" where
  "dc_cleanup now dc = dc\<lparr>dc_cache := filter (\<lambda>(_, entry). \<not> now > CExpiresAt entry) (dc_cache dc)\<rparr>"

definition BuildCacheKey :: "bytes \<Rightarrow> bytes \<Rightarrow> bytes \<Rightarrow> bytes" where
  "BuildCacheKey collection key lang = collection @ ''|'' @ key @ ''|'' @ lang"

subsection \<open>LockFreeCache\<close>

record CacheShard =
  sh_data :: entries
  sh_size :: "32 word"

record LockFreeCache =
  lf_shards :: "CacheShard list"
  lf_shardMask :: u64
  lf_maxSize :: int
  lf_ttl :: int
  lf_hits :: u64
  lf_misses :: u64

definition NewLockFreeCache :: "int \<Rightarrow> int \<Rightarrow> LockFreeCache" where
  "NewLockFreeCache maxSize ttlSeconds =
     \<lparr>lf_shards = replicate 16 \<lparr>sh_data = [], sh_size = 0\<rparr>, lf_shardMask = 15,
      lf_maxSize = (if maxSize \<le> 0 then 1000 else maxSize),
      lf_ttl = (if ttlSeconds \<le> 0 then 300 else ttlSeconds), lf_hits = 0, lf_misses = 0\<rparr>"

definition fnv1a :: "bytes \<Rightarrow> u64" where
  "fnv1a s = foldl (\<lambda>hash c. (hash XOR of_char c) * 1099511628211) 14695981039346656037 s"

definition getShard :: "bytes \<Rightarrow> LockFreeCache \<Rightarrow> nat" where
  "getShard key lfc = unat (fnv1a key AND lf_shardMask lfc)"

definition lf_Get :: "int \<Rightarrow> bytes \<Rightarrow> LockFreeCache \<Rightarrow> LockFreeCache \<times> bytes option" where
  "lf_Get now key lfc =
     (let shard = lf_shards lfc ! getShard key lfc
      in case map_of (sh_data shard) key of
           None \<Rightarrow> (lfc\<lparr>lf_misses := lf_misses lfc + 1\<rparr>, None)
         | Some entry \<Rightarrow>
             if now > CExpiresAt entry then (lfc\<lparr>lf_misses := lf_misses lfc + 1\<rparr>, None)
             else (lfc\<lparr>lf_hits := lf_hits lfc + 1\<rparr>, Some (CData entry)))"

definition lf_Set :: "int \<Rightarrow> nat \<Rightarrow> bytes \<Rightarrow> bytes \<Rightarrow> LockFreeCache \<Rightarrow> LockFreeCache" where
  "lf_Set now r key data lfc =
     (let i = getShard key lfc;
          shard = lf_shards lfc ! i;
          newMap = sh_data shard;
          existed = (map_of newMap key \<noteq> None);
          shardMaxSize = lf_maxSize lfc div int (length (lf_shards lfc));
          evicts = (\<not> existed \<and> int (length newMap) \<ge> shardMaxSize \<and> newMap \<noteq> []);
          size1 = (if evicts then sh_size shard - 1 else sh_size shard);
          newMap = (if evicts then evict r newMap else newMap);
          newMap = AList.update key \<lparr>CData = data, CExpiresAt = wrap64 (now + lf_ttl lfc)\<rparr> newMap
      in lfc\<lparr>lf_shards := (lf_shards lfc)[i :=
            \<lparr>sh_data = newMap, sh_size = (if \<not> existed then size1 + 1 else size1)\<rparr>]\<rparr>)"

definition lf_Delete :: "bytes \<Rightarrow> LockFreeCache \<Rightarrow> LockFreeCache" where
  "lf_Delete key lfc =
     (let i = getShard key lfc; shard = lf_shards lfc ! i
      in if map_of (sh_data shard) key = None then lfc
         else lfc\<lparr>lf_shards := (lf_shards lfc)[i :=
                \<lparr>sh_data = filter (\<lambda>(k, _). k \<noteq> key) (sh_data shard), sh_size = sh_size shard - 1\<rparr>]\<rparr>)"

definition lf_Clear :: "LockFreeCache \<Rightarrow> LockFreeCache" where
  "lf_Clear lfc = lfc\<lparr>lf_shards := map (\<lambda>_. \<lparr>sh_data = [], sh_size = 0\<rparr>) (lf_shards lfc)\<rparr>"

definition lf_Stats :: "LockFreeCache \<Rightarrow> u64 \<times> u64 \<times> int" where
  "lf_Stats lfc = (lf_hits lfc, lf_misses lfc, sum_list (map (\<lambda>s. sint (sh_size s)) (lf_shards lfc)))"

definition expire_shard :: "int \<Rightarrow> CacheShard \<Rightarrow> CacheShard" where
  "expire_shard now shard =
     (let newMap = filter (\<lambda>(_, v). now \<le> CExpiresAt v) (sh_data shard);
          removed = length (filter (\<lambda>(_, v). \<not> now \<le> CExpiresAt v) (sh_data shard))
      in if removed > 0
         then \<lparr>sh_data = newMap, sh_size = sh_size shard - word_of_nat removed\<rparr>
         else shard)"

definition evictExpired :: "int \<Rightarrow> LockFreeCache \<Rightarrow> LockFreeCache" where
  "evictExpired now lfc = lfc\<lparr>lf_shards := map (expire_shard now) (lf_shards lfc)\<rparr>"

subsection \<open>Association lists with distinct keys\<close>

abbreviation distinct_keys :: "entries \<Rightarrow> bool" where
  "distinct_keys m \<equiv> distinct (map fst m)"

lemma length_delete_present:
  "distinct_keys m \<Longrightarrow> k \<in> fst ` set m \<Longrightarrow> Suc (length (AList.delete k m)) = length m"
proof (induction m)
  case (Cons a m)
  obtain x y where a: "a = (x, y)" by (cases a)
  show ?case
  proof (cases "x = k")
    case True
    with Cons.prems a have "k \<notin> fst ` set m" by auto
    then have "AList.delete k m = m" by (simp add: AList.delete_eq filter_id_conv) force
    with True a show ?thesis by simp
  qed (use Cons a in auto)
qed simp

lemma length_evict:
  assumes "distinct_keys m" and "m \<noteq> []"
  shows "Suc (length (evict r m)) = length m"
proof -
  have "fst (m ! (r mod length m)) \<in> fst ` set m" using assms(2) by simp
  with length_delete_present [OF assms(1)] assms(2) show ?thesis by (simp add: evict_def)
qed

lemma distinct_evict: "distinct_keys m \<Longrightarrow> distinct_keys (evict r m)"
  by (simp add: evict_def AList.distinct_delete)

lemma map_of_evict: "map_of (evict r m) k = map_of m k \<or> map_of (evict r m) k = None"
  by (auto simp: evict_def AList.delete_conv')

lemma length_update_new: "k \<notin> fst ` set m \<Longrightarrow> length (AList.update k v m) = Suc (length m)"
  by (induction m) auto

lemma length_update_old: "k \<in> fst ` set m \<Longrightarrow> length (AList.update k v m) = length m"
  by (induction m) auto

lemma length_update_le: "length (AList.update k v m) \<le> Suc (length m)"
  by (induction m) auto

lemma live_cases: "map_of m k = map_of m' k \<Longrightarrow> live t m k = live t m' k"
  by (simp add: live_def)

lemma live_update: "live t (AList.update k e m) k' =
   (if k' = k then if t > CExpiresAt e then None else Some (CData e) else live t m k')"
  by (simp add: live_def AList.update_conv')

lemma live_delete: "live t (AList.delete k m) k' = (if k' = k then None else live t m k')"
  by (simp add: live_def AList.delete_conv')

lemma live_evict: "live t (evict r m) k = live t m k \<or> live t (evict r m) k = None"
  using map_of_evict [of r m k] by (auto simp: live_def)

subsection \<open>What the callers rely on\<close>

text \<open>
  \<open>lookup now s key\<close> is the result of a get; \<open>expiry now s\<close> the time an entry stored now
  lives to.  A cache may forget an entry at any insertion, but it never returns anything but the
  data last stored, and nothing after a delete.
\<close>

text \<open>A history of writes and deletes through a cache to the store \<open>f\<close> behind it.\<close>

fun write_through :: "(int \<Rightarrow> nat \<Rightarrow> bytes \<Rightarrow> bytes \<Rightarrow> 's \<Rightarrow> 's) \<Rightarrow> (bytes \<Rightarrow> 's \<Rightarrow> 's) \<Rightarrow>
    (int \<times> nat \<times> bytes \<times> bytes option) list \<Rightarrow> 's \<times> (bytes \<Rightarrow> bytes option) \<Rightarrow> 's \<times> (bytes \<Rightarrow> bytes option)" where
  "write_through st rm [] p = p"
| "write_through st rm ((now, r, k, Some d) # ops) (s, f) = write_through st rm ops (st now r k d s, f(k \<mapsto> d))"
| "write_through st rm ((now, r, k, None) # ops) (s, f) = write_through st rm ops (rm k s, f(k := None))"

locale doc_cache =
  fixes lookup :: "int \<Rightarrow> 's \<Rightarrow> bytes \<Rightarrow> bytes option"
    and store :: "int \<Rightarrow> nat \<Rightarrow> bytes \<Rightarrow> bytes \<Rightarrow> 's \<Rightarrow> 's"
    and remove :: "bytes \<Rightarrow> 's \<Rightarrow> 's"
    and expiry :: "int \<Rightarrow> 's \<Rightarrow> int"
    and inv :: "'s \<Rightarrow> bool"
  assumes inv_store: "inv s \<Longrightarrow> inv (store now r k d s)"
    and inv_remove: "inv s \<Longrightarrow> inv (remove k s)"
    and lookup_store: "inv s \<Longrightarrow> t \<le> expiry now s \<Longrightarrow> lookup t (store now r k d s) k = Some d"
    and lookup_store_data: "inv s \<Longrightarrow> lookup t (store now r k d s) k = None \<or> lookup t (store now r k d s) k = Some d"
    and lookup_store_other: "inv s \<Longrightarrow> k' \<noteq> k \<Longrightarrow>
      lookup t (store now r k d s) k' = None \<or> lookup t (store now r k d s) k' = lookup t s k'"
    and lookup_remove: "inv s \<Longrightarrow> lookup t (remove k s) k' = (if k' = k then None else lookup t s k')"
begin

text \<open>A cache is coherent with a store \<open>f\<close> when whatever it returns is what the store holds.\<close>

definition coherent :: "'s \<Rightarrow> (bytes \<Rightarrow> bytes option) \<Rightarrow> bool" where
  "coherent s f \<longleftrightarrow> (\<forall>t k d. lookup t s k = Some d \<longrightarrow> f k = Some d)"

lemma coherent_store: "inv s \<Longrightarrow> coherent s f \<Longrightarrow> coherent (store now r k d s) (f(k \<mapsto> d))"
  unfolding coherent_def using lookup_store_data lookup_store_other
  by (metis fun_upd_other fun_upd_same option.distinct(1))

lemma coherent_fill: "inv s \<Longrightarrow> coherent s f \<Longrightarrow> f k = Some d \<Longrightarrow> coherent (store now r k d s) f"
  using coherent_store [of s f now r k d] by (simp add: fun_upd_idem)

lemma coherent_remove: "inv s \<Longrightarrow> coherent s f \<Longrightarrow> coherent (remove k s) (f(k := v))"
  unfolding coherent_def by (auto simp: lookup_remove split: if_splits)

text \<open>A write-through cache stays coherent along any history of writes and deletes.\<close>

lemma write_through_coherent:
  "inv s \<Longrightarrow> coherent s f \<Longrightarrow>
   inv (fst (write_through store remove ops (s, f))) \<and>
   coherent (fst (write_through store remove ops (s, f))) (snd (write_through store remove ops (s, f)))"
proof (induction ops arbitrary: s f)
  case (Cons a ops)
  obtain now r k v where a: "a = (now, r, k, v)" by (cases a)
  show ?case
  proof (cases v)
    case None
    have "inv (remove k s)" "coherent (remove k s) (f(k := None))"
      using Cons.prems by (rule_tac inv_remove, simp) (rule coherent_remove [OF Cons.prems])
    then show ?thesis unfolding a None write_through.simps by (rule Cons.IH)
  next
    case (Some d)
    have "inv (store now r k d s)" "coherent (store now r k d s) (f(k \<mapsto> d))"
      using Cons.prems by (rule_tac inv_store, simp) (rule coherent_store [OF Cons.prems])
    then show ?thesis unfolding a Some write_through.simps by (rule Cons.IH)
  qed
qed simp

end

subsection \<open>DocumentCache provides the interface\<close>

definition dc_inv :: "DocumentCache \<Rightarrow> bool" where
  "dc_inv dc \<longleftrightarrow> distinct_keys (dc_cache dc) \<and> 0 < dc_maxSize dc \<and> int (length (dc_cache dc)) \<le> dc_maxSize dc"

definition dc_lookup :: "int \<Rightarrow> DocumentCache \<Rightarrow> bytes \<Rightarrow> bytes option" where
  "dc_lookup now dc key = snd (dc_Get now key dc)"

definition dc_expiry :: "int \<Rightarrow> DocumentCache \<Rightarrow> int" where
  "dc_expiry now dc = wrap64 (now + dc_ttl dc)"

lemma dc_lookup_live: "dc_lookup now dc key = live now (dc_cache dc) key"
  by (simp add: dc_lookup_def dc_Get_def live_def split: option.splits)

lemma length_delete_le: "length (AList.delete k m) \<le> length m"
  by (simp add: AList.delete_eq)

lemma dc_inv_Set:
  assumes "dc_inv dc" shows "dc_inv (dc_Set now r k d dc)"
proof -
  let ?m = "if int (length (dc_cache dc)) \<ge> dc_maxSize dc then evict r (dc_cache dc) else dc_cache dc"
  have "int (length ?m) < dc_maxSize dc"
  proof (cases "int (length (dc_cache dc)) \<ge> dc_maxSize dc")
    case True
    then have "dc_cache dc \<noteq> []" using assms by (auto simp: dc_inv_def)
    then have "Suc (length (evict r (dc_cache dc))) = length (dc_cache dc)"
      using assms by (intro length_evict) (simp_all add: dc_inv_def)
    with True assms show ?thesis by (simp add: dc_inv_def)
  qed simp
  moreover have "distinct_keys ?m" using assms by (simp add: dc_inv_def distinct_evict)
  ultimately have "distinct_keys (AList.update k e ?m)" "int (length (AList.update k e ?m)) \<le> dc_maxSize dc" for e
    using length_update_le [of k e ?m] by (simp add: AList.distinct_update, linarith)
  then show ?thesis using assms by (simp add: dc_inv_def dc_Set_def Let_def)
qed

lemma dc_inv_other:
  "dc_inv (NewDocumentCache n ttl)" "dc_inv dc \<Longrightarrow> dc_inv (dc_Delete k dc)"
  "dc_inv dc \<Longrightarrow> dc_inv (dc_Clear dc)" "dc_inv dc \<Longrightarrow> dc_inv (dc_cleanup now dc)"
  "dc_inv dc \<Longrightarrow> dc_inv (fst (dc_Get now k dc))"
proof -
  assume i: "dc_inv dc"
  have "length (AList.delete k (dc_cache dc)) \<le> length (dc_cache dc)" by (rule length_delete_le)
  with i show "dc_inv (dc_Delete k dc)"
    by (simp add: dc_inv_def dc_Delete_def AList.distinct_delete)
  have "length (filter P (dc_cache dc)) \<le> length (dc_cache dc)" for P by (rule length_filter_le)
  then have "int (length (filter P (dc_cache dc))) \<le> dc_maxSize dc" for P
    using i by (meson dc_inv_def of_nat_mono order_trans)
  with i show "dc_inv (dc_cleanup now dc)"
    by (simp add: dc_inv_def dc_cleanup_def distinct_map_filter)
  from i show "dc_inv (dc_Clear dc)" "dc_inv (fst (dc_Get now k dc))"
    by (simp_all add: dc_inv_def dc_Clear_def dc_Get_def split: option.splits)
qed (simp add: dc_inv_def NewDocumentCache_def)

interpretation dc: doc_cache dc_lookup dc_Set dc_Delete dc_expiry dc_inv
proof
  fix s now r k d t k'
  assume i: "dc_inv s"
  show "dc_inv (dc_Set now r k d s)" "dc_inv (dc_Delete k s)"
    using i by (rule dc_inv_Set, rule dc_inv_other)
  show "t \<le> dc_expiry now s \<Longrightarrow> dc_lookup t (dc_Set now r k d s) k = Some d"
    by (simp add: dc_lookup_live dc_Set_def live_update dc_expiry_def Let_def)
  show "dc_lookup t (dc_Set now r k d s) k = None \<or> dc_lookup t (dc_Set now r k d s) k = Some d"
    by (simp add: dc_lookup_live dc_Set_def live_update Let_def)
  show "k' \<noteq> k \<Longrightarrow> dc_lookup t (dc_Set now r k d s) k' = None \<or>
      dc_lookup t (dc_Set now r k d s) k' = dc_lookup t s k'"
    using live_evict [of t r "dc_cache s" k'] by (auto simp: dc_lookup_live dc_Set_def live_update Let_def)
  show "dc_lookup t (dc_Delete k s) k' = (if k' = k then None else dc_lookup t s k')"
    by (simp add: dc_lookup_live dc_Delete_def live_delete)
qed

subsection \<open>LockFreeCache provides the interface\<close>

definition shard_ok :: "int \<Rightarrow> CacheShard \<Rightarrow> bool" where
  "shard_ok n sh \<longleftrightarrow> distinct_keys (sh_data sh) \<and> sh_size sh = word_of_nat (length (sh_data sh)) \<and>
     int (length (sh_data sh)) \<le> max 1 (n div 16)"

definition lf_inv :: "LockFreeCache \<Rightarrow> bool" where
  "lf_inv lfc \<longleftrightarrow> length (lf_shards lfc) = 16 \<and> lf_shardMask lfc = 15 \<and> 0 < lf_maxSize lfc \<and>
     (\<forall>sh \<in> set (lf_shards lfc). shard_ok (lf_maxSize lfc) sh)"

definition lf_lookup :: "int \<Rightarrow> LockFreeCache \<Rightarrow> bytes \<Rightarrow> bytes option" where
  "lf_lookup now lfc key = snd (lf_Get now key lfc)"

definition lf_expiry :: "int \<Rightarrow> LockFreeCache \<Rightarrow> int" where
  "lf_expiry now lfc = wrap64 (now + lf_ttl lfc)"

lemma lf_lookup_live: "lf_lookup now lfc key = live now (sh_data (lf_shards lfc ! getShard key lfc)) key"
  by (simp add: lf_lookup_def lf_Get_def live_def Let_def split: option.splits)

lemma getShard_less: "lf_inv lfc \<Longrightarrow> getShard key lfc < length (lf_shards lfc)"
proof -
  assume i: "lf_inv lfc"
  have "fnv1a key AND 15 \<le> (15 :: u64)" by (rule word_and_le1)
  then have "unat (fnv1a key AND 15) \<le> 15" by (simp add: word_le_nat_alt)
  with i show ?thesis by (simp add: lf_inv_def getShard_def)
qed

lemma shard_ok_nth: "lf_inv lfc \<Longrightarrow> i < length (lf_shards lfc) \<Longrightarrow> shard_ok (lf_maxSize lfc) (lf_shards lfc ! i)"
  by (simp add: lf_inv_def)

lemma lf_inv_update:
  "lf_inv lfc \<Longrightarrow> shard_ok (lf_maxSize lfc) sh \<Longrightarrow> lf_inv (lfc\<lparr>lf_shards := (lf_shards lfc)[i := sh]\<rparr>)"
  by (auto simp: lf_inv_def dest: set_update_subset_insert [THEN subsetD])

lemma lf_inv_Set:
  assumes "lf_inv lfc" shows "lf_inv (lf_Set now r k d lfc)"
proof -
  let ?sh = "lf_shards lfc ! getShard k lfc" and ?n = "lf_maxSize lfc"
  let ?m = "sh_data ?sh" and ?e = "\<lparr>CData = d, CExpiresAt = wrap64 (now + lf_ttl lfc)\<rparr>"
  have ok: "shard_ok ?n ?sh" using shard_ok_nth [OF assms getShard_less [OF assms]] .
  have l16: "int (length (lf_shards lfc)) = 16" using assms by (simp add: lf_inv_def)
  have dist: "distinct_keys (AList.update k ?e ?m)" "distinct_keys (AList.update k ?e (evict r ?m))"
    using ok by (simp_all add: shard_ok_def AList.distinct_update distinct_evict)
  show ?thesis
  proof (cases "map_of ?m k = None")
    case False
    then obtain y where y: "map_of ?m k = Some y" by auto
    from False have "k \<in> fst ` set ?m" by (simp add: map_of_eq_None_iff)
    then have "length (AList.update k ?e ?m) = length ?m" by (rule length_update_old)
    with ok dist have "shard_ok ?n \<lparr>sh_data = AList.update k ?e ?m, sh_size = sh_size ?sh\<rparr>"
      by (simp add: shard_ok_def)
    with y show ?thesis by (simp add: lf_Set_def Let_def lf_inv_update [OF assms])
  next
    case new: True
    then have nk: "k \<notin> fst ` set ?m" by (simp add: map_of_eq_None_iff)
    show ?thesis
    proof (cases "int (length ?m) \<ge> ?n div 16 \<and> ?m \<noteq> []")
      case True
      have le: "Suc (length (evict r ?m)) = length ?m"
        using ok True by (intro length_evict) (simp_all add: shard_ok_def)
      have "k \<notin> fst ` set (evict r ?m)"
        using nk map_of_evict [of r ?m k] by (auto simp: map_of_eq_None_iff [symmetric])
      then have len: "length (AList.update k ?e (evict r ?m)) = length ?m"
        using le by (simp add: length_update_new)
      have "shard_ok ?n \<lparr>sh_data = AList.update k ?e (evict r ?m), sh_size = sh_size ?sh - 1 + 1\<rparr>"
        using ok dist len by (simp add: shard_ok_def)
      with new True l16 show ?thesis by (simp add: lf_Set_def Let_def lf_inv_update [OF assms])
    next
      case False
      have len: "length (AList.update k ?e ?m) = Suc (length ?m)" using nk by (rule length_update_new)
      then have "int (length (AList.update k ?e ?m)) \<le> max 1 (?n div 16)" using False by auto
      with ok dist len have "shard_ok ?n \<lparr>sh_data = AList.update k ?e ?m, sh_size = sh_size ?sh + 1\<rparr>"
        by (simp add: shard_ok_def)
      with new False l16 show ?thesis by (auto simp: lf_Set_def Let_def lf_inv_update [OF assms])
    qed
  qed
qed

lemma filter_key_delete: "filter (\<lambda>(k, _). k \<noteq> key) m = AList.delete key m"
  by (auto simp: AList.delete_eq intro!: filter_cong)

lemma lf_inv_Delete:
  assumes "lf_inv lfc" shows "lf_inv (lf_Delete k lfc)"
proof (cases "map_of (sh_data (lf_shards lfc ! getShard k lfc)) k = None")
  case False
  let ?sh = "lf_shards lfc ! getShard k lfc"
  have ok: "shard_ok (lf_maxSize lfc) ?sh" using shard_ok_nth [OF assms getShard_less [OF assms]] .
  from False have "k \<in> fst ` set (sh_data ?sh)" by (simp add: map_of_eq_None_iff)
  then have "length (sh_data ?sh) = Suc (length (AList.delete k (sh_data ?sh)))"
    using ok length_delete_present by (metis shard_ok_def)
  with ok have "shard_ok (lf_maxSize lfc) \<lparr>sh_data = AList.delete k (sh_data ?sh), sh_size = sh_size ?sh - 1\<rparr>"
    by (simp add: shard_ok_def AList.distinct_delete)
  moreover from False obtain y where "map_of (sh_data ?sh) k = Some y" by auto
  ultimately show ?thesis by (simp add: lf_Delete_def Let_def filter_key_delete lf_inv_update [OF assms])
qed (simp add: lf_Delete_def Let_def assms)

lemma shard_ok_expire:
  assumes "shard_ok n sh" shows "shard_ok n (expire_shard now sh)"
proof -
  let ?P = "\<lambda>(_ :: bytes, v). now \<le> CExpiresAt v"
  have neg: "(\<lambda>(_ :: bytes, v). \<not> now \<le> CExpiresAt v) = (\<lambda>x. \<not> ?P x)" by (auto simp: fun_eq_iff)
  have sum: "length (sh_data sh) = length (filter ?P (sh_data sh)) + length (filter (\<lambda>x. \<not> ?P x) (sh_data sh))"
    using sum_length_filter_compl [of ?P "sh_data sh"] by simp
  then have "sh_size sh - word_of_nat (length (filter (\<lambda>x. \<not> ?P x) (sh_data sh))) =
      word_of_nat (length (filter ?P (sh_data sh)))"
    using assms by (simp add: shard_ok_def)
  moreover have "int (length (filter ?P (sh_data sh))) \<le> max 1 (n div 16)"
    using assms sum by (simp add: shard_ok_def)
  ultimately show ?thesis
    using assms unfolding expire_shard_def neg by (simp add: shard_ok_def distinct_map_filter Let_def)
qed

lemma lf_inv_evictExpired: "lf_inv lfc \<Longrightarrow> lf_inv (evictExpired now lfc)"
  by (simp add: lf_inv_def evictExpired_def shard_ok_expire)

lemma lf_inv_New: "lf_inv (NewLockFreeCache n ttl)" and lf_inv_Clear: "lf_inv lfc \<Longrightarrow> lf_inv (lf_Clear lfc)"
  by (auto simp: lf_inv_def NewLockFreeCache_def lf_Clear_def shard_ok_def)

lemma getShard_frame [simp]: "getShard k (lfc\<lparr>lf_shards := x\<rparr>) = getShard k lfc"
  by (simp add: getShard_def)

text \<open>What a shard holds after each operation, seen through another key.\<close>

lemma live_lf_Set:
  assumes "lf_inv s"
  shows "lf_lookup t (lf_Set now r k d s) k = (if t > lf_expiry now s then None else Some d)"
    and "k' \<noteq> k \<Longrightarrow> lf_lookup t (lf_Set now r k d s) k' = None \<or>
           lf_lookup t (lf_Set now r k d s) k' = lf_lookup t s k'"
proof -
  note less = getShard_less [OF assms]
  show "lf_lookup t (lf_Set now r k d s) k = (if t > lf_expiry now s then None else Some d)"
    using less [of k] by (simp add: lf_lookup_live lf_Set_def Let_def live_update lf_expiry_def)
  show "lf_lookup t (lf_Set now r k d s) k' = None \<or> lf_lookup t (lf_Set now r k d s) k' = lf_lookup t s k'"
    if "k' \<noteq> k"
    using that less [of k] less [of k'] live_evict [of t r "sh_data (lf_shards s ! getShard k s)" k']
    by (cases "getShard k' s = getShard k s")
      (auto simp: lf_lookup_live lf_Set_def Let_def live_update)
qed

lemma live_lf_Delete:
  assumes "lf_inv s"
  shows "lf_lookup t (lf_Delete k s) k' = (if k' = k then None else lf_lookup t s k')"
proof (cases "map_of (sh_data (lf_shards s ! getShard k s)) k = None")
  case True
  then show ?thesis by (auto simp: lf_lookup_live lf_Delete_def Let_def live_def)
next
  case False
  note less = getShard_less [OF assms]
  show ?thesis
    using False less [of k] less [of k']
    by (cases "getShard k' s = getShard k s")
      (auto simp: lf_lookup_live lf_Delete_def Let_def filter_key_delete live_delete)
qed

interpretation lf: doc_cache lf_lookup lf_Set lf_Delete lf_expiry lf_inv
  by unfold_locales (auto simp: lf_inv_Set lf_inv_Delete live_lf_Set(1) live_lf_Delete dest: live_lf_Set(2))

subsection \<open>Properties\<close>

datatype cache_op = OpGet int bytes | OpSet int nat bytes bytes | OpDelete bytes | OpClear | OpTick int

fun dc_run :: "cache_op \<Rightarrow> DocumentCache \<Rightarrow> DocumentCache" where
  "dc_run (OpGet now k) c = fst (dc_Get now k c)"
| "dc_run (OpSet now r k d) c = dc_Set now r k d c"
| "dc_run (OpDelete k) c = dc_Delete k c"
| "dc_run OpClear c = dc_Clear c"
| "dc_run (OpTick now) c = dc_cleanup now c"

fun lf_run :: "cache_op \<Rightarrow> LockFreeCache \<Rightarrow> LockFreeCache" where
  "lf_run (OpGet now k) c = fst (lf_Get now k c)"
| "lf_run (OpSet now r k d) c = lf_Set now r k d c"
| "lf_run (OpDelete k) c = lf_Delete k c"
| "lf_run OpClear c = lf_Clear c"
| "lf_run (OpTick now) c = evictExpired now c"

lemma dc_run_inv: "dc_inv c \<Longrightarrow> dc_inv (fold dc_run ops c) \<and> dc_maxSize (fold dc_run ops c) = dc_maxSize c"
proof (induction ops arbitrary: c)
  case (Cons op ops)
  have "dc_inv (dc_run op c)" using Cons.prems by (cases op) (simp_all add: dc_inv_Set dc_inv_other)
  moreover have "dc_maxSize (dc_run op c) = dc_maxSize c"
    by (cases op) (simp_all add: dc_Get_def dc_Set_def dc_Delete_def dc_Clear_def dc_cleanup_def Let_def
        split: option.splits)
  ultimately show ?case using Cons.IH [of "dc_run op c"] by simp
qed simp

lemma lf_run_inv: "lf_inv c \<Longrightarrow> lf_inv (fold lf_run ops c) \<and> lf_maxSize (fold lf_run ops c) = lf_maxSize c"
proof (induction ops arbitrary: c)
  case (Cons op ops)
  have get: "lf_inv (fst (lf_Get now k c))" for now k
    using Cons.prems by (simp add: lf_inv_def lf_Get_def Let_def split: option.splits)
  have "lf_inv (lf_run op c)"
    using Cons.prems get by (cases op) (simp_all add: lf_inv_Set lf_inv_Delete lf_inv_Clear lf_inv_evictExpired)
  moreover have "lf_maxSize (lf_run op c) = lf_maxSize c"
    by (cases op) (simp_all add: lf_Get_def lf_Set_def lf_Delete_def lf_Clear_def evictExpired_def Let_def
        split: option.splits)
  ultimately show ?case using Cons.IH [of "lf_run op c"] by simp
qed simp

definition lf_entries :: "LockFreeCache \<Rightarrow> nat" where
  "lf_entries c = sum_list (map (\<lambda>sh. length (sh_data sh)) (lf_shards c))"

text \<open>The size counters are exact, and the entries are bounded shard by shard.\<close>

lemma lf_inv_size:
  assumes "lf_inv c" and "lf_maxSize c < 2 ^ 31"
  shows "snd (snd (lf_Stats c)) = int (lf_entries c) \<and> int (lf_entries c) \<le> 16 * max 1 (lf_maxSize c div 16)"
proof -
  have sz: "sint (sh_size sh) = int (length (sh_data sh)) \<and> int (length (sh_data sh)) \<le> max 1 (lf_maxSize c div 16)"
    if "sh \<in> set (lf_shards c)" for sh
  proof -
    have ok: "shard_ok (lf_maxSize c) sh" using assms(1) that by (simp add: lf_inv_def)
    then have le: "int (length (sh_data sh)) \<le> max 1 (lf_maxSize c div 16)" by (simp add: shard_ok_def)
    then have "int (length (sh_data sh)) < 2 ^ 31" using assms(2) by (auto simp: max_def split: if_splits)
    then have "sint (word_of_int (int (length (sh_data sh))) :: 32 word) = int (length (sh_data sh))"
      by (subst sint_sbintrunc') (auto simp: signed_take_bit_int_eq_self)
    with ok le show ?thesis by (simp add: shard_ok_def)
  qed
  have "sum_list (map (\<lambda>s. sint (sh_size s)) xs) = int (sum_list (map (\<lambda>sh. length (sh_data sh)) xs)) \<and>
      int (sum_list (map (\<lambda>sh. length (sh_data sh)) xs)) \<le> int (length xs) * max 1 (lf_maxSize c div 16)"
    if "set xs \<subseteq> set (lf_shards c)" for xs
    using that
  proof (induction xs)
    case (Cons a xs)
    then have "sint (sh_size a) = int (length (sh_data a)) \<and> int (length (sh_data a)) \<le> max 1 (lf_maxSize c div 16)"
      using sz by simp
    with Cons show ?case by (simp add: distrib_right)
  qed simp
  from this [of "lf_shards c"] assms(1) show ?thesis
    by (simp add: lf_inv_def lf_Stats_def lf_entries_def)
qed



text \<open>C21: Along every history of write-through sets and deletes neither cache ever returns stale
  data: whatever a get returns, at any time, is what the store behind it holds; and data stored is
  returned until its expiry time.\<close>

theorem caches_coherent:
  assumes "write_through dc_Set dc_Delete ops (NewDocumentCache n ttl, f) = (c, g)"
    and "write_through lf_Set lf_Delete ops (NewLockFreeCache n ttl, f) = (c', g')"
  shows "(snd (dc_Get t k c) = Some d \<longrightarrow> g k = Some d) \<and> (snd (lf_Get t k c') = Some d \<longrightarrow> g' k = Some d) \<and>
     (t \<le> wrap64 (now + dc_ttl c) \<longrightarrow> snd (dc_Get t k (dc_Set now r k d c)) = Some d) \<and>
     (t \<le> wrap64 (now + lf_ttl c') \<longrightarrow> snd (lf_Get t k (lf_Set now r k d c')) = Some d)"
proof -
  have "dc.coherent (NewDocumentCache n ttl) f"
    by (simp add: dc.coherent_def dc_lookup_live live_def NewDocumentCache_def)
  from dc.write_through_coherent [OF dc_inv_other(1) this, of ops] assms(1)
  have c: "dc_inv c" "dc.coherent c g" by simp_all
  have "lf_lookup t (NewLockFreeCache n ttl) k = None" for t k
    using getShard_less [OF lf_inv_New [of n ttl], of k]
    by (simp add: lf_lookup_live live_def NewLockFreeCache_def)
  then have "lf.coherent (NewLockFreeCache n ttl) f" by (simp add: lf.coherent_def)
  from lf.write_through_coherent [OF lf_inv_New this, of ops] assms(2)
  have c': "lf_inv c'" "lf.coherent c' g'" by simp_all
  from c c' show ?thesis
    using dc.lookup_store [OF c(1)] lf.lookup_store [OF c'(1)]
    by (auto simp: dc.coherent_def lf.coherent_def dc_lookup_def lf_lookup_def dc_expiry_def lf_expiry_def)
qed

theorem caches_coherent_witness:
  "snd (dc_Get 20 ''a'' (dc_Set 10 0 ''a'' ''x'' (NewDocumentCache 5 60))) = Some ''x''"
  using caches_coherent [of "[]" 5 60 Map.empty "NewDocumentCache 5 60" Map.empty "NewLockFreeCache 5 60" Map.empty
      20 "''a''" "''x''" 10 0]
  by (simp add: NewDocumentCache_def)

end
