(* ===== verification/Document_Ops.thy ===== *)
theory Document_Ops
  imports Storage_Keys Doc_Codec Bolt_Store Binlog_Log Doc_Cache
begin

section \<open>Writing and deleting documents\<close>

text \<open>
  Models \<^verbatim>\<open>document_ops.go\<close> and \<^verbatim>\<open>revision_retention.go\<close>: the write path
  \<open>addDocument\<close> with its transaction, revision trimming, binlog, cache and post-write hooks, and
  \<open>deleteDocumentInternal\<close>.  The environment \<open>E\<close> holds what a server is configured with: the
  store, the schema check, the document codec, the revision caps, and which subsystems exist
  (nil pointers in the code).  The calls into the subsystems (embedding queue, TTL, full text,
  geo, temporal, webhooks, SSE, triggers, vectors) are recorded as a list of effects in the
  order the code makes them; the loop that removes up to 100 chunk vectors is one effect per
  searcher.  A panic inside the transaction is the error \<open>OpPanic\<close>: bbolt rolls back on it.
\<close>

datatype op_error =
    MissingField | SchemaError | LoadError codec_error | MarshalError codec_error | PutError | DeleteError
  | CommitError | DocNotFound | OpPanic

datatype 'p effect =
    EmbedEnqueue bytes bytes bytes
  | TTLSet bytes bytes int | TTLRemove bytes bytes
  | FTSIndex bytes bytes bytes bytes | FTSPositions bytes bytes bytes bytes
  | FTSFields bytes bytes "(bytes \<times> bytes) list" bytes | FTSRemove bytes bytes
  | GeoAdd bytes bytes 'p | GeoStorePut bytes bytes 'p | GeoHashAdd bytes bytes 'p
  | GeoRemove bytes bytes | GeoHashRemove bytes bytes | GeoStoreDelete bytes bytes
  | TemporalRecord bytes bytes bool
  | WebhookFire bytes bytes bytes bytes "Doc option"
  | SSEBroadcast bytes bytes bytes bytes
  | Trigger bytes Doc bytes
  | VectorDelete bytes bytes | VectorRemove nat bytes bytes | VectorRemoveChunks nat bytes bytes

record ('tx, 'p) env =
  e_bolt :: "'tx bolt"
  e_validate :: "bytes \<Rightarrow> meta \<Rightarrow> bool"
  e_marshal :: "Doc \<Rightarrow> bytes \<Rightarrow> (codec_error, bytes) outcome"
  e_load :: "bytes \<Rightarrow> (codec_error, Doc) outcome"
  e_unmarshal :: "bytes \<Rightarrow> (codec_error, Doc) outcome"
  e_maxRevisions :: "bytes \<Rightarrow> int option"
  e_embedding :: bool
  e_ttl :: bool
  e_fts :: bool
  e_geo :: "(bytes \<Rightarrow> bytes \<Rightarrow> meta \<Rightarrow> 'p option) option"
  e_geohash :: bool
  e_temporal :: bool
  e_webhooks :: bool
  e_sse :: bool
  e_triggers :: bool
  e_vectors :: "nat option"

record ('tx, 'p) server =
  sv_db :: 'tx
  sv_binlog :: "Binlog option"
  sv_cache :: "DocumentCache option"
  sv_lfcache :: "LockFreeCache option"
  sv_extreme :: bool
  sv_effects :: "'p effect list"

text \<open>The readings of the clocks and the outcome of the system calls during one operation.\<close>

record clock =
  ck_now :: int
  ck_cache :: int
  ck_evict :: nat
  ck_binlog :: u64
  ck_io :: bool

subsection \<open>Operations on a transaction that are also recorded for the binlog\<close>

type_synonym 'tx logged = "'tx \<times> BinlogOps"

definition put_log :: "'tx bolt \<Rightarrow> bytes \<Rightarrow> bytes \<Rightarrow> bytes \<Rightarrow> 'tx logged \<Rightarrow> op_error + 'tx logged" where
  "put_log B b k v s =
     (case bk_put B b k v (fst s) of None \<Rightarrow> Inl PutError | Some tx \<Rightarrow> Inr (tx, ops_Put (snd s) b k v))"

definition del_log :: "'tx bolt \<Rightarrow> bytes \<Rightarrow> bytes \<Rightarrow> 'tx logged \<Rightarrow> op_error + 'tx logged" where
  "del_log B b k s =
     (case bk_delete B b k (fst s) of None \<Rightarrow> Inl DeleteError | Some tx \<Rightarrow> Inr (tx, ops_Delete (snd s) b k))"

text \<open>\<^verbatim>\<open>_ = bIdx.Delete(prefix); bo.Delete(...)\<close>: the error is ignored.\<close>

definition del_quiet :: "'tx bolt \<Rightarrow> bytes \<Rightarrow> bytes \<Rightarrow> 'tx logged \<Rightarrow> 'tx logged" where
  "del_quiet B b k s =
     (case bk_delete B b k (fst s) of None \<Rightarrow> fst s | Some tx \<Rightarrow> tx, ops_Delete (snd s) b k)"

fun put_all :: "'tx bolt \<Rightarrow> bytes \<Rightarrow> bytes \<Rightarrow> bytes list \<Rightarrow> 'tx logged \<Rightarrow> op_error + 'tx logged" where
  "put_all B b v [] s = Inr s"
| "put_all B b v (k # ks) s = (case put_log B b k v s of Inl err \<Rightarrow> Inl err | Inr s' \<Rightarrow> put_all B b v ks s')"

fun del_all :: "'tx bolt \<Rightarrow> bytes \<Rightarrow> bytes list \<Rightarrow> 'tx logged \<Rightarrow> op_error + 'tx logged" where
  "del_all B b [] s = Inr s"
| "del_all B b (k # ks) s = (case del_log B b k s of Inl err \<Rightarrow> Inl err | Inr s' \<Rightarrow> del_all B b ks s')"

text \<open>The index keys of a document's metadata, in the order of the nested loops.\<close>

definition meta_keys :: "bytes \<Rightarrow> meta \<Rightarrow> bytes \<Rightarrow> bytes list" where
  "meta_keys coll m i = concat (map (\<lambda>(mk, vals). map (\<lambda>mv. MetaKeyPrefix coll mk mv @ i) vals) m)"

definition trimRevisions :: "'tx bolt \<Rightarrow> bytes \<Rightarrow> bytes \<Rightarrow> int \<Rightarrow> 'tx logged \<Rightarrow> op_error + 'tx logged" where
  "trimRevisions B coll docID keep s =
     (if keep \<le> 0 then Inr s
      else let keys = map fst (bk_scan B ''rev'' (RevPrefix coll docID) (fst s))
      in if int (length keys) \<le> keep then Inr s
         else del_all B ''rev'' (take (length keys - nat keep) keys) s)"

subsection \<open>The write transaction\<close>

definition load_existing :: "('tx, 'p) env \<Rightarrow> bytes \<Rightarrow> bytes \<Rightarrow> 'tx \<Rightarrow> op_error + Doc" where
  "load_existing E coll docID tx =
     (case bk_get (e_bolt E) ''docs'' (DocKey coll docID) tx of
        None \<Rightarrow> Inr empty_doc
      | Some v \<Rightarrow> (case e_load E v of Ok d \<Rightarrow> Inr d | Err err \<Rightarrow> Inl (LoadError err) | Panic \<Rightarrow> Inl OpPanic))"

definition update_index :: "'tx bolt \<Rightarrow> bytes \<Rightarrow> Doc \<Rightarrow> Doc \<Rightarrow> 'tx logged \<Rightarrow> op_error + 'tx logged" where
  "update_index B coll existing doc s =
     (if metadataChanged (Meta existing) (Meta doc) then
        let s1 = (if ID existing \<noteq> [] then fold (del_quiet B ''idxmeta'') (meta_keys coll (Meta existing) (ID existing)) s
                  else s)
        in put_all B ''idxmeta'' ''1'' (meta_keys coll (Meta doc) (ID doc)) s1
      else Inr s)"

definition write_revision :: "('tx, 'p) env \<Rightarrow> int \<Rightarrow> bytes \<Rightarrow> Doc \<Rightarrow> bytes \<Rightarrow> 'tx logged \<Rightarrow> op_error + 'tx logged" where
  "write_revision E now coll doc buf s =
     (case put_log (e_bolt E) ''rev'' (RevPrefix coll (ID doc) @ fmt_020d now) buf s of
        Inl err \<Rightarrow> Inl err
      | Inr s' \<Rightarrow>
          (case e_maxRevisions E coll of
             None \<Rightarrow> Inr s'
           | Some n \<Rightarrow> if n > 0 then trimRevisions (e_bolt E) coll (ID doc) n s' else Inr s'))"

definition add_txn :: "('tx, 'p) env \<Rightarrow> int \<Rightarrow> bytes \<Rightarrow> bytes \<Rightarrow> bytes \<Rightarrow> meta \<Rightarrow> bytes \<Rightarrow> int \<Rightarrow> bool \<Rightarrow>
    'tx \<Rightarrow> op_error + ('tx \<times> (Doc \<times> bool \<times> bytes \<times> BinlogOps))" where
  "add_txn E now coll key lang m contentMD ttl saveRevision tx =
     (let B = e_bolt E; docID = genID [coll, key, lang]
      in case load_existing E coll docID tx of Inl err \<Rightarrow> Inl err
      | Inr existing \<Rightarrow>
        let added = (if AddedAt existing = 0 then now else AddedAt existing);
            isNew = (AddedAt existing = 0);
            doc = \<lparr>ID = docID, DKey = key, Lang = lang, Meta = m, ContentMD = contentMD,
                   AddedAt = added, UpdatedAt = now,
                   ExpiresAt = (if ttl > 0 then wrap64 (now + ttl) else 0)\<rparr>
        in case e_marshal E doc coll of Err err \<Rightarrow> Inl (MarshalError err) | Panic \<Rightarrow> Inl OpPanic
        | Ok buf \<Rightarrow>
          (case put_log B ''docs'' (DocKey coll docID) buf (tx, []) of Inl err \<Rightarrow> Inl err
           | Inr s1 \<Rightarrow>
             (case put_log B ''bykey'' (ByKeyKey coll key lang) docID s1 of Inl err \<Rightarrow> Inl err
              | Inr s2 \<Rightarrow>
                (case update_index B coll existing doc s2 of Inl err \<Rightarrow> Inl err
                 | Inr s3 \<Rightarrow>
                   (case (if saveRevision then write_revision E now coll doc buf s3 else Inr s3) of Inl err \<Rightarrow> Inl err
                    | Inr (tx', bo) \<Rightarrow> Inr (tx', (doc, isNew, buf, bo)))))))"

subsection \<open>The post-write hooks\<close>

fun join_space :: "bytes list \<Rightarrow> bytes" where
  "join_space [] = []"
| "join_space [x] = x"
| "join_space (x # xs) = x @ '' '' @ join_space xs"

definition fts_fields :: "Doc \<Rightarrow> (bytes \<times> bytes) list" where
  "fts_fields d = AList.updates
     (map (\<lambda>(k, vals). ''meta.'' @ k) (filter (\<lambda>(k, vals). vals \<noteq> []) (Meta d)))
     (map (\<lambda>(k, vals). join_space vals) (filter (\<lambda>(k, vals). vals \<noteq> []) (Meta d)))
     [(''content'', ContentMD d)]"

definition geo_hook :: "('tx, 'p) env \<Rightarrow> bytes \<Rightarrow> Doc \<Rightarrow> bool \<Rightarrow> 'p effect list" where
  "geo_hook E coll saved isNew =
     (case e_geo E of None \<Rightarrow> []
      | Some geo \<Rightarrow>
          (case geo coll (ID saved) (Meta saved) of
             Some p \<Rightarrow> [GeoAdd coll (ID saved) p, GeoStorePut coll (ID saved) p] @
                        (if e_geohash E then [GeoHashAdd coll (ID saved) p] else [])
           | None \<Rightarrow> if isNew then []
                      else [GeoRemove coll (ID saved)] @
                           (if e_geohash E then [GeoHashRemove coll (ID saved)] else []) @
                           [GeoStoreDelete coll (ID saved)]))"

definition runPostWriteHooks :: "('tx, 'p) env \<Rightarrow> bytes \<Rightarrow> Doc \<Rightarrow> bool \<Rightarrow> 'p effect list" where
  "runPostWriteHooks E coll saved isNew =
     (let i = ID saved; event = (if isNew then ''doc.added'' else ''doc.updated'')
      in (if e_embedding E \<and> ContentMD saved \<noteq> [] then [EmbedEnqueue coll i (ContentMD saved)] else []) @
         (if e_ttl E \<and> ExpiresAt saved > 0 then [TTLSet coll i (ExpiresAt saved)] else []) @
         (if e_fts E \<and> ContentMD saved \<noteq> [] then
            [FTSIndex coll i (ContentMD saved) (Lang saved), FTSPositions coll i (ContentMD saved) (Lang saved),
             FTSFields coll i (fts_fields saved) (Lang saved)] else []) @
         geo_hook E coll saved isNew @
         (if e_temporal E then [TemporalRecord coll i isNew] else []) @
         (if e_webhooks E then [WebhookFire event coll (DKey saved) (Lang saved) (Some saved)] else []) @
         (if e_sse E then [SSEBroadcast event coll (DKey saved) (Lang saved)] else []) @
         (if e_triggers E then [Trigger coll saved (if isNew then ''insert'' else ''update'')] else []))"

subsection \<open>addDocument\<close>

definition refresh_cache :: "clock \<Rightarrow> bytes \<Rightarrow> bytes \<Rightarrow> ('tx, 'p) server \<Rightarrow> ('tx, 'p) server" where
  "refresh_cache ck cacheKey buf s =
     (if sv_extreme s \<and> sv_lfcache s \<noteq> None
      then s\<lparr>sv_lfcache := map_option (lf_Set (ck_cache ck) (ck_evict ck) cacheKey buf) (sv_lfcache s)\<rparr>
      else s\<lparr>sv_cache := map_option (dc_Set (ck_cache ck) (ck_evict ck) cacheKey buf) (sv_cache s)\<rparr>)"

definition addDocument :: "('tx, 'p) env \<Rightarrow> clock \<Rightarrow> bytes \<Rightarrow> bytes \<Rightarrow> bytes \<Rightarrow> meta \<Rightarrow> bytes \<Rightarrow> int \<Rightarrow> bool \<Rightarrow>
    ('tx, 'p) server \<Rightarrow> ('tx, 'p) server \<times> (op_error + (Doc \<times> bool))" where
  "addDocument E ck coll key lang m contentMD ttl saveRevision s =
     (if coll = [] \<or> key = [] \<or> lang = [] then (s, Inl MissingField)
      else if \<not> e_validate E coll m then (s, Inl SchemaError)
      else
        (case DBUpdate (e_bolt E) CommitError
                (add_txn E (ck_now ck) coll key lang m contentMD ttl saveRevision) (sv_db s) of
           (db, Inl err) \<Rightarrow> (s\<lparr>sv_db := db\<rparr>, Inl err)
         | (db, Inr (saved, isNew, cachedBuf, bo)) \<Rightarrow>
             let s1 = s\<lparr>sv_db := db, sv_binlog := FlushTo (ck_binlog ck) (ck_io ck) bo (sv_binlog s)\<rparr>;
                 s2 = refresh_cache ck (BuildCacheKey coll key lang) cachedBuf s1;
                 s3 = s2\<lparr>sv_effects := sv_effects s2 @ runPostWriteHooks E coll saved isNew\<rparr>
             in (s3, Inr (saved, isNew))))"

subsection \<open>deleteDocumentInternal\<close>

definition delete_txn :: "('tx, 'p) env \<Rightarrow> bytes \<Rightarrow> bytes \<Rightarrow> bytes \<Rightarrow> 'tx \<Rightarrow> op_error + ('tx \<times> (Doc \<times> BinlogOps))" where
  "delete_txn E coll key lang tx =
     (let B = e_bolt E; docID = genID [coll, key, lang]
      in case bk_get B ''docs'' (DocKey coll docID) tx of None \<Rightarrow> Inl DocNotFound
      | Some v \<Rightarrow>
        (case e_load E v of Err err \<Rightarrow> Inl (LoadError err) | Panic \<Rightarrow> Inl OpPanic
         | Ok doc \<Rightarrow>
           (case del_log B ''docs'' (DocKey coll docID) (tx, []) of Inl err \<Rightarrow> Inl err
            | Inr s1 \<Rightarrow>
              (case del_log B ''bykey'' (ByKeyKey coll key lang) s1 of Inl err \<Rightarrow> Inl err
               | Inr s2 \<Rightarrow>
                 (case del_all B ''rev'' (bk_walk B ''rev'' (RevPrefix coll docID) (fst s2)) s2 of Inl err \<Rightarrow> Inl err
                  | Inr s3 \<Rightarrow>
                    (case del_all B ''idxmeta'' (meta_keys coll (Meta doc) docID) s3 of Inl err \<Rightarrow> Inl err
                     | Inr (tx', bo) \<Rightarrow> Inr (tx', (doc, bo))))))))"

definition delete_effects :: "('tx, 'p) env \<Rightarrow> bytes \<Rightarrow> bytes \<Rightarrow> bytes \<Rightarrow> Doc \<Rightarrow> 'p effect list \<times> 'p effect list" where
  "delete_effects E coll key lang doc =
     (let i = genID [coll, key, lang]
      in ((case e_vectors E of None \<Rightarrow> []
           | Some n \<Rightarrow> VectorDelete coll i #
                concat (map (\<lambda>j. [VectorRemove j coll i, VectorRemoveChunks j coll i]) [0..<n])) @
          (if e_ttl E then [TTLRemove coll i] else []) @
          (if e_triggers E then [Trigger coll doc ''delete''] else []),
          (if e_fts E then [FTSRemove coll i] else []) @
          (if e_geo E \<noteq> None then [GeoRemove coll i] else []) @
          (if e_geohash E then [GeoHashRemove coll i] else []) @
          (if e_geo E \<noteq> None then [GeoStoreDelete coll i] else []) @
          (if e_webhooks E then [WebhookFire ''doc.deleted'' coll key lang None] else []) @
          (if e_sse E then [SSEBroadcast ''doc.deleted'' coll key lang] else [])))"

definition deleteDocumentInternal :: "('tx, 'p) env \<Rightarrow> clock \<Rightarrow> bytes \<Rightarrow> bytes \<Rightarrow> bytes \<Rightarrow>
    ('tx, 'p) server \<Rightarrow> ('tx, 'p) server \<times> op_error option" where
  "deleteDocumentInternal E ck coll key lang s =
     (case DBUpdate (e_bolt E) CommitError (delete_txn E coll key lang) (sv_db s) of
        (db, Inl err) \<Rightarrow> (s\<lparr>sv_db := db\<rparr>, Some err)
      | (db, Inr (doc, bo)) \<Rightarrow>
          let (before, after) = delete_effects E coll key lang doc;
              cacheKey = BuildCacheKey coll key lang
          in (s\<lparr>sv_db := db, sv_binlog := FlushTo (ck_binlog ck) (ck_io ck) bo (sv_binlog s),
                sv_cache := map_option (dc_Delete cacheKey) (sv_cache s),
                sv_lfcache := map_option (lf_Delete cacheKey) (sv_lfcache s),
                sv_effects := sv_effects s @ before @ after\<rparr>, None))"

subsection \<open>Reading a document\<close>

datatype get_error = GetMissing | GetNotFound | GetInternal codec_error | GetPanic

text \<open>The two lookups every read makes: the id under the exact key and language, then the document.\<close>

definition lookup_doc :: "'tx bolt \<Rightarrow> bytes \<Rightarrow> bytes \<Rightarrow> bytes \<Rightarrow> 'tx \<Rightarrow> bytes option" where
  "lookup_doc B coll key lang tx =
     (case bk_get B ''bykey'' (ByKeyKey coll key lang) tx of None \<Rightarrow> None
      | Some docID \<Rightarrow> bk_get B ''docs'' (DocKey coll docID) tx)"

definition handleGet :: "('tx, 'p) env \<Rightarrow> int \<Rightarrow> bytes \<Rightarrow> bytes \<Rightarrow> bytes \<Rightarrow> ('tx, 'p) server \<Rightarrow> get_error + Doc" where
  "handleGet E now coll key lang s =
     (if coll = [] \<or> key = [] \<or> lang = [] then Inl GetMissing
      else case lookup_doc (e_bolt E) coll key lang (sv_db s) of None \<Rightarrow> Inl GetNotFound
      | Some v \<Rightarrow>
        (case e_load E v of Err err \<Rightarrow> Inl (GetInternal err) | Panic \<Rightarrow> Inl GetPanic
         | Ok doc \<Rightarrow> if ExpiresAt doc > 0 \<and> ExpiresAt doc < now then Inl GetNotFound else Inr doc))"

text \<open>The gRPC read asks the cache first; a nil cache that is asked panics.\<close>

definition cache_get :: "clock \<Rightarrow> bytes \<Rightarrow> ('tx, 'p) server \<Rightarrow> (('tx, 'p) server \<times> bytes option) option" where
  "cache_get ck k s =
     (if sv_extreme s
      then map_option (\<lambda>c. let (c', r) = lf_Get (ck_now ck) k c in (s\<lparr>sv_lfcache := Some c'\<rparr>, r)) (sv_lfcache s)
      else map_option (\<lambda>c. let (c', r) = dc_Get (ck_now ck) k c in (s\<lparr>sv_cache := Some c'\<rparr>, r)) (sv_cache s))"

definition cache_fill :: "clock \<Rightarrow> bytes \<Rightarrow> bytes \<Rightarrow> ('tx, 'p) server \<Rightarrow> ('tx, 'p) server" where
  "cache_fill ck k d s =
     (if sv_extreme s
      then s\<lparr>sv_lfcache := map_option (lf_Set (ck_cache ck) (ck_evict ck) k d) (sv_lfcache s)\<rparr>
      else s\<lparr>sv_cache := map_option (dc_Set (ck_cache ck) (ck_evict ck) k d) (sv_cache s)\<rparr>)"

definition grpc_Get :: "('tx, 'p) env \<Rightarrow> clock \<Rightarrow> bytes \<Rightarrow> bytes \<Rightarrow> bytes \<Rightarrow> ('tx, 'p) server \<Rightarrow>
    ('tx, 'p) server \<times> (get_error + Doc)" where
  "grpc_Get E ck coll key lang s =
     (if coll = [] \<or> key = [] \<or> lang = [] then (s, Inl GetMissing)
      else case cache_get ck (BuildCacheKey coll key lang) s of None \<Rightarrow> (s, Inl GetPanic)
      | Some (s1, cached) \<Rightarrow>
        (let from_store =
               (case lookup_doc (e_bolt E) coll key lang (sv_db s1) of None \<Rightarrow> (s1, Inl GetNotFound)
                | Some v \<Rightarrow>
                  (case e_unmarshal E v of Err err \<Rightarrow> (s1, Inl (GetInternal err)) | Panic \<Rightarrow> (s1, Inl GetPanic)
                   | Ok doc \<Rightarrow> (cache_fill ck (BuildCacheKey coll key lang) v s1, Inr doc)))
         in case cached of None \<Rightarrow> from_store
            | Some d \<Rightarrow>
                (case e_unmarshal E d of Ok doc \<Rightarrow> (s1, Inr doc) | Panic \<Rightarrow> (s1, Inl GetPanic)
                 | Err _ \<Rightarrow> from_store)))"

subsection \<open>What the operations record\<close>

definition put_op :: "bytes \<Rightarrow> bytes \<Rightarrow> bytes \<Rightarrow> BinlogEntry" where
  "put_op b v k = zero_entry\<lparr>EType := BinlogPut, BucketName := b, EKey := k, EValue := v\<rparr>"

definition del_op :: "bytes \<Rightarrow> bytes \<Rightarrow> BinlogEntry" where
  "del_op b k = zero_entry\<lparr>EType := BinlogDelete, BucketName := b, EKey := k\<rparr>"

lemma ops_Put_op: "ops_Put bo b k v = bo @ [put_op b v k]" and ops_Delete_op: "ops_Delete bo b k = bo @ [del_op b k]"
  by (simp_all add: ops_Put_def ops_Delete_def put_op_def del_op_def)

lemma replay_put_op [simp]: "replay_entry (put_op b v k) c = c_put b k v c"
  and replay_del_op [simp]: "replay_entry (del_op b k) c = c_delete b k c"
  by (simp_all add: replay_entry.simps put_op_def del_op_def zero_entry_def)

lemma replay_puts: "replay (map (put_op b v) ks) c b' k' = (if b' = b \<and> k' \<in> set ks then Some v else c b' k')"
  by (induction ks arbitrary: c) (auto simp: store_simps)

lemma replay_dels: "replay (map (del_op b) ks) c b' k' = (if b' = b \<and> k' \<in> set ks then None else c b' k')"
  by (induction ks arbitrary: c) (auto simp: store_simps)

text \<open>\<open>runs ops s s'\<close>: from \<open>s\<close> to \<open>s'\<close> exactly \<open>ops\<close> were recorded, and they describe what
  happened to the store.\<close>

definition runs :: "('tx \<Rightarrow> contents) \<Rightarrow> BinlogOps \<Rightarrow> 'tx logged \<Rightarrow> 'tx logged \<Rightarrow> bool" where
  "runs cont ops s s' \<longleftrightarrow> snd s' = snd s @ ops \<and> cont (fst s') = replay ops (cont (fst s))"

lemma runs_refl: "runs cont [] s s"
  and runs_trans: "runs cont a s s' \<Longrightarrow> runs cont b s' s'' \<Longrightarrow> runs cont (a @ b) s s''"
  by (simp_all add: runs_def)

lemma put_log_runs:
  assumes "bolt_laws B cont" and "put_log B b k v s = Inr s'"
  shows "runs cont [put_op b v k] s s'"
  using assms(2) bolt_laws.put_law [OF assms(1)]
  by (auto simp: put_log_def runs_def ops_Put_op split: option.splits)

lemma del_log_runs:
  assumes "bolt_laws B cont" and "del_log B b k s = Inr s'"
  shows "runs cont [del_op b k] s s'"
  using assms(2) bolt_laws.delete_law [OF assms(1)]
  by (auto simp: del_log_def runs_def ops_Delete_op split: option.splits)

lemma del_quiet_runs:
  assumes "bolt_laws B cont"
  shows "runs cont [del_op b k] s (del_quiet B b k s)"
  using bolt_laws.delete_law [OF assms] bolt_laws.delete_ok [OF assms, of b k "fst s"]
  by (auto simp: del_quiet_def runs_def ops_Delete_op split: option.splits)

lemma put_all_runs:
  assumes "bolt_laws B cont"
  shows "put_all B b v ks s = Inr s' \<Longrightarrow> runs cont (map (put_op b v) ks) s s'"
proof (induction ks arbitrary: s)
  case (Cons k ks)
  from Cons.prems obtain s1 where s1: "put_log B b k v s = Inr s1" "put_all B b v ks s1 = Inr s'"
    by (auto split: sum.splits)
  from runs_trans [OF put_log_runs [OF assms s1(1)] Cons.IH [OF s1(2)]] show ?case by simp
qed (simp add: runs_refl)

lemma del_all_runs:
  assumes "bolt_laws B cont"
  shows "del_all B b ks s = Inr s' \<Longrightarrow> runs cont (map (del_op b) ks) s s'"
proof (induction ks arbitrary: s)
  case (Cons k ks)
  from Cons.prems obtain s1 where s1: "del_log B b k s = Inr s1" "del_all B b ks s1 = Inr s'"
    by (auto split: sum.splits)
  from runs_trans [OF del_log_runs [OF assms s1(1)] Cons.IH [OF s1(2)]] show ?case by simp
qed (simp add: runs_refl)

lemma del_all_ok:
  assumes "bolt_laws B cont"
  shows "\<exists>s'. del_all B b ks s = Inr s'"
proof (induction ks arbitrary: s)
  case (Cons k ks)
  show ?case using bolt_laws.delete_ok [OF assms, of b k "fst s"] Cons.IH by (auto simp: del_log_def)
qed simp

lemma del_quiet_fold_runs:
  assumes "bolt_laws B cont"
  shows "runs cont (map (del_op b) ks) s (fold (del_quiet B b) ks s)"
proof (induction ks arbitrary: s)
  case (Cons k ks)
  from runs_trans [OF del_quiet_runs [OF assms] Cons.IH] show ?case by simp
qed (simp add: runs_refl)

text \<open>The index part of a write.\<close>

definition idx_ops :: "bytes \<Rightarrow> Doc \<Rightarrow> Doc \<Rightarrow> BinlogOps" where
  "idx_ops coll existing doc =
     (if metadataChanged (Meta existing) (Meta doc)
      then (if ID existing \<noteq> [] then map (del_op ''idxmeta'') (meta_keys coll (Meta existing) (ID existing)) else []) @
           map (put_op ''idxmeta'' ''1'') (meta_keys coll (Meta doc) (ID doc))
      else [])"

lemma update_index_runs:
  assumes "bolt_laws B cont" and "update_index B coll existing doc s = Inr s'"
  shows "runs cont (idx_ops coll existing doc) s s'"
proof (cases "metadataChanged (Meta existing) (Meta doc)")
  case True
  define s1 where "s1 = (if ID existing \<noteq> [] then fold (del_quiet B ''idxmeta'') (meta_keys coll (Meta existing) (ID existing)) s else s)"
  define ds where "ds = (if ID existing \<noteq> [] then map (del_op ''idxmeta'') (meta_keys coll (Meta existing) (ID existing)) else [])"
  have "runs cont ds s s1"
    using del_quiet_fold_runs [OF assms(1)] by (simp add: s1_def ds_def runs_refl)
  moreover have "put_all B ''idxmeta'' ''1'' (meta_keys coll (Meta doc) (ID doc)) s1 = Inr s'"
    using assms(2) True by (simp add: update_index_def s1_def Let_def)
  ultimately have "runs cont (ds @ map (put_op ''idxmeta'' ''1'') (meta_keys coll (Meta doc) (ID doc))) s s'"
    using runs_trans put_all_runs [OF assms(1)] by blast
  with True show ?thesis by (simp add: idx_ops_def ds_def)
qed (use assms(2) in \<open>simp add: update_index_def idx_ops_def runs_refl\<close>)

text \<open>The revisions a trim deletes: all but the newest \<open>n\<close> of those under the prefix.\<close>

definition keys_under :: "contents \<Rightarrow> bytes \<Rightarrow> bytes \<Rightarrow> bytes list" where
  "keys_under c b p = sorted_list_of_set {k. c b k \<noteq> None \<and> prefix p k}"

definition trimmed :: "int option \<Rightarrow> bytes list \<Rightarrow> bytes list" where
  "trimmed cap keys =
     (case cap of None \<Rightarrow> []
      | Some n \<Rightarrow> if n > 0 \<and> int (length keys) > n then take (length keys - nat n) keys else [])"

lemma trimRevisions_runs:
  assumes "bolt_laws B cont" and "trimRevisions B coll i n s = Inr s'"
  shows "runs cont (map (del_op ''rev'') (trimmed (Some n) (keys_under (cont (fst s)) ''rev'' (RevPrefix coll i)))) s s'"
proof -
  have k: "map fst (bk_scan B ''rev'' (RevPrefix coll i) (fst s)) = keys_under (cont (fst s)) ''rev'' (RevPrefix coll i)"
    unfolding keys_under_def by (rule bolt_laws.scan_keys_list [OF assms(1)])
  show ?thesis
    using assms(2) del_all_runs [OF assms(1)]
    by (auto simp: trimRevisions_def trimmed_def k runs_refl Let_def not_less not_le split: if_splits)
qed

definition rev_ops :: "int option \<Rightarrow> int \<Rightarrow> bytes \<Rightarrow> bytes \<Rightarrow> bytes \<Rightarrow> contents \<Rightarrow> BinlogOps" where
  "rev_ops cap now coll i buf c =
     (let rk = RevPrefix coll i @ fmt_020d now
      in put_op ''rev'' buf rk #
         map (del_op ''rev'') (trimmed cap (keys_under (c_put ''rev'' rk buf c) ''rev'' (RevPrefix coll i))))"

lemma write_revision_runs:
  assumes "bolt_laws (e_bolt E) cont" and "write_revision E now coll doc buf s = Inr s'"
  shows "runs cont (rev_ops (e_maxRevisions E coll) now coll (ID doc) buf (cont (fst s))) s s'"
proof -
  let ?rk = "RevPrefix coll (ID doc) @ fmt_020d now"
  from assms(2) obtain s1 where s1: "put_log (e_bolt E) ''rev'' ?rk buf s = Inr s1"
    by (auto simp: write_revision_def split: sum.splits)
  have r1: "runs cont [put_op ''rev'' buf ?rk] s s1" by (rule put_log_runs [OF assms(1) s1])
  then have c1: "cont (fst s1) = c_put ''rev'' ?rk buf (cont (fst s))" by (simp add: runs_def)
  have "runs cont (map (del_op ''rev'') (trimmed (e_maxRevisions E coll) (keys_under (cont (fst s1)) ''rev'' (RevPrefix coll (ID doc))))) s1 s'"
  proof (cases "e_maxRevisions E coll")
    case None
    with assms(2) s1 show ?thesis by (simp add: write_revision_def trimmed_def runs_refl)
  next
    case (Some n)
    show ?thesis
    proof (cases "n > 0")
      case True
      with assms(2) s1 Some have "trimRevisions (e_bolt E) coll (ID doc) n s1 = Inr s'"
        by (simp add: write_revision_def)
      from trimRevisions_runs [OF assms(1) this] Some show ?thesis by (simp only:)
    next
      case False
      with assms(2) s1 Some show ?thesis by (simp add: write_revision_def trimmed_def runs_refl)
    qed
  qed
  from runs_trans [OF r1 this] show ?thesis by (simp add: rev_ops_def c1 Let_def)
qed

subsection \<open>The write transaction as a list of operations\<close>

definition new_doc :: "int \<Rightarrow> bytes \<Rightarrow> bytes \<Rightarrow> bytes \<Rightarrow> meta \<Rightarrow> bytes \<Rightarrow> int \<Rightarrow> Doc \<Rightarrow> Doc" where
  "new_doc now coll key lang m contentMD ttl existing =
     \<lparr>ID = genID [coll, key, lang], DKey = key, Lang = lang, Meta = m, ContentMD = contentMD,
      AddedAt = (if AddedAt existing = 0 then now else AddedAt existing), UpdatedAt = now,
      ExpiresAt = (if ttl > 0 then wrap64 (now + ttl) else 0)\<rparr>"

definition add_ops :: "int option \<Rightarrow> int \<Rightarrow> bytes \<Rightarrow> bytes \<Rightarrow> bytes \<Rightarrow> Doc \<Rightarrow> Doc \<Rightarrow> bytes \<Rightarrow> bool \<Rightarrow> contents \<Rightarrow> BinlogOps" where
  "add_ops cap now coll key lang existing doc buf saveRevision c =
     [put_op ''docs'' buf (DocKey coll (ID doc)), put_op ''bykey'' (ID doc) (ByKeyKey coll key lang)] @
     idx_ops coll existing doc @
     (if saveRevision then rev_ops cap now coll (ID doc) buf c else [])"

lemma replay_idx_ops:
  "replay (idx_ops coll existing doc) c b k =
     (if b = ''idxmeta'' \<and> metadataChanged (Meta existing) (Meta doc) then
        if k \<in> set (meta_keys coll (Meta doc) (ID doc)) then Some ''1''
        else if ID existing \<noteq> [] \<and> k \<in> set (meta_keys coll (Meta existing) (ID existing)) then None
        else c b k
      else c b k)"
  by (simp add: idx_ops_def replay_puts replay_dels)

lemma rev_ops_cong: "c ''rev'' = c' ''rev'' \<Longrightarrow> rev_ops cap now coll i buf c = rev_ops cap now coll i buf c'"
  by (simp add: rev_ops_def keys_under_def c_put_def Let_def)

lemma add_txn_runs:
  assumes B: "bolt_laws (e_bolt E) cont"
    and add: "add_txn E now coll key lang m contentMD ttl saveRevision tx = Inr (tx', (doc, isNew, buf, bo))"
  obtains existing where "load_existing E coll (genID [coll, key, lang]) tx = Inr existing"
    "doc = new_doc now coll key lang m contentMD ttl existing" "isNew = (AddedAt existing = 0)"
    "e_marshal E doc coll = Ok buf"
    "bo = add_ops (e_maxRevisions E coll) now coll key lang existing doc buf saveRevision (cont tx)"
    "cont tx' = replay bo (cont tx)"
proof -
  from add obtain existing where ex: "load_existing E coll (genID [coll, key, lang]) tx = Inr existing"
    by (auto simp: add_txn_def Let_def split: sum.splits)
  define d where "d = new_doc now coll key lang m contentMD ttl existing"
  have i: "ID d = genID [coll, key, lang]" by (simp add: d_def new_doc_def)
  note A = add [unfolded add_txn_def Let_def ex sum.case, folded new_doc_def, folded d_def]
  from A obtain b where b: "e_marshal E d coll = Ok b" by (auto split: outcome.splits)
  note A1 = A [unfolded b outcome.case]
  from A1 obtain s1 where s1: "put_log (e_bolt E) ''docs'' (DocKey coll (genID [coll, key, lang])) b (tx, []) = Inr s1"
    by (auto split: sum.splits)
  note A2 = A1 [unfolded s1 sum.case]
  from A2 obtain s2 where s2: "put_log (e_bolt E) ''bykey'' (ByKeyKey coll key lang) (genID [coll, key, lang]) s1 = Inr s2"
    by (auto split: sum.splits)
  note A3 = A2 [unfolded s2 sum.case]
  from A3 obtain s3 where s3: "update_index (e_bolt E) coll existing d s2 = Inr s3"
    by (auto split: sum.splits)
  note A4 = A3 [unfolded s3 sum.case]
  from A4 have out: "(if saveRevision then write_revision E now coll d b s3 else Inr s3) = Inr (tx', bo)"
    "doc = d" "isNew = (AddedAt existing = 0)" "buf = b"
    by (auto split: sum.splits)
  have r3: "runs cont ([put_op ''docs'' b (DocKey coll (ID d))] @ [put_op ''bykey'' (ID d) (ByKeyKey coll key lang)] @
      idx_ops coll existing d) (tx, []) s3"
    using runs_trans [OF put_log_runs [OF B s1] runs_trans [OF put_log_runs [OF B s2] update_index_runs [OF B s3]]]
    by (simp add: i)
  then have "cont (fst s3) ''rev'' = cont tx ''rev''"
    by (auto simp: runs_def replay_idx_ops store_simps fun_eq_iff)
  then have "runs cont (if saveRevision then rev_ops (e_maxRevisions E coll) now coll (ID d) b (cont tx) else []) s3 (tx', bo)"
    using out(1) write_revision_runs [OF B, of now coll d b s3 "(tx', bo)"]
      rev_ops_cong [of "cont (fst s3)" "cont tx" "e_maxRevisions E coll" now coll "ID d" b]
    by (cases saveRevision) (simp_all add: runs_refl)
  from runs_trans [OF r3 this] have "runs cont (add_ops (e_maxRevisions E coll) now coll key lang existing d b saveRevision (cont tx)) (tx, []) (tx', bo)"
    by (simp add: add_ops_def)
  with ex b out(2-4) show ?thesis by (intro that [of existing]) (auto simp: runs_def d_def)
qed

definition delete_ops :: "bytes \<Rightarrow> bytes \<Rightarrow> bytes \<Rightarrow> bytes list \<Rightarrow> Doc \<Rightarrow> BinlogOps" where
  "delete_ops coll key lang walked doc =
     (let i = genID [coll, key, lang]
      in [del_op ''docs'' (DocKey coll i), del_op ''bykey'' (ByKeyKey coll key lang)] @
         map (del_op ''rev'') walked @ map (del_op ''idxmeta'') (meta_keys coll (Meta doc) i))"

lemma delete_txn_runs:
  assumes B: "bolt_laws (e_bolt E) cont"
    and del: "delete_txn E coll key lang tx = Inr (tx', (doc, bo))"
  obtains v tx1 where "cont tx ''docs'' (DocKey coll (genID [coll, key, lang])) = Some v" "e_load E v = Ok doc"
    "bo = delete_ops coll key lang (bk_walk (e_bolt E) ''rev'' (RevPrefix coll (genID [coll, key, lang])) tx1) doc"
    "cont tx1 ''rev'' = cont tx ''rev''" "cont tx' = replay bo (cont tx)"
proof -
  let ?i = "genID [coll, key, lang]"
  from del obtain v where v: "bk_get (e_bolt E) ''docs'' (DocKey coll ?i) tx = Some v"
    by (auto simp: delete_txn_def Let_def split: option.splits)
  note D0 = del [unfolded delete_txn_def Let_def v option.case]
  from D0 obtain d where d: "e_load E v = Ok d" by (auto split: outcome.splits)
  note D1 = D0 [unfolded d outcome.case]
  from D1 obtain s1 where s1: "del_log (e_bolt E) ''docs'' (DocKey coll ?i) (tx, []) = Inr s1"
    by (auto split: sum.splits)
  note D2 = D1 [unfolded s1 sum.case]
  from D2 obtain s2 where s2: "del_log (e_bolt E) ''bykey'' (ByKeyKey coll key lang) s1 = Inr s2"
    by (auto split: sum.splits)
  note D3 = D2 [unfolded s2 sum.case]
  let ?w = "bk_walk (e_bolt E) ''rev'' (RevPrefix coll ?i) (fst s2)"
  from D3 obtain s3 where s3: "del_all (e_bolt E) ''rev'' ?w s2 = Inr s3" by (auto split: sum.splits)
  note D4 = D3 [unfolded s3 sum.case]
  from D4 have s4: "del_all (e_bolt E) ''idxmeta'' (meta_keys coll (Meta d) ?i) s3 = Inr (tx', bo)" and doc: "doc = d"
    by (auto split: sum.splits)
  note r2 = runs_trans [OF del_log_runs [OF B s1] del_log_runs [OF B s2]]
  note r = runs_trans [OF r2 runs_trans [OF del_all_runs [OF B s3] del_all_runs [OF B s4]]]
  have "cont (fst s2) ''rev'' = cont tx ''rev''"
    using r2 by (auto simp: runs_def store_simps fun_eq_iff)
  moreover have "bo = delete_ops coll key lang ?w d" "cont tx' = replay bo (cont tx)"
    using r by (simp_all add: runs_def delete_ops_def Let_def del: genID.simps)
  moreover have "cont tx ''docs'' (DocKey coll ?i) = Some v" using v bolt_laws.get_law [OF B] by simp
  ultimately show ?thesis using d doc by (intro that [of v "fst s2"]) auto
qed

subsection \<open>The buckets after a write and after a delete\<close>

lemma replay_rev_ops:
  "replay (rev_ops cap now coll i buf c) c' b k =
     (let rk = RevPrefix coll i @ fmt_020d now; keys = keys_under (c_put ''rev'' rk buf c) ''rev'' (RevPrefix coll i)
      in if b = ''rev'' then if k \<in> set (trimmed cap keys) then None else if k = rk then Some buf else c' b k
         else c' b k)"
  by (simp add: rev_ops_def Let_def replay_dels store_simps)

lemma add_contents:
  fixes c :: contents and cap now coll key lang existing doc buf sr
  defines "c' \<equiv> replay (add_ops cap now coll key lang existing doc buf sr c) c"
  shows "c' ''docs'' k = (if k = DocKey coll (ID doc) then Some buf else c ''docs'' k)"
    and "c' ''bykey'' k = (if k = ByKeyKey coll key lang then Some (ID doc) else c ''bykey'' k)"
    and "c' ''idxmeta'' k = (if metadataChanged (Meta existing) (Meta doc) then
        if k \<in> set (meta_keys coll (Meta doc) (ID doc)) then Some ''1''
        else if ID existing \<noteq> [] \<and> k \<in> set (meta_keys coll (Meta existing) (ID existing)) then None
        else c ''idxmeta'' k else c ''idxmeta'' k)"
    and "c' ''rev'' k = (if sr then replay (rev_ops cap now coll (ID doc) buf c) c ''rev'' k else c ''rev'' k)"
  by (auto simp: c'_def add_ops_def replay_idx_ops replay_rev_ops store_simps Let_def)

lemma delete_contents:
  fixes c :: contents and coll key lang walked doc
  defines "c' \<equiv> replay (delete_ops coll key lang walked doc) c" and "i \<equiv> genID [coll, key, lang]"
  shows "c' ''docs'' k = (if k = DocKey coll i then None else c ''docs'' k)"
    and "c' ''bykey'' k = (if k = ByKeyKey coll key lang then None else c ''bykey'' k)"
    and "c' ''idxmeta'' k = (if k \<in> set (meta_keys coll (Meta doc) i) then None else c ''idxmeta'' k)"
    and "c' ''rev'' k = (if k \<in> set walked then None else c ''rev'' k)"
  by (auto simp: c'_def i_def delete_ops_def replay_dels store_simps Let_def)

subsection \<open>The metadata index\<close>

lemma meta_key_inject:
  "nosep c \<Longrightarrow> nosep c' \<Longrightarrow> nosep mk \<Longrightarrow> nosep mk' \<Longrightarrow> nosep mv \<Longrightarrow> nosep mv' \<Longrightarrow>
   MetaKeyPrefix c mk mv @ i = MetaKeyPrefix c' mk' mv' @ i' \<longleftrightarrow> c = c' \<and> mk = mk' \<and> mv = mv' \<and> i = i'"
  by (auto simp: MetaKeyPrefix_def dest: append_sep_inject)

text \<open>Metadata as the server stores it: a map, with no separator inside its keys and values.\<close>

definition meta_ok :: "meta \<Rightarrow> bool" where
  "meta_ok m \<longleftrightarrow> distinct (map fst m) \<and> (\<forall>(mk, vs) \<in> set m. nosep mk \<and> (\<forall>mv \<in> set vs. nosep mv))"

lemma in_meta_keys:
  "k \<in> set (meta_keys coll m i) \<longleftrightarrow> (\<exists>mk vs mv. (mk, vs) \<in> set m \<and> mv \<in> set vs \<and> k = MetaKeyPrefix coll mk mv @ i)"
  by (force simp: meta_keys_def)

lemma meta_keys_disjoint:
  assumes "meta_ok m" and "meta_ok m'" and "nosep c" and "nosep c'"
    and "k \<in> set (meta_keys c m i)" and "k \<in> set (meta_keys c' m' i')"
  shows "c = c' \<and> i = i'"
proof -
  from assms(5) obtain mk vs mv where a: "(mk, vs) \<in> set m" "mv \<in> set vs" "k = MetaKeyPrefix c mk mv @ i"
    unfolding in_meta_keys by blast
  from assms(6) obtain mk' vs' mv' where b: "(mk', vs') \<in> set m'" "mv' \<in> set vs'" "k = MetaKeyPrefix c' mk' mv' @ i'"
    unfolding in_meta_keys by blast
  have "nosep mk \<and> nosep mv" "nosep mk' \<and> nosep mv'" using a b assms(1,2) by (auto simp: meta_ok_def)
  then show ?thesis using a(3) b(3) meta_key_inject [of c c' mk mk' mv mv' i i'] assms(3,4) by auto
qed

lemma meta_keys_cong:
  assumes "distinct (map fst m)" and "distinct (map fst m')" and "\<not> metadataChanged m m'"
  shows "set (meta_keys c m i) = set (meta_keys c m' i)"
proof -
  have "map_of m = map_of m'" using metadataChanged_iff [OF assms(1,2)] assms(3) by simp
  then have "set m = set m'" using assms(1,2) map_of_inject_set by blast
  then show ?thesis by (auto simp: in_meta_keys)
qed

text \<open>
  \<open>store_ok load c\<close>: every entry of the docs bucket is a document stored under its own id, and
  the index bucket holds exactly one entry per document and metadata value.
\<close>

definition doc_at :: "(bytes \<Rightarrow> (codec_error, Doc) outcome) \<Rightarrow> contents \<Rightarrow> bytes \<Rightarrow> bytes \<Rightarrow> Doc \<Rightarrow> bool" where
  "doc_at load c coll i d \<longleftrightarrow> nosep coll \<and> (\<exists>buf. c ''docs'' (DocKey coll i) = Some buf \<and> load buf = Ok d)"

definition docs_ok :: "(bytes \<Rightarrow> (codec_error, Doc) outcome) \<Rightarrow> contents \<Rightarrow> bool" where
  "docs_ok load c \<longleftrightarrow> (\<forall>coll i buf. nosep coll \<and> c ''docs'' (DocKey coll i) = Some buf \<longrightarrow>
     (\<exists>d. load buf = Ok d \<and> ID d = i \<and> i \<noteq> [] \<and> meta_ok (Meta d)))"

definition index_exact :: "(bytes \<Rightarrow> (codec_error, Doc) outcome) \<Rightarrow> contents \<Rightarrow> bool" where
  "index_exact load c \<longleftrightarrow> (\<forall>k. c ''idxmeta'' k \<noteq> None \<longleftrightarrow>
     (\<exists>coll i d. doc_at load c coll i d \<and> k \<in> set (meta_keys coll (Meta d) i)))"

definition store_ok :: "(bytes \<Rightarrow> (codec_error, Doc) outcome) \<Rightarrow> contents \<Rightarrow> bool" where
  "store_ok load c \<longleftrightarrow> docs_ok load c \<and> index_exact load c"

lemma doc_at_fun: "doc_at load c coll i d \<Longrightarrow> doc_at load c coll i d' \<Longrightarrow> d = d'"
  by (auto simp: doc_at_def)

lemma docs_okD: "docs_ok load c \<Longrightarrow> doc_at load c coll i d \<Longrightarrow> ID d = i \<and> i \<noteq> [] \<and> meta_ok (Meta d)"
  by (fastforce simp: docs_ok_def doc_at_def)

text \<open>Replacing the document at one place, together with its index keys, keeps the index exact.\<close>

lemma store_ok_replace:
  assumes ok: "store_ok load c" and coll: "nosep coll" and i: "i \<noteq> []"
    and docs: "\<And>k. c' ''docs'' k = (if k = DocKey coll i then v else c ''docs'' k)"
    and new: "case v of None \<Rightarrow> N = {} | Some buf \<Rightarrow> \<exists>d. load buf = Ok d \<and> ID d = i \<and> meta_ok (Meta d) \<and> N = set (meta_keys coll (Meta d) i)"
    and old: "Old = {k. \<exists>d. doc_at load c coll i d \<and> k \<in> set (meta_keys coll (Meta d) i)}"
    and idx: "\<And>k. c' ''idxmeta'' k \<noteq> None \<longleftrightarrow> k \<in> N \<or> (c ''idxmeta'' k \<noteq> None \<and> k \<notin> Old)"
  shows "store_ok load c'"
proof -
  have ok1: "docs_ok load c" and ok2: "index_exact load c" using ok by (simp_all add: store_ok_def)
  have other: "doc_at load c' coll' i' d \<longleftrightarrow> doc_at load c coll' i' d" if "\<not> (coll' = coll \<and> i' = i)" for coll' i' d
    using that coll DocKey_inject [of coll' coll i' i] by (auto simp: doc_at_def docs)
  have here: "doc_at load c' coll i d \<longleftrightarrow> (\<exists>buf. v = Some buf \<and> load buf = Ok d)" for d
    using coll by (auto simp: doc_at_def docs)
  have N: "N = {k. \<exists>d. doc_at load c' coll i d \<and> k \<in> set (meta_keys coll (Meta d) i)}"
    using new by (auto simp: here split: option.splits)
  have docs': "docs_ok load c'"
  proof -
    have "\<exists>d. load buf = Ok d \<and> ID d = i' \<and> i' \<noteq> [] \<and> meta_ok (Meta d)"
      if "nosep coll'" "c' ''docs'' (DocKey coll' i') = Some buf" for coll' i' buf
    proof (cases "coll' = coll \<and> i' = i")
      case True
      with that(2) new i show ?thesis by (auto simp: docs)
    next
      case False
      with that coll have "c ''docs'' (DocKey coll' i') = Some buf"
        using DocKey_inject [of coll' coll i' i] by (auto simp: docs split: if_splits)
      with ok1 that(1) show ?thesis unfolding docs_ok_def by blast
    qed
    then show ?thesis unfolding docs_ok_def by blast
  qed
  define R where "R = {k. \<exists>coll' i' d. \<not> (coll' = coll \<and> i' = i) \<and> doc_at load c coll' i' d \<and> k \<in> set (meta_keys coll' (Meta d) i')}"
  have before: "c ''idxmeta'' k \<noteq> None \<longleftrightarrow> k \<in> Old \<or> k \<in> R" for k
  proof -
    have "(\<exists>coll' i' d. doc_at load c coll' i' d \<and> k \<in> set (meta_keys coll' (Meta d) i')) \<longleftrightarrow> k \<in> Old \<or> k \<in> R"
      unfolding old R_def mem_Collect_eq by metis
    with ok2 show ?thesis unfolding index_exact_def by metis
  qed
  have disj: "k \<notin> Old" if "k \<in> R" for k
  proof
    assume "k \<in> Old"
    then obtain d where d: "doc_at load c coll i d" "k \<in> set (meta_keys coll (Meta d) i)" by (auto simp: old)
    from that obtain coll' i' d' where d': "\<not> (coll' = coll \<and> i' = i)" "doc_at load c coll' i' d'"
      "k \<in> set (meta_keys coll' (Meta d') i')" by (auto simp: R_def)
    have "meta_ok (Meta d)" "meta_ok (Meta d')" using docs_okD [OF ok1] d(1) d'(2) by blast+
    moreover have "nosep coll'" using d'(2) by (simp add: doc_at_def)
    ultimately show False using meta_keys_disjoint [OF _ _ coll _ d(2) d'(3)] d'(1) by blast
  qed
  have after: "c' ''idxmeta'' k \<noteq> None \<longleftrightarrow> k \<in> N \<or> k \<in> R" for k
    using idx [of k] before [of k] disj [of k] by blast
  have R': "k \<in> R \<longleftrightarrow> (\<exists>coll' i' d. \<not> (coll' = coll \<and> i' = i) \<and> doc_at load c' coll' i' d \<and>
      k \<in> set (meta_keys coll' (Meta d) i'))" for k
    unfolding R_def mem_Collect_eq using other by metis
  have "k \<in> N \<or> k \<in> R \<longleftrightarrow> (\<exists>coll' i' d. doc_at load c' coll' i' d \<and> k \<in> set (meta_keys coll' (Meta d) i'))" for k
    unfolding R' N mem_Collect_eq by metis
  with after have "index_exact load c'" unfolding index_exact_def by metis
  with docs' show ?thesis by (simp add: store_ok_def)
qed

lemma genID_nonempty: "key \<noteq> [] \<Longrightarrow> genID [coll, key, lang] \<noteq> []"
  by simp

lemma load_existing_cases:
  assumes "bolt_laws (e_bolt E) cont" and "load_existing E coll i tx = Inr existing" and "docs_ok (e_load E) (cont tx)"
    and "nosep coll"
  shows "(cont tx ''docs'' (DocKey coll i) = None \<and> existing = empty_doc) \<or>
     (doc_at (e_load E) (cont tx) coll i existing \<and> ID existing = i \<and> i \<noteq> [] \<and> meta_ok (Meta existing))"
proof (cases "cont tx ''docs'' (DocKey coll i)")
  case None
  with assms(2) bolt_laws.get_law [OF assms(1)] show ?thesis by (simp add: load_existing_def)
next
  case (Some buf)
  with assms(2) bolt_laws.get_law [OF assms(1)] have "e_load E buf = Ok existing"
    by (auto simp: load_existing_def split: outcome.splits)
  with Some assms(4) have "doc_at (e_load E) (cont tx) coll i existing" by (auto simp: doc_at_def)
  with docs_okD [OF assms(3)] show ?thesis by blast
qed

lemma add_txn_store_ok:
  assumes B: "bolt_laws (e_bolt E) cont" and codec: "doc_codec (e_marshal E) (e_load E) (e_unmarshal E)"
    and add: "add_txn E now coll key lang m contentMD ttl sr tx = Inr (tx', (doc, isNew, buf, bo))"
    and ok: "store_ok (e_load E) (cont tx)" and coll: "nosep coll" and m: "meta_ok m" and key: "key \<noteq> []"
  shows "store_ok (e_load E) (cont tx')"
proof -
  let ?i = "genID [coll, key, lang]"
  obtain existing where ex: "load_existing E coll ?i tx = Inr existing"
    and doc: "doc = new_doc now coll key lang m contentMD ttl existing" and buf: "e_marshal E doc coll = Ok buf"
    and bo: "bo = add_ops (e_maxRevisions E coll) now coll key lang existing doc buf sr (cont tx)"
    and c': "cont tx' = replay bo (cont tx)"
    using add_txn_runs [OF B add] by metis
  have i: "ID doc = ?i" "Meta doc = m" by (simp_all add: doc new_doc_def)
  have load: "e_load E buf = Ok doc" using doc_codec.load_marshal [OF codec buf] .
  have ine: "?i \<noteq> []" using key by (rule genID_nonempty)
  note C = add_contents [of "e_maxRevisions E coll" now coll key lang existing doc buf sr "cont tx", folded bo, folded c', unfolded i]
  have docs_ok: "docs_ok (e_load E) (cont tx)" using ok by (simp add: store_ok_def)
  note cases = load_existing_cases [OF B ex docs_ok coll]
  define N where "N = set (meta_keys coll m ?i)"
  define O' where "O' = {k. \<exists>d. doc_at (e_load E) (cont tx) coll ?i d \<and> k \<in> set (meta_keys coll (Meta d) ?i)}"
  have O_eq: "O' = (if ID existing \<noteq> [] then set (meta_keys coll (Meta existing) (ID existing)) else {})"
    using cases
  proof
    assume "cont tx ''docs'' (DocKey coll ?i) = None \<and> existing = empty_doc"
    then show ?thesis by (auto simp: O'_def doc_at_def empty_doc_def)
  next
    assume e: "doc_at (e_load E) (cont tx) coll ?i existing \<and> ID existing = ?i \<and> ?i \<noteq> [] \<and> meta_ok (Meta existing)"
    then have "doc_at (e_load E) (cont tx) coll ?i d \<longleftrightarrow> d = existing" for d using doc_at_fun by blast
    with e show ?thesis unfolding O'_def by (simp del: genID.simps)
  qed
  have dist: "distinct (map fst (Meta existing))"
    using cases by (auto simp: empty_doc_def meta_ok_def)
  have same: "O' = N" if "\<not> metadataChanged (Meta existing) m"
  proof -
    have eq: "set (meta_keys coll (Meta existing) ?i) = N"
      unfolding N_def using dist m that by (intro meta_keys_cong) (simp_all add: meta_ok_def)
    show ?thesis
    proof (cases "ID existing = []")
      case True
      with cases have "existing = empty_doc" by metis
      with eq True show ?thesis by (simp add: O_eq empty_doc_def meta_keys_def)
    next
      case False
      with cases have "ID existing = ?i" by (auto simp: empty_doc_def simp del: genID.simps)
      with False eq show ?thesis by (simp add: O_eq del: genID.simps)
    qed
  qed
  have O_idx: "k \<in> O' \<Longrightarrow> cont tx ''idxmeta'' k \<noteq> None" for k
    using ok unfolding store_ok_def index_exact_def O'_def by blast
  have idx: "cont tx' ''idxmeta'' k \<noteq> None \<longleftrightarrow> k \<in> N \<or> (cont tx ''idxmeta'' k \<noteq> None \<and> k \<notin> O')" for k
  proof (cases "metadataChanged (Meta existing) m")
    case True
    then show ?thesis by (simp add: C(3) N_def O_eq del: genID.simps)
  next
    case False
    with same O_idx [of k] show ?thesis by (auto simp: C(3) simp del: genID.simps)
  qed
  show ?thesis
    by (rule store_ok_replace [OF ok coll ine, where v = "Some buf" and N = N and Old = O'])
      (use C(1) load i m idx O'_def N_def in \<open>auto simp del: genID.simps\<close>)
qed

lemma delete_txn_store_ok:
  assumes B: "bolt_laws (e_bolt E) cont"
    and del: "delete_txn E coll key lang tx = Inr (tx', (doc, bo))"
    and ok: "store_ok (e_load E) (cont tx)" and coll: "nosep coll" and key: "key \<noteq> []"
  shows "store_ok (e_load E) (cont tx')"
proof -
  let ?i = "genID [coll, key, lang]"
  obtain v tx1 where v: "cont tx ''docs'' (DocKey coll ?i) = Some v" "e_load E v = Ok doc"
    and bo: "bo = delete_ops coll key lang (bk_walk (e_bolt E) ''rev'' (RevPrefix coll ?i) tx1) doc"
    and c': "cont tx' = replay bo (cont tx)"
    using delete_txn_runs [OF B del] by metis
  note C = delete_contents [of coll key lang "bk_walk (e_bolt E) ''rev'' (RevPrefix coll ?i) tx1" doc "cont tx", folded bo, folded c']
  have at: "doc_at (e_load E) (cont tx) coll ?i d \<longleftrightarrow> d = doc" for d
    using v coll by (auto simp: doc_at_def)
  have old: "set (meta_keys coll (Meta doc) ?i) =
      {k. \<exists>d. doc_at (e_load E) (cont tx) coll ?i d \<and> k \<in> set (meta_keys coll (Meta d) ?i)}"
    unfolding at by simp
  show ?thesis
  proof (rule store_ok_replace [OF ok coll genID_nonempty [OF key], where v = None and N = "{}"])
    show "cont tx' ''docs'' k = (if k = DocKey coll ?i then None else cont tx ''docs'' k)" for k by (rule C(1))
    show "set (meta_keys coll (Meta doc) ?i) =
      {k. \<exists>d. doc_at (e_load E) (cont tx) coll ?i d \<and> k \<in> set (meta_keys coll (Meta d) ?i)}" by (rule old)
    show "cont tx' ''idxmeta'' k \<noteq> None \<longleftrightarrow> k \<in> {} \<or> (cont tx ''idxmeta'' k \<noteq> None \<and> k \<notin> set (meta_keys coll (Meta doc) ?i))" for k
      by (simp add: C(3) del: genID.simps)
  qed simp
qed

end
