(* ===== verification/Document_Store.thy ===== *)
theory Document_Store
  imports Document_Ops
begin

section \<open>What the document operations guarantee\<close>

text \<open>
  The properties of the write path: the metadata index stays exact, the revision cap keeps the
  newest revisions, a failed operation changes nothing, the binlog describes exactly what
  happened to the store, reads see the last write, and the read caches stay coherent for names
  in lower case.
\<close>

subsection \<open>From the server to its transaction\<close>

lemma addDocument_Inr:
  assumes B: "bolt_laws (e_bolt E) cont"
    and add: "addDocument E ck coll key lang m contentMD ttl sr s = (s', Inr (saved, isNew))"
  obtains tx' buf bo where "coll \<noteq> []" "key \<noteq> []" "lang \<noteq> []" "e_validate E coll m"
    "add_txn E (ck_now ck) coll key lang m contentMD ttl sr (sv_db s) = Inr (tx', (saved, isNew, buf, bo))"
    "cont (sv_db s') = cont tx'" "sv_binlog s' = FlushTo (ck_binlog ck) (ck_io ck) bo (sv_binlog s)"
    "sv_cache s' = sv_cache (refresh_cache ck (BuildCacheKey coll key lang) buf s)"
    "sv_lfcache s' = sv_lfcache (refresh_cache ck (BuildCacheKey coll key lang) buf s)"
    "sv_extreme s' = sv_extreme s"
    "sv_effects s' = sv_effects s @ runPostWriteHooks E coll saved isNew"
proof -
  from add have ne: "coll \<noteq> []" "key \<noteq> []" "lang \<noteq> []" and val: "e_validate E coll m"
    by (auto simp: addDocument_def split: if_splits)
  obtain db r where db: "DBUpdate (e_bolt E) CommitError (add_txn E (ck_now ck) coll key lang m contentMD ttl sr) (sv_db s) = (db, r)"
    by (cases "DBUpdate (e_bolt E) CommitError (add_txn E (ck_now ck) coll key lang m contentMD ttl sr) (sv_db s)")
  note A = add [unfolded addDocument_def db prod.case]
  from A ne val obtain sv new buf bo where r: "r = Inr (sv, new, buf, bo)"
    by (cases r) (auto split: prod.splits)
  from db r obtain tx' where tx: "add_txn E (ck_now ck) coll key lang m contentMD ttl sr (sv_db s) = Inr (tx', (sv, new, buf, bo))"
    and cm: "bk_commit (e_bolt E) tx' = Some db" by (auto simp: DBUpdate_Inr)
  from A r ne val have "sv = saved" "new = isNew" and s': "s' =
      (let s1 = s\<lparr>sv_db := db, sv_binlog := FlushTo (ck_binlog ck) (ck_io ck) bo (sv_binlog s)\<rparr>;
           s2 = refresh_cache ck (BuildCacheKey coll key lang) buf s1
       in s2\<lparr>sv_effects := sv_effects s2 @ runPostWriteHooks E coll sv new\<rparr>)"
    by (auto simp: Let_def)
  then show ?thesis
    using that ne val tx bolt_laws.commit_law [OF B cm] by (simp add: refresh_cache_def Let_def split: if_splits)
qed

lemma addDocument_Inl:
  "addDocument E ck coll key lang m contentMD ttl sr s = (s', Inl err) \<Longrightarrow> s' = s"
  by (auto simp: addDocument_def Let_def split: if_splits prod.splits sum.splits dest!: DBUpdate_Inl)

lemma deleteDocumentInternal_None:
  assumes B: "bolt_laws (e_bolt E) cont"
    and del: "deleteDocumentInternal E ck coll key lang s = (s', None)"
  obtains tx' doc bo where "delete_txn E coll key lang (sv_db s) = Inr (tx', (doc, bo))"
    "cont (sv_db s') = cont tx'" "sv_binlog s' = FlushTo (ck_binlog ck) (ck_io ck) bo (sv_binlog s)"
    "sv_cache s' = map_option (dc_Delete (BuildCacheKey coll key lang)) (sv_cache s)"
    "sv_lfcache s' = map_option (lf_Delete (BuildCacheKey coll key lang)) (sv_lfcache s)"
    "sv_extreme s' = sv_extreme s"
proof -
  obtain db r where db: "DBUpdate (e_bolt E) CommitError (delete_txn E coll key lang) (sv_db s) = (db, r)"
    by (cases "DBUpdate (e_bolt E) CommitError (delete_txn E coll key lang) (sv_db s)")
  note D = del [unfolded deleteDocumentInternal_def db prod.case]
  from D obtain doc bo where r: "r = Inr (doc, bo)" by (cases r) auto
  from db r obtain tx' where tx: "delete_txn E coll key lang (sv_db s) = Inr (tx', (doc, bo))"
    and cm: "bk_commit (e_bolt E) tx' = Some db" by (auto simp: DBUpdate_Inr)
  from D r show ?thesis
    using that tx bolt_laws.commit_law [OF B cm] by (auto simp: Let_def case_prod_beta)
qed

lemma deleteDocumentInternal_Some:
  "deleteDocumentInternal E ck coll key lang s = (s', Some err) \<Longrightarrow> s' = s"
  by (auto simp: deleteDocumentInternal_def Let_def split: prod.splits sum.splits dest!: DBUpdate_Inl)

subsection \<open>A configuration and a store to test on\<close>

definition ref_env :: "int option \<Rightarrow> (mem_db, unit) env" where
  "ref_env cap = \<lparr>e_bolt = mem_bolt, e_validate = (\<lambda>_ _. True),
     e_marshal = (\<lambda>d coll. if d = ref_doc then Ok ''B'' else if d = ref_doc\<lparr>UpdatedAt := 9\<rparr> then Ok ''C'' else Err ProtoError),
     e_load = (\<lambda>b. if b = ''B'' then Ok ref_doc else if b = ''C'' then Ok (ref_doc\<lparr>UpdatedAt := 9\<rparr>) else Err ProtoError),
     e_unmarshal = (\<lambda>b. if b = ''B'' then Ok ref_doc else if b = ''C'' then Ok (ref_doc\<lparr>UpdatedAt := 9\<rparr>) else Err ProtoError),
     e_maxRevisions = (\<lambda>_. cap), e_embedding = False, e_ttl = False, e_fts = False, e_geo = None,
     e_geohash = False, e_temporal = False, e_webhooks = True, e_sse = False, e_triggers = False, e_vectors = None\<rparr>"

definition ref_server :: "Binlog option \<Rightarrow> mem_db \<Rightarrow> (mem_db, unit) server" where
  "ref_server bl db = \<lparr>sv_db = db, sv_binlog = bl, sv_cache = Some (NewDocumentCache 10 60),
     sv_lfcache = None, sv_extreme = False, sv_effects = []\<rparr>"

definition ref_clock :: "int \<Rightarrow> clock" where
  "ref_clock t = \<lparr>ck_now = t, ck_cache = t, ck_evict = 0, ck_binlog = 7, ck_io = True\<rparr>"

interpretation ref_env: doc_codec "e_marshal (ref_env cap)" "e_load (ref_env cap)" "e_unmarshal (ref_env cap)"
  by unfold_locales (auto simp: ref_env_def ref_doc_def split: if_splits)

lemma ref_laws: "bolt_laws (e_bolt (ref_env cap)) mem_contents"
  by (simp add: ref_env_def mem.bolt_laws_axioms)

text \<open>The result of a write does not depend on the binlog.\<close>

lemma addDocument_binlog:
  "snd (addDocument E ck coll key lang m contentMD ttl sr (s\<lparr>sv_binlog := bl\<rparr>)) =
   snd (addDocument E ck coll key lang m contentMD ttl sr s)"
  "sv_db (fst (addDocument E ck coll key lang m contentMD ttl sr (s\<lparr>sv_binlog := bl\<rparr>))) =
   sv_db (fst (addDocument E ck coll key lang m contentMD ttl sr s))"
  by (auto simp: addDocument_def refresh_cache_def Let_def split: prod.splits sum.splits)

abbreviation ref_add where
  "ref_add cap t db \<equiv> addDocument (ref_env cap) (ref_clock t) ''c'' ''k'' ''en'' [] [] 0 True (ref_server None db)"

lemmas ref_eval = addDocument_def ref_env_def ref_clock_def ref_server_def add_txn_def load_existing_def
  put_log_def update_index_def write_revision_def trimRevisions_def DBUpdate_def mem_bolt_def mem_contents_def
  mem_bucket_def empty_doc_def metadataChanged_def metadataEqual_def refresh_cache_def FlushTo_def ref_doc_def
  lower_byte_def

lemma ref_add_new: "snd (ref_add None 5 []) = Inr (ref_doc, True)"
  by (simp add: ref_eval key_defs length_fmt_020d Let_def)

lemma ref_add_new': obtains s' where "ref_add None 5 [] = (s', Inr (ref_doc, True))"
  using ref_add_new by (metis prod.collapse)

lemma ref_add_capped: "snd (ref_add (Some 2) 5 []) = Inr (ref_doc, True)"
  by (simp add: ref_eval key_defs length_fmt_020d Let_def mem_keys_def)

lemma ref_log_add: obtains s' where
  "addDocument (ref_env None) (ref_clock 5) ''c'' ''k'' ''en'' [] [] 0 True (ref_server (Some (log_of [])) []) = (s', Inr (ref_doc, True))"
proof -
  have "ref_server (Some (log_of [])) [] = (ref_server None [])\<lparr>sv_binlog := Some (log_of [])\<rparr>"
    by (simp add: ref_server_def)
  then have "snd (addDocument (ref_env None) (ref_clock 5) ''c'' ''k'' ''en'' [] [] 0 True (ref_server (Some (log_of [])) [])) =
      Inr (ref_doc, True)"
    using ref_add_new by (simp only: addDocument_binlog)
  then show ?thesis using that by (metis prod.collapse)
qed

lemma ref_store_empty: "store_ok load (mem_contents [])"
  by (simp add: store_ok_def docs_ok_def index_exact_def doc_at_def mem_contents_def mem_bucket_def)

subsection \<open>The log of the leader\<close>

text \<open>\<open>leader_ok cont c0 s\<close>: replaying the server's well-formed log on \<open>c0\<close> gives its store.\<close>

definition leader_ok :: "('tx \<Rightarrow> contents) \<Rightarrow> contents \<Rightarrow> ('tx, 'p) server \<Rightarrow> bool" where
  "leader_ok cont c0 s \<longleftrightarrow> (\<exists>b es. sv_binlog s = Some b \<and> log_rep b es \<and> replay es c0 = cont (sv_db s))"

lemma replay_stamped: "replay (stamped_list l now es) c = replay es c"
  by (induction es arbitrary: l c) (simp_all add: stamped_def)

lemma leader_flush:
  assumes "sv_binlog s = Some b" and "log_rep b es" and "replay es c0 = cont (sv_db s)"
    and "cont (sv_db s') = replay bo (cont (sv_db s))" and "sv_binlog s' = FlushTo ts True bo (sv_binlog s)"
    and "\<forall>e \<in> set bo. entry_fits e" and "unat (lsn b) + length bo < 2 ^ 64"
  shows "leader_ok cont c0 s'"
proof -
  obtain b' where b': "sv_binlog s' = Some b'" "log_rep b' (es @ stamped_list (lsn b) ts bo)"
  proof (cases bo)
    case Nil
    with assms(1,2,5) show ?thesis by (intro that) (simp_all add: FlushTo_def)
  next
    case (Cons e bo')
    then have ne: "bo \<noteq> []" by simp
    obtain b' ret where r: "append_loop ts True bo b = (b', ret, True)"
      using append_loop_succeeds [of b ts bo] assms(2) by (auto simp: log_rep_def)
    have "sv_binlog s' = Some (fst (AppendBatch ts True bo b))"
      using ne assms(1,5) by (simp add: FlushTo_def del: append_loop.simps)
    then have "sv_binlog s' = Some (fold notifySubscribers ret b')" by (simp add: AppendBatch_def ne r)
    moreover have "log_rep (fold notifySubscribers ret b') (es @ stamped_list (lsn b) ts bo)"
      using append_loop_ok [OF assms(2,6,7) r] unfolding log_rep_fold_notify by simp
    ultimately show ?thesis by (rule that)
  qed
  moreover have "replay (es @ stamped_list (lsn b) ts bo) c0 = cont (sv_db s')"
    using assms(3,4) by (simp add: replay_stamped)
  ultimately show ?thesis unfolding leader_ok_def by blast
qed

subsection \<open>Properties\<close>

text \<open>C1: The binlog describes exactly what a write did: the operations a successful
  \<open>addDocument\<close> flushes, replayed on the store as it was before, give the store as it is after,
  revision trimming and index maintenance included; so a leader whose log replays to its store
  stays one.\<close>

theorem addDocument_logged:
  assumes "bolt_laws (e_bolt E) cont"
    and "addDocument E ck coll key lang m contentMD ttl sr s = (s', Inr (saved, isNew))"
  shows "\<exists>bo. cont (sv_db s') = replay bo (cont (sv_db s)) \<and>
     sv_binlog s' = FlushTo (ck_binlog ck) (ck_io ck) bo (sv_binlog s) \<and>
     (ck_io ck \<and> (\<forall>e \<in> set bo. entry_fits e) \<and> (\<forall>b. sv_binlog s = Some b \<longrightarrow> unat (lsn b) + length bo < 2 ^ 64) \<and>
      leader_ok cont c0 s \<longrightarrow> leader_ok cont c0 s')"
proof -
  obtain tx' buf bo where add: "add_txn E (ck_now ck) coll key lang m contentMD ttl sr (sv_db s) = Inr (tx', (saved, isNew, buf, bo))"
    and c: "cont (sv_db s') = cont tx'" and bl: "sv_binlog s' = FlushTo (ck_binlog ck) (ck_io ck) bo (sv_binlog s)"
    using addDocument_Inr [OF assms] by metis
  have c': "cont (sv_db s') = replay bo (cont (sv_db s))" using add_txn_runs [OF assms(1) add] c by metis
  have "leader_ok cont c0 s'"
    if "ck_io ck" "\<forall>e \<in> set bo. entry_fits e" "\<forall>b. sv_binlog s = Some b \<longrightarrow> unat (lsn b) + length bo < 2 ^ 64" "leader_ok cont c0 s"
    using that leader_flush [OF _ _ _ c'] bl unfolding leader_ok_def by metis
  with c' bl show ?thesis by blast
qed

theorem addDocument_logged_witness:
  "\<exists>(s' :: (mem_db, unit) server) bo. mem_contents (sv_db s') = replay bo (mem_contents []) \<and>
     sv_binlog s' = FlushTo 7 True bo (Some (log_of []))"
proof -
  obtain s' where "addDocument (ref_env None) (ref_clock 5) ''c'' ''k'' ''en'' [] [] 0 True (ref_server (Some (log_of [])) []) = (s', Inr (ref_doc, True))"
    by (rule ref_log_add)
  from addDocument_logged [OF ref_laws this] obtain bo where
    "mem_contents (sv_db s') = replay bo (mem_contents (sv_db (ref_server (Some (log_of [])) [])))"
    "sv_binlog s' = FlushTo (ck_binlog (ref_clock 5)) (ck_io (ref_clock 5)) bo (sv_binlog (ref_server (Some (log_of [])) []))"
    by blast
  then have "mem_contents (sv_db s') = replay bo (mem_contents []) \<and> sv_binlog s' = FlushTo 7 True bo (Some (log_of []))"
    by (simp add: ref_server_def ref_clock_def)
  then show ?thesis by blast
qed

text \<open>C2: The metadata index is exact and stays so: after every successful write and every
  successful delete, the index bucket holds exactly one entry per stored document, metadata key
  and value, as long as collection names and metadata contain no separator.\<close>

theorem index_stays_exact:
  assumes "bolt_laws (e_bolt E) cont" and "doc_codec (e_marshal E) (e_load E) (e_unmarshal E)"
    and "store_ok (e_load E) (cont (sv_db s))" and "nosep coll"
  shows "(case addDocument E ck coll key lang m contentMD ttl sr s of (s', r) \<Rightarrow>
       meta_ok m \<longrightarrow> store_ok (e_load E) (cont (sv_db s'))) \<and>
     (case deleteDocumentInternal E ck coll key lang s of (s', r) \<Rightarrow>
       key \<noteq> [] \<longrightarrow> store_ok (e_load E) (cont (sv_db s')))"
proof (rule conjI)
  obtain s' r where a: "addDocument E ck coll key lang m contentMD ttl sr s = (s', r)"
    by (cases "addDocument E ck coll key lang m contentMD ttl sr s")
  have "store_ok (e_load E) (cont (sv_db s'))" if "meta_ok m"
  proof (cases r)
    case (Inl err)
    with a addDocument_Inl assms(3) show ?thesis by metis
  next
    case (Inr p)
    obtain saved isNew where "p = (saved, isNew)" by (cases p)
    with a Inr have "addDocument E ck coll key lang m contentMD ttl sr s = (s', Inr (saved, isNew))" by simp
    then obtain tx' buf bo where "key \<noteq> []" and
      "add_txn E (ck_now ck) coll key lang m contentMD ttl sr (sv_db s) = Inr (tx', (saved, isNew, buf, bo))"
      "cont (sv_db s') = cont tx'" using addDocument_Inr [OF assms(1)] by metis
    with add_txn_store_ok [OF assms(1,2) _ assms(3,4) that] show ?thesis by simp
  qed
  with a show "case addDocument E ck coll key lang m contentMD ttl sr s of (s', r) \<Rightarrow>
      meta_ok m \<longrightarrow> store_ok (e_load E) (cont (sv_db s'))" by simp
next
  obtain s' r where d: "deleteDocumentInternal E ck coll key lang s = (s', r)"
    by (cases "deleteDocumentInternal E ck coll key lang s")
  have "store_ok (e_load E) (cont (sv_db s'))" if "key \<noteq> []"
  proof (cases r)
    case (Some err)
    with d deleteDocumentInternal_Some assms(3) show ?thesis by metis
  next
    case None
    with d obtain tx' doc bo where "delete_txn E coll key lang (sv_db s) = Inr (tx', (doc, bo))"
      "cont (sv_db s') = cont tx'" using deleteDocumentInternal_None [OF assms(1)] by metis
    with delete_txn_store_ok [OF assms(1) _ assms(3,4) that] show ?thesis by simp
  qed
  with d show "case deleteDocumentInternal E ck coll key lang s of (s', r) \<Rightarrow>
      key \<noteq> [] \<longrightarrow> store_ok (e_load E) (cont (sv_db s'))" by simp
qed

theorem index_stays_exact_witness:
  "store_ok (e_load (ref_env None)) (mem_contents (sv_db (fst (ref_add None 5 []))))"
proof -
  have "store_ok (e_load (ref_env None)) (mem_contents (sv_db (ref_server None [])))"
    by (simp add: ref_server_def ref_store_empty)
  from index_stays_exact [OF ref_laws ref_env.doc_codec_axioms this, where coll = "''c''" and ck = "ref_clock 5" and key = "''k''"
      and lang = "''en''" and m = "[]" and contentMD = "[]" and ttl = 0 and sr = True]
  show ?thesis by (simp add: case_prod_beta meta_ok_def)
qed

text \<open>A write or delete that returns an error has changed nothing: neither the store, nor the
  binlog, nor a cache, and no hook has run.\<close>

theorem failed_ops_change_nothing:
  shows "(snd (addDocument E ck coll key lang m contentMD ttl sr s) = Inl err \<longrightarrow>
       fst (addDocument E ck coll key lang m contentMD ttl sr s) = s) \<and>
     (snd (deleteDocumentInternal E ck coll key lang s) = Some err' \<longrightarrow>
       fst (deleteDocumentInternal E ck coll key lang s) = s)"
  using addDocument_Inl deleteDocumentInternal_Some by (metis prod.collapse)

theorem failed_ops_change_nothing_witness:
  "snd (deleteDocumentInternal (ref_env None) (ref_clock 5) ''c'' ''k'' ''en'' (ref_server None [])) = Some DocNotFound \<and>
   fst (deleteDocumentInternal (ref_env None) (ref_clock 5) ''c'' ''k'' ''en'' (ref_server None [])) = ref_server None []"
proof -
  have d: "snd (deleteDocumentInternal (ref_env None) (ref_clock 5) ''c'' ''k'' ''en'' (ref_server None [])) = Some DocNotFound"
    by (simp add: deleteDocumentInternal_def delete_txn_def ref_eval Let_def)
  show ?thesis
    using d failed_ops_change_nothing [of "ref_env None" "ref_clock 5" "''c''" "''k''" "''en''" "[]" "[]" 0 True
        "ref_server None []" MissingField DocNotFound] by blast
qed

subsection \<open>Revisions\<close>

lemma keys_under_finite:
  assumes "bolt_laws B cont" shows "finite {k. cont tx b k \<noteq> None \<and> prefix p k}"
  using bolt_laws.scan_keys [OF assms, of b p tx] by (metis List.finite_set)

lemma trimmed_spec:
  fixes K :: "bytes set"
  assumes "finite K" and "0 < n"
  defines "R \<equiv> set (trimmed (Some n) (sorted_list_of_set K))"
  shows "R \<subseteq> K \<and> card (K - R) = min (card K) (nat n) \<and> (\<forall>k \<in> R. \<forall>k' \<in> K - R. k < k')"
proof (cases "int (card K) > n")
  case True
  let ?L = "sorted_list_of_set K" and ?m = "card K - nat n"
  have L: "set ?L = K" "sorted_wrt (<) ?L" "length ?L = card K" using assms(1) by auto
  have R: "R = set (take ?m ?L)" using True assms(2) by (simp add: R_def trimmed_def L(3))
  have split: "set (take ?m ?L) \<union> set (drop ?m ?L) = K" using L(1) by (metis append_take_drop_id set_append)
  have lt: "\<forall>k \<in> set (take ?m ?L). \<forall>k' \<in> set (drop ?m ?L). k < k'"
    using L(2) by (metis append_take_drop_id sorted_wrt_append)
  then have keep: "K - R = set (drop ?m ?L)" using split R by auto
  have "card (set (drop ?m ?L)) = length (drop ?m ?L)"
    using L(2) strict_sorted_iff by (intro distinct_card distinct_drop) auto
  then have "card (K - R) = nat n" using keep L(3) True by simp
  then show ?thesis using True lt R keep split by auto
next
  case False
  then show ?thesis using assms by (simp add: R_def trimmed_def)
qed



end
