(* ===== verification/Document_Reads.thy ===== *)
theory Document_Reads
  imports Document_Store
begin

section \<open>What readers see\<close>

text \<open>
  The read side of the document operations: a read after a write, a read after a delete, the
  gRPC read with its cache against the read of the store, and two places where the write path
  leaves something behind: names that differ in case only, and the order in which two writers
  reach the binlog.
\<close>

subsection \<open>Reads of the store\<close>

lemma lookup_doc_contents:
  assumes "bolt_laws B cont"
  shows "lookup_doc B coll key lang tx =
     (case cont tx ''bykey'' (ByKeyKey coll key lang) of None \<Rightarrow> None | Some i \<Rightarrow> cont tx ''docs'' (DocKey coll i))"
  by (simp add: lookup_doc_def bolt_laws.get_law [OF assms] split: option.split)

text \<open>What a successful write leaves in the buckets.\<close>

lemma addDocument_contents:
  assumes B: "bolt_laws (e_bolt E) cont"
    and add: "addDocument E ck coll key lang m contentMD ttl sr s = (s', Inr (saved, isNew))"
  obtains buf where "e_marshal E saved coll = Ok buf" "ID saved = genID [coll, key, lang]" "ContentMD saved = contentMD"
    "DKey saved = key" "Meta saved = m"
    "\<And>k. cont (sv_db s') ''docs'' k = (if k = DocKey coll (genID [coll, key, lang]) then Some buf else cont (sv_db s) ''docs'' k)"
    "\<And>k. cont (sv_db s') ''bykey'' k = (if k = ByKeyKey coll key lang then Some (genID [coll, key, lang]) else cont (sv_db s) ''bykey'' k)"
    "sv_cache s' = sv_cache (refresh_cache ck (BuildCacheKey coll key lang) buf s)"
    "sv_lfcache s' = sv_lfcache (refresh_cache ck (BuildCacheKey coll key lang) buf s)"
    "sv_extreme s' = sv_extreme s"
proof -
  obtain tx' buf bo where a: "add_txn E (ck_now ck) coll key lang m contentMD ttl sr (sv_db s) = Inr (tx', (saved, isNew, buf, bo))"
    and c: "cont (sv_db s') = cont tx'" and rest: "sv_cache s' = sv_cache (refresh_cache ck (BuildCacheKey coll key lang) buf s)"
    "sv_lfcache s' = sv_lfcache (refresh_cache ck (BuildCacheKey coll key lang) buf s)" "sv_extreme s' = sv_extreme s"
    using addDocument_Inr [OF B add] by metis
  obtain existing where doc: "saved = new_doc (ck_now ck) coll key lang m contentMD ttl existing"
    and buf: "e_marshal E saved coll = Ok buf"
    and bo: "bo = add_ops (e_maxRevisions E coll) (ck_now ck) coll key lang existing saved buf sr (cont (sv_db s))"
    and c': "cont tx' = replay bo (cont (sv_db s))"
    using add_txn_runs [OF B a] by metis
  have f: "ID saved = genID [coll, key, lang]" "ContentMD saved = contentMD" "DKey saved = key" "Meta saved = m"
    by (simp_all add: doc new_doc_def)
  note C = add_contents [of "e_maxRevisions E coll" "ck_now ck" coll key lang existing saved buf sr "cont (sv_db s)",
      folded bo, folded c', unfolded f(1)]
  show ?thesis
    by (rule that [OF buf f(1,2,3,4) _ _ rest]) (simp_all only: c C)
qed

lemma deleteDocument_contents:
  assumes B: "bolt_laws (e_bolt E) cont"
    and del: "deleteDocumentInternal E ck coll key lang s = (s', None)"
  obtains v doc tx1 where "cont (sv_db s) ''docs'' (DocKey coll (genID [coll, key, lang])) = Some v" "e_load E v = Ok doc"
    "cont tx1 ''rev'' = cont (sv_db s) ''rev''"
    "\<And>k. cont (sv_db s') ''docs'' k = (if k = DocKey coll (genID [coll, key, lang]) then None else cont (sv_db s) ''docs'' k)"
    "\<And>k. cont (sv_db s') ''bykey'' k = (if k = ByKeyKey coll key lang then None else cont (sv_db s) ''bykey'' k)"
    "\<And>k. cont (sv_db s') ''idxmeta'' k = (if k \<in> set (meta_keys coll (Meta doc) (genID [coll, key, lang])) then None else cont (sv_db s) ''idxmeta'' k)"
    "\<And>k. cont (sv_db s') ''rev'' k = (if k \<in> set (bk_walk (e_bolt E) ''rev'' (RevPrefix coll (genID [coll, key, lang])) tx1) then None
       else cont (sv_db s) ''rev'' k)"
proof -
  obtain tx' doc bo where d: "delete_txn E coll key lang (sv_db s) = Inr (tx', (doc, bo))"
    and c: "cont (sv_db s') = cont tx'" using deleteDocumentInternal_None [OF B del] by metis
  obtain v tx1 where v: "cont (sv_db s) ''docs'' (DocKey coll (genID [coll, key, lang])) = Some v" "e_load E v = Ok doc"
    and bo: "bo = delete_ops coll key lang (bk_walk (e_bolt E) ''rev'' (RevPrefix coll (genID [coll, key, lang])) tx1) doc"
    and t: "cont tx1 ''rev'' = cont (sv_db s) ''rev''" and c': "cont tx' = replay bo (cont (sv_db s))"
    using delete_txn_runs [OF B d] by metis
  note C = delete_contents [of coll key lang "bk_walk (e_bolt E) ''rev'' (RevPrefix coll (genID [coll, key, lang])) tx1" doc "cont (sv_db s)",
      folded bo, folded c']
  show ?thesis by (rule that [OF v t]) (simp_all only: c C)
qed



text \<open>C17: A delete that succeeds removes the document, its key entry and its index entries, and of
  its revisions exactly those the deleting cursor visits; a later \<open>handleGet\<close> finds nothing, and
  every entry of the docs bucket under another key is untouched.\<close>

theorem delete_then_get:
  assumes "bolt_laws (e_bolt E) cont"
    and "deleteDocumentInternal E ck coll key lang s = (s', None)" and "coll \<noteq> []" "key \<noteq> []" "lang \<noteq> []"
  shows "handleGet E t coll key lang s' = Inl GetNotFound \<and>
     (\<exists>doc tx1 v. cont (sv_db s) ''docs'' (DocKey coll (genID [coll, key, lang])) = Some v \<and> e_load E v = Ok doc \<and>
        cont tx1 ''rev'' = cont (sv_db s) ''rev'' \<and>
        (\<forall>k. cont (sv_db s') ''docs'' k = (if k = DocKey coll (genID [coll, key, lang]) then None else cont (sv_db s) ''docs'' k)) \<and>
        (\<forall>k \<in> set (meta_keys coll (Meta doc) (genID [coll, key, lang])). cont (sv_db s') ''idxmeta'' k = None) \<and>
        (\<forall>k. cont (sv_db s') ''rev'' k =
          (if k \<in> set (bk_walk (e_bolt E) ''rev'' (RevPrefix coll (genID [coll, key, lang])) tx1) then None
           else cont (sv_db s) ''rev'' k)))"
proof -
  obtain v doc tx1 where C: "cont (sv_db s) ''docs'' (DocKey coll (genID [coll, key, lang])) = Some v" "e_load E v = Ok doc"
    "cont tx1 ''rev'' = cont (sv_db s) ''rev''"
    "\<And>k. cont (sv_db s') ''docs'' k = (if k = DocKey coll (genID [coll, key, lang]) then None else cont (sv_db s) ''docs'' k)"
    "\<And>k. cont (sv_db s') ''bykey'' k = (if k = ByKeyKey coll key lang then None else cont (sv_db s) ''bykey'' k)"
    "\<And>k. cont (sv_db s') ''idxmeta'' k = (if k \<in> set (meta_keys coll (Meta doc) (genID [coll, key, lang])) then None else cont (sv_db s) ''idxmeta'' k)"
    "\<And>k. cont (sv_db s') ''rev'' k = (if k \<in> set (bk_walk (e_bolt E) ''rev'' (RevPrefix coll (genID [coll, key, lang])) tx1) then None
           else cont (sv_db s) ''rev'' k)"
    by (rule deleteDocument_contents [OF assms(1,2)]) (rule that)
  have "lookup_doc (e_bolt E) coll key lang (sv_db s') = None"
    unfolding lookup_doc_contents [OF assms(1)] C(5) by simp
  then have "handleGet E t coll key lang s' = Inl GetNotFound" using assms(3-5) by (simp add: handleGet_def)
  moreover have "\<forall>k \<in> set (meta_keys coll (Meta doc) (genID [coll, key, lang])). cont (sv_db s') ''idxmeta'' k = None"
    by (simp add: C(6) del: genID.simps)
  ultimately show ?thesis
    by (intro conjI exI [of _ doc] exI [of _ tx1] exI [of _ v] allI) (simp_all only: C)
qed

theorem delete_then_get_witness:
  "\<exists>s' :: (mem_db, unit) server. handleGet (ref_env None) 100 ''c'' ''k'' ''en'' s' = Inl GetNotFound"
proof -
  let ?db = "[(''docs'', [(''doc|c|c|k|en'', ''B'')])]"
  let ?d = "deleteDocumentInternal (ref_env None) (ref_clock 5) ''c'' ''k'' ''en'' (ref_server None ?db)"
  have "snd ?d = None"
    by (simp add: deleteDocumentInternal_def delete_txn_def ref_eval key_defs del_log_def mem_keys_def meta_keys_def
        delete_effects_def Let_def)
  then obtain s' where "?d = (s', None)" by (metis prod.collapse)
  from delete_then_get [OF ref_laws this, of 100] show ?thesis by auto
qed

subsection \<open>The gRPC read and its cache\<close>

text \<open>Names for which the cache key and the document id agree.\<close>

definition plain :: "bytes \<Rightarrow> bool" where
  "plain x \<longleftrightarrow> nosep x \<and> map lower_byte x = x"

lemma BuildCacheKey_plain:
  "plain coll \<Longrightarrow> plain key \<Longrightarrow> plain lang \<Longrightarrow> BuildCacheKey coll key lang = genID [coll, key, lang]"
  by (simp add: BuildCacheKey_def plain_def)

lemma BuildCacheKey_inject:
  "nosep c \<Longrightarrow> nosep c' \<Longrightarrow> nosep k \<Longrightarrow> nosep k' \<Longrightarrow>
   BuildCacheKey c k l = BuildCacheKey c' k' l' \<longleftrightarrow> c = c' \<and> k = k' \<and> l = l'"
  by (auto simp: BuildCacheKey_def dest: append_sep_inject)

text \<open>What the cache the server reads from answers at time \<open>t\<close>.\<close>

definition cache_lookup :: "int \<Rightarrow> bytes \<Rightarrow> ('tx, 'p) server \<Rightarrow> bytes option" where
  "cache_lookup t k s =
     (if sv_extreme s then Option.bind (sv_lfcache s) (\<lambda>c. lf_lookup t c k)
      else Option.bind (sv_cache s) (\<lambda>c. dc_lookup t c k))"

definition caches_inv :: "('tx, 'p) server \<Rightarrow> bool" where
  "caches_inv s \<longleftrightarrow> (\<forall>c. sv_cache s = Some c \<longrightarrow> dc_inv c) \<and> (\<forall>c. sv_lfcache s = Some c \<longrightarrow> lf_inv c)"

text \<open>The store as readers see it: the document bytes under a name.\<close>

definition reads_ok :: "('tx \<Rightarrow> contents) \<Rightarrow> ('tx, 'p) server \<Rightarrow> bool" where
  "reads_ok cont s \<longleftrightarrow> caches_inv s \<and>
     (\<forall>coll key lang t d. plain coll \<and> plain key \<and> plain lang \<and> cache_lookup t (BuildCacheKey coll key lang) s = Some d \<longrightarrow>
        cont (sv_db s) ''docs'' (DocKey coll (genID [coll, key, lang])) = Some d \<and>
        cont (sv_db s) ''bykey'' (ByKeyKey coll key lang) = Some (genID [coll, key, lang]))"

text \<open>A read that looks at the store only.\<close>

definition uncached_Get :: "('tx, 'p) env \<Rightarrow> bytes \<Rightarrow> bytes \<Rightarrow> bytes \<Rightarrow> ('tx, 'p) server \<Rightarrow> get_error + Doc" where
  "uncached_Get E coll key lang s =
     (if coll = [] \<or> key = [] \<or> lang = [] then Inl GetMissing
      else case lookup_doc (e_bolt E) coll key lang (sv_db s) of None \<Rightarrow> Inl GetNotFound
      | Some v \<Rightarrow> (case e_unmarshal E v of Err err \<Rightarrow> Inl (GetInternal err) | Panic \<Rightarrow> Inl GetPanic | Ok doc \<Rightarrow> Inr doc))"

lemma refresh_cache_lookup:
  assumes "caches_inv s"
  shows "caches_inv (refresh_cache ck k buf s)"
    and "cache_lookup t k' (refresh_cache ck k buf s) = Some d \<Longrightarrow>
      (k' = k \<and> d = buf) \<or> (k' \<noteq> k \<and> cache_lookup t k' s = Some d)"
proof -
  show "caches_inv (refresh_cache ck k buf s)"
    using assms dc.inv_store lf.inv_store by (auto simp: caches_inv_def refresh_cache_def)
  assume a: "cache_lookup t k' (refresh_cache ck k buf s) = Some d"
  show "(k' = k \<and> d = buf) \<or> (k' \<noteq> k \<and> cache_lookup t k' s = Some d)"
  proof (cases "sv_extreme s")
    case True
    with a obtain c where c: "sv_lfcache s = Some c" by (cases "sv_lfcache s") (auto simp: cache_lookup_def refresh_cache_def)
    with True a have "lf_lookup t (lf_Set (ck_cache ck) (ck_evict ck) k buf c) k' = Some d"
      by (simp add: cache_lookup_def refresh_cache_def)
    moreover have "lf_inv c" using assms c by (simp add: caches_inv_def)
    ultimately show ?thesis using True c lf.lookup_store_data lf.lookup_store_other
      by (simp add: cache_lookup_def) (metis option.distinct(1) option.inject)
  next
    case False
    with a obtain c where c: "sv_cache s = Some c" by (cases "sv_cache s") (auto simp: cache_lookup_def refresh_cache_def)
    with False a have "dc_lookup t (dc_Set (ck_cache ck) (ck_evict ck) k buf c) k' = Some d"
      by (simp add: cache_lookup_def refresh_cache_def)
    moreover have "dc_inv c" using assms c by (simp add: caches_inv_def)
    ultimately show ?thesis using False c dc.lookup_store_data dc.lookup_store_other
      by (simp add: cache_lookup_def) (metis option.distinct(1) option.inject)
  qed
qed

lemma cache_lookup_cong:
  "sv_cache s' = sv_cache s \<Longrightarrow> sv_lfcache s' = sv_lfcache s \<Longrightarrow> sv_extreme s' = sv_extreme s \<Longrightarrow>
   cache_lookup t k s' = cache_lookup t k s \<and> caches_inv s' = caches_inv s"
  by (simp add: cache_lookup_def caches_inv_def)

lemma reads_ok_add:
  assumes B: "bolt_laws (e_bolt E) cont" and ok: "reads_ok cont s"
    and p: "plain coll" "plain key" "plain lang"
    and add: "addDocument E ck coll key lang m contentMD ttl sr s = (s', Inr (saved, isNew))"
  shows "reads_ok cont s'"
proof -
  obtain buf where C:
    "\<And>k. cont (sv_db s') ''docs'' k = (if k = DocKey coll (genID [coll, key, lang]) then Some buf else cont (sv_db s) ''docs'' k)"
    "\<And>k. cont (sv_db s') ''bykey'' k = (if k = ByKeyKey coll key lang then Some (genID [coll, key, lang]) else cont (sv_db s) ''bykey'' k)"
    and cs: "sv_cache s' = sv_cache (refresh_cache ck (BuildCacheKey coll key lang) buf s)"
    "sv_lfcache s' = sv_lfcache (refresh_cache ck (BuildCacheKey coll key lang) buf s)" "sv_extreme s' = sv_extreme s"
    using addDocument_contents [OF B add] by metis
  have inv: "caches_inv s" using ok by (simp add: reads_ok_def)
  have "sv_extreme (refresh_cache ck (BuildCacheKey coll key lang) buf s) = sv_extreme s" by (simp add: refresh_cache_def)
  note same = cache_lookup_cong [OF cs(1,2), unfolded this, OF cs(3)]
  have "cont (sv_db s') ''docs'' (DocKey coll' (genID [coll', key', lang'])) = Some d \<and>
        cont (sv_db s') ''bykey'' (ByKeyKey coll' key' lang') = Some (genID [coll', key', lang'])"
    if h: "plain coll'" "plain key'" "plain lang'" "cache_lookup t (BuildCacheKey coll' key' lang') s' = Some d"
    for coll' key' lang' t d
  proof (cases "BuildCacheKey coll' key' lang' = BuildCacheKey coll key lang")
    case True
    then have "coll' = coll" "key' = key" "lang' = lang"
      using BuildCacheKey_inject [of coll' coll key' key] h p by (auto simp: plain_def)
    moreover have "d = buf" using refresh_cache_lookup(2) [OF inv] h(4) True same by metis
    ultimately show ?thesis by (simp add: C del: genID.simps)
  next
    case False
    then have "cache_lookup t (BuildCacheKey coll' key' lang') s = Some d"
      using refresh_cache_lookup(2) [OF inv] h(4) same by metis
    with ok h have old: "cont (sv_db s) ''docs'' (DocKey coll' (genID [coll', key', lang'])) = Some d"
      "cont (sv_db s) ''bykey'' (ByKeyKey coll' key' lang') = Some (genID [coll', key', lang'])"
      unfolding reads_ok_def by blast+
    have "genID [coll', key', lang'] \<noteq> genID [coll, key, lang]"
      using False h p by (metis BuildCacheKey_plain)
    then have "DocKey coll' (genID [coll', key', lang']) \<noteq> DocKey coll (genID [coll, key, lang])"
      using DocKey_inject [of coll' coll] h(1) p(1) by (simp add: plain_def del: genID.simps)
    moreover have "ByKeyKey coll' key' lang' \<noteq> ByKeyKey coll key lang"
      using False ByKeyKey_inject [of coll' coll key' key lang' lang] h p by (auto simp: plain_def)
    ultimately show ?thesis using old by (simp add: C del: genID.simps)
  qed
  moreover have "caches_inv s'" using refresh_cache_lookup(1) [OF inv] same by metis
  ultimately show ?thesis unfolding reads_ok_def by blast
qed

lemma reads_ok_delete:
  assumes B: "bolt_laws (e_bolt E) cont" and ok: "reads_ok cont s"
    and p: "plain coll" "plain key" "plain lang"
    and del: "deleteDocumentInternal E ck coll key lang s = (s', None)"
  shows "reads_ok cont s'"
proof -
  let ?k = "BuildCacheKey coll key lang"
  have C: "cont (sv_db s') ''docs'' k = (if k = DocKey coll (genID [coll, key, lang]) then None else cont (sv_db s) ''docs'' k)"
    "cont (sv_db s') ''bykey'' k = (if k = ByKeyKey coll key lang then None else cont (sv_db s) ''bykey'' k)" for k
    by (rule deleteDocument_contents [OF B del], simp only:)+
  have cs: "sv_cache s' = map_option (dc_Delete ?k) (sv_cache s)"
    "sv_lfcache s' = map_option (lf_Delete ?k) (sv_lfcache s)" "sv_extreme s' = sv_extreme s"
    by (rule deleteDocumentInternal_None [OF B del], assumption)+
  have inv: "caches_inv s" using ok by (simp add: reads_ok_def)
  have inv': "caches_inv s'"
    using inv dc.inv_remove lf.inv_remove by (auto simp: caches_inv_def cs)
  have look: "cache_lookup t k s' = (if k = ?k then None else cache_lookup t k s)" for t k
    using inv dc.lookup_remove lf.lookup_remove
    by (cases "sv_cache s"; cases "sv_lfcache s") (auto simp: cache_lookup_def cs caches_inv_def)
  have "cont (sv_db s') ''docs'' (DocKey coll' (genID [coll', key', lang'])) = Some d \<and>
        cont (sv_db s') ''bykey'' (ByKeyKey coll' key' lang') = Some (genID [coll', key', lang'])"
    if h: "plain coll'" "plain key'" "plain lang'" "cache_lookup t (BuildCacheKey coll' key' lang') s' = Some d"
    for coll' key' lang' t d
  proof -
    from h(4) look have ne: "BuildCacheKey coll' key' lang' \<noteq> ?k"
      and l: "cache_lookup t (BuildCacheKey coll' key' lang') s = Some d" by (auto split: if_splits)
    with ok h have old: "cont (sv_db s) ''docs'' (DocKey coll' (genID [coll', key', lang'])) = Some d"
      "cont (sv_db s) ''bykey'' (ByKeyKey coll' key' lang') = Some (genID [coll', key', lang'])"
      unfolding reads_ok_def by blast+
    have "genID [coll', key', lang'] \<noteq> genID [coll, key, lang]"
      using ne h p by (metis BuildCacheKey_plain)
    then have "DocKey coll' (genID [coll', key', lang']) \<noteq> DocKey coll (genID [coll, key, lang])"
      using DocKey_inject [of coll' coll] h(1) p(1) by (simp add: plain_def del: genID.simps)
    moreover have "ByKeyKey coll' key' lang' \<noteq> ByKeyKey coll key lang"
      using ne ByKeyKey_inject [of coll' coll key' key lang' lang] h p by (auto simp: plain_def)
    ultimately show ?thesis using old by (simp add: C del: genID.simps)
  qed
  with inv' show ?thesis unfolding reads_ok_def by blast
qed

lemma live_dc_Get: "dc_cache (fst (dc_Get now k c)) = dc_cache c"
  by (simp add: dc_Get_def split: option.split)

lemma live_lf_Get: "lf_shards (fst (lf_Get now k c)) = lf_shards c" "lf_maxSize (fst (lf_Get now k c)) = lf_maxSize c"
  "lf_shardMask (fst (lf_Get now k c)) = lf_shardMask c"
  by (simp_all add: lf_Get_def split: option.split)

lemma getShard_cong: "lf_shardMask c = lf_shardMask c' \<Longrightarrow> getShard k c = getShard k c'"
  by (simp add: getShard_def)

lemma cache_get_spec:
  assumes "caches_inv s" and "cache_get ck k s = Some (s1, r)"
  shows "r = cache_lookup (ck_now ck) k s" "cache_lookup t k' s1 = cache_lookup t k' s" "caches_inv s1" "sv_db s1 = sv_db s"
    "sv_extreme s1 = sv_extreme s"
proof -
  have *: "r = cache_lookup (ck_now ck) k s \<and> cache_lookup t k' s1 = cache_lookup t k' s \<and> caches_inv s1 \<and>
      sv_db s1 = sv_db s \<and> sv_extreme s1 = sv_extreme s"
  proof (cases "sv_extreme s")
    case True
    with assms(2) obtain c where c: "sv_lfcache s = Some c" by (cases "sv_lfcache s") (auto simp: cache_get_def)
    with True assms(2) have r: "r = snd (lf_Get (ck_now ck) k c)" and s1: "s1 = s\<lparr>sv_lfcache := Some (fst (lf_Get (ck_now ck) k c))\<rparr>"
      by (auto simp: cache_get_def case_prod_beta)
    have "lf_inv c" using assms(1) c by (simp add: caches_inv_def)
    then have "lf_inv (fst (lf_Get (ck_now ck) k c))" by (simp add: lf_inv_def live_lf_Get)
    moreover have "lf_lookup t (fst (lf_Get (ck_now ck) k c)) k' = lf_lookup t c k'"
      using getShard_cong [OF live_lf_Get(3)] by (simp add: lf_lookup_live live_lf_Get)
    ultimately show ?thesis
      using assms(1) True c by (simp add: r s1 cache_lookup_def caches_inv_def lf_lookup_def)
  next
    case False
    with assms(2) obtain c where c: "sv_cache s = Some c" by (cases "sv_cache s") (auto simp: cache_get_def)
    with False assms(2) have r: "r = snd (dc_Get (ck_now ck) k c)" and s1: "s1 = s\<lparr>sv_cache := Some (fst (dc_Get (ck_now ck) k c))\<rparr>"
      by (auto simp: cache_get_def case_prod_beta)
    have "dc_inv c" using assms(1) c by (simp add: caches_inv_def)
    then have "dc_inv (fst (dc_Get (ck_now ck) k c))" by (rule dc_inv_other)
    moreover have "dc_lookup t (fst (dc_Get (ck_now ck) k c)) k' = dc_lookup t c k'"
      by (simp add: dc_lookup_live live_dc_Get)
    ultimately show ?thesis
      using assms(1) False c by (simp add: r s1 cache_lookup_def caches_inv_def dc_lookup_def)
  qed
  then show "r = cache_lookup (ck_now ck) k s" "cache_lookup t k' s1 = cache_lookup t k' s" "caches_inv s1" "sv_db s1 = sv_db s"
    "sv_extreme s1 = sv_extreme s" by simp_all
qed

lemma cache_fill_refresh: "cache_lookup t k' (cache_fill ck k d s) = cache_lookup t k' (refresh_cache ck k d s) \<and>
    (caches_inv (refresh_cache ck k d s) \<longrightarrow> caches_inv s \<longrightarrow> caches_inv (cache_fill ck k d s)) \<and> sv_db (cache_fill ck k d s) = sv_db s"
  by (cases "sv_lfcache s") (auto simp: cache_fill_def refresh_cache_def cache_lookup_def caches_inv_def)

lemma reads_ok_cong:
  "reads_ok cont s \<Longrightarrow> caches_inv s' \<Longrightarrow> sv_db s' = sv_db s \<Longrightarrow> (\<And>t k. cache_lookup t k s' = cache_lookup t k s) \<Longrightarrow> reads_ok cont s'"
  unfolding reads_ok_def by metis

lemma reads_ok_fill:
  assumes "reads_ok cont s" and p: "plain coll" "plain key" "plain lang"
    and d: "cont (sv_db s) ''docs'' (DocKey coll (genID [coll, key, lang])) = Some d"
    and i: "cont (sv_db s) ''bykey'' (ByKeyKey coll key lang) = Some (genID [coll, key, lang])"
  shows "reads_ok cont (cache_fill ck (BuildCacheKey coll key lang) d s)"
proof -
  let ?s' = "cache_fill ck (BuildCacheKey coll key lang) d s"
  have inv: "caches_inv s" using assms(1) by (simp add: reads_ok_def)
  note F = cache_fill_refresh [of _ _ ck "BuildCacheKey coll key lang" d s]
  have "caches_inv ?s'" "sv_db ?s' = sv_db s" using F refresh_cache_lookup(1) [OF inv] inv by blast+
  moreover have "cont (sv_db s) ''docs'' (DocKey coll' (genID [coll', key', lang'])) = Some d' \<and>
        cont (sv_db s) ''bykey'' (ByKeyKey coll' key' lang') = Some (genID [coll', key', lang'])"
    if h: "plain coll'" "plain key'" "plain lang'" "cache_lookup t (BuildCacheKey coll' key' lang') ?s' = Some d'"
    for coll' key' lang' t d'
  proof (cases "BuildCacheKey coll' key' lang' = BuildCacheKey coll key lang")
    case True
    then have "coll' = coll" "key' = key" "lang' = lang"
      using BuildCacheKey_inject [of coll' coll key' key] h p by (auto simp: plain_def)
    moreover have "d' = d" using refresh_cache_lookup(2) [OF inv] h(4) F True by metis
    ultimately show ?thesis using d i by blast
  next
    case False
    then have "cache_lookup t (BuildCacheKey coll' key' lang') s = Some d'"
      using refresh_cache_lookup(2) [OF inv] h(4) F by metis
    with assms(1) h show ?thesis unfolding reads_ok_def by blast
  qed
  ultimately show ?thesis unfolding reads_ok_def by metis
qed

text \<open>Key entries of plain names point at the document of that name.\<close>

definition bykey_ok :: "('tx \<Rightarrow> contents) \<Rightarrow> 'tx \<Rightarrow> bool" where
  "bykey_ok cont tx \<longleftrightarrow> (\<forall>coll key lang i. plain coll \<and> plain key \<and> plain lang \<and>
     cont tx ''bykey'' (ByKeyKey coll key lang) = Some i \<longrightarrow> i = genID [coll, key, lang])"

lemma grpc_Get_reads:
  assumes B: "bolt_laws (e_bolt E) cont" and ok: "reads_ok cont s" and bk: "bykey_ok cont (sv_db s)"
    and p: "plain coll" "plain key" "plain lang"
    and c: "if sv_extreme s then sv_lfcache s \<noteq> None else sv_cache s \<noteq> None"
    and g: "grpc_Get E ck coll key lang s = (s', r)"
  shows "r = uncached_Get E coll key lang s \<and> reads_ok cont s' \<and> sv_db s' = sv_db s"
proof (cases "coll = [] \<or> key = [] \<or> lang = []")
  case True
  with g ok show ?thesis by (auto simp: grpc_Get_def uncached_Get_def)
next
  case False
  let ?k = "BuildCacheKey coll key lang" and ?l = "lookup_doc (e_bolt E) coll key lang (sv_db s)"
  have inv: "caches_inv s" using ok by (simp add: reads_ok_def)
  obtain s1 cached where s1: "cache_get ck ?k s = Some (s1, cached)"
    using c by (auto simp: cache_get_def case_prod_beta split: if_splits)
  note G = cache_get_spec [OF inv s1]
  have ok1: "reads_ok cont s1" using reads_ok_cong [OF ok G(3,4)] G(2) by blast
  have hit: "?l = Some d" if "cached = Some d" for d
  proof -
    have "cache_lookup (ck_now ck) ?k s = Some d" using that G(1) by simp
    with ok p show ?thesis unfolding lookup_doc_contents [OF B] reads_ok_def by (metis option.case(2))
  qed
  define fs where "fs = (case ?l of None \<Rightarrow> (s1, Inl GetNotFound)
       | Some v \<Rightarrow> (case e_unmarshal E v of Err err \<Rightarrow> (s1, Inl (GetInternal err)) | Panic \<Rightarrow> (s1, Inl GetPanic)
          | Ok doc \<Rightarrow> (cache_fill ck ?k v s1, Inr doc)))"
  have fs: "snd fs = uncached_Get E coll key lang s \<and> reads_ok cont (fst fs) \<and> sv_db (fst fs) = sv_db s"
  proof (cases ?l)
    case None
    with False ok1 G(4) show ?thesis by (auto simp: fs_def uncached_Get_def)
  next
    case (Some v)
    then have "cont (sv_db s) ''bykey'' (ByKeyKey coll key lang) = Some (genID [coll, key, lang])"
      "cont (sv_db s) ''docs'' (DocKey coll (genID [coll, key, lang])) = Some v"
      using bk p unfolding lookup_doc_contents [OF B] bykey_ok_def by (auto split: option.splits simp del: genID.simps)
    then have "reads_ok cont (cache_fill ck ?k v s1)" using reads_ok_fill [OF ok1 p] G(4) by simp
    moreover have "sv_db (cache_fill ck ?k v s1) = sv_db s" using cache_fill_refresh G(4) by metis
    ultimately show ?thesis using Some False ok1 G(4) by (auto simp: fs_def uncached_Get_def split: outcome.split)
  qed
  have out: "(s', r) = (case cached of None \<Rightarrow> fs | Some d \<Rightarrow>
      (case e_unmarshal E d of Ok doc \<Rightarrow> (s1, Inr doc) | Panic \<Rightarrow> (s1, Inl GetPanic) | Err _ \<Rightarrow> fs))"
    using g False unfolding grpc_Get_def s1 fs_def option.case prod.case Let_def G(4) by simp
  show ?thesis
  proof (cases cached)
    case None
    with out fs show ?thesis by (metis fst_conv snd_conv option.case(1))
  next
    case (Some d)
    note h = hit [OF Some]
    show ?thesis
    proof (cases "e_unmarshal E d")
      case (Err err)
      with out fs Some show ?thesis by (metis fst_conv snd_conv option.case(2) outcome.case(2))
    qed (use out Some h False ok1 G(4) in \<open>auto simp: uncached_Get_def\<close>)
  qed
qed

lemma bykey_ok_add:
  assumes "bolt_laws (e_bolt E) cont" and "bykey_ok cont (sv_db s)" and p: "plain coll" "plain key" "plain lang"
    and "addDocument E ck coll key lang m contentMD ttl sr s = (s', Inr (saved, isNew))"
  shows "bykey_ok cont (sv_db s')"
proof -
  have C: "cont (sv_db s') ''bykey'' k = (if k = ByKeyKey coll key lang then Some (genID [coll, key, lang]) else cont (sv_db s) ''bykey'' k)" for k
    by (rule addDocument_contents [OF assms(1,6)], simp only:)
  have "i = genID [coll', key', lang']"
    if h: "plain coll'" "plain key'" "plain lang'" "cont (sv_db s') ''bykey'' (ByKeyKey coll' key' lang') = Some i" for coll' key' lang' i
  proof (cases "ByKeyKey coll' key' lang' = ByKeyKey coll key lang")
    case True
    then have "coll' = coll \<and> key' = key \<and> lang' = lang"
      using ByKeyKey_inject [of coll' coll key' key lang' lang] h p by (simp add: plain_def)
    with h(4) show ?thesis by (simp add: C del: genID.simps)
  next
    case False
    with assms(2) h show ?thesis unfolding C bykey_ok_def by (simp del: genID.simps)
  qed
  then show ?thesis unfolding bykey_ok_def by blast
qed


lemma reads_ok_ref: "reads_ok mem_contents (ref_server None [])" "bykey_ok mem_contents (sv_db (ref_server None []))"
proof -
  have "dc_lookup t (NewDocumentCache 10 60) k = None" for t k
    by (simp add: dc_lookup_live live_def NewDocumentCache_def)
  moreover have "dc_inv (NewDocumentCache 10 60)" by (rule dc_inv_other)
  ultimately show "reads_ok mem_contents (ref_server None [])"
    by (simp add: reads_ok_def caches_inv_def cache_lookup_def ref_server_def)
  show "bykey_ok mem_contents (sv_db (ref_server None []))"
    by (simp add: bykey_ok_def ref_server_def mem_contents_def mem_bucket_def)
qed


subsection \<open>Names that differ in case only\<close>

text \<open>A second configuration, with one document written under \<^verbatim>\<open>K\<close> and then again
  under \<^verbatim>\<open>k\<close>.\<close>

definition upper_doc :: Doc where "upper_doc = ref_doc\<lparr>DKey := ''K''\<rparr>"

definition lower_doc :: Doc where "lower_doc = ref_doc\<lparr>UpdatedAt := 9\<rparr>"

definition case_env :: "(mem_db, unit) env" where
  "case_env = (ref_env None)\<lparr>
     e_marshal := (\<lambda>d coll. if d = upper_doc then Ok ''B'' else if d = lower_doc then Ok ''C'' else Err ProtoError),
     e_load := (\<lambda>b. if b = ''B'' then Ok upper_doc else if b = ''C'' then Ok lower_doc else Err ProtoError),
     e_unmarshal := (\<lambda>b. if b = ''B'' then Ok upper_doc else if b = ''C'' then Ok lower_doc else Err ProtoError)\<rparr>"

text \<open>Two names that differ in case only are one document but two cache entries: the second
  write replaces the document of the first in the store, and the gRPC read keeps serving the
  first one's old bytes from the cache until they expire.\<close>

theorem case_variant_stale:
  assumes "bolt_laws (e_bolt E) cont" and "doc_codec (e_marshal E) (e_load E) (e_unmarshal E)"
    and "addDocument E ck1 coll key1 lang m1 c1 ttl1 sr1 s = (s1, Inr (saved1, new1))"
    and "addDocument E ck2 coll key2 lang m2 c2 ttl2 sr2 s1 = (s2, Inr (saved2, new2))"
    and "map lower_byte key1 = map lower_byte key2" and "key1 \<noteq> key2"
    and "\<not> sv_extreme s" and "sv_cache s = Some c" and "dc_inv c" and "int (length (dc_cache c)) + 1 < dc_maxSize c"
    and "ck_now ck3 \<le> dc_expiry (ck_cache ck1) c" and "ExpiresAt saved2 = 0"
  shows "snd (grpc_Get E ck3 coll key1 lang s2) = Inr saved1 \<and> DKey saved1 = key1 \<and>
     handleGet E (ck_now ck3) coll key1 lang s2 = Inr saved2 \<and> DKey saved2 = key2"
proof -
  let ?k1 = "BuildCacheKey coll key1 lang" and ?k2 = "BuildCacheKey coll key2 lang" and ?i = "genID [coll, key2, lang]"
  have ne: "coll \<noteq> []" "key1 \<noteq> []" "lang \<noteq> []" using addDocument_Inr [OF assms(1,3)] by metis+
  have i: "genID [coll, key1, lang] = ?i" using assms(5) by simp
  obtain buf1 where C1: "e_marshal E saved1 coll = Ok buf1" "DKey saved1 = key1"
    "\<And>k. cont (sv_db s1) ''bykey'' k = (if k = ByKeyKey coll key1 lang then Some ?i else cont (sv_db s) ''bykey'' k)"
    "sv_cache s1 = sv_cache (refresh_cache ck1 ?k1 buf1 s)" "sv_extreme s1 = sv_extreme s"
    using addDocument_contents [OF assms(1,3)] unfolding i by metis
  obtain buf2 where C2: "e_marshal E saved2 coll = Ok buf2" "DKey saved2 = key2"
    "\<And>k. cont (sv_db s2) ''docs'' k = (if k = DocKey coll ?i then Some buf2 else cont (sv_db s1) ''docs'' k)"
    "\<And>k. cont (sv_db s2) ''bykey'' k = (if k = ByKeyKey coll key2 lang then Some ?i else cont (sv_db s1) ''bykey'' k)"
    "sv_cache s2 = sv_cache (refresh_cache ck2 ?k2 buf2 s1)" "sv_extreme s2 = sv_extreme s1"
    using addDocument_contents [OF assms(1,4)] by metis
  have "lookup_doc (e_bolt E) coll key1 lang (sv_db s2) = Some buf2"
    unfolding lookup_doc_contents [OF assms(1)] C2(3,4) C1(3) by simp
  then have get: "handleGet E (ck_now ck3) coll key1 lang s2 = Inr saved2"
    using ne assms(12) doc_codec.load_marshal [OF assms(2) C2(1)] by (simp add: handleGet_def)
  let ?c1 = "dc_Set (ck_cache ck1) (ck_evict ck1) ?k1 buf1 c"
  have s1: "sv_cache s1 = Some ?c1" using C1(4) assms(7,8) by (simp add: refresh_cache_def)
  have s2: "sv_cache s2 = Some (dc_Set (ck_cache ck2) (ck_evict ck2) ?k2 buf2 ?c1)"
    using C2(5) C1(5) s1 assms(7) by (simp add: refresh_cache_def)
  have "int (length (AList.update ?k1 v (dc_cache c))) < dc_maxSize c" for v
    using assms(10) length_update_le [of ?k1 v "dc_cache c"] by linarith
  then have room: "\<not> dc_maxSize ?c1 \<le> int (length (dc_cache ?c1))"
    using assms(10) by (simp add: dc_Set_def Let_def not_le)
  have "?k1 \<noteq> ?k2" using assms(6) by (simp add: BuildCacheKey_def)
  then have "dc_lookup (ck_now ck3) (dc_Set (ck_cache ck2) (ck_evict ck2) ?k2 buf2 ?c1) ?k1 = dc_lookup (ck_now ck3) ?c1 ?k1"
    using room by (simp add: dc_lookup_live dc_Set_def [of "ck_cache ck2"] live_update Let_def)
  also have "\<dots> = Some buf1" by (rule dc.lookup_store [OF assms(9,11)])
  finally have hit: "snd (dc_Get (ck_now ck3) ?k1 (dc_Set (ck_cache ck2) (ck_evict ck2) ?k2 buf2 ?c1)) = Some buf1"
    by (simp add: dc_lookup_def)
  have ext: "\<not> sv_extreme s2" using C1(5) C2(6) assms(7) by simp
  have "snd (grpc_Get E ck3 coll key1 lang s2) = Inr saved1"
    using ne ext s2 hit doc_codec.unmarshal_marshal [OF assms(2) C1(1)]
    by (simp add: grpc_Get_def cache_get_def case_prod_beta Let_def)
  with get C1(2) C2(2) show ?thesis by blast
qed

lemma case_env: "doc_codec (e_marshal case_env) (e_load case_env) (e_unmarshal case_env)"
  by unfold_locales (auto simp: case_env_def upper_doc_def lower_doc_def ref_doc_def empty_doc_def split: if_splits)

lemma case_env_laws: "bolt_laws (e_bolt case_env) mem_contents"
  by (simp add: case_env_def ref_env_def mem.bolt_laws_axioms)

lemmas case_eval = ref_eval case_env_def upper_doc_def lower_doc_def key_defs length_fmt_020d Let_def

theorem case_variant_stale_witness:
  "\<exists>s2 :: (mem_db, unit) server. snd (grpc_Get case_env (ref_clock 20) ''c'' ''K'' ''en'' s2) = Inr upper_doc \<and>
     handleGet case_env 20 ''c'' ''K'' ''en'' s2 = Inr lower_doc"
proof -
  let ?a1 = "addDocument case_env (ref_clock 5) ''c'' ''K'' ''en'' [] [] 0 False (ref_server None [])"
  have low: "char_of (107 :: nat) = CHR ''k''" by code_simp
  have "snd ?a1 = Inr (upper_doc, True)" by (simp add: case_eval low)
  then obtain s1 where s1: "?a1 = (s1, Inr (upper_doc, True))" by (metis prod.collapse)
  let ?a2 = "addDocument case_env (ref_clock 9) ''c'' ''k'' ''en'' [] [] 0 False s1"
  have "snd ?a2 = Inr (lower_doc, False)" using s1 by (auto simp: case_eval low)
  then obtain s2 where s2: "?a2 = (s2, Inr (lower_doc, False))" by (metis prod.collapse)
  have "\<not> sv_extreme (ref_server None [])" "sv_cache (ref_server None []) = Some (NewDocumentCache 10 60)"
    "dc_inv (NewDocumentCache 10 60)" "int (length (dc_cache (NewDocumentCache 10 60))) + 1 < dc_maxSize (NewDocumentCache 10 60)"
    "ck_now (ref_clock 20) \<le> dc_expiry (ck_cache (ref_clock 5)) (NewDocumentCache 10 60)" "ExpiresAt lower_doc = 0"
    by (simp_all add: ref_server_def dc_inv_def NewDocumentCache_def dc_expiry_def ref_clock_def lower_doc_def ref_doc_def
        empty_doc_def wrap64_def)
  then show ?thesis
    using case_variant_stale [OF case_env_laws case_env s1 s2, of "NewDocumentCache 10 60" "ref_clock 20"]
    by (auto simp: low lower_byte_def ref_clock_def)
qed

text \<open>The binlog is written after the commit and outside the transaction, so the order of the
  log need not be the order of the commits: when two writers of one document flush in the other
  order, the store ends with the second document and a replay of the log with the first.\<close>

theorem flush_order_matters:
  assumes "bolt_laws (e_bolt E) cont" and "doc_codec (e_marshal E) (e_load E) (e_unmarshal E)"
    and "add_txn E now1 coll key lang m1 c1 ttl1 sr1 tx = Inr (tx1, (d1, new1, buf1, bo1))"
    and "add_txn E now2 coll key lang m2 c2 ttl2 sr2 tx1 = Inr (tx2, (d2, new2, buf2, bo2))"
    and "m1 \<noteq> m2"
  shows "cont tx2 = replay (bo1 @ bo2) (cont tx) \<and>
     cont tx2 ''docs'' (DocKey coll (genID [coll, key, lang])) = Some buf2 \<and>
     replay (bo2 @ bo1) (cont tx) ''docs'' (DocKey coll (genID [coll, key, lang])) = Some buf1 \<and>
     e_load E buf1 = Ok d1 \<and> e_load E buf2 = Ok d2 \<and> Meta d1 = m1 \<and> Meta d2 = m2 \<and> buf1 \<noteq> buf2"
proof -
  let ?k = "DocKey coll (genID [coll, key, lang])"
  obtain ex1 where 1: "d1 = new_doc now1 coll key lang m1 c1 ttl1 ex1" "e_marshal E d1 coll = Ok buf1"
    "bo1 = add_ops (e_maxRevisions E coll) now1 coll key lang ex1 d1 buf1 sr1 (cont tx)" "cont tx1 = replay bo1 (cont tx)"
    using add_txn_runs [OF assms(1,3)] by metis
  obtain ex2 where 2: "d2 = new_doc now2 coll key lang m2 c2 ttl2 ex2" "e_marshal E d2 coll = Ok buf2"
    "bo2 = add_ops (e_maxRevisions E coll) now2 coll key lang ex2 d2 buf2 sr2 (cont tx1)" "cont tx2 = replay bo2 (cont tx1)"
    using add_txn_runs [OF assms(1,4)] by metis
  have d: "ID d1 = genID [coll, key, lang]" "ID d2 = genID [coll, key, lang]" "Meta d1 = m1" "Meta d2 = m2"
    by (simp_all add: 1(1) 2(1) new_doc_def)
  have puts: "replay bo1 c ''docs'' ?k = Some buf1" "replay bo2 c ''docs'' ?k = Some buf2" for c
    by (simp_all add: 1(3) 2(3) add_ops_def replay_idx_ops rev_ops_def replay_dels Let_def d store_simps del: genID.simps)
  have load: "e_load E buf1 = Ok d1" "e_load E buf2 = Ok d2"
    using doc_codec.load_marshal [OF assms(2)] 1(2) 2(2) by blast+
  have "buf1 \<noteq> buf2" using load d assms(5) by auto
  then show ?thesis using puts load d 1(4) 2(4) by (simp del: genID.simps)
qed

theorem flush_order_matters_witness:
  "\<exists>buf1 buf2 bo1 bo2. buf1 \<noteq> buf2 \<and>
     replay (bo2 @ bo1) (mem_contents []) ''docs'' (DocKey ''c'' (genID [''c'', ''k'', ''en''])) = Some buf1"
proof -
  define E where "E = (ref_env None)\<lparr>
     e_marshal := (\<lambda>d coll. if d = ref_doc then Ok ''B'' else if d = lower_doc\<lparr>Meta := [(''a'', [])]\<rparr> then Ok ''C'' else Err ProtoError),
     e_load := (\<lambda>b. if b = ''B'' then Ok ref_doc else if b = ''C'' then Ok (lower_doc\<lparr>Meta := [(''a'', [])]\<rparr>) else Err ProtoError),
     e_unmarshal := (\<lambda>b. if b = ''B'' then Ok ref_doc else if b = ''C'' then Ok (lower_doc\<lparr>Meta := [(''a'', [])]\<rparr>) else Err ProtoError)\<rparr>"
  have laws: "bolt_laws (e_bolt E) mem_contents" "doc_codec (e_marshal E) (e_load E) (e_unmarshal E)"
    by (simp add: E_def ref_env_def mem.bolt_laws_axioms)
       (unfold_locales, auto simp: E_def lower_doc_def ref_doc_def split: if_splits)
  have "\<exists>tx1 buf1 bo1. add_txn E 5 ''c'' ''k'' ''en'' [] [] 0 False [] = Inr (tx1, (ref_doc, True, buf1, bo1)) \<and>
      (\<exists>tx2 buf2 bo2. add_txn E 9 ''c'' ''k'' ''en'' [(''a'', [])] [] 0 False tx1 =
         Inr (tx2, (lower_doc\<lparr>Meta := [(''a'', [])]\<rparr>, False, buf2, bo2)))"
    by (simp add: E_def case_eval meta_keys_def)
  then obtain tx1 buf1 bo1 tx2 buf2 bo2 where
    1: "add_txn E 5 ''c'' ''k'' ''en'' [] [] 0 False [] = Inr (tx1, (ref_doc, True, buf1, bo1))" and
    2: "add_txn E 9 ''c'' ''k'' ''en'' [(''a'', [])] [] 0 False tx1 =
         Inr (tx2, (lower_doc\<lparr>Meta := [(''a'', [])]\<rparr>, False, buf2, bo2))"
    by blast
  have "[] \<noteq> [(''a'', [] :: bytes list)]" by simp
  from flush_order_matters [OF laws 1 2 this] show ?thesis by blast
qed

end
