(* ===== verification/Embedding_Codec.thy ===== *)
theory Embedding_Codec
  imports Mddb_Prelude
begin

unbundle bit_operations_syntax

section \<open>Embedding records and quantised vectors\<close>

text \<open>
  Models the codecs of \<^verbatim>\<open>internal/vector/vector_store.go\<close> and
  \<^verbatim>\<open>internal/vector/quantization.go\<close>.  A \<^verbatim>\<open>float32\<close> is its bit pattern
  (\<open>math.Float32bits\<close>), a 32-bit word; the arithmetic on floats, which HOL has no theory of here, is
  a parameter \<open>F\<close> of the quantisers.  \<^verbatim>\<open>binary.LittleEndian.Uint32\<close> panics when fewer
  than four bytes are left: that is the outcome \<open>Panic\<close>.
\<close>

subsection \<open>Little-endian fields\<close>

definition le32 :: "u32 \<Rightarrow> bytes" where "le32 w = rev (be32 w)"
definition le64 :: "u64 \<Rightarrow> bytes" where "le64 w = rev (be64 w)"
definition get_le32 :: "bytes \<Rightarrow> u32" where "get_le32 bs = get_be32 (rev (take 4 bs))"
definition get_le64 :: "bytes \<Rightarrow> u64" where "get_le64 bs = get_be64 (rev (take 8 bs))"

lemma length_le [simp]: "length (le32 w) = 4" "length (le64 v) = 8"
  by (simp_all add: le32_def le64_def)

lemma get_le32_le32 [simp]: "get_le32 (le32 w @ r) = w"
  using get_be32_be32 [of w "[]"] by (simp add: get_le32_def le32_def)

lemma get_le64_le64 [simp]: "get_le64 (le64 w @ r) = w"
  using get_be64_be64 [of w "[]"] by (simp add: get_le64_def le64_def)

subsection \<open>Quantised vectors\<close>

type_synonym QuantizationType = bytes

abbreviation QuantNone :: QuantizationType where "QuantNone \<equiv> ''float32''"
abbreviation QuantInt8 :: QuantizationType where "QuantInt8 \<equiv> ''int8''"
abbreviation QuantInt4 :: QuantizationType where "QuantInt4 \<equiv> ''int4''"

definition ParseQuantization :: "bytes \<Rightarrow> QuantizationType" where
  "ParseQuantization s = (if s = ''int8'' then QuantInt8 else if s = ''int4'' then QuantInt4 else QuantNone)"

record QuantizedVector =
  qv_Type :: QuantizationType
  qv_Min :: u32
  qv_Max :: u32
  qv_Data :: bytes
  qv_Dims :: int

text \<open>
  The float operations the code uses: the four of the language, the comparison, the constants 0
  and 1, \<^verbatim>\<open>float32(q) / m\<close> for a byte \<open>q\<close>, and \<^verbatim>\<open>math.Round(float64(x) * m)\<close>.
\<close>

record float_ops =
  fl_sub :: "u32 \<Rightarrow> u32 \<Rightarrow> u32"
  fl_add :: "u32 \<Rightarrow> u32 \<Rightarrow> u32"
  fl_mul :: "u32 \<Rightarrow> u32 \<Rightarrow> u32"
  fl_div :: "u32 \<Rightarrow> u32 \<Rightarrow> u32"
  fl_less :: "u32 \<Rightarrow> u32 \<Rightarrow> bool"
  fl_is_zero :: "u32 \<Rightarrow> bool"
  fl_one :: u32
  fl_ratio :: "nat \<Rightarrow> nat \<Rightarrow> u32"
  fl_round :: "u32 \<Rightarrow> nat \<Rightarrow> int"

definition clamp :: "nat \<Rightarrow> int \<Rightarrow> nat" where
  "clamp m q = (if q < 0 then 0 else if q > int m then m else nat q)"

definition min_max :: "float_ops \<Rightarrow> u32 list \<Rightarrow> u32 \<times> u32" where
  "min_max F vec = fold (\<lambda>v (lo, hi). (if fl_less F v lo then v else lo, if fl_less F hi v then v else hi))
     (tl vec) (hd vec, hd vec)"

definition quant_scale :: "float_ops \<Rightarrow> u32 \<Rightarrow> u32 \<Rightarrow> u32" where
  "quant_scale F lo hi = (let scale = fl_sub F hi lo in if fl_is_zero F scale then fl_one F else scale)"

text \<open>One element on the scale from 0 to \<open>m\<close>.\<close>

definition quant_level :: "float_ops \<Rightarrow> nat \<Rightarrow> u32 \<Rightarrow> u32 \<Rightarrow> u32 \<Rightarrow> nat" where
  "quant_level F m lo scale v = clamp m (fl_round F (fl_div F (fl_sub F v lo) scale) m)"

definition quantizeInt8 :: "float_ops \<Rightarrow> u32 list \<Rightarrow> QuantizedVector" where
  "quantizeInt8 F vec =
     (if length vec = 0 then \<lparr>qv_Type = QuantInt8, qv_Min = 0, qv_Max = 0, qv_Data = [], qv_Dims = 0\<rparr> else
      let (lo, hi) = min_max F vec; scale = quant_scale F lo hi
      in \<lparr>qv_Type = QuantInt8, qv_Min = lo, qv_Max = hi,
          qv_Data = map (\<lambda>v. char_of (quant_level F 255 lo scale v)) vec, qv_Dims = int (length vec)\<rparr>)"

text \<open>
  The packing loop: \<open>data[i/2] = q << 4\<close> for even \<open>i\<close>, \<open>data[i/2] |= q\<close> for odd ones.
\<close>

fun pack_loop :: "nat list \<Rightarrow> nat \<Rightarrow> bytes \<Rightarrow> bytes" where
  "pack_loop [] i data = data"
| "pack_loop (q # qs) i data =
     pack_loop qs (Suc i)
       (let b = i div 2
        in if i mod 2 = 0 then data[b := char_of (unat (push_bit 4 (word_of_nat q :: u8)))]
           else data[b := char_of (unat ((of_char (data ! b) :: u8) OR word_of_nat q))])"

definition quantizeInt4 :: "float_ops \<Rightarrow> u32 list \<Rightarrow> QuantizedVector" where
  "quantizeInt4 F vec =
     (if length vec = 0 then \<lparr>qv_Type = QuantInt4, qv_Min = 0, qv_Max = 0, qv_Data = [], qv_Dims = 0\<rparr> else
      let (lo, hi) = min_max F vec; scale = quant_scale F lo hi;
          byteLen = (length vec + 1) div 2;
          data = pack_loop (map (quant_level F 15 lo scale) vec) 0 (replicate byteLen (CHR 0x00))
      in \<lparr>qv_Type = QuantInt4, qv_Min = lo, qv_Max = hi, qv_Data = data, qv_Dims = int (length vec)\<rparr>)"

definition QuantizeFloat32 :: "float_ops \<Rightarrow> u32 list \<Rightarrow> QuantizationType \<Rightarrow> QuantizedVector option" where
  "QuantizeFloat32 F vec qt =
     (if qt = QuantInt8 then Some (quantizeInt8 F vec) else if qt = QuantInt4 then Some (quantizeInt4 F vec) else None)"

definition nibble :: "bytes \<Rightarrow> nat \<Rightarrow> u8" where
  "nibble data i = (let b = (of_char (data ! (i div 2)) :: u8) in if i mod 2 = 0 then drop_bit 4 b else b AND 0x0F)"

text \<open>\<open>None\<close> is a nil slice.  Dims are non-negative (they come from a length or a 32-bit field).\<close>

definition dequantizeInt8 :: "float_ops \<Rightarrow> QuantizedVector \<Rightarrow> u32 list option" where
  "dequantizeInt8 F qv =
     (if int (length (qv_Data qv)) < qv_Dims qv then None else
      let scale = fl_sub F (qv_Max qv) (qv_Min qv)
      in Some (map (\<lambda>i. fl_add F (qv_Min qv) (fl_mul F (fl_ratio F (of_char (qv_Data qv ! i)) 255) scale))
                 [0..<nat (qv_Dims qv)]))"

definition dequantizeInt4 :: "float_ops \<Rightarrow> QuantizedVector \<Rightarrow> u32 list option" where
  "dequantizeInt4 F qv =
     (if int (length (qv_Data qv)) < (qv_Dims qv + 1) div 2 then None else
      let scale = fl_sub F (qv_Max qv) (qv_Min qv)
      in Some (map (\<lambda>i. fl_add F (qv_Min qv) (fl_mul F (fl_ratio F (unat (nibble (qv_Data qv) i)) 15) scale))
                 [0..<nat (qv_Dims qv)]))"

definition DequantizeToFloat32 :: "float_ops \<Rightarrow> QuantizedVector \<Rightarrow> u32 list option" where
  "DequantizeToFloat32 F qv =
     (if qv_Type qv = QuantInt8 then dequantizeInt8 F qv
      else if qv_Type qv = QuantInt4 then dequantizeInt4 F qv else None)"

definition MarshalQuantizedVector :: "QuantizedVector \<Rightarrow> bytes" where
  "MarshalQuantizedVector qv =
     [if qv_Type qv = QuantInt8 then CHR 0x01 else if qv_Type qv = QuantInt4 then CHR 0x02 else CHR 0x00] @
     le32 (qv_Min qv) @ le32 (qv_Max qv) @ le32 (word_of_int (qv_Dims qv)) @ qv_Data qv"

definition UnmarshalQuantizedVector :: "bytes \<Rightarrow> QuantizedVector option" where
  "UnmarshalQuantizedVector data =
     (if length data < 13 then None else
      Some \<lparr>qv_Type = (if data ! 0 = CHR 0x01 then QuantInt8 else if data ! 0 = CHR 0x02 then QuantInt4 else QuantNone),
            qv_Min = get_le32 (drop 1 data), qv_Max = get_le32 (drop 5 data),
            qv_Data = drop 13 data, qv_Dims = int (unat (get_le32 (drop 9 data)))\<rparr>)"

subsection \<open>Embedding records\<close>

record EmbeddingRecord =
  DocID :: bytes
  Vector :: "u32 list"
  Model :: bytes
  Dimensions :: int
  CreatedAt :: int
  ContentHash :: bytes

datatype emb_error =
    TooShort | InvalidModel | InvalidVector | InvalidCreatedAt | InvalidHashLength | InvalidHash
  | InvalidDocIDLength | InvalidDocID | InvalidQuantized

text \<open>The last fields of both formats: \<open>[8B created_at][4B hash_len][hash][4B docid_len][docid]\<close>.\<close>

definition marshal_tail :: "EmbeddingRecord \<Rightarrow> bytes" where
  "marshal_tail rec =
     le64 (word_of_int (CreatedAt rec)) @ le32 (word_of_nat (length (ContentHash rec))) @ ContentHash rec @
     le32 (word_of_nat (length (DocID rec))) @ DocID rec"

definition unmarshal_tail :: "bytes \<Rightarrow> (emb_error, int \<times> bytes \<times> bytes) outcome" where
  "unmarshal_tail r =
     (if length r < 8 then Err InvalidCreatedAt else
      let createdAt = sint (get_le64 r); r = drop 8 r
      in if length r < 4 then Err InvalidHashLength else
      let hashLen = unat (get_le32 r); r = drop 4 r
      in if length r < hashLen then Err InvalidHash else
      let hash = take hashLen r; r = drop hashLen r
      in if length r < 4 then Err InvalidDocIDLength else
      let docIDLen = unat (get_le32 r); r = drop 4 r
      in if length r < docIDLen then Err InvalidDocID else
      Ok (createdAt, hash, take docIDLen r))"

definition MarshalEmbeddingRecord :: "EmbeddingRecord \<Rightarrow> bytes" where
  "MarshalEmbeddingRecord rec =
     le32 (word_of_nat (length (Model rec))) @ Model rec @ le32 (word_of_int (Dimensions rec)) @
     concat (map le32 (Vector rec)) @ marshal_tail rec"

definition UnmarshalEmbeddingRecord :: "bytes \<Rightarrow> (emb_error, EmbeddingRecord) outcome" where
  "UnmarshalEmbeddingRecord data =
     (if length data < 12 then Err TooShort else
      let modelLen = unat (get_le32 data); r = drop 4 data
      in if length r < modelLen then Err InvalidModel else
      let model = take modelLen r; r = drop modelLen r
      in if length r < 4 then Panic else
      let dims = unat (get_le32 r); r = drop 4 r
      in if length r < dims * 4 then Err InvalidVector else
      let vec = map (\<lambda>i. get_le32 (drop (4 * i) r)) [0..<dims]; r = drop (dims * 4) r
      in case unmarshal_tail r of Err err \<Rightarrow> Err err | Panic \<Rightarrow> Panic
         | Ok (createdAt, hash, docID) \<Rightarrow>
             Ok \<lparr>DocID = docID, Vector = vec, Model = model, Dimensions = int dims, CreatedAt = createdAt, ContentHash = hash\<rparr>)"

definition isQuantizedRecord :: "bytes \<Rightarrow> bool" where
  "isQuantizedRecord data \<longleftrightarrow> length data > 0 \<and> data ! 0 = CHR 0x02"

definition marshalEmbeddingRecordQuantized :: "float_ops \<Rightarrow> EmbeddingRecord \<Rightarrow> QuantizationType \<Rightarrow> bytes" where
  "marshalEmbeddingRecordQuantized F rec qt =
     (case QuantizeFloat32 F (Vector rec) qt of None \<Rightarrow> MarshalEmbeddingRecord rec
      | Some qv \<Rightarrow>
          let qvData = MarshalQuantizedVector qv
          in [CHR 0x02, if qt = QuantInt8 then CHR 0x01 else if qt = QuantInt4 then CHR 0x02 else CHR 0x00] @
             le32 (word_of_nat (length (Model rec))) @ Model rec @
             le32 (word_of_nat (length qvData)) @ qvData @ marshal_tail rec)"

definition unmarshalEmbeddingRecordQuantized ::
    "float_ops \<Rightarrow> bytes \<Rightarrow> (emb_error, EmbeddingRecord \<times> QuantizedVector) outcome" where
  "unmarshalEmbeddingRecordQuantized F data =
     (if length data < 14 then Err TooShort else
      let r = drop 2 data; modelLen = unat (get_le32 r); r = drop 4 r
      in if length r < modelLen then Err InvalidModel else
      let model = take modelLen r; r = drop modelLen r
      in if length r < 4 then Panic else
      let qvDataLen = unat (get_le32 r); r = drop 4 r
      in if length r < qvDataLen then Err InvalidQuantized else
      case UnmarshalQuantizedVector (take qvDataLen r) of None \<Rightarrow> Err InvalidQuantized
      | Some qv \<Rightarrow>
        (case DequantizeToFloat32 F qv of None \<Rightarrow> Err InvalidQuantized
         | Some vec \<Rightarrow>
           (case unmarshal_tail (drop qvDataLen r) of Err err \<Rightarrow> Err err | Panic \<Rightarrow> Panic
            | Ok (createdAt, hash, docID) \<Rightarrow>
                Ok (\<lparr>DocID = docID, Vector = vec, Model = model, Dimensions = qv_Dims qv, CreatedAt = createdAt,
                     ContentHash = hash\<rparr>, qv))))"

text \<open>Readers look at the first byte to tell the formats apart.\<close>

definition decode_record :: "float_ops \<Rightarrow> bytes \<Rightarrow> (emb_error, EmbeddingRecord) outcome" where
  "decode_record F v =
     (if isQuantizedRecord v
      then (case unmarshalEmbeddingRecordQuantized F v of Ok (rec, _) \<Rightarrow> Ok rec | Err err \<Rightarrow> Err err | Panic \<Rightarrow> Panic)
      else UnmarshalEmbeddingRecord v)"

subsection \<open>Round trips\<close>

lemma length_pack_loop [simp]: "length (pack_loop qs i data) = length data"
  by (induction qs i data rule: pack_loop.induct) (simp_all add: Let_def)

lemma of_char_char_of_u8 [simp]: "(of_char (char_of (unat (w :: u8)) :: char) :: u8) = w"
proof -
  have "unat w < 256" using unat_less_exp [of w] by simp
  then have "(of_char (char_of (unat w) :: char) :: nat) = unat w" by simp
  then have "(word_of_nat (of_char (char_of (unat w) :: char)) :: u8) = w" by (simp del: of_char_mod_256)
  then show ?thesis by (simp only: of_nat_of_char)
qed

text \<open>Putting two nibbles into a byte and taking them out, by cases.\<close>

lemma nibbles: "list_all (\<lambda>q. list_all (\<lambda>q'.
    drop_bit 4 (push_bit 4 (word_of_nat q' :: u8)) = word_of_nat q' \<and>
    (push_bit 4 (word_of_nat q') OR word_of_nat q) AND (0x0F :: u8) = word_of_nat q \<and>
    drop_bit 4 (push_bit 4 (word_of_nat q') OR (word_of_nat q :: u8)) = word_of_nat q') [0..<16]) [0..<16]"
  by (simp add: upt_conv_Cons del: upt_Suc)

lemma nibble_simps:
  assumes "q < 16" and "q' < 16"
  shows "drop_bit 4 (push_bit 4 (word_of_nat q' :: u8)) = word_of_nat q'"
    and "(push_bit 4 (word_of_nat q') OR word_of_nat q) AND (0x0F :: u8) = word_of_nat q"
    and "drop_bit 4 (push_bit 4 (word_of_nat q') OR (word_of_nat q :: u8)) = word_of_nat q'"
proof -
  have "q \<in> set [0..<16]" "q' \<in> set [0..<16]" using assms by auto
  from bspec [OF bspec [OF nibbles [unfolded list_all_iff] this(1)] this(2)]
  show "drop_bit 4 (push_bit 4 (word_of_nat q' :: u8)) = word_of_nat q'"
    "(push_bit 4 (word_of_nat q') OR word_of_nat q) AND (0x0F :: u8) = word_of_nat q"
    "drop_bit 4 (push_bit 4 (word_of_nat q') OR (word_of_nat q :: u8)) = word_of_nat q'"
    by blast+
qed

text \<open>
  The packing loop from an even position: every nibble reads back, and the bytes before are kept.
\<close>

lemma pack_loop_keep:
  "b < length data \<Longrightarrow> 2 * b + 1 < i \<Longrightarrow> pack_loop qs i data ! b = data ! b"
proof (induction qs arbitrary: i data)
  case (Cons q qs)
  have "b \<noteq> i div 2" using Cons.prems(2) by linarith
  then show ?case
    using Cons.IH [of "data[i div 2 := x]" "Suc i" for x] Cons.prems by (simp add: Let_def)
qed simp

lemma pack_loop_nibble:
  assumes "\<forall>q \<in> set qs. q < 16" and "even i" and "i + length qs \<le> 2 * length data" and "j < length qs"
  shows "nibble (pack_loop qs i data) (i + j) = word_of_nat (qs ! j)"
  using assms
proof (induction qs arbitrary: i data j rule: induct_list012)
  case (2 q)
  then have b: "i div 2 < length data" "(i + j) div 2 = i div 2" "j = 0" by (auto elim!: evenE)
  with 2 nibble_simps(1) [of 0 q] show ?case by (simp add: nibble_def Let_def)
next
  case (3 q q' qs)
  note IH = "3.IH"(1) and prems = "3.prems"
  define b where "b = i div 2"
  from 3(4) have i: "i = 2 * b" by (auto simp: b_def)
  have bl: "b < length data" using 3(5) i by simp
  define v where "v = (push_bit 4 (word_of_nat q) OR (word_of_nat q' :: u8))"
  define data' where "data' = data[b := char_of (unat v)]"
  have "(2 * b + 1) div 2 = b" "(2 * b + 1) mod 2 = 1" by presburger+
  then have step: "pack_loop (q # q' # qs) i data = pack_loop qs (i + 2) data'"
    using bl by (simp add: i Let_def data'_def v_def)
  have keep: "pack_loop qs (i + 2) data' ! b = char_of (unat v)"
    using pack_loop_keep [of b data' "i + 2" qs] bl i by (simp add: data'_def)
  have q: "q < 16" "q' < 16" using 3(3) by auto
  consider "j = 0" | "j = 1" | k where "j = k + 2" by (metis add_2_eq_Suc' One_nat_def not0_implies_Suc)
  then show ?case
  proof cases
    case 1
    then show ?thesis unfolding step using keep nibble_simps(3) [OF q(2,1)] by (simp add: nibble_def i v_def)
  next
    case 2
    have "(2 * b + 1) div 2 = b" "(2 * b + 1) mod 2 = 1" by presburger+
    with 2 show ?thesis unfolding step using keep nibble_simps(2) [OF q(2,1)]
      by (simp add: nibble_def i v_def)
  next
    case (3 k)
    have "nibble (pack_loop qs (i + 2) data') (i + 2 + k) = word_of_nat (qs ! k)"
      by (rule IH) (use prems 3 in \<open>auto simp: data'_def\<close>)
    then show ?thesis unfolding step using \<open>j = k + 2\<close> by (simp add: ac_simps)
  qed
qed simp

lemma clamp_le: "clamp m q \<le> m" by (auto simp: clamp_def)

lemma quant_level_bounds: "quant_level F 15 lo scale v < 16" "quant_level F 255 lo scale v < 256"
  using clamp_le [of 15] clamp_le [of 255] by (simp_all add: quant_level_def le_imp_less_Suc numeral_eq_Suc)

text \<open>What a quantised vector decodes to, element by element.\<close>

definition requantised :: "float_ops \<Rightarrow> nat \<Rightarrow> u32 list \<Rightarrow> u32 list" where
  "requantised F m vec =
     (let (lo, hi) = min_max F vec; scale = quant_scale F lo hi
      in map (\<lambda>v. fl_add F lo (fl_mul F (fl_ratio F (quant_level F m lo scale v) m) (fl_sub F hi lo))) vec)"

lemma dequantize_int8: "vec \<noteq> [] \<Longrightarrow> DequantizeToFloat32 F (quantizeInt8 F vec) = Some (requantised F 255 vec)"
  using quant_level_bounds(2)
  by (auto simp: DequantizeToFloat32_def dequantizeInt8_def quantizeInt8_def requantised_def Let_def case_prod_beta
      intro!: nth_equalityI)

lemma dequantize_int4: "vec \<noteq> [] \<Longrightarrow> DequantizeToFloat32 F (quantizeInt4 F vec) = Some (requantised F 15 vec)"
proof -
  assume ne: "vec \<noteq> []"
  define lo where "lo = fst (min_max F vec)"
  define hi where "hi = snd (min_max F vec)"
  define levels where "levels = map (quant_level F 15 lo (quant_scale F lo hi)) vec"
  define data where "data = pack_loop levels 0 (replicate ((length vec + 1) div 2) (CHR 0x00))"
  have q: "quantizeInt4 F vec = \<lparr>qv_Type = QuantInt4, qv_Min = lo, qv_Max = hi, qv_Data = data, qv_Dims = int (length vec)\<rparr>"
    using ne by (simp add: quantizeInt4_def lo_def hi_def levels_def data_def case_prod_beta Let_def)
  have lv: "unat (nibble data i) = levels ! i" if "i < length vec" for i
  proof -
    have "\<forall>q \<in> set levels. q < 16" by (auto simp: levels_def quant_level_bounds)
    moreover have "0 + length levels \<le> 2 * length (replicate ((length vec + 1) div 2) (CHR 0x00))"
      by (simp add: levels_def)
    ultimately have "nibble data (0 + i) = word_of_nat (levels ! i)"
      unfolding data_def using that by (intro pack_loop_nibble) (simp_all add: levels_def)
    moreover have "levels ! i < 16" using that by (simp add: levels_def quant_level_bounds)
    ultimately show ?thesis by (simp add: unat_of_nat)
  qed
  have "\<not> int ((length vec + 1) div 2) < (int (length vec) + 1) div 2" by (simp add: zdiv_int)
  then show ?thesis
    using lv by (auto simp: DequantizeToFloat32_def dequantizeInt4_def q requantised_def Let_def case_prod_beta data_def
        lo_def hi_def levels_def intro!: nth_equalityI)
qed

lemma quantized_vector_roundtrip:
  assumes "qv_Type qv \<in> {QuantInt8, QuantInt4, QuantNone}" and "0 \<le> qv_Dims qv" "qv_Dims qv < 2 ^ 32"
  shows "UnmarshalQuantizedVector (MarshalQuantizedVector qv) = Some qv"
proof -
  have drop: "drop 1 (MarshalQuantizedVector qv) = le32 (qv_Min qv) @ le32 (qv_Max qv) @ le32 (word_of_int (qv_Dims qv)) @ qv_Data qv"
    "drop 5 (MarshalQuantizedVector qv) = le32 (qv_Max qv) @ le32 (word_of_int (qv_Dims qv)) @ qv_Data qv"
    "drop 9 (MarshalQuantizedVector qv) = le32 (word_of_int (qv_Dims qv)) @ qv_Data qv"
    "drop 13 (MarshalQuantizedVector qv) = qv_Data qv"
    by (simp_all add: MarshalQuantizedVector_def)
  have "int (unat (word_of_int (qv_Dims qv) :: u32)) = qv_Dims qv"
    using assms(2,3) by (simp add: unat_eq_nat_uint uint_word_of_int)
  then show ?thesis
    using assms(1) unfolding UnmarshalQuantizedVector_def drop
    by (auto simp: MarshalQuantizedVector_def)
qed

text \<open>Records whose fields fit their length fields.\<close>

definition record_fits :: "EmbeddingRecord \<Rightarrow> bool" where
  "record_fits rec \<longleftrightarrow> length (Model rec) < 2 ^ 32 \<and> length (Vector rec) < 2 ^ 32 \<and> length (ContentHash rec) < 2 ^ 32 \<and>
     length (DocID rec) < 2 ^ 32 \<and> Dimensions rec = int (length (Vector rec)) \<and>
     - (2 ^ 63) \<le> CreatedAt rec \<and> CreatedAt rec < 2 ^ 63"

lemma unat_vec_len32 [simp]: "n < 2 ^ 32 \<Longrightarrow> unat (word_of_nat n :: u32) = n"
  by (simp add: unat_of_nat)

lemma unmarshal_tail_marshal: "record_fits rec \<Longrightarrow> unmarshal_tail (marshal_tail rec) = Ok (CreatedAt rec, ContentHash rec, DocID rec)"
  using wrap64_id [of "CreatedAt rec"]
  by (simp add: unmarshal_tail_def marshal_tail_def record_fits_def Let_def wrap64_def)

lemma get_le32_concat: "i < length vec \<Longrightarrow> get_le32 (drop (4 * i) (concat (map le32 vec) @ r)) = vec ! i"
proof (induction vec arbitrary: i)
  case (Cons v vec)
  then show ?case by (cases i) simp_all
qed simp

lemma length_concat_le32 [simp]: "length (concat (map le32 vec)) = length vec * 4"
  by (induction vec) simp_all

lemma Unmarshal_Marshal_record:
  assumes "record_fits rec"
  shows "UnmarshalEmbeddingRecord (MarshalEmbeddingRecord rec) = Ok rec"
proof -
  have len: "\<not> length (MarshalEmbeddingRecord rec) < 12" by (simp add: MarshalEmbeddingRecord_def marshal_tail_def)
  have f: "unat (word_of_nat (length (Model rec)) :: u32) = length (Model rec)"
    "unat (word_of_int (Dimensions rec) :: u32) = length (Vector rec)"
    using assms by (simp_all add: record_fits_def)
  have vec: "map (\<lambda>i. get_le32 (drop (4 * i) (concat (map le32 (Vector rec)) @ r))) [0..<length (Vector rec)] = Vector rec" for r
    by (rule nth_equalityI) (simp_all add: get_le32_concat del: drop_append)
  note vec = vec [simplified]
  show ?thesis
    unfolding UnmarshalEmbeddingRecord_def if_not_P [OF len]
    using unmarshal_tail_marshal [OF assms] assms
    by (simp add: MarshalEmbeddingRecord_def f vec Let_def record_fits_def)
qed

lemma be_bytes_numeral [simp]:
  "be_bytes (numeral k) n = be_bytes (pred_numeral k) (n div 256) @ [char_of (n mod 256)]"
  by (simp only: numeral_eq_Suc be_bytes.simps)

lemma le32_Cons: "le32 w = char_of (unat w mod 256) # rev (be_bytes 3 (unat w div 256))"
  by (simp add: le32_def be32_def)

lemma char_of_2_iff: "(char_of (n mod 256 :: nat) :: char) = CHR 0x02 \<longleftrightarrow> n mod 256 = 2"
proof -
  have "(of_char (char_of (n mod 256) :: char) :: nat) = n mod 256" by simp
  moreover have "(of_char (CHR 0x02) :: nat) = 2" by code_simp
  moreover have "(char_of (2 :: nat) :: char) = CHR 0x02" by code_simp
  ultimately show ?thesis by metis
qed

lemma isQuantizedRecord_v1:
  assumes "record_fits rec"
  shows "isQuantizedRecord (MarshalEmbeddingRecord rec) \<longleftrightarrow> length (Model rec) mod 256 = 2"
  using assms char_of_2_iff [of "length (Model rec)"]
  by (simp add: isQuantizedRecord_def MarshalEmbeddingRecord_def le32_Cons record_fits_def del: char_of_mod_256)

lemma v1_model2_misread:
  assumes "length (Model rec) = 2" and "Model rec \<noteq> [CHR 0x00, CHR 0x00]" and "length (MarshalEmbeddingRecord rec) < 65536"
  shows "unmarshalEmbeddingRecordQuantized F (MarshalEmbeddingRecord rec) = Err InvalidModel"
proof -
  let ?M = "MarshalEmbeddingRecord rec"
  obtain a b where ab: "Model rec = [a, b]"
    using assms(1) by (metis One_nat_def Suc_1 length_0_conv length_Suc_conv)
  have two: "le32 (word_of_nat 2) = [CHR 0x02, CHR 0x00, CHR 0x00, CHR 0x00]"
  proof -
    have c: "(char_of (0 :: nat) :: char) = CHR 0x00" "(char_of (2 :: nat) :: char) = CHR 0x02" by code_simp+
    have "le32 (word_of_nat 2) = [char_of (2 :: nat), char_of (0 :: nat), char_of (0 :: nat), char_of (0 :: nat)]"
      by (simp add: le32_def be32_def)
    then show ?thesis unfolding c .
  qed
  have M: "?M = [CHR 0x02, CHR 0x00, CHR 0x00, CHR 0x00, a, b] @ le32 (word_of_int (Dimensions rec)) @
      concat (map le32 (Vector rec)) @ marshal_tail rec"
    unfolding MarshalEmbeddingRecord_def assms(1) two unfolding ab by simp
  have z: "(of_char (CHR 0x00) :: nat) = 0" by code_simp
  have f: "be_nat (rev (take 4 (drop 2 ?M))) = of_char b * 16777216 + of_char a * 65536"
    unfolding M by (simp add: be_nat_def z)
  have "(of_char a :: nat) < 256" "(of_char b :: nat) < 256" by simp_all
  then have "(of_char a :: nat) \<le> 255" "(of_char b :: nat) \<le> 255" by linarith+
  then have lt: "of_char b * 16777216 + of_char a * 65536 < (2 ^ 32 :: nat)" by simp
  have "of_char a \<noteq> (0 :: nat) \<or> of_char b \<noteq> (0 :: nat)"
    using assms(2) z unfolding ab by (metis of_char_eq_iff)
  then have "65536 \<le> of_char b * 16777216 + of_char a * (65536 :: nat)" by auto
  moreover have "unat (get_le32 (drop 2 ?M)) = of_char b * 16777216 + of_char a * 65536"
  proof -
    have "get_le32 (drop 2 ?M) = word_of_nat (be_nat (rev (take 4 (drop 2 ?M))))"
      by (simp add: get_le32_def get_be32_def)
    then show ?thesis unfolding f by (simp only: unat_vec_len32 [OF lt])
  qed
  ultimately have "length ?M < unat (get_le32 (drop 2 ?M))" using assms(3) by linarith
  moreover have "\<not> length ?M < 14" unfolding M by (simp add: marshal_tail_def)
  ultimately show ?thesis by (simp add: unmarshalEmbeddingRecordQuantized_def Let_def)
qed

lemma Unmarshal_Marshal_quantized:
  assumes fits: "record_fits rec" and "Vector rec \<noteq> []" and "length (Vector rec) + 13 < 2 ^ 32"
    and qt: "(qt, m) \<in> {(QuantInt8, 255), (QuantInt4, 15)}"
  shows "\<exists>qv. unmarshalEmbeddingRecordQuantized F (marshalEmbeddingRecordQuantized F rec qt) =
     Ok (rec\<lparr>Vector := requantised F m (Vector rec)\<rparr>, qv) \<and> QuantizeFloat32 F (Vector rec) qt = Some qv"
proof -
  obtain qv where qv: "QuantizeFloat32 F (Vector rec) qt = Some qv" "DequantizeToFloat32 F qv = Some (requantised F m (Vector rec))"
    "qv_Type qv \<in> {QuantInt8, QuantInt4, QuantNone}" "qv_Dims qv = int (length (Vector rec))"
    "length (qv_Data qv) \<le> length (Vector rec)"
  proof (cases "qt = QuantInt8")
    case True
    with qt assms(2) show ?thesis
      by (intro that [of "quantizeInt8 F (Vector rec)"])
        (auto simp: QuantizeFloat32_def dequantize_int8, auto simp: quantizeInt8_def Let_def case_prod_beta)
  next
    case False
    with qt assms(2) show ?thesis
      by (intro that [of "quantizeInt4 F (Vector rec)"])
        (auto simp: QuantizeFloat32_def dequantize_int4, auto simp: quantizeInt4_def Let_def case_prod_beta)
  qed
  have len: "length (MarshalQuantizedVector qv) < 2 ^ 32"
    using qv(5) assms(3) by (simp add: MarshalQuantizedVector_def)
  have "UnmarshalQuantizedVector (MarshalQuantizedVector qv) = Some qv"
    using qv(3,4) fits by (intro quantized_vector_roundtrip) (auto simp: record_fits_def)
  moreover have "unat (word_of_nat (length (Model rec)) :: u32) = length (Model rec)"
    using fits by (simp add: record_fits_def)
  moreover have "\<not> length (marshalEmbeddingRecordQuantized F rec qt) < 14"
    by (simp add: marshalEmbeddingRecordQuantized_def qv(1) Let_def marshal_tail_def)
  moreover have "rec\<lparr>Vector := v\<rparr> = \<lparr>DocID = DocID rec, Vector = v, Model = Model rec, Dimensions = qv_Dims qv,
      CreatedAt = CreatedAt rec, ContentHash = ContentHash rec\<rparr>" for v
    using fits qv(4) by (simp add: record_fits_def)
  ultimately show ?thesis
    using unmarshal_tail_marshal [OF fits] qv(1,2) len
    by (simp add: unmarshalEmbeddingRecordQuantized_def marshalEmbeddingRecordQuantized_def Let_def)
qed

lemma unmarshal_tail_no_panic: "unmarshal_tail r \<noteq> Panic"
  by (simp add: unmarshal_tail_def Let_def)

lemma Unmarshal_Panic_iff:
  "UnmarshalEmbeddingRecord data = Panic \<longleftrightarrow>
     12 \<le> length data \<and> 4 + unat (get_le32 data) \<le> length data \<and> length data < 8 + unat (get_le32 data)"
  using unmarshal_tail_no_panic
  by (auto simp: UnmarshalEmbeddingRecord_def Let_def split: outcome.splits)

lemma decode_quantized:
  assumes "record_fits rec" and "Vector rec \<noteq> []" and "length (Vector rec) + 13 < 2 ^ 32"
    and "(qt, m) \<in> {(QuantInt8, 255), (QuantInt4, 15)}"
  shows "decode_record F (marshalEmbeddingRecordQuantized F rec qt) = Ok (rec\<lparr>Vector := requantised F m (Vector rec)\<rparr>)"
proof -
  obtain qv where "unmarshalEmbeddingRecordQuantized F (marshalEmbeddingRecordQuantized F rec qt) =
     Ok (rec\<lparr>Vector := requantised F m (Vector rec)\<rparr>, qv)" "QuantizeFloat32 F (Vector rec) qt = Some qv"
    using Unmarshal_Marshal_quantized [OF assms] by blast
  then show ?thesis by (simp add: decode_record_def isQuantizedRecord_def marshalEmbeddingRecordQuantized_def Let_def)
qed

subsection \<open>Properties\<close>

text \<open>A float arithmetic and a record to test on.\<close>

definition flat_floats :: float_ops where
  "flat_floats = \<lparr>fl_sub = (-), fl_add = (+), fl_mul = (*), fl_div = (\<lambda>x y. x), fl_less = (<), fl_is_zero = (\<lambda>x. x = 0),
     fl_one = 1, fl_ratio = (\<lambda>q m. word_of_nat q), fl_round = (\<lambda>x m. int (unat x))\<rparr>"

definition sample_record :: "bytes \<Rightarrow> EmbeddingRecord" where
  "sample_record model = \<lparr>DocID = ''d'', Vector = [3, 5, 4], Model = model, Dimensions = 3, CreatedAt = 7, ContentHash = ''h''\<rparr>"

lemma sample_record_fits: "length model < 2 ^ 32 \<Longrightarrow> record_fits (sample_record model)"
  by (simp add: record_fits_def sample_record_def)

text \<open>Embedding records round-trip: a record in the plain format reads back as it was written,
  and one stored quantised reads back, through the format test all readers make, with every field
  unchanged and every vector element replaced by its own level on the scale between the smallest
  and the largest element, in both the 8-bit and the packed 4-bit form.\<close>

theorem embedding_record_roundtrip:
  assumes "record_fits rec"
  shows "UnmarshalEmbeddingRecord (MarshalEmbeddingRecord rec) = Ok rec \<and>
     (Vector rec \<noteq> [] \<and> length (Vector rec) + 13 < 2 ^ 32 \<longrightarrow>
       decode_record F (marshalEmbeddingRecordQuantized F rec QuantInt8) = Ok (rec\<lparr>Vector := requantised F 255 (Vector rec)\<rparr>) \<and>
       decode_record F (marshalEmbeddingRecordQuantized F rec QuantInt4) = Ok (rec\<lparr>Vector := requantised F 15 (Vector rec)\<rparr>))"
  using Unmarshal_Marshal_record [OF assms] decode_quantized [OF assms] by simp

theorem embedding_record_roundtrip_witness:
  "decode_record flat_floats (marshalEmbeddingRecordQuantized flat_floats (sample_record ''m'') QuantInt4) =
     Ok ((sample_record ''m'')\<lparr>Vector := requantised flat_floats 15 [3, 5, 4]\<rparr>)"
proof -
  have "record_fits (sample_record ''m'')" by (simp add: sample_record_fits)
  from embedding_record_roundtrip [OF this, of flat_floats] show ?thesis by (simp add: sample_record_def)
qed

text \<open>The readers take a record in the plain format for a quantised one exactly when the length
  of its model name is 2 modulo 256, because the first byte of the plain format is the low byte of
  that length: a record with a model name of two characters cannot be read back.\<close>

theorem plain_record_misread:
  assumes "record_fits rec"
  shows "(length (Model rec) mod 256 \<noteq> 2 \<longrightarrow> decode_record F (MarshalEmbeddingRecord rec) = Ok rec) \<and>
     (length (Model rec) mod 256 = 2 \<longrightarrow> isQuantizedRecord (MarshalEmbeddingRecord rec)) \<and>
     (length (Model rec) = 2 \<and> Model rec \<noteq> [CHR 0x00, CHR 0x00] \<and> length (MarshalEmbeddingRecord rec) < 65536 \<longrightarrow>
        decode_record F (MarshalEmbeddingRecord rec) = Err InvalidModel)"
  using isQuantizedRecord_v1 [OF assms] Unmarshal_Marshal_record [OF assms] v1_model2_misread [of rec F]
  by (simp add: decode_record_def)

theorem plain_record_misread_witness:
  "decode_record flat_floats (MarshalEmbeddingRecord (sample_record ''e5'')) = Err InvalidModel"
proof -
  have "record_fits (sample_record ''e5'')" by (simp add: sample_record_fits)
  from plain_record_misread [OF this, of flat_floats] show ?thesis
    by (simp add: sample_record_def MarshalEmbeddingRecord_def marshal_tail_def)
qed

text \<open>The parser of plain records checks every length except one: it panics exactly on data
  that ends within the dimension field after a model name that fits.\<close>

theorem embedding_parser_panics:
  "UnmarshalEmbeddingRecord data = Panic \<longleftrightarrow>
     12 \<le> length data \<and> 4 + unat (get_le32 data) \<le> length data \<and> length data < 8 + unat (get_le32 data)"
  by (rule Unmarshal_Panic_iff)

end
