(* ===== verification/Vector_Store.thy ===== *)
theory Vector_Store
  imports Embedding_Codec Document_Ops
begin

section \<open>The store of embedding vectors\<close>

text \<open>
  Models \<^verbatim>\<open>VectorStore\<close> of \<^verbatim>\<open>internal/vector/vector_store.go\<close>: records under
  \<^verbatim>\<open>vec|collection|docID\<close> (one vector) or \<^verbatim>\<open>vec|collection|docID#n\<close> (chunks) in
  the bucket \<^verbatim>\<open>vectors\<close>, with every change appended to the binlog.  \<open>vs_bucket\<close> says
  whether the bucket exists; the \<open>clock\<close> gives the time and the outcome of the log's system calls.
\<close>

record 'tx VectorStore =
  vs_tx :: 'tx
  vs_bucket :: bool
  vs_binlog :: "Binlog option"

record ChunkEmbedding =
  ChunkIndex :: int
  ChVector :: "u32 list"

datatype vs_error = BucketNotFound | VPut | VDelete | VCommit

definition dec_int :: "int \<Rightarrow> bytes" where
  "dec_int n = (if n < 0 then CHR ''-'' # dec_nat (nat (- n)) else dec_nat (nat n))"

definition buildVecKey :: "bytes \<Rightarrow> bytes \<Rightarrow> bytes" where
  "buildVecKey collection docID = ''vec|'' @ collection @ ''|'' @ docID"

definition buildChunkKey :: "bytes \<Rightarrow> bytes \<Rightarrow> int \<Rightarrow> bytes" where
  "buildChunkKey collection docID chunkIndex = ''vec|'' @ collection @ ''|'' @ docID @ ''#'' @ dec_int chunkIndex"

text \<open>The entry a put logs, and \<^verbatim>\<open>_ = vs.binlog.Append(...)\<close> on a log that may be nil.\<close>

abbreviation vec_put_op :: "bytes \<Rightarrow> bytes \<Rightarrow> BinlogEntry" where
  "vec_put_op key data \<equiv> put_op ''vectors'' data key"

definition log_append :: "clock \<Rightarrow> BinlogEntry \<Rightarrow> Binlog option \<Rightarrow> Binlog option" where
  "log_append ck e bl = map_option (\<lambda>b. fst (Append (ck_binlog ck) (ck_io ck) e b)) bl"

subsection \<open>Writing\<close>

definition vs_put_data :: "'tx bolt \<Rightarrow> clock \<Rightarrow> bytes \<Rightarrow> bytes \<Rightarrow> 'tx VectorStore \<Rightarrow> 'tx VectorStore \<times> vs_error option" where
  "vs_put_data B ck key data s =
     (case DBUpdate B VCommit (\<lambda>tx. if \<not> vs_bucket s then Inl BucketNotFound
              else case bk_put B ''vectors'' key data tx of None \<Rightarrow> Inl VPut | Some tx' \<Rightarrow> Inr (tx', ())) (vs_tx s) of
        (db, Inl err) \<Rightarrow> (s\<lparr>vs_tx := db\<rparr>, Some err)
      | (db, Inr _) \<Rightarrow> (s\<lparr>vs_tx := db, vs_binlog := log_append ck (vec_put_op key data) (vs_binlog s)\<rparr>, None))"

definition new_record :: "clock \<Rightarrow> bytes \<Rightarrow> u32 list \<Rightarrow> bytes \<Rightarrow> bytes \<Rightarrow> EmbeddingRecord" where
  "new_record ck docID vector model hash =
     \<lparr>DocID = docID, Vector = vector, Model = model, Dimensions = int (length vector), CreatedAt = ck_now ck, ContentHash = hash\<rparr>"

definition vs_Put :: "'tx bolt \<Rightarrow> clock \<Rightarrow> bytes \<Rightarrow> bytes \<Rightarrow> u32 list \<Rightarrow> bytes \<Rightarrow> bytes \<Rightarrow>
    'tx VectorStore \<Rightarrow> 'tx VectorStore \<times> vs_error option" where
  "vs_Put B ck collection docID vector model hash s =
     vs_put_data B ck (buildVecKey collection docID) (MarshalEmbeddingRecord (new_record ck docID vector model hash)) s"

definition vs_PutQuantized :: "float_ops \<Rightarrow> 'tx bolt \<Rightarrow> clock \<Rightarrow> bytes \<Rightarrow> bytes \<Rightarrow> u32 list \<Rightarrow> bytes \<Rightarrow> bytes \<Rightarrow>
    QuantizationType \<Rightarrow> 'tx VectorStore \<Rightarrow> 'tx VectorStore \<times> vs_error option" where
  "vs_PutQuantized F B ck collection docID vector model hash qt s =
     (if qt = QuantNone \<or> qt = [] then vs_Put B ck collection docID vector model hash s else
      vs_put_data B ck (buildVecKey collection docID)
        (marshalEmbeddingRecordQuantized F (new_record ck docID vector model hash) qt) s)"

text \<open>
  The loop of \<open>PutChunks\<close> runs inside the transaction and appends each chunk to the binlog at
  once; on an error the transaction is rolled back, the appended entries stay.
\<close>

fun put_chunks :: "'tx bolt \<Rightarrow> clock \<Rightarrow> (ChunkEmbedding \<Rightarrow> bytes \<times> bytes) \<Rightarrow> ChunkEmbedding list \<Rightarrow>
    'tx \<Rightarrow> Binlog option \<Rightarrow> Binlog option \<times> (vs_error + 'tx)" where
  "put_chunks B ck enc [] tx bl = (bl, Inr tx)"
| "put_chunks B ck enc (chunk # chunks) tx bl =
     (let (chunkKey, data) = enc chunk
      in case bk_put B ''vectors'' chunkKey data tx of None \<Rightarrow> (bl, Inl VPut)
         | Some tx' \<Rightarrow> put_chunks B ck enc chunks tx' (log_append ck (vec_put_op chunkKey data) bl))"

definition vs_put_chunks :: "'tx bolt \<Rightarrow> clock \<Rightarrow> (ChunkEmbedding \<Rightarrow> bytes \<times> bytes) \<Rightarrow> ChunkEmbedding list \<Rightarrow>
    'tx VectorStore \<Rightarrow> 'tx VectorStore \<times> vs_error option" where
  "vs_put_chunks B ck enc chunks s =
     (if \<not> vs_bucket s then (s, Some BucketNotFound) else
      case put_chunks B ck enc chunks (vs_tx s) (vs_binlog s) of
        (bl, Inl err) \<Rightarrow> (s\<lparr>vs_binlog := bl\<rparr>, Some err)
      | (bl, Inr tx) \<Rightarrow>
          (case bk_commit B tx of None \<Rightarrow> (s\<lparr>vs_binlog := bl\<rparr>, Some VCommit)
           | Some db \<Rightarrow> (s\<lparr>vs_tx := db, vs_binlog := bl\<rparr>, None)))"

definition plain_chunk :: "clock \<Rightarrow> bytes \<Rightarrow> bytes \<Rightarrow> bytes \<Rightarrow> bytes \<Rightarrow> ChunkEmbedding \<Rightarrow> bytes \<times> bytes" where
  "plain_chunk ck collection docID model hash chunk =
     (buildChunkKey collection docID (ChunkIndex chunk),
      MarshalEmbeddingRecord (new_record ck docID (ChVector chunk) model hash))"

definition vs_PutChunks :: "'tx bolt \<Rightarrow> clock \<Rightarrow> bytes \<Rightarrow> bytes \<Rightarrow> ChunkEmbedding list \<Rightarrow> bytes \<Rightarrow> bytes \<Rightarrow>
    'tx VectorStore \<Rightarrow> 'tx VectorStore \<times> vs_error option" where
  "vs_PutChunks B ck collection docID chunks model hash s =
     vs_put_chunks B ck (plain_chunk ck collection docID model hash) chunks s"

definition vs_PutChunksQuantized :: "float_ops \<Rightarrow> 'tx bolt \<Rightarrow> clock \<Rightarrow> bytes \<Rightarrow> bytes \<Rightarrow> ChunkEmbedding list \<Rightarrow>
    bytes \<Rightarrow> bytes \<Rightarrow> QuantizationType \<Rightarrow> 'tx VectorStore \<Rightarrow> 'tx VectorStore \<times> vs_error option" where
  "vs_PutChunksQuantized F B ck collection docID chunks model hash qt s =
     (if qt = QuantNone \<or> qt = [] then vs_PutChunks B ck collection docID chunks model hash s else
      vs_put_chunks B ck (\<lambda>chunk. (buildChunkKey collection docID (ChunkIndex chunk),
        marshalEmbeddingRecordQuantized F (new_record ck docID (ChVector chunk) model hash) qt)) chunks s)"

subsection \<open>Reading\<close>

definition vs_Get :: "float_ops \<Rightarrow> 'tx bolt \<Rightarrow> bytes \<Rightarrow> bytes \<Rightarrow> 'tx VectorStore \<Rightarrow> (emb_error, EmbeddingRecord option) outcome" where
  "vs_Get F B collection docID s =
     (if \<not> vs_bucket s then Ok None else
      case (case bk_get B ''vectors'' (buildChunkKey collection docID 0) (vs_tx s) of
              Some v \<Rightarrow> Some v | None \<Rightarrow> bk_get B ''vectors'' (buildVecKey collection docID) (vs_tx s)) of
        None \<Rightarrow> Ok None
      | Some v \<Rightarrow> (case decode_record F v of Ok rec \<Rightarrow> Ok (Some rec) | Err err \<Rightarrow> Err err | Panic \<Rightarrow> Panic))"

text \<open>\<open>LoadCollection\<close>: undecodable records are skipped; \<open>None\<close> is a panic.\<close>

fun load_records :: "float_ops \<Rightarrow> nat \<Rightarrow> (bytes \<times> bytes) list \<Rightarrow> (bytes \<rightharpoonup> EmbeddingRecord) \<Rightarrow> (bytes \<rightharpoonup> EmbeddingRecord) option" where
  "load_records F n [] records = Some records"
| "load_records F n ((k, v) # kvs) records =
     (case decode_record F v of Panic \<Rightarrow> None | Err _ \<Rightarrow> load_records F n kvs records
      | Ok rec \<Rightarrow> load_records F n kvs (records(drop n k \<mapsto> rec)))"

definition LoadCollection :: "float_ops \<Rightarrow> 'tx bolt \<Rightarrow> bytes \<Rightarrow> 'tx VectorStore \<Rightarrow> (bytes \<rightharpoonup> EmbeddingRecord) option" where
  "LoadCollection F B collection s =
     (if \<not> vs_bucket s then Some Map.empty else
      let p = ''vec|'' @ collection @ ''|''
      in load_records F (length p) (bk_scan B ''vectors'' p (vs_tx s)) Map.empty)"

fun GetVectors :: "float_ops \<Rightarrow> 'tx bolt \<Rightarrow> bytes \<Rightarrow> bytes list \<Rightarrow> 'tx VectorStore \<Rightarrow> (bytes \<rightharpoonup> u32 list) \<Rightarrow> (bytes \<rightharpoonup> u32 list) option" where
  "GetVectors F B collection [] s out = Some out"
| "GetVectors F B collection (i # ids) s out =
     (if \<not> vs_bucket s then Some out else
      case bk_get B ''vectors'' (''vec|'' @ collection @ ''|'' @ i) (vs_tx s) of
        None \<Rightarrow> GetVectors F B collection ids s out
      | Some v \<Rightarrow>
         (case decode_record F v of Panic \<Rightarrow> None | Err _ \<Rightarrow> GetVectors F B collection ids s out
          | Ok rec \<Rightarrow> GetVectors F B collection ids s (out(i \<mapsto> Vector rec))))"

text \<open>The collection and document part of a key, without the suffix of a chunk.\<close>

definition split_vec_key :: "bytes \<Rightarrow> (bytes \<times> bytes) option" where
  "split_vec_key ks =
     (if length ks < 5 \<or> take 4 ks \<noteq> ''vec|'' then None else
      let rest = drop 4 ks
      in if CHR ''|'' \<notin> set rest then None
         else Some (takeWhile (\<lambda>c. c \<noteq> CHR ''|'') rest, tl (dropWhile (\<lambda>c. c \<noteq> CHR ''|'') rest)))"

definition strip_chunk :: "bytes \<Rightarrow> bytes" where
  "strip_chunk docIDPart =
     (if CHR ''#'' \<notin> set docIDPart then docIDPart else
      let suffix = rev (takeWhile (\<lambda>c. c \<noteq> CHR ''#'') (rev docIDPart))
      in case Atoi suffix of Some n \<Rightarrow> if n \<ge> 0 then take (length docIDPart - length suffix - 1) docIDPart else docIDPart
         | None \<Rightarrow> docIDPart)"

fun count_loop :: "bytes list \<Rightarrow> bytes set \<Rightarrow> (bytes \<rightharpoonup> nat) \<Rightarrow> (bytes \<rightharpoonup> nat)" where
  "count_loop [] seen counts = counts"
| "count_loop (k # ks) seen counts =
     (case split_vec_key k of None \<Rightarrow> count_loop ks seen counts
      | Some (coll, part) \<Rightarrow>
          let dedupKey = coll @ [CHR 0x00] @ strip_chunk part
          in if dedupKey \<in> seen then count_loop ks seen counts
             else count_loop ks (insert dedupKey seen)
                    (counts(coll \<mapsto> (case counts coll of None \<Rightarrow> 0 | Some n \<Rightarrow> n) + 1)))"

definition CountByCollection :: "'tx bolt \<Rightarrow> 'tx VectorStore \<Rightarrow> (bytes \<rightharpoonup> nat)" where
  "CountByCollection B s =
     (if \<not> vs_bucket s then Map.empty else count_loop (map fst (bk_scan B ''vectors'' [] (vs_tx s))) {} Map.empty)"

definition CountChunksByCollection :: "'tx bolt \<Rightarrow> 'tx VectorStore \<Rightarrow> (bytes \<rightharpoonup> nat)" where
  "CountChunksByCollection B s =
     (if \<not> vs_bucket s then Map.empty else
      fold (\<lambda>k counts. case split_vec_key k of None \<Rightarrow> counts
              | Some (coll, _) \<Rightarrow> counts(coll \<mapsto> (case counts coll of None \<Rightarrow> 0 | Some n \<Rightarrow> n) + 1))
        (map fst (bk_scan B ''vectors'' [] (vs_tx s))) Map.empty)"

subsection \<open>Deleting\<close>

definition vs_delete_txn :: "'tx bolt \<Rightarrow> bool \<Rightarrow> bytes \<Rightarrow> bytes \<Rightarrow> 'tx \<Rightarrow> vs_error + ('tx \<times> BinlogOps)" where
  "vs_delete_txn B present collection docID tx =
     (if \<not> present then Inr (tx, []) else
      let legacyKey = buildVecKey collection docID; p = ''vec|'' @ collection @ ''|'' @ docID @ ''#'';
          s1 = (if bk_get B ''vectors'' legacyKey tx \<noteq> None then del_quiet B ''vectors'' legacyKey (tx, []) else (tx, []))
      in case del_all B ''vectors'' (bk_walk B ''vectors'' p (fst s1)) s1 of
           Inl _ \<Rightarrow> Inl VDelete | Inr (tx', bo) \<Rightarrow> Inr (tx', bo))"

definition vs_Delete :: "'tx bolt \<Rightarrow> clock \<Rightarrow> bytes \<Rightarrow> bytes \<Rightarrow> 'tx VectorStore \<Rightarrow> 'tx VectorStore \<times> vs_error option" where
  "vs_Delete B ck collection docID s =
     (case DBUpdate B VCommit (vs_delete_txn B (vs_bucket s) collection docID) (vs_tx s) of
        (db, Inl err) \<Rightarrow> (s\<lparr>vs_tx := db\<rparr>, Some err)
      | (db, Inr bo) \<Rightarrow> (s\<lparr>vs_tx := db, vs_binlog := FlushTo (ck_binlog ck) (ck_io ck) bo (vs_binlog s)\<rparr>, None))"

text \<open>
  \<open>CleanStaleChunks\<close>: \<open>visited\<close> are the keys its cursor yields, which bbolt does not fix while the
  loop deletes some of them; the removals from the index in memory are returned.
\<close>

fun stale_loop :: "'tx bolt \<Rightarrow> bytes \<Rightarrow> bytes \<Rightarrow> nat \<Rightarrow> int \<Rightarrow> bytes list \<Rightarrow> 'tx logged \<times> (bytes \<times> bytes) list \<Rightarrow>
    'tx logged \<times> (bytes \<times> bytes) list" where
  "stale_loop B collection docID n cnt [] st = st"
| "stale_loop B collection docID n cnt (k # ks) (s, removed) =
     (case Atoi (drop n k) of None \<Rightarrow> stale_loop B collection docID n cnt ks (s, removed)
      | Some idx \<Rightarrow>
          if idx \<ge> cnt
          then stale_loop B collection docID n cnt ks
                 (del_quiet B ''vectors'' k s, removed @ [(collection, docID @ ''#'' @ dec_int idx)])
          else stale_loop B collection docID n cnt ks (s, removed))"

definition CleanStaleChunks :: "'tx bolt \<Rightarrow> clock \<Rightarrow> bytes list \<Rightarrow> bytes \<Rightarrow> bytes \<Rightarrow> int \<Rightarrow> 'tx VectorStore \<Rightarrow>
    'tx VectorStore \<times> (bytes \<times> bytes) list" where
  "CleanStaleChunks B ck visited collection docID cnt s =
     (let p = ''vec|'' @ collection @ ''|'' @ docID @ ''#'';
          ((tx1, bo), removed) = (if vs_bucket s then stale_loop B collection docID (length p) cnt visited ((vs_tx s, []), [])
                                  else ((vs_tx s, []), []));
          s1 = (case bk_commit B tx1 of None \<Rightarrow> s | Some db \<Rightarrow> s\<lparr>vs_tx := db\<rparr>);
          s1 = s1\<lparr>vs_binlog := FlushTo (ck_binlog ck) (ck_io ck) bo (vs_binlog s)\<rparr>
      in if cnt > 1 \<and> vs_bucket s \<and> bk_get B ''vectors'' (buildVecKey collection docID) (vs_tx s1) \<noteq> None
         then let (tx2, bo2) = del_quiet B ''vectors'' (buildVecKey collection docID) (vs_tx s1, []);
                  s2 = (case bk_commit B tx2 of None \<Rightarrow> s1 | Some db \<Rightarrow> s1\<lparr>vs_tx := db\<rparr>)
              in (s2\<lparr>vs_binlog := FlushTo (ck_binlog ck) (ck_io ck) bo2 (vs_binlog s1)\<rparr>, removed @ [(collection, docID)])
         else (s1, removed))"

text \<open>\<open>SplitKey\<close> splits at every separator.\<close>

fun SplitKey_loop :: "bytes \<Rightarrow> bytes \<Rightarrow> bytes list" where
  "SplitKey_loop part [] = [part]"
| "SplitKey_loop part (b # key) = (if b = CHR ''|'' then part # SplitKey_loop [] key else SplitKey_loop (part @ [b]) key)"

definition SplitKey :: "bytes \<Rightarrow> bytes list" where
  "SplitKey key = SplitKey_loop [] key"

subsection \<open>The log of the chunks\<close>

definition chunk_ops :: "(ChunkEmbedding \<Rightarrow> bytes \<times> bytes) \<Rightarrow> ChunkEmbedding list \<Rightarrow> BinlogOps" where
  "chunk_ops enc chunks = map (\<lambda>chunk. vec_put_op (fst (enc chunk)) (snd (enc chunk))) chunks"

lemma log_append_rep:
  assumes "log_rep b es" and "entry_fits e" and "unat (lsn b) + 1 < 2 ^ 64" and "ck_io ck"
  obtains b' where "log_append ck e (Some b) = Some b'" "lsn b' = lsn b + 1"
    "log_rep b' (es @ [stamped (lsn b + 1) (ck_binlog ck) e])"
  using Append_cases [OF assms(1-3), of "ck_binlog ck" "ck_io ck"] assms(4) that
  by (auto simp: log_append_def)

text \<open>What the loop has appended, however it ends, and what it has written when it succeeds.\<close>

lemma put_chunks_logged:
  assumes "bolt_laws B cont" and "log_rep b es" and "ck_io ck"
    and "\<forall>e \<in> set (chunk_ops enc chunks). entry_fits e" and "unat (lsn b) + length chunks < 2 ^ 64"
    and "put_chunks B ck enc chunks tx (Some b) = (bl, r)"
  shows "\<exists>b' n. bl = Some b' \<and> n \<le> length chunks \<and>
     log_rep b' (es @ stamped_list (lsn b) (ck_binlog ck) (take n (chunk_ops enc chunks))) \<and>
     (\<forall>tx'. r = Inr tx' \<longrightarrow> n = length chunks \<and> cont tx' = replay (chunk_ops enc chunks) (cont tx))"
  using assms
proof (induction chunks arbitrary: b es tx)
  case Nil
  then show ?case by (auto simp: chunk_ops_def)
next
  case (Cons chunk chunks)
  obtain k d where kd: "enc chunk = (k, d)" by (cases "enc chunk")
  show ?case
  proof (cases "bk_put B ''vectors'' k d tx")
    case None
    with Cons.prems(2,6) show ?thesis by (intro exI [of _ b] exI [of _ 0]) (auto simp: kd)
  next
    case (Some tx1)
    let ?e = "vec_put_op k d"
    have "entry_fits ?e" "unat (lsn b) + 1 < 2 ^ 64" using Cons.prems(4,5) by (auto simp: chunk_ops_def kd)
    from log_append_rep [OF Cons.prems(2) this Cons.prems(3)] obtain b1 where
      b1: "log_append ck ?e (Some b) = Some b1" "lsn b1 = lsn b + 1" "log_rep b1 (es @ [stamped (lsn b + 1) (ck_binlog ck) ?e])"
      by metis
    have "unat (lsn b1) + length chunks < 2 ^ 64"
      using Cons.prems(5) unat_lsn_Suc [of "lsn b"] by (simp add: b1(2))
    moreover have "put_chunks B ck enc chunks tx1 (Some b1) = (bl, r)"
      using Cons.prems(6) Some b1(1) by (simp add: kd)
    moreover have "\<forall>e \<in> set (chunk_ops enc chunks). entry_fits e" using Cons.prems(4) by (simp add: chunk_ops_def)
    ultimately obtain b' n where n: "bl = Some b'" "n \<le> length chunks"
      "log_rep b' ((es @ [stamped (lsn b + 1) (ck_binlog ck) ?e]) @ stamped_list (lsn b1) (ck_binlog ck) (take n (chunk_ops enc chunks)))"
      "\<forall>tx'. r = Inr tx' \<longrightarrow> n = length chunks \<and> cont tx' = replay (chunk_ops enc chunks) (cont tx1)"
      using Cons.IH [OF Cons.prems(1) b1(3) Cons.prems(3)] by blast
    have "cont tx1 = c_put ''vectors'' k d (cont tx)" by (rule bolt_laws.put_law [OF Cons.prems(1) Some])
    with n show ?thesis
      by (intro exI [of _ b'] exI [of _ "Suc n"]) (simp add: chunk_ops_def kd b1(2))
  qed
qed

subsection \<open>Counting\<close>

lemma SplitKey_loop_eq: "SplitKey_loop part key = (part @ takeWhile (\<lambda>c. c \<noteq> CHR ''|'') key) #
    (if CHR ''|'' \<in> set key then SplitKey_loop [] (tl (dropWhile (\<lambda>c. c \<noteq> CHR ''|'') key)) else [])"
  by (induction key arbitrary: part) auto

lemma SplitKey_sep: "CHR ''|'' \<notin> set a \<Longrightarrow> SplitKey (a @ ''|'' @ r) = a # SplitKey r"
  unfolding SplitKey_def by (subst SplitKey_loop_eq) simp

lemma SplitKey_nosep: "CHR ''|'' \<notin> set a \<Longrightarrow> SplitKey a = [a]"
  unfolding SplitKey_def by (subst SplitKey_loop_eq) (auto simp: takeWhile_eq_all_conv)

lemma dec_nat_ne: "dec_nat n \<noteq> []"
  by (subst dec_nat.simps) simp

lemma digit_no_hash: "is_digit c \<Longrightarrow> c \<noteq> CHR ''#''"
proof
  assume "is_digit c" "c = CHR ''#''"
  then show False by (simp add: is_digit_def)
qed

lemma Atoi_dec_nat: "n < 2 ^ 63 \<Longrightarrow> Atoi (dec_nat n) = Some (int n)"
proof -
  assume n: "n < 2 ^ 63"
  have d: "list_all is_digit (dec_nat n)" using dec_nat_digits by (simp add: list_all_iff)
  obtain c r where cr: "dec_nat n = c # r" using dec_nat_ne by (metis neq_Nil_conv)
  have "is_digit c" using d by (simp add: cr)
  then have "c \<noteq> CHR ''-''" "c \<noteq> CHR ''+''" by (auto simp: is_digit_def)
  then have "Atoi (dec_nat n) = (let v = int (dec_val (dec_nat n)) in if v < - (2 ^ 63) \<or> v \<ge> 2 ^ 63 then None else Some v)"
    using d by (simp add: Atoi_def cr Let_def)
  with n show ?thesis by (simp add: Let_def)
qed

lemma split_chunk_key: "nosep c \<Longrightarrow> split_vec_key (buildChunkKey c d n) = Some (c, d @ ''#'' @ dec_int n)"
  by (simp add: split_vec_key_def buildChunkKey_def dec_int_def dec_nat_ne)

lemma strip_chunk_key: "0 \<le> n \<Longrightarrow> n < 2 ^ 63 \<Longrightarrow> strip_chunk (d @ ''#'' @ dec_int n) = d"
proof -
  assume n: "0 \<le> n" "n < 2 ^ 63"
  have "CHR ''#'' \<notin> set (dec_nat (nat n))"
    using dec_nat_digits digit_no_hash by blast
  then have "takeWhile (\<lambda>c. c \<noteq> CHR ''#'') (rev (dec_nat (nat n)) @ CHR ''#'' # rev d) = rev (dec_nat (nat n))"
    by simp
  moreover have "Atoi (dec_nat (nat n)) = Some n" using Atoi_dec_nat [of "nat n"] n by simp
  ultimately show ?thesis using n by (simp add: strip_chunk_def dec_int_def)
qed

lemma chunk_key_inject:
  assumes "nosep c" and "0 \<le> n" "n < 2 ^ 63" "0 \<le> m" "m < 2 ^ 63" and "buildChunkKey c d n = buildChunkKey c d' m"
  shows "d = d'"
proof -
  have "d @ ''#'' @ dec_int n = d' @ ''#'' @ dec_int m"
    using split_chunk_key [OF assms(1), of d n] split_chunk_key [OF assms(1), of d' m] assms(6) by simp
  then show ?thesis using strip_chunk_key [OF assms(2,3), of d] strip_chunk_key [OF assms(4,5), of d'] by simp
qed

text \<open>Reading a Go map of counts: a missing key counts zero.\<close>

definition cnt :: "(bytes \<rightharpoonup> nat) \<Rightarrow> bytes \<Rightarrow> nat" where
  "cnt m c = (case m c of None \<Rightarrow> 0 | Some n \<Rightarrow> n)"

lemma count_loop_spec:
  assumes "\<forall>k \<in> set ks. split_vec_key k = Some (fst (q k), part k) \<and> strip_chunk (part k) = snd (q k) \<and> CHR 0x00 \<notin> set (fst (q k))"
    and "CHR 0x00 \<notin> set c"
  shows "cnt (count_loop ks seen counts) c =
     cnt counts c + card {d. (c, d) \<in> q ` set ks \<and> c @ [CHR 0x00] @ d \<notin> seen}"
  using assms(1)
proof (induction ks arbitrary: seen counts)
  case Nil
  then show ?case by simp
next
  case (Cons k ks)
  obtain c0 d0 where q: "q k = (c0, d0)" by (cases "q k")
  let ?key = "c0 @ [CHR 0x00] @ d0"
  have key: "c @ [CHR 0x00] @ d = ?key \<longleftrightarrow> c = c0 \<and> d = d0" for d
    using assms(2) Cons.prems append_sep_inject [of c "CHR 0x00" d c0 d0] by (auto simp: q)
  have s: "split_vec_key k = Some (c0, part k)" "strip_chunk (part k) = d0" using Cons.prems by (simp_all add: q)
  have IH: "cnt (count_loop ks seen' counts') c =
      cnt counts' c + card {d. (c, d) \<in> q ` set ks \<and> c @ [CHR 0x00] @ d \<notin> seen'}" for seen' counts'
    using Cons by simp
  show ?case
  proof (cases "?key \<in> seen")
    case True
    then have "{d. (c, d) \<in> q ` set (k # ks) \<and> c @ [CHR 0x00] @ d \<notin> seen} = {d. (c, d) \<in> q ` set ks \<and> c @ [CHR 0x00] @ d \<notin> seen}"
      by (auto simp: q)
    with True show ?thesis using IH by (simp add: s)
  next
    case False
    let ?D = "{d. (c, d) \<in> q ` set ks \<and> c @ [CHR 0x00] @ d \<notin> insert ?key seen}"
    have "?D \<subseteq> snd ` q ` set ks"
    proof
      fix d assume "d \<in> ?D"
      then have "(c, d) \<in> q ` set ks" by simp
      then show "d \<in> snd ` q ` set ks" by (metis image_eqI snd_conv)
    qed
    then have fin: "finite ?D" by (rule finite_subset) simp
    have D: "{d. (c, d) \<in> q ` set (k # ks) \<and> c @ [CHR 0x00] @ d \<notin> seen} = (if c = c0 then insert d0 ?D else ?D)"
      using False key by (auto simp: q)
    have "card (if c = c0 then insert d0 ?D else ?D) = (if c = c0 then 1 else 0) + card ?D"
      using fin by (auto simp: card_insert_if)
    then show ?thesis
      unfolding D using False IH by (simp add: s Let_def cnt_def)
  qed
qed

subsection \<open>Properties\<close>

text \<open>Storing chunks: when \<open>PutChunks\<close> succeeds, the binlog has gained exactly the writes it made
  to the store; when it fails, the store is unchanged, and the log may still have gained a prefix
  of the writes.\<close>

theorem PutChunks_logged:
  assumes "bolt_laws B cont" and "log_rep b es" and "vs_binlog s = Some b" and "ck_io ck"
    and "\<forall>e \<in> set (chunk_ops (plain_chunk ck collection docID model hash) chunks). entry_fits e"
    and "unat (lsn b) + length chunks < 2 ^ 64"
  shows "case vs_PutChunks B ck collection docID chunks model hash s of (s', err) \<Rightarrow>
     \<exists>b' n. vs_binlog s' = Some b' \<and>
       log_rep b' (es @ stamped_list (lsn b) (ck_binlog ck) (take n (chunk_ops (plain_chunk ck collection docID model hash) chunks))) \<and>
       (err = None \<longrightarrow> n = length chunks \<and>
          cont (vs_tx s') = replay (chunk_ops (plain_chunk ck collection docID model hash) chunks) (cont (vs_tx s))) \<and>
       (err \<noteq> None \<longrightarrow> vs_tx s' = vs_tx s)"
proof (cases "vs_bucket s")
  case False
  with assms(2,3) show ?thesis by (auto simp: vs_PutChunks_def vs_put_chunks_def intro!: exI [of _ 0])
next
  case True
  let ?enc = "plain_chunk ck collection docID model hash"
  obtain bl r where pc: "put_chunks B ck ?enc chunks (vs_tx s) (Some b) = (bl, r)"
    by (cases "put_chunks B ck ?enc chunks (vs_tx s) (Some b)")
  obtain b' n where L: "bl = Some b'" "log_rep b' (es @ stamped_list (lsn b) (ck_binlog ck) (take n (chunk_ops ?enc chunks)))"
    "\<forall>tx'. r = Inr tx' \<longrightarrow> n = length chunks \<and> cont tx' = replay (chunk_ops ?enc chunks) (cont (vs_tx s))"
    using put_chunks_logged [OF assms(1,2,4,5,6) pc] by blast
  have run: "vs_PutChunks B ck collection docID chunks model hash s =
      (case r of Inl err \<Rightarrow> (s\<lparr>vs_binlog := bl\<rparr>, Some err)
       | Inr tx \<Rightarrow> (case bk_commit B tx of None \<Rightarrow> (s\<lparr>vs_binlog := bl\<rparr>, Some VCommit)
                    | Some db \<Rightarrow> (s\<lparr>vs_tx := db, vs_binlog := bl\<rparr>, None)))"
    using True pc by (simp add: vs_PutChunks_def vs_put_chunks_def assms(3) split: sum.split)
  show ?thesis
  proof (cases r)
    case (Inl err)
    show ?thesis unfolding run Inl sum.case prod.case
      by (intro exI [of _ b'] exI [of _ n]) (simp add: L(1,2))
  next
    case (Inr tx)
    have tx: "n = length chunks" "cont tx = replay (chunk_ops ?enc chunks) (cont (vs_tx s))" using L(3) Inr by simp_all
    show ?thesis
    proof (cases "bk_commit B tx")
      case None
      show ?thesis unfolding run Inr None sum.case option.case prod.case
        by (intro exI [of _ b'] exI [of _ n]) (simp add: L(1,2))
    next
      case (Some db)
      have "cont db = cont tx" by (rule bolt_laws.commit_law [OF assms(1) Some])
      then show ?thesis unfolding run Inr Some sum.case option.case prod.case
        by (intro exI [of _ b'] exI [of _ n]) (use L(2) tx in \<open>simp add: L(1)\<close>)
    qed
  qed
qed

theorem PutChunks_logged_witness:
  "\<exists>b' n. log_rep b' ([sample_put 5, sample_put 6] @ stamped_list (lsn (log_of [sample_put 5, sample_put 6])) 7
       (take n (chunk_ops (plain_chunk \<lparr>ck_now = 1, ck_cache = 1, ck_evict = 0, ck_binlog = 7, ck_io = True\<rparr> ''c'' ''d'' ''m'' ''h'') [])))"
proof -
  let ?s = "\<lparr>vs_tx = [] :: mem_db, vs_bucket = True, vs_binlog = Some (log_of [sample_put 5, sample_put 6])\<rparr>"
  let ?ck = "\<lparr>ck_now = 1, ck_cache = 1, ck_evict = 0, ck_binlog = 7, ck_io = True\<rparr>"
  have "vs_binlog ?s = Some (log_of [sample_put 5, sample_put 6])" "ck_io ?ck"
    "\<forall>e \<in> set (chunk_ops (plain_chunk ?ck ''c'' ''d'' ''m'' ''h'') []). entry_fits e"
    "unat (lsn (log_of [sample_put 5, sample_put 6])) + length ([] :: ChunkEmbedding list) < 2 ^ 64"
    by (simp_all add: chunk_ops_def log_of_lsn)
  from PutChunks_logged [OF mem.bolt_laws_axioms log_rep_sample this] show ?thesis
    by (auto simp: case_prod_beta)
qed

text \<open>\<open>PutChunks\<close> appends to the binlog before its transaction commits: when the commit fails, the
  store keeps its old record and the log holds the new one, so a follower ends with a record the
  leader does not have.\<close>

theorem PutChunks_commit_failure_diverges:
  assumes "bolt_laws B cont" and "log_rep b es" and "vs_binlog s = Some b" and "ck_io ck" and "vs_bucket s"
    and "plain_chunk ck collection docID model hash chunk = (k, d)" and "entry_fits (vec_put_op k d)"
    and "unat (lsn b) + 1 < 2 ^ 64" and "bk_put B ''vectors'' k d (vs_tx s) = Some tx'" and "bk_commit B tx' = None"
    and "replay es c0 = cont (vs_tx s)" and "cont (vs_tx s) ''vectors'' k \<noteq> Some d"
  shows "\<exists>s' b' es'. vs_PutChunks B ck collection docID [chunk] model hash s = (s', Some VCommit) \<and>
     vs_binlog s' = Some b' \<and> log_rep b' es' \<and> replay es' c0 ''vectors'' k = Some d \<and> cont (vs_tx s') ''vectors'' k \<noteq> Some d"
proof -
  obtain b' where b': "log_append ck (vec_put_op k d) (Some b) = Some b'"
    "log_rep b' (es @ [stamped (lsn b + 1) (ck_binlog ck) (vec_put_op k d)])"
    using log_append_rep [OF assms(2,7,8,4)] by metis
  have "vs_PutChunks B ck collection docID [chunk] model hash s = (s\<lparr>vs_binlog := Some b'\<rparr>, Some VCommit)"
    using assms(3,5,6,9,10) b'(1) by (simp add: vs_PutChunks_def vs_put_chunks_def)
  moreover have "replay (es @ [stamped (lsn b + 1) (ck_binlog ck) (vec_put_op k d)]) c0 ''vectors'' k = Some d"
    by (simp add: stamped_def store_simps)
  ultimately show ?thesis using b'(2) assms(12) by auto
qed

definition no_commit_bolt :: "mem_db bolt" where
  "no_commit_bolt = mem_bolt\<lparr>bk_commit := (\<lambda>_. None)\<rparr>"

lemma no_commit_laws: "bolt_laws no_commit_bolt mem_contents"
  using mem.bolt_laws_axioms by (simp add: no_commit_bolt_def bolt_laws_def)

lemma log_rep_empty: "log_rep (log_of []) []"
  by (rule log_rep_log_of [where l = 1]) auto

theorem PutChunks_commit_failure_diverges_witness:
  "\<exists>(s' :: mem_db VectorStore) b' es'. vs_binlog s' = Some b' \<and> log_rep b' es' \<and>
     replay es' (mem_contents []) ''vectors'' ''vec|c|d#0'' \<noteq> mem_contents (vs_tx s') ''vectors'' ''vec|c|d#0''"
proof -
  define ck where "ck = \<lparr>ck_now = 1, ck_cache = 1, ck_evict = 0, ck_binlog = 7, ck_io = True\<rparr>"
  define chunk where "chunk = \<lparr>ChunkIndex = 0, ChVector = [1]\<rparr>"
  define s where "s = \<lparr>vs_tx = [] :: mem_db, vs_bucket = True, vs_binlog = Some (log_of [])\<rparr>"
  define d where "d = MarshalEmbeddingRecord (new_record ck ''d'' [1] ''m'' ''h'')"
  have "dec_int 0 = ''0''" by code_simp
  then have enc: "plain_chunk ck ''c'' ''d'' ''m'' ''h'' chunk = (''vec|c|d#0'', d)"
    by (simp add: plain_chunk_def chunk_def buildChunkKey_def d_def)
  have "length d = 31" by (simp add: d_def MarshalEmbeddingRecord_def marshal_tail_def new_record_def)
  then have fits: "entry_fits (vec_put_op ''vec|c|d#0'' d)" by (simp add: entry_fits_def put_op_def)
  have put: "bk_put no_commit_bolt ''vectors'' ''vec|c|d#0'' d (vs_tx s) = Some (AList.update ''vectors'' (AList.update ''vec|c|d#0'' d []) [])"
    by (simp add: no_commit_bolt_def mem_bolt_def s_def mem_bucket_def)
  have old: "mem_contents (vs_tx s) = mem_contents []" by (simp add: s_def)
  have "mem_contents (vs_tx s) ''vectors'' ''vec|c|d#0'' \<noteq> Some d" by (simp add: s_def mem_contents_def mem_bucket_def)
  from PutChunks_commit_failure_diverges [OF no_commit_laws log_rep_empty _ _ _ enc fits _ put _ _ this, of "mem_contents []"]
  obtain s' :: "mem_db VectorStore" and b' es' where "vs_binlog s' = Some b'" "log_rep b' es'"
    "replay es' (mem_contents []) ''vectors'' ''vec|c|d#0'' = Some d" "mem_contents (vs_tx s') ''vectors'' ''vec|c|d#0'' \<noteq> Some d"
    by (auto simp: s_def ck_def no_commit_bolt_def log_of_def)
  then show ?thesis by (intro exI [of _ s'] exI [of _ b'] exI [of _ es']) auto
qed

text \<open>A record written by \<open>Put\<close> is shadowed by an older chunk: when the document still has a chunk 0
  from an earlier embedding, \<open>Get\<close> keeps returning that one; without it, it returns the new record
  (unless the length of the model name makes it unreadable).\<close>

theorem Put_shadowed_by_chunk:
  assumes "bolt_laws B cont" and "vs_Put B ck c d vec model hash s = (s', None)"
    and "record_fits (new_record ck d vec model hash)" and "length model mod 256 \<noteq> 2"
  shows "vs_Get F B c d s' =
     (case cont (vs_tx s) ''vectors'' (buildChunkKey c d 0) of
        None \<Rightarrow> Ok (Some (new_record ck d vec model hash)) | Some v \<Rightarrow> vs_Get F B c d s)"
proof -
  let ?data = "MarshalEmbeddingRecord (new_record ck d vec model hash)"
  have ne: "buildChunkKey c d 0 \<noteq> buildVecKey c d" by (simp add: buildChunkKey_def buildVecKey_def)
  have b: "vs_bucket s" "vs_bucket s'" and c: "cont (vs_tx s') = c_put ''vectors'' (buildVecKey c d) ?data (cont (vs_tx s))"
    using assms(2) bolt_laws.put_law [OF assms(1)] bolt_laws.commit_law [OF assms(1)]
    by (auto simp: vs_Put_def vs_put_data_def DBUpdate_def split: sum.splits option.splits if_splits prod.splits)
  have "decode_record F ?data = Ok (new_record ck d vec model hash)"
    using isQuantizedRecord_v1 [OF assms(3)] Unmarshal_Marshal_record [OF assms(3)] assms(4)
    by (simp add: decode_record_def new_record_def)
  then show ?thesis
    using b ne by (simp add: vs_Get_def bolt_laws.get_law [OF assms(1)] c store_simps split: option.split)
qed

theorem Put_shadowed_by_chunk_witness:
  "\<exists>s' :: mem_db VectorStore. vs_Get flat_floats mem_bolt ''c'' ''d'' s' \<noteq>
      Ok (Some (new_record \<lparr>ck_now = 1, ck_cache = 1, ck_evict = 0, ck_binlog = 7, ck_io = True\<rparr> ''d'' [9] ''m'' ''h''))"
proof -
  define ck where "ck = \<lparr>ck_now = 1, ck_cache = 1, ck_evict = 0, ck_binlog = 7, ck_io = True\<rparr>"
  define s where "s = \<lparr>vs_tx = [(''vectors'', [(''vec|c|d#0'', [])])] :: mem_db, vs_bucket = True, vs_binlog = None\<rparr>"
  define s' where "s' = fst (vs_Put mem_bolt ck ''c'' ''d'' [9] ''m'' ''h'' s)"
  have z: "dec_int 0 = ''0''" by code_simp
  have "snd (vs_Put mem_bolt ck ''c'' ''d'' [9] ''m'' ''h'' s) = None"
    by (simp add: vs_Put_def vs_put_data_def DBUpdate_def mem_bolt_def s_def buildVecKey_def)
  then have p: "vs_Put mem_bolt ck ''c'' ''d'' [9] ''m'' ''h'' s = (s', None)" by (simp add: s'_def prod_eq_iff)
  have fits: "record_fits (new_record ck ''d'' [9] ''m'' ''h'')" by (simp add: record_fits_def new_record_def ck_def)
  have "mem_contents (vs_tx s) ''vectors'' (buildChunkKey ''c'' ''d'' 0) = Some []"
    by (simp add: s_def mem_contents_def mem_bucket_def buildChunkKey_def z)
  with Put_shadowed_by_chunk [OF mem.bolt_laws_axioms p fits, of flat_floats]
  have "vs_Get flat_floats mem_bolt ''c'' ''d'' s' = vs_Get flat_floats mem_bolt ''c'' ''d'' s" by simp
  also have "\<dots> = Err emb_error.TooShort"
    by (simp add: vs_Get_def s_def mem_bolt_def mem_contents_def mem_bucket_def buildChunkKey_def z decode_record_def
        isQuantizedRecord_def UnmarshalEmbeddingRecord_def)
  finally show ?thesis by (intro exI [of _ s']) (simp add: ck_def)
qed

text \<open>\<open>CountByCollection\<close> counts documents, not chunks: over a bucket of chunk records, the count of
  a collection is the number of its documents with at least one chunk.\<close>

theorem CountByCollection_spec:
  assumes "bolt_laws B cont" and "vs_bucket s" and "CHR 0x00 \<notin> set c"
    and "\<forall>k. cont (vs_tx s) ''vectors'' k \<noteq> None \<longrightarrow> (\<exists>c d n. nosep c \<and> CHR 0x00 \<notin> set c \<and> 0 \<le> n \<and> n < 2 ^ 63 \<and> k = buildChunkKey c d n)"
    and "nosep c"
  shows "cnt (CountByCollection B s) c =
     card {d. \<exists>n. 0 \<le> n \<and> n < 2 ^ 63 \<and> cont (vs_tx s) ''vectors'' (buildChunkKey c d n) \<noteq> None}"
proof -
  define ks where "ks = map fst (bk_scan B ''vectors'' [] (vs_tx s))"
  define q where "q k = (fst (the (split_vec_key k)), strip_chunk (snd (the (split_vec_key k))))" for k
  have ks: "set ks = {k. cont (vs_tx s) ''vectors'' k \<noteq> None}"
    unfolding ks_def by (simp add: bolt_laws.scan_keys [OF assms(1)] del: set_map)
  have qk: "split_vec_key (buildChunkKey c d n) = Some (c, d @ ''#'' @ dec_int n) \<and> q (buildChunkKey c d n) = (c, d)"
    if "nosep c" "0 \<le> n" "n < 2 ^ 63" for c d n
    using that split_chunk_key [of c d n] strip_chunk_key [of n d] by (simp add: q_def)
  have "\<forall>k \<in> set ks. split_vec_key k = Some (fst (q k), snd (the (split_vec_key k))) \<and>
      strip_chunk (snd (the (split_vec_key k))) = snd (q k) \<and> CHR 0x00 \<notin> set (fst (q k))"
  proof
    fix k assume "k \<in> set ks"
    then obtain c d n where k: "nosep c" "CHR 0x00 \<notin> set c" "0 \<le> n" "n < 2 ^ 63" "k = buildChunkKey c d n"
      using assms(4) unfolding ks by blast
    show "split_vec_key k = Some (fst (q k), snd (the (split_vec_key k))) \<and>
      strip_chunk (snd (the (split_vec_key k))) = snd (q k) \<and> CHR 0x00 \<notin> set (fst (q k))"
      using qk [OF k(1,3,4), of d] k(2,3,4) strip_chunk_key [of n d] unfolding k(5) by simp
  qed
  from count_loop_spec [OF this assms(3)] have "cnt (CountByCollection B s) c = card {d. (c, d) \<in> q ` set ks}"
    using assms(2) by (simp add: CountByCollection_def ks_def cnt_def)
  also have "{d. (c, d) \<in> q ` set ks} = {d. \<exists>n. 0 \<le> n \<and> n < 2 ^ 63 \<and> cont (vs_tx s) ''vectors'' (buildChunkKey c d n) \<noteq> None}"
  proof (intro Collect_cong iffI)
    fix d assume "(c, d) \<in> q ` set ks"
    then obtain k where k: "k \<in> set ks" "q k = (c, d)" by (metis imageE)
    then obtain c' d' n where k': "nosep c'" "0 \<le> n" "n < 2 ^ 63" "k = buildChunkKey c' d' n"
      using assms(4) unfolding ks by blast
    with k(2) qk [OF k'(1-3), of d'] have "c' = c" "d' = d" by simp_all
    with k k' show "\<exists>n. 0 \<le> n \<and> n < 2 ^ 63 \<and> cont (vs_tx s) ''vectors'' (buildChunkKey c d n) \<noteq> None"
      unfolding ks by blast
  next
    fix d assume "\<exists>n. 0 \<le> n \<and> n < 2 ^ 63 \<and> cont (vs_tx s) ''vectors'' (buildChunkKey c d n) \<noteq> None"
    then obtain n where n: "0 \<le> n" "n < 2 ^ 63" "buildChunkKey c d n \<in> set ks" unfolding ks by blast
    with qk [OF assms(5) n(1,2), of d] show "(c, d) \<in> q ` set ks" by (metis image_eqI)
  qed
  finally show ?thesis .
qed

theorem CountByCollection_spec_witness:
  "cnt (CountByCollection mem_bolt \<lparr>vs_tx = [(''vectors'', [(buildChunkKey ''c'' ''d'' 0, []), (buildChunkKey ''c'' ''d'' 1, [])])],
      vs_bucket = True, vs_binlog = None\<rparr>) ''c'' = 1"
proof -
  let ?k0 = "buildChunkKey ''c'' ''d'' 0" and ?k1 = "buildChunkKey ''c'' ''d'' 1"
  define s where "s = \<lparr>vs_tx = [(''vectors'', [(?k0, []), (?k1, [])])] :: mem_db, vs_bucket = True, vs_binlog = None\<rparr>"
  have mem: "mem_contents (vs_tx s) ''vectors'' k \<noteq> None \<longleftrightarrow> k = ?k0 \<or> k = ?k1" for k
    by (simp add: s_def mem_contents_def mem_bucket_def)
  have wf: "\<forall>k. mem_contents (vs_tx s) ''vectors'' k \<noteq> None \<longrightarrow>
     (\<exists>c d n. nosep c \<and> CHR 0x00 \<notin> set c \<and> 0 \<le> n \<and> n < 2 ^ 63 \<and> k = buildChunkKey c d n)"
    unfolding mem
    by (intro allI impI, elim disjE, (rule exI [of _ "''c''"], rule exI [of _ "''d''"], rule exI [of _ 0], simp),
        (rule exI [of _ "''c''"], rule exI [of _ "''d''"], rule exI [of _ 1], simp))
  have only: "d = ''d''" if "0 \<le> n" "n < 2 ^ 63" "buildChunkKey ''c'' d n \<in> {?k0, ?k1}" for d n
    using that chunk_key_inject [of "''c''" n 0 d "''d''"] chunk_key_inject [of "''c''" n 1 d "''d''"] by auto
  have "{d. \<exists>n. 0 \<le> n \<and> n < 2 ^ 63 \<and> mem_contents (vs_tx s) ''vectors'' (buildChunkKey ''c'' d n) \<noteq> None} = {''d''}"
  proof (intro set_eqI iffI)
    fix d assume "d \<in> {d. \<exists>n. 0 \<le> n \<and> n < 2 ^ 63 \<and> mem_contents (vs_tx s) ''vectors'' (buildChunkKey ''c'' d n) \<noteq> None}"
    then show "d \<in> {''d''}" using only unfolding mem by blast
  next
    fix d assume "d \<in> {''d''}"
    then show "d \<in> {d. \<exists>n. 0 \<le> n \<and> n < 2 ^ 63 \<and> mem_contents (vs_tx s) ''vectors'' (buildChunkKey ''c'' d n) \<noteq> None}"
      unfolding mem by (intro CollectI exI [of _ 0]) simp
  qed
  moreover have "CHR 0x00 \<notin> set ''c''" "nosep ''c''" "vs_bucket s" by (simp_all add: s_def)
  ultimately show ?thesis
    using CountByCollection_spec [OF mem.bolt_laws_axioms _ _ wf, of "''c''"] by (simp add: s_def)
qed

text \<open>Deleting the vectors of a document removes its record and all its chunks, records exactly that
  in the binlog, and leaves every other record alone, provided the deleting cursor does visit every
  key under the document's prefix; a later \<open>Get\<close> finds nothing.\<close>

theorem vs_Delete_spec:
  assumes "bolt_laws B cont" and "vs_Delete B ck c d s = (s', None)" and "vs_bucket s"
    and "\<forall>tx p. set (bk_walk B ''vectors'' p tx) = {k. cont tx ''vectors'' k \<noteq> None \<and> prefix p k}"
  shows "(\<forall>k. cont (vs_tx s') ''vectors'' k =
       (if k = buildVecKey c d \<or> prefix (''vec|'' @ c @ ''|'' @ d @ ''#'') k then None else cont (vs_tx s) ''vectors'' k)) \<and>
     vs_Get F B c d s' = Ok None \<and>
     (\<exists>bo. cont (vs_tx s') = replay bo (cont (vs_tx s)) \<and> vs_binlog s' = FlushTo (ck_binlog ck) (ck_io ck) bo (vs_binlog s))"
proof -
  define legacy where "legacy = buildVecKey c d"
  define p where "p = ''vec|'' @ c @ ''|'' @ d @ ''#''"
  define s1 where "s1 = (if bk_get B ''vectors'' legacy (vs_tx s) \<noteq> None then del_quiet B ''vectors'' legacy (vs_tx s, []) else (vs_tx s, []))"
  obtain db r where db: "DBUpdate B VCommit (vs_delete_txn B (vs_bucket s) c d) (vs_tx s) = (db, r)"
    by (cases "DBUpdate B VCommit (vs_delete_txn B (vs_bucket s) c d) (vs_tx s)")
  with assms(2) obtain bo where r: "r = Inr bo" and s': "s' = s\<lparr>vs_tx := db, vs_binlog := FlushTo (ck_binlog ck) (ck_io ck) bo (vs_binlog s)\<rparr>"
    by (auto simp: vs_Delete_def split: sum.splits)
  from db r obtain tx' where tx: "vs_delete_txn B (vs_bucket s) c d (vs_tx s) = Inr (tx', bo)" and cm: "bk_commit B tx' = Some db"
    by (auto simp: DBUpdate_Inr)
  let ?w = "bk_walk B ''vectors'' p (fst s1)"
  have da: "del_all B ''vectors'' ?w s1 = Inr (tx', bo)"
    using tx assms(3)
    unfolding vs_delete_txn_def Let_def legacy_def [symmetric] p_def [symmetric] s1_def [symmetric] by (auto split: sum.splits)
  define ops1 where "ops1 = (if bk_get B ''vectors'' legacy (vs_tx s) \<noteq> None then [del_op ''vectors'' legacy] else [])"
  have r1: "runs cont ops1 (vs_tx s, []) s1"
    using del_quiet_runs [OF assms(1)] by (simp add: s1_def ops1_def runs_refl)
  have run: "runs cont (ops1 @ map (del_op ''vectors'') ?w) (vs_tx s, []) (tx', bo)"
    by (rule runs_trans [OF r1 del_all_runs [OF assms(1) da]])
  have cont: "cont db = replay bo (cont (vs_tx s))" and bo: "bo = ops1 @ map (del_op ''vectors'') ?w"
    using run bolt_laws.commit_law [OF assms(1) cm] by (simp_all add: runs_def)
  have one: "cont (fst s1) ''vectors'' k = (if k = legacy then None else cont (vs_tx s) ''vectors'' k)" for k
    using r1 bolt_laws.get_law [OF assms(1)] by (auto simp: runs_def ops1_def store_simps)
  have after: "cont db ''vectors'' k = (if k = legacy \<or> prefix p k then None else cont (vs_tx s) ''vectors'' k)" for k
  proof -
    have "cont db = replay (map (del_op ''vectors'') ?w) (cont (fst s1))"
      using r1 by (simp add: cont bo runs_def)
    then have "cont db ''vectors'' k = (if k \<in> set ?w then None else cont (fst s1) ''vectors'' k)"
      by (simp add: replay_dels)
    then show ?thesis using one [of k] assms(4) by auto
  qed
  have "prefix p (buildChunkKey c d 0)" by (simp add: p_def buildChunkKey_def)
  then have "vs_Get F B c d s' = Ok None"
    using after by (simp add: vs_Get_def s' bolt_laws.get_law [OF assms(1)] legacy_def)
  with after cont show ?thesis by (auto simp: s' legacy_def p_def)
qed

theorem vs_Delete_spec_witness:
  "vs_Get flat_floats mem_bolt ''c'' ''d'' (fst (vs_Delete mem_bolt \<lparr>ck_now = 1, ck_cache = 1, ck_evict = 0, ck_binlog = 7, ck_io = True\<rparr>
      ''c'' ''d'' \<lparr>vs_tx = [(''vectors'', [(''vec|c|d'', ''x'')])], vs_bucket = True, vs_binlog = None\<rparr>)) = Ok None"
proof -
  let ?ck = "\<lparr>ck_now = 1, ck_cache = 1, ck_evict = 0, ck_binlog = 7, ck_io = True\<rparr>"
  let ?s = "\<lparr>vs_tx = [(''vectors'', [(''vec|c|d'', ''x'')])] :: mem_db, vs_bucket = True, vs_binlog = None\<rparr>"
  have "snd (vs_Delete mem_bolt ?ck ''c'' ''d'' ?s) = None"
    by (simp add: vs_Delete_def DBUpdate_def vs_delete_txn_def mem_bolt_def mem_contents_def mem_bucket_def buildVecKey_def
        del_quiet_def mem_keys_def Let_def)
  then have del: "vs_Delete mem_bolt ?ck ''c'' ''d'' ?s = (fst (vs_Delete mem_bolt ?ck ''c'' ''d'' ?s), None)"
    by (simp add: prod_eq_iff)
  have walk: "\<forall>tx p. set (bk_walk mem_bolt ''vectors'' p tx) = {k. mem_contents tx ''vectors'' k \<noteq> None \<and> prefix p k}"
    using mem_keys_set by (simp add: mem_bolt_def)
  from vs_Delete_spec [OF mem.bolt_laws_axioms del _ walk, of flat_floats] show ?thesis by simp
qed

end
