(* ===== verification/Replication.thy ===== *)
theory Replication
  imports Document_Reads Vector_Store
begin

section \<open>Replication: leader stream, applier and follower\<close>

text \<open>
  Models \<^verbatim>\<open>replication_server.go\<close>, \<^verbatim>\<open>replication_applier.go\<close> and
  \<^verbatim>\<open>replication_client.go\<close>.  The network is a parameter: what a call or a
  \<^verbatim>\<open>Recv\<close> returns is an event given to the operation.  A follower is its server, the
  applier's LSN, and the calls it makes into the in-memory managers, recorded as effects.  A panic
  while the in-memory state is updated ends the process.
\<close>

subsection \<open>The wire form of entries\<close>

record BinlogEntryProto =
  PLsn :: u64
  PType :: u32
  PTimestamp :: u64
  PBucketName :: bytes
  PKey :: bytes
  PValue :: bytes
  PChecksum :: u32

definition entryToProto :: "BinlogEntry \<Rightarrow> BinlogEntryProto" where
  "entryToProto e = \<lparr>PLsn = LSN e, PType = ucast (EType e), PTimestamp = ETimestamp e, PBucketName = BucketName e,
     PKey = EKey e, PValue = EValue e, PChecksum = Checksum e\<rparr>"

definition protoToEntry :: "BinlogEntryProto \<Rightarrow> BinlogEntry" where
  "protoToEntry p = \<lparr>LSN = PLsn p, EType = ucast (PType p), ETimestamp = PTimestamp p, BucketName = PBucketName p,
     EKey = PKey p, EValue = PValue p, Checksum = PChecksum p\<rparr>"

lemma protoToEntry_entryToProto [simp]: "protoToEntry (entryToProto e) = e"
  by (simp add: protoToEntry_def entryToProto_def ucast_down_ucast_id is_down)

subsection \<open>The applier\<close>

datatype mem_effect =
    IndexAdd bytes bytes "u32 list" | IndexRemove bytes bytes
  | ReloadWebhooks | ReloadSchemas | ReloadAutomation | ReloadCron | ReloadCollections | ReloadVectors

record managers =
  mg_index :: bool
  mg_webhooks :: bool
  mg_schemas :: bool
  mg_automation :: bool
  mg_cron :: bool
  mg_collections :: bool

record ('tx, 'p) follower =
  fo_server :: "('tx, 'p) server"
  fo_lastApplied :: u64
  fo_lastAppliedAt :: int
  fo_effects :: "mem_effect list"

datatype apply_error = ApplyBucket | ApplyPut | ApplyDelete | ApplyDrop | ApplyCommit

definition apply_txn :: "'tx bolt \<Rightarrow> BinlogEntry \<Rightarrow> 'tx \<Rightarrow> apply_error + ('tx \<times> unit)" where
  "apply_txn B entry tx =
     (case bk_create B (BucketName entry) tx of None \<Rightarrow> Inl ApplyBucket
      | Some tx1 \<Rightarrow>
          if EType entry = BinlogPut then
            (case bk_put B (BucketName entry) (EKey entry) (EValue entry) tx1 of None \<Rightarrow> Inl ApplyPut | Some tx2 \<Rightarrow> Inr (tx2, ()))
          else if EType entry = BinlogDelete then
            (case bk_delete B (BucketName entry) (EKey entry) tx1 of None \<Rightarrow> Inl ApplyDelete | Some tx2 \<Rightarrow> Inr (tx2, ()))
          else if EType entry = BinlogDeleteBucket then
            (case bk_drop B (BucketName entry) tx1 of None \<Rightarrow> Inl ApplyDrop | Some tx2 \<Rightarrow> Inr (tx2, ()))
          else Inr (tx1, ()))"

text \<open>\<open>None\<close> is a panic.\<close>

definition invalidateDocCache :: "('tx, 'p) env \<Rightarrow> BinlogEntry \<Rightarrow> ('tx, 'p) follower \<Rightarrow> ('tx, 'p) follower option" where
  "invalidateDocCache E entry fo =
     (let parts = SplitN 3 (CHR ''|'') (EKey entry)
      in if length parts < 3 then Some fo else
      let collection = parts ! 1; docID = parts ! 2;
          cacheKey = (if length (EValue entry) > 0
                      then (case e_load E (EValue entry) of Ok doc \<Rightarrow> Some (BuildCacheKey collection (DKey doc) (Lang doc))
                            | Err _ \<Rightarrow> Some docID | Panic \<Rightarrow> None)
                      else Some docID)
      in map_option (\<lambda>k. fo\<lparr>fo_server := (fo_server fo)
            \<lparr>sv_cache := map_option (dc_Delete k) (sv_cache (fo_server fo)),
             sv_lfcache := map_option (lf_Delete k) (sv_lfcache (fo_server fo))\<rparr>\<rparr>) cacheKey)"

definition add_effects :: "mem_effect list \<Rightarrow> ('tx, 'p) follower \<Rightarrow> ('tx, 'p) follower" where
  "add_effects es fo = fo\<lparr>fo_effects := fo_effects fo @ es\<rparr>"

definition applyVector :: "managers \<Rightarrow> BinlogEntry \<Rightarrow> ('tx, 'p) follower \<Rightarrow> ('tx, 'p) follower option" where
  "applyVector M entry fo =
     (if \<not> mg_index M then Some fo else
      let parts = SplitKey (EKey entry)
      in if length parts < 3 then Some fo else
      let collection = parts ! 1; docID = parts ! 2
      in if EType entry = BinlogPut
         then (case UnmarshalEmbeddingRecord (EValue entry) of Err _ \<Rightarrow> Some fo | Panic \<Rightarrow> None
               | Ok rec \<Rightarrow> Some (add_effects [IndexAdd collection docID (Vector rec)] fo))
         else if EType entry = BinlogDelete then Some (add_effects [IndexRemove collection docID] fo)
         else Some fo)"

definition updateInMemoryState :: "('tx, 'p) env \<Rightarrow> managers \<Rightarrow> BinlogEntry \<Rightarrow> ('tx, 'p) follower \<Rightarrow> ('tx, 'p) follower option" where
  "updateInMemoryState E M entry fo =
     (if BucketName entry = ''vectors'' then applyVector M entry fo
      else if BucketName entry = ''docs'' then invalidateDocCache E entry fo
      else if BucketName entry = ''webhooks'' then Some (add_effects (if mg_webhooks M then [ReloadWebhooks] else []) fo)
      else if BucketName entry = ''schemas'' then Some (add_effects (if mg_schemas M then [ReloadSchemas] else []) fo)
      else if BucketName entry = ''automation''
        then Some (add_effects ((if mg_automation M then [ReloadAutomation] else []) @ (if mg_cron M then [ReloadCron] else [])) fo)
      else if BucketName entry = ''colmeta'' then Some (add_effects (if mg_collections M then [ReloadCollections] else []) fo)
      else Some fo)"

definition apply_entry :: "('tx, 'p) env \<Rightarrow> managers \<Rightarrow> BinlogEntry \<Rightarrow> ('tx, 'p) follower \<Rightarrow> (apply_error, ('tx, 'p) follower) outcome" where
  "apply_entry E M entry fo =
     (case DBUpdate (e_bolt E) ApplyCommit (apply_txn (e_bolt E) entry) (sv_db (fo_server fo)) of
        (db, Inl err) \<Rightarrow> Err err
      | (db, Inr _) \<Rightarrow>
          (case updateInMemoryState E M entry (fo\<lparr>fo_server := (fo_server fo)\<lparr>sv_db := db\<rparr>\<rparr>) of
             None \<Rightarrow> Panic | Some fo' \<Rightarrow> Ok (fo'\<lparr>fo_lastApplied := LSN entry\<rparr>)))"

fun apply_batch_txn :: "'tx bolt \<Rightarrow> BinlogEntry list \<Rightarrow> 'tx \<Rightarrow> apply_error + ('tx \<times> unit)" where
  "apply_batch_txn B [] tx = Inr (tx, ())"
| "apply_batch_txn B (entry # entries) tx =
     (if EType entry = BinlogDeleteBucket
      then apply_batch_txn B entries (case bk_drop B (BucketName entry) tx of None \<Rightarrow> tx | Some tx' \<Rightarrow> tx')
      else if EType entry = BinlogCheckpoint then apply_batch_txn B entries tx
      else case bk_create B (BucketName entry) tx of None \<Rightarrow> Inl ApplyBucket
        | Some tx1 \<Rightarrow>
            if EType entry = BinlogPut then
              (case bk_put B (BucketName entry) (EKey entry) (EValue entry) tx1 of None \<Rightarrow> Inl ApplyPut
               | Some tx2 \<Rightarrow> apply_batch_txn B entries tx2)
            else if EType entry = BinlogDelete then
              (case bk_delete B (BucketName entry) (EKey entry) tx1 of None \<Rightarrow> Inl ApplyDelete
               | Some tx2 \<Rightarrow> apply_batch_txn B entries tx2)
            else apply_batch_txn B entries tx1)"

fun update_all :: "('tx, 'p) env \<Rightarrow> managers \<Rightarrow> BinlogEntry list \<Rightarrow> ('tx, 'p) follower \<Rightarrow> ('tx, 'p) follower option" where
  "update_all E M [] fo = Some fo"
| "update_all E M (entry # entries) fo =
     (case updateInMemoryState E M entry fo of None \<Rightarrow> None | Some fo' \<Rightarrow> update_all E M entries fo')"

definition ApplyBatch :: "('tx, 'p) env \<Rightarrow> managers \<Rightarrow> BinlogEntry list \<Rightarrow> ('tx, 'p) follower \<Rightarrow> (apply_error, ('tx, 'p) follower) outcome" where
  "ApplyBatch E M entries fo =
     (if entries = [] then Ok fo else
      case DBUpdate (e_bolt E) ApplyCommit (apply_batch_txn (e_bolt E) entries) (sv_db (fo_server fo)) of
        (db, Inl err) \<Rightarrow> Err err
      | (db, Inr _) \<Rightarrow>
          (case update_all E M entries (fo\<lparr>fo_server := (fo_server fo)\<lparr>sv_db := db\<rparr>\<rparr>) of
             None \<Rightarrow> Panic | Some fo' \<Rightarrow> Ok (fo'\<lparr>fo_lastApplied := LSN (last entries)\<rparr>)))"

subsection \<open>The leader\<close>

datatype auth_decision = Accepted | InvalidSecret | RequiresAdmin | Unauthenticated

text \<open>\<open>want\<close> is the configured secret, \<open>got\<close> the one of the request, \<open>mtls\<close> whether the peer has a verified
  certificate, \<open>auth\<close> whether the auth manager is enabled and \<open>admin\<close> its answer.\<close>

definition authorizeReplication :: "bytes \<Rightarrow> bytes \<Rightarrow> bool \<Rightarrow> bool \<Rightarrow> bool \<Rightarrow> auth_decision" where
  "authorizeReplication want got mtls auth admin =
     (if want \<noteq> [] then (if got = want then Accepted else InvalidSecret)
      else if mtls then Accepted
      else if auth then (if admin then Accepted else RequiresAdmin)
      else Unauthenticated)"

record FollowerState =
  FID :: bytes
  ConfirmedLSN :: u64
  LastSeenAt :: int
  Address :: bytes

record leader =
  ld_binlog :: "Binlog option"
  ld_followers :: "(bytes \<times> FollowerState) list"

datatype stream_error = StreamDenied | BinlogDisabled | MissingFollowerID | SnapshotRequired | StreamInternal

text \<open>
  \<open>StreamBinlog\<close> in its steps, between which writers may append: it registers the follower and
  reads the history, then subscribes, then sends what arrives in its channel; when it ends it
  unsubscribes and forgets the follower.
\<close>

definition stream_history :: "auth_decision \<Rightarrow> bytes \<Rightarrow> bytes \<Rightarrow> int \<Rightarrow> u64 \<Rightarrow> leader \<Rightarrow> leader \<times> (stream_error + BinlogEntryProto list)" where
  "stream_history auth followerID addr now fromLSN l =
     (if auth \<noteq> Accepted then (l, Inl StreamDenied) else
      case ld_binlog l of None \<Rightarrow> (l, Inl BinlogDisabled)
      | Some b \<Rightarrow>
         if followerID = [] then (l, Inl MissingFollowerID) else
         let l1 = l\<lparr>ld_followers := AList.update followerID
                      \<lparr>FID = followerID, ConfirmedLSN = fromLSN, LastSeenAt = now, Address = addr\<rparr> (ld_followers l)\<rparr>;
             forget = (\<lambda>l. l\<lparr>ld_followers := AList.delete followerID (ld_followers l)\<rparr>)
         in case ReadFrom True True fromLSN b of
              (b', Inl err) \<Rightarrow> (forget (l1\<lparr>ld_binlog := Some b'\<rparr>), Inl (if err = LSNTooOld then SnapshotRequired else StreamInternal))
            | (b', Inr entries) \<Rightarrow> (l1\<lparr>ld_binlog := Some b'\<rparr>, Inr (map entryToProto entries)))"

definition stream_subscribe :: "bytes \<Rightarrow> leader \<Rightarrow> leader" where
  "stream_subscribe followerID l = l\<lparr>ld_binlog := map_option (Subscribe followerID) (ld_binlog l)\<rparr>"

text \<open>What is waiting in the follower's channel, as it will be sent.\<close>

definition stream_pending :: "bytes \<Rightarrow> leader \<Rightarrow> BinlogEntryProto list" where
  "stream_pending followerID l =
     (case ld_binlog l of None \<Rightarrow> []
      | Some b \<Rightarrow> (case map_of (subscribers b) followerID of None \<Rightarrow> [] | Some ch \<Rightarrow> map entryToProto ch))"

definition stream_end :: "bytes \<Rightarrow> leader \<Rightarrow> leader" where
  "stream_end followerID l = l\<lparr>ld_binlog := map_option (Unsubscribe followerID) (ld_binlog l),
     ld_followers := AList.delete followerID (ld_followers l)\<rparr>"

definition AcknowledgeLSN :: "int \<Rightarrow> bytes \<Rightarrow> u64 \<Rightarrow> leader \<Rightarrow> leader \<times> u64" where
  "AcknowledgeLSN now followerID confirmed l =
     (let l' = (case map_of (ld_followers l) followerID of None \<Rightarrow> l
                | Some fs \<Rightarrow> l\<lparr>ld_followers := AList.update followerID (fs\<lparr>ConfirmedLSN := confirmed, LastSeenAt := now\<rparr>) (ld_followers l)\<rparr>)
      in (l', case ld_binlog l of None \<Rightarrow> 0 | Some b \<Rightarrow> CurrentLSN b))"

text \<open>The lag the status reports for a follower, in milliseconds.\<close>

definition follower_lag :: "leader \<Rightarrow> FollowerState \<Rightarrow> int" where
  "follower_lag l fs =
     (case ld_binlog l of None \<Rightarrow> 0
      | Some b \<Rightarrow> if CurrentLSN b > ConfirmedLSN fs then wrap64 (sint (CurrentLSN b - ConfirmedLSN fs) * 10) else 0)"

subsection \<open>Snapshots\<close>

record SnapshotChunk =
  ChData :: bytes
  ChOffset :: u64
  ChTotalSize :: u64
  ChIsLast :: bool
  ChLSN :: u64

datatype pipe_end = PipeEOF | PipeError

text \<open>The send loop: \<open>reads\<close> are the results of \<^verbatim>\<open>pr.Read\<close>, \<open>send\<close> whether a send succeeds.\<close>

fun snapshot_loop :: "(SnapshotChunk \<Rightarrow> bool) \<Rightarrow> u64 \<Rightarrow> u64 \<Rightarrow> u64 \<Rightarrow> (bytes \<times> pipe_end option) list \<Rightarrow> SnapshotChunk list \<times> bool" where
  "snapshot_loop send snapshotLSN totalSize offset [] = ([], False)"
| "snapshot_loop send snapshotLSN totalSize offset ((d, err) # reads) =
     (let chunk = \<lparr>ChData = d, ChOffset = offset, ChTotalSize = totalSize, ChIsLast = (err = Some PipeEOF), ChLSN = snapshotLSN\<rparr>
      in if length d > 0 \<and> \<not> send chunk then ([], False) else
      let sent = (if length d > 0 then [chunk] else []); offset' = offset + word_of_nat (length d)
      in case err of Some PipeEOF \<Rightarrow> (sent, True) | Some PipeError \<Rightarrow> (sent, False)
         | None \<Rightarrow> (let (rest, ok) = snapshot_loop send snapshotLSN totalSize offset' reads in (sent @ rest, ok)))"

datatype 'a recv = Recv 'a | RecvEOF | RecvErr

fun receive_loop :: "SnapshotChunk recv list \<Rightarrow> bytes \<Rightarrow> u64 \<Rightarrow> (bytes \<times> u64) option" where
  "receive_loop [] data snapshotLSN = None"
| "receive_loop (RecvEOF # rs) data snapshotLSN = Some (data, snapshotLSN)"
| "receive_loop (RecvErr # rs) data snapshotLSN = None"
| "receive_loop (Recv chunk # rs) data snapshotLSN =
     (if ChIsLast chunk then Some (data @ ChData chunk, ChLSN chunk)
      else receive_loop rs (data @ ChData chunk) (ChLSN chunk))"

subsection \<open>The follower\<close>

datatype snapshot_error = SnapshotCall | SnapshotRecv | SnapshotReplace

text \<open>
  \<open>reopen\<close> opens the received file as a store; \<open>None\<close> is any failure of \<open>replaceDatabase\<close>,
  after which the code may have closed the old store; a failing write of the received file is an
  event \<open>RecvErr\<close>.
\<close>

definition requestSnapshot :: "managers \<Rightarrow> (bytes \<Rightarrow> 'tx option) \<Rightarrow> int \<Rightarrow> bool \<Rightarrow> SnapshotChunk recv list \<Rightarrow>
    ('tx, 'p) follower \<Rightarrow> ('tx, 'p) follower \<times> snapshot_error option" where
  "requestSnapshot M reopen now opened events fo =
     (if \<not> opened then (fo, Some SnapshotCall) else
      case receive_loop events [] 0 of None \<Rightarrow> (fo, Some SnapshotRecv)
      | Some (data, snapshotLSN) \<Rightarrow>
         (case reopen data of None \<Rightarrow> (fo, Some SnapshotReplace)
          | Some db \<Rightarrow>
             (fo\<lparr>fo_server := (fo_server fo)\<lparr>sv_db := db, sv_cache := map_option dc_Clear (sv_cache (fo_server fo))\<rparr>,
                 fo_lastApplied := snapshotLSN, fo_lastAppliedAt := now,
                 fo_effects := fo_effects fo @ (if mg_index M then [ReloadVectors] else []) @
                   (if mg_webhooks M then [ReloadWebhooks] else []) @ (if mg_schemas M then [ReloadSchemas] else [])\<rparr>, None)))"

datatype open_result = Opened | RefusedPrecondition | RefusedOther

datatype replicate_result = RoundEnded | RoundError | RoundPanic

text \<open>The receive loop; an empty event list is a stop request.  A failed apply is skipped.\<close>

fun recv_loop :: "('tx, 'p) env \<Rightarrow> managers \<Rightarrow> int \<Rightarrow> BinlogEntryProto recv list \<Rightarrow> ('tx, 'p) follower \<Rightarrow>
    ('tx, 'p) follower \<times> replicate_result" where
  "recv_loop E M now [] fo = (fo, RoundEnded)"
| "recv_loop E M now (RecvEOF # rs) fo = (fo, RoundEnded)"
| "recv_loop E M now (RecvErr # rs) fo = (fo, RoundError)"
| "recv_loop E M now (Recv p # rs) fo =
     (case apply_entry E M (protoToEntry p) fo of
        Err _ \<Rightarrow> recv_loop E M now rs fo | Panic \<Rightarrow> (fo, RoundPanic)
      | Ok fo' \<Rightarrow> recv_loop E M now rs (fo'\<lparr>fo_lastAppliedAt := now\<rparr>))"

text \<open>
  One round of the replication loop: \<open>opened\<close> is what the call \<^verbatim>\<open>StreamBinlog\<close> returns,
  \<open>events\<close> what \<^verbatim>\<open>Recv\<close> returns, \<open>snap\<close> the snapshot call and its events.
\<close>

definition replicate_round :: "('tx, 'p) env \<Rightarrow> managers \<Rightarrow> (bytes \<Rightarrow> 'tx option) \<Rightarrow> int \<Rightarrow> open_result \<Rightarrow>
    BinlogEntryProto recv list \<Rightarrow> bool \<times> SnapshotChunk recv list \<Rightarrow> ('tx, 'p) follower \<Rightarrow>
    ('tx, 'p) follower \<times> replicate_result" where
  "replicate_round E M reopen now opened events snap fo =
     (case opened of
        RefusedPrecondition \<Rightarrow>
          (case requestSnapshot M reopen now (fst snap) (snd snap) fo of
             (fo', None) \<Rightarrow> (fo', RoundEnded) | (fo', Some _) \<Rightarrow> (fo', RoundError))
      | RefusedOther \<Rightarrow> (fo, RoundError)
      | Opened \<Rightarrow> recv_loop E M now events fo)"

text \<open>Times in nanoseconds, as \<^verbatim>\<open>time.Duration\<close> has them.\<close>

definition IsHealthy :: "int \<Rightarrow> int \<Rightarrow> ('tx, 'p) follower \<Rightarrow> bool" where
  "IsHealthy now maxLag fo \<longleftrightarrow> fo_lastAppliedAt fo \<noteq> 0 \<and> now - fo_lastAppliedAt fo * 1000000000 < maxLag"

end
