(* ===== verification/Replication_Safety.thy ===== *)
theory Replication_Safety
  imports Replication
begin

section \<open>What replication guarantees\<close>

text \<open>
  Applying entries is replaying them; replaying twice is replaying once, so a snapshot that is
  newer than its LSN does no harm; and a follower that has received the history has the leader's
  store.  Then the places where a follower silently falls behind or keeps stale data.
\<close>

subsection \<open>Replaying twice\<close>

text \<open>What an entry does to one key, and what the last entry that touches it leaves.\<close>

fun entry_effect :: "BinlogEntry \<Rightarrow> bytes \<Rightarrow> bytes \<Rightarrow> bytes option option" where
  "entry_effect e b k =
     (if EType e = BinlogPut then (if b = BucketName e \<and> k = EKey e then Some (Some (EValue e)) else None)
      else if EType e = BinlogDelete then (if b = BucketName e \<and> k = EKey e then Some None else None)
      else if EType e = BinlogDeleteBucket then (if b = BucketName e then Some None else None)
      else None)"

fun last_effect :: "BinlogEntry list \<Rightarrow> bytes \<Rightarrow> bytes \<Rightarrow> bytes option option" where
  "last_effect [] b k = None"
| "last_effect (e # es) b k = (case last_effect es b k of Some v \<Rightarrow> Some v | None \<Rightarrow> entry_effect e b k)"

declare entry_effect.simps [simp del]

lemma replay_entry_effect: "replay_entry e c b k = (case entry_effect e b k of Some v \<Rightarrow> v | None \<Rightarrow> c b k)"
  by (auto simp: replay_entry.simps entry_effect.simps store_simps)

lemma replay_last_effect: "replay es c b k = (case last_effect es b k of Some v \<Rightarrow> v | None \<Rightarrow> c b k)"
  by (induction es arbitrary: c) (simp_all add: replay_entry_effect split: option.split)

lemma replay_twice: "replay es (replay es c) = replay es c"
  by (rule ext)+ (simp add: replay_last_effect split: option.split)

lemma replay_overlap: "replay (bs @ cs) (replay (as @ bs) c) = replay (as @ bs @ cs) c"
  by (simp add: replay_twice)

subsection \<open>Applying is replaying\<close>

locale bolt_buckets = bolt_laws B cont for B :: "'tx bolt" and cont :: "'tx \<Rightarrow> contents" +
  assumes drop_none: "bk_drop B b tx = None \<Longrightarrow> cont tx b = (\<lambda>_. None)"
begin

lemma apply_txn_replay: "apply_txn B e tx = Inr (tx', u) \<Longrightarrow> cont tx' = replay_entry e (cont tx)"
  using put_law delete_law drop_law create_law
  by (auto simp: apply_txn_def replay_entry.simps split: option.splits if_splits)

lemma drop_quiet: "cont (case bk_drop B b tx of None \<Rightarrow> tx | Some tx' \<Rightarrow> tx') = c_drop b (cont tx)"
  using drop_none drop_law by (auto simp: c_drop_def split: option.split)

lemma apply_batch_txn_replay: "apply_batch_txn B es tx = Inr (tx', u) \<Longrightarrow> cont tx' = replay es (cont tx)"
proof (induction es arbitrary: tx)
  case (Cons e es)
  consider "EType e = BinlogDeleteBucket" | "EType e = BinlogCheckpoint"
    | "EType e \<noteq> BinlogDeleteBucket" "EType e \<noteq> BinlogCheckpoint" by blast
  then show ?case
  proof cases
    case 1
    with Cons show ?thesis using drop_quiet by (simp add: replay_entry.simps)
  next
    case 2
    with Cons show ?thesis by (simp add: replay_entry.simps)
  next
    case 3
    with Cons.prems obtain tx1 where tx1: "bk_create B (BucketName e) tx = Some tx1" by (auto split: option.splits)
    have c1: "cont tx1 = cont tx" by (rule create_law [OF tx1])
    have "\<exists>tx2. cont tx2 = replay_entry e (cont tx) \<and> apply_batch_txn B es tx2 = Inr (tx', u)"
    proof (cases "EType e = BinlogPut")
      case True
      with Cons.prems 3 tx1 obtain tx2 where "bk_put B (BucketName e) (EKey e) (EValue e) tx1 = Some tx2"
        "apply_batch_txn B es tx2 = Inr (tx', u)" by (auto split: option.splits)
      then show ?thesis using True c1 put_law by (intro exI [of _ tx2]) (simp add: replay_entry.simps)
    next
      case False
      show ?thesis
      proof (cases "EType e = BinlogDelete")
        case True
        with Cons.prems 3 False tx1 obtain tx2 where "bk_delete B (BucketName e) (EKey e) tx1 = Some tx2"
          "apply_batch_txn B es tx2 = Inr (tx', u)" by (auto split: option.splits)
        then show ?thesis using True c1 delete_law by (intro exI [of _ tx2]) (simp add: replay_entry.simps)
      next
        case F: False
        with Cons.prems 3 False tx1 have "apply_batch_txn B es tx1 = Inr (tx', u)" by simp
        then show ?thesis using F False 3 c1 by (intro exI [of _ tx1]) (simp add: replay_entry.simps)
      qed
    qed
    then show ?thesis using Cons.IH by auto
  qed
qed simp

end

interpretation mem_buckets: bolt_buckets mem_bolt mem_contents
  by unfold_locales (auto simp: mem_bolt_def mem_contents_def mem_bucket_def fun_eq_iff split: if_splits option.splits)

lemma update_db: "updateInMemoryState E M e fo = Some fo' \<Longrightarrow>
    sv_db (fo_server fo') = sv_db (fo_server fo) \<and> fo_lastApplied fo' = fo_lastApplied fo"
  by (auto simp: updateInMemoryState_def applyVector_def invalidateDocCache_def add_effects_def Let_def
      split: if_splits outcome.splits)

lemma update_all_db: "update_all E M es fo = Some fo' \<Longrightarrow> sv_db (fo_server fo') = sv_db (fo_server fo)"
  by (induction es arbitrary: fo) (auto split: option.splits dest: update_db)

abbreviation fo_contents :: "('tx \<Rightarrow> contents) \<Rightarrow> ('tx, 'p) follower \<Rightarrow> contents" where
  "fo_contents cont fo \<equiv> cont (sv_db (fo_server fo))"

lemma apply_entry_Ok:
  assumes B: "bolt_buckets (e_bolt E) cont" and a: "apply_entry E M e fo = Ok fo'"
  shows "fo_contents cont fo' = replay_entry e (fo_contents cont fo) \<and> fo_lastApplied fo' = LSN e"
proof -
  obtain db r where d: "DBUpdate (e_bolt E) ApplyCommit (apply_txn (e_bolt E) e) (sv_db (fo_server fo)) = (db, r)"
    by (cases "DBUpdate (e_bolt E) ApplyCommit (apply_txn (e_bolt E) e) (sv_db (fo_server fo))")
  note A = a [unfolded apply_entry_def d prod.case]
  from A obtain u where r: "r = Inr u" by (cases r) auto
  from d r obtain tx' where "apply_txn (e_bolt E) e (sv_db (fo_server fo)) = Inr (tx', u)" "bk_commit (e_bolt E) tx' = Some db"
    by (auto simp: DBUpdate_Inr)
  then have "cont db = replay_entry e (fo_contents cont fo)"
    using bolt_buckets.apply_txn_replay [OF B] bolt_laws.commit_law [OF bolt_buckets.axioms(1) [OF B]] by metis
  with A r show ?thesis by (auto dest!: update_db split: option.splits)
qed

text \<open>Entries whose application cannot fail.\<close>

definition applies :: "('tx, 'p) env \<Rightarrow> managers \<Rightarrow> BinlogEntry list \<Rightarrow> bool" where
  "applies E M es \<longleftrightarrow> (\<forall>e \<in> set es. \<forall>fo. \<exists>fo'. apply_entry E M e fo = Ok fo')"

lemma recv_loop_applies:
  assumes B: "bolt_buckets (e_bolt E) cont" and "applies E M es"
  shows "\<exists>fo'. recv_loop E M now (map (\<lambda>e. Recv (entryToProto e)) es @ rs) fo = recv_loop E M now rs fo' \<and>
     fo_contents cont fo' = replay es (fo_contents cont fo) \<and>
     fo_lastApplied fo' = (if es = [] then fo_lastApplied fo else LSN (last es))"
  using assms(2)
proof (induction es arbitrary: fo)
  case (Cons e es)
  from Cons.prems obtain fo1 where fo1: "apply_entry E M e fo = Ok fo1"
    unfolding applies_def by (meson list.set_intros(1))
  note a = apply_entry_Ok [OF B fo1]
  have ok: "applies E M es" using Cons.prems by (simp add: applies_def)
  let ?fo1 = "fo1\<lparr>fo_lastAppliedAt := now\<rparr>"
  obtain fo' where "recv_loop E M now (map (\<lambda>e. Recv (entryToProto e)) es @ rs) ?fo1 = recv_loop E M now rs fo'"
    "fo_contents cont fo' = replay es (fo_contents cont ?fo1)"
    "fo_lastApplied fo' = (if es = [] then fo_lastApplied ?fo1 else LSN (last es))"
    using Cons.IH [OF ok, of ?fo1] by blast
  with fo1 a show ?case by (intro exI [of _ fo']) (cases "es = []"; simp)
qed auto

subsection \<open>Positions in the log\<close>

lemma filter_le_take: "lsns_from l es \<Longrightarrow> filter (\<lambda>e. unat (LSN e) \<le> n) es = take (Suc n - l) es"
proof (induction es arbitrary: l)
  case (Cons e es)
  show ?case
  proof (cases "l \<le> n")
    case True
    then have "Suc n - l = Suc (n - l)" by simp
    moreover have "filter (\<lambda>e. unat (LSN e) \<le> n) es = take (n - l) es" using Cons.IH [of "Suc l"] Cons.prems by simp
    ultimately show ?thesis using Cons.prems True by simp
  next
    case False
    then have "filter (\<lambda>e. unat (LSN e) \<le> n) es = []"
      using Cons by (auto simp: filter_empty_conv dest: lsns_from_ge)
    with Cons False show ?thesis by simp
  qed
qed simp

lemma filter_gt_drop: "lsns_from l es \<Longrightarrow> filter (\<lambda>e. n < unat (LSN e)) es = drop (Suc n - l) es"
  using lsns_from_filter [of l es "Suc n"] by (simp add: Suc_le_eq)

text \<open>A follower whose store is the log up to some position at or after its own LSN catches up by
  replaying the entries above its LSN.\<close>

lemma replay_catch_up:
  assumes "lsns_from l es" and "m \<le> n"
  shows "replay (filter (\<lambda>e. m < unat (LSN e)) es) (replay (filter (\<lambda>e. unat (LSN e) \<le> n) es) c) = replay es c"
proof -
  let ?i = "Suc m - l" and ?j = "Suc n - l"
  define as where "as = take ?i es"
  define bs where "bs = take (?j - ?i) (drop ?i es)"
  define cs where "cs = drop ?j es"
  have le: "?i \<le> ?j" using assms(2) by simp
  have "take ?j es = as @ bs"
    unfolding as_def bs_def using take_add [of ?i "?j - ?i" es] by (simp only: le_add_diff_inverse [OF le])
  moreover have "drop ?i es = bs @ cs"
    unfolding bs_def cs_def using append_take_drop_id [of "?j - ?i" "drop ?i es"]
    by (simp only: drop_drop le_add_diff_inverse2 [OF le])
  moreover have "es = as @ bs @ cs" using \<open>drop ?i es = bs @ cs\<close> append_take_drop_id [of ?i es] by (simp add: as_def)
  ultimately show ?thesis
    using filter_gt_drop [OF assms(1)] filter_le_take [OF assms(1)] replay_overlap by metis
qed


lemma replay_entry_read [simp]: "replay (map entry_read es) c = replay es c"
proof (induction es arbitrary: c)
  case (Cons e es)
  have "replay_entry (entry_read e) c = replay_entry e c" for c by (simp add: replay_entry.simps entry_read_def)
  with Cons show ?case by simp
qed simp

subsection \<open>A session\<close>

text \<open>
  The call that opens a server stream returns before the handler of the leader has run (grpc-go
  documents that the status of a stream is the result of \<^verbatim>\<open>RecvMsg\<close>), so what the
  handler answers reaches the follower through \<^verbatim>\<open>Recv\<close>.
\<close>

definition session_events :: "stream_error + BinlogEntryProto list \<Rightarrow> BinlogEntryProto recv list" where
  "session_events r = (case r of Inl _ \<Rightarrow> [RecvErr] | Inr ps \<Rightarrow> map Recv ps)"

definition session :: "('tx, 'p) env \<Rightarrow> managers \<Rightarrow> (bytes \<Rightarrow> 'tx option) \<Rightarrow> int \<Rightarrow> bytes \<Rightarrow> bytes \<Rightarrow>
    bool \<times> SnapshotChunk recv list \<Rightarrow> leader \<Rightarrow> ('tx, 'p) follower \<Rightarrow> ('tx, 'p) follower \<times> replicate_result" where
  "session E M reopen now followerID addr snap l fo =
     replicate_round E M reopen now Opened
       (session_events (snd (stream_history Accepted followerID addr now (fo_lastApplied fo) l))) snap fo"

lemma stream_history_rep:
  assumes "log_rep b es" and "ld_binlog l = Some b" and "i \<noteq> []"
  shows "snd (stream_history Accepted i addr now start l) =
    (if start > 0 \<and> es \<noteq> [] \<and> start < LSN (hd es) then Inl SnapshotRequired
     else Inr (map (entryToProto \<circ> entry_read) (filter (\<lambda>e. LSN e > start) es)))"
  using ReadFrom_rep [OF assms(1), of start] assms(2,3) by (auto simp: stream_history_def Let_def)

lemma session_rep:
  assumes "log_rep b es" and "ld_binlog l = Some b" and "i \<noteq> []"
  shows "session E M reopen now i addr snap l fo =
    (if fo_lastApplied fo > 0 \<and> es \<noteq> [] \<and> fo_lastApplied fo < LSN (hd es) then (fo, RoundError)
     else recv_loop E M now (map (\<lambda>e. Recv (entryToProto e)) (map entry_read (filter (\<lambda>e. LSN e > fo_lastApplied fo) es))) fo)"
  unfolding session_def stream_history_rep [OF assms]
  by (simp add: session_events_def replicate_round_def comp_def)


subsection \<open>A concrete follower\<close>

definition demo_managers :: managers where
  "demo_managers = \<lparr>mg_index = True, mg_webhooks = True, mg_schemas = True, mg_automation = True, mg_cron = True, mg_collections = True\<rparr>"

definition demo_follower :: "u64 \<Rightarrow> mem_db \<Rightarrow> (mem_db, unit) follower" where
  "demo_follower l db = \<lparr>fo_server = ref_server None db, fo_lastApplied = l, fo_lastAppliedAt = 0, fo_effects = []\<rparr>"

definition demo_leader :: "BinlogEntry list \<Rightarrow> leader" where
  "demo_leader es = \<lparr>ld_binlog = Some (log_of es), ld_followers = []\<rparr>"

definition demo_put :: "u64 \<Rightarrow> bytes \<Rightarrow> BinlogEntry" where
  "demo_put l k = zero_entry\<lparr>LSN := l, EType := BinlogPut, BucketName := ''x'', EKey := k, EValue := ''v''\<rparr>"

lemma demo_put_simps [simp]: "LSN (demo_put l k) = l" "length k < 2 ^ 32 \<Longrightarrow> entry_fits (demo_put l k)"
  "entry_effect (demo_put l k) b k' = (if b = ''x'' \<and> k' = k then Some (Some ''v'') else None)"
  by (simp_all add: demo_put_def zero_entry_def entry_fits_def entry_effect.simps)

lemma demo_leader_simps [simp]: "ld_binlog (demo_leader es) = Some (log_of es)"
  by (simp add: demo_leader_def)

lemma demo_follower_simps [simp]: "fo_lastApplied (demo_follower l db) = l" "sv_db (fo_server (demo_follower l db)) = db"
  by (simp_all add: demo_follower_def ref_server_def)

lemma demo_buckets: "bolt_buckets (e_bolt (ref_env cap)) mem_contents"
  by (simp add: ref_env_def mem_buckets.bolt_buckets_axioms)

lemma demo_apply: "k \<noteq> [] \<Longrightarrow> length k \<le> 32768 \<Longrightarrow> \<exists>fo'. apply_entry (ref_env cap) M (entry_read (demo_put l k)) fo = Ok fo'"
  by (simp add: apply_entry_def DBUpdate_def apply_txn_def entry_read_def demo_put_def zero_entry_def ref_env_def mem_bolt_def
      updateInMemoryState_def)

lemma demo_applies: "(\<forall>k \<in> set ks. k \<noteq> [] \<and> length k \<le> 32768) \<Longrightarrow>
    applies (ref_env cap) M (map entry_read (map2 demo_put ls ks))"
  unfolding applies_def by (auto dest!: set_zip_rightD intro: demo_apply)

lemma demo_log: "log_rep (log_of [demo_put 5 ''a'', demo_put 6 ''b'']) [demo_put 5 ''a'', demo_put 6 ''b'']"
  by (rule log_rep_log_of [where l = 5]) auto

subsection \<open>Properties\<close>

text \<open>C10: A batch of entries applied on a follower does to its store exactly what replaying the
  entries in order does, and the follower's LSN becomes that of the last entry; a single entry is
  applied as a batch of one would be.\<close>

theorem apply_refines_replay:
  assumes "bolt_buckets (e_bolt E) cont"
  shows "(\<forall>es fo'. ApplyBatch E M es fo = Ok fo' \<longrightarrow> fo_contents cont fo' = replay es (fo_contents cont fo) \<and>
            (es \<noteq> [] \<longrightarrow> fo_lastApplied fo' = LSN (last es))) \<and>
         (\<forall>e fo'. apply_entry E M e fo = Ok fo' \<longrightarrow> fo_contents cont fo' = replay [e] (fo_contents cont fo) \<and>
            fo_lastApplied fo' = LSN e)"
proof -
  have "fo_contents cont fo' = replay es (fo_contents cont fo) \<and> (es \<noteq> [] \<longrightarrow> fo_lastApplied fo' = LSN (last es))"
    if a: "ApplyBatch E M es fo = Ok fo'" for es fo'
  proof (cases "es = []")
    case False
    obtain db r where d: "DBUpdate (e_bolt E) ApplyCommit (apply_batch_txn (e_bolt E) es) (sv_db (fo_server fo)) = (db, r)"
      by (cases "DBUpdate (e_bolt E) ApplyCommit (apply_batch_txn (e_bolt E) es) (sv_db (fo_server fo))")
    note A = a [unfolded ApplyBatch_def if_not_P [OF False] d prod.case]
    from A obtain u where r: "r = Inr u" by (cases r) auto
    from d r obtain tx' where "apply_batch_txn (e_bolt E) es (sv_db (fo_server fo)) = Inr (tx', u)" "bk_commit (e_bolt E) tx' = Some db"
      by (auto simp: DBUpdate_Inr)
    then have "cont db = replay es (fo_contents cont fo)"
      using bolt_buckets.apply_batch_txn_replay [OF assms] bolt_laws.commit_law [OF bolt_buckets.axioms(1) [OF assms]] by metis
    with A r False show ?thesis by (auto dest!: update_all_db split: option.splits)
  qed (use a in \<open>simp add: ApplyBatch_def\<close>)
  then show ?thesis using apply_entry_Ok [OF assms] by simp
qed

theorem apply_refines_replay_witness:
  "\<exists>fo'. apply_entry (ref_env None) demo_managers (entry_read (demo_put 5 ''a'')) (demo_follower 4 []) = Ok fo' \<and>
     fo_contents mem_contents fo' ''x'' ''a'' = Some ''v'' \<and> fo_lastApplied fo' = 5"
proof -
  have "\<exists>fo'. apply_entry (ref_env None) demo_managers (entry_read (demo_put 5 ''a'')) (demo_follower 4 []) = Ok fo'"
    by (rule demo_apply) simp_all
  then obtain fo' where fo': "apply_entry (ref_env None) demo_managers (entry_read (demo_put 5 ''a'')) (demo_follower 4 []) = Ok fo'" ..
  with apply_refines_replay [OF demo_buckets, of None demo_managers "demo_follower 4 []"] show ?thesis
    by (intro exI [of _ fo']) (simp add: replay_entry.simps entry_read_def demo_put_def zero_entry_def c_put_def)
qed




text \<open>A follower that has fallen behind the leader's log never catches up: the refusal that
  should make it take a snapshot reaches it through the stream and not from the call that opens
  it, so in every session, whatever the leader logs in between, it fails and stays as it is.\<close>

theorem old_follower_never_catches_up:
  assumes "\<forall>l \<in> set ls. \<exists>b e es. ld_binlog l = Some b \<and> log_rep b (e # es) \<and> fo_lastApplied fo < LSN e"
    and "0 < fo_lastApplied fo" and "i \<noteq> []"
  shows "(\<forall>l \<in> set ls. session E M reopen now i addr snap l fo = (fo, RoundError)) \<and>
     fold (\<lambda>l fo. fst (session E M reopen now i addr snap l fo)) ls fo = fo"
proof -
  have s: "session E M reopen now i addr snap l fo = (fo, RoundError)" if l: "l \<in> set ls" for l
  proof -
    obtain b e es where "ld_binlog l = Some b" "log_rep b (e # es)" "fo_lastApplied fo < LSN e" using assms(1) l by blast
    then show ?thesis using session_rep [of b "e # es" l i E M reopen now addr snap fo] assms(2,3) by simp
  qed
  have "set ks \<subseteq> set ls \<Longrightarrow> fold (\<lambda>l fo. fst (session E M reopen now i addr snap l fo)) ks fo = fo" for ks
    by (induction ks) (simp_all add: s)
  with s show ?thesis by blast
qed

theorem old_follower_never_catches_up_witness:
  "session (ref_env None) demo_managers (\<lambda>_. None) 9 ''f'' ''a:1'' (True, []) (demo_leader [demo_put 5 ''a'', demo_put 6 ''b''])
     (demo_follower 3 []) = (demo_follower 3 [], RoundError)"
proof -
  have "\<forall>l \<in> set [demo_leader [demo_put 5 ''a'', demo_put 6 ''b'']]. \<exists>b e es. ld_binlog l = Some b \<and> log_rep b (e # es) \<and>
      fo_lastApplied (demo_follower 3 []) < LSN e"
    using demo_log by auto
  then show ?thesis
    using old_follower_never_catches_up [of "[demo_leader [demo_put 5 ''a'', demo_put 6 ''b'']]" "demo_follower 3 []" "''f''"
        "ref_env None" demo_managers "\<lambda>_. None" 9 "''a:1''" "(True, [])"] by simp
qed

text \<open>A follower that starts from nothing is never told to take a snapshot: when the leader's
  log no longer holds its whole history, the session ends without an error, and whatever the
  discarded part wrote and the kept part does not touch is missing on the follower for good.\<close>

theorem fresh_follower_misses_rotated:
  assumes B: "bolt_buckets (e_bolt E) cont" and rep: "log_rep b es" "ld_binlog l = Some b" "i \<noteq> []"
    and fo: "fo_lastApplied fo = 0" "fo_contents cont fo = (\<lambda>_ _. None)"
    and ok: "applies E M (map entry_read es)"
    and old: "replay old (\<lambda>_ _. None) bk k = Some v" "last_effect es bk k = None"
  shows "\<exists>fo'. session E M reopen now i addr snap l fo = (fo', RoundEnded) \<and>
     fo_contents cont fo' bk k = None \<and> replay (old @ es) (\<lambda>_ _. None) bk k = Some v"
proof -
  have "filter (\<lambda>e. LSN e > 0) es = es"
  proof (rule filter_True, rule ballI)
    fix e assume "e \<in> set es"
    then have "0 < unat (LSN e)"
      using rep(1) lsns_from_ge [of "unat (lsn b) - length es + 1" es e] by (simp add: log_rep_def)
    then show "LSN e > 0" by (simp add: word_less_nat_alt)
  qed
  then have s: "session E M reopen now i addr snap l fo = recv_loop E M now (map (\<lambda>e. Recv (entryToProto e)) (map entry_read es)) fo"
    using session_rep [OF rep, of E M reopen now addr snap fo] fo(1) by simp
  obtain fo' where "recv_loop E M now (map (\<lambda>e. Recv (entryToProto e)) (map entry_read es)) fo = (fo', RoundEnded)"
    "fo_contents cont fo' = replay es (\<lambda>_ _. None)"
    using recv_loop_applies [OF B ok, of now "[]" fo] fo(2) by auto
  with s old show ?thesis by (intro exI [of _ fo']) (simp add: replay_last_effect)
qed

theorem fresh_follower_misses_rotated_witness:
  "\<exists>fo'. session (ref_env None) demo_managers (\<lambda>_. None) 9 ''f'' ''a:1'' (True, []) (demo_leader [demo_put 5 ''a'', demo_put 6 ''b''])
       (demo_follower 0 []) = (fo', RoundEnded) \<and> fo_contents mem_contents fo' ''x'' ''old'' = None"
proof -
  have c: "fo_contents mem_contents (demo_follower 0 []) = (\<lambda>_ _. None)"
    by (rule ext)+ (simp add: mem_contents_def mem_bucket_def)
  have ok: "applies (ref_env None) demo_managers (map entry_read [demo_put 5 ''a'', demo_put 6 ''b''])"
    using demo_applies [of "[''a'', ''b'']" None demo_managers "[5, 6]"] by simp
  have old: "replay [demo_put 4 ''old''] (\<lambda>_ _. None) ''x'' ''old'' = Some ''v''"
    "last_effect [demo_put 5 ''a'', demo_put 6 ''b''] ''x'' ''old'' = None"
    by (simp_all add: replay_entry_effect)
  have "''f'' \<noteq> []" by simp
  from fresh_follower_misses_rotated [OF demo_buckets demo_log demo_leader_simps this _ c ok old,
      of "\<lambda>_. None" 9 "''a:1''" "(True, [])"]
  show ?thesis by auto
qed


subsection \<open>The gap between the history and the subscription\<close>

lemma stream_history_log:
  assumes "log_rep b es" and "ld_binlog l = Some b" and "stream_history Accepted i addr now start l = (l1, Inr ps)"
  obtains b1 where "ld_binlog l1 = Some b1" "log_rep b1 es" "lsn b1 = lsn b"
    "ps = map (entryToProto \<circ> entry_read) (filter (\<lambda>e. LSN e > start) es)"
  using ReadFrom_rep [OF assms(1), of start] assms(2,3)
  by (auto simp: stream_history_def Let_def split: if_splits)

lemma lsns_from_less: "lsns_from l es \<Longrightarrow> e \<in> set es \<Longrightarrow> unat (LSN e) < l + length es"
  by (induction es arbitrary: l) force+

lemma Append_subscriber:
  assumes "Append now True e b = (b', None)" and "map_of (subscribers b) i = Some ch" and "length ch < binlogSubscriberCap"
  shows "map_of (subscribers b') i = Some (ch @ [stamped (lsn b + 1) now e])"
  using assms by (auto simp: Append_def notifySubscribers_def map_of_map stamped_def Let_def case_prod_beta split: if_splits)

text \<open>A write that the leader logs after a stream has read the history and before it has
  subscribed is never sent: it is neither in the history nor in the channel, while the entry
  logged after the subscription is; and once the follower has applied that one, no later session
  asks for the lost entry again.\<close>

theorem stream_gap_lost:
  assumes rep: "log_rep b es" "ld_binlog l = Some b" "entry_fits g" "entry_fits h" "unat (lsn b) + 2 < 2 ^ 64"
    and hist: "stream_history Accepted i addr now start l = (l1, Inr ps)" "ld_binlog l1 = Some b1"
    and gap: "Append t1 True g b1 = (b2, None)"
    and sub: "l2 = stream_subscribe i (l1\<lparr>ld_binlog := Some b2\<rparr>)" "ld_binlog l2 = Some b3"
    and after: "Append t2 True h b3 = (b4, None)" "l3 = l2\<lparr>ld_binlog := Some b4\<rparr>"
    and fo: "fo_lastApplied fo = lsn b + 2" "i' \<noteq> []"
  shows "log_rep b4 (es @ [stamped (lsn b + 1) t1 g, stamped (lsn b + 2) t2 h]) \<and>
     stream_pending i l3 = [entryToProto (stamped (lsn b + 2) t2 h)] \<and>
     lsn b + 1 \<notin> PLsn ` set (ps @ stream_pending i l3) \<and>
     session E M reopen now' i' addr' snap l3 fo = (fo, RoundEnded)"
proof -
  obtain b1' where "ld_binlog l1 = Some b1'" "log_rep b1' es" "lsn b1' = lsn b"
    and ps: "ps = map (entryToProto \<circ> entry_read) (filter (\<lambda>e. LSN e > start) es)"
    using stream_history_log [OF rep(1,2) hist(1)] by metis
  with hist(2) have b1: "log_rep b1 es" "lsn b1 = lsn b" by simp_all
  have bound: "unat (lsn b1) + 1 < 2 ^ 64" using rep(5) b1 by simp
  from Append_cases [OF b1(1) rep(3) bound, of t1 True] gap b1(2)
  have b2: "log_rep b2 (es @ [stamped (lsn b + 1) t1 g])" "lsn b2 = lsn b + 1" by auto
  have b3: "b3 = Subscribe i b2" using sub by (simp add: stream_subscribe_def)
  have rep3: "log_rep b3 (es @ [stamped (lsn b + 1) t1 g])" "lsn b3 = lsn b + 1"
    using b2 by (simp_all add: b3 Subscribe_def log_rep_def)
  have u1: "unat (lsn b + 1) = Suc (unat (lsn b))" using unat_lsn_Suc [of "lsn b"] rep(5) by simp
  have u2: "lsn b + 1 + 1 = lsn b + 2" "unat (lsn b + 2) = Suc (Suc (unat (lsn b)))"
    using unat_lsn_Suc [of "lsn b + 1"] u1 rep(5) by (simp_all add: add.assoc)
  from Append_cases [OF rep3(1) rep(4), of t2 True] after(1) rep3(2) u1 u2 rep(5)
  have b4: "log_rep b4 (es @ [stamped (lsn b + 1) t1 g, stamped (lsn b + 2) t2 h])" by auto
  have "map_of (subscribers b3) i = Some []" by (simp add: b3 Subscribe_def AList.update_conv')
  then have "map_of (subscribers b4) i = Some [stamped (lsn b + 2) t2 h]"
    using Append_subscriber [OF after(1)] rep3(2) u2(1) by (simp add: binlogSubscriberCap_def)
  then have pend: "stream_pending i l3 = [entryToProto (stamped (lsn b + 2) t2 h)]"
    by (simp add: stream_pending_def after(2))
  have le: "unat (LSN e) \<le> unat (lsn b)" if "e \<in> set es" for e
    using rep(1) lsns_from_less [of "unat (lsn b) - length es + 1" es e] that by (simp add: log_rep_def)
  have lost: "lsn b + 1 \<notin> PLsn ` set (ps @ stream_pending i l3)"
  proof
    assume "lsn b + 1 \<in> PLsn ` set (ps @ stream_pending i l3)"
    then consider e where "e \<in> set es" "LSN e = lsn b + 1" | "lsn b + 1 = lsn b + 2"
      by (auto simp: ps pend entryToProto_def)
    then show False using le u1 u2(2) by cases (force, metis n_not_Suc_n)
  qed
  have "filter (\<lambda>e. LSN e > lsn b + 2) (es @ [stamped (lsn b + 1) t1 g, stamped (lsn b + 2) t2 h]) = []"
    using le u1 u2(2) by (force simp: filter_empty_conv word_less_nat_alt)
  moreover have "\<not> lsn b + 2 < LSN (hd (es @ [stamped (lsn b + 1) t1 g, stamped (lsn b + 2) t2 h]))"
  proof (cases es)
    case (Cons a list)
    with le [of a] u2(2) show ?thesis by (simp add: word_less_nat_alt)
  qed (use u1 u2(2) in \<open>simp add: word_less_nat_alt\<close>)
  ultimately have "session E M reopen now' i' addr' snap l3 fo = (fo, RoundEnded)"
    using session_rep [OF b4, of l3 i' E M reopen now' addr' snap fo] fo by (simp add: after(2))
  with b4 pend lost show ?thesis by blast
qed

theorem stream_gap_lost_witness:
  "\<exists>l3 ps. lsn (log_of []) + 1 \<notin> PLsn ` set (ps @ stream_pending ''f'' l3) \<and>
     session (ref_env None) demo_managers (\<lambda>_. None) 9 ''f'' ''a:1'' (True, []) l3 (demo_follower 2 []) = (demo_follower 2 [], RoundEnded)"
proof -
  let ?g = "demo_put 0 ''a''" and ?h = "demo_put 0 ''b''"
  have rep: "log_rep (log_of []) []" by (rule log_rep_log_of [where l = 1]) simp_all
  have l0: "lsn (log_of []) = 0" by (simp add: log_of_def)
  have "snd (stream_history Accepted ''f'' ''a:1'' 9 0 (demo_leader [])) = Inr []"
    using stream_history_rep [OF rep, of "demo_leader []" "''f''"] by simp
  then obtain l1 where l1: "stream_history Accepted ''f'' ''a:1'' 9 0 (demo_leader []) = (l1, Inr [])" by (metis prod.collapse)
  then obtain b1 where b1: "ld_binlog l1 = Some b1" "log_rep b1 []" "lsn b1 = 0"
    using stream_history_log [OF rep _ l1] l0 by auto
  obtain b2 where b2: "Append 7 True ?g b1 = (b2, None)" "lsn b2 = 1" "log_rep b2 [stamped 1 7 ?g]"
    using Append_cases [OF b1(2), of ?g 7 True] b1(3) by auto
  let ?l2 = "stream_subscribe ''f'' (l1\<lparr>ld_binlog := Some b2\<rparr>)"
  have l2: "ld_binlog ?l2 = Some (Subscribe ''f'' b2)" by (simp add: stream_subscribe_def)
  have "log_rep (Subscribe ''f'' b2) [stamped 1 7 ?g]" "lsn (Subscribe ''f'' b2) = 1"
    using b2 by (simp_all add: Subscribe_def log_rep_def)
  then obtain b4 where b4: "Append 8 True ?h (Subscribe ''f'' b2) = (b4, None)"
    using Append_cases [of "Subscribe ''f'' b2" "[stamped 1 7 ?g]" ?h 8 True] by auto
  have hyps: "ld_binlog (demo_leader []) = Some (log_of [])" "entry_fits ?g" "entry_fits ?h" "unat (lsn (log_of [])) + 2 < 2 ^ 64"
    "fo_lastApplied (demo_follower 2 []) = lsn (log_of []) + 2" "''f'' \<noteq> []" by (simp_all add: l0)
  from stream_gap_lost [OF rep hyps(1-4) l1 b1(1) b2(1) refl l2 b4 refl hyps(5,6),
      of "ref_env None" demo_managers "\<lambda>_. None" 9 "''a:1''" "(True, [])"]
  show ?thesis by blast
qed


text \<open>An entry that the follower fails to apply is skipped, and the next one that applies moves the
  follower's LSN past it: its effect is not in the store, the round still ends without an error,
  and no later session delivers it.\<close>

theorem skipped_entry_never_resent:
  assumes B: "bolt_buckets (e_bolt E) cont"
    and fails: "apply_entry E M e1 fo = Err err" and ok: "apply_entry E M e2 fo = Ok fo2"
    and rep: "log_rep b es" "ld_binlog l = Some b" "i \<noteq> []" and "LSN e1 < LSN e2"
  shows "\<exists>fo'. recv_loop E M now [Recv (entryToProto e1), Recv (entryToProto e2)] fo = (fo', RoundEnded) \<and>
     fo_contents cont fo' = replay_entry e2 (fo_contents cont fo) \<and>
     (\<forall>p ps. snd (stream_history Accepted i addr now (fo_lastApplied fo') l) = Inr ps \<longrightarrow> p \<in> set ps \<longrightarrow> PLsn p \<noteq> LSN e1)"
proof -
  note a = apply_entry_Ok [OF B ok]
  have "PLsn p \<noteq> LSN e1" if "snd (stream_history Accepted i addr now (LSN e2) l) = Inr ps" "p \<in> set ps" for p ps
    using that assms(7) stream_history_rep [OF rep, of addr now "LSN e2"]
    by (auto simp: entryToProto_def split: if_splits dest: order.asym)
  with a show ?thesis by (intro exI [of _ "fo2\<lparr>fo_lastAppliedAt := now\<rparr>"]) (simp add: fails ok)
qed

theorem skipped_entry_never_resent_witness:
  "\<exists>fo'. recv_loop (ref_env None) demo_managers 9 [Recv (entryToProto (demo_put 5 [])), Recv (entryToProto (demo_put 6 ''b''))]
      (demo_follower 4 []) = (fo', RoundEnded)"
proof -
  have bad: "apply_entry (ref_env None) demo_managers (demo_put 5 []) (demo_follower 4 []) = Err ApplyPut"
    by (simp add: apply_entry_def DBUpdate_def apply_txn_def demo_put_def zero_entry_def ref_env_def mem_bolt_def)
  have "\<exists>fo'. apply_entry (ref_env None) demo_managers (demo_put 6 ''b'') (demo_follower 4 []) = Ok fo'"
    by (simp add: apply_entry_def DBUpdate_def apply_txn_def demo_put_def zero_entry_def ref_env_def mem_bolt_def updateInMemoryState_def)
  then obtain fo' where good: "apply_entry (ref_env None) demo_managers (demo_put 6 ''b'') (demo_follower 4 []) = Ok fo'" ..
  have "''f'' \<noteq> []" "LSN (demo_put 5 []) < LSN (demo_put 6 ''b'')" by simp_all
  from skipped_entry_never_resent [OF demo_buckets bad good demo_log demo_leader_simps this] show ?thesis by blast
qed

subsection \<open>Snapshots and caches\<close>

lemma snapshot_chunks:
  assumes "\<forall>r \<in> set rs. snd r = None"
  shows "\<exists>cs. snapshot_loop (\<lambda>_. True) L tot off (rs @ [(d, Some PipeEOF)]) = (cs, True) \<and>
     receive_loop (map Recv cs @ RecvEOF # junk) acc l0 =
       Some (acc @ concat (map fst rs) @ d, if concat (map fst rs) @ d = [] then l0 else L)"
  using assms
proof (induction rs arbitrary: off acc l0)
  case Nil
  show ?case by simp
next
  case (Cons r rs)
  obtain x where r: "r = (x, None)" using Cons.prems by (cases r) auto
  let ?off = "off + word_of_nat (length x)"
  obtain cs where cs: "snapshot_loop (\<lambda>_. True) L tot ?off (rs @ [(d, Some PipeEOF)]) = (cs, True)"
    "receive_loop (map Recv cs @ RecvEOF # junk) (acc @ x) (if x = [] then l0 else L) =
      Some ((acc @ x) @ concat (map fst rs) @ d, if concat (map fst rs) @ d = [] then (if x = [] then l0 else L) else L)"
    using Cons.IH [of ?off "acc @ x" "if x = [] then l0 else L"] Cons.prems by auto
  let ?chunk = "\<lparr>ChData = x, ChOffset = off, ChTotalSize = tot, ChIsLast = False, ChLSN = L\<rparr>"
  have "snapshot_loop (\<lambda>_. True) L tot off ((r # rs) @ [(d, Some PipeEOF)]) = ((if x = [] then [] else [?chunk]) @ cs, True)"
    by (simp add: r cs(1))
  moreover have "receive_loop (map Recv ((if x = [] then [] else [?chunk]) @ cs) @ RecvEOF # junk) acc l0 =
      Some (acc @ concat (map fst (r # rs)) @ d, if concat (map fst (r # rs)) @ d = [] then l0 else L)"
    using cs(2) by (cases "x = []") (simp_all add: r split: if_splits)
  ultimately show ?case by blast
qed

text \<open>C11: A snapshot that the leader reads to its end in pieces of any size arrives whole: the follower
  swaps in a store opened from exactly the bytes read, at the LSN the leader noted before it began,
  and its document cache is empty; but the lock-free cache of the extreme mode is not cleared, so
  there every cached document survives the swap.\<close>

theorem snapshot_transfer:
  assumes reads: "\<forall>r \<in> set rs. snd r = None" "concat (map fst rs) @ d \<noteq> []"
    and db: "reopen (concat (map fst rs) @ d) = Some db"
  shows "\<exists>cs fo'. snapshot_loop (\<lambda>_. True) L tot 0 (rs @ [(d, Some PipeEOF)]) = (cs, True) \<and>
     requestSnapshot M reopen now True (map Recv cs @ RecvEOF # junk) fo = (fo', None) \<and>
     sv_db (fo_server fo') = db \<and> fo_lastApplied fo' = L \<and>
     (\<forall>t k. cache_lookup t k (fo_server fo') = (if sv_extreme (fo_server fo) then cache_lookup t k (fo_server fo) else None))"
proof -
  obtain cs where cs: "snapshot_loop (\<lambda>_. True) L tot 0 (rs @ [(d, Some PipeEOF)]) = (cs, True)"
    "receive_loop (map Recv cs @ RecvEOF # junk) [] 0 = Some (concat (map fst rs) @ d, L)"
    using snapshot_chunks [OF reads(1), of L tot 0 d junk "[]" 0] reads(2) by (auto split: if_splits)
  have clear: "dc_lookup t (dc_Clear c) k = None" for t c k by (simp add: dc_lookup_live dc_Clear_def live_def)
  obtain fo' where "requestSnapshot M reopen now True (map Recv cs @ RecvEOF # junk) fo = (fo', None)" "sv_db (fo_server fo') = db"
    "fo_lastApplied fo' = L" "sv_cache (fo_server fo') = map_option dc_Clear (sv_cache (fo_server fo))"
    "sv_lfcache (fo_server fo') = sv_lfcache (fo_server fo)" "sv_extreme (fo_server fo') = sv_extreme (fo_server fo)"
    using cs(2) db by (simp add: requestSnapshot_def)
  with cs(1) clear show ?thesis
    by (intro exI [of _ cs] exI [of _ fo']) (auto simp: cache_lookup_def split: bind_splits)
qed

theorem snapshot_transfer_witness:
  "\<exists>fo' cs. requestSnapshot demo_managers (\<lambda>data. Some [(''x'', [(data, ''v'')])]) 9 True (map Recv cs @ [RecvEOF]) (demo_follower 3 []) = (fo', None) \<and>
     sv_db (fo_server fo') = [(''x'', [(''abc'', ''v'')])]"
proof -
  have "\<forall>r \<in> set [(''a'', None), ([], None), (''b'', None)]. snd r = None"
    "concat (map fst [(''a'', None :: pipe_end option), ([], None), (''b'', None)]) @ ''c'' \<noteq> []"
    "(\<lambda>data. Some [(''x'', [(data, ''v'')])]) (concat (map fst [(''a'', None :: pipe_end option), ([], None), (''b'', None)]) @ ''c'') =
      Some [(''x'', [(''abc'', ''v'')])]" by simp_all
  from snapshot_transfer [where reopen = "\<lambda>data. Some [(''x'', [(data, ''v'')])]", OF this, of 7 3 demo_managers 9 "[]" "demo_follower 3 []"]
  show ?thesis by blast
qed


definition invalidated_key :: "('tx, 'p) env \<Rightarrow> bytes \<Rightarrow> bytes \<Rightarrow> bytes \<Rightarrow> bytes" where
  "invalidated_key E coll docID v =
     (if v = [] then docID else case e_load E v of Ok doc \<Rightarrow> BuildCacheKey coll (DKey doc) (Lang doc) | _ \<Rightarrow> docID)"

lemma SplitN_DocKey: "nosep coll \<Longrightarrow> SplitN 3 (CHR ''|'') (DocKey coll i) = [''doc'', coll, i]"
  using SplitN3_join [of "''doc''" coll i] by (simp add: DocKey_def)

lemma cache_lookup_remove:
  assumes "caches_inv s"
  shows "cache_lookup t k (s\<lparr>sv_cache := map_option (dc_Delete ck) (sv_cache s), sv_lfcache := map_option (lf_Delete ck) (sv_lfcache s)\<rparr>) =
    (if k = ck then None else cache_lookup t k s)"
  using assms dc.lookup_remove lf.lookup_remove
  by (auto simp: cache_lookup_def caches_inv_def split: bind_splits)

lemma apply_docs_cache:
  assumes "apply_entry E M e fo = Ok fo'" and "BucketName e = ''docs''" and "SplitN 3 (CHR ''|'') (EKey e) = [p, coll, docID]" "caches_inv (fo_server fo)"
  shows "cache_lookup t k (fo_server fo') = (if k = invalidated_key E coll docID (EValue e) then None else cache_lookup t k (fo_server fo))"
proof -
  obtain db x where u: "updateInMemoryState E M e (fo\<lparr>fo_server := (fo_server fo)\<lparr>sv_db := db\<rparr>\<rparr>) = Some x"
    "fo' = x\<lparr>fo_lastApplied := LSN e\<rparr>"
    using assms(1) by (auto simp: apply_entry_def split: prod.splits sum.splits option.splits)
  have inv: "caches_inv ((fo_server fo)\<lparr>sv_db := db\<rparr>)" using assms(4) by (simp add: caches_inv_def)
  have same: "cache_lookup t k ((fo_server fo)\<lparr>sv_db := db\<rparr>) = cache_lookup t k (fo_server fo)" by (simp add: cache_lookup_def)
  have "fo_server fo' = (fo_server fo)\<lparr>sv_db := db,
      sv_cache := map_option (dc_Delete (invalidated_key E coll docID (EValue e))) (sv_cache (fo_server fo)),
      sv_lfcache := map_option (lf_Delete (invalidated_key E coll docID (EValue e))) (sv_lfcache (fo_server fo))\<rparr>"
    using u assms(2,3)
    by (auto simp: updateInMemoryState_def invalidateDocCache_def invalidated_key_def Let_def split: outcome.splits if_splits)
  with cache_lookup_remove [OF inv] same show ?thesis by simp
qed


text \<open>A replicated deletion of a document removes it from the follower's store, and from its
  read caches exactly when its names are in lower case (when the cache key is the document id):
  for any other name the caches keep serving the deleted document.\<close>

theorem replicated_delete_caches:
  assumes B: "bolt_buckets (e_bolt E) cont" and a: "apply_entry E M e fo = Ok fo'"
    and e: "BucketName e = ''docs''" "EType e = BinlogDelete" "EValue e = []"
      "EKey e = DocKey coll (genID [coll, key, lang])"
    and "nosep coll" and "caches_inv (fo_server fo)"
  shows "fo_contents cont fo' ''docs'' (DocKey coll (genID [coll, key, lang])) = None \<and>
     cache_lookup t (BuildCacheKey coll key lang) (fo_server fo') =
       (if BuildCacheKey coll key lang = genID [coll, key, lang] then None
        else cache_lookup t (BuildCacheKey coll key lang) (fo_server fo))"
proof -
  have "SplitN 3 (CHR ''|'') (EKey e) = [''doc'', coll, genID [coll, key, lang]]"
    using SplitN_DocKey [OF assms(7)] e(4) by simp
  from apply_docs_cache [OF a e(1) this assms(8), of t "BuildCacheKey coll key lang"]
  have "cache_lookup t (BuildCacheKey coll key lang) (fo_server fo') =
      (if BuildCacheKey coll key lang = genID [coll, key, lang] then None
       else cache_lookup t (BuildCacheKey coll key lang) (fo_server fo))"
    unfolding invalidated_key_def e(3) by (simp only: if_True refl)
  moreover have "fo_contents cont fo' ''docs'' (DocKey coll (genID [coll, key, lang])) = None"
    using apply_entry_Ok [OF B a] e by (simp add: replay_entry.simps c_delete_def del: genID.simps)
  ultimately show ?thesis by blast
qed

definition stale_follower :: "(mem_db, unit) follower" where
  "stale_follower = (demo_follower 4 [(''docs'', [(''doc|c|c|k|en'', ''B'')])])
     \<lparr>fo_server := (ref_server None [(''docs'', [(''doc|c|c|k|en'', ''B'')])])
        \<lparr>sv_cache := Some (dc_Set 5 0 (BuildCacheKey ''c'' ''K'' ''en'') ''B'' (NewDocumentCache 10 60))\<rparr>\<rparr>"

theorem replicated_delete_caches_witness:
  "\<exists>fo' :: (mem_db, unit) follower. fo_contents mem_contents fo' ''docs'' (DocKey ''c'' (genID [''c'', ''K'', ''en''])) = None \<and>
     cache_lookup 6 (BuildCacheKey ''c'' ''K'' ''en'') (fo_server fo') = Some ''B''"
proof -
  let ?e = "zero_entry\<lparr>LSN := 5, EType := BinlogDelete, BucketName := ''docs'', EKey := DocKey ''c'' (genID [''c'', ''K'', ''en''])\<rparr>"
  have "\<exists>fo'. apply_entry (ref_env None) demo_managers ?e stale_follower = Ok fo'"
    by (simp add: apply_entry_def DBUpdate_def apply_txn_def zero_entry_def ref_env_def mem_bolt_def updateInMemoryState_def
        invalidateDocCache_def DocKey_def Let_def)
  then obtain fo' where fo': "apply_entry (ref_env None) demo_managers ?e stale_follower = Ok fo'" ..
  have new: "dc_inv (NewDocumentCache 10 60)" by (simp add: dc_inv_def NewDocumentCache_def)
  have inv: "caches_inv (fo_server stale_follower)"
    by (simp add: caches_inv_def stale_follower_def ref_server_def dc.inv_store [OF new])
  have low: "char_of (107 :: nat) = CHR ''k''" by code_simp
  have ne: "BuildCacheKey ''c'' ''K'' ''en'' \<noteq> genID [''c'', ''K'', ''en'']"
    by (simp add: BuildCacheKey_def lower_byte_def low)
  have "cache_lookup 6 (BuildCacheKey ''c'' ''K'' ''en'') (fo_server stale_follower) = Some ''B''"
  proof -
    have "(6 :: int) \<le> dc_expiry 5 (NewDocumentCache 10 60)" by (simp add: dc_expiry_def NewDocumentCache_def wrap64_def)
    from dc.lookup_store [OF new this] show ?thesis by (simp add: cache_lookup_def stale_follower_def ref_server_def)
  qed
  with replicated_delete_caches [OF demo_buckets fo' _ _ _ _ _ inv, of "''c''" "''K''" "''en''" 6] ne show ?thesis
    by (auto simp: zero_entry_def simp del: genID.simps)
qed

end
