(* ===== verification/Key_Rotation.thy ===== *)
theory Key_Rotation
  imports Doc_Codec Bolt_Store
begin

section \<open>Re-encryption after a key rotation\<close>

text \<open>
  Models the worker of \<^verbatim>\<open>encryption_rotate.go\<close>: which entries it visits, how it decides,
  and the two separate transactions it uses per entry, one to read the value and one to write the
  resealed value back.  Between the two other writers run; \<open>rotate_prepare\<close> is what happens in
  between.  Job bookkeeping (ids, audit events, the mutex) is reduced to the counters.
\<close>

datatype RotationStatus = RotationQueued | RotationRunning | RotationCompleted | RotationFailed

record RotationJob =
  JStatus :: RotationStatus
  JScanned :: nat
  JReencrypted :: nat
  JSkipped :: nat
  JErrors :: nat

record CollectionStat =
  CSTotal :: nat
  WithPrimary :: nat
  WithLegacy :: nat
  Plaintext :: nat
  UnknownKey :: nat

definition classifyEntry :: "bytes \<Rightarrow> char \<Rightarrow> CollectionStat \<Rightarrow> CollectionStat" where
  "classifyEntry v prim cs =
     (if CiphertextVersion v = 0 then cs\<lparr>Plaintext := Plaintext cs + 1\<rparr>
      else if CiphertextVersion v = 1 then cs\<lparr>WithLegacy := WithLegacy cs + 1\<rparr>
      else if CiphertextVersion v = 2 then
        (case CiphertextKeyID v of
           None \<Rightarrow> cs\<lparr>UnknownKey := UnknownKey cs + 1\<rparr>
         | Some i \<Rightarrow> if i = prim then cs\<lparr>WithPrimary := WithPrimary cs + 1\<rparr>
                     else cs\<lparr>WithLegacy := WithLegacy cs + 1\<rparr>)
      else cs\<lparr>UnknownKey := UnknownKey cs + 1\<rparr>)"

text \<open>The loop shared by the two key parsers: the text before the first separator.\<close>

fun sep_loop :: "bytes \<Rightarrow> nat \<Rightarrow> bytes \<Rightarrow> bytes" where
  "sep_loop rest i [] = []"
| "sep_loop rest i (c # cs) = (if c = CHR ''|'' then take i rest else sep_loop rest (i + 1) cs)"

definition collectionFromDocKey :: "bytes \<Rightarrow> bytes" where
  "collectionFromDocKey s =
     (if length s < 5 \<or> take 4 s \<noteq> ''doc|'' then [] else sep_loop (drop 4 s) 0 (drop 4 s))"

definition collectionFromRevKey :: "bytes \<Rightarrow> bytes" where
  "collectionFromRevKey s =
     (if length s < 5 \<or> take 4 s \<noteq> ''rev|'' then [] else sep_loop (drop 4 s) 0 (drop 4 s))"

definition keyBelongsToCollection :: "bytes \<Rightarrow> bytes \<Rightarrow> bool" where
  "keyBelongsToCollection k want =
     (if collectionFromDocKey k \<noteq> [] then collectionFromDocKey k = want
      else if collectionFromRevKey k \<noteq> [] then collectionFromRevKey k = want
      else False)"

datatype rotate_error = DecryptError codec_error | SealError codec_error | RotatePut | RotateCommit | RotatePanic

text \<open>From the value read to the value to write; \<open>None\<close> when the entry is skipped.\<close>

definition rotate_prepare ::
    "'k codec_lib \<Rightarrow> bytes option \<Rightarrow> 'k Encryptor \<Rightarrow> bytes \<Rightarrow> bytes \<Rightarrow> bytes option \<Rightarrow> rotate_error + bytes option" where
  "rotate_prepare L rand e bucket key val =
     (case val of None \<Rightarrow> Inr None
      | Some v \<Rightarrow>
         let coll = (if bucket = ''docs'' then collectionFromDocKey key
                     else if bucket = ''rev'' then collectionFromRevKey key else [])
         in if coll = [] then Inr None
         else let needs = (if CiphertextVersion v = 0 then False
                           else if CiphertextVersion v = 1 then True
                           else if CiphertextVersion v = 2 then \<not> IsEncryptedWithPrimary e v
                           else False)
         in if \<not> needs then Inr None
         else case Decrypt L e v of
                Err err \<Rightarrow> Inl (DecryptError err) | Panic \<Rightarrow> Inl RotatePanic
              | Ok pt \<Rightarrow>
                 (case EncryptAlways L rand e pt of
                    Err err \<Rightarrow> Inl (SealError err) | Panic \<Rightarrow> Inl RotatePanic
                  | Ok sealed \<Rightarrow> Inr (Some sealed)))"

definition rotate_write :: "'tx bolt \<Rightarrow> bytes \<Rightarrow> bytes \<Rightarrow> bytes \<Rightarrow> 'tx \<Rightarrow> 'tx \<times> (rotate_error + bool)" where
  "rotate_write B bucket key sealed =
     DBUpdate B RotateCommit (\<lambda>tx. case bk_put B bucket key sealed tx of
        None \<Rightarrow> Inl RotatePut | Some tx' \<Rightarrow> Inr (tx', True))"

definition processOne ::
    "'k codec_lib \<Rightarrow> bytes option \<Rightarrow> 'k Encryptor \<Rightarrow> 'tx bolt \<Rightarrow> bytes \<Rightarrow> bytes \<Rightarrow> 'tx \<Rightarrow> 'tx \<times> (rotate_error + bool)" where
  "processOne L rand e B bucket key db =
     (case rotate_prepare L rand e bucket key (bk_get B bucket key db) of
        Inl err \<Rightarrow> (db, Inl err)
      | Inr None \<Rightarrow> (db, Inr False)
      | Inr (Some sealed) \<Rightarrow> rotate_write B bucket key sealed db)"

definition count_result :: "rotate_error + bool \<Rightarrow> RotationJob \<Rightarrow> RotationJob" where
  "count_result r job =
     (let job = job\<lparr>JScanned := JScanned job + 1\<rparr>
      in case r of Inl _ \<Rightarrow> job\<lparr>JErrors := JErrors job + 1\<rparr>
         | Inr True \<Rightarrow> job\<lparr>JReencrypted := JReencrypted job + 1\<rparr>
         | Inr False \<Rightarrow> job\<lparr>JSkipped := JSkipped job + 1\<rparr>)"

text \<open>The loop over the key snapshot; \<open>rands\<close> are the nonces, one per entry.\<close>

fun process_keys ::
    "'k codec_lib \<Rightarrow> 'k Encryptor \<Rightarrow> 'tx bolt \<Rightarrow> bytes \<Rightarrow> bytes list \<Rightarrow> bytes option list \<Rightarrow>
     'tx \<times> RotationJob \<Rightarrow> 'tx \<times> RotationJob" where
  "process_keys L e B bucket [] rands (db, job) = (db, job)"
| "process_keys L e B bucket (k # ks) [] (db, job) =
     (let (db', r) = processOne L None e B bucket k db
      in process_keys L e B bucket ks [] (db', count_result r job))"
| "process_keys L e B bucket (k # ks) (rand # rands) (db, job) =
     (let (db', r) = processOne L rand e B bucket k db
      in process_keys L e B bucket ks rands (db', count_result r job))"

definition processBucket ::
    "'k codec_lib \<Rightarrow> 'k Encryptor \<Rightarrow> 'tx bolt \<Rightarrow> bytes \<Rightarrow> bytes \<Rightarrow> bytes option list \<Rightarrow>
     'tx \<times> RotationJob \<Rightarrow> 'tx \<times> RotationJob" where
  "processBucket L e B only bucket rands s =
     (let keys = filter (\<lambda>k. \<not> (only \<noteq> [] \<and> \<not> keyBelongsToCollection k only))
                   (map fst (bk_scan B bucket [] (fst s)))
      in process_keys L e B bucket keys rands s)"

definition processBuckets ::
    "'k codec_lib \<Rightarrow> 'k Encryptor \<Rightarrow> 'tx bolt \<Rightarrow> bytes \<Rightarrow> bytes option list \<Rightarrow> bytes option list \<Rightarrow>
     'tx \<times> RotationJob \<Rightarrow> 'tx \<times> RotationJob" where
  "processBuckets L e B only rands1 rands2 s =
     processBucket L e B only ''rev'' rands2 (processBucket L e B only ''docs'' rands1 s)"

subsection \<open>Collections of keys\<close>

lemma sep_loop_eq:
  "rest = front @ cs \<Longrightarrow> length front = i \<Longrightarrow> CHR ''|'' \<in> set cs \<Longrightarrow>
   sep_loop rest i cs = front @ takeWhile (\<lambda>c. c \<noteq> CHR ''|'') cs"
proof (induction rest i cs arbitrary: front rule: sep_loop.induct)
  case (2 rest i c cs)
  then show ?case using "2.IH" [of "front @ [c]"] by auto
qed simp

lemma collectionFromDocKey_DocKey: "nosep c \<Longrightarrow> collectionFromDocKey (DocKey c i) = c"
  using sep_loop_eq [of "c @ ''|'' @ i" "[]" "c @ ''|'' @ i" 0]
  by (simp add: collectionFromDocKey_def DocKey_def takeWhile_append1)

lemma collectionFromRevKey_RevKey: "nosep c \<Longrightarrow> collectionFromRevKey (RevPrefix c i @ t) = c"
  using sep_loop_eq [of "c @ ''|'' @ i @ ''|'' @ t" "[]" "c @ ''|'' @ i @ ''|'' @ t" 0]
  by (simp add: collectionFromRevKey_def RevPrefix_def takeWhile_append1)

subsection \<open>One entry\<close>

text \<open>\<open>clear L e v\<close>: what a stored value means under the encryptor.\<close>

definition clear :: "'k codec_lib \<Rightarrow> 'k Encryptor \<Rightarrow> bytes option \<Rightarrow> (codec_error, bytes) outcome option" where
  "clear L e v = map_option (Decrypt L e) v"

definition good_rand :: "bytes option \<Rightarrow> bool" where
  "good_rand r \<longleftrightarrow> (case r of None \<Rightarrow> True | Some n \<Rightarrow> length n = 12)"

lemma rotate_prepare_Some:
  assumes laws: "codec_laws L" and r: "good_rand rand"
    and p: "rotate_prepare L rand e bucket key (Some v) = Inr (Some sealed)"
  shows "Decrypt L e sealed = Decrypt L e v" and "IsEncryptedWithPrimary e sealed" and "Enabled e"
proof -
  from p obtain pt where pt: "Decrypt L e v = Ok pt" "EncryptAlways L rand e pt = Ok sealed"
    by (auto simp: rotate_prepare_def Let_def split: if_splits outcome.splits)
  then show en: "Enabled e" by (auto simp: EncryptAlways_def split: if_splits)
  from pt(2) obtain n where n: "rand = Some n" "sealRaw L (Some n) e pt = Ok sealed"
    by (auto simp: EncryptAlways_def sealRaw_def split: if_splits option.splits)
  with r have "length n = 12" by (simp add: good_rand_def)
  note D = Decrypt_sealRaw [OF laws n(2) this knows_own_key [OF en]]
  show "Decrypt L e sealed = Decrypt L e v" using D(1) pt(1) by simp
  show "IsEncryptedWithPrimary e sealed" using D(3) en by (simp add: IsEncryptedWithPrimary_def)
qed

lemma rotate_prepare_skip:
  "rotate_prepare L rand e ''docs'' key (Some v) = Inr None \<Longrightarrow> collectionFromDocKey key \<noteq> [] \<Longrightarrow>
   IsEncrypted v \<longrightarrow> IsEncryptedWithPrimary e v"
  by (auto simp: rotate_prepare_def IsEncrypted_def Let_def split: if_splits outcome.splits)

lemma rotate_write_cases:
  assumes B: "bolt_laws B cont" and w: "rotate_write B bucket key sealed db = (db', res)"
  shows "(cont db' = c_put bucket key sealed (cont db) \<and> res = Inr True) \<or> (db' = db \<and> (\<exists>err. res = Inl err))"
  using w bolt_laws.put_law [OF B] bolt_laws.commit_law [OF B]
  by (auto simp: rotate_write_def DBUpdate_def split: option.splits sum.splits)

text \<open>What one entry's turn does: nothing, with or without an error, or a resealed value.\<close>

lemma processOne_cases:
  assumes B: "bolt_laws B cont" and p: "processOne L rand e B bucket key db = (db', res)"
  obtains (fail) err where "db' = db" "res = Inl err"
  | (skip) "db' = db" "res = Inr False" "rotate_prepare L rand e bucket key (cont db bucket key) = Inr None"
  | (reseal) v sealed where "cont db bucket key = Some v" "res = Inr True"
      "rotate_prepare L rand e bucket key (Some v) = Inr (Some sealed)"
      "cont db' = c_put bucket key sealed (cont db)"
proof -
  have g: "bk_get B bucket key db = cont db bucket key" using bolt_laws.get_law [OF B] .
  show ?thesis
  proof (cases "rotate_prepare L rand e bucket key (cont db bucket key)")
    case (Inl err)
    with p g have "db' = db" "res = Inl err" by (auto simp: processOne_def)
    then show ?thesis by (rule fail)
  next
    case (Inr r)
    show ?thesis
    proof (cases r)
      case None
      with Inr p g have "db' = db" "res = Inr False" by (auto simp: processOne_def)
      with Inr None show ?thesis by (intro skip) simp_all
    next
      case (Some sealed)
      with Inr obtain v where v: "cont db bucket key = Some v"
        by (cases "cont db bucket key") (simp_all add: rotate_prepare_def)
      have "rotate_write B bucket key sealed db = (db', res)"
        using p g Inr Some by (simp add: processOne_def)
      from rotate_write_cases [OF B this] Inr Some v fail reseal show ?thesis by auto
    qed
  qed
qed

lemma processOne_frame:
  assumes B: "bolt_laws B cont" and p: "processOne L rand e B bucket key db = (db', res)"
    and ne: "\<not> (b = bucket \<and> k = key)"
  shows "cont db' b k = cont db b k"
  using B p by (rule processOne_cases) (use ne in \<open>auto simp: store_simps\<close>)

lemma processOne_clear:
  assumes laws: "codec_laws L" and B: "bolt_laws B cont" and r: "good_rand rand"
    and p: "processOne L rand e B bucket key db = (db', res)"
  shows "clear L e (cont db' b k) = clear L e (cont db b k)"
  using B p
proof (cases rule: processOne_cases)
  case (reseal v sealed)
  with rotate_prepare_Some(1) [OF laws r reseal(3)] show ?thesis
    by (auto simp: store_simps clear_def)
qed simp_all

lemma processOne_settles:
  assumes laws: "codec_laws L" and B: "bolt_laws B cont" and r: "good_rand rand"
    and p: "processOne L rand e B ''docs'' key db = (db', Inr x)" and coll: "collectionFromDocKey key \<noteq> []"
    and v: "cont db' ''docs'' key = Some v"
  shows "IsEncrypted v \<longrightarrow> IsEncryptedWithPrimary e v"
  using B p
proof (cases rule: processOne_cases)
  case (reseal w sealed)
  with v have "v = sealed" by (simp add: store_simps)
  with rotate_prepare_Some(2) [OF laws r reseal(3)] show ?thesis by simp
next
  case skip
  with v coll show ?thesis using rotate_prepare_skip by metis
qed simp

subsection \<open>A whole pass\<close>

lemma count_result_errors:
  "JErrors (count_result r job) = JErrors job + (case r of Inl _ \<Rightarrow> 1 | Inr _ \<Rightarrow> 0)"
  "JScanned (count_result r job) = JScanned job + 1"
  by (auto simp: count_result_def Let_def split: sum.splits bool.splits)

lemma process_keys_Cons:
  "process_keys L e B bucket (k # ks) rands (db, job) =
     (let (db', r) = processOne L (case rands of [] \<Rightarrow> None | x # _ \<Rightarrow> x) e B bucket k db
      in process_keys L e B bucket ks (tl rands) (db', count_result r job))"
  by (cases rands) simp_all

lemma process_keys_spec:
  assumes laws: "codec_laws L" and B: "bolt_laws B cont"
  shows "\<forall>r \<in> set rands. good_rand r \<Longrightarrow> process_keys L e B bucket ks rands (db, job) = (db', job') \<Longrightarrow>
    clear L e (cont db' b k) = clear L e (cont db b k) \<and>
    (\<not> (b = bucket \<and> k \<in> set ks) \<longrightarrow> cont db' b k = cont db b k) \<and>
    JErrors job \<le> JErrors job' \<and> JScanned job' = JScanned job + length ks"
proof (induction ks arbitrary: rands db job)
  case (Cons key ks)
  let ?r = "case rands of [] \<Rightarrow> None | x # _ \<Rightarrow> x"
  obtain db1 res where one: "processOne L ?r e B bucket key db = (db1, res)"
    by (cases "processOne L ?r e B bucket key db")
  have good: "good_rand ?r" and goods: "\<forall>r \<in> set (tl rands). good_rand r"
    using Cons.prems(1) by (auto simp: good_rand_def split: list.splits) (cases rands; auto)
  from Cons.prems(2) one have rest: "process_keys L e B bucket ks (tl rands) (db1, count_result res job) = (db', job')"
    by (simp add: process_keys_Cons)
  have clr: "clear L e (cont db1 b k) = clear L e (cont db b k)"
    by (rule processOne_clear [OF laws B good one])
  have frm: "\<not> (b = bucket \<and> k = key) \<Longrightarrow> cont db1 b k = cont db b k"
    by (rule processOne_frame [OF B one])
  from Cons.IH [OF goods rest] clr frm show ?case by (auto simp: count_result_errors)
qed simp

lemma process_keys_settles:
  assumes laws: "codec_laws L" and B: "bolt_laws B cont"
  shows "\<forall>r \<in> set rands. good_rand r \<Longrightarrow> process_keys L e B ''docs'' ks rands (db, job) = (db', job') \<Longrightarrow>
    JErrors job' = JErrors job \<Longrightarrow> distinct ks \<Longrightarrow> k \<in> set ks \<Longrightarrow> collectionFromDocKey k \<noteq> [] \<Longrightarrow>
    cont db' ''docs'' k = Some v \<Longrightarrow> IsEncrypted v \<longrightarrow> IsEncryptedWithPrimary e v"
proof (induction ks arbitrary: rands db job)
  case (Cons key ks)
  let ?r = "case rands of [] \<Rightarrow> None | x # _ \<Rightarrow> x"
  obtain db1 res where one: "processOne L ?r e B ''docs'' key db = (db1, res)"
    by (cases "processOne L ?r e B ''docs'' key db")
  have good: "good_rand ?r" and goods: "\<forall>r \<in> set (tl rands). good_rand r"
    using Cons.prems(1) by (auto simp: good_rand_def split: list.splits) (cases rands; auto)
  from Cons.prems(2) one have rest: "process_keys L e B ''docs'' ks (tl rands) (db1, count_result res job) = (db', job')"
    by (simp add: process_keys_Cons)
  note S = process_keys_spec [OF laws B goods rest]
  from S Cons.prems(3) obtain x where res: "res = Inr x"
    by (cases res) (auto simp: count_result_errors)
  with Cons.prems(3) have err: "JErrors job' = JErrors (count_result res job)" by (simp add: count_result_errors)
  show ?case
  proof (cases "k = key")
    case True
    with Cons.prems(4) S have "cont db' ''docs'' k = cont db1 ''docs'' k" by auto
    with Cons.prems(6,7) True one res show ?thesis
      using processOne_settles [OF laws B good] by metis
  next
    case False
    with Cons.prems Cons.IH [OF goods rest err] show ?thesis by simp
  qed
qed simp

subsection \<open>Properties\<close>


definition ref_sealed :: bytes where
  "ref_sealed = MagicV2 @ CHR 0x01 # ''123456789012'' @ ''key1'' @ ''123456789012'' @ ''x''"

definition ref_db :: mem_db where
  "ref_db = [(''docs'', [(''doc|c|i'', ref_sealed)])]"

abbreviation ref_rotated :: "bytes Encryptor" where
  "ref_rotated \<equiv> ref_encryptor (CHR 0x02) ''key2'' [CHR 0x01 \<mapsto> ''key1'']"

definition ref_job :: RotationJob where
  "ref_job = \<lparr>JStatus = RotationRunning, JScanned = 0, JReencrypted = 0, JSkipped = 0, JErrors = 0\<rparr>"


text \<open>A write that lands between the two transactions the worker uses for an entry is lost: after
  the worker's write the key holds the content it had when the worker read it, whatever another
  writer stored, or deleted, in between.\<close>

theorem rotation_loses_update:
  assumes "codec_laws L" and "bolt_laws B cont" and "good_rand rand"
    and "cont db0 bucket key = Some v"
    and "rotate_prepare L rand e bucket key (bk_get B bucket key db0) = Inr (Some sealed)"
    and "rotate_write B bucket key sealed db1 = (db2, Inr True)"
  shows "clear L e (cont db2 bucket key) = Some (Decrypt L e v) \<and>
     (b \<noteq> bucket \<or> k \<noteq> key \<longrightarrow> cont db2 b k = cont db1 b k)"
proof -
  have "rotate_prepare L rand e bucket key (Some v) = Inr (Some sealed)"
    using assms(4,5) bolt_laws.get_law [OF assms(2)] by simp
  note P = rotate_prepare_Some(1) [OF assms(1,3) this]
  from rotate_write_cases [OF assms(2,6)] have "cont db2 = c_put bucket key sealed (cont db1)" by auto
  with P show ?thesis by (auto simp: clear_def store_simps)
qed

theorem rotation_loses_update_witness:
  "clear ref_lib ref_rotated (mem_contents
     (fst (rotate_write mem_bolt ''docs'' ''doc|c|i'' (MagicV2 @ CHR 0x02 # ''abcdefghijkl'' @ ''key2'' @ ''abcdefghijkl'' @ ''x'')
        [(''docs'', [(''doc|c|i'', ''new content'')])])) ''docs'' ''doc|c|i'') =
   Some (Decrypt ref_lib ref_rotated ref_sealed)"
proof -
  let ?s = "MagicV2 @ CHR 0x02 # ''abcdefghijkl'' @ ''key2'' @ ''abcdefghijkl'' @ ''x''"
  let ?db1 = "[(''docs'', [(''doc|c|i'', ''new content'')])] :: mem_db"
  have v: "mem_contents ref_db ''docs'' ''doc|c|i'' = Some ref_sealed"
    by (simp add: ref_db_def mem_contents_def mem_bucket_def)
  have g: "good_rand (Some ''abcdefghijkl'')" by (simp add: good_rand_def)
  have prep: "rotate_prepare ref_lib (Some ''abcdefghijkl'') ref_rotated ''docs'' ''doc|c|i''
      (bk_get mem_bolt ''docs'' ''doc|c|i'' ref_db) = Inr (Some ?s)"
    by code_simp
  obtain db2 r where w: "rotate_write mem_bolt ''docs'' ''doc|c|i'' ?s ?db1 = (db2, r)"
    by (cases "rotate_write mem_bolt ''docs'' ''doc|c|i'' ?s ?db1")
  then have "r = Inr True" by (auto simp: rotate_write_def DBUpdate_def mem_bolt_def)
  with w have w': "rotate_write mem_bolt ''docs'' ''doc|c|i'' ?s ?db1 = (db2, Inr True)" by simp
  show ?thesis
    unfolding w fst_conv
    by (rule rotation_loses_update [OF ref.codec_laws_axioms mem.bolt_laws_axioms g v prep w', THEN conjunct1])
qed

end
