(* ===== verification/Wal_Log.thy ===== *)
theory Wal_Log
  imports Binlog_Entry
begin

section \<open>The write-ahead log\<close>

text \<open>
  Models \<^verbatim>\<open>wal.go\<close>: the frame
  \<^verbatim>\<open>[type:1][timestamp:8][dataLen:4][checksum:4][data]\<close>, the writer with its sync
  policies, the reader with the three ways it can stop.  \<open>Read\<close> reads what the file holds: it
  does not flush the buffer first.  The position the reader leaves in the file is not modelled
  (writes go to the end, as with the \<^verbatim>\<open>O_APPEND\<close> of \<^verbatim>\<open>NewWAL\<close>).
\<close>

datatype SyncPolicy = SyncAlways | SyncPeriodic | SyncBatch | SyncNever

record WALEntry =
  WType :: u8
  WTimestamp :: u64
  WData :: bytes
  WChecksum :: u32

record WAL =
  walw :: bufw
  wal_open :: bool
  syncPolicy :: SyncPolicy
  wentries :: u64
  wsize :: int

datatype wal_error = WalOpen | WalWrite | WalFlush | WalClose

datatype read_error = EOF | UnexpectedEOF | WalMismatch

definition walBufferSize :: nat where "walBufferSize = 256 * 1024"

definition NewWAL :: "bool \<Rightarrow> SyncPolicy \<Rightarrow> bytes \<Rightarrow> wal_error + WAL" where
  "NewWAL io policy file =
     (if \<not> io then Inl WalOpen
      else Inr \<lparr>walw = bw_new file, wal_open = True, syncPolicy = policy, wentries = 0,
                wsize = int (length file)\<rparr>)"

definition wal_frame :: "WALEntry \<Rightarrow> bytes" where
  "wal_frame entry =
     (let c = ChecksumIEEE (WData entry);
          buf = [char_of (unat (WType entry))];
          buf = buf @ be64 (WTimestamp entry);
          buf = buf @ be32 (word_of_nat (length (WData entry)));
          buf = buf @ be32 c
      in buf @ WData entry)"

definition wal_flush :: "bool \<Rightarrow> WAL \<Rightarrow> WAL \<times> bool" where
  "wal_flush io w =
     (let (bw', ok) = bw_flush (io \<and> wal_open w) (walw w) in (w\<lparr>walw := bw'\<rparr>, ok \<and> io \<and> wal_open w))"

definition wal_Write :: "bool \<Rightarrow> WALEntry \<Rightarrow> WAL \<Rightarrow> WAL \<times> wal_error option" where
  "wal_Write io entry w =
     (let buf = wal_frame entry;
          (bw', ok) = bw_write walBufferSize (io \<and> wal_open w) (walw w) buf
      in if \<not> ok then (w\<lparr>walw := bw'\<rparr>, Some WalWrite)
         else
           let w' = w\<lparr>walw := bw', wsize := wsize w + int (length buf), wentries := wentries w + 1\<rparr>
           in case syncPolicy w of
                SyncAlways \<Rightarrow>
                  (let (w'', ok') = wal_flush io w' in (w'', if ok' then None else Some WalFlush))
              | SyncBatch \<Rightarrow>
                  if wentries w' mod 100 = 0
                  then (let (w'', ok') = wal_flush io w' in (w'', if ok' then None else Some WalFlush))
                  else (w', None)
              | _ \<Rightarrow> (w', None))"

text \<open>
  \<^verbatim>\<open>io.ReadFull\<close> returns \<open>EOF\<close> when it reads nothing and something was asked for, and
  \<open>UnexpectedEOF\<close> on a partial read; so a frame cut right after its header also gives \<open>EOF\<close>.
\<close>

definition readEntry :: "bytes \<Rightarrow> read_error + (WALEntry \<times> nat)" where
  "readEntry reader =
     (if length reader = 0 then Inl EOF
      else if length reader < 17 then Inl UnexpectedEOF else
      let entryType = of_char (reader ! 0);
          timestamp = get_be64 (drop 1 reader);
          dataLen = unat (get_be32 (drop 9 reader));
          checksum = get_be32 (drop 13 reader);
          rest = drop 17 reader
      in if dataLen > 0 \<and> length rest = 0 then Inl EOF
      else if length rest < dataLen then Inl UnexpectedEOF
      else
        let data = take dataLen rest
        in if ChecksumIEEE data \<noteq> checksum then Inl WalMismatch
           else Inr (\<lparr>WType = entryType, WTimestamp = timestamp, WData = data, WChecksum = checksum\<rparr>,
                     17 + dataLen))"

function read_loop :: "bytes \<Rightarrow> WALEntry list \<times> read_error option" where
  "read_loop reader =
     (case readEntry reader of
        Inl EOF \<Rightarrow> ([], None)
      | Inl err \<Rightarrow> ([], Some err)
      | Inr (entry, n) \<Rightarrow> (let (entries, err) = read_loop (drop n reader) in (entry # entries, err)))"
  by pat_completeness auto
termination
  by (relation "measure length") (auto simp: readEntry_def Let_def split: if_splits)

declare read_loop.simps [simp del]

definition wal_Read :: "WAL \<Rightarrow> WALEntry list \<times> read_error option" where
  "wal_Read w = read_loop (wfile (walw w))"

definition wal_Truncate :: "(nat \<Rightarrow> bool) \<Rightarrow> WAL \<Rightarrow> WAL \<times> wal_error option" where
  "wal_Truncate io w =
     (if \<not> (io 0 \<and> wal_open w) then (w, Some WalClose)
      else if \<not> io 1 then (w\<lparr>wal_open := False\<rparr>, Some WalOpen)
      else (w\<lparr>walw := bw_new [], wsize := 0, wentries := 0\<rparr>, None))"

definition wal_Close :: "bool \<Rightarrow> WAL \<Rightarrow> WAL \<times> wal_error option" where
  "wal_Close io w =
     (let (w', ok) = wal_flush io w
      in if \<not> ok then (w', Some WalFlush) else (w'\<lparr>wal_open := False\<rparr>, None))"

definition wal_Stats :: "WAL \<Rightarrow> u64 \<times> int" where
  "wal_Stats w = (wentries w, wsize w)"

subsection \<open>The frame format\<close>

definition wal_fits :: "WALEntry \<Rightarrow> bool" where
  "wal_fits e \<longleftrightarrow> length (WData e) < 2 ^ 32"

definition wal_read :: "WALEntry \<Rightarrow> WALEntry" where
  "wal_read e = e\<lparr>WChecksum := ChecksumIEEE (WData e)\<rparr>"

lemma wal_frame_eq:
  "wal_frame e = char_of (unat (WType e)) # be64 (WTimestamp e) @
     be32 (word_of_nat (length (WData e))) @ be32 (ChecksumIEEE (WData e)) @ WData e"
  by (simp add: wal_frame_def)

lemma length_wal_frame: "length (wal_frame e) = 17 + length (WData e)"
  by (simp add: wal_frame_eq)

lemma wal_frame_fields:
  fixes e r
  defines "d \<equiv> wal_frame e @ r"
  shows "d ! 0 = char_of (unat (WType e))" and "get_be64 (drop 1 d) = WTimestamp e"
    and "get_be32 (drop 9 d) = word_of_nat (length (WData e))"
    and "get_be32 (drop 13 d) = ChecksumIEEE (WData e)" and "drop 17 d = WData e @ r"
proof -
  let ?l = "be32 (word_of_nat (length (WData e)))" and ?c = "be32 (ChecksumIEEE (WData e))"
  let ?t = "[char_of (unat (WType e)) :: char]"
  have at: "drop n (A @ B) = B" if "length A = n" for n and A B :: bytes using that by simp
  have d: "d = ?t @ be64 (WTimestamp e) @ ?l @ ?c @ WData e @ r" by (simp add: d_def wal_frame_eq)
  show "d ! 0 = char_of (unat (WType e))" by (simp add: d)
  show "get_be64 (drop 1 d) = WTimestamp e" by (simp add: d)
  have "drop 9 d = ?l @ (?c @ WData e @ r)"
    using at [of "?t @ be64 (WTimestamp e)" 9] by (simp add: d)
  then show "get_be32 (drop 9 d) = word_of_nat (length (WData e))" by simp
  have "drop 13 d = ?c @ (WData e @ r)"
    using at [of "?t @ be64 (WTimestamp e) @ ?l" 13] by (simp add: d)
  then show "get_be32 (drop 13 d) = ChecksumIEEE (WData e)" by simp
  show "drop 17 d = WData e @ r"
    using at [of "?t @ be64 (WTimestamp e) @ ?l @ ?c" 17] by (simp add: d)
qed

lemma readEntry_frame: "wal_fits e \<Longrightarrow> readEntry (wal_frame e @ r) = Inr (wal_read e, length (wal_frame e))"
proof -
  assume "wal_fits e"
  then have l: "unat (word_of_nat (length (WData e)) :: u32) = length (WData e)"
    by (simp only: wal_fits_def unat_len32)
  show ?thesis
    unfolding readEntry_def Let_def wal_frame_fields l of_char_type
    by (simp add: length_wal_frame wal_read_def)
qed

text \<open>What a torn frame gives: a clean end at both edges of its header, an error elsewhere.\<close>

lemma readEntry_torn:
  assumes "wal_fits e" and n: "n < length (wal_frame e)"
  shows "readEntry (take n (wal_frame e)) = Inl (if n = 0 \<or> n = 17 then EOF else UnexpectedEOF)"
proof (cases "n < 17")
  case True
  with n show ?thesis by (auto simp: readEntry_def)
next
  case False
  have l: "unat (word_of_nat (length (WData e)) :: u32) = length (WData e)"
    using assms(1) by (simp only: wal_fits_def unat_len32)
  have "get_be32 (drop 9 (take n (wal_frame e))) = word_of_nat (length (WData e))"
  proof -
    have "4 \<le> n - 9" using False by simp
    then have "take 4 (take (n - 9) xs) = take 4 xs" for xs :: bytes by (simp add: min.absorb1)
    then show ?thesis
      using wal_frame_fields(3) [of e "[]"] by (simp add: get_be32_def drop_take del: take_take)
  qed
  with l have dl: "unat (get_be32 (drop 9 (take n (wal_frame e)))) = length (WData e)" by (simp only:)
  have len: "length (take n (wal_frame e)) = n" "length (drop 17 (take n (wal_frame e))) = n - 17"
    using n by simp_all
  from n False have "0 < length (WData e)" "n - 17 < length (WData e)"
    unfolding length_wal_frame by linarith+
  with False show ?thesis
    unfolding readEntry_def Let_def dl len by simp
qed

definition wal_dec :: "bytes \<Rightarrow> (WALEntry \<times> nat) option" where
  "wal_dec data = (case readEntry data of Inl _ \<Rightarrow> None | Inr r \<Rightarrow> Some r)"

interpretation wal_codec: record_codec wal_frame wal_dec wal_fits wal_read "fst \<circ> read_loop"
proof
  show "wal_dec [] = None" by (simp add: wal_dec_def readEntry_def)
  fix e r n bs
  show "wal_fits e \<Longrightarrow> wal_dec (wal_frame e @ r) = Some (wal_read e, length (wal_frame e))"
    by (simp add: wal_dec_def readEntry_frame)
  show "wal_fits e \<Longrightarrow> n < length (wal_frame e) \<Longrightarrow> wal_dec (take n (wal_frame e)) = None"
    by (simp add: wal_dec_def readEntry_torn)
  show "wal_dec bs = Some (e, n) \<Longrightarrow> (fst \<circ> read_loop) bs = e # (fst \<circ> read_loop) (drop n bs)"
    by (simp, subst read_loop.simps) (auto simp: wal_dec_def split: sum.splits prod.splits)
  show "wal_dec bs = None \<Longrightarrow> (fst \<circ> read_loop) bs = []"
    by (simp, subst read_loop.simps) (auto simp: wal_dec_def split: sum.splits read_error.splits)
qed

lemma read_loop_append:
  "\<forall>e \<in> set es. wal_fits e \<Longrightarrow>
   read_loop (concat (map wal_frame es) @ r) = (map wal_read es @ fst (read_loop r), snd (read_loop r))"
proof (induction es)
  case (Cons e es)
  then show ?case
    by (subst read_loop.simps) (simp add: readEntry_frame)
qed simp

lemma read_loop_Nil [simp]: "read_loop [] = ([], None)"
  by (subst read_loop.simps) (simp add: readEntry_def)

lemma read_loop_torn:
  "wal_fits e \<Longrightarrow> n < length (wal_frame e) \<Longrightarrow>
   read_loop (take n (wal_frame e)) = ([], if n = 0 \<or> n = 17 then None else Some UnexpectedEOF)"
  by (subst read_loop.simps) (simp add: readEntry_torn)

subsection \<open>The representation of a log\<close>

definition wal_rep :: "WAL \<Rightarrow> WALEntry list \<Rightarrow> bool" where
  "wal_rep w es \<longleftrightarrow> wal_open w \<and> \<not> werr (walw w) \<and> bw_stream (walw w) = concat (map wal_frame es) \<and>
     (\<forall>e \<in> set es. wal_fits e) \<and> wentries w = word_of_nat (length es) \<and>
     wsize w = int (length (concat (map wal_frame es)))"

lemma wal_rep_write:
  assumes rep: "wal_rep w es" and fits: "wal_fits e"
    and wr: "bw_write cap io (walw w) (wal_frame e) = (bw', True)"
  shows "wal_rep (w\<lparr>walw := bw', wsize := wsize w + int (length (wal_frame e)), wentries := wentries w + 1\<rparr>) (es @ [e])"
  using bw_write_ok [OF wr] rep fits by (simp add: wal_rep_def)

lemma wal_flush_rep:
  assumes "wal_rep w es" and "wal_flush io w = (w', True)"
  shows "wal_rep w' es \<and> wfile (walw w') = concat (map wal_frame es) \<and> syncPolicy w' = syncPolicy w"
proof -
  obtain b ok where b: "bw_flush (io \<and> wal_open w) (walw w) = (b, ok)"
    by (cases "bw_flush (io \<and> wal_open w) (walw w)")
  with assms(2) have "ok" and w': "w' = w\<lparr>walw := b\<rparr>" by (auto simp: wal_flush_def)
  with b bw_flush_ok [of "io \<and> wal_open w" "walw w" b] assms(1) show ?thesis
    by (simp add: wal_rep_def bw_stream_def)
qed

lemma wal_Write_ok:
  assumes rep: "wal_rep w es" and fits: "wal_fits e" and ok: "wal_Write io e w = (w', None)"
  shows "wal_rep w' (es @ [e]) \<and>
     (syncPolicy w = SyncAlways \<longrightarrow> wfile (walw w') = concat (map wal_frame (es @ [e])))"
proof -
  obtain b wok where b: "bw_write walBufferSize (io \<and> wal_open w) (walw w) (wal_frame e) = (b, wok)"
    by (cases "bw_write walBufferSize (io \<and> wal_open w) (walw w) (wal_frame e)")
  have wok using ok b by (simp add: wal_Write_def Let_def split: if_splits)
  define w1 where "w1 = w\<lparr>walw := b, wsize := wsize w + int (length (wal_frame e)), wentries := wentries w + 1\<rparr>"
  have rep1: "wal_rep w1 (es @ [e])"
    unfolding w1_def using rep fits b \<open>wok\<close> by (intro wal_rep_write) auto
  have "w' = w1 \<and> syncPolicy w \<noteq> SyncAlways \<or> (\<exists>io. wal_flush io w1 = (w', True))"
    using ok b \<open>wok\<close>
    by (auto simp: wal_Write_def Let_def w1_def [symmetric] split: SyncPolicy.splits if_splits prod.splits)
  with rep1 wal_flush_rep [OF rep1] show ?thesis by blast
qed

lemma wal_flush_succeeds:
  assumes "wal_open w" and "\<not> werr (walw w)"
  shows "\<exists>w'. wal_flush True w = (w', True)"
  using bw_flush_succeeds [OF assms(2)] assms(1) by (simp add: wal_flush_def case_prod_beta)

lemma wal_Write_succeeds:
  assumes "wal_rep w es" and "wal_fits e"
  shows "\<exists>w'. wal_Write True e w = (w', None)"
proof -
  obtain b wok where b: "bw_write walBufferSize True (walw w) (wal_frame e) = (b, wok)"
    by (cases "bw_write walBufferSize True (walw w) (wal_frame e)")
  have h: "wal_open w" "\<not> werr (walw w)" using assms(1) by (simp_all add: wal_rep_def)
  have wok using bw_write_succeeds [OF h(2)] b by (metis snd_conv)
  define w1 where "w1 = w\<lparr>walw := b, wsize := wsize w + int (length (wal_frame e)), wentries := wentries w + 1\<rparr>"
  have "wal_open w1" "\<not> werr (walw w1)"
    using h bw_write_ok [of walBufferSize True "walw w" "wal_frame e" b] b \<open>wok\<close> by (simp_all add: w1_def)
  then obtain w2 where "wal_flush True w1 = (w2, True)" using wal_flush_succeeds by blast
  with b \<open>wok\<close> h show ?thesis
    by (auto simp: wal_Write_def Let_def w1_def [symmetric] split: SyncPolicy.splits)
qed

subsection \<open>Properties\<close>

definition wal_of :: "SyncPolicy \<Rightarrow> WALEntry list \<Rightarrow> WAL" where
  "wal_of p es = \<lparr>walw = bw_new (concat (map wal_frame es)), wal_open = True, syncPolicy = p,
     wentries = word_of_nat (length es), wsize = int (length (concat (map wal_frame es)))\<rparr>"

definition sample_wal :: WALEntry where
  "sample_wal = \<lparr>WType = 1, WTimestamp = 5, WData = ''abc'', WChecksum = 0\<rparr>"

lemma wal_rep_sample: "wal_rep (wal_of p [sample_wal]) [sample_wal]" and wal_fits_sample: "wal_fits sample_wal"
  by (simp_all add: wal_rep_def wal_of_def bw_new_def bw_stream_def wal_fits_def sample_wal_def)

text \<open>Under \<open>SyncAlways\<close> a write that returns without an error is on disk: reading the log
  gives exactly the entries written so far, this one last, and no error; and a write whose
  system calls succeed does return without an error.\<close>

theorem wal_write_durable:
  assumes "wal_rep w es" and "wal_fits e" and "syncPolicy w = SyncAlways"
  shows "case wal_Write io e w of (w', err) \<Rightarrow>
     (io \<longrightarrow> err = None) \<and>
     (err = None \<longrightarrow> wal_rep w' (es @ [e]) \<and> wal_Read w' = (map wal_read (es @ [e]), None))"
proof -
  obtain w' err where w: "wal_Write io e w = (w', err)" by (cases "wal_Write io e w")
  have "err = None \<Longrightarrow> wal_rep w' (es @ [e]) \<and> wfile (walw w') = concat (map wal_frame (es @ [e]))"
    using wal_Write_ok [OF assms(1,2)] w assms(3) by blast
  moreover have "\<forall>x \<in> set (es @ [e]). wal_fits x" using assms(1,2) by (simp add: wal_rep_def)
  ultimately have "err = None \<Longrightarrow> wal_rep w' (es @ [e]) \<and> wal_Read w' = (map wal_read (es @ [e]), None)"
    using read_loop_append [of "es @ [e]" "[]"] by (simp add: wal_Read_def)
  moreover have "io \<Longrightarrow> err = None" using wal_Write_succeeds [OF assms(1,2)] w by auto
  ultimately show ?thesis using w by simp
qed

theorem wal_write_durable_witness:
  "wal_Read (fst (wal_Write True sample_wal (wal_of SyncAlways [sample_wal]))) =
     (map wal_read [sample_wal, sample_wal], None)"
proof -
  have "syncPolicy (wal_of SyncAlways [sample_wal]) = SyncAlways" by (simp add: wal_of_def)
  from wal_write_durable [OF wal_rep_sample wal_fits_sample this, where io = True] show ?thesis
    by (simp add: case_prod_beta)
qed

text \<open>A crash in the middle of a write: reading recovers every complete entry; the torn one is
  reported as an error, except when it was cut exactly at its start or after its 17-byte
  header, where the log just ends.\<close>

theorem wal_torn_write:
  assumes "\<forall>x \<in> set es. wal_fits x" and "wal_fits e" and "n < length (wal_frame e)"
    and "wfile (walw w) = concat (map wal_frame es) @ take n (wal_frame e)"
  shows "wal_Read w = (map wal_read es, if n = 0 \<or> n = 17 then None else Some UnexpectedEOF)"
  using assms by (simp add: wal_Read_def read_loop_append read_loop_torn)

theorem wal_torn_write_witness:
  "wal_Read (wal_of SyncNever [] \<lparr>walw := bw_new (wal_frame sample_wal @ take 18 (wal_frame sample_wal))\<rparr>) =
     ([wal_read sample_wal], Some UnexpectedEOF)"
  using wal_torn_write [of "[sample_wal]" sample_wal 18] wal_fits_sample
  by (simp add: bw_new_def length_wal_frame sample_wal_def)

text \<open>Without \<open>SyncAlways\<close> a write that returned without an error may be invisible to
  \<open>Read\<close>: the entry stays in the buffer, which \<open>Read\<close> does not flush.\<close>

theorem wal_read_misses_buffered:
  assumes "syncPolicy w = SyncPeriodic \<or> syncPolicy w = SyncNever" and "wbuf (walw w) = []"
    and "\<not> werr (walw w)" and "length (wal_frame e) \<le> 256 * 1024"
  shows "snd (wal_Write io e w) = None \<and> wal_Read (fst (wal_Write io e w)) = wal_Read w"
  using assms by (auto simp: wal_Write_def wal_Read_def bw_write_def walBufferSize_def Let_def)

theorem wal_read_misses_buffered_witness:
  "wal_Read (fst (wal_Write True sample_wal (wal_of SyncNever []))) = ([], None)"
  using wal_read_misses_buffered [of "wal_of SyncNever []" sample_wal True]
  by (simp add: wal_of_def bw_new_def length_wal_frame sample_wal_def wal_Read_def)

end
