(* ===== verification/Delta_Codec.thy ===== *)
theory Delta_Codec
  imports Mddb_Prelude
begin

section \<open>Delta encoding of revisions\<close>

text \<open>
  Models \<^verbatim>\<open>internal/delta/delta.go\<close>.  An encoding is a flag byte and either the full
  data or \<^verbatim>\<open>[newLen:4][prefixLen:4][suffixLen:4][middle]\<close> relative to a base.  A base is
  \<open>None\<close> for Go's \<^verbatim>\<open>nil\<close>; otherwise its bytes together with the spare capacity of its
  backing array, which \<^verbatim>\<open>baseData[:prefixLen]\<close> may reach into.  Slice bounds that panic
  are \<open>Panic\<close>.  The ratio of \<^verbatim>\<open>Stats\<close> is the pair of its numerator and denominator.
\<close>

type_synonym base = "(bytes \<times> bytes) option"

datatype delta_error = EmptyEncoded | RequiresBase | InvalidDelta

text \<open>The two matching loops of \<open>calculateDelta\<close>.\<close>

fun prefix_loop :: "bytes \<Rightarrow> bytes \<Rightarrow> nat \<Rightarrow> nat \<Rightarrow> nat" where
  "prefix_loop oldData newData 0 prefixLen = prefixLen"
| "prefix_loop oldData newData (Suc room) prefixLen =
     (if oldData ! prefixLen = newData ! prefixLen
      then prefix_loop oldData newData room (prefixLen + 1) else prefixLen)"

fun suffix_loop :: "bytes \<Rightarrow> bytes \<Rightarrow> nat \<Rightarrow> nat \<Rightarrow> nat" where
  "suffix_loop oldData newData 0 suffixLen = suffixLen"
| "suffix_loop oldData newData (Suc room) suffixLen =
     (if oldData ! (length oldData - 1 - suffixLen) = newData ! (length newData - 1 - suffixLen)
      then suffix_loop oldData newData room (suffixLen + 1) else suffixLen)"

definition calculateDelta :: "bytes \<Rightarrow> bytes \<Rightarrow> bytes" where
  "calculateDelta oldData newData =
     (let buf = be32 (word_of_nat (length newData));
          minLen = (if length newData < length oldData then length newData else length oldData);
          prefixLen = prefix_loop oldData newData minLen 0;
          suffixLen = suffix_loop oldData newData (minLen - prefixLen) 0;
          buf = buf @ be32 (word_of_nat prefixLen);
          buf = buf @ be32 (word_of_nat suffixLen);
          middleStart = prefixLen;
          middleEnd = length newData - suffixLen
      in if middleEnd > middleStart
         then buf @ take (middleEnd - middleStart) (drop middleStart newData) else buf)"

definition Encode :: "bytes \<Rightarrow> bytes \<Rightarrow> bytes" where
  "Encode oldData newData =
     (if length oldData = 0 then CHR 0x00 # newData
      else
        let delta = calculateDelta oldData newData
        in if length delta < length newData then CHR 0x01 # delta else CHR 0x00 # newData)"

definition applyDelta :: "bytes \<times> bytes \<Rightarrow> bytes \<Rightarrow> (delta_error, bytes) outcome" where
  "applyDelta base delta =
     (if length delta < 12 then Err InvalidDelta else
      let (baseData, spare) = base;
          prefixLen = unat (get_be32 (drop 4 delta));
          suffixLen = unat (get_be32 (drop 8 delta));
          middleData = drop 12 delta
      in if prefixLen > 0 \<and> prefixLen > length baseData + length spare then Panic else
      let result = (if prefixLen > 0 then take prefixLen (baseData @ spare) else []) @ middleData
      in if suffixLen > 0
         then (if suffixLen > length baseData then Panic
               else Ok (result @ drop (length baseData - suffixLen) baseData))
         else Ok result)"

definition Decode :: "base \<Rightarrow> bytes \<Rightarrow> (delta_error, bytes) outcome" where
  "Decode base encodedData =
     (case encodedData of
        [] \<Rightarrow> Err EmptyEncoded
      | flag # data \<Rightarrow>
          if flag = CHR 0x00 then Ok data
          else (case base of None \<Rightarrow> Err RequiresBase | Some b \<Rightarrow> applyDelta b data))"

definition Stats :: "bytes \<Rightarrow> bytes \<Rightarrow> nat \<times> nat \<times> (nat \<times> nat) option" where
  "Stats oldData newData =
     (let originalSize = length newData;
          deltaSize = length (Encode oldData newData)
      in (originalSize, deltaSize, if originalSize > 0 then Some (deltaSize, originalSize) else None))"

subsection \<open>The matching loops\<close>

lemma prefix_loop_spec:
  "p + room \<le> length old \<Longrightarrow> p + room \<le> length new \<Longrightarrow> take p old = take p new \<Longrightarrow>
   (let q = prefix_loop old new room p in p \<le> q \<and> q \<le> p + room \<and> take q old = take q new)"
proof (induction old new room p rule: prefix_loop.induct)
  case (2 old new room p)
  show ?case
  proof (cases "old ! p = new ! p")
    case True
    then have "take (p + 1) old = take (p + 1) new"
      using "2.prems" by (simp add: take_Suc_conv_app_nth)
    with True 2 show ?thesis by (fastforce simp: Let_def)
  qed (use "2.prems" in simp)
qed simp

lemma suffix_loop_spec:
  "s + room \<le> length old \<Longrightarrow> s + room \<le> length new \<Longrightarrow>
   drop (length old - s) old = drop (length new - s) new \<Longrightarrow>
   (let q = suffix_loop old new room s
    in s \<le> q \<and> q \<le> s + room \<and> drop (length old - q) old = drop (length new - q) new)"
proof (induction old new room s rule: suffix_loop.induct)
  case (2 old new room s)
  show ?case
  proof (cases "old ! (length old - 1 - s) = new ! (length new - 1 - s)")
    case True
    have step: "drop (length xs - Suc s) xs = xs ! (length xs - 1 - s) # drop (length xs - s) xs"
      if "Suc s \<le> length xs" for xs :: bytes
      using that by (subst Cons_nth_drop_Suc [symmetric]) (auto simp: Suc_diff_Suc)
    have "drop (length old - (s + 1)) old = drop (length new - (s + 1)) new"
      using True "2.prems" step [of old] step [of new] by simp
    with True 2 show ?thesis by (fastforce simp: Let_def)
  qed (use "2.prems" in simp)
qed simp

text \<open>What the two loops find: a common prefix and a common suffix that do not overlap.\<close>

lemma calculateDelta_eq:
  obtains p s where "p + s \<le> length old" "p + s \<le> length new" "take p old = take p new"
    "drop (length old - s) old = drop (length new - s) new"
    "calculateDelta old new = be32 (word_of_nat (length new)) @ be32 (word_of_nat p) @
       be32 (word_of_nat s) @ take (length new - s - p) (drop p new)"
proof -
  let ?m = "if length new < length old then length new else length old"
  let ?p = "prefix_loop old new ?m 0"
  let ?s = "suffix_loop old new (?m - ?p) 0"
  have p: "?p \<le> ?m" "take ?p old = take ?p new"
    using prefix_loop_spec [of 0 ?m old new] by (auto simp: Let_def)
  have s: "?s \<le> ?m - ?p" "drop (length old - ?s) old = drop (length new - ?s) new"
    using suffix_loop_spec [of 0 "?m - ?p" old new] p(1) by (auto simp: Let_def split: if_splits)
  have m: "?m \<le> length old" "?m \<le> length new" by auto
  have len: "?p + ?s \<le> length old" "?p + ?s \<le> length new"
    using p(1) s(1) m by linarith+
  have "calculateDelta old new = be32 (word_of_nat (length new)) @ be32 (word_of_nat ?p) @
      be32 (word_of_nat ?s) @ take (length new - ?s - ?p) (drop ?p new)"
    using len by (auto simp: calculateDelta_def Let_def)
  with len p(2) s(2) show ?thesis using that by blast
qed

lemma applyDelta_calculateDelta:
  assumes "length old < 2 ^ 32" and "length new < 2 ^ 32"
  shows "applyDelta (old, spare) (calculateDelta old new) = Ok new"
proof -
  obtain p s where ps: "p + s \<le> length old" "p + s \<le> length new" "take p old = take p new"
    "drop (length old - s) old = drop (length new - s) new"
    and d: "calculateDelta old new = be32 (word_of_nat (length new)) @ be32 (word_of_nat p) @
       be32 (word_of_nat s) @ take (length new - s - p) (drop p new)"
    by (rule calculateDelta_eq)
  let ?d = "calculateDelta old new" and ?mid = "take (length new - s - p) (drop p new)"
  have u: "unat (word_of_nat p :: u32) = p" "unat (word_of_nat s :: u32) = s"
    using ps assms by (simp_all add: unat_of_nat)
  have dr: "drop 4 ?d = be32 (word_of_nat p) @ (be32 (word_of_nat s) @ ?mid)"
    "drop 8 ?d = be32 (word_of_nat s) @ ?mid" "drop 12 ?d = ?mid"
    by (simp_all add: d)
  have f: "unat (get_be32 (drop 4 ?d)) = p" "unat (get_be32 (drop 8 ?d)) = s"
    by (simp_all only: dr get_be32_be32 u)
  have pre: "(if p > 0 then take p (old @ spare) else []) = take p new"
    using ps by auto
  have suf: "drop (length old - s) old = drop (length new - s) new" by (rule ps)
  have "take p new @ ?mid @ drop (length new - s) new = new"
  proof -
    have "take p new @ ?mid = take (length new - s) new"
      using ps(2) take_add [of p "length new - s - p" new] by simp
    then show ?thesis by (metis append_assoc append_take_drop_id)
  qed
  moreover have "s = 0 \<Longrightarrow> drop (length new - s) new = []" by simp
  moreover have "12 \<le> length ?d" by (simp add: d)
  moreover have "p \<le> length old + length spare" "s \<le> length old" using ps by simp_all
  ultimately show ?thesis
    unfolding applyDelta_def Let_def prod.case f dr(3) pre suf by auto
qed

lemma Decode_Encode:
  assumes "length old < 2 ^ 32" and "length new < 2 ^ 32"
  shows "Decode (Some (old, spare)) (Encode old new) = Ok new"
  using applyDelta_calculateDelta [OF assms] by (simp add: Decode_def Encode_def Let_def)

lemma length_Encode_le: "length (Encode old new) \<le> Suc (length new)"
  by (simp add: Encode_def Let_def)

subsection \<open>Properties\<close>

text \<open>Decoding what \<open>Encode\<close> produced, against the same base, gives the new data back, for
  data below 4 GB; an encoding made without a base decodes without one; and no encoding is more
  than one byte longer than the data.\<close>

theorem delta_roundtrip:
  assumes "length old < 2 ^ 32" and "length new < 2 ^ 32"
  shows "Decode (Some (old, spare)) (Encode old new) = Ok new \<and>
     Decode None (Encode [] new) = Ok new \<and> length (Encode old new) \<le> Suc (length new)"
  using Decode_Encode [OF assms] length_Encode_le by (simp add: Decode_def Encode_def)

theorem delta_roundtrip_witness:
  "Decode (Some (''hello world'', [])) (Encode ''hello world'' ''hello there world'') = Ok ''hello there world''"
  using delta_roundtrip [of "''hello world''" "''hello there world''" "[]"] by simp

text \<open>The decoder does not check a delta against its base: a delta applied to a base shorter
  than its prefix plus spare capacity, or than its suffix, panics instead of returning an error,
  and the length stored in the delta is ignored.\<close>

theorem Decode_wrong_base:
  assumes "flag \<noteq> CHR 0x00" and "0 < s" and "s < 2 ^ 32" and "p < 2 ^ 32" and "0 < p"
  shows "Decode (Some (b, spare)) (flag # be32 l @ be32 (word_of_nat p) @ be32 (word_of_nat s) @ mid) =
     (if p > length b + length spare \<or> s > length b then Panic
      else Ok (take p (b @ spare) @ mid @ drop (length b - s) b))"
proof -
  let ?d = "be32 l @ be32 (word_of_nat p) @ be32 (word_of_nat s) @ mid"
  have u: "unat (word_of_nat p :: u32) = p" "unat (word_of_nat s :: u32) = s"
    using assms by (simp_all add: unat_of_nat)
  have "drop 8 ?d = be32 (word_of_nat s) @ mid" "drop 12 ?d = mid"
    "drop 4 ?d = be32 (word_of_nat p) @ (be32 (word_of_nat s) @ mid)" by simp_all
  then have f: "unat (get_be32 (drop 4 ?d)) = p" "unat (get_be32 (drop 8 ?d)) = s" "drop 12 ?d = mid"
    by (simp_all only: get_be32_be32 u)
  have "\<not> length ?d < 12" by simp
  then show ?thesis
    using assms(1,2,5) unfolding Decode_def applyDelta_def list.case Let_def prod.case option.case f
    by auto
qed

theorem Decode_wrong_base_witness:
  "Decode (Some (''ab'', [])) (CHR 0x01 # be32 9 @ be32 (word_of_nat 4) @ be32 (word_of_nat 1) @ ''x'') = Panic"
  using Decode_wrong_base [of "CHR 0x01" 1 4 "''ab''" "[]" 9 "''x''"] by simp

end
