(* ===== verification/Mvcc.thy ===== *)
theory Mvcc
  imports Mddb_Prelude
begin

section \<open>Multi-version concurrency control\<close>

text \<open>
  Models \<^verbatim>\<open>mvcc.go\<close>: version chains per key, transactions with the keys they touched,
  snapshot reads, commit, rollback and the garbage collector.  A \<^verbatim>\<open>sync.Map\<close> is a map;
  the set of keys of a transaction is a duplicate-free list in the order of their first write,
  which stands for the arbitrary order of \<^verbatim>\<open>Range\<close>.  Every chain has its own lock, so a
  commit is not one atomic operation: \<open>mvcc_step\<close> interleaves its per-key steps with all other
  operations.  Clock readings are arguments.
\<close>

record Version =
  TxnID :: u64
  VTimestamp :: int
  VData :: bytes
  Deleted :: bool
  Visible :: bool

record MVCC =
  versions :: "bytes \<rightharpoonup> Version list"
  txnKeys :: "u64 \<rightharpoonup> bytes list"
  txnID :: u64

definition NewMVCC :: MVCC where
  "NewMVCC = \<lparr>versions = Map.empty, txnKeys = Map.empty, txnID = 0\<rparr>"

definition BeginTxn :: "MVCC \<Rightarrow> MVCC \<times> u64" where
  "BeginTxn m = (m\<lparr>txnID := txnID m + 1\<rparr>, txnID m + 1)"

definition trackKey :: "u64 \<Rightarrow> bytes \<Rightarrow> MVCC \<Rightarrow> MVCC" where
  "trackKey t key m =
     (let keys = (case txnKeys m t of None \<Rightarrow> [] | Some ks \<Rightarrow> ks)
      in m\<lparr>txnKeys := (txnKeys m)(t \<mapsto> List.insert key keys)\<rparr>)"

text \<open>The search of \<open>Read\<close> from the newest version of the chain backwards.\<close>

fun read_newest :: "u64 \<Rightarrow> Version list \<Rightarrow> bytes option" where
  "read_newest t [] = None"
| "read_newest t (v # older) =
     (if Visible v \<and> TxnID v \<le> t \<and> \<not> Deleted v then Some (VData v) else read_newest t older)"

definition mvcc_Read :: "MVCC \<Rightarrow> bytes \<Rightarrow> u64 \<Rightarrow> bytes option" where
  "mvcc_Read m key t =
     (case versions m key of None \<Rightarrow> None | Some chain \<Rightarrow> read_newest t (rev chain))"

definition chain_of :: "MVCC \<Rightarrow> bytes \<Rightarrow> Version list" where
  "chain_of m key = (case versions m key of None \<Rightarrow> [] | Some chain \<Rightarrow> chain)"

definition mvcc_Write :: "int \<Rightarrow> bytes \<Rightarrow> bytes \<Rightarrow> u64 \<Rightarrow> MVCC \<Rightarrow> MVCC" where
  "mvcc_Write now key data t m =
     trackKey t key (m\<lparr>versions := (versions m)(key \<mapsto> chain_of m key @
        [\<lparr>TxnID = t, VTimestamp = now, VData = data, Deleted = False, Visible = False\<rparr>])\<rparr>)"

definition mvcc_Delete :: "int \<Rightarrow> bytes \<Rightarrow> u64 \<Rightarrow> MVCC \<Rightarrow> MVCC" where
  "mvcc_Delete now key t m =
     trackKey t key (m\<lparr>versions := (versions m)(key \<mapsto> chain_of m key @
        [\<lparr>TxnID = t, VTimestamp = now, VData = [], Deleted = True, Visible = False\<rparr>])\<rparr>)"

text \<open>\<open>Commit\<close> and \<open>Rollback\<close>: the body of the loop for one key, then the whole.\<close>

definition show_txn :: "u64 \<Rightarrow> Version \<Rightarrow> Version" where
  "show_txn t v = (if TxnID v = t then v\<lparr>Visible := True\<rparr> else v)"

definition commit_key :: "u64 \<Rightarrow> bytes \<Rightarrow> MVCC \<Rightarrow> MVCC" where
  "commit_key t key m =
     (case versions m key of None \<Rightarrow> m
      | Some chain \<Rightarrow> m\<lparr>versions := (versions m)(key \<mapsto> map (show_txn t) chain)\<rparr>)"

definition rollback_key :: "u64 \<Rightarrow> bytes \<Rightarrow> MVCC \<Rightarrow> MVCC" where
  "rollback_key t key m =
     (case versions m key of None \<Rightarrow> m
      | Some chain \<Rightarrow> m\<lparr>versions := (versions m)(key \<mapsto> filter (\<lambda>v. TxnID v \<noteq> t) chain)\<rparr>)"

definition Commit :: "u64 \<Rightarrow> MVCC \<Rightarrow> MVCC" where
  "Commit t m =
     (case txnKeys m t of None \<Rightarrow> m
      | Some keys \<Rightarrow> fold (commit_key t) keys (m\<lparr>txnKeys := (txnKeys m)(t := None)\<rparr>))"

definition Rollback :: "u64 \<Rightarrow> MVCC \<Rightarrow> MVCC" where
  "Rollback t m =
     (case txnKeys m t of None \<Rightarrow> m
      | Some keys \<Rightarrow> fold (rollback_key t) keys (m\<lparr>txnKeys := (txnKeys m)(t := None)\<rparr>))"

definition gc_keep :: "int \<Rightarrow> (u64 \<Rightarrow> bool) \<Rightarrow> Version \<Rightarrow> bool" where
  "gc_keep cutoff activeTxns v \<longleftrightarrow> VTimestamp v > cutoff \<or> (\<not> Visible v \<and> activeTxns (TxnID v))"

definition gc_chain :: "int \<Rightarrow> (u64 \<Rightarrow> bool) \<Rightarrow> Version list \<Rightarrow> Version list" where
  "gc_chain cutoff activeTxns chain =
     (let kept = filter (gc_keep cutoff activeTxns) chain
      in if length kept = 0 \<and> length chain > 0 then drop (length chain - 1) chain else kept)"

definition gc :: "int \<Rightarrow> MVCC \<Rightarrow> MVCC" where
  "gc now m =
     (let cutoff = now - 300; activeTxns = (\<lambda>t. txnKeys m t \<noteq> None)
      in m\<lparr>versions := (\<lambda>key. map_option (gc_chain cutoff activeTxns) (versions m key))\<rparr>)"

subsection \<open>Chains after each operation\<close>

lemma versions_trackKey [simp]: "versions (trackKey t k m) = versions m"
  and txnKeys_trackKey: "txnKeys (trackKey t k m) =
    (txnKeys m)(t \<mapsto> List.insert k (case txnKeys m t of None \<Rightarrow> [] | Some ks \<Rightarrow> ks))"
  and txnID_trackKey [simp]: "txnID (trackKey t k m) = txnID m"
  by (simp_all add: trackKey_def Let_def)

lemma Read_chain: "mvcc_Read m k t = read_newest t (rev (chain_of m k))"
  by (simp add: mvcc_Read_def chain_of_def split: option.splits)

lemma chain_of_Write: "chain_of (mvcc_Write now k d t m) k' =
   (if k' = k then chain_of m k @ [\<lparr>TxnID = t, VTimestamp = now, VData = d, Deleted = False, Visible = False\<rparr>]
    else chain_of m k')"
  and chain_of_Delete: "chain_of (mvcc_Delete now k t m) k' =
   (if k' = k then chain_of m k @ [\<lparr>TxnID = t, VTimestamp = now, VData = [], Deleted = True, Visible = False\<rparr>]
    else chain_of m k')"
  by (simp_all add: mvcc_Write_def mvcc_Delete_def chain_of_def)

lemma chain_of_commit_key: "chain_of (commit_key t k m) k' =
   (if k' = k then map (show_txn t) (chain_of m k) else chain_of m k')"
  and chain_of_rollback_key: "chain_of (rollback_key t k m) k' =
   (if k' = k then filter (\<lambda>v. TxnID v \<noteq> t) (chain_of m k) else chain_of m k')"
  by (auto simp: commit_key_def rollback_key_def chain_of_def split: option.splits)

lemma show_txn_idem [simp]: "show_txn t (show_txn t v) = show_txn t v"
  by (simp add: show_txn_def)

lemma chain_of_fold_commit: "chain_of (fold (commit_key t) ks m) k =
   (if k \<in> set ks then map (show_txn t) (chain_of m k) else chain_of m k)"
  by (induction ks arbitrary: m) (auto simp: chain_of_commit_key)

lemma chain_of_fold_rollback: "chain_of (fold (rollback_key t) ks m) k =
   (if k \<in> set ks then filter (\<lambda>v. TxnID v \<noteq> t) (chain_of m k) else chain_of m k)"
  by (induction ks arbitrary: m) (auto simp: chain_of_rollback_key)

lemma chain_of_txnKeys [simp]: "chain_of (m\<lparr>txnKeys := tk\<rparr>) k = chain_of m k"
  by (simp add: chain_of_def)

definition tracked :: "MVCC \<Rightarrow> u64 \<Rightarrow> bytes \<Rightarrow> bool" where
  "tracked m t k \<longleftrightarrow> (\<exists>ks. txnKeys m t = Some ks \<and> k \<in> set ks)"

lemma chain_of_Commit: "chain_of (Commit t m) k =
   (if tracked m t k then map (show_txn t) (chain_of m k) else chain_of m k)"
  and chain_of_Rollback: "chain_of (Rollback t m) k =
   (if tracked m t k then filter (\<lambda>v. TxnID v \<noteq> t) (chain_of m k) else chain_of m k)"
  by (auto simp: Commit_def Rollback_def tracked_def chain_of_fold_commit chain_of_fold_rollback
      split: option.splits)

lemma tracked_Write: "tracked (mvcc_Write now k d t m) t' k' \<longleftrightarrow> tracked m t' k' \<or> (t' = t \<and> k' = k)"
  and tracked_Delete: "tracked (mvcc_Delete now k t m) t' k' \<longleftrightarrow> tracked m t' k' \<or> (t' = t \<and> k' = k)"
  by (cases "txnKeys m t"; auto simp: tracked_def mvcc_Write_def mvcc_Delete_def txnKeys_trackKey)+

lemma read_newest_append:
  "read_newest t (a @ b) = (case read_newest t a of None \<Rightarrow> read_newest t b | Some d \<Rightarrow> Some d)"
  by (induction a) auto

lemma read_newest_invisible: "(\<forall>v \<in> set vs. \<not> Visible v \<or> Deleted v) \<Longrightarrow> read_newest t vs = None"
  by (induction vs) auto

text \<open>No version of a transaction that has not begun.\<close>

definition fresh_txn :: "MVCC \<Rightarrow> u64 \<Rightarrow> bool" where
  "fresh_txn m t \<longleftrightarrow> txnKeys m t = None \<and> (\<forall>k. \<forall>v \<in> set (chain_of m k). TxnID v \<noteq> t)"

lemma map_show_other: "(\<forall>v \<in> set vs. TxnID v \<noteq> t) \<Longrightarrow> map (show_txn t) vs = vs"
  by (induction vs) (auto simp: show_txn_def)

subsection \<open>A transaction as a list of writes and deletes\<close>

text \<open>An operation is a key and \<open>Some\<close> new data or \<open>None\<close> for a delete.\<close>

type_synonym txn_op = "bytes \<times> bytes option"

fun run_txn :: "int \<Rightarrow> u64 \<Rightarrow> txn_op list \<Rightarrow> MVCC \<Rightarrow> MVCC" where
  "run_txn now t [] m = m"
| "run_txn now t ((k, Some d) # ops) m = run_txn now t ops (mvcc_Write now k d t m)"
| "run_txn now t ((k, None) # ops) m = run_txn now t ops (mvcc_Delete now k t m)"

definition op_version :: "int \<Rightarrow> u64 \<Rightarrow> bytes option \<Rightarrow> Version" where
  "op_version now t d = (case d of
      Some x \<Rightarrow> \<lparr>TxnID = t, VTimestamp = now, VData = x, Deleted = False, Visible = False\<rparr>
    | None \<Rightarrow> \<lparr>TxnID = t, VTimestamp = now, VData = [], Deleted = True, Visible = False\<rparr>)"

lemma op_version_simps [simp]:
  "TxnID (op_version now t d) = t" "Visible (op_version now t d) = False"
  "Deleted (op_version now t d) = (d = None)"
  by (simp_all add: op_version_def split: option.splits)

definition key_ops :: "bytes \<Rightarrow> txn_op list \<Rightarrow> bytes option list" where
  "key_ops k ops = map snd (filter (\<lambda>(k', _). k' = k) ops)"

lemma key_ops_simps [simp]:
  "key_ops k [] = []" "key_ops k (o1 # ops) = (if fst o1 = k then snd o1 # key_ops k ops else key_ops k ops)"
  by (auto simp: key_ops_def case_prod_beta)

lemma chain_of_run_txn:
  "chain_of (run_txn now t ops m) k = chain_of m k @ map (op_version now t) (key_ops k ops)"
  by (induction now t ops m rule: run_txn.induct)
    (auto simp: chain_of_Write chain_of_Delete op_version_def)

lemma tracked_run_txn:
  "tracked (run_txn now t ops m) t' k \<longleftrightarrow> tracked m t' k \<or> (t' = t \<and> key_ops k ops \<noteq> [])"
  by (induction now t ops m rule: run_txn.induct) (auto simp: tracked_Write tracked_Delete)

lemma read_newest_committed:
  "read_newest x (rev (map (show_txn t \<circ> op_version now t) ds)) =
     (if t \<le> x then (case filter (\<lambda>d. d \<noteq> None) ds of [] \<Rightarrow> None | ds' \<Rightarrow> last ds') else None)"
proof (induction ds rule: rev_induct)
  case (snoc d ds)
  then show ?case
    by (cases d) (auto simp: show_txn_def op_version_def split: list.splits)
qed simp

text \<open>Committing the operations \<open>ops\<close>: what every reader then sees.\<close>

lemma Read_after_commit:
  assumes "fresh_txn m t"
  shows "mvcc_Read (Commit t (run_txn now t ops m)) k x =
     (if t \<le> x \<and> filter (\<lambda>d. d \<noteq> None) (key_ops k ops) \<noteq> []
      then last (filter (\<lambda>d. d \<noteq> None) (key_ops k ops)) else mvcc_Read m k x)"
proof -
  have old: "map (show_txn t) (chain_of m k) = chain_of m k"
    using assms by (intro map_show_other) (simp add: fresh_txn_def)
  have "chain_of (Commit t (run_txn now t ops m)) k =
      chain_of m k @ map (show_txn t \<circ> op_version now t) (key_ops k ops)"
  proof (cases "key_ops k ops = []")
    case True
    then show ?thesis using old by (simp add: chain_of_Commit chain_of_run_txn)
  next
    case False
    then show ?thesis using old by (simp add: chain_of_Commit chain_of_run_txn tracked_run_txn)
  qed
  then have "mvcc_Read (Commit t (run_txn now t ops m)) k x =
      (case read_newest x (rev (map (show_txn t \<circ> op_version now t) (key_ops k ops))) of
         None \<Rightarrow> mvcc_Read m k x | Some d \<Rightarrow> Some d)"
    unfolding Read_chain by (simp add: read_newest_append)
  moreover have "last (filter (\<lambda>d. d \<noteq> None) ds) \<noteq> None" if "filter (\<lambda>d. d \<noteq> None) ds \<noteq> []" for ds :: "bytes option list"
    using last_in_set [OF that] by auto
  then have "\<And>a b. filter (\<lambda>d. d \<noteq> None) (key_ops k ops) = a # b \<Longrightarrow> last (a # b) \<noteq> None"
    by (metis list.distinct(1))
  ultimately show ?thesis
    unfolding read_newest_committed by (auto split: list.splits option.splits)
qed

subsection \<open>Interleaving\<close>

text \<open>
  The second component holds the commits (\<open>True\<close>) and rollbacks (\<open>False\<close>) that have taken
  their key set and still have the listed keys to process.
\<close>

type_synonym pending = "(bool \<times> u64 \<times> bytes list) list"

inductive mvcc_step :: "MVCC \<times> pending \<Rightarrow> MVCC \<times> pending \<Rightarrow> bool" where
  step_begin: "BeginTxn m = (m', t) \<Longrightarrow> mvcc_step (m, p) (m', p)"
| step_write: "mvcc_step (m, p) (mvcc_Write now k d t m, p)"
| step_delete: "mvcc_step (m, p) (mvcc_Delete now k t m, p)"
| step_finish: "txnKeys m t = Some ks \<Longrightarrow>
    mvcc_step (m, p) (m\<lparr>txnKeys := (txnKeys m)(t := None)\<rparr>, (b, t, ks) # p)"
| step_commit_key: "k \<in> set ks \<Longrightarrow>
    mvcc_step (m, p1 @ (True, t, ks) # p2) (commit_key t k m, p1 @ (True, t, remove1 k ks) # p2)"
| step_rollback_key: "k \<in> set ks \<Longrightarrow>
    mvcc_step (m, p1 @ (False, t, ks) # p2) (rollback_key t k m, p1 @ (False, t, remove1 k ks) # p2)"
| step_done: "mvcc_step (m, p1 @ (b, t, []) # p2) (m, p1 @ p2)"
| step_gc: "mvcc_step (m, p) (gc now m, p)"

inductive_cases mvcc_stepE: "mvcc_step (m, p) s'"

inductive mvcc_reach :: "MVCC \<times> pending \<Rightarrow> bool" where
  reach_init: "mvcc_reach (NewMVCC, [])"
| reach_step: "mvcc_reach s \<Longrightarrow> mvcc_step s s' \<Longrightarrow> mvcc_reach s'"

text \<open>Every invisible version belongs to a transaction that is still open or being finished.\<close>

definition mvcc_inv :: "MVCC \<times> pending \<Rightarrow> bool" where
  "mvcc_inv s \<longleftrightarrow> (\<forall>k. \<forall>v \<in> set (chain_of (fst s) k). \<not> Visible v \<longrightarrow>
     tracked (fst s) (TxnID v) k \<or> (\<exists>b ks. (b, TxnID v, ks) \<in> set (snd s) \<and> k \<in> set ks))"

lemma chain_of_gc: "set (chain_of (gc now m) k) \<subseteq> set (chain_of m k)"
  by (auto simp: gc_def gc_chain_def chain_of_def Let_def dest: in_set_dropD split: option.splits if_splits)

lemma tracked_gc [simp]: "tracked (gc now m) = tracked m"
  by (simp add: fun_eq_iff tracked_def gc_def Let_def)

lemma tracked_keys [simp]: "tracked (commit_key t k m) = tracked m" "tracked (rollback_key t k m) = tracked m"
  by (simp_all add: fun_eq_iff tracked_def commit_key_def rollback_key_def split: option.splits)

lemma pending_remove1:
  assumes "(b, t', ks') \<in> set (p1 @ (c, t, ks) # p2)" and "k' \<in> set ks'" and "\<not> (k' = k \<and> t' = t)"
  shows "\<exists>b ks''. (b, t', ks'') \<in> set (p1 @ (c, t, remove1 k ks) # p2) \<and> k' \<in> set ks''"
proof (cases "(b, t', ks') = (c, t, ks)")
  case True
  with assms(2,3) have "k' \<in> set (remove1 k ks)" by simp
  with True show ?thesis by auto
next
  case False
  with assms(1) have "(b, t', ks') \<in> set (p1 @ (c, t, remove1 k ks) # p2)" by auto
  with assms(2) show ?thesis by blast
qed

text \<open>Processing a key of a pending commit or rollback settles the versions of that key.\<close>

lemma mvcc_inv_key_step:
  assumes inv: "mvcc_inv (m, p1 @ (c, t, ks) # p2)" and tr: "tracked m' = tracked m"
    and ch: "\<And>k' v. v \<in> set (chain_of m' k') \<Longrightarrow> \<not> Visible v \<Longrightarrow>
      v \<in> set (chain_of m k') \<and> \<not> (k' = k \<and> TxnID v = t)"
  shows "mvcc_inv (m', p1 @ (c, t, remove1 k ks) # p2)"
  unfolding mvcc_inv_def fst_conv snd_conv tr
proof (intro allI ballI impI)
  fix k' v assume v: "v \<in> set (chain_of m' k')" "\<not> Visible v"
  note c = ch [OF v]
  with inv v(2) have "tracked m (TxnID v) k' \<or>
      (\<exists>b ks'. (b, TxnID v, ks') \<in> set (p1 @ (c, t, ks) # p2) \<and> k' \<in> set ks')"
    unfolding mvcc_inv_def fst_conv snd_conv by blast
  then show "tracked m (TxnID v) k' \<or>
      (\<exists>b ks'. (b, TxnID v, ks') \<in> set (p1 @ (c, t, remove1 k ks) # p2) \<and> k' \<in> set ks')"
    using pending_remove1 c by metis
qed

lemma mvcc_step_inv: "mvcc_step s s' \<Longrightarrow> mvcc_inv s \<Longrightarrow> mvcc_inv s'"
proof (induction rule: mvcc_step.induct)
  case (step_begin m m' t p)
  have "m' = m\<lparr>txnID := txnID m + 1\<rparr>" using step_begin.hyps by (auto simp: BeginTxn_def)
  then have "chain_of m' = chain_of m" "tracked m' = tracked m"
    by (simp_all add: fun_eq_iff chain_of_def tracked_def)
  with step_begin.prems show ?case by (simp add: mvcc_inv_def)
next
  case (step_write m p now k d t)
  then show ?case by (auto simp: mvcc_inv_def chain_of_Write tracked_Write split: if_splits)
next
  case (step_delete m p now k t)
  then show ?case by (auto simp: mvcc_inv_def chain_of_Delete tracked_Delete split: if_splits)
next
  case (step_finish m t ks p b)
  have "tracked (m\<lparr>txnKeys := (txnKeys m)(t := None)\<rparr>) t' k \<or> (t' = t \<and> k \<in> set ks)"
    if "tracked m t' k" for t' k
    using that step_finish.hyps by (auto simp: tracked_def)
  with step_finish.prems show ?case
    unfolding mvcc_inv_def fst_conv snd_conv chain_of_txnKeys by (metis list.set_intros(1) list.set_intros(2))
next
  case (step_commit_key k ks m p1 t p2)
  from step_commit_key.prems show ?case
    by (rule mvcc_inv_key_step) (auto simp: chain_of_commit_key show_txn_def split: if_splits)
next
  case (step_rollback_key k ks m p1 t p2)
  from step_rollback_key.prems show ?case
    by (rule mvcc_inv_key_step) (auto simp: chain_of_rollback_key split: if_splits)
next
  case (step_done m p1 b t p2)
  then show ?case by (fastforce simp: mvcc_inv_def)
next
  case (step_gc m p now)
  then show ?case using chain_of_gc by (fastforce simp: mvcc_inv_def)
qed

lemma mvcc_reach_inv: "mvcc_reach s \<Longrightarrow> mvcc_inv s"
proof (induction rule: mvcc_reach.induct)
  case reach_init
  then show ?case by (simp add: mvcc_inv_def NewMVCC_def chain_of_def)
qed (rule mvcc_step_inv)

subsection \<open>Garbage collection\<close>

lemma gc_chain_last:
  assumes "chain \<noteq> []" and "\<forall>v \<in> set chain. Visible v" and "sorted (map VTimestamp chain)"
  shows "\<exists>front. gc_chain cutoff act chain = front @ [last chain]"
proof (cases "filter (gc_keep cutoff act) chain = []")
  case True
  with assms(1) show ?thesis
    by (cases chain rule: rev_cases) (auto simp: gc_chain_def Let_def)
next
  case False
  then obtain v where v: "v \<in> set chain" "VTimestamp v > cutoff"
    using assms(2) by (auto simp: filter_empty_conv gc_keep_def)
  obtain front l where c: "chain = front @ [l]" using assms(1) by (cases chain rule: rev_cases) auto
  have "VTimestamp v \<le> VTimestamp l" using v(1) assms(3) by (auto simp: c sorted_append)
  with v(2) have "gc_keep cutoff act l" by (simp add: gc_keep_def)
  then show ?thesis by (simp add: c gc_chain_def Let_def)
qed

lemma chain_of_gc_eq: "chain_of (gc now m) k = gc_chain (now - 300) (\<lambda>t. txnKeys m t \<noteq> None) (chain_of m k)"
  by (simp add: gc_def chain_of_def gc_chain_def Let_def split: option.splits)

subsection \<open>Properties\<close>

text \<open>Commit publishes a transaction as a whole: a reader at or above its id sees, for each key,
  the last data the transaction wrote; every other reader and every other key read what they read
  before.\<close>

theorem mvcc_commit_publishes:
  assumes "fresh_txn m t"
  shows "mvcc_Read (Commit t (run_txn now t ops m)) k x =
     (if t \<le> x \<and> filter (\<lambda>d. d \<noteq> None) (key_ops k ops) \<noteq> []
      then last (filter (\<lambda>d. d \<noteq> None) (key_ops k ops)) else mvcc_Read m k x)"
  using assms by (rule Read_after_commit)

theorem mvcc_commit_publishes_witness:
  "mvcc_Read (Commit 1 (run_txn 10 1 [(''a'', Some ''x''), (''b'', Some ''y''), (''a'', Some ''z'')] NewMVCC)) ''a'' 4 = Some ''z''"
  by (subst mvcc_commit_publishes) (simp_all add: fresh_txn_def NewMVCC_def chain_of_def key_ops_def)

text \<open>A transaction that has not committed is invisible to every reader, and a rollback takes
  it back completely: reads and version chains are what they were before it began.\<close>

theorem mvcc_isolation_rollback:
  assumes "fresh_txn m t"
  shows "mvcc_Read (run_txn now t ops m) k x = mvcc_Read m k x \<and>
     mvcc_Read (Rollback t (run_txn now t ops m)) k x = mvcc_Read m k x \<and>
     chain_of (Rollback t (run_txn now t ops m)) k = chain_of m k \<and>
     txnKeys (Rollback t (run_txn now t ops m)) t = None"
proof -
  have inv: "read_newest x (rev (map (op_version now t) ds)) = None" for ds
    by (rule read_newest_invisible) auto
  have "filter (\<lambda>v. TxnID v \<noteq> t) (chain_of m k) = chain_of m k"
    using assms by (auto simp: fresh_txn_def filter_id_conv)
  moreover have "\<not> tracked (run_txn now t ops m) t k \<Longrightarrow> key_ops k ops = []"
    by (simp add: tracked_run_txn)
  ultimately have chain: "chain_of (Rollback t (run_txn now t ops m)) k = chain_of m k"
    by (auto simp: chain_of_Rollback chain_of_run_txn filter_empty_conv)
  have "txnKeys (fold (rollback_key t) ks m') t' = txnKeys m' t'" for ks m' t'
    by (induction ks arbitrary: m') (simp_all add: rollback_key_def split: option.splits)
  then have "txnKeys (Rollback t (run_txn now t ops m)) t = None"
    by (auto simp: Rollback_def split: option.splits)
  with chain inv show ?thesis by (simp add: Read_chain chain_of_run_txn read_newest_append)
qed

theorem mvcc_isolation_rollback_witness:
  "mvcc_Read (Rollback 1 (run_txn 10 1 [(''a'', Some ''x'')] NewMVCC)) ''a'' 4 = None"
  using mvcc_isolation_rollback [of NewMVCC 1 10 "[(''a'', Some ''x'')]" "''a''" 4]
  by (simp add: fresh_txn_def NewMVCC_def chain_of_def mvcc_Read_def)

text \<open>In every reachable interleaving of writes, per-key commit and rollback steps and garbage
  collections, an invisible version belongs to a transaction that is still open or whose commit or
  rollback still has that key to do: nothing is left half committed.\<close>

theorem mvcc_no_residue:
  assumes "mvcc_reach (m, p)" and "v \<in> set (chain_of m k)" and "\<not> Visible v"
  shows "tracked m (TxnID v) k \<or> (\<exists>b ks. (b, TxnID v, ks) \<in> set p \<and> k \<in> set ks)"
  using mvcc_reach_inv [OF assms(1)] assms(2,3) by (auto simp: mvcc_inv_def)

theorem mvcc_no_residue_witness:
  "tracked (mvcc_Write 10 ''a'' ''x'' 1 NewMVCC) 1 ''a'' \<or>
   (\<exists>b ks. (b, 1 :: u64, ks) \<in> set [] \<and> ''a'' \<in> set ks)"
  using mvcc_no_residue [OF reach_step [OF reach_init step_write],
      of "op_version 10 1 (Some ''x'')" 10 "''a''" "''x''" 1 "''a''"]
  by (simp add: chain_of_Write op_version_def)

text \<open>A committed delete does nothing: whatever a reader saw for the key before, it sees after
  the deleting transaction has committed, because \<open>Read\<close> skips the tombstone and goes on to the
  older versions.\<close>

theorem mvcc_delete_ineffective:
  assumes "fresh_txn m t"
  shows "mvcc_Read (Commit t (mvcc_Delete now k t m)) k x = mvcc_Read m k x"
  using Read_after_commit [OF assms, of now "[(k, None)]" k x] by simp

theorem mvcc_delete_ineffective_witness:
  "mvcc_Read (Commit 2 (mvcc_Delete 10 ''a'' 2 (Commit 1 (run_txn 5 1 [(''a'', Some ''x'')] NewMVCC)))) ''a'' 9 = Some ''x''"
proof -
  have "fresh_txn NewMVCC 1" by (simp add: fresh_txn_def NewMVCC_def chain_of_def)
  then have "mvcc_Read (Commit 1 (run_txn 5 1 [(''a'', Some ''x'')] NewMVCC)) ''a'' 9 = Some ''x''"
    by (subst Read_after_commit) (simp_all add: key_ops_def)
  moreover have "fresh_txn (Commit 1 (run_txn 5 1 [(''a'', Some ''x'')] NewMVCC)) 2"
    by (simp add: fresh_txn_def Commit_def commit_key_def mvcc_Write_def trackKey_def NewMVCC_def
        chain_of_def show_txn_def List.insert_def)
  ultimately show ?thesis using mvcc_delete_ineffective by simp
qed

text \<open>Garbage collection does not change what the latest readers see of a key whose versions are
  all committed, in the order of their clock readings, and whose newest version is not a
  tombstone.\<close>

theorem mvcc_gc_keeps_latest:
  assumes "\<forall>v \<in> set (chain_of m k). Visible v \<and> TxnID v \<le> x" and "sorted (map VTimestamp (chain_of m k))"
    and "chain_of m k \<noteq> []" and "\<not> Deleted (last (chain_of m k))"
  shows "mvcc_Read (gc now m) k x = mvcc_Read m k x"
proof -
  obtain front where "chain_of (gc now m) k = front @ [last (chain_of m k)]"
    using gc_chain_last [OF assms(3) _ assms(2), of "now - 300" "\<lambda>t. txnKeys m t \<noteq> None"] assms(1)
    by (auto simp: chain_of_gc_eq)
  moreover obtain old where "chain_of m k = old @ [last (chain_of m k)]"
    using assms(3) by (metis append_butlast_last_id)
  moreover have "last (chain_of m k) \<in> set (chain_of m k)" using assms(3) by simp
  then have "Visible (last (chain_of m k))" "TxnID (last (chain_of m k)) \<le> x" using assms(1) by auto
  ultimately show ?thesis
    using assms(4) unfolding Read_chain by (metis read_newest.simps(2) rev.simps(2) rev_append rev_singleton_conv rev_rev_ident append_Cons append_Nil)
qed

definition gc_sample :: MVCC where
  "gc_sample = NewMVCC\<lparr>versions := [''a'' \<mapsto>
     [\<lparr>TxnID = 1, VTimestamp = 10, VData = ''x'', Deleted = False, Visible = True\<rparr>,
      \<lparr>TxnID = 2, VTimestamp = 20, VData = ''y'', Deleted = False, Visible = True\<rparr>]]\<rparr>"

theorem mvcc_gc_keeps_latest_witness: "mvcc_Read (gc 1000 gc_sample) ''a'' 5 = Some ''y''"
  by (subst mvcc_gc_keeps_latest) (simp_all add: gc_sample_def chain_of_def mvcc_Read_def)

text \<open>An uncommitted write makes the collector discard committed data: a key whose committed
  versions are all older than the five minutes and which an open transaction has written reads as
  absent after a collection.\<close>

theorem mvcc_gc_drops_committed:
  assumes "\<forall>v \<in> set (chain_of m k). Visible v \<and> VTimestamp v \<le> now - 300"
  shows "mvcc_Read (gc now (mvcc_Write now k d t m)) k x = None"
proof -
  let ?n = "\<lparr>TxnID = t, VTimestamp = now, VData = d, Deleted = False, Visible = False\<rparr>"
  have "filter (gc_keep (now - 300) act) (chain_of m k) = []" for act
    using assms by (auto simp: filter_empty_conv gc_keep_def)
  then have "chain_of (gc now (mvcc_Write now k d t m)) k = [?n]"
    by (simp add: chain_of_gc_eq chain_of_Write gc_chain_def gc_keep_def)
  then show ?thesis by (simp add: Read_chain)
qed

theorem mvcc_gc_drops_committed_witness:
  "mvcc_Read gc_sample ''a'' 5 = Some ''y'' \<and>
   mvcc_Read (gc 1000 (mvcc_Write 1000 ''a'' ''z'' 7 gc_sample)) ''a'' 5 = None"
  using mvcc_gc_drops_committed [of gc_sample "''a''" 1000 "''z''" 7 5]
  by (simp add: gc_sample_def chain_of_def mvcc_Read_def)

end
