(* ===== verification/Go_Slices.thy ===== *)
theory Go_Slices
  imports Mddb_Prelude
begin

section \<open>Slices that are sorted, made unique and cut\<close>

text \<open>
  The helpers of \<^verbatim>\<open>internal/sliceutil\<close> and what the standard library does to a slice.
  \<^verbatim>\<open>sort.Slice\<close> leaves the order of equal elements open; the model uses the insertion sort
  that it is for short slices, and the properties only use that the result is a sorted permutation.
\<close>

subsection \<open>Sorting\<close>

text \<open>A new element moves left past every one it comes before, over the reversed prefix.\<close>

fun sink :: "('a \<Rightarrow> 'a \<Rightarrow> bool) \<Rightarrow> 'a \<Rightarrow> 'a list \<Rightarrow> 'a list" where
  "sink gt x [] = [x]"
| "sink gt x (y # ys) = (if gt x y then y # sink gt x ys else x # y # ys)"

definition sort_slice :: "('a \<Rightarrow> 'a \<Rightarrow> bool) \<Rightarrow> 'a list \<Rightarrow> 'a list" where
  "sort_slice before xs = rev (fold (sink before) xs [])"

text \<open>What \<^verbatim>\<open>sort.Slice\<close> expects of a comparison.\<close>

definition score_order :: "('f \<Rightarrow> 'f \<Rightarrow> bool) \<Rightarrow> bool" where
  "score_order gt \<longleftrightarrow> (\<forall>a b. gt a b \<longrightarrow> \<not> gt b a) \<and> (\<forall>a b c. gt a c \<longrightarrow> gt a b \<or> gt b c)"

lemma score_order_by: "score_order gt \<Longrightarrow> score_order (\<lambda>a b. gt (f a) (f b))"
  unfolding score_order_def by blast

lemma score_order_linear [simp]: "score_order ((<) :: 'a :: linorder \<Rightarrow> 'a \<Rightarrow> bool)" "score_order ((>) :: 'a :: linorder \<Rightarrow> 'a \<Rightarrow> bool)"
  by (auto simp: score_order_def)

lemma sort_slice_Nil [simp]: "sort_slice g [] = []"
  by (simp add: sort_slice_def)

lemma sink_perm: "mset (sink g x ys) = add_mset x (mset ys)"
  by (induction ys) auto

lemma sort_slice_perm [simp]: "mset (sort_slice g xs) = mset xs"
proof -
  have "mset (fold (sink g) xs acc) = mset xs + mset acc" for acc
    by (induction xs arbitrary: acc) (simp_all add: sink_perm)
  then show ?thesis by (simp add: sort_slice_def)
qed

lemma sort_slice_set [simp]: "set (sort_slice g xs) = set xs" "length (sort_slice g xs) = length xs"
  by (metis sort_slice_perm set_mset_mset, metis sort_slice_perm size_mset)

lemma sort_slice_sorted:
  assumes "score_order g"
  shows "sorted_wrt (\<lambda>a b. \<not> g b a) (sort_slice g xs)"
proof -
  let ?le = "\<lambda>a b. \<not> g a b"
  have sink_set: "set (sink g x ys) = insert x (set ys)" for x ys by (induction ys) auto
  have step: "sorted_wrt ?le ys \<Longrightarrow> sorted_wrt ?le (sink g x ys)" for x ys
  proof (induction ys)
    case (Cons y ys)
    have "?le x z" if "\<not> g x y" "z \<in> set ys" for z
      using that Cons.prems assms unfolding score_order_def by (meson sorted_wrt.simps(2))
    moreover have "g x y \<Longrightarrow> ?le y x" using assms by (simp add: score_order_def)
    ultimately show ?case using Cons by (cases "g x y") (simp_all add: sink_set)
  qed simp
  have "sorted_wrt ?le acc \<Longrightarrow> sorted_wrt ?le (fold (sink g) xs acc)" for acc
    by (induction xs arbitrary: acc) (simp_all add: step)
  then show ?thesis by (simp add: sort_slice_def sorted_wrt_rev)
qed

subsection \<open>Removing duplicates\<close>

fun unique_loop :: "'a list \<Rightarrow> 'a list \<Rightarrow> 'a list" where
  "unique_loop seen [] = []"
| "unique_loop seen (x # xs) = (if x \<in> set seen then unique_loop seen xs else x # unique_loop (x # seen) xs)"

definition Unique :: "'a list \<Rightarrow> 'a list" where "Unique xs = unique_loop [] xs"

lemma unique_loop_set: "set (unique_loop seen xs) = set xs - set seen" "distinct (unique_loop seen xs)"
  by (induction xs arbitrary: seen) auto

lemma Unique_set [simp]: "set (Unique xs) = set xs" "distinct (Unique xs)"
  by (simp_all add: Unique_def unique_loop_set)

subsection \<open>Pages\<close>

text \<open>
  \<^verbatim>\<open>rows[start:end]\<close> after both have been cut to the length, with the panic of bounds that
  are out of order.
\<close>

definition page :: "int \<Rightarrow> int \<Rightarrow> 'a list \<Rightarrow> 'a list option" where
  "page offset limit rows =
     (let n = int (length rows);
          start = (if offset > n then n else offset);
          e = wrap64 (start + limit);
          end' = (if e > n then n else e)
      in if 0 \<le> start \<and> start \<le> end' then Some (take (nat (end' - start)) (drop (nat start) rows)) else None)"

lemma page_valid:
  assumes "0 \<le> offset" and "0 \<le> limit" and "int (length rows) + limit < 2 ^ 63"
  shows "page offset limit rows = Some (take (nat limit) (drop (nat offset) rows))"
proof -
  let ?n = "int (length rows)" and ?s = "if offset > int (length rows) then int (length rows) else offset"
  have w: "wrap64 (?s + limit) = ?s + limit" using assms by (intro wrap64_id) auto
  have "take (nat (min (?s + limit) ?n - ?s)) (drop (nat ?s) rows) = take (nat limit) (drop (nat offset) rows)"
  proof (cases "offset > ?n")
    case False
    have "take (nat (?n - offset)) (drop (nat offset) rows) = take (nat limit) (drop (nat offset) rows)" if "?n < offset + limit"
      using that False assms(1) by (subst (1 2) take_all) auto
    with False show ?thesis by (auto simp: min_def)
  qed simp
  moreover have "(if ?s + limit > ?n then ?n else ?s + limit) = min (?s + limit) ?n" by simp
  ultimately show ?thesis using assms by (simp add: page_def Let_def w min_def split: if_splits)
qed

end
