(* ===== verification/Query_Expr.thy ===== *)
theory Query_Expr
  imports Go_Slices "HOL-Library.AList"
begin

section \<open>The query language of the full-text search\<close>

text \<open>
  Models \<^verbatim>\<open>internal/fts/fts_query_expr.go\<close>: the tokenizer, the recursive-descent
  parser, the canonical form of expressions and the evaluator.  A query is a list of runes, the
  code points that \<^verbatim>\<open>[]rune(q)\<close> yields.  The tables of the package
  \<^verbatim>\<open>unicode\<close> and \<^verbatim>\<open>strconv.Quote\<close>, which \<^verbatim>\<open>%q\<close> uses, are parameters.
\<close>

type_synonym rune = nat
type_synonym ustring = "rune list"

record unicode =
  u_space :: "rune \<Rightarrow> bool"
  u_digit :: "rune \<Rightarrow> bool"
  u_lower :: "rune \<Rightarrow> rune"
  u_upper :: "rune \<Rightarrow> rune"
  u_quote :: "ustring \<Rightarrow> ustring"

abbreviation ch :: "char \<Rightarrow> rune" where "ch c \<equiv> of_char c"
abbreviation runes :: "bytes \<Rightarrow> ustring" where "runes s \<equiv> map of_char s"

definition ToLower :: "unicode \<Rightarrow> ustring \<Rightarrow> ustring" where "ToLower U s = map (u_lower U) s"
definition ToUpper :: "unicode \<Rightarrow> ustring \<Rightarrow> ustring" where "ToUpper U s = map (u_upper U) s"

definition TrimSpace :: "unicode \<Rightarrow> ustring \<Rightarrow> ustring" where
  "TrimSpace U s = rev (dropWhile (u_space U) (rev (dropWhile (u_space U) s)))"

subsection \<open>Tokens\<close>

datatype token =
    tokEOF | tokTerm ustring | tokPhrase ustring | tokProximity ustring int | tokWildcard ustring | tokFuzzy ustring int
  | tokLParen | tokRParen | tokAnd | tokOr | tokNot | tokRequire

text \<open>\<open>readInt\<close> computes in \<^verbatim>\<open>int\<close>, which wraps; the second component is what was consumed.\<close>

fun readInt_loop :: "unicode \<Rightarrow> int \<Rightarrow> nat \<Rightarrow> ustring \<Rightarrow> int \<times> nat" where
  "readInt_loop U n i [] = (n, i)"
| "readInt_loop U n i (r # rs) =
     (if u_digit U r then readInt_loop U (wrap64 (n * 10 + (int r - 48))) (Suc i) rs else (n, i))"

definition readInt :: "unicode \<Rightarrow> ustring \<Rightarrow> int \<times> nat" where
  "readInt U rs = (if rs = [] \<or> \<not> u_digit U (hd rs) then (-1, 0) else readInt_loop U 0 0 rs)"

definition keywordToken :: "unicode \<Rightarrow> ustring \<Rightarrow> token" where
  "keywordToken U word =
     (let w = ToUpper U word
      in if w = runes ''AND'' then tokAnd else if w = runes ''OR'' then tokOr
         else if w = runes ''NOT'' then tokNot else tokEOF)"

text \<open>
  What a bare word becomes.  The last \<^verbatim>\<open>~\<close> splits off a distance when it is neither the
  first nor the last character and a number follows it.
\<close>

definition tilde_split :: "ustring \<Rightarrow> (ustring \<times> ustring) option" where
  "tilde_split w =
     (if ch CHR ''~'' \<notin> set w then None else
      let post = rev (takeWhile (\<lambda>r. r \<noteq> ch CHR ''~'') (rev w)); pre = take (length w - length post - 1) w
      in if pre \<noteq> [] \<and> post \<noteq> [] then Some (pre, post) else None)"

definition word_token :: "unicode \<Rightarrow> ustring \<Rightarrow> token" where
  "word_token U word =
     (if keywordToken U word \<noteq> tokEOF then keywordToken U word else
      let plain = (if ch CHR ''*'' \<in> set word \<or> ch CHR ''?'' \<in> set word then tokWildcard word else tokTerm word)
      in case tilde_split word of None \<Rightarrow> plain
         | Some (pre, post) \<Rightarrow> if fst (readInt U post) \<ge> 0 then tokFuzzy pre (fst (readInt U post)) else plain)"

definition word_end :: "unicode \<Rightarrow> rune \<Rightarrow> bool" where
  "word_end U r \<longleftrightarrow> u_space U r \<or> r = ch CHR ''('' \<or> r = ch CHR '')'' \<or> r = ch CHR 0x22"

text \<open>The token of a phrase and what is left after it.\<close>

definition phrase_token :: "unicode \<Rightarrow> ustring \<Rightarrow> token \<times> ustring" where
  "phrase_token U rs =
     (let phrase = takeWhile (\<lambda>r. r \<noteq> ch CHR 0x22) rs; r1 = tl (dropWhile (\<lambda>r. r \<noteq> ch CHR 0x22) rs)
      in if r1 \<noteq> [] \<and> hd r1 = ch CHR ''~''
         then let (n, consumed) = readInt U (tl r1) in (tokProximity phrase n, drop consumed (tl r1))
         else (tokPhrase phrase, r1))"

lemma length_dropWhile: "length (dropWhile P xs) \<le> length xs"
  by (induction xs) auto

lemma length_phrase_token: "length (snd (phrase_token U rs)) \<le> length rs"
proof -
  have "length (tl (dropWhile P rs)) \<le> length rs" for P using length_dropWhile [of P rs] by simp
  from this [of "\<lambda>r. r \<noteq> ch CHR 0x22"] show ?thesis
    by (auto simp: phrase_token_def Let_def case_prod_beta)
qed

function tokenize :: "unicode \<Rightarrow> ustring \<Rightarrow> token list" where
  "tokenize U [] = [tokEOF]"
| "tokenize U (r # rs) =
     (if u_space U r then tokenize U rs
      else if r = ch CHR ''('' then tokLParen # tokenize U rs
      else if r = ch CHR '')'' then tokRParen # tokenize U rs
      else if r = ch CHR ''+'' then tokRequire # tokenize U rs
      else if r = ch CHR ''-'' then
        (if rs \<noteq> [] \<and> \<not> u_space U (hd rs) \<and> hd rs \<noteq> ch CHR ''-'' then tokNot # tokenize U rs else tokenize U rs)
      else if r = ch CHR 0x22 then fst (phrase_token U rs) # tokenize U (snd (phrase_token U rs))
      else word_token U (r # takeWhile (\<lambda>r. \<not> word_end U r) rs) # tokenize U (dropWhile (\<lambda>r. \<not> word_end U r) rs))"
  by pat_completeness auto
termination
  by (relation "measure (\<lambda>(_, rs). length rs)")
    (use length_phrase_token length_dropWhile in \<open>auto simp: less_Suc_eq_le\<close>)

declare tokenize.simps [simp del]

subsection \<open>Expressions\<close>

datatype QueryExpr =
    TermExpr ustring | FuzzyExpr ustring int | PhraseExpr ustring | ProximityExpr ustring int | WildcardExpr ustring
  | AndExpr QueryExpr QueryExpr | OrExpr QueryExpr QueryExpr | NotExpr QueryExpr

text \<open>The canonical form.\<close>

definition show_int :: "int \<Rightarrow> ustring" where
  "show_int n = runes (if n < 0 then CHR ''-'' # dec_nat (nat (- n)) else dec_nat (nat n))"

fun expr_String :: "unicode \<Rightarrow> QueryExpr \<Rightarrow> ustring" where
  "expr_String U (AndExpr l r) = runes ''('' @ expr_String U l @ runes '' AND '' @ expr_String U r @ runes '')''"
| "expr_String U (OrExpr l r) = runes ''('' @ expr_String U l @ runes '' OR '' @ expr_String U r @ runes '')''"
| "expr_String U (NotExpr e) = runes ''NOT '' @ expr_String U e"
| "expr_String U (TermExpr t) = t"
| "expr_String U (FuzzyExpr t d) = t @ runes ''~'' @ show_int d"
| "expr_String U (PhraseExpr p) = u_quote U p"
| "expr_String U (ProximityExpr p d) = u_quote U p @ runes ''~'' @ show_int d"
| "expr_String U (WildcardExpr p) = p"

subsection \<open>The parser\<close>

text \<open>
  The state of the parser is the list of the tokens not yet consumed; beyond its end \<open>peek\<close> sees
  \<open>tokEOF\<close>.  The mutually recursive methods are the modes of one function, and the loops of
  \<open>parseOr\<close> and \<open>parseAnd\<close> are modes of their own, with the left operand so far.
\<close>

datatype parse_error = ExpectedRParen | UnexpectedEnd | UnexpectedToken token

datatype mode = parseOr | OrLoop QueryExpr | parseAnd | AndLoop QueryExpr | parseNot bool | parseAtom

definition peek :: "token list \<Rightarrow> token" where
  "peek ts = (case ts of [] \<Rightarrow> tokEOF | t # _ \<Rightarrow> t)"

function parse :: "unicode \<Rightarrow> mode \<Rightarrow> token list \<Rightarrow> parse_error + (QueryExpr \<times> token list)" where
  "parse U parseOr ts =
     (case parse U parseAnd ts of Inl err \<Rightarrow> Inl err | Inr (left, ts') \<Rightarrow> parse U (OrLoop left) ts')"
| "parse U (OrLoop left) ts =
     (if peek ts = tokOr
      then (case parse U parseAnd (tl ts) of Inl err \<Rightarrow> Inl err
            | Inr (right, ts') \<Rightarrow> parse U (OrLoop (OrExpr left right)) ts')
      else Inr (left, ts))"
| "parse U parseAnd ts =
     (case parse U (parseNot False) ts of Inl err \<Rightarrow> Inl err | Inr (left, ts') \<Rightarrow> parse U (AndLoop left) ts')"
| "parse U (AndLoop left) ts =
     (if peek ts = tokOr \<or> peek ts = tokRParen \<or> peek ts = tokEOF then Inr (left, ts) else
      case parse U (parseNot False) (if peek ts = tokAnd then tl ts else ts) of Inl err \<Rightarrow> Inl err
      | Inr (right, ts') \<Rightarrow> parse U (AndLoop (AndExpr left right)) ts')"
| "parse U (parseNot negated) ts =
     (if peek ts = tokNot then parse U (parseNot (\<not> negated)) (tl ts) else
      case parse U parseAtom ts of Inl err \<Rightarrow> Inl err
      | Inr (atom, ts') \<Rightarrow> Inr (if negated then NotExpr atom else atom, ts'))"
| "parse U parseAtom ts =
     (case peek ts of
        tokLParen \<Rightarrow>
          (case parse U parseOr (tl ts) of Inl err \<Rightarrow> Inl err
           | Inr (inner, ts') \<Rightarrow> if peek ts' \<noteq> tokRParen then Inl ExpectedRParen else Inr (inner, tl ts'))
      | tokRequire \<Rightarrow> parse U parseAtom (tl ts)
      | tokTerm s \<Rightarrow> Inr (TermExpr (ToLower U s), tl ts)
      | tokFuzzy s d \<Rightarrow> Inr (FuzzyExpr (ToLower U s) (if d < 0 then 0 else if d > 2 then 2 else d), tl ts)
      | tokPhrase s \<Rightarrow> Inr (PhraseExpr s, tl ts)
      | tokProximity s d \<Rightarrow> Inr (ProximityExpr s (if d \<le> 0 then 5 else d), tl ts)
      | tokWildcard s \<Rightarrow> Inr (WildcardExpr (ToLower U s), tl ts)
      | tokEOF \<Rightarrow> Inl UnexpectedEnd
      | t \<Rightarrow> Inl (UnexpectedToken t))"
  by pat_completeness auto

text \<open>A method that succeeds has consumed a token, a loop may have consumed none.\<close>

fun is_loop :: "mode \<Rightarrow> bool" where
  "is_loop (OrLoop _) = True" | "is_loop (AndLoop _) = True" | "is_loop _ = False"

lemma length_tl_peek: "peek ts \<noteq> tokEOF \<Longrightarrow> length (tl ts) < length ts"
  by (auto simp: peek_def split: list.splits)

lemma parse_consumes:
  "parse_dom (U, m, ts) \<Longrightarrow> parse U m ts = Inr (e, ts') \<Longrightarrow>
   (if is_loop m then length ts' \<le> length ts else length ts' < length ts)"
proof (induction U m ts arbitrary: e ts' rule: parse.pinduct)
  case (1 U ts)
  then show ?case by (fastforce simp: parse.psimps split: sum.splits)
next
  case (2 U left ts)
  then show ?case using length_tl_peek [of ts] by (fastforce simp: parse.psimps split: sum.splits if_splits)
next
  case (3 U ts)
  then show ?case by (fastforce simp: parse.psimps split: sum.splits)
next
  case (4 U left ts)
  then show ?case using length_tl_peek [of ts] by (fastforce simp: parse.psimps split: sum.splits if_splits)
next
  case (5 U negated ts)
  then show ?case using length_tl_peek [of ts] by (fastforce simp: parse.psimps split: sum.splits if_splits)
next
  case (6 U ts)
  then show ?case using length_tl_peek [of ts] by (fastforce simp: parse.psimps split: sum.splits if_splits token.splits)
qed

fun mode_rank :: "mode \<Rightarrow> nat" where
  "mode_rank parseOr = 5" | "mode_rank (OrLoop _) = 4" | "mode_rank parseAnd = 3" | "mode_rank (AndLoop _) = 2"
| "mode_rank (parseNot _) = 1" | "mode_rank parseAtom = 0"

termination parse
proof (relation "measures [\<lambda>(U, m, ts). length ts, \<lambda>(U, m, ts). mode_rank m]", goal_cases)
qed (auto simp: peek_def dest!: parse_consumes split: list.splits if_splits)


definition ParseQueryExpression :: "unicode \<Rightarrow> ustring \<Rightarrow> parse_error + QueryExpr option" where
  "ParseQueryExpression U q =
     (let q = TrimSpace U q
      in if q = [] then Inr None else
      case parse U parseOr (tokenize U q) of Inl err \<Rightarrow> Inl err
      | Inr (expr, ts) \<Rightarrow> if peek ts \<noteq> tokEOF then Inl (UnexpectedToken (peek ts)) else Inr (Some expr))"

subsection \<open>The evaluator\<close>

text \<open>
  A score map is the list of its entries in an order in which \<^verbatim>\<open>range\<close> may yield them.
  Where the code looks at the first entry of a \<^verbatim>\<open>range\<close> only, \<open>pick\<close> says which one it
  gets.  The searches at the leaves are the parameter \<open>leaf\<close>, the addition and the comparison of
  scores are \<open>add\<close> and \<open>gt\<close>.
\<close>

record 'f FTSResult =
  r_DocID :: bytes
  r_Score :: 'f
  r_Terms :: "bytes list"

record 'f exprScore =
  es_score :: 'f
  es_terms :: "bytes list"

type_synonym 'f scores = "(bytes \<times> 'f exprScore) list"

definition resultsToMap :: "'f FTSResult list \<Rightarrow> 'f scores" where
  "resultsToMap res = fold (\<lambda>r m. AList.update (r_DocID r) \<lparr>es_score = r_Score r, es_terms = r_Terms r\<rparr> m) res []"

definition negatedMarker :: bytes where
  "negatedMarker = CHR 0x00 # ''NOT'' @ [CHR 0x00]"

definition negateScores :: "'f scores \<Rightarrow> 'f scores" where
  "negateScores m = map (\<lambda>(i, s). (i, s\<lparr>es_terms := negatedMarker # es_terms s\<rparr>)) m"

definition marked :: "'f exprScore \<Rightarrow> bool" where
  "marked s \<longleftrightarrow> es_terms s \<noteq> [] \<and> hd (es_terms s) = negatedMarker"

definition isNegated :: "('f scores \<Rightarrow> nat) \<Rightarrow> 'f scores \<Rightarrow> bool" where
  "isNegated pick m \<longleftrightarrow> m \<noteq> [] \<and> marked (snd (m ! (pick m mod length m)))"

fun dedupe_loop :: "bytes list \<Rightarrow> bytes list \<Rightarrow> bytes list" where
  "dedupe_loop seen [] = []"
| "dedupe_loop seen (s # ss) =
     (if s = negatedMarker \<or> s \<in> set seen then dedupe_loop seen ss else s # dedupe_loop (s # seen) ss)"

definition dedupeAppend :: "bytes list \<Rightarrow> bytes list \<Rightarrow> bytes list" where
  "dedupeAppend a b = dedupe_loop [] (a @ b)"

definition subtract :: "'f scores \<Rightarrow> 'f scores \<Rightarrow> 'f scores" where
  "subtract keep drp = filter (\<lambda>(i, _). map_of drp i = None) keep"

definition intersectScores :: "('f \<Rightarrow> 'f \<Rightarrow> 'f) \<Rightarrow> ('f scores \<Rightarrow> nat) \<Rightarrow> 'f scores \<Rightarrow> 'f scores \<Rightarrow> 'f scores" where
  "intersectScores add pick left right =
     (let leftNeg = isNegated pick left; rightNeg = isNegated pick right
      in if leftNeg \<and> rightNeg then left @ subtract right left
         else if leftNeg then subtract right left
         else if rightNeg then subtract left right
         else concat (map (\<lambda>(i, ls). case map_of right i of None \<Rightarrow> []
                | Some rs \<Rightarrow> [(i, \<lparr>es_score = add (es_score ls) (es_score rs), es_terms = dedupeAppend (es_terms ls) (es_terms rs)\<rparr>)]) left))"

definition unionScores :: "('f \<Rightarrow> 'f \<Rightarrow> 'f) \<Rightarrow> 'f scores \<Rightarrow> 'f scores \<Rightarrow> 'f scores" where
  "unionScores add left right =
     fold (\<lambda>(i, rs) out. case map_of out i of None \<Rightarrow> out @ [(i, rs)]
             | Some ls \<Rightarrow> AList.update i \<lparr>es_score = add (es_score ls) (es_score rs), es_terms = dedupeAppend (es_terms ls) (es_terms rs)\<rparr> out)
       right left"

fun evalExpr :: "(QueryExpr \<Rightarrow> 'e + 'f FTSResult list) \<Rightarrow> ('f \<Rightarrow> 'f \<Rightarrow> 'f) \<Rightarrow> ('f scores \<Rightarrow> nat) \<Rightarrow> QueryExpr \<Rightarrow> 'e + 'f scores" where
  "evalExpr leaf add pick (AndExpr l r) =
     (case evalExpr leaf add pick l of Inl err \<Rightarrow> Inl err
      | Inr left \<Rightarrow> (case evalExpr leaf add pick r of Inl err \<Rightarrow> Inl err
          | Inr right \<Rightarrow> Inr (intersectScores add pick left right)))"
| "evalExpr leaf add pick (OrExpr l r) =
     (case evalExpr leaf add pick l of Inl err \<Rightarrow> Inl err
      | Inr left \<Rightarrow> (case evalExpr leaf add pick r of Inl err \<Rightarrow> Inl err
          | Inr right \<Rightarrow> Inr (unionScores add left right)))"
| "evalExpr leaf add pick (NotExpr e) =
     (case evalExpr leaf add pick e of Inl err \<Rightarrow> Inl err | Inr inner \<Rightarrow> Inr (negateScores inner))"
| "evalExpr leaf add pick e = (case leaf e of Inl err \<Rightarrow> Inl err | Inr res \<Rightarrow> Inr (resultsToMap res))"

definition sortFTSResultsByScore :: "('f \<Rightarrow> 'f \<Rightarrow> bool) \<Rightarrow> 'f FTSResult list \<Rightarrow> 'f FTSResult list" where
  "sortFTSResultsByScore gt r = sort_slice (\<lambda>a b. gt (r_Score a) (r_Score b)) r"

definition EvaluateExpression :: "(QueryExpr \<Rightarrow> 'e + 'f FTSResult list) \<Rightarrow> ('f \<Rightarrow> 'f \<Rightarrow> 'f) \<Rightarrow> ('f scores \<Rightarrow> nat) \<Rightarrow>
    ('f \<Rightarrow> 'f \<Rightarrow> bool) \<Rightarrow> QueryExpr option \<Rightarrow> int \<Rightarrow> 'e + 'f FTSResult list" where
  "EvaluateExpression leaf add pick gt expr limit =
     (case expr of None \<Rightarrow> Inr []
      | Some e \<Rightarrow>
         (case evalExpr leaf add pick e of Inl err \<Rightarrow> Inl err
          | Inr scores \<Rightarrow>
              let out = sortFTSResultsByScore gt (map (\<lambda>(i, s). \<lparr>r_DocID = i, r_Score = es_score s, r_Terms = es_terms s\<rparr>) scores)
              in Inr (if limit > 0 \<and> int (length out) > limit then take (nat limit) out else out)))"

subsection \<open>Score maps\<close>

abbreviation ids :: "'f scores \<Rightarrow> bytes set" where "ids m \<equiv> fst ` set m"

definition scores_ok :: "'f scores \<Rightarrow> bool" where "scores_ok m \<longleftrightarrow> distinct (map fst m)"
definition unmarked :: "'f scores \<Rightarrow> bool" where "unmarked m \<longleftrightarrow> (\<forall>(i, s) \<in> set m. \<not> marked s)"
definition all_marked :: "'f scores \<Rightarrow> bool" where "all_marked m \<longleftrightarrow> (\<forall>(i, s) \<in> set m. marked s)"

lemma isNegated_entry: "m \<noteq> [] \<Longrightarrow> \<exists>i s. (i, s) \<in> set m \<and> isNegated pick m = marked s"
  using nth_mem [of "pick m mod length m" m] by (metis isNegated_def length_greater_0_conv mod_less_divisor surjective_pairing)

lemma isNegated_unmarked: "unmarked m \<Longrightarrow> \<not> isNegated pick m"
  using isNegated_entry [of m pick] by (cases "m = []") (auto simp: unmarked_def isNegated_def [of pick "[]"])

lemma isNegated_all_marked: "all_marked m \<Longrightarrow> m \<noteq> [] \<Longrightarrow> isNegated pick m"
  using isNegated_entry [of m pick] by (auto simp: all_marked_def)

lemma map_of_None_ids: "map_of m i = None \<longleftrightarrow> i \<notin> ids m"
  by (simp add: map_of_eq_None_iff)

lemma ids_subtract: "ids (subtract a b) = ids a - ids b"
  by (auto simp: subtract_def map_of_None_ids image_iff)

lemma subtract_ok:
  "scores_ok a \<Longrightarrow> scores_ok (subtract a b)" "unmarked a \<Longrightarrow> unmarked (subtract a b)" "all_marked a \<Longrightarrow> all_marked (subtract a b)"
  by (auto simp: subtract_def scores_ok_def unmarked_def all_marked_def distinct_map_filter)

lemma negate_ok:
  "scores_ok m \<Longrightarrow> scores_ok (negateScores m)" "ids (negateScores m) = ids m" "all_marked (negateScores m)"
  by (auto simp: negateScores_def scores_ok_def all_marked_def marked_def comp_def case_prod_beta image_image)

lemma dedupe_no_marker: "negatedMarker \<notin> set (dedupe_loop seen ss)"
  by (induction seen ss rule: dedupe_loop.induct) auto

lemma not_marked_dedupe: "\<not> marked \<lparr>es_score = x, es_terms = dedupeAppend a b\<rparr>"
  using dedupe_no_marker [of "[]" "a @ b"] hd_in_set [of "dedupeAppend a b"]
  unfolding marked_def dedupeAppend_def by (metis exprScore.select_convs(2))

lemma intersect_both:
  fixes l r :: "'f scores"
  assumes "unmarked l" "unmarked r" "scores_ok l"
  shows "scores_ok (intersectScores add pick l r) \<and> unmarked (intersectScores add pick l r) \<and>
    ids (intersectScores add pick l r) = ids l \<inter> ids r"
proof -
  define f where "f = (\<lambda>(i, ls :: 'f exprScore). case map_of r i of None \<Rightarrow> []
      | Some rs \<Rightarrow> [(i, \<lparr>es_score = add (es_score ls) (es_score rs), es_terms = dedupeAppend (es_terms ls) (es_terms rs)\<rparr>)])"
  have e: "intersectScores add pick l r = concat (map f l)"
    using assms(1,2) by (simp add: intersectScores_def isNegated_unmarked f_def)
  have keys: "map fst (concat (map f l)) = filter (\<lambda>i. i \<in> ids r) (map fst l)" for l :: "'f scores"
  proof (induction l)
    case (Cons a l)
    obtain i ls where a: "a = (i, ls)" by (cases a)
    show ?case using Cons map_of_None_ids [of r i] by (cases "map_of r i") (simp_all add: a f_def)
  qed simp
  have "\<not> marked s" if "(i, s) \<in> set (concat (map f l))" for i s
    using that by (auto simp: f_def not_marked_dedupe split: option.splits)
  moreover have "scores_ok (concat (map f l))" using assms(3) by (simp only: scores_ok_def keys distinct_filter)
  moreover have "ids (concat (map f l)) = ids l \<inter> ids r"
    unfolding set_map [symmetric] keys by auto
  ultimately show ?thesis by (auto simp: e unmarked_def)
qed


lemma in_set_update: "(k, s) \<in> set (AList.update i v l) \<Longrightarrow> k = i \<and> s = v \<or> (k, s) \<in> set l"
  by (induction l) (auto split: if_splits)

lemma update_scores_ok:
  assumes "scores_ok l" "unmarked l" "\<not> marked v"
  shows "scores_ok (AList.update i v l) \<and> unmarked (AList.update i v l)"
  using assms in_set_update [of _ _ i v l] by (auto simp: scores_ok_def unmarked_def distinct_update)

lemma union_ok:
  "scores_ok l \<and> unmarked l \<Longrightarrow> unmarked r \<Longrightarrow>
   scores_ok (unionScores add l r) \<and> unmarked (unionScores add l r) \<and> ids (unionScores add l r) = ids l \<union> ids r"
proof (induction r arbitrary: l)
  case Nil
  then show ?case by (simp add: unionScores_def)
next
  case (Cons a r)
  obtain i rs where a: "a = (i, rs)" by (cases a)
  define l' where "l' = (case map_of l i of None \<Rightarrow> l @ [(i, rs)]
      | Some ls \<Rightarrow> AList.update i \<lparr>es_score = add (es_score ls) (es_score rs), es_terms = dedupeAppend (es_terms ls) (es_terms rs)\<rparr> l)"
  have u: "unionScores add l ((i, rs) # r) = unionScores add l' r" by (simp add: unionScores_def l'_def)
  have r: "\<not> marked rs" "unmarked r" using Cons.prems(2) by (auto simp: unmarked_def a)
  have "scores_ok l' \<and> unmarked l' \<and> ids l' = insert i (ids l)"
  proof (cases "map_of l i")
    case None
    then have "i \<notin> ids l" by (simp add: map_of_None_ids)
    with Cons.prems(1) r None show ?thesis by (auto simp: l'_def scores_ok_def unmarked_def)
  next
    case (Some ls)
    then have "i \<in> ids l" by (metis map_of_None_ids option.distinct(1))
    moreover from Some have "l' = AList.update i \<lparr>es_score = add (es_score ls) (es_score rs), es_terms = dedupeAppend (es_terms ls) (es_terms rs)\<rparr> l"
      by (simp add: l'_def)
    ultimately show ?thesis
      using Cons.prems(1) by (simp add: update_scores_ok not_marked_dedupe dom_update insert_absorb)
  qed
  then show ?case using Cons.IH [of l'] r by (simp add: u a)
qed

lemma results_ok: "scores_ok (resultsToMap res) \<and> ids (resultsToMap res) = r_DocID ` set res \<and>
  ((\<forall>r \<in> set res. r_Terms r = [] \<or> hd (r_Terms r) \<noteq> negatedMarker) \<longrightarrow> unmarked (resultsToMap res))"
proof (induction res rule: rev_induct)
  case Nil
  then show ?case by (simp add: resultsToMap_def scores_ok_def unmarked_def)
next
  case (snoc r res)
  have e: "resultsToMap (res @ [r]) = AList.update (r_DocID r) \<lparr>es_score = r_Score r, es_terms = r_Terms r\<rparr> (resultsToMap res)"
    by (simp add: resultsToMap_def)
  show ?case unfolding e
  proof (intro conjI impI)
    assume "\<forall>r \<in> set (res @ [r]). r_Terms r = [] \<or> hd (r_Terms r) \<noteq> negatedMarker"
    with snoc show "unmarked (AList.update (r_DocID r) \<lparr>es_score = r_Score r, es_terms = r_Terms r\<rparr> (resultsToMap res))"
      by (simp add: update_scores_ok marked_def)
  qed (use snoc in \<open>simp_all add: scores_ok_def distinct_update dom_update\<close>)
qed

subsection \<open>What an expression means\<close>

text \<open>A document matches a leaf when the search at the leaf returns it.\<close>

fun matches :: "(QueryExpr \<Rightarrow> 'e + 'f FTSResult list) \<Rightarrow> QueryExpr \<Rightarrow> bytes \<Rightarrow> bool" where
  "matches leaf (AndExpr l r) d = (matches leaf l d \<and> matches leaf r d)"
| "matches leaf (OrExpr l r) d = (matches leaf l d \<or> matches leaf r d)"
| "matches leaf (NotExpr e) d = (\<not> matches leaf e d)"
| "matches leaf e d = (case leaf e of Inl _ \<Rightarrow> False | Inr res \<Rightarrow> d \<in> r_DocID ` set res)"

text \<open>Expressions that select documents, and expressions that exclude some.\<close>

fun selects :: "QueryExpr \<Rightarrow> bool" and excludes :: "QueryExpr \<Rightarrow> bool" where
  "selects (AndExpr l r) = (selects l \<and> (selects r \<or> excludes r) \<or> excludes l \<and> selects r)"
| "selects (OrExpr l r) = (selects l \<and> selects r)"
| "selects (NotExpr e) = False"
| "selects e = True"
| "excludes (AndExpr l r) = (excludes l \<and> excludes r)"
| "excludes (NotExpr e) = selects e"
| "excludes e = False"

text \<open>Every negated part has a match.\<close>

fun exclusions_met :: "(QueryExpr \<Rightarrow> 'e + 'f FTSResult list) \<Rightarrow> QueryExpr \<Rightarrow> bool" where
  "exclusions_met leaf (AndExpr l r) = (exclusions_met leaf l \<and> exclusions_met leaf r)"
| "exclusions_met leaf (OrExpr l r) = (exclusions_met leaf l \<and> exclusions_met leaf r)"
| "exclusions_met leaf (NotExpr e) = (exclusions_met leaf e \<and> (\<exists>d. matches leaf e d))"
| "exclusions_met leaf e = True"

definition leaves_ok :: "(QueryExpr \<Rightarrow> 'e + 'f FTSResult list) \<Rightarrow> bool" where
  "leaves_ok leaf \<longleftrightarrow> (\<forall>e res. leaf e = Inr res \<longrightarrow> (\<forall>r \<in> set res. r_Terms r = [] \<or> hd (r_Terms r) \<noteq> negatedMarker))"

lemma selects_not_excludes: "selects e \<Longrightarrow> \<not> excludes e"
  by (induction e) auto

lemma leaf_meaning:
  assumes "leaves_ok leaf" and "(case leaf e of Inl err \<Rightarrow> Inl err | Inr res \<Rightarrow> Inr (resultsToMap res)) = Inr m"
  shows "scores_ok m \<and> unmarked m \<and> ids m = {d. case leaf e of Inl _ \<Rightarrow> False | Inr res \<Rightarrow> d \<in> r_DocID ` set res}"
proof (cases "leaf e")
  case (Inr res)
  then show ?thesis using results_ok [of res] assms by (simp add: leaves_ok_def)
qed (use assms in simp)

lemma matches_leaf:
  "Collect (matches leaf (TermExpr x)) = {d. case leaf (TermExpr x) of Inl _ \<Rightarrow> False | Inr res \<Rightarrow> d \<in> r_DocID ` set res}"
  "Collect (matches leaf (FuzzyExpr x n)) = {d. case leaf (FuzzyExpr x n) of Inl _ \<Rightarrow> False | Inr res \<Rightarrow> d \<in> r_DocID ` set res}"
  "Collect (matches leaf (PhraseExpr x)) = {d. case leaf (PhraseExpr x) of Inl _ \<Rightarrow> False | Inr res \<Rightarrow> d \<in> r_DocID ` set res}"
  "Collect (matches leaf (ProximityExpr x n)) = {d. case leaf (ProximityExpr x n) of Inl _ \<Rightarrow> False | Inr res \<Rightarrow> d \<in> r_DocID ` set res}"
  "Collect (matches leaf (WildcardExpr x)) = {d. case leaf (WildcardExpr x) of Inl _ \<Rightarrow> False | Inr res \<Rightarrow> d \<in> r_DocID ` set res}"
  by (rule Collect_cong, simp)+

lemma evalExpr_meaning:
  assumes "leaves_ok leaf"
  shows "evalExpr leaf add pick e = Inr m \<Longrightarrow> exclusions_met leaf e \<Longrightarrow>
    (selects e \<longrightarrow> scores_ok m \<and> unmarked m \<and> ids m = {d. matches leaf e d}) \<and>
    (excludes e \<longrightarrow> scores_ok m \<and> all_marked m \<and> m \<noteq> [] \<and> ids m = {d. \<not> matches leaf e d})"
proof (induction e arbitrary: m)
  case (AndExpr l r)
  from AndExpr.prems obtain ml mr where m: "evalExpr leaf add pick l = Inr ml" "evalExpr leaf add pick r = Inr mr"
    "m = intersectScores add pick ml mr" by (auto split: sum.splits)
  note L = AndExpr.IH(1) [OF m(1)] and R = AndExpr.IH(2) [OF m(2)]
  have met: "exclusions_met leaf l" "exclusions_met leaf r" using AndExpr.prems(2) by simp_all
  consider "selects l" "selects r" | "selects l" "excludes r" | "excludes l" "selects r" | "excludes l" "excludes r"
    | "\<not> selects (AndExpr l r)" "\<not> excludes (AndExpr l r)" by fastforce
  then show ?case
  proof cases
    case 1
    then show ?thesis using L [OF met(1)] R [OF met(2)] intersect_both [of ml mr add pick] selects_not_excludes [of l]
      unfolding m(3) by auto
  next
    case 2
    then have "m = subtract ml mr" using L [OF met(1)] R [OF met(2)] isNegated_unmarked [of ml pick] isNegated_all_marked [of mr pick]
      unfolding m(3) by (simp add: intersectScores_def)
    with 2 show ?thesis using L [OF met(1)] R [OF met(2)] selects_not_excludes [of l] by (auto simp: subtract_ok ids_subtract)
  next
    case 3
    then have "m = subtract mr ml" using L [OF met(1)] R [OF met(2)] isNegated_unmarked [of mr pick] isNegated_all_marked [of ml pick]
      unfolding m(3) by (simp add: intersectScores_def)
    with 3 show ?thesis using L [OF met(1)] R [OF met(2)] selects_not_excludes [of r] by (auto simp: subtract_ok ids_subtract)
  next
    case 4
    then have mm: "m = ml @ subtract mr ml" using L [OF met(1)] R [OF met(2)] isNegated_all_marked [of mr pick] isNegated_all_marked [of ml pick]
      unfolding m(3) by (simp add: intersectScores_def)
    have "ids m = ids ml \<union> ids mr" "m \<noteq> []" using 4 L [OF met(1)] ids_subtract [of mr ml] by (auto simp: mm image_Un)
    moreover have "scores_ok m" using 4 L [OF met(1)] R [OF met(2)] subtract_ok(1) [of mr ml] ids_subtract [of mr ml]
      by (auto simp: mm scores_ok_def)
    moreover have "all_marked m" using 4 L [OF met(1)] R [OF met(2)] subtract_ok(3) [of mr ml] by (auto simp: mm all_marked_def)
    ultimately show ?thesis using 4 L [OF met(1)] R [OF met(2)] selects_not_excludes [of l] selects_not_excludes [of r] by auto
  next
    case 5
    then show ?thesis by blast
  qed
next
  case (OrExpr l r)
  from OrExpr.prems obtain ml mr where m: "evalExpr leaf add pick l = Inr ml" "evalExpr leaf add pick r = Inr mr"
    "m = unionScores add ml mr" by (auto split: sum.splits)
  then show ?case using OrExpr union_ok [of ml mr add] by auto
next
  case (NotExpr e)
  from NotExpr.prems obtain mi where m: "evalExpr leaf add pick e = Inr mi" "m = negateScores mi" by (auto split: sum.splits)
  show ?case using NotExpr.IH [OF m(1)] NotExpr.prems(2) negate_ok [of mi] by (auto simp: m(2))
qed (simp_all only: evalExpr.simps matches_leaf selects.simps excludes.simps leaf_meaning [OF assms] simp_thms)


subsection \<open>The order of the results\<close>

lemma sort_perm: "mset (sortFTSResultsByScore gt r) = mset r"
  by (simp add: sortFTSResultsByScore_def)

lemma sort_sorted: "score_order gt \<Longrightarrow> sorted_wrt (\<lambda>a b. \<not> gt (r_Score b) (r_Score a)) (sortFTSResultsByScore gt r)"
  unfolding sortFTSResultsByScore_def by (rule sort_slice_sorted [OF score_order_by])

subsection \<open>Properties of the evaluation\<close>

lemma mset_ids: "mset rs = mset rs' \<Longrightarrow> r_DocID ` set rs = r_DocID ` set rs' \<and> (distinct (map r_DocID rs) \<longleftrightarrow> distinct (map r_DocID rs'))"
  by (metis mset_eq_setD mset_map mset_eq_imp_distinct_iff)


text \<open>A conjunction with a negated part that matches nothing returns nothing, although every
  document that matches the other part should remain: an empty exclusion is taken for an empty
  selection.\<close>

theorem empty_exclusion_drops_all:
  assumes "leaves_ok leaf" and "selects l" and "exclusions_met leaf l"
    and "evalExpr leaf add pick l = Inr m" and "evalExpr leaf add pick r = Inr []"
  shows "EvaluateExpression leaf add pick gt (Some (AndExpr l (NotExpr r))) n = Inr [] \<and>
     (selects r \<longrightarrow> exclusions_met leaf r \<longrightarrow> {d. matches leaf (AndExpr l (NotExpr r)) d} = ids m)"
proof -
  have l: "unmarked m" "ids m = {d. matches leaf l d}" using evalExpr_meaning [OF assms(1,4,3)] assms(2) by simp_all
  have "intersectScores add pick m [] = []"
    using isNegated_unmarked [OF l(1), of pick] by (simp add: intersectScores_def isNegated_def [of pick "[]"])
  moreover have "{d. matches leaf r d} = {}" if "selects r" "exclusions_met leaf r"
    using evalExpr_meaning [OF assms(1,5) that(2)] that(1) by simp
  ultimately show ?thesis using assms(4,5) l(2)
    by (auto simp: EvaluateExpression_def negateScores_def sortFTSResultsByScore_def)
qed

text \<open>A negation alone returns the documents that match what it negates, each with the internal
  marker as its first matched term, and not the others.\<close>

theorem lone_negation_inverted:
  assumes "leaves_ok leaf" and "selects e" and "exclusions_met leaf e" and "evalExpr leaf add pick e = Inr m"
  shows "\<exists>out. EvaluateExpression leaf add pick gt (Some (NotExpr e)) 0 = Inr out \<and>
     r_DocID ` set out = {d. matches leaf e d} \<and> (\<forall>r \<in> set out. hd (r_Terms r) = negatedMarker)"
proof -
  let ?rs = "map (\<lambda>(i, s). \<lparr>r_DocID = i, r_Score = es_score s, r_Terms = es_terms s\<rparr>) (negateScores m)"
  have "ids m = {d. matches leaf e d}" using evalExpr_meaning [OF assms(1,4,3)] assms(2) by simp
  then have "r_DocID ` set ?rs = {d. matches leaf e d}"
    using negate_ok(2) [of m] by (auto simp: image_image case_prod_beta)
  then have 1: "r_DocID ` set (sortFTSResultsByScore gt ?rs) = {d. matches leaf e d}"
    using mset_ids [OF sort_perm [of gt ?rs]] by simp
  have "\<forall>r \<in> set ?rs. hd (r_Terms r) = negatedMarker" by (auto simp: negateScores_def)
  then have "\<forall>r \<in> set (sortFTSResultsByScore gt ?rs). hd (r_Terms r) = negatedMarker"
    using mset_eq_setD [OF sort_perm [of gt ?rs]] by simp
  with 1 assms(4) show ?thesis by (simp add: EvaluateExpression_def Let_def)
qed


subsection \<open>The canonical form is read back\<close>

text \<open>What the tables of \<^verbatim>\<open>unicode\<close> say of the ASCII characters that matter here.\<close>

definition unicode_ok :: "unicode \<Rightarrow> bool" where
  "unicode_ok U \<longleftrightarrow> u_space U 32 \<and> (\<forall>c \<in> {34, 40, 41, 43, 45, 126} \<union> {48..57} \<union> {65..90}. \<not> u_space U c) \<and>
     (\<forall>c \<in> {48..57}. u_digit U c) \<and> \<not> u_digit U 32 \<and> \<not> u_digit U 41 \<and> (\<forall>c \<in> {65..90}. u_upper U c = c)"

definition stops :: "unicode \<Rightarrow> ustring \<Rightarrow> bool" where
  "stops U rest \<longleftrightarrow> rest = [] \<or> hd rest = 32 \<or> hd rest = 41"

lemma digits_val_mono: "v \<le> foldl (\<lambda>a c. a * 10 + (of_char c - 48)) v ds" for v :: nat
proof (induction ds arbitrary: v)
  case (Cons c ds)
  show ?case using Cons.IH [of "v * 10 + (of_char c - 48)"] by simp
qed simp

lemma readInt_loop_digits:
  assumes "unicode_ok U" and "stops U rest"
  shows "\<forall>c \<in> set ds. is_digit c \<Longrightarrow> foldl (\<lambda>a c. a * 10 + (of_char c - 48)) v ds < 2 ^ 63 \<Longrightarrow>
    readInt_loop U (int v) i (runes ds @ rest) = (int (foldl (\<lambda>a c. a * 10 + (of_char c - 48)) v ds), i + length ds)"
proof (induction ds arbitrary: v i)
  case Nil
  have "rest \<noteq> [] \<Longrightarrow> \<not> u_digit U (hd rest)" using assms by (auto simp: stops_def unicode_ok_def)
  then show ?case by (cases rest) simp_all
next
  case (Cons c ds)
  let ?v = "v * 10 + (of_char c - 48)"
  have c: "48 \<le> (of_char c :: nat)" "(of_char c :: nat) \<le> 57" using Cons.prems(1) by (simp_all add: is_digit_def)
  have "?v < 2 ^ 63" using digits_val_mono [of ?v ds] Cons.prems(2) by (simp del: power_numeral)
  then have "wrap64 (int v * 10 + (int (of_char c) - 48)) = int ?v" using c by (subst wrap64_id) (simp_all add: of_nat_diff)
  moreover have "u_digit U (of_char c)" using assms(1) c by (simp add: unicode_ok_def)
  ultimately show ?case using Cons.IH [of ?v "Suc i"] Cons.prems by simp
qed

lemma dec_nat_nonempty: "dec_nat n \<noteq> []"
  by (subst dec_nat.simps) simp

lemma readInt_show:
  assumes "unicode_ok U" and "stops U rest" and "0 \<le> d" "d < 2 ^ 63"
  shows "readInt U (show_int d @ rest) = (d, length (show_int d))"
proof -
  have s: "show_int d = runes (dec_nat (nat d))" using assms(3) by (simp add: show_int_def)
  obtain c cs where c: "dec_nat (nat d) = c # cs" using dec_nat_nonempty [of "nat d"] by (cases "dec_nat (nat d)") auto
  have "is_digit c" using dec_nat_digits [of "nat d"] c by simp
  then have "u_digit U (of_char c)" using assms(1) by (simp add: unicode_ok_def is_digit_def)
  then have "readInt U (show_int d @ rest) = readInt_loop U (int 0) 0 (runes (dec_nat (nat d)) @ rest)"
    by (simp add: readInt_def s c)
  also have "\<dots> = (int (dec_val (dec_nat (nat d))), 0 + length (dec_nat (nat d)))"
    unfolding dec_val_def
    by (rule readInt_loop_digits [OF assms(1,2) dec_nat_digits]) (use assms(3,4) dec_val_dec_nat [of "nat d"] in \<open>simp add: dec_val_def\<close>)
  finally show ?thesis using assms(3) by (simp add: s)
qed

text \<open>The tokens of an expression in canonical form.\<close>

fun toks :: "QueryExpr \<Rightarrow> token list" where
  "toks (AndExpr l r) = tokLParen # toks l @ tokAnd # toks r @ [tokRParen]"
| "toks (OrExpr l r) = tokLParen # toks l @ tokOr # toks r @ [tokRParen]"
| "toks (NotExpr e) = tokNot # toks e"
| "toks (TermExpr t) = [tokTerm t]"
| "toks (FuzzyExpr t d) = [tokFuzzy t d]"
| "toks (PhraseExpr p) = [tokPhrase p]"
| "toks (ProximityExpr p d) = [tokProximity p d]"
| "toks (WildcardExpr p) = [tokWildcard p]"

fun is_not :: "QueryExpr \<Rightarrow> bool" where
  "is_not (NotExpr _) = True" | "is_not _ = False"

text \<open>Expressions that the parser can produce and that do not negate a negation directly.\<close>

fun wf_expr :: "unicode \<Rightarrow> QueryExpr \<Rightarrow> bool" where
  "wf_expr U (AndExpr l r) = (wf_expr U l \<and> wf_expr U r)"
| "wf_expr U (OrExpr l r) = (wf_expr U l \<and> wf_expr U r)"
| "wf_expr U (NotExpr e) = (wf_expr U e \<and> \<not> is_not e)"
| "wf_expr U (TermExpr t) = (ToLower U t = t)"
| "wf_expr U (FuzzyExpr t d) = (ToLower U t = t \<and> 0 \<le> d \<and> d \<le> 2)"
| "wf_expr U (PhraseExpr p) = True"
| "wf_expr U (ProximityExpr p d) = (0 < d)"
| "wf_expr U (WildcardExpr p) = (ToLower U p = p)"

declare parse.simps [simp del]

lemma peek_simps [simp]: "peek [] = tokEOF" "peek (t # ts) = t"
  by (simp_all add: peek_def)

lemma peek_toks: "\<not> is_not e \<Longrightarrow> peek (toks e @ rest) \<noteq> tokNot"
  by (cases e) simp_all

lemma parse_toks:
  "wf_expr U e \<Longrightarrow> (\<not> is_not e \<longrightarrow> parse U parseAtom (toks e @ rest) = Inr (e, rest)) \<and>
     parse U (parseNot False) (toks e @ rest) = Inr (e, rest)"
proof (induction e arbitrary: rest)
  case (AndExpr l r)
  then have "parse U parseAtom (toks (AndExpr l r) @ rest) = Inr (AndExpr l r, rest)"
    by (simp add: parse.simps(1,2,3,4,6))
  then show ?case by (simp add: parse.simps(5))
next
  case (OrExpr l r)
  then have "parse U parseAtom (toks (OrExpr l r) @ rest) = Inr (OrExpr l r, rest)"
    by (simp add: parse.simps(1,2,3,4,6))
  then show ?case by (simp add: parse.simps(5))
next
  case (NotExpr e)
  then have "parse U parseAtom (toks e @ rest) = Inr (e, rest)" by simp
  then show ?case using peek_toks [of e rest] NotExpr.prems by (simp add: parse.simps(5))
qed (simp_all add: parse.simps(5,6))

lemma parse_top: "wf_expr U e \<Longrightarrow> parse U parseOr (toks e @ [tokEOF]) = Inr (e, [tokEOF])"
  using parse_toks [of U e "[tokEOF]"] by (simp add: parse.simps(1-4))


text \<open>
  Words that the tokenizer keeps together and takes for what they are; the comment of the code
  promises that \<^verbatim>\<open>String\<close> is a canonical form, which it is for expressions whose words
  and phrases satisfy this.
\<close>

definition bare :: "unicode \<Rightarrow> ustring \<Rightarrow> bool" where
  "bare U w \<longleftrightarrow> w \<noteq> [] \<and> (\<forall>r \<in> set w. \<not> word_end U r) \<and> hd w \<noteq> 43 \<and> hd w \<noteq> 45"

definition phrase_ok :: "unicode \<Rightarrow> ustring \<Rightarrow> bool" where
  "phrase_ok U p \<longleftrightarrow> 34 \<notin> set p \<and> u_quote U p = 34 # p @ [34]"

fun printable :: "unicode \<Rightarrow> QueryExpr \<Rightarrow> bool" where
  "printable U (AndExpr l r) = (printable U l \<and> printable U r)"
| "printable U (OrExpr l r) = (printable U l \<and> printable U r)"
| "printable U (NotExpr e) = printable U e"
| "printable U (TermExpr t) = (bare U t \<and> keywordToken U t = tokEOF \<and> 126 \<notin> set t \<and> 42 \<notin> set t \<and> 63 \<notin> set t)"
| "printable U (FuzzyExpr t d) = (bare U t \<and> keywordToken U (t @ 126 # show_int d) = tokEOF)"
| "printable U (PhraseExpr p) = phrase_ok U p"
| "printable U (ProximityExpr p d) = (phrase_ok U p \<and> d < 2 ^ 63)"
| "printable U (WildcardExpr p) = (bare U p \<and> keywordToken U p = tokEOF \<and> 126 \<notin> set p \<and> (42 \<in> set p \<or> 63 \<in> set p))"

lemma ascii_space:
  assumes "unicode_ok U"
  shows "u_space U 32" "\<not> u_space U 34" "\<not> u_space U 40" "\<not> u_space U 41" "\<not> u_space U 43" "\<not> u_space U 45"
    "48 \<le> c \<Longrightarrow> c \<le> 57 \<Longrightarrow> \<not> u_space U c" "65 \<le> c \<Longrightarrow> c \<le> 90 \<Longrightarrow> \<not> u_space U c" "\<not> u_space U 126"
  using assms by (simp_all add: unicode_ok_def)

lemma tokenize_specials:
  assumes "unicode_ok U"
  shows "tokenize U (40 # rs) = tokLParen # tokenize U rs" "tokenize U (41 # rs) = tokRParen # tokenize U rs"
    "tokenize U (32 # rs) = tokenize U rs"
  by (subst tokenize.simps(2), simp add: ascii_space [OF assms])+

lemma tokenize_word:
  assumes "unicode_ok U" and "bare U w" and "stops U rest"
  shows "tokenize U (w @ rest) = word_token U w # tokenize U rest"
proof -
  obtain r rs where w: "w = r # rs" using assms(2) by (cases w) (auto simp: bare_def)
  have b: "\<not> word_end U r" "\<forall>x \<in> set rs. \<not> word_end U x" "r \<noteq> 43" "r \<noteq> 45" using assms(2) by (auto simp: bare_def w)
  have e: "rest \<noteq> [] \<Longrightarrow> word_end U (hd rest)"
    using assms(3) ascii_space(1) [OF assms(1)] by (auto simp: stops_def word_end_def)
  have t: "takeWhile (\<lambda>r. \<not> word_end U r) (rs @ rest) = rs" "dropWhile (\<lambda>r. \<not> word_end U r) (rs @ rest) = rest"
    using b(2) e by (cases rest; simp add: takeWhile_append dropWhile_append)+
  have "\<not> u_space U r" "r \<noteq> 40" "r \<noteq> 41" "r \<noteq> 34" using b(1) by (auto simp: word_end_def)
  then show ?thesis using b(3,4) t by (simp add: w tokenize.simps(2))
qed

lemma tokenize_phrase:
  assumes "unicode_ok U" and "34 \<notin> set p" and "stops U rest"
  shows "tokenize U (34 # p @ 34 # rest) = tokPhrase p # tokenize U rest"
    "0 \<le> d \<Longrightarrow> d < 2 ^ 63 \<Longrightarrow> tokenize U (34 # p @ 34 # 126 # show_int d @ rest) = tokProximity p d # tokenize U rest"
proof -
  have w: "takeWhile (\<lambda>r. r \<noteq> 34) (p @ 34 # x) = p" "dropWhile (\<lambda>r. r \<noteq> 34) (p @ 34 # x) = 34 # x" for x
    using assms(2) by (auto simp: takeWhile_append dropWhile_append)
  have "rest \<noteq> [] \<Longrightarrow> hd rest \<noteq> 126" using assms(3) by (auto simp: stops_def)
  then have "phrase_token U (p @ 34 # rest) = (tokPhrase p, rest)" by (auto simp: phrase_token_def w)
  then show "tokenize U (34 # p @ 34 # rest) = tokPhrase p # tokenize U rest"
    by (simp add: tokenize.simps(2) ascii_space [OF assms(1)])
  assume d: "0 \<le> d" "d < 2 ^ 63"
  have "phrase_token U (p @ 34 # 126 # show_int d @ rest) = (tokProximity p d, rest)"
    using readInt_show [OF assms(1,3) d] by (simp add: phrase_token_def w)
  then show "tokenize U (34 # p @ 34 # 126 # show_int d @ rest) = tokProximity p d # tokenize U rest"
    by (simp add: tokenize.simps(2) ascii_space [OF assms(1)])
qed


lemma tilde_split_tilde: "pre \<noteq> [] \<Longrightarrow> post \<noteq> [] \<Longrightarrow> 126 \<notin> set post \<Longrightarrow> tilde_split (pre @ 126 # post) = Some (pre, post)"
proof -
  assume h: "pre \<noteq> []" "post \<noteq> []" "126 \<notin> set post"
  have "takeWhile (\<lambda>r. r \<noteq> 126) (rev (pre @ 126 # post)) = rev post"
    using h(3) by (simp add: takeWhile_append takeWhile_eq_all_conv)
  with h(1,2) show ?thesis by (simp add: tilde_split_def)
qed

lemma show_int_digits: "0 \<le> d \<Longrightarrow> \<forall>r \<in> set (show_int d). 48 \<le> r \<and> r \<le> 57"
  using dec_nat_digits [of "nat d"] by (auto simp: show_int_def is_digit_def)

lemma show_int_nonempty: "show_int d \<noteq> []"
  by (simp add: show_int_def dec_nat_nonempty)

lemma word_tokens:
  "keywordToken U t = tokEOF \<Longrightarrow> 126 \<notin> set t \<Longrightarrow> 42 \<notin> set t \<Longrightarrow> 63 \<notin> set t \<Longrightarrow> word_token U t = tokTerm t"
  "keywordToken U t = tokEOF \<Longrightarrow> 126 \<notin> set t \<Longrightarrow> 42 \<in> set t \<or> 63 \<in> set t \<Longrightarrow> word_token U t = tokWildcard t"
  "unicode_ok U \<Longrightarrow> keywordToken U (t @ 126 # show_int d) = tokEOF \<Longrightarrow> t \<noteq> [] \<Longrightarrow> 0 \<le> d \<Longrightarrow> d < 2 ^ 63 \<Longrightarrow>
    word_token U (t @ 126 # show_int d) = tokFuzzy t d"
proof -
  assume h: "unicode_ok U" "keywordToken U (t @ 126 # show_int d) = tokEOF" "t \<noteq> []" "0 \<le> d" "d < 2 ^ 63"
  have "126 \<notin> set (show_int d)" using show_int_digits [OF h(4)] by auto
  then have "tilde_split (t @ 126 # show_int d) = Some (t, show_int d)" by (rule tilde_split_tilde [OF h(3) show_int_nonempty])
  moreover have "readInt U (show_int d) = (d, length (show_int d))" using readInt_show [OF h(1) _ h(4,5), of "[]"] by (simp add: stops_def)
  ultimately show "word_token U (t @ 126 # show_int d) = tokFuzzy t d" using h(2,4) by (simp add: word_token_def Let_def)
qed (simp_all add: word_token_def tilde_split_def Let_def)

lemma keyword_tokens:
  assumes "unicode_ok U"
  shows "bare U [65, 78, 68] \<and> word_token U [65, 78, 68] = tokAnd" "bare U [79, 82] \<and> word_token U [79, 82] = tokOr"
    "bare U [78, 79, 84] \<and> word_token U [78, 79, 84] = tokNot"
  using assms by (auto simp: bare_def word_end_def unicode_ok_def word_token_def keywordToken_def ToUpper_def)

lemma bare_fuzzy: "unicode_ok U \<Longrightarrow> bare U t \<Longrightarrow> 0 \<le> d \<Longrightarrow> bare U (t @ 126 # show_int d)"
  using show_int_digits [of d] ascii_space(7,9) [of U] by (auto simp: bare_def word_end_def)

lemma tokenize_String:
  assumes "unicode_ok U"
  shows "printable U e \<Longrightarrow> wf_expr U e \<Longrightarrow> stops U rest \<Longrightarrow>
    tokenize U (expr_String U e @ rest) = toks e @ tokenize U rest"
proof (induction e arbitrary: rest)
  case (AndExpr l r)
  note kw = keyword_tokens(1) [OF assms] and sp = tokenize_specials [OF assms]
  have "tokenize U ([65, 78, 68] @ 32 # x) = tokAnd # tokenize U x" for x
    using tokenize_word [OF assms, of "[65, 78, 68]" "32 # x"] kw by (simp add: stops_def sp)
  with AndExpr show ?case by (simp add: sp stops_def)
next
  case (OrExpr l r)
  note kw = keyword_tokens(2) [OF assms] and sp = tokenize_specials [OF assms]
  have "tokenize U ([79, 82] @ 32 # x) = tokOr # tokenize U x" for x
    using tokenize_word [OF assms, of "[79, 82]" "32 # x"] kw by (simp add: stops_def sp)
  with OrExpr show ?case by (simp add: sp stops_def)
next
  case (NotExpr e)
  note kw = keyword_tokens(3) [OF assms] and sp = tokenize_specials [OF assms]
  have "tokenize U ([78, 79, 84] @ 32 # x) = tokNot # tokenize U x" for x
    using tokenize_word [OF assms, of "[78, 79, 84]" "32 # x"] kw by (simp add: stops_def sp)
  with NotExpr show ?case by simp
next
  case (TermExpr t)
  then show ?case using tokenize_word [OF assms, of t rest] word_tokens(1) [of U t] by simp
next
  case (FuzzyExpr t d)
  then have d: "0 \<le> d" "d < 2 ^ 63" "t \<noteq> []" by (auto simp: bare_def)
  with FuzzyExpr show ?case
    using tokenize_word [OF assms bare_fuzzy [OF assms _ d(1)], of t rest] word_tokens(3) [OF assms _ d(3,1,2)] by simp
next
  case (PhraseExpr p)
  then show ?case using tokenize_phrase(1) [OF assms, of p rest] by (simp add: phrase_ok_def)
next
  case (ProximityExpr p d)
  then show ?case using tokenize_phrase(2) [OF assms, of p rest d] by (simp add: phrase_ok_def)
next
  case (WildcardExpr p)
  then show ?case using tokenize_word [OF assms, of p rest] word_tokens(2) [of U p] by simp
qed

lemma String_ends:
  assumes "unicode_ok U"
  shows "printable U e \<Longrightarrow> wf_expr U e \<Longrightarrow>
    expr_String U e \<noteq> [] \<and> \<not> u_space U (hd (expr_String U e)) \<and> \<not> u_space U (last (expr_String U e))"
proof (induction e)
  case (FuzzyExpr t d)
  then have d: "0 \<le> d" "bare U t" by auto
  have "last (show_int d) \<in> set (show_int d)" using show_int_nonempty by simp
  with show_int_digits [OF d(1)] show ?case
    using d(2) ascii_space(7) [OF assms] show_int_nonempty [of d] by (auto simp: bare_def word_end_def)
next
  case (ProximityExpr p d)
  then have d: "0 \<le> d" by simp
  have "last (show_int d) \<in> set (show_int d)" using show_int_nonempty by simp
  with show_int_digits [OF d] ProximityExpr.prems show ?case
    using ascii_space(2,7) [OF assms] show_int_nonempty [of d] by (auto simp: phrase_ok_def)
qed (use ascii_space [OF assms] in \<open>auto simp: bare_def word_end_def phrase_ok_def\<close>)

text \<open>C26: Printing an expression and parsing it again gives the expression back, whatever its
  operators and nesting: for expressions that the parser can produce, without a directly doubled
  negation, whose words and phrases need no quoting.\<close>

theorem query_roundtrip:
  assumes "unicode_ok U" and "printable U e" and "wf_expr U e"
  shows "ParseQueryExpression U (expr_String U e) = Inr (Some e)"
proof -
  note ends = String_ends [OF assms]
  have drop: "xs \<noteq> [] \<Longrightarrow> \<not> P (hd xs) \<Longrightarrow> dropWhile P xs = xs" for P :: "rune \<Rightarrow> bool" and xs by (cases xs) auto
  from ends have "TrimSpace U (expr_String U e) = expr_String U e"
    by (simp add: TrimSpace_def drop hd_rev)
  moreover have "tokenize U (expr_String U e) = toks e @ [tokEOF]"
    using tokenize_String [OF assms, of "[]"] by (simp add: stops_def tokenize.simps)
  ultimately show ?thesis using ends parse_top [OF assms(3)] by (simp add: ParseQueryExpression_def)
qed

definition ascii :: unicode where
  "ascii = \<lparr>u_space = (\<lambda>r. r = 32 \<or> 9 \<le> r \<and> r \<le> 13), u_digit = (\<lambda>r. 48 \<le> r \<and> r \<le> 57),
     u_lower = (\<lambda>r. if 65 \<le> r \<and> r \<le> 90 then r + 32 else r), u_upper = (\<lambda>r. if 97 \<le> r \<and> r \<le> 122 then r - 32 else r),
     u_quote = (\<lambda>p. 34 # p @ [34])\<rparr>"

lemma ascii_ok: "unicode_ok ascii"
  by (auto simp: unicode_ok_def ascii_def)

theorem query_roundtrip_witness:
  "ParseQueryExpression ascii (runes ''((cat AND NOT dog~1) OR mou*)'') =
   Inr (Some (OrExpr (AndExpr (TermExpr (runes ''cat'')) (NotExpr (FuzzyExpr (runes ''dog'') 1))) (WildcardExpr (runes ''mou*''))))"
proof -
  let ?e = "OrExpr (AndExpr (TermExpr (runes ''cat'')) (NotExpr (FuzzyExpr (runes ''dog'') 1))) (WildcardExpr (runes ''mou*''))"
  have one: "show_int 1 = [49]" by (simp add: show_int_def dec_nat.simps)
  have "printable ascii ?e" "wf_expr ascii ?e"
    by (simp_all add: bare_def word_end_def keywordToken_def ToUpper_def ToLower_def ascii_def one)
  moreover have "expr_String ascii ?e = runes ''((cat AND NOT dog~1) OR mou*)''" by (simp add: one)
  ultimately show ?thesis using query_roundtrip [OF ascii_ok, of ?e] by simp
qed


subsection \<open>Witnesses of the evaluation\<close>

text \<open>An index over two documents; the scores are natural numbers.\<close>

definition demo_leaf :: "QueryExpr \<Rightarrow> unit + nat FTSResult list" where
  "demo_leaf e = (if e = TermExpr (runes ''cat'') then Inr [\<lparr>r_DocID = ''d1'', r_Score = 3, r_Terms = [''cat'']\<rparr>, \<lparr>r_DocID = ''d2'', r_Score = 5, r_Terms = [''cat'']\<rparr>]
     else if e = TermExpr (runes ''dog'') then Inr [\<lparr>r_DocID = ''d1'', r_Score = 4, r_Terms = [''dog'']\<rparr>]
     else Inr [])"

lemma demo_leaf_ok: "leaves_ok demo_leaf"
  by (auto simp: leaves_ok_def demo_leaf_def negatedMarker_def)

lemma nat_score_order: "score_order ((>) :: nat \<Rightarrow> nat \<Rightarrow> bool)"
  by (auto simp: score_order_def)

lemma demo_eval:
  "evalExpr demo_leaf (+) pick (TermExpr (runes ''cat'')) =
     Inr [(''d1'', \<lparr>es_score = 3, es_terms = [''cat'']\<rparr>), (''d2'', \<lparr>es_score = 5, es_terms = [''cat'']\<rparr>)]"
  "evalExpr demo_leaf (+) pick (TermExpr (runes ''dog'')) = Inr [(''d1'', \<lparr>es_score = 4, es_terms = [''dog'']\<rparr>)]"
  "evalExpr demo_leaf (+) pick (TermExpr (runes ''cow'')) = Inr []"
  by (simp_all add: demo_leaf_def resultsToMap_def)


theorem empty_exclusion_drops_all_witness:
  "EvaluateExpression demo_leaf (+) (\<lambda>_. 0) (>) (Some (AndExpr (TermExpr (runes ''cat'')) (NotExpr (TermExpr (runes ''cow''))))) 10 = Inr [] \<and>
   matches demo_leaf (AndExpr (TermExpr (runes ''cat'')) (NotExpr (TermExpr (runes ''cow'')))) ''d1''"
proof -
  have "selects (TermExpr (runes ''cat''))" "exclusions_met demo_leaf (TermExpr (runes ''cat''))" by simp_all
  from empty_exclusion_drops_all [OF demo_leaf_ok this demo_eval(1) demo_eval(3)]
  show ?thesis by (auto simp: demo_leaf_def)
qed

theorem lone_negation_inverted_witness:
  "ParseQueryExpression ascii (runes ''-dog'') = Inr (Some (NotExpr (TermExpr (runes ''dog'')))) \<and>
   (\<exists>out. EvaluateExpression demo_leaf (+) (\<lambda>_. 0) (>) (Some (NotExpr (TermExpr (runes ''dog'')))) 0 = Inr out \<and>
     r_DocID ` set out = {''d1''})"
proof
  have "tokenize ascii (runes ''-dog'') = [tokNot, tokTerm (runes ''dog''), tokEOF]"
    by (simp add: tokenize.simps ascii_def word_end_def word_token_def keywordToken_def ToUpper_def tilde_split_def)
  moreover have "TrimSpace ascii (runes ''-dog'') = runes ''-dog''" by (simp add: TrimSpace_def ascii_def)
  ultimately show "ParseQueryExpression ascii (runes ''-dog'') = Inr (Some (NotExpr (TermExpr (runes ''dog''))))"
    by (simp add: ParseQueryExpression_def parse.simps ToLower_def ascii_def)
next
  have "selects (TermExpr (runes ''dog''))" "exclusions_met demo_leaf (TermExpr (runes ''dog''))" by simp_all
  from lone_negation_inverted [OF demo_leaf_ok this demo_eval(2), of "\<lambda>_. 0" "(>)"]
  show "\<exists>out. EvaluateExpression demo_leaf (+) (\<lambda>_. 0) (>) (Some (NotExpr (TermExpr (runes ''dog'')))) 0 = Inr out \<and>
      r_DocID ` set out = {''d1''}"
    by (auto simp: demo_leaf_def)
qed

end
