(* ===== verification/Index_Queue.thy ===== *)
theory Index_Queue
  imports Document_Store
begin

section \<open>The asynchronous metadata index\<close>

text \<open>
  Models \<^verbatim>\<open>internal/indexqueue/indexqueue.go\<close>: a bounded channel of jobs and the
  workers that drain it.  A worker is idle, holds a job, or has exited; the steps of different
  workers interleave freely.  Processing a job is one transaction followed by the flush of its
  binlog entries, taken as one step.
\<close>

subsection \<open>Jobs\<close>

record IndexJob =
  j_Collection :: bytes
  j_DocID :: bytes
  j_OldMeta :: meta
  j_NewMeta :: meta

datatype worker = Idle | Working IndexJob | Exited

record 'tx IndexQueue =
  iq_tx :: 'tx
  iq_binlog :: "Binlog option"
  iq_queue :: "IndexJob list"
  iq_workers :: "worker list"
  iq_processed :: u64
  iq_failed :: u64
  iq_fallbacks :: u64
  iq_closed :: bool

definition queue_cap :: nat where "queue_cap = 1000"

definition NewIndexQueue :: "'tx \<Rightarrow> Binlog option \<Rightarrow> int \<Rightarrow> 'tx IndexQueue" where
  "NewIndexQueue tx bl workers =
     \<lparr>iq_tx = tx, iq_binlog = bl, iq_queue = [], iq_workers = replicate (if workers \<le> 0 then 4 else nat workers) Idle,
      iq_processed = 0, iq_failed = 0, iq_fallbacks = 0, iq_closed = False\<rparr>"

definition process_txn :: "'tx bolt \<Rightarrow> IndexJob \<Rightarrow> 'tx \<Rightarrow> op_error + 'tx logged" where
  "process_txn B job tx =
     put_all B ''idxmeta'' ''1'' (meta_keys (j_Collection job) (j_NewMeta job) (j_DocID job))
       (fold (del_quiet B ''idxmeta'') (meta_keys (j_Collection job) (j_OldMeta job) (j_DocID job)) (tx, []))"

definition processJob :: "'tx bolt \<Rightarrow> clock \<Rightarrow> IndexJob \<Rightarrow> 'tx IndexQueue \<Rightarrow> 'tx IndexQueue \<times> op_error option" where
  "processJob B ck job q =
     (case DBUpdate B CommitError (process_txn B job) (iq_tx q) of
        (db, Inl err) \<Rightarrow> (q\<lparr>iq_tx := db\<rparr>, Some err)
      | (db, Inr bo) \<Rightarrow> (q\<lparr>iq_tx := db, iq_binlog := FlushTo (ck_binlog ck) (ck_io ck) bo (iq_binlog q)\<rparr>, None))"

text \<open>A job processed and counted.\<close>

definition index_counted :: "'tx bolt \<Rightarrow> clock \<Rightarrow> IndexJob \<Rightarrow> 'tx IndexQueue \<Rightarrow> 'tx IndexQueue \<times> op_error option" where
  "index_counted B ck job q =
     (case processJob B ck job q of
        (q', Some err) \<Rightarrow> (q'\<lparr>iq_failed := iq_failed q' + 1\<rparr>, Some err)
      | (q', None) \<Rightarrow> (q'\<lparr>iq_processed := iq_processed q' + 1\<rparr>, None))"

datatype enqueue_error = ErrQueueClosed | IndexError op_error

definition Enqueue :: "'tx bolt \<Rightarrow> clock \<Rightarrow> IndexJob \<Rightarrow> 'tx IndexQueue \<Rightarrow> 'tx IndexQueue \<times> enqueue_error option" where
  "Enqueue B ck job q =
     (if iq_closed q then (q, Some ErrQueueClosed)
      else if length (iq_queue q) < queue_cap then (q\<lparr>iq_queue := iq_queue q @ [job]\<rparr>, None)
      else case index_counted B ck job (q\<lparr>iq_fallbacks := iq_fallbacks q + 1\<rparr>) of (q', err) \<Rightarrow> (q', map_option IndexError err))"

text \<open>The steps of the worker goroutines; \<^verbatim>\<open>select\<close> takes either ready case.\<close>

inductive worker_step :: "'tx bolt \<Rightarrow> 'tx IndexQueue \<Rightarrow> 'tx IndexQueue \<Rightarrow> bool" for B where
  receive: "i < length (iq_workers q) \<Longrightarrow> iq_workers q ! i = Idle \<Longrightarrow> iq_queue q = job # jobs \<Longrightarrow>
     worker_step B q (q\<lparr>iq_queue := jobs, iq_workers := (iq_workers q)[i := Working job]\<rparr>)"
| work: "i < length (iq_workers q) \<Longrightarrow> iq_workers q ! i = Working job \<Longrightarrow> index_counted B ck job q = (q', err) \<Longrightarrow>
     worker_step B q (q'\<lparr>iq_workers := (iq_workers q)[i := Idle]\<rparr>)"
| exit: "i < length (iq_workers q) \<Longrightarrow> iq_workers q ! i = Idle \<Longrightarrow> iq_closed q \<Longrightarrow>
     worker_step B q (q\<lparr>iq_workers := (iq_workers q)[i := Exited]\<rparr>)"

text \<open>\<open>Shutdown\<close> cancels the context; it returns when every worker has exited.\<close>

definition Shutdown :: "'tx IndexQueue \<Rightarrow> 'tx IndexQueue" where
  "Shutdown q = q\<lparr>iq_closed := True\<rparr>"

definition iq_Stats :: "'tx IndexQueue \<Rightarrow> u64 \<times> u64 \<times> u64 \<times> nat" where
  "iq_Stats q = (iq_processed q, iq_failed q, iq_fallbacks q, length (iq_queue q))"

inductive_cases worker_stepE: "worker_step B q q'"

subsection \<open>What a job does\<close>

definition job_ops :: "IndexJob \<Rightarrow> BinlogOps" where
  "job_ops job = map (del_op ''idxmeta'') (meta_keys (j_Collection job) (j_OldMeta job) (j_DocID job)) @
     map (put_op ''idxmeta'' ''1'') (meta_keys (j_Collection job) (j_NewMeta job) (j_DocID job))"

lemma process_txn_runs:
  assumes B: "bolt_laws B cont" and p: "process_txn B job tx = Inr (tx', bo)"
  shows "cont tx' = replay (job_ops job) (cont tx) \<and> bo = job_ops job"
  using runs_trans [OF del_quiet_fold_runs [OF B] put_all_runs [OF B p [unfolded process_txn_def]]]
  by (simp add: runs_def job_ops_def)

lemma replay_job:
  "replay (job_ops job) c b k =
     (if b \<noteq> ''idxmeta'' then c b k
      else if k \<in> set (meta_keys (j_Collection job) (j_NewMeta job) (j_DocID job)) then Some ''1''
      else if k \<in> set (meta_keys (j_Collection job) (j_OldMeta job) (j_DocID job)) then None else c b k)"
  by (simp add: job_ops_def replay_puts replay_dels)

lemma index_counted_frame:
  "index_counted B ck job q = (q', err) \<Longrightarrow> iq_queue q' = iq_queue q \<and> iq_workers q' = iq_workers q \<and> iq_closed q' = iq_closed q \<and>
     iq_processed q' + iq_failed q' = iq_processed q + iq_failed q + 1"
  by (auto simp: index_counted_def processJob_def split: prod.splits sum.splits option.splits)

lemma index_counted_ok:
  assumes "bolt_laws B cont" and "index_counted B ck job q = (q', None)"
  shows "cont (iq_tx q') = replay (job_ops job) (cont (iq_tx q)) \<and> iq_binlog q' = FlushTo (ck_binlog ck) (ck_io ck) (job_ops job) (iq_binlog q) \<and>
    iq_processed q' = iq_processed q + 1 \<and> iq_failed q' = iq_failed q"
proof -
  obtain db r where d: "DBUpdate B CommitError (process_txn B job) (iq_tx q) = (db, r)"
    by (cases "DBUpdate B CommitError (process_txn B job) (iq_tx q)")
  note A = assms(2) [unfolded index_counted_def processJob_def d prod.case]
  from A obtain bo where r: "r = Inr bo" by (cases r) auto
  from d r obtain tx' where tx': "process_txn B job (iq_tx q) = Inr (tx', bo)" "bk_commit B tx' = Some db" by (auto simp: DBUpdate_Inr)
  from process_txn_runs [OF assms(1) tx'(1)] bolt_laws.commit_law [OF assms(1) tx'(2)] A r show ?thesis by auto
qed

lemma index_counted_err: "index_counted B ck job q = (q', Some err) \<Longrightarrow> iq_tx q' = iq_tx q \<and> iq_binlog q' = iq_binlog q"
  by (auto simp: index_counted_def processJob_def split: prod.splits sum.splits option.splits dest!: DBUpdate_Inl)

subsection \<open>Draining\<close>

definition busy :: "worker \<Rightarrow> bool" where "busy w \<longleftrightarrow> w \<noteq> Idle \<and> w \<noteq> Exited"

definition pending :: "'tx IndexQueue \<Rightarrow> nat" where
  "pending q = length (iq_queue q) + length (filter busy (iq_workers q))"

lemma filter_update:
  "i < length ws \<Longrightarrow> length (filter P (ws[i := w])) + (if P (ws ! i) then 1 else 0) = length (filter P ws) + (if P w then 1 else 0)"
proof (induction ws arbitrary: i)
  case (Cons a ws)
  then show ?case by (cases i) auto
qed simp

definition work_left :: "'tx IndexQueue \<Rightarrow> nat" where
  "work_left q = 3 * length (iq_queue q) + 2 * length (filter busy (iq_workers q)) + length (filter (\<lambda>w. w \<noteq> Exited) (iq_workers q))"

lemma worker_step_decreases: "worker_step B q q' \<Longrightarrow> work_left q' < work_left q"
proof (induction rule: worker_step.induct)
  case (receive i q job jobs)
  then show ?case using filter_update [of i "iq_workers q" busy "Working job"] filter_update [of i "iq_workers q" "\<lambda>w. w \<noteq> Exited" "Working job"]
    by (simp add: work_left_def busy_def)
next
  case (work i q job ck q' err)
  then show ?case using index_counted_frame [OF work(3)] filter_update [of i "iq_workers q" busy Idle]
      filter_update [of i "iq_workers q" "\<lambda>w. w \<noteq> Exited" Idle]
    by (simp add: work_left_def busy_def)
next
  case (exit i q)
  then show ?case using filter_update [of i "iq_workers q" busy Exited] filter_update [of i "iq_workers q" "\<lambda>w. w \<noteq> Exited" Exited]
    by (simp add: work_left_def busy_def)
qed

lemma worker_step_pending:
  "worker_step B q q' \<Longrightarrow> iq_closed q' = iq_closed q \<and> length (iq_workers q') = length (iq_workers q) \<and>
     (\<not> iq_closed q \<longrightarrow> Exited \<notin> set (iq_workers q) \<longrightarrow> Exited \<notin> set (iq_workers q')) \<and>
     iq_processed q' + iq_failed q' + of_nat (pending q') = iq_processed q + iq_failed q + of_nat (pending q)"
proof (induction rule: worker_step.induct)
  case (receive i q job jobs)
  then show ?case using filter_update [of i "iq_workers q" busy "Working job"] set_update_subset_insert [of "iq_workers q" i "Working job"]
    by (auto simp: pending_def busy_def)
next
  case (work i q job ck q' err)
  have "length (filter busy ((iq_workers q)[i := Idle])) + 1 = length (filter busy (iq_workers q))"
    using filter_update [of i "iq_workers q" busy Idle] work(1,2) by (simp add: busy_def)
  then have "pending q = Suc (pending (q'\<lparr>iq_workers := (iq_workers q)[i := Idle]\<rparr>))"
    using index_counted_frame [OF work(3)] by (simp add: pending_def)
  then show ?case using index_counted_frame [OF work(3)] set_update_subset_insert [of "iq_workers q" i Idle]
    by (auto simp: algebra_simps)
next
  case (exit i q)
  then show ?case using filter_update [of i "iq_workers q" busy Exited] by (simp add: pending_def busy_def)
qed



subsection \<open>One worker keeps the index exact\<close>

text \<open>The index of one document is exactly that of its metadata.\<close>

definition indexed :: "bytes \<Rightarrow> bytes \<Rightarrow> meta \<Rightarrow> contents \<Rightarrow> bool" where
  "indexed coll i m c \<longleftrightarrow> (\<forall>mk mv. nosep mk \<and> nosep mv \<longrightarrow>
     (c ''idxmeta'' (MetaKeyPrefix coll mk mv @ i) \<noteq> None \<longleftrightarrow> MetaKeyPrefix coll mk mv @ i \<in> set (meta_keys coll m i)))"

definition job_ok :: "IndexJob \<Rightarrow> bool" where
  "job_ok job \<longleftrightarrow> nosep (j_Collection job) \<and> meta_ok (j_OldMeta job) \<and> meta_ok (j_NewMeta job)"

text \<open>The jobs of a document form a chain from the metadata \<open>m\<close> to \<open>m'\<close>.\<close>

fun chained :: "bytes \<Rightarrow> bytes \<Rightarrow> meta \<Rightarrow> IndexJob list \<Rightarrow> meta \<Rightarrow> bool" where
  "chained coll i m [] m' = (m = m')"
| "chained coll i m (job # jobs) m' =
     (if j_Collection job = coll \<and> j_DocID job = i then j_OldMeta job = m \<and> chained coll i (j_NewMeta job) jobs m'
      else chained coll i m jobs m')"

lemma foreign_key:
  assumes "nosep coll" "nosep coll'" "meta_ok m'" "nosep mk" "nosep mv" "(coll, i) \<noteq> (coll', i')"
  shows "MetaKeyPrefix coll mk mv @ i \<notin> set (meta_keys coll' m' i')"
proof
  assume "MetaKeyPrefix coll mk mv @ i \<in> set (meta_keys coll' m' i')"
  moreover have "MetaKeyPrefix coll mk mv @ i \<in> set (meta_keys coll [(mk, [mv])] i)" by (simp add: meta_keys_def)
  moreover have "meta_ok [(mk, [mv])]" using assms(4,5) by (simp add: meta_ok_def)
  ultimately show False using meta_keys_disjoint [of "[(mk, [mv])]" m' coll coll'] assms by blast
qed

lemma indexed_job:
  assumes "indexed coll i m c" and "job_ok job" and "nosep coll"
  shows "indexed coll i (if j_Collection job = coll \<and> j_DocID job = i then j_NewMeta job else m) (replay (job_ops job) c) \<or>
    (j_Collection job = coll \<and> j_DocID job = i \<and> j_OldMeta job \<noteq> m)"
proof (cases "j_Collection job = coll \<and> j_DocID job = i")
  case True
  then show ?thesis using assms(1) by (auto simp: indexed_def replay_job)
next
  case False
  have "MetaKeyPrefix coll mk mv @ i \<notin> set (meta_keys (j_Collection job) m' (j_DocID job))"
    if "nosep mk" "nosep mv" "m' = j_OldMeta job \<or> m' = j_NewMeta job" for mk mv m'
    using foreign_key [of coll "j_Collection job" m' mk mv i "j_DocID job"] assms(2,3) that False by (auto simp: job_ok_def)
  then have "indexed coll i m (replay (job_ops job) c)" using assms(1) by (simp add: indexed_def replay_job)
  then show ?thesis by (simp add: if_not_P [OF False])
qed

lemma indexed_jobs:
  "indexed coll i m c \<Longrightarrow> chained coll i m jobs m' \<Longrightarrow> \<forall>job \<in> set jobs. job_ok job \<Longrightarrow> nosep coll \<Longrightarrow>
   indexed coll i m' (fold (\<lambda>job. replay (job_ops job)) jobs c)"
proof (induction jobs arbitrary: m c)
  case (Cons job jobs)
  have j: "job_ok job" using Cons.prems(3) by simp
  from indexed_job [OF Cons.prems(1) j Cons.prems(4)] Cons show ?case by (auto split: if_splits)
qed simp

definition in_hand :: "'tx IndexQueue \<Rightarrow> IndexJob list" where
  "in_hand q = concat (map (\<lambda>w. case w of Working job \<Rightarrow> [job] | _ \<Rightarrow> []) (iq_workers q))"

lemma single_worker_inv:
  assumes B: "bolt_laws B cont"
    and ok: "\<forall>job \<in> set (iq_queue q). \<forall>ck q. snd (index_counted B ck job q) = None"
    and one: "length (iq_workers q) = 1" "in_hand q = []" and steps: "(worker_step B)\<^sup>*\<^sup>* q q'"
  shows "\<exists>past. iq_queue q = past @ in_hand q' @ iq_queue q' \<and> length (iq_workers q') = 1 \<and>
    cont (iq_tx q') = fold (\<lambda>job. replay (job_ops job)) past (cont (iq_tx q))"
  using steps
proof (induction rule: rtranclp_induct)
  case base
  show ?case using one by (intro exI [of _ "[]"]) simp
next
  case (step y z)
  then obtain past where past: "iq_queue q = past @ in_hand y @ iq_queue y" "length (iq_workers y) = 1"
    "cont (iq_tx y) = fold (\<lambda>job. replay (job_ops job)) past (cont (iq_tx q))" by blast
  then obtain w where w: "iq_workers y = [w]" by (cases "iq_workers y") auto
  from step(2) show ?case
  proof (cases rule: worker_step.cases)
    case (receive i job jobs)
    then show ?thesis using past w by (intro exI [of _ past]) (auto simp: in_hand_def)
  next
    case (work i job ck y' err)
    have i: "i = 0" "w = Working job" using work w by auto
    then have job: "iq_queue q = past @ job # iq_queue y" using past(1) w by (simp add: in_hand_def)
    then have "err = None" using ok work(4) by (metis in_set_conv_decomp snd_conv)
    with work(4) have "cont (iq_tx y') = replay (job_ops job) (cont (iq_tx y))" using index_counted_ok [OF B] by blast
    then show ?thesis using past job work(1) i w index_counted_frame [OF work(4)]
      by (intro exI [of _ "past @ [job]"]) (simp add: in_hand_def)
  next
    case (exit i)
    then show ?thesis using past w by (intro exI [of _ past]) (auto simp: in_hand_def)
  qed
qed



subsection \<open>Two workers, and shutting down\<close>

text \<open>With two workers the jobs of one document can be processed in the other order, and then
  the document stays indexed under metadata it no longer has: the entries of the metadata in
  between that its present metadata does not share.\<close>

theorem two_workers_stale_index:
  assumes "bolt_laws B cont" and "iq_queue q = [job1, job2]" and "iq_workers q = [Idle, Idle]"
    and "\<forall>job \<in> {job1, job2}. \<forall>ck q. snd (index_counted B ck job q) = None"
    and "k \<in> set (meta_keys (j_Collection job1) (j_NewMeta job1) (j_DocID job1))"
  shows "\<exists>q'. (worker_step B)\<^sup>*\<^sup>* q q' \<and> iq_queue q' = [] \<and> iq_workers q' = [Idle, Idle] \<and>
     cont (iq_tx q') ''idxmeta'' k = Some ''1''"
proof -
  let ?q1 = "q\<lparr>iq_queue := [job2], iq_workers := [Working job1, Idle]\<rparr>"
  let ?q2 = "q\<lparr>iq_queue := [], iq_workers := [Working job1, Working job2]\<rparr>"
  have 1: "worker_step B q ?q1" using worker_step.receive [of 0 q job1 "[job2]" B] assms(2,3) by simp
  have 2: "worker_step B ?q1 ?q2" using worker_step.receive [of 1 ?q1 job2 "[]" B] by simp
  obtain q3 where q3: "index_counted B (ref_clock 0) job2 ?q2 = (q3, None)"
    using assms(4) by (metis insertCI prod.collapse)
  let ?q3 = "q3\<lparr>iq_workers := [Working job1, Idle]\<rparr>"
  have 3: "worker_step B ?q2 ?q3" using worker_step.work [of 1 ?q2 job2 B "ref_clock 0" q3 None] q3 by simp
  obtain q4 where q4: "index_counted B (ref_clock 0) job1 ?q3 = (q4, None)"
    using assms(4) by (metis insertCI prod.collapse)
  let ?q4 = "q4\<lparr>iq_workers := [Idle, Idle]\<rparr>"
  have 4: "worker_step B ?q3 ?q4" using worker_step.work [of 0 ?q3 job1 B "ref_clock 0" q4 None] q4 by simp
  have "(worker_step B)\<^sup>*\<^sup>* q ?q4" using 1 2 3 4 by (meson converse_rtranclp_into_rtranclp rtranclp.rtrancl_refl)
  moreover have "iq_queue ?q4 = []" using index_counted_frame [OF q3] index_counted_frame [OF q4] by simp
  moreover have "cont (iq_tx ?q4) ''idxmeta'' k = Some ''1''"
    using index_counted_ok [OF assms(1) q4] assms(5) by (simp add: replay_job)
  ultimately show ?thesis by (intro exI [of _ ?q4]) simp
qed

text \<open>A job that \<open>Enqueue\<close> has accepted can be lost, without a trace in the counters or the
  store: after a shutdown every worker may leave while it is still queued.\<close>

theorem accepted_job_lost:
  assumes "Enqueue B ck job q = (q1, None)" and "length (iq_queue q) < queue_cap" and "set (iq_workers q) \<subseteq> {Idle}"
  shows "\<exists>q'. (worker_step B)\<^sup>*\<^sup>* (Shutdown q1) q' \<and> (\<nexists>q''. worker_step B q' q'') \<and>
     job \<in> set (iq_queue q') \<and> iq_tx q' = iq_tx q \<and> iq_binlog q' = iq_binlog q \<and> iq_Stats q' = (iq_processed q, iq_failed q, iq_fallbacks q, length (iq_queue q) + 1)"
proof -
  have q1: "q1 = q\<lparr>iq_queue := iq_queue q @ [job]\<rparr>" using assms(1,2) by (auto simp: Enqueue_def split: if_splits)
  have leave: "(worker_step B)\<^sup>*\<^sup>* (r\<lparr>iq_workers := replicate m Exited @ replicate n Idle\<rparr>)
      (r\<lparr>iq_workers := replicate (m + n) Exited\<rparr>)" if "iq_closed r" for r :: "'a IndexQueue" and m n
  proof (induction n arbitrary: m)
    case (Suc n)
    let ?r = "r\<lparr>iq_workers := replicate m Exited @ replicate (Suc n) Idle\<rparr>"
    have "worker_step B ?r (?r\<lparr>iq_workers := (iq_workers ?r)[m := Exited]\<rparr>)"
      by (rule worker_step.exit) (use that in \<open>simp_all add: nth_append\<close>)
    also have "?r\<lparr>iq_workers := (iq_workers ?r)[m := Exited]\<rparr> = r\<lparr>iq_workers := replicate (Suc m) Exited @ replicate n Idle\<rparr>"
      by (simp add: list_update_append replicate_app_Cons_same)
    finally show ?case using Suc.IH [of "Suc m"] by (simp add: converse_rtranclp_into_rtranclp)
  qed simp
  let ?r = "Shutdown q1" and ?n = "length (iq_workers q)"
  have "iq_workers q = replicate ?n Idle" using assms(3) by (metis replicate_eqI singletonD subset_code(1))
  then have "?r = ?r\<lparr>iq_workers := replicate 0 Exited @ replicate ?n Idle\<rparr>" by (simp add: Shutdown_def q1)
  with leave [of ?r 0 ?n] have reach: "(worker_step B)\<^sup>*\<^sup>* ?r (?r\<lparr>iq_workers := replicate ?n Exited\<rparr>)"
    by (simp add: Shutdown_def)
  moreover have "\<nexists>q''. worker_step B (?r\<lparr>iq_workers := replicate ?n Exited\<rparr>) q''"
    by (auto elim!: worker_stepE)
  ultimately show ?thesis
    by (intro exI [of _ "?r\<lparr>iq_workers := replicate ?n Exited\<rparr>"]) (simp add: Shutdown_def q1 iq_Stats_def)
qed


subsection \<open>Witnesses\<close>

definition demo_job :: "meta \<Rightarrow> meta \<Rightarrow> IndexJob" where
  "demo_job old new = \<lparr>j_Collection = ''c'', j_DocID = ''i'', j_OldMeta = old, j_NewMeta = new\<rparr>"

definition tagged :: "bytes \<Rightarrow> meta" where "tagged v = [(''t'', [v])]"

definition demo_queue :: "nat \<Rightarrow> IndexJob list \<Rightarrow> mem_db IndexQueue" where
  "demo_queue n jobs = (NewIndexQueue [] None (int n))\<lparr>iq_queue := jobs\<rparr>"

lemma demo_job_ok: "nosep v \<Longrightarrow> nosep w \<Longrightarrow> job_ok (demo_job (tagged v) (tagged w))"
  "nosep w \<Longrightarrow> job_ok (demo_job [] (tagged w))"
  by (auto simp: job_ok_def demo_job_def tagged_def meta_ok_def)

lemma demo_job_runs: "length w < 1000 \<Longrightarrow> snd (index_counted mem_bolt ck (demo_job old (tagged w)) q) = None"
proof -
  assume w: "length w < 1000"
  have "put_all mem_bolt ''idxmeta'' ''1'' (meta_keys ''c'' (tagged w) ''i'') s \<noteq> Inl err" for s err
    using w by (simp add: meta_keys_def tagged_def MetaKeyPrefix_def put_log_def mem_bolt_def)
  then have "process_txn mem_bolt (demo_job old (tagged w)) tx \<noteq> Inl err" for tx err
    by (simp add: process_txn_def demo_job_def)
  then show ?thesis
    by (cases "process_txn mem_bolt (demo_job old (tagged w)) (iq_tx q)")
      (auto simp: index_counted_def processJob_def DBUpdate_def mem_bolt_def)
qed



theorem two_workers_stale_index_witness:
  "\<exists>q'. (worker_step mem_bolt)\<^sup>*\<^sup>* (demo_queue 2 [demo_job [] (tagged ''a''), demo_job (tagged ''a'') (tagged ''b'')]) q' \<and>
     mem_contents (iq_tx q') ''idxmeta'' (MetaKeyPrefix ''c'' ''t'' ''a'' @ ''i'') = Some ''1''"
proof -
  let ?q = "demo_queue 2 [demo_job [] (tagged ''a''), demo_job (tagged ''a'') (tagged ''b'')]"
  have w: "iq_queue ?q = [demo_job [] (tagged ''a''), demo_job (tagged ''a'') (tagged ''b'')]" "iq_workers ?q = [Idle, Idle]"
    by (simp_all add: demo_queue_def NewIndexQueue_def numeral_2_eq_2)
  have ok: "\<forall>job \<in> {demo_job [] (tagged ''a''), demo_job (tagged ''a'') (tagged ''b'')}. \<forall>ck q. snd (index_counted mem_bolt ck job q) = None"
    using demo_job_runs by simp
  have k: "MetaKeyPrefix ''c'' ''t'' ''a'' @ ''i'' \<in> set (meta_keys (j_Collection (demo_job [] (tagged ''a'')))
      (j_NewMeta (demo_job [] (tagged ''a''))) (j_DocID (demo_job [] (tagged ''a''))))"
    by (simp add: demo_job_def tagged_def meta_keys_def)
  from two_workers_stale_index [OF mem.bolt_laws_axioms w ok k] show ?thesis by blast
qed

theorem accepted_job_lost_witness:
  "\<exists>q'. demo_job [] (tagged ''a'') \<in> set (iq_queue q') \<and> iq_tx q' = ([] :: mem_db) \<and> (\<nexists>q''. worker_step mem_bolt q' q'')"
proof -
  let ?q = "demo_queue 4 []" and ?job = "demo_job [] (tagged ''a'')"
  have e: "Enqueue mem_bolt (ref_clock 0) ?job ?q = (?q\<lparr>iq_queue := [?job]\<rparr>, None)"
    "length (iq_queue ?q) < queue_cap" "set (iq_workers ?q) \<subseteq> {Idle}" "iq_tx ?q = []"
    by (auto simp: Enqueue_def demo_queue_def NewIndexQueue_def queue_cap_def)
  from accepted_job_lost [OF e(1-3)] e(4) show ?thesis by metis
qed

end
