(* ===== verification/Ttl.thy ===== *)
theory Ttl
  imports Document_Store
begin

section \<open>Expiry of documents\<close>

text \<open>
  Models \<^verbatim>\<open>internal/ttl/ttl.go\<close> and \<^verbatim>\<open>ttl_reaper.go\<close>.  The manager keeps a forward bucket
  \<^verbatim>\<open>ttl\<close>, whose keys sort by expiry, and a reverse bucket \<^verbatim>\<open>ttlrev\<close> from a document to its
  expiry.  \<open>ttl_Set\<close> and \<open>ttl_Remove\<close> are its transactions; the clean-up is split where the
  code gives up the store: \<open>scan_due\<close> is the read transaction that collects the due documents,
  \<open>reap\<close> the loop that deletes them, each in transactions of its own.  The manager shares the
  store and the binlog of the server.  \<open>None\<close> as the result of the clean-up is a panic.
\<close>

subsection \<open>Keys\<close>

definition ttlKey :: "int \<Rightarrow> bytes \<Rightarrow> bytes \<Rightarrow> bytes" where
  "ttlKey expiresAt coll docID = fmt_020d expiresAt @ ''|'' @ coll @ ''|'' @ docID"

definition ttlRevKey :: "bytes \<Rightarrow> bytes \<Rightarrow> bytes" where
  "ttlRevKey coll docID = coll @ ''|'' @ docID"

subsection \<open>Set and Remove\<close>

text \<open>The old forward entry goes; a reverse entry of fewer than eight bytes makes the read panic.\<close>

definition forget_old :: "'tx bolt \<Rightarrow> bytes \<Rightarrow> bytes \<Rightarrow> 'tx logged \<Rightarrow> op_error + 'tx logged" where
  "forget_old B coll docID s =
     (case bk_get B ''ttlrev'' (ttlRevKey coll docID) (fst s) of None \<Rightarrow> Inr s
      | Some old \<Rightarrow>
          if length old < 8 then Inl OpPanic
          else Inr (del_quiet B ''ttl'' (ttlKey (sint (get_be64 old)) coll docID) s))"

definition ttl_set_txn :: "'tx bolt \<Rightarrow> bytes \<Rightarrow> bytes \<Rightarrow> int \<Rightarrow> 'tx \<Rightarrow> op_error + 'tx logged" where
  "ttl_set_txn B coll docID expiresAt tx =
     (case forget_old B coll docID (tx, []) of Inl err \<Rightarrow> Inl err
      | Inr s1 \<Rightarrow>
          if expiresAt \<le> 0 then del_log B ''ttlrev'' (ttlRevKey coll docID) s1
          else (case put_log B ''ttl'' (ttlKey expiresAt coll docID) [] s1 of Inl err \<Rightarrow> Inl err
                | Inr s2 \<Rightarrow> put_log B ''ttlrev'' (ttlRevKey coll docID) (be64 (word_of_int expiresAt)) s2))"

definition ttl_remove_txn :: "'tx bolt \<Rightarrow> bytes \<Rightarrow> bytes \<Rightarrow> 'tx \<Rightarrow> op_error + 'tx logged" where
  "ttl_remove_txn B coll docID tx =
     (case forget_old B coll docID (tx, []) of Inl err \<Rightarrow> Inl err
      | Inr s1 \<Rightarrow> del_log B ''ttlrev'' (ttlRevKey coll docID) s1)"

definition ttl_commit :: "'tx bolt \<Rightarrow> clock \<Rightarrow> ('tx \<Rightarrow> op_error + 'tx logged) \<Rightarrow> ('tx, 'p) server \<Rightarrow>
    ('tx, 'p) server \<times> op_error option" where
  "ttl_commit B ck fn s =
     (case DBUpdate B CommitError fn (sv_db s) of
        (db, Inl err) \<Rightarrow> (s\<lparr>sv_db := db\<rparr>, Some err)
      | (db, Inr bo) \<Rightarrow> (s\<lparr>sv_db := db, sv_binlog := FlushTo (ck_binlog ck) (ck_io ck) bo (sv_binlog s)\<rparr>, None))"

definition ttl_Set :: "'tx bolt \<Rightarrow> clock \<Rightarrow> bytes \<Rightarrow> bytes \<Rightarrow> int \<Rightarrow> ('tx, 'p) server \<Rightarrow>
    ('tx, 'p) server \<times> op_error option" where
  "ttl_Set B ck coll docID expiresAt = ttl_commit B ck (ttl_set_txn B coll docID expiresAt)"

definition ttl_Remove :: "'tx bolt \<Rightarrow> clock \<Rightarrow> bytes \<Rightarrow> bytes \<Rightarrow> ('tx, 'p) server \<Rightarrow>
    ('tx, 'p) server \<times> op_error option" where
  "ttl_Remove B ck coll docID = ttl_commit B ck (ttl_remove_txn B coll docID)"

definition EnsureBuckets :: "'tx bolt \<Rightarrow> 'tx \<Rightarrow> 'tx \<times> bool" where
  "EnsureBuckets B tx =
     (case bk_create B ''ttl'' tx of None \<Rightarrow> (tx, False)
      | Some tx1 \<Rightarrow>
        (case bk_create B ''ttlrev'' tx1 of None \<Rightarrow> (tx, False)
         | Some tx2 \<Rightarrow> (case bk_commit B tx2 of None \<Rightarrow> (tx, False) | Some db \<Rightarrow> (db, True))))"

subsection \<open>The clean-up\<close>

text \<open>The documents of the forward keys that are due; entries that lead nowhere are passed over.\<close>

fun scan_keys :: "('tx, 'p) env \<Rightarrow> 'tx \<Rightarrow> bytes list \<Rightarrow> (bytes \<times> bytes \<times> bytes) list option" where
  "scan_keys E tx [] = Some []"
| "scan_keys E tx (k # ks) =
     (case SplitN 3 (CHR ''|'') k of
        [_, coll, docID] \<Rightarrow>
          (case bk_get (e_bolt E) ''docs'' (DocKey coll docID) tx of None \<Rightarrow> scan_keys E tx ks
           | Some v \<Rightarrow>
               (case e_load E v of Err _ \<Rightarrow> scan_keys E tx ks | Panic \<Rightarrow> None
                | Ok doc \<Rightarrow> map_option ((#) (coll, DKey doc, Lang doc)) (scan_keys E tx ks)))
      | _ \<Rightarrow> scan_keys E tx ks)"

definition due_keys :: "'tx bolt \<Rightarrow> int \<Rightarrow> 'tx \<Rightarrow> bytes list" where
  "due_keys B now tx = takeWhile (\<lambda>k. k < ttlKey now [CHR 0xFF] [CHR 0xFF]) (map fst (bk_scan B ''ttl'' [] tx))"

definition scan_due :: "('tx, 'p) env \<Rightarrow> int \<Rightarrow> 'tx \<Rightarrow> (bytes \<times> bytes \<times> bytes) list option" where
  "scan_due E now tx = scan_keys E tx (due_keys (e_bolt E) now tx)"

text \<open>Each deletion reads the clocks anew: \<open>cks n\<close> are the readings of the \<open>n\<close>-th.\<close>

fun reap :: "('tx, 'p) env \<Rightarrow> (nat \<Rightarrow> clock) \<Rightarrow> (bytes \<times> bytes \<times> bytes) list \<Rightarrow> ('tx, 'p) server \<Rightarrow>
    ('tx, 'p) server option" where
  "reap E cks [] s = Some s"
| "reap E cks ((coll, key, lang) # expired) s =
     (case deleteDocumentInternal E (cks 0) coll key lang s of
        (s1, Some err) \<Rightarrow> if err = OpPanic then None else reap E (\<lambda>n. cks (Suc n)) expired s1
      | (s1, None) \<Rightarrow>
          (case ttl_Remove (e_bolt E) (cks 0) coll (genID [coll, key, lang]) s1 of (s2, r) \<Rightarrow>
             if r = Some OpPanic then None else reap E (\<lambda>n. cks (Suc n)) expired s2))"

definition cleanup :: "('tx, 'p) env \<Rightarrow> int \<Rightarrow> (nat \<Rightarrow> clock) \<Rightarrow> ('tx, 'p) server \<Rightarrow> ('tx, 'p) server option" where
  "cleanup E now cks s =
     (case scan_due E now (sv_db s) of None \<Rightarrow> None | Some expired \<Rightarrow> reap E cks expired s)"

text \<open>What the document operations ask of the manager, carried out after their transaction.\<close>

fun ttl_effect :: "'tx bolt \<Rightarrow> clock \<Rightarrow> 'p effect \<Rightarrow> ('tx, 'p) server \<Rightarrow> ('tx, 'p) server" where
  "ttl_effect B ck (TTLSet coll docID e) s = fst (ttl_Set B ck coll docID e s)"
| "ttl_effect B ck (TTLRemove coll docID) s = fst (ttl_Remove B ck coll docID s)"
| "ttl_effect B ck _ s = s"

subsection \<open>The order of the keys\<close>

lemma ttlRevKey_inject: "nosep c \<Longrightarrow> nosep c' \<Longrightarrow> ttlRevKey c i = ttlRevKey c' i' \<longleftrightarrow> c = c' \<and> i = i'"
  by (auto simp: ttlRevKey_def dest: append_sep_inject)

lemma fmt_nosep: "0 \<le> n \<Longrightarrow> nosep (fmt_020d n)"
  using fmt_020d_digits [of n] by (auto simp: is_digit_def)

lemma ttlKey_inject:
  assumes "nosep c" and "nosep c'" and "0 \<le> e" "e < 2 ^ 63" "0 \<le> e'" "e' < 2 ^ 63"
  shows "ttlKey e c i = ttlKey e' c' i' \<longleftrightarrow> e = e' \<and> c = c' \<and> i = i'"
proof
  assume "ttlKey e c i = ttlKey e' c' i'"
  then have eq: "fmt_020d e @ CHR ''|'' # (c @ CHR ''|'' # i) = fmt_020d e' @ CHR ''|'' # (c' @ CHR ''|'' # i')"
    by (simp add: ttlKey_def)
  have "fmt_020d e = fmt_020d e' \<and> c @ CHR ''|'' # i = c' @ CHR ''|'' # i'"
    by (rule append_sep_inject [OF eq]) (use assms fmt_nosep in auto)
  then show "e = e' \<and> c = c' \<and> i = i'"
    using assms fmt_020d_inject append_sep_inject [of c "CHR ''|''" i c' i'] by simp
qed simp

lemma append_less_same_length:
  "length a = length b \<Longrightarrow> (a @ x < b @ y) \<longleftrightarrow> (a < b \<or> a = b \<and> x < (y :: bytes))"
  by (induction a b rule: list_induct2) auto

text \<open>A collection name never starts with the byte that the threshold uses.\<close>

definition plain_name :: "bytes \<Rightarrow> bool" where
  "plain_name c \<longleftrightarrow> nosep c \<and> (c \<noteq> [] \<longrightarrow> hd c \<noteq> CHR 0xFF)"

lemma char_less_FF: "c \<noteq> CHR 0xFF \<Longrightarrow> c < CHR 0xFF"
proof -
  assume "c \<noteq> CHR 0xFF"
  then have "(of_char c :: nat) \<noteq> of_char (CHR 0xFF)" by (simp only: of_char_eq_iff not_False_eq_True)
  moreover have "(of_char c :: nat) < 256" by simp
  moreover have "(of_char (CHR 0xFF) :: nat) = 255" by simp
  ultimately show ?thesis unfolding less_char_def by linarith
qed

lemma ttlKey_due:
  assumes "plain_name c" and "0 \<le> e" "e < 2 ^ 63" "0 \<le> now" "now < 2 ^ 63"
  shows "ttlKey e c i < ttlKey now [CHR 0xFF] [CHR 0xFF] \<longleftrightarrow> e \<le> now"
proof -
  have "''|'' @ c @ ''|'' @ i < ''|'' @ [CHR 0xFF] @ ''|'' @ [CHR 0xFF]"
    using assms(1) char_less_FF [of "hd c"] by (cases c) (auto simp: plain_name_def less_char_def)
  then show ?thesis
    unfolding ttlKey_def
    using assms append_less_same_length [of "fmt_020d e" "fmt_020d now"]
    by (auto simp: length_fmt_020d fmt_020d_less_iff fmt_020d_inject)
qed

subsection \<open>The two buckets represent a map\<close>

type_synonym expiries = "bytes \<times> bytes \<rightharpoonup> int"

definition ttl_rep :: "contents \<Rightarrow> expiries \<Rightarrow> bool" where
  "ttl_rep c A \<longleftrightarrow>
     (\<forall>coll i e. A (coll, i) = Some e \<longrightarrow> nosep coll \<and> 0 < e \<and> e < 2 ^ 63) \<and>
     (\<forall>rk v. c ''ttlrev'' rk = Some v \<longleftrightarrow>
        (\<exists>coll i e. A (coll, i) = Some e \<and> rk = ttlRevKey coll i \<and> v = be64 (word_of_int e))) \<and>
     (\<forall>k. c ''ttl'' k \<noteq> None \<longleftrightarrow> (\<exists>coll i e. A (coll, i) = Some e \<and> k = ttlKey e coll i))"

lemma ttl_repI:
  assumes "\<And>coll i e. A (coll, i) = Some e \<Longrightarrow> nosep coll \<and> 0 < e \<and> e < 2 ^ 63"
    and "\<And>rk v. c ''ttlrev'' rk = Some v \<longleftrightarrow>
        (\<exists>coll i e. A (coll, i) = Some e \<and> rk = ttlRevKey coll i \<and> v = be64 (word_of_int e))"
    and "\<And>k. c ''ttl'' k \<noteq> None \<longleftrightarrow> (\<exists>coll i e. A (coll, i) = Some e \<and> k = ttlKey e coll i)"
  shows "ttl_rep c A"
  unfolding ttl_rep_def using assms by blast

lemma ttl_rep_named: "ttl_rep c A \<Longrightarrow> A (coll, i) = Some e \<Longrightarrow> nosep coll \<and> 0 < e \<and> e < 2 ^ 63"
  and ttl_rep_rev: "ttl_rep c A \<Longrightarrow> c ''ttlrev'' rk = Some v \<longleftrightarrow>
        (\<exists>coll i e. A (coll, i) = Some e \<and> rk = ttlRevKey coll i \<and> v = be64 (word_of_int e))"
  and ttl_rep_fwd: "ttl_rep c A \<Longrightarrow> c ''ttl'' k \<noteq> None \<longleftrightarrow> (\<exists>coll i e. A (coll, i) = Some e \<and> k = ttlKey e coll i)"
  unfolding ttl_rep_def by blast+

lemma ttl_rep_lookup:
  assumes "ttl_rep c A" and "nosep coll"
  shows "c ''ttlrev'' (ttlRevKey coll i) = map_option (\<lambda>e. be64 (word_of_int e)) (A (coll, i))"
proof (cases "c ''ttlrev'' (ttlRevKey coll i)")
  case None
  then have "A (coll, i) = None" using ttl_rep_rev [OF assms(1), of "ttlRevKey coll i"] by (cases "A (coll, i)") auto
  with None show ?thesis by simp
next
  case (Some v)
  then obtain coll' i' e where a: "A (coll', i') = Some e" "ttlRevKey coll i = ttlRevKey coll' i'" "v = be64 (word_of_int e)"
    using ttl_rep_rev [OF assms(1)] by blast
  have "nosep coll'" using ttl_rep_named [OF assms(1) a(1)] by simp
  then have "coll' = coll" "i' = i" using ttlRevKey_inject [OF assms(2), of coll' i i'] a(2) by simp_all
  with a Some show ?thesis by simp
qed

lemma ttl_rep_cong: "c ''ttl'' = c' ''ttl'' \<Longrightarrow> c ''ttlrev'' = c' ''ttlrev'' \<Longrightarrow> ttl_rep c A \<longleftrightarrow> ttl_rep c' A"
  by (simp add: ttl_rep_def)

lemma sint_expiry: "0 < e \<Longrightarrow> e < 2 ^ 63 \<Longrightarrow> sint (get_be64 (be64 (word_of_int e))) = e"
  using get_be64_be64 [of "word_of_int e" "[]"] wrap64_id [of e] by (simp add: wrap64_def)

text \<open>What a transaction of the manager records, read off the map.\<close>

definition old_ops :: "expiries \<Rightarrow> bytes \<Rightarrow> bytes \<Rightarrow> BinlogOps" where
  "old_ops A coll i = (case A (coll, i) of None \<Rightarrow> [] | Some e \<Rightarrow> [del_op ''ttl'' (ttlKey e coll i)])"

definition ttl_ops :: "expiries \<Rightarrow> bytes \<Rightarrow> bytes \<Rightarrow> int \<Rightarrow> BinlogOps" where
  "ttl_ops A coll i e = old_ops A coll i @
     (if e \<le> 0 then [del_op ''ttlrev'' (ttlRevKey coll i)]
      else [put_op ''ttl'' [] (ttlKey e coll i), put_op ''ttlrev'' (be64 (word_of_int e)) (ttlRevKey coll i)])"

lemma forget_old_runs:
  assumes B: "bolt_laws B cont" and rep: "ttl_rep (cont (fst s)) A" and coll: "nosep coll"
  obtains s1 where "forget_old B coll i s = Inr s1" "runs cont (old_ops A coll i) s s1"
proof (cases "A (coll, i)")
  case None
  then have "forget_old B coll i s = Inr s"
    using ttl_rep_lookup [OF rep coll, of i] bolt_laws.get_law [OF B] by (simp add: forget_old_def)
  with None show ?thesis by (intro that [of s]) (simp_all add: old_ops_def runs_refl)
next
  case (Some e)
  then have "forget_old B coll i s = Inr (del_quiet B ''ttl'' (ttlKey e coll i) s)"
    using ttl_rep_lookup [OF rep coll, of i] bolt_laws.get_law [OF B] sint_expiry ttl_rep_named [OF rep Some]
    by (simp add: forget_old_def)
  with Some show ?thesis using del_quiet_runs [OF B] by (intro that [of "del_quiet B ''ttl'' (ttlKey e coll i) s"]) (simp_all add: old_ops_def)
qed

lemma replay_ttl_ops:
  "replay (ttl_ops A coll i e) c b k =
     (if b = ''ttl'' then
        if 0 < e \<and> k = ttlKey e coll i then Some []
        else if \<exists>e0. A (coll, i) = Some e0 \<and> k = ttlKey e0 coll i then None else c b k
      else if b = ''ttlrev'' \<and> k = ttlRevKey coll i then (if 0 < e then Some (be64 (word_of_int e)) else None)
      else c b k)"
  by (cases "A (coll, i)") (auto simp: ttl_ops_def old_ops_def store_simps)

definition set_expiry :: "expiries \<Rightarrow> bytes \<Rightarrow> bytes \<Rightarrow> int \<Rightarrow> expiries" where
  "set_expiry A coll i e = A((coll, i) := (if 0 < e then Some e else None))"

lemma set_expiry_iff:
  "set_expiry A coll i e (coll', i') = Some e' \<longleftrightarrow>
     (if coll' = coll \<and> i' = i then 0 < e \<and> e' = e else A (coll', i') = Some e')"
  by (auto simp: set_expiry_def)

lemma ttl_rep_set:
  assumes rep: "ttl_rep c A" and coll: "nosep coll" and e: "e < 2 ^ 63"
  shows "ttl_rep (replay (ttl_ops A coll i e) c) (set_expiry A coll i e)"
proof (rule ttl_repI)
  show "nosep coll' \<and> 0 < e' \<and> e' < 2 ^ 63" if "set_expiry A coll i e (coll', i') = Some e'" for coll' i' e'
    using that ttl_rep_named [OF rep, of coll' i' e'] coll e unfolding set_expiry_iff by (auto split: if_splits)
next
  fix rk v
  have inj: "ttlRevKey coll i = ttlRevKey coll' i' \<longleftrightarrow> coll' = coll \<and> i' = i" if "A (coll', i') = Some e'" for coll' i' e'
    using ttlRevKey_inject [OF coll, of coll' i i'] ttl_rep_named [OF rep that] by auto
  show "replay (ttl_ops A coll i e) c ''ttlrev'' rk = Some v \<longleftrightarrow>
      (\<exists>coll' i' e'. set_expiry A coll i e (coll', i') = Some e' \<and> rk = ttlRevKey coll' i' \<and> v = be64 (word_of_int e'))"
  proof (cases "rk = ttlRevKey coll i")
    case True
    have "(\<exists>coll' i' e'. set_expiry A coll i e (coll', i') = Some e' \<and> rk = ttlRevKey coll' i' \<and> v = be64 (word_of_int e'))
        \<longleftrightarrow> 0 < e \<and> v = be64 (word_of_int e)"
      unfolding set_expiry_iff True using inj by metis
    with True show ?thesis by (auto simp: replay_ttl_ops)
  next
    case False
    then have "(\<exists>coll' i' e'. set_expiry A coll i e (coll', i') = Some e' \<and> rk = ttlRevKey coll' i' \<and> v = be64 (word_of_int e'))
        \<longleftrightarrow> (\<exists>coll' i' e'. A (coll', i') = Some e' \<and> rk = ttlRevKey coll' i' \<and> v = be64 (word_of_int e'))"
      unfolding set_expiry_iff by metis
    with False show ?thesis using ttl_rep_rev [OF rep, of rk v] by (simp add: replay_ttl_ops)
  qed
next
  fix k
  have inj: "ttlKey e0 coll i \<noteq> ttlKey e' coll' i'" if "A (coll, i) = Some e0" "A (coll', i') = Some e'" "\<not> (coll' = coll \<and> i' = i)"
    for coll' i' e' e0
    using ttlKey_inject [OF coll, of coll' e0 e' i i'] ttl_rep_named [OF rep that(1)] ttl_rep_named [OF rep that(2)] that(3) by auto
  have "replay (ttl_ops A coll i e) c ''ttl'' k \<noteq> None \<longleftrightarrow>
      (0 < e \<and> k = ttlKey e coll i) \<or> (c ''ttl'' k \<noteq> None \<and> \<not> (\<exists>e0. A (coll, i) = Some e0 \<and> k = ttlKey e0 coll i))"
    by (auto simp: replay_ttl_ops)
  also have "\<dots> \<longleftrightarrow> (0 < e \<and> k = ttlKey e coll i) \<or>
      (\<exists>coll' i' e'. A (coll', i') = Some e' \<and> k = ttlKey e' coll' i' \<and> \<not> (coll' = coll \<and> i' = i))"
    unfolding ttl_rep_fwd [OF rep] using inj by metis
  also have "\<dots> \<longleftrightarrow> (\<exists>coll' i' e'. set_expiry A coll i e (coll', i') = Some e' \<and> k = ttlKey e' coll' i')"
    unfolding set_expiry_iff by metis
  finally show "replay (ttl_ops A coll i e) c ''ttl'' k \<noteq> None \<longleftrightarrow>
      (\<exists>coll' i' e'. set_expiry A coll i e (coll', i') = Some e' \<and> k = ttlKey e' coll' i')" .
qed

subsection \<open>Set and Remove refine the update of the map\<close>

lemma ttl_set_txn_runs:
  assumes B: "bolt_laws B cont" and rep: "ttl_rep (cont tx) A" and coll: "nosep coll"
    and set: "ttl_set_txn B coll i e tx = Inr (tx', bo)"
  shows "runs cont (ttl_ops A coll i e) (tx, []) (tx', bo)"
proof -
  obtain s1 where s1: "forget_old B coll i (tx, []) = Inr s1" "runs cont (old_ops A coll i) (tx, []) s1"
    using forget_old_runs [of B cont "(tx, [])" A coll i] B rep coll by auto
  note S = set [unfolded ttl_set_txn_def s1(1) sum.case]
  show ?thesis
  proof (cases "e \<le> 0")
    case True
    with S have "del_log B ''ttlrev'' (ttlRevKey coll i) s1 = Inr (tx', bo)" by simp
    from runs_trans [OF s1(2) del_log_runs [OF B this]] True show ?thesis by (simp add: ttl_ops_def)
  next
    case False
    with S obtain s2 where s2: "put_log B ''ttl'' (ttlKey e coll i) [] s1 = Inr s2"
      "put_log B ''ttlrev'' (ttlRevKey coll i) (be64 (word_of_int e)) s2 = Inr (tx', bo)"
      by (auto split: sum.splits)
    from runs_trans [OF s1(2) runs_trans [OF put_log_runs [OF B s2(1)] put_log_runs [OF B s2(2)]]] False
    show ?thesis by (simp add: ttl_ops_def)
  qed
qed

lemma ttl_remove_is_set: "ttl_remove_txn B coll i tx = ttl_set_txn B coll i 0 tx"
  by (simp add: ttl_remove_txn_def ttl_set_txn_def split: sum.split)

lemma ttl_commit_None:
  assumes "bolt_laws B cont" and "ttl_commit B ck fn s = (s', None)"
  obtains tx' bo where "fn (sv_db s) = Inr (tx', bo)" "cont (sv_db s') = cont tx'"
    "sv_binlog s' = FlushTo (ck_binlog ck) (ck_io ck) bo (sv_binlog s)"
  using assms(2) bolt_laws.commit_law [OF assms(1)] that
  by (auto simp: ttl_commit_def DBUpdate_Inr split: prod.splits sum.splits)

lemma ttl_commit_Some: "ttl_commit B ck fn s = (s', Some err) \<Longrightarrow> s' = s"
  by (auto simp: ttl_commit_def split: prod.splits sum.splits dest!: DBUpdate_Inl)

lemma ttl_Set_None:
  assumes B: "bolt_laws B cont" and rep: "ttl_rep (cont (sv_db s)) A" and coll: "nosep coll" and e: "e < 2 ^ 63"
    and set: "ttl_Set B ck coll i e s = (s', None)"
  shows "ttl_rep (cont (sv_db s')) (set_expiry A coll i e) \<and>
     cont (sv_db s') = replay (ttl_ops A coll i e) (cont (sv_db s)) \<and>
     sv_binlog s' = FlushTo (ck_binlog ck) (ck_io ck) (ttl_ops A coll i e) (sv_binlog s)"
proof -
  obtain tx' bo where tx: "ttl_set_txn B coll i e (sv_db s) = Inr (tx', bo)" "cont (sv_db s') = cont tx'"
    "sv_binlog s' = FlushTo (ck_binlog ck) (ck_io ck) bo (sv_binlog s)"
    using ttl_commit_None [OF B set [unfolded ttl_Set_def]] by metis
  from ttl_set_txn_runs [OF B rep coll tx(1)] tx(2,3) ttl_rep_set [OF rep coll e, of i] show ?thesis
    by (simp add: runs_def)
qed

lemma ttl_Remove_is_Set: "ttl_Remove B ck coll i s = ttl_Set B ck coll i 0 s"
  by (simp add: ttl_Remove_def ttl_Set_def ttl_remove_is_set [abs_def])

subsection \<open>What the scan finds\<close>

lemma set_takeWhile_sorted:
  "sorted_wrt (<) (xs :: bytes list) \<Longrightarrow> set (takeWhile (\<lambda>k. k < t) xs) = {k \<in> set xs. k < t}"
  by (induction xs) (auto dest: order.strict_trans)

definition due :: "expiries \<Rightarrow> int \<Rightarrow> bytes \<Rightarrow> bytes \<Rightarrow> bool" where
  "due A now coll i \<longleftrightarrow> (\<exists>e. A (coll, i) = Some e \<and> e \<le> now)"

definition plain_names :: "expiries \<Rightarrow> bool" where
  "plain_names A \<longleftrightarrow> (\<forall>coll i e. A (coll, i) = Some e \<longrightarrow> plain_name coll)"

lemma due_keys_set:
  assumes B: "bolt_laws B cont" and rep: "ttl_rep (cont tx) A" and names: "plain_names A" and now: "0 \<le> now" "now < 2 ^ 63"
  shows "set (due_keys B now tx) = {k. \<exists>coll i e. A (coll, i) = Some e \<and> e \<le> now \<and> k = ttlKey e coll i}"
proof -
  have "set (due_keys B now tx) = {k. cont tx ''ttl'' k \<noteq> None \<and> k < ttlKey now [CHR 0xFF] [CHR 0xFF]}"
    unfolding due_keys_def set_takeWhile_sorted [OF bolt_laws.scan_sorted [OF B]] bolt_laws.scan_keys [OF B] by auto
  also have "\<dots> = {k. \<exists>coll i e. A (coll, i) = Some e \<and> e \<le> now \<and> k = ttlKey e coll i}"
  proof -
    have lt: "ttlKey e coll i < ttlKey now [CHR 0xFF] [CHR 0xFF] \<longleftrightarrow> e \<le> now" if "A (coll, i) = Some e" for coll i e
      using ttlKey_due [of coll e now i] names that ttl_rep_named [OF rep that] now by (auto simp: plain_names_def)
    show ?thesis unfolding ttl_rep_fwd [OF rep] by (auto simp: lt) blast
  qed
  finally show ?thesis .
qed

lemma split_ttlKey: "nosep coll \<Longrightarrow> 0 \<le> e \<Longrightarrow> SplitN 3 (CHR ''|'') (ttlKey e coll i) = [fmt_020d e, coll, i]"
  unfolding ttlKey_def by (intro SplitN3_join fmt_nosep) auto

text \<open>The keys the scan goes through, and what it makes of them.\<close>

definition names_key :: "bytes \<Rightarrow> bytes \<Rightarrow> bytes \<Rightarrow> bool" where
  "names_key k coll i \<longleftrightarrow> (\<exists>x. SplitN 3 (CHR ''|'') k = [x, coll, i])"

definition found :: "('tx, 'p) env \<Rightarrow> contents \<Rightarrow> (bytes \<Rightarrow> bytes \<Rightarrow> bool) \<Rightarrow> (bytes \<times> bytes \<times> bytes) set" where
  "found E c P = {(coll, DKey d, Lang d) | coll i d. P coll i \<and> (\<exists>v. c ''docs'' (DocKey coll i) = Some v \<and> e_load E v = Ok d)}"

lemma found_Un: "found E c (\<lambda>x y. P x y \<or> Q x y) = found E c P \<union> found E c Q"
  unfolding found_def by blast

lemma scan_keys_set:
  assumes "bolt_laws (e_bolt E) cont"
  shows "scan_keys E tx ks = Some L \<Longrightarrow> set L = found E (cont tx) (\<lambda>coll i. \<exists>k \<in> set ks. names_key k coll i)"
proof (induction ks arbitrary: L)
  case Nil
  then show ?case by (simp add: found_def)
next
  case (Cons k ks)
  obtain L' where L': "scan_keys E tx ks = Some L'" "set L = found E (cont tx) (names_key k) \<union> set L'"
  proof (cases "\<exists>coll i. names_key k coll i")
    case False
    then have "scan_keys E tx (k # ks) = scan_keys E tx ks"
      by (auto simp: names_key_def split: list.splits)
    moreover have "found E (cont tx) (names_key k) = {}" using False by (auto simp: found_def)
    ultimately show ?thesis using Cons.prems by (intro that [of L]) simp_all
  next
    case True
    then obtain x coll i where x: "SplitN 3 (CHR ''|'') k = [x, coll, i]" by (auto simp: names_key_def)
    then have nk: "names_key k coll' i' \<longleftrightarrow> coll' = coll \<and> i' = i" for coll' i' by (auto simp: names_key_def)
    have "found E (cont tx) (names_key k) =
        {(coll, DKey d, Lang d) | d. \<exists>v. cont tx ''docs'' (DocKey coll i) = Some v \<and> e_load E v = Ok d}"
      unfolding found_def nk by auto
    with Cons.prems x show ?thesis
      by (auto simp: bolt_laws.get_law [OF assms] split: option.splits outcome.splits intro: that)
  qed
  have "(\<lambda>coll i. \<exists>k \<in> set (k # ks). names_key k coll i) = (\<lambda>coll i. names_key k coll i \<or> (\<exists>k \<in> set ks. names_key k coll i))"
    by (simp add: fun_eq_iff)
  then show ?case using L' Cons.IH [OF L'(1)] by (simp only: found_Un)
qed

lemma scan_keys_total: "\<forall>v. e_load E v \<noteq> Panic \<Longrightarrow> scan_keys E tx ks \<noteq> None"
  by (induction ks) (auto split: list.splits option.splits outcome.splits)

lemma scan_due_set:
  assumes B: "bolt_laws (e_bolt E) cont" and rep: "ttl_rep (cont tx) A" and names: "plain_names A"
    and now: "0 \<le> now" "now < 2 ^ 63" and L: "scan_due E now tx = Some L"
  shows "set L = {(coll, DKey d, Lang d) | coll i d. due A now coll i \<and> doc_at (e_load E) (cont tx) coll i d}"
proof -
  have keys: "(\<exists>k \<in> set (due_keys (e_bolt E) now tx). names_key k coll i) \<longleftrightarrow> due A now coll i" for coll i
  proof -
    have "names_key (ttlKey e coll' i') coll i \<longleftrightarrow> coll' = coll \<and> i' = i" if "A (coll', i') = Some e" for coll' i' e
      using split_ttlKey [of coll' e i'] ttl_rep_named [OF rep that] by (auto simp: names_key_def)
    then show ?thesis unfolding due_keys_set [OF B rep names now] due_def by blast
  qed
  have "nosep coll" if "due A now coll i" for coll i
    using that ttl_rep_named [OF rep] by (auto simp: due_def)
  then show ?thesis
    unfolding scan_keys_set [OF B L [unfolded scan_due_def]] keys doc_at_def found_def by blast
qed

subsection \<open>What the clean-up does\<close>

lemma delete_txn_ok:
  assumes B: "bolt_laws (e_bolt E) cont"
    and v: "cont tx ''docs'' (DocKey coll (genID [coll, key, lang])) = Some v" "e_load E v = Ok d"
  shows "\<exists>tx' bo. delete_txn E coll key lang tx = Inr (tx', (d, bo))"
proof -
  let ?i = "genID [coll, key, lang]"
  have del: "\<exists>s'. del_log (e_bolt E) b k s = Inr s'" for b k s
    using del_all_ok [OF B, of b "[k]" s] by (auto split: sum.splits)
  obtain s1 where s1: "del_log (e_bolt E) ''docs'' (DocKey coll ?i) (tx, []) = Inr s1" using del by blast
  obtain s2 where s2: "del_log (e_bolt E) ''bykey'' (ByKeyKey coll key lang) s1 = Inr s2" using del by blast
  obtain s3 where s3: "del_all (e_bolt E) ''rev'' (bk_walk (e_bolt E) ''rev'' (RevPrefix coll ?i) (fst s2)) s2 = Inr s3"
    using del_all_ok [OF B] by blast
  obtain s4 where s4: "del_all (e_bolt E) ''idxmeta'' (meta_keys coll (Meta d) ?i) s3 = Inr s4" using del_all_ok [OF B] by blast
  have "bk_get (e_bolt E) ''docs'' (DocKey coll ?i) tx = Some v" using v(1) bolt_laws.get_law [OF B] by simp
  with v(2) s1 s2 s3 s4 show ?thesis
    by (cases s4) (simp add: delete_txn_def Let_def del: genID.simps)
qed

lemma delete_bucket: "b \<notin> {''docs'', ''bykey'', ''rev'', ''idxmeta''} \<Longrightarrow>
    replay (delete_ops coll key lang walked doc) c b = c b"
  by (auto simp: delete_ops_def replay_dels store_simps Let_def fun_eq_iff)

lemma delete_none_contents:
  assumes B: "bolt_laws (e_bolt E) cont" and del: "deleteDocumentInternal E ck coll key lang s = (s', None)"
  shows "cont (sv_db s') ''docs'' k = (if k = DocKey coll (genID [coll, key, lang]) then None else cont (sv_db s) ''docs'' k)"
    and "cont (sv_db s') ''bykey'' k \<in> {None, cont (sv_db s) ''bykey'' k}"
    and "cont (sv_db s') ''ttl'' = cont (sv_db s) ''ttl''" and "cont (sv_db s') ''ttlrev'' = cont (sv_db s) ''ttlrev''"
proof -
  obtain tx' doc bo where t: "delete_txn E coll key lang (sv_db s) = Inr (tx', (doc, bo))" "cont (sv_db s') = cont tx'"
    using deleteDocumentInternal_None [OF B del] by metis
  obtain w where w: "cont (sv_db s') = replay (delete_ops coll key lang w doc) (cont (sv_db s))"
    using delete_txn_runs [OF B t(1)] t(2) by metis
  show "cont (sv_db s') ''docs'' k = (if k = DocKey coll (genID [coll, key, lang]) then None else cont (sv_db s) ''docs'' k)"
    unfolding w by (rule delete_contents(1))
  show "cont (sv_db s') ''bykey'' k \<in> {None, cont (sv_db s) ''bykey'' k}"
    unfolding w delete_contents(2) by simp
  show "cont (sv_db s') ''ttl'' = cont (sv_db s) ''ttl''" "cont (sv_db s') ''ttlrev'' = cont (sv_db s) ''ttlrev''"
    unfolding w by (rule delete_bucket, simp)+
qed

lemma deleteDocumentInternal_ok:
  assumes B: "bolt_laws (e_bolt E) cont" and cm: "\<forall>tx. bk_commit (e_bolt E) tx \<noteq> None"
    and v: "cont (sv_db s) ''docs'' (DocKey coll (genID [coll, key, lang])) = Some v" "e_load E v = Ok d"
  obtains s' where "deleteDocumentInternal E ck coll key lang s = (s', None)"
proof -
  obtain tx' bo where t: "delete_txn E coll key lang (sv_db s) = Inr (tx', (d, bo))" using delete_txn_ok [OF B v] by blast
  obtain db where "bk_commit (e_bolt E) tx' = Some db" using cm by blast
  with t have "DBUpdate (e_bolt E) CommitError (delete_txn E coll key lang) (sv_db s) = (db, Inr (d, bo))"
    by (simp add: DBUpdate_def)
  then show ?thesis using that by (simp add: deleteDocumentInternal_def Let_def case_prod_beta del: genID.simps)
qed

lemma deleteDocumentInternal_absent:
  assumes "bolt_laws (e_bolt E) cont" and "cont (sv_db s) ''docs'' (DocKey coll (genID [coll, key, lang])) = None"
  shows "deleteDocumentInternal E ck coll key lang s = (s, Some DocNotFound)"
  using assms bolt_laws.get_law [OF assms(1)]
  by (simp add: deleteDocumentInternal_def DBUpdate_def delete_txn_def Let_def del: genID.simps)

lemma ttl_Remove_ok:
  assumes B: "bolt_laws B cont" and cm: "\<forall>tx. bk_commit B tx \<noteq> None"
    and rep: "ttl_rep (cont (sv_db s)) A" and coll: "nosep coll"
  obtains s' where "ttl_Remove B ck coll i s = (s', None)"
proof -
  have "ttl_rep (cont (fst (sv_db s, [] :: BinlogOps))) A" using rep by simp
  then obtain s1 where s1: "forget_old B coll i (sv_db s, []) = Inr s1" by (rule forget_old_runs [OF B _ coll])
  obtain s2 where s2: "del_all B ''ttlrev'' [ttlRevKey coll i] s1 = Inr s2" using del_all_ok [OF B] by blast
  then have "del_log B ''ttlrev'' (ttlRevKey coll i) s1 = Inr s2" by (auto split: sum.splits)
  with s1 have t: "ttl_remove_txn B coll i (sv_db s) = Inr (fst s2, snd s2)" by (simp add: ttl_remove_txn_def)
  obtain db where "bk_commit B (fst s2) = Some db" using cm by blast
  with t have "DBUpdate B CommitError (ttl_remove_txn B coll i) (sv_db s) = (db, Inr (snd s2))"
    by (simp add: DBUpdate_def case_prod_beta)
  then show ?thesis using that by (simp add: ttl_Remove_def ttl_commit_def)
qed

text \<open>The documents of a list of names, and the map without their entries.\<close>

definition ids_of :: "(bytes \<times> bytes \<times> bytes) list \<Rightarrow> (bytes \<times> bytes) set" where
  "ids_of L = {(coll, genID [coll, key, lang]) | coll key lang. (coll, key, lang) \<in> set L}"

lemma ids_of_simps [simp]:
  "ids_of [] = {}" "ids_of ((coll, key, lang) # L) = insert (coll, genID [coll, key, lang]) (ids_of L)"
  by (auto simp: ids_of_def)

definition present :: "contents \<Rightarrow> bytes \<times> bytes \<Rightarrow> bool" where
  "present c p \<longleftrightarrow> c ''docs'' (DocKey (fst p) (snd p)) \<noteq> None"

definition without :: "contents \<Rightarrow> (bytes \<times> bytes) set \<Rightarrow> expiries \<Rightarrow> expiries" where
  "without c P A = (\<lambda>p. if p \<in> P \<and> present c p then None else A p)"

text \<open>Every document of the list is readable or gone.\<close>

definition readable :: "('tx, 'p) env \<Rightarrow> contents \<Rightarrow> (bytes \<times> bytes) set \<Rightarrow> bool" where
  "readable E c P \<longleftrightarrow> (\<forall>(coll, i) \<in> P. nosep coll \<and>
     (\<forall>v. c ''docs'' (DocKey coll i) = Some v \<longrightarrow> (\<exists>d. e_load E v = Ok d)))"

lemma reap_spec:
  assumes B: "bolt_laws (e_bolt E) cont" and cm: "\<forall>tx. bk_commit (e_bolt E) tx \<noteq> None"
  shows "ttl_rep (cont (sv_db s)) A \<Longrightarrow> readable E (cont (sv_db s)) (ids_of L) \<Longrightarrow>
    \<exists>s'. reap E cks L s = Some s' \<and>
      (\<forall>coll i. nosep coll \<longrightarrow> cont (sv_db s') ''docs'' (DocKey coll i) =
         (if (coll, i) \<in> ids_of L then None else cont (sv_db s) ''docs'' (DocKey coll i))) \<and>
      (\<forall>k. cont (sv_db s') ''bykey'' k \<in> {None, cont (sv_db s) ''bykey'' k}) \<and>
      ttl_rep (cont (sv_db s')) (without (cont (sv_db s)) (ids_of L) A)"
proof (induction L arbitrary: s A cks)
  case Nil
  then show ?case by (simp add: without_def)
next
  case (Cons t L)
  obtain coll key lang where t: "t = (coll, key, lang)" by (cases t)
  let ?i = "genID [coll, key, lang]" and ?c = "cont (sv_db s)" and ?cks = "\<lambda>n. cks (Suc n)"
  have ids: "ids_of (t # L) = insert (coll, ?i) (ids_of L)" by (simp add: t del: genID.simps)
  have r: "readable E ?c (ids_of L)" and coll: "nosep coll"
    using Cons.prems(2) unfolding ids readable_def by auto
  show ?case
  proof (cases "?c ''docs'' (DocKey coll ?i)")
    case None
    with deleteDocumentInternal_absent [OF B] have "reap E cks (t # L) s = reap E ?cks L s"
      by (simp add: t del: genID.simps)
    moreover have "without ?c (ids_of (t # L)) A = without ?c (ids_of L) A"
      using None unfolding ids by (auto simp: without_def present_def fun_eq_iff simp del: genID.simps)
    moreover have "(if (coll', i') \<in> ids_of (t # L) then None else ?c ''docs'' (DocKey coll' i')) =
        (if (coll', i') \<in> ids_of L then None else ?c ''docs'' (DocKey coll' i'))" for coll' i'
      using None unfolding ids by (auto simp del: genID.simps)
    ultimately show ?thesis using Cons.IH [OF Cons.prems(1) r, of ?cks] by (simp only:)
  next
    case (Some v)
    then obtain d where d: "e_load E v = Ok d" using Cons.prems(2) unfolding ids readable_def by auto
    obtain s1 where s1: "deleteDocumentInternal E (cks 0) coll key lang s = (s1, None)"
      by (rule deleteDocumentInternal_ok [OF B cm Some d])
    note D = delete_none_contents [OF B s1]
    have rep1: "ttl_rep (cont (sv_db s1)) A" using ttl_rep_cong [of "cont (sv_db s1)" ?c A] D(3,4) Cons.prems(1) by simp
    obtain s2 where s2: "ttl_Remove (e_bolt E) (cks 0) coll ?i s1 = (s2, None)" by (rule ttl_Remove_ok [OF B cm rep1 coll])
    have set: "ttl_Set (e_bolt E) (cks 0) coll ?i 0 s1 = (s2, None)" using s2 unfolding ttl_Remove_is_Set .
    have e0: "(0 :: int) < 2 ^ 63" by simp
    note S = ttl_Set_None [OF B rep1 coll e0 set, THEN conjunct1] ttl_Set_None [OF B rep1 coll e0 set, THEN conjunct2, THEN conjunct1]
    have docs2: "cont (sv_db s2) ''docs'' k = (if k = DocKey coll ?i then None else ?c ''docs'' k)" for k
      unfolding S(2) replay_ttl_ops using D(1) by (simp del: genID.simps)
    have by2: "cont (sv_db s2) ''bykey'' k \<in> {None, ?c ''bykey'' k}" for k
      unfolding S(2) replay_ttl_ops using D(2) [of k] by (simp del: genID.simps)
    have r2: "readable E (cont (sv_db s2)) (ids_of L)" using r unfolding readable_def docs2 by auto
    have step: "reap E cks (t # L) s = reap E ?cks L s2" using s1 s2 by (simp add: t del: genID.simps)
    have docs: "(if (coll', i') \<in> ids_of L then None else cont (sv_db s2) ''docs'' (DocKey coll' i')) =
        (if (coll', i') \<in> ids_of (t # L) then None else ?c ''docs'' (DocKey coll' i'))" if "nosep coll'" for coll' i'
      unfolding docs2 ids using DocKey_inject [OF that coll, of i' ?i] by (auto simp del: genID.simps)
    have "without (cont (sv_db s2)) (ids_of L) (set_expiry A coll ?i 0) p = without ?c (ids_of (t # L)) A p" for p
    proof (cases "p = (coll, ?i)")
      case True
      then show ?thesis using Some unfolding ids by (simp add: without_def set_expiry_def present_def del: genID.simps)
    next
      case False
      then have p: "\<not> (fst p = coll \<and> snd p = ?i)" by (cases p) auto
      have "present (cont (sv_db s2)) p \<longleftrightarrow> present ?c p" if "p \<in> ids_of L"
      proof -
        have "nosep (fst p)" using r that unfolding readable_def by auto
        with DocKey_inject [OF this coll, of "snd p" ?i] p show ?thesis unfolding present_def docs2 by auto
      qed
      with False show ?thesis unfolding ids by (auto simp: without_def set_expiry_def simp del: genID.simps)
    qed
    then have wo: "without (cont (sv_db s2)) (ids_of L) (set_expiry A coll ?i 0) = without ?c (ids_of (t # L)) A" by (rule ext)
    obtain s' where s': "reap E ?cks L s2 = Some s'"
      "\<forall>coll i. nosep coll \<longrightarrow> cont (sv_db s') ''docs'' (DocKey coll i) =
         (if (coll, i) \<in> ids_of L then None else cont (sv_db s2) ''docs'' (DocKey coll i))"
      "\<forall>k. cont (sv_db s') ''bykey'' k \<in> {None, cont (sv_db s2) ''bykey'' k}"
      "ttl_rep (cont (sv_db s')) (without (cont (sv_db s2)) (ids_of L) (set_expiry A coll ?i 0))"
      using Cons.IH [OF S(1) r2, of ?cks] by blast
    have "cont (sv_db s') ''bykey'' k \<in> {None, ?c ''bykey'' k}" for k using by2 [of k] s'(3) by (metis insert_iff singletonD)
    then show ?thesis using s' docs unfolding step wo by simp
  qed
qed

text \<open>Documents are stored under the id of their own key and language.\<close>

definition docs_keyed :: "(bytes \<Rightarrow> (codec_error, Doc) outcome) \<Rightarrow> contents \<Rightarrow> bool" where
  "docs_keyed load c \<longleftrightarrow> (\<forall>coll i d. doc_at load c coll i d \<longrightarrow> i = genID [coll, DKey d, Lang d])"

lemma scan_due_ids:
  assumes B: "bolt_laws (e_bolt E) cont" and rep: "ttl_rep (cont tx) A" and names: "plain_names A"
    and now: "0 \<le> now" "now < 2 ^ 63" and keyed: "docs_keyed (e_load E) (cont tx)" and L: "scan_due E now tx = Some L"
  shows "(coll, i) \<in> ids_of L \<longleftrightarrow> due A now coll i \<and> (\<exists>d. doc_at (e_load E) (cont tx) coll i d)"
proof -
  note S = scan_due_set [OF B rep names now L]
  have "(coll, i) \<in> ids_of L \<longleftrightarrow> (\<exists>i' d. i = genID [coll, DKey d, Lang d] \<and> due A now coll i' \<and> doc_at (e_load E) (cont tx) coll i' d)"
    unfolding ids_of_def S by blast
  moreover have "i' = genID [coll, DKey d, Lang d]" if "doc_at (e_load E) (cont tx) coll i' d" for i' d
    using keyed that unfolding docs_keyed_def by blast
  ultimately show ?thesis by metis
qed

lemma scan_due_readable:
  assumes B: "bolt_laws (e_bolt E) cont" and rep: "ttl_rep (cont tx) A" and names: "plain_names A"
    and now: "0 \<le> now" "now < 2 ^ 63" and keyed: "docs_keyed (e_load E) (cont tx)" and L: "scan_due E now tx = Some L"
  shows "readable E (cont tx) (ids_of L)"
proof -
  have "nosep coll \<and> (\<forall>v. cont tx ''docs'' (DocKey coll i) = Some v \<longrightarrow> (\<exists>d. e_load E v = Ok d))" if L': "(coll, i) \<in> ids_of L" for coll i
  proof -
    obtain d where "doc_at (e_load E) (cont tx) coll i d"
      using L' unfolding scan_due_ids [OF B rep names now keyed L] by blast
    then show ?thesis by (auto simp: doc_at_def)
  qed
  then show ?thesis unfolding readable_def by blast
qed

lemma add_after:
  assumes B: "bolt_laws (e_bolt E) cont" and codec: "doc_codec (e_marshal E) (e_load E) (e_unmarshal E)"
    and add: "addDocument E ck coll key lang m contentMD ttl sr s = (s', Inr (saved, isNew))"
  obtains buf where "e_load E buf = Ok saved" "ID saved = genID [coll, key, lang]" "DKey saved = key" "Lang saved = lang"
    "ExpiresAt saved = (if ttl > 0 then wrap64 (ck_now ck + ttl) else 0)"
    "\<And>k. cont (sv_db s') ''docs'' k = (if k = DocKey coll (ID saved) then Some buf else cont (sv_db s) ''docs'' k)"
    "cont (sv_db s') ''bykey'' (ByKeyKey coll key lang) = Some (ID saved)"
    "cont (sv_db s') ''ttl'' = cont (sv_db s) ''ttl''" "cont (sv_db s') ''ttlrev'' = cont (sv_db s) ''ttlrev''"
    "coll \<noteq> []" "key \<noteq> []" "lang \<noteq> []"
proof -
  obtain tx' buf bo where ne: "coll \<noteq> []" "key \<noteq> []" "lang \<noteq> []"
    and t: "add_txn E (ck_now ck) coll key lang m contentMD ttl sr (sv_db s) = Inr (tx', (saved, isNew, buf, bo))"
    and c: "cont (sv_db s') = cont tx'" using addDocument_Inr [OF B add] by metis
  obtain existing where d: "saved = new_doc (ck_now ck) coll key lang m contentMD ttl existing"
    and buf: "e_marshal E saved coll = Ok buf"
    and bo: "bo = add_ops (e_maxRevisions E coll) (ck_now ck) coll key lang existing saved buf sr (cont (sv_db s))"
    and c': "cont tx' = replay bo (cont (sv_db s))" using add_txn_runs [OF B t] by metis
  have other: "cont (sv_db s') b = cont (sv_db s) b" if "b \<notin> {''docs'', ''bykey'', ''rev'', ''idxmeta''}" for b
    unfolding c c' bo add_ops_def
    using that by (auto simp: replay_idx_ops replay_rev_ops store_simps Let_def fun_eq_iff)
  show ?thesis
  proof (rule that)
    show "e_load E buf = Ok saved" by (rule doc_codec.load_marshal [OF codec buf])
    show "cont (sv_db s') ''docs'' k = (if k = DocKey coll (ID saved) then Some buf else cont (sv_db s) ''docs'' k)" for k
      unfolding c c' bo by (rule add_contents)
    show "cont (sv_db s') ''bykey'' (ByKeyKey coll key lang) = Some (ID saved)"
      unfolding c c' bo add_contents(2) by simp
  qed (use other ne in \<open>simp_all add: d new_doc_def del: genID.simps\<close>)
qed

lemma handleGet_stored:
  assumes "bolt_laws (e_bolt E) cont" and "coll \<noteq> []" "key \<noteq> []" "lang \<noteq> []"
    and "cont (sv_db s) ''bykey'' (ByKeyKey coll key lang) = Some i"
  shows "handleGet E t coll key lang s = (case cont (sv_db s) ''docs'' (DocKey coll i) of None \<Rightarrow> Inl GetNotFound
     | Some v \<Rightarrow> (case e_load E v of Err err \<Rightarrow> Inl (GetInternal err) | Panic \<Rightarrow> Inl GetPanic
        | Ok doc \<Rightarrow> if ExpiresAt doc > 0 \<and> ExpiresAt doc < t then Inl GetNotFound else Inr doc))"
  using assms bolt_laws.get_law [OF assms(1)] by (simp add: handleGet_def lookup_doc_def)

lemma handleGet_gone:
  assumes "bolt_laws (e_bolt E) cont" and "coll \<noteq> []" "key \<noteq> []" "lang \<noteq> []"
    and "cont (sv_db s) ''bykey'' (ByKeyKey coll key lang) \<in> {None, Some i}" and "cont (sv_db s) ''docs'' (DocKey coll i) = None"
  shows "handleGet E t coll key lang s = Inl GetNotFound"
  using assms bolt_laws.get_law [OF assms(1)] by (auto simp: handleGet_def lookup_doc_def)

subsection \<open>Properties\<close>

text \<open>C32: The two buckets of the manager always represent one map from documents to expiries, and
  its operations are the updates of that map: a successful \<open>Set\<close> sets the expiry (or removes it,
  for an expiry that is not positive), a successful \<open>Remove\<close> removes it, and no other entry
  changes; what is flushed to the binlog replays to the same store, and a failed operation changes
  nothing.\<close>

theorem ttl_refines_map:
  assumes "bolt_laws B cont" and "ttl_rep (cont (sv_db s)) A" and "nosep coll" and "e < 2 ^ 63"
  shows "(case ttl_Set B ck coll i e s of
       (s', None) \<Rightarrow> ttl_rep (cont (sv_db s')) (A((coll, i) := (if 0 < e then Some e else None))) \<and>
         (\<exists>bo. cont (sv_db s') = replay bo (cont (sv_db s)) \<and> sv_binlog s' = FlushTo (ck_binlog ck) (ck_io ck) bo (sv_binlog s))
     | (s', Some err) \<Rightarrow> s' = s) \<and>
     (case ttl_Remove B ck coll i s of
       (s', None) \<Rightarrow> ttl_rep (cont (sv_db s')) (A((coll, i) := None)) \<and>
         (\<exists>bo. cont (sv_db s') = replay bo (cont (sv_db s)) \<and> sv_binlog s' = FlushTo (ck_binlog ck) (ck_io ck) bo (sv_binlog s))
     | (s', Some err) \<Rightarrow> s' = s)"
proof -
  have set: "case ttl_Set B ck coll i e' s of
       (s', None) \<Rightarrow> ttl_rep (cont (sv_db s')) (set_expiry A coll i e') \<and>
         (\<exists>bo. cont (sv_db s') = replay bo (cont (sv_db s)) \<and> sv_binlog s' = FlushTo (ck_binlog ck) (ck_io ck) bo (sv_binlog s))
     | (s', Some err) \<Rightarrow> s' = s" if "e' < 2 ^ 63" for e'
  proof (cases "ttl_Set B ck coll i e' s")
    case (Pair s' r)
    then show ?thesis
      using ttl_Set_None [OF assms(1-3) that, of ck i s'] ttl_commit_Some [of B ck "ttl_set_txn B coll i e'" s s']
      by (cases r) (auto simp: ttl_Set_def)
  qed
  have z: "(0 :: int) < 2 ^ 63" by simp
  have se: "set_expiry A coll i 0 = A((coll, i) := None)" by (simp add: set_expiry_def)
  show ?thesis unfolding ttl_Remove_is_Set
    by (rule conjI [OF set [OF assms(4), unfolded set_expiry_def] set [OF z, unfolded se]])
qed

text \<open>C33: An undisturbed clean-up does exactly its job: when the documents can be read and commits
  succeed, it returns, every document whose expiry has come is gone together with its expiry, and
  every other document and every other expiry stays.\<close>

theorem cleanup_exact:
  assumes "bolt_laws (e_bolt E) cont" and "\<forall>tx. bk_commit (e_bolt E) tx \<noteq> None" and "\<forall>v. e_load E v \<noteq> Panic"
    and "ttl_rep (cont (sv_db s)) A" and "plain_names A" and "docs_keyed (e_load E) (cont (sv_db s))"
    and "0 \<le> now" and "now < 2 ^ 63"
  shows "\<exists>s'. cleanup E now cks s = Some s' \<and>
     (let gone = (\<lambda>coll i. (\<exists>e \<le> now. A (coll, i) = Some e) \<and> (\<exists>d. doc_at (e_load E) (cont (sv_db s)) coll i d))
      in (\<forall>coll i. nosep coll \<longrightarrow> cont (sv_db s') ''docs'' (DocKey coll i) =
            (if gone coll i then None else cont (sv_db s) ''docs'' (DocKey coll i))) \<and>
         ttl_rep (cont (sv_db s')) (\<lambda>(coll, i). if gone coll i then None else A (coll, i)))"
proof -
  obtain L where L: "scan_due E now (sv_db s) = Some L"
    using scan_keys_total [OF assms(3)] unfolding scan_due_def by blast
  note I = scan_due_ids [OF assms(1,4,5,7,8,6) L]
  obtain s' where s': "reap E cks L s = Some s'"
    "\<forall>coll i. nosep coll \<longrightarrow> cont (sv_db s') ''docs'' (DocKey coll i) =
       (if (coll, i) \<in> ids_of L then None else cont (sv_db s) ''docs'' (DocKey coll i))"
    "ttl_rep (cont (sv_db s')) (without (cont (sv_db s)) (ids_of L) A)"
    using reap_spec [OF assms(1,2,4) scan_due_readable [OF assms(1,4,5,7,8,6) L], of cks] by blast
  define gone where "gone = (\<lambda>coll i. (\<exists>e \<le> now. A (coll, i) = Some e) \<and> (\<exists>d. doc_at (e_load E) (cont (sv_db s)) coll i d))"
  have g: "(coll, i) \<in> ids_of L \<longleftrightarrow> gone coll i" for coll i
    unfolding I gone_def due_def by blast
  have "without (cont (sv_db s)) (ids_of L) A = (\<lambda>(coll, i). if gone coll i then None else A (coll, i))"
    by (auto simp: without_def g present_def fun_eq_iff) (auto simp: gone_def doc_at_def)
  with s' L g have "cleanup E now cks s = Some s' \<and>
      (\<forall>coll i. nosep coll \<longrightarrow> cont (sv_db s') ''docs'' (DocKey coll i) =
            (if gone coll i then None else cont (sv_db s) ''docs'' (DocKey coll i))) \<and>
      ttl_rep (cont (sv_db s')) (\<lambda>(coll, i). if gone coll i then None else A (coll, i))"
    by (simp add: cleanup_def)
  then show ?thesis unfolding gone_def Let_def by blast
qed

text \<open>The clean-up does not look at the document it deletes again: when a document found due is
  written anew with a later expiry before the loop comes to it, the write succeeds, its expiry is
  set, and the loop deletes it all the same.\<close>

theorem renewed_doc_deleted:
  assumes "bolt_laws (e_bolt E) cont" and "doc_codec (e_marshal E) (e_load E) (e_unmarshal E)"
    and "\<forall>tx. bk_commit (e_bolt E) tx \<noteq> None"
    and "ttl_rep (cont (sv_db s)) A" and "plain_names A" and "docs_keyed (e_load E) (cont (sv_db s))"
    and "0 \<le> now" and "now < 2 ^ 63" and "scan_due E now (sv_db s) = Some L" and "(coll, key, lang) \<in> set L"
    and "addDocument E ck coll key lang m contentMD ttl sr s = (s1, Inr (saved, isNew))" and "now < ExpiresAt saved"
    and "ExpiresAt saved < 2 ^ 63" and "ttl_Set (e_bolt E) ck' coll (ID saved) (ExpiresAt saved) s1 = (s2, None)"
  shows "handleGet E now coll key lang s2 = Inr saved \<and>
     (\<exists>s3. reap E cks L s2 = Some s3 \<and> (\<forall>t. handleGet E t coll key lang s3 = Inl GetNotFound))"
proof -
  let ?i = "genID [coll, key, lang]"
  obtain buf where add: "e_load E buf = Ok saved" "ID saved = ?i"
    "\<And>k. cont (sv_db s1) ''docs'' k = (if k = DocKey coll (ID saved) then Some buf else cont (sv_db s) ''docs'' k)"
    "cont (sv_db s1) ''bykey'' (ByKeyKey coll key lang) = Some (ID saved)"
    "cont (sv_db s1) ''ttl'' = cont (sv_db s) ''ttl''" "cont (sv_db s1) ''ttlrev'' = cont (sv_db s) ''ttlrev''"
    "coll \<noteq> []" "key \<noteq> []" "lang \<noteq> []"
    using add_after [OF assms(1,2,11)] by metis
  have mem: "(coll, ?i) \<in> ids_of L" using assms(10) unfolding ids_of_def by blast
  have readable: "readable E (cont (sv_db s)) (ids_of L)" by (rule scan_due_readable [OF assms(1,4,5,7,8,6,9)])
  then have coll: "nosep coll" using mem unfolding readable_def by auto
  have rep1: "ttl_rep (cont (sv_db s1)) A" using ttl_rep_cong [of "cont (sv_db s1)" "cont (sv_db s)" A] add(5,6) assms(4) by simp
  note S = ttl_Set_None [OF assms(1) rep1 coll assms(13,14)]
  have same: "cont (sv_db s2) b = cont (sv_db s1) b" if "b \<noteq> ''ttl''" "b \<noteq> ''ttlrev''" for b
    unfolding S [THEN conjunct2, THEN conjunct1] using that by (simp add: replay_ttl_ops fun_eq_iff)
  have docs2: "cont (sv_db s2) ''docs'' k = (if k = DocKey coll ?i then Some buf else cont (sv_db s) ''docs'' k)" for k
    using same [of "''docs''"] add(3) by (simp add: add(2) del: genID.simps)
  have by2: "cont (sv_db s2) ''bykey'' (ByKeyKey coll key lang) = Some ?i"
    using same [of "''bykey''"] add(4) by (simp add: add(2) del: genID.simps)
  have before: "handleGet E now coll key lang s2 = Inr saved"
    unfolding handleGet_stored [OF assms(1) add(7-9) by2] docs2 using add(1) assms(12) by (simp del: genID.simps)
  have "readable E (cont (sv_db s2)) (ids_of L)" using readable add(1) unfolding readable_def docs2 by auto
  with reap_spec [OF assms(1,3) S [THEN conjunct1], of L cks] coll mem obtain s3 where s3: "reap E cks L s2 = Some s3"
    "cont (sv_db s3) ''docs'' (DocKey coll ?i) = None" "cont (sv_db s3) ''bykey'' (ByKeyKey coll key lang) \<in> {None, Some ?i}"
    unfolding by2 [symmetric] by (metis (full_types))
  have "handleGet E t coll key lang s3 = Inl GetNotFound" for t
    by (rule handleGet_gone [OF assms(1) add(7-9) s3(3,2)])
  with before s3(1) show ?thesis by blast
qed

text \<open>A document keeps an expiry it no longer has: writing a document again without a time to
  live stores it with no expiry, but asks nothing of the manager, so the clean-up deletes it when
  the expiry of the earlier version comes.\<close>

theorem rewritten_doc_expires:
  assumes "bolt_laws (e_bolt E) cont" and "doc_codec (e_marshal E) (e_load E) (e_unmarshal E)"
    and "\<forall>tx. bk_commit (e_bolt E) tx \<noteq> None" and "\<forall>v. e_load E v \<noteq> Panic"
    and "ttl_rep (cont (sv_db s)) A" and "plain_names A" and "docs_keyed (e_load E) (cont (sv_db s))"
    and "addDocument E ck coll key lang m contentMD 0 sr s = (s1, Inr (saved, isNew))"
    and "A (coll, ID saved) = Some e" and "e \<le> now" and "now < 2 ^ 63"
  shows "ExpiresAt saved = 0 \<and> fold (ttl_effect (e_bolt E) ck) (drop (length (sv_effects s)) (sv_effects s1)) s1 = s1 \<and>
     (\<forall>t. handleGet E t coll key lang s1 = Inr saved) \<and>
     (\<exists>s2. cleanup E now cks s1 = Some s2 \<and> (\<forall>t. handleGet E t coll key lang s2 = Inl GetNotFound))"
proof -
  let ?i = "genID [coll, key, lang]"
  obtain buf where add: "e_load E buf = Ok saved" "ID saved = ?i" "DKey saved = key" "Lang saved = lang" "ExpiresAt saved = 0"
    "\<And>k. cont (sv_db s1) ''docs'' k = (if k = DocKey coll (ID saved) then Some buf else cont (sv_db s) ''docs'' k)"
    "cont (sv_db s1) ''bykey'' (ByKeyKey coll key lang) = Some (ID saved)"
    "cont (sv_db s1) ''ttl'' = cont (sv_db s) ''ttl''" "cont (sv_db s1) ''ttlrev'' = cont (sv_db s) ''ttlrev''"
    "coll \<noteq> []" "key \<noteq> []" "lang \<noteq> []"
    using add_after [OF assms(1,2,8)] by (metis less_irrefl)
  have coll: "nosep coll" and e: "0 < e" using ttl_rep_named [OF assms(5,9)] by simp_all
  have rep1: "ttl_rep (cont (sv_db s1)) A" using ttl_rep_cong [of "cont (sv_db s1)" "cont (sv_db s)" A] add(8,9) assms(5) by simp
  have at: "doc_at (e_load E) (cont (sv_db s1)) c i d \<longleftrightarrow>
      (if c = coll \<and> i = ?i then d = saved else doc_at (e_load E) (cont (sv_db s)) c i d)" for c i d
    using coll add(1) DocKey_inject [of c coll i ?i] unfolding doc_at_def add(6) add(2) by (auto simp del: genID.simps)
  have keyed1: "docs_keyed (e_load E) (cont (sv_db s1))"
    using assms(7) add(3,4) unfolding docs_keyed_def at by (metis (full_types))
  have now: "0 \<le> now" using e assms(10) by simp
  obtain L where L: "scan_due E now (sv_db s1) = Some L"
    using scan_keys_total [OF assms(4)] unfolding scan_due_def by blast
  have mem: "(coll, ?i) \<in> ids_of L"
    unfolding scan_due_ids [OF assms(1) rep1 assms(6) now assms(11) keyed1 L] at due_def
    using assms(9,10) add(2) by auto
  obtain s2 where s2: "reap E cks L s1 = Some s2" "cont (sv_db s2) ''docs'' (DocKey coll ?i) = None"
    "cont (sv_db s2) ''bykey'' (ByKeyKey coll key lang) \<in> {None, cont (sv_db s1) ''bykey'' (ByKeyKey coll key lang)}"
    using reap_spec [OF assms(1,3) rep1 scan_due_readable [OF assms(1) rep1 assms(6) now assms(11) keyed1 L], of cks] mem coll
    by metis
  have "fold (ttl_effect (e_bolt E) ck) effs s1 = s1" if "\<forall>eff \<in> set effs. ttl_effect (e_bolt E) ck eff s1 = s1" for effs
    using that by (induction effs) auto
  moreover have "sv_effects s1 = sv_effects s @ runPostWriteHooks E coll saved isNew"
    using addDocument_Inr [OF assms(1,8)] by metis
  moreover have "\<forall>eff \<in> set (runPostWriteHooks E coll saved isNew). ttl_effect (e_bolt E) ck eff s1 = s1"
    by (auto simp: runPostWriteHooks_def Let_def geo_hook_def add(5) split: option.splits if_splits)
  ultimately have "fold (ttl_effect (e_bolt E) ck) (drop (length (sv_effects s)) (sv_effects s1)) s1 = s1" by simp
  moreover have "handleGet E t coll key lang s1 = Inr saved" for t
    unfolding handleGet_stored [OF assms(1) add(10-12,7)] add(6) using add(1,5) by simp
  moreover have "handleGet E t coll key lang s2 = Inl GetNotFound" for t
    by (rule handleGet_gone [OF assms(1) add(10-12) _ s2(2)]) (use s2(3) add(2,7) in simp)
  moreover have "cleanup E now cks s1 = Some s2" using L s2(1) by (simp add: cleanup_def)
  ultimately show ?thesis using add(5) by blast
qed

subsection \<open>Witnesses\<close>

definition renewed_doc :: Doc where "renewed_doc = ref_doc\<lparr>UpdatedAt := 9, ExpiresAt := 109\<rparr>"

definition ttl_env :: "(mem_db, unit) env" where
  "ttl_env = (ref_env None)\<lparr>
     e_marshal := (\<lambda>d coll. if d = renewed_doc then Ok ''D'' else e_marshal (ref_env None) d coll),
     e_load := (\<lambda>b. if b = ''D'' then Ok renewed_doc else e_load (ref_env None) b),
     e_unmarshal := (\<lambda>b. if b = ''D'' then Ok renewed_doc else e_unmarshal (ref_env None) b)\<rparr>"

definition ttl_db :: mem_db where
  "ttl_db = [(''docs'', [(DocKey ''c'' ''c|k|en'', ''B'')]), (''ttl'', [(ttlKey 7 ''c'' ''c|k|en'', [])]),
     (''ttlrev'', [(ttlRevKey ''c'' ''c|k|en'', be64 (word_of_int 7))])]"

interpretation ttl_env: doc_codec "e_marshal ttl_env" "e_load ttl_env" "e_unmarshal ttl_env"
  by unfold_locales (auto simp: ttl_env_def ref_env_def ref_doc_def split: if_splits)

lemma ttl_env_simps: "e_bolt ttl_env = mem_bolt" "\<forall>tx. bk_commit (e_bolt ttl_env) tx \<noteq> None" "\<forall>v. e_load ttl_env v \<noteq> Panic"
  by (simp_all add: ttl_env_def ref_env_def mem_bolt_def)

lemma ttl_laws: "bolt_laws (e_bolt ttl_env) mem_contents"
  by (simp add: ttl_env_simps(1) mem.bolt_laws_axioms)

lemma ttl_db_rep: "ttl_rep (mem_contents ttl_db) [(''c'', ''c|k|en'') \<mapsto> 7]"
  by (rule ttl_repI) (auto simp: ttl_db_def mem_contents_def mem_bucket_def split: if_splits)

lemma ttl_db_plain: "plain_names [(''c'', ''c|k|en'') \<mapsto> (7 :: int)]"
  by (auto simp: plain_names_def plain_name_def split: if_splits)

lemma ttl_db_doc: "doc_at (e_load ttl_env) (mem_contents ttl_db) coll i d \<longleftrightarrow> coll = ''c'' \<and> i = ''c|k|en'' \<and> d = ref_doc"
  using DocKey_inject [of coll "''c''" i "''c|k|en''"]
  by (auto simp: doc_at_def ttl_db_def mem_contents_def mem_bucket_def ttl_env_def ref_env_def)

lemma ttl_db_keyed: "docs_keyed (e_load ttl_env) (mem_contents ttl_db)"
  unfolding docs_keyed_def ttl_db_doc by (simp add: ref_doc_def lower_byte_def)

theorem ttl_refines_map_witness:
  "ttl_rep (mem_contents (sv_db (fst (ttl_Remove mem_bolt (ref_clock 5) ''c'' ''c|k|en'' (ref_server None ttl_db)))))
     ([(''c'', ''c|k|en'') \<mapsto> 7](( ''c'', ''c|k|en'') := None))"
proof -
  have r: "ttl_rep (mem_contents (sv_db (ref_server None ttl_db))) [(''c'', ''c|k|en'') \<mapsto> 7]"
    using ttl_db_rep by (simp add: ref_server_def)
  have c: "nosep ''c''" "(9 :: int) < 2 ^ 63" by simp_all
  have cm: "\<forall>tx. bk_commit mem_bolt tx \<noteq> None" by (simp add: mem_bolt_def)
  obtain s' where s': "ttl_Remove mem_bolt (ref_clock 5) ''c'' ''c|k|en'' (ref_server None ttl_db) = (s', None)"
    by (rule ttl_Remove_ok [OF mem.bolt_laws_axioms cm r c(1)])
  from ttl_refines_map [OF mem.bolt_laws_axioms r c, where ck = "ref_clock 5" and i = "''c|k|en''"] show ?thesis
    unfolding s' by simp
qed

theorem cleanup_exact_witness:
  "\<exists>s'. cleanup ttl_env 9 (\<lambda>_. ref_clock 9) (ref_server None ttl_db) = Some s' \<and>
     mem_contents (sv_db s') ''docs'' (DocKey ''c'' ''c|k|en'') = None"
proof -
  have db: "sv_db (ref_server None ttl_db) = ttl_db" by (simp add: ref_server_def)
  have now: "(0 :: int) \<le> 9" "(9 :: int) < 2 ^ 63" by simp_all
  obtain s' where s': "cleanup ttl_env 9 (\<lambda>_. ref_clock 9) (ref_server None ttl_db) = Some s'"
    "let gone = (\<lambda>coll i. (\<exists>e \<le> 9. [(''c'', ''c|k|en'') \<mapsto> (7 :: int)] (coll, i) = Some e) \<and>
        (\<exists>d. doc_at (e_load ttl_env) (mem_contents ttl_db) coll i d))
      in (\<forall>coll i. nosep coll \<longrightarrow> mem_contents (sv_db s') ''docs'' (DocKey coll i) =
            (if gone coll i then None else mem_contents ttl_db ''docs'' (DocKey coll i))) \<and>
         ttl_rep (mem_contents (sv_db s')) (\<lambda>(coll, i). if gone coll i then None else [(''c'', ''c|k|en'') \<mapsto> 7] (coll, i))"
    using cleanup_exact [OF ttl_laws ttl_env_simps(2,3), where s = "ref_server None ttl_db" and now = 9, unfolded db,
        OF ttl_db_rep ttl_db_plain ttl_db_keyed now, of "\<lambda>_. ref_clock 9"] by blast
  then have "mem_contents (sv_db s') ''docs'' (DocKey ''c'' ''c|k|en'') = None"
    unfolding ttl_db_doc Let_def by simp
  with s'(1) show ?thesis by blast
qed

lemmas ttl_eval = ttl_env_def ttl_db_def renewed_doc_def ref_eval key_defs length_fmt_020d Let_def ttlKey_def ttlRevKey_def

theorem renewed_doc_deleted_witness:
  "\<exists>(s2 :: (mem_db, unit) server) s3. handleGet ttl_env 8 ''c'' ''k'' ''en'' s2 = Inr renewed_doc \<and>
     reap ttl_env (\<lambda>_. ref_clock 9) [(''c'', ''k'', ''en'')] s2 = Some s3 \<and>
     handleGet ttl_env 8 ''c'' ''k'' ''en'' s3 = Inl GetNotFound"
proof -
  have db: "sv_db (ref_server None ttl_db) = ttl_db" by (simp add: ref_server_def)
  have now: "(0 :: int) \<le> 8" "(8 :: int) < 2 ^ 63" by simp_all
  have "bk_scan mem_bolt ''ttl'' [] ttl_db = [(ttlKey 7 ''c'' ''c|k|en'', [])]"
    by (simp add: mem_bolt_def mem_keys_def mem_contents_def mem_bucket_def ttl_db_def)
  moreover have "ttlKey 7 ''c'' ''c|k|en'' < ttlKey 8 [CHR 0xFF] [CHR 0xFF]"
    using ttlKey_due [of "''c''" 7 8 "''c|k|en''"] by (simp add: plain_name_def)
  ultimately have "due_keys (e_bolt ttl_env) 8 ttl_db = [ttlKey 7 ''c'' ''c|k|en'']"
    by (simp add: due_keys_def ttl_env_simps)
  moreover have "SplitN 3 (CHR ''|'') (ttlKey 7 ''c'' ''c|k|en'') = [fmt_020d 7, ''c'', ''c|k|en'']"
    by (rule split_ttlKey) simp_all
  ultimately have scan: "scan_due ttl_env 8 ttl_db = Some [(''c'', ''k'', ''en'')]"
    by (simp add: scan_due_def ttl_env_def ref_env_def ttl_db_def mem_bolt_def mem_contents_def mem_bucket_def ref_doc_def)
  have mem: "(''c'', ''k'', ''en'') \<in> set [(''c'', ''k'', ''en'')]" by simp
  have "snd (addDocument ttl_env (ref_clock 9) ''c'' ''k'' ''en'' [] [] 100 False (ref_server None ttl_db)) = Inr (renewed_doc, False)"
    by (simp add: ttl_eval)
  then obtain s1 where s1: "addDocument ttl_env (ref_clock 9) ''c'' ''k'' ''en'' [] [] 100 False (ref_server None ttl_db) = (s1, Inr (renewed_doc, False))"
    by (metis prod.collapse)
  have e: "8 < ExpiresAt renewed_doc" "ExpiresAt renewed_doc < 2 ^ 63" by (simp_all add: renewed_doc_def)
  have "snd (ttl_Set (e_bolt ttl_env) (ref_clock 9) ''c'' (ID renewed_doc) (ExpiresAt renewed_doc) s1) = None"
    using s1 by (auto simp: ttl_Set_def ttl_commit_def ttl_set_txn_def forget_old_def del_quiet_def ttl_eval)
  then obtain s2 where s2: "ttl_Set (e_bolt ttl_env) (ref_clock 9) ''c'' (ID renewed_doc) (ExpiresAt renewed_doc) s1 = (s2, None)"
    by (metis prod.collapse)
  from renewed_doc_deleted [OF ttl_laws ttl_env.doc_codec_axioms ttl_env_simps(2), where s = "ref_server None ttl_db", unfolded db,
      OF ttl_db_rep ttl_db_plain ttl_db_keyed now scan mem s1 e s2, of "\<lambda>_. ref_clock 9"]
  show ?thesis by blast
qed

theorem rewritten_doc_expires_witness:
  "\<exists>(s1 :: (mem_db, unit) server) s2. handleGet ttl_env 9 ''c'' ''k'' ''en'' s1 = Inr (ref_doc\<lparr>UpdatedAt := 9\<rparr>) \<and>
     cleanup ttl_env 9 (\<lambda>_. ref_clock 9) s1 = Some s2 \<and> handleGet ttl_env 9 ''c'' ''k'' ''en'' s2 = Inl GetNotFound"
proof -
  have db: "sv_db (ref_server None ttl_db) = ttl_db" by (simp add: ref_server_def)
  have "snd (addDocument ttl_env (ref_clock 9) ''c'' ''k'' ''en'' [] [] 0 False (ref_server None ttl_db)) =
      Inr (ref_doc\<lparr>UpdatedAt := 9\<rparr>, False)"
    by (simp add: ttl_eval)
  then obtain s1 where s1: "addDocument ttl_env (ref_clock 9) ''c'' ''k'' ''en'' [] [] 0 False (ref_server None ttl_db) =
      (s1, Inr (ref_doc\<lparr>UpdatedAt := 9\<rparr>, False))"
    by (metis prod.collapse)
  have a: "[(''c'', ''c|k|en'') \<mapsto> (7 :: int)] (''c'', ID (ref_doc\<lparr>UpdatedAt := 9\<rparr>)) = Some 7" "(7 :: int) \<le> 9" "(9 :: int) < 2 ^ 63"
    by (simp_all add: ref_doc_def)
  from rewritten_doc_expires [OF ttl_laws ttl_env.doc_codec_axioms ttl_env_simps(2,3), where s = "ref_server None ttl_db", unfolded db,
      OF ttl_db_rep ttl_db_plain ttl_db_keyed s1 a, of "\<lambda>_. ref_clock 9"]
  show ?thesis by blast
qed

end
