(* ===== verification/Document_Update.thy ===== *)
theory Document_Update
  imports Document_Reads
begin

section \<open>Partial updates\<close>

text \<open>
  Models the updates of a stored document: \<^verbatim>\<open>handleUpdate\<close> of \<^verbatim>\<open>http_handlers_meta.go\<close>,
  \<^verbatim>\<open>UpdateDocument\<close> of \<^verbatim>\<open>grpc_metadata.go\<close> and of \<^verbatim>\<open>mcp_direct_metadata.go\<close>, and the
  three ways to set the time to live, \<^verbatim>\<open>handleSetTTL\<close> of \<^verbatim>\<open>ttl_handlers.go\<close> and
  \<^verbatim>\<open>SetTTL\<close> of \<^verbatim>\<open>grpc_search.go\<close> and \<^verbatim>\<open>mcp_direct_search.go\<close>.  The code repeats the
  same steps in each transport with small differences, and the differences are what the
  definitions show: which of them check the expiry, keep the metadata index, write and trim
  revisions, and log.  Decoding of the request and the permission check come before.
  A request is a \<open>patch\<close>; \<open>mdoc\<close> is \<^verbatim>\<open>marshalDoc\<close>, the encoding without encryption.
\<close>

record patch =
  p_meta :: "meta option"
  p_content :: "bytes option"
  p_ttl :: "int option"

datatype update_error = UpdateMissing | NoFields | UpdateSchema | UpdateFailed op_error

definition expiry_of :: "int \<Rightarrow> int \<Rightarrow> int" where
  "expiry_of now ttl = (if ttl > 0 then wrap64 (now + ttl) else 0)"

definition patched :: "int \<Rightarrow> patch \<Rightarrow> Doc \<Rightarrow> Doc" where
  "patched now p existing =
     (let d = existing\<lparr>UpdatedAt := now\<rparr>;
          d = (case p_meta p of None \<Rightarrow> d | Some m \<Rightarrow> d\<lparr>Meta := m\<rparr>);
          d = (case p_content p of None \<Rightarrow> d | Some c \<Rightarrow> d\<lparr>ContentMD := c\<rparr>)
      in case p_ttl p of None \<Rightarrow> d | Some t \<Rightarrow> d\<lparr>ExpiresAt := expiry_of now t\<rparr>)"

definition metaDidChange :: "patch \<Rightarrow> Doc \<Rightarrow> bool" where
  "metaDidChange p existing = (case p_meta p of None \<Rightarrow> False | Some m \<Rightarrow> metadataChanged (Meta existing) m)"

text \<open>The document to update, found by its key and language.\<close>

definition read_stored :: "('tx, 'p) env \<Rightarrow> bytes \<Rightarrow> bytes \<Rightarrow> bytes \<Rightarrow> 'tx \<Rightarrow> op_error + Doc" where
  "read_stored E coll key lang tx =
     (case lookup_doc (e_bolt E) coll key lang tx of None \<Rightarrow> Inl DocNotFound
      | Some v \<Rightarrow> (case e_load E v of Ok d \<Rightarrow> Inr d | Err err \<Rightarrow> Inl (LoadError err) | Panic \<Rightarrow> Inl OpPanic))"

definition marshal_doc :: "('tx, 'p) env \<Rightarrow> Doc \<Rightarrow> bytes \<Rightarrow> op_error + bytes" where
  "marshal_doc E doc coll =
     (case e_marshal E doc coll of Err err \<Rightarrow> Inl (MarshalError err) | Panic \<Rightarrow> Inl OpPanic | Ok buf \<Rightarrow> Inr buf)"

definition reindex :: "'tx bolt \<Rightarrow> bytes \<Rightarrow> Doc \<Rightarrow> Doc \<Rightarrow> 'tx logged \<Rightarrow> op_error + 'tx logged" where
  "reindex B coll existing doc s =
     put_all B ''idxmeta'' ''1'' (meta_keys coll (Meta doc) (ID doc))
       (fold (del_quiet B ''idxmeta'') (meta_keys coll (Meta existing) (ID doc)) s)"

subsection \<open>HTTP\<close>

definition http_update_txn :: "('tx, 'p) env \<Rightarrow> int \<Rightarrow> bytes \<Rightarrow> bytes \<Rightarrow> bytes \<Rightarrow> patch \<Rightarrow> 'tx \<Rightarrow>
    op_error + ('tx \<times> (Doc \<times> BinlogOps))" where
  "http_update_txn E now coll key lang p tx =
     (case read_stored E coll key lang tx of Inl err \<Rightarrow> Inl err
      | Inr existing \<Rightarrow>
        if ExpiresAt existing > 0 \<and> ExpiresAt existing < now then Inl DocNotFound
        else let doc = patched now p existing
        in (case marshal_doc E doc coll of Inl err \<Rightarrow> Inl err
        | Inr buf \<Rightarrow>
          (case put_log (e_bolt E) ''docs'' (DocKey coll (ID doc)) buf (tx, []) of Inl err \<Rightarrow> Inl err
           | Inr s1 \<Rightarrow>
             (case (if metaDidChange p existing then reindex (e_bolt E) coll existing doc s1 else Inr s1) of Inl err \<Rightarrow> Inl err
              | Inr s2 \<Rightarrow>
                (case write_revision E now coll doc buf s2 of Inl err \<Rightarrow> Inl err
                 | Inr (tx', bo) \<Rightarrow> Inr (tx', (doc, bo)))))))"

definition http_update_hooks :: "('tx, 'p) env \<Rightarrow> bytes \<Rightarrow> bytes \<Rightarrow> bytes \<Rightarrow> patch \<Rightarrow> Doc \<Rightarrow> 'p effect list" where
  "http_update_hooks E coll key lang p saved =
     (let i = ID saved; content = (p_content p \<noteq> None \<and> ContentMD saved \<noteq> [])
      in (if content \<and> e_embedding E then [EmbedEnqueue coll i (ContentMD saved)] else []) @
         (if e_ttl E then (if ExpiresAt saved > 0 then [TTLSet coll i (ExpiresAt saved)]
                           else if p_ttl p \<noteq> None then [TTLRemove coll i] else []) else []) @
         (if content \<and> e_fts E then
            [FTSIndex coll i (ContentMD saved) (Lang saved), FTSPositions coll i (ContentMD saved) (Lang saved),
             FTSFields coll i (fts_fields saved) (Lang saved)] else []) @
         geo_hook E coll saved False @
         (if e_webhooks E then [WebhookFire ''doc.updated'' coll key lang (Some saved)] else []) @
         (if e_triggers E then [Trigger coll saved ''update''] else []))"

definition no_fields :: "patch \<Rightarrow> bool" where
  "no_fields p \<longleftrightarrow> p_meta p = None \<and> p_content p = None \<and> p_ttl p = None"

definition schema_rejects :: "('tx, 'p) env \<Rightarrow> bytes \<Rightarrow> patch \<Rightarrow> bool" where
  "schema_rejects E coll p \<longleftrightarrow> (case p_meta p of None \<Rightarrow> False | Some m \<Rightarrow> \<not> e_validate E coll m)"

text \<open>A transaction whose operations are flushed to the binlog once it has committed.\<close>

definition logged_update :: "'tx bolt \<Rightarrow> clock \<Rightarrow> ('tx \<Rightarrow> op_error + ('tx \<times> (Doc \<times> BinlogOps))) \<Rightarrow>
    (Doc \<Rightarrow> 'p effect list) \<Rightarrow> ('tx, 'p) server \<Rightarrow> ('tx, 'p) server \<times> (update_error + Doc)" where
  "logged_update B ck fn hooks s =
     (case DBUpdate B CommitError fn (sv_db s) of
        (db, Inl err) \<Rightarrow> (s\<lparr>sv_db := db\<rparr>, Inl (UpdateFailed err))
      | (db, Inr (saved, bo)) \<Rightarrow>
          (s\<lparr>sv_db := db, sv_binlog := FlushTo (ck_binlog ck) (ck_io ck) bo (sv_binlog s),
             sv_effects := sv_effects s @ hooks saved\<rparr>, Inr saved))"

definition handleUpdate :: "('tx, 'p) env \<Rightarrow> clock \<Rightarrow> bytes \<Rightarrow> bytes \<Rightarrow> bytes \<Rightarrow> patch \<Rightarrow> ('tx, 'p) server \<Rightarrow>
    ('tx, 'p) server \<times> (update_error + Doc)" where
  "handleUpdate E ck coll key lang p s =
     (if coll = [] \<or> key = [] \<or> lang = [] then (s, Inl UpdateMissing)
      else if no_fields p then (s, Inl NoFields)
      else if schema_rejects E coll p then (s, Inl UpdateSchema)
      else logged_update (e_bolt E) ck (http_update_txn E (ck_now ck) coll key lang p) (http_update_hooks E coll key lang p) s)"

subsection \<open>gRPC\<close>

text \<open>No check of the expiry, and no trimming of the revisions.\<close>

definition grpc_update_txn :: "('tx, 'p) env \<Rightarrow> int \<Rightarrow> bytes \<Rightarrow> bytes \<Rightarrow> bytes \<Rightarrow> patch \<Rightarrow> 'tx \<Rightarrow>
    op_error + ('tx \<times> (Doc \<times> BinlogOps))" where
  "grpc_update_txn E now coll key lang p tx =
     (case read_stored E coll key lang tx of Inl err \<Rightarrow> Inl err
      | Inr existing \<Rightarrow>
        let doc = patched now p existing
        in (case marshal_doc E doc coll of Inl err \<Rightarrow> Inl err
        | Inr buf \<Rightarrow>
          (case put_log (e_bolt E) ''docs'' (DocKey coll (ID doc)) buf (tx, []) of Inl err \<Rightarrow> Inl err
           | Inr s1 \<Rightarrow>
             (case (if metaDidChange p existing then reindex (e_bolt E) coll existing doc s1 else Inr s1) of Inl err \<Rightarrow> Inl err
              | Inr s2 \<Rightarrow>
                (case put_log (e_bolt E) ''rev'' (RevPrefix coll (ID doc) @ fmt_020d now) buf s2 of Inl err \<Rightarrow> Inl err
                 | Inr (tx', bo) \<Rightarrow> Inr (tx', (doc, bo)))))))"

definition grpc_update_hooks :: "('tx, 'p) env \<Rightarrow> bytes \<Rightarrow> patch \<Rightarrow> Doc \<Rightarrow> 'p effect list" where
  "grpc_update_hooks E coll p saved =
     (let i = ID saved
      in (if p_content p \<noteq> None \<and> e_embedding E \<and> ContentMD saved \<noteq> [] then [EmbedEnqueue coll i (ContentMD saved)] else []) @
         (if e_ttl E then (if ExpiresAt saved > 0 then [TTLSet coll i (ExpiresAt saved)]
                           else if p_ttl p \<noteq> None then [TTLRemove coll i] else []) else []) @
         (if e_triggers E then [Trigger coll saved ''update''] else []))"

definition grpc_UpdateDocument :: "('tx, 'p) env \<Rightarrow> clock \<Rightarrow> bytes \<Rightarrow> bytes \<Rightarrow> bytes \<Rightarrow> patch \<Rightarrow> ('tx, 'p) server \<Rightarrow>
    ('tx, 'p) server \<times> (update_error + Doc)" where
  "grpc_UpdateDocument E ck coll key lang p s =
     (if coll = [] \<or> key = [] \<or> lang = [] then (s, Inl UpdateMissing)
      else if no_fields p then (s, Inl NoFields)
      else if schema_rejects E coll p then (s, Inl UpdateSchema)
      else logged_update (e_bolt E) ck (grpc_update_txn E (ck_now ck) coll key lang p) (grpc_update_hooks E coll p) s)"

subsection \<open>MCP\<close>

text \<open>Only the document is written: no schema check, index, revision, binlog or hook.\<close>

definition mcp_update_txn :: "('tx, 'p) env \<Rightarrow> int \<Rightarrow> bytes \<Rightarrow> bytes \<Rightarrow> bytes \<Rightarrow> patch \<Rightarrow> 'tx \<Rightarrow> op_error + ('tx \<times> Doc)" where
  "mcp_update_txn E now coll key lang p tx =
     (case read_stored E coll key lang tx of Inl err \<Rightarrow> Inl err
      | Inr existing \<Rightarrow>
        let doc = patched now p existing
        in (case marshal_doc E doc coll of Inl err \<Rightarrow> Inl err
        | Inr buf \<Rightarrow>
          (case bk_put (e_bolt E) ''docs'' (DocKey coll (ID doc)) buf tx of None \<Rightarrow> Inl PutError | Some tx' \<Rightarrow> Inr (tx', doc))))"

definition mcp_UpdateDocument :: "('tx, 'p) env \<Rightarrow> clock \<Rightarrow> bytes \<Rightarrow> bytes \<Rightarrow> bytes \<Rightarrow> patch \<Rightarrow> ('tx, 'p) server \<Rightarrow>
    ('tx, 'p) server \<times> (update_error + Doc)" where
  "mcp_UpdateDocument E ck coll key lang p s =
     (if coll = [] \<or> key = [] \<or> lang = [] then (s, Inl UpdateMissing)
      else if no_fields p then (s, Inl NoFields)
      else case DBUpdate (e_bolt E) CommitError (mcp_update_txn E (ck_now ck) coll key lang p) (sv_db s) of
        (db, Inl err) \<Rightarrow> (s\<lparr>sv_db := db\<rparr>, Inl (UpdateFailed err))
      | (db, Inr saved) \<Rightarrow> (s\<lparr>sv_db := db\<rparr>, Inr saved))"

subsection \<open>Setting the time to live\<close>

text \<open>The stored document is read with \<open>load\<close>, and written back unencrypted with \<open>mdoc\<close>.\<close>

definition set_ttl_txn :: "'tx bolt \<Rightarrow> (bytes \<Rightarrow> (codec_error, Doc) outcome) \<Rightarrow> (Doc \<Rightarrow> codec_error + bytes) \<Rightarrow>
    bytes \<Rightarrow> bytes \<Rightarrow> int \<Rightarrow> 'tx \<Rightarrow> op_error + ('tx \<times> (Doc \<times> BinlogOps))" where
  "set_ttl_txn B load mdoc coll docID expiresAt tx =
     (case bk_get B ''docs'' (DocKey coll docID) tx of None \<Rightarrow> Inl DocNotFound
      | Some v \<Rightarrow>
        (case load v of Err err \<Rightarrow> Inl (LoadError err) | Panic \<Rightarrow> Inl OpPanic
         | Ok d \<Rightarrow>
           (let updated = d\<lparr>ExpiresAt := expiresAt\<rparr>
            in case mdoc updated of Inl err \<Rightarrow> Inl (MarshalError err)
               | Inr buf \<Rightarrow>
                 (case put_log B ''docs'' (DocKey coll docID) buf (tx, []) of Inl err \<Rightarrow> Inl err
                  | Inr (tx', bo) \<Rightarrow> Inr (tx', (updated, bo))))))"

definition set_ttl_hooks :: "('tx, 'p) env \<Rightarrow> bytes \<Rightarrow> bytes \<Rightarrow> int \<Rightarrow> 'p effect list" where
  "set_ttl_hooks E coll docID expiresAt =
     (if e_ttl E then (if expiresAt > 0 then [TTLSet coll docID expiresAt] else [TTLRemove coll docID]) else [])"

definition handleSetTTL :: "('tx, 'p) env \<Rightarrow> (Doc \<Rightarrow> codec_error + bytes) \<Rightarrow> clock \<Rightarrow> bytes \<Rightarrow> bytes \<Rightarrow> bytes \<Rightarrow> int \<Rightarrow>
    ('tx, 'p) server \<Rightarrow> ('tx, 'p) server \<times> (update_error + Doc)" where
  "handleSetTTL E mdoc ck coll key lang ttl s =
     (if coll = [] \<or> key = [] \<or> lang = [] then (s, Inl UpdateMissing)
      else let docID = genID [coll, key, lang]; expiresAt = expiry_of (ck_now ck) ttl
      in logged_update (e_bolt E) ck (set_ttl_txn (e_bolt E) (e_load E) mdoc coll docID expiresAt)
           (\<lambda>_. set_ttl_hooks E coll docID expiresAt) s)"

text \<open>The other two transports do not log the change.\<close>

definition unlogged_update :: "'tx bolt \<Rightarrow> ('tx \<Rightarrow> op_error + ('tx \<times> (Doc \<times> BinlogOps))) \<Rightarrow> 'p effect list \<Rightarrow>
    ('tx, 'p) server \<Rightarrow> ('tx, 'p) server \<times> (update_error + Doc)" where
  "unlogged_update B fn hooks s =
     (case DBUpdate B CommitError fn (sv_db s) of
        (db, Inl err) \<Rightarrow> (s\<lparr>sv_db := db\<rparr>, Inl (UpdateFailed err))
      | (db, Inr (saved, _)) \<Rightarrow> (s\<lparr>sv_db := db, sv_effects := sv_effects s @ hooks\<rparr>, Inr saved))"

definition grpc_SetTTL :: "('tx, 'p) env \<Rightarrow> (Doc \<Rightarrow> codec_error + bytes) \<Rightarrow> clock \<Rightarrow> bytes \<Rightarrow> bytes \<Rightarrow> bytes \<Rightarrow> int \<Rightarrow>
    ('tx, 'p) server \<Rightarrow> ('tx, 'p) server \<times> (update_error + Doc)" where
  "grpc_SetTTL E mdoc ck coll key lang ttl s =
     (if coll = [] \<or> key = [] \<or> lang = [] then (s, Inl UpdateMissing)
      else let docID = genID [coll, key, lang]; expiresAt = expiry_of (ck_now ck) ttl
      in unlogged_update (e_bolt E) (set_ttl_txn (e_bolt E) (e_unmarshal E) mdoc coll docID expiresAt)
           (set_ttl_hooks E coll docID expiresAt) s)"

definition mcp_SetTTL :: "('tx, 'p) env \<Rightarrow> (Doc \<Rightarrow> codec_error + bytes) \<Rightarrow> clock \<Rightarrow> bytes \<Rightarrow> bytes \<Rightarrow> bytes \<Rightarrow> int \<Rightarrow>
    ('tx, 'p) server \<Rightarrow> ('tx, 'p) server \<times> (update_error + Doc)" where
  "mcp_SetTTL E mdoc ck coll key lang ttl s =
     (if coll = [] \<or> key = [] \<or> lang = [] then (s, Inl UpdateMissing)
      else let docID = genID [coll, key, lang]; expiresAt = expiry_of (ck_now ck) ttl
      in unlogged_update (e_bolt E) (set_ttl_txn (e_bolt E) (e_load E) mdoc coll docID expiresAt)
           (set_ttl_hooks E coll docID expiresAt) s)"

subsection \<open>The transactions as lists of operations\<close>

lemma patched_simps [simp]:
  "ID (patched now p d) = ID d" "DKey (patched now p d) = DKey d" "Lang (patched now p d) = Lang d"
  "AddedAt (patched now p d) = AddedAt d" "UpdatedAt (patched now p d) = now"
  "Meta (patched now p d) = (case p_meta p of None \<Rightarrow> Meta d | Some m \<Rightarrow> m)"
  "ContentMD (patched now p d) = (case p_content p of None \<Rightarrow> ContentMD d | Some c \<Rightarrow> c)"
  "ExpiresAt (patched now p d) = (case p_ttl p of None \<Rightarrow> ExpiresAt d | Some t \<Rightarrow> expiry_of now t)"
  by (simp_all add: patched_def Let_def split: option.splits)

definition upd_ops :: "bool \<Rightarrow> bytes \<Rightarrow> Doc \<Rightarrow> Doc \<Rightarrow> bytes \<Rightarrow> BinlogOps \<Rightarrow> BinlogOps" where
  "upd_ops changed coll existing doc buf revs =
     [put_op ''docs'' buf (DocKey coll (ID doc))] @
     (if changed then map (del_op ''idxmeta'') (meta_keys coll (Meta existing) (ID doc)) @
        map (put_op ''idxmeta'' ''1'') (meta_keys coll (Meta doc) (ID doc)) else []) @ revs"

lemma reindex_runs:
  assumes B: "bolt_laws B cont" and "reindex B coll existing doc s = Inr s'"
  shows "runs cont (map (del_op ''idxmeta'') (meta_keys coll (Meta existing) (ID doc)) @
     map (put_op ''idxmeta'' ''1'') (meta_keys coll (Meta doc) (ID doc))) s s'"
  using runs_trans [OF del_quiet_fold_runs [OF B] put_all_runs [OF B]] assms(2) unfolding reindex_def by blast

lemma indexed_runs:
  assumes B: "bolt_laws B cont" and s1: "put_log B ''docs'' (DocKey coll (ID doc)) buf (tx, []) = Inr s1"
    and s2: "(if changed then reindex B coll existing doc s1 else Inr s1) = Inr s2"
  shows "runs cont (upd_ops changed coll existing doc buf []) (tx, []) s2" and "cont (fst s2) ''rev'' = cont tx ''rev''"
proof -
  show r: "runs cont (upd_ops changed coll existing doc buf []) (tx, []) s2"
  proof (cases changed)
    case True
    with runs_trans [OF put_log_runs [OF B s1] reindex_runs [OF B]] s2 show ?thesis by (simp add: upd_ops_def)
  next
    case False
    with put_log_runs [OF B s1] s2 show ?thesis by (simp add: upd_ops_def)
  qed
  then show "cont (fst s2) ''rev'' = cont tx ''rev''"
    by (auto simp: runs_def upd_ops_def replay_puts replay_dels store_simps fun_eq_iff)
qed

lemma upd_ops_append: "upd_ops ch coll existing doc buf revs = upd_ops ch coll existing doc buf [] @ revs"
  by (simp add: upd_ops_def)

lemma http_update_runs:
  assumes B: "bolt_laws (e_bolt E) cont" and upd: "http_update_txn E now coll key lang p tx = Inr (tx', (doc, bo))"
  obtains existing buf where "read_stored E coll key lang tx = Inr existing" "doc = patched now p existing"
    "\<not> (ExpiresAt existing > 0 \<and> ExpiresAt existing < now)" "e_marshal E doc coll = Ok buf"
    "bo = upd_ops (metaDidChange p existing) coll existing doc buf (rev_ops (e_maxRevisions E coll) now coll (ID doc) buf (cont tx))"
    "cont tx' = replay bo (cont tx)"
proof -
  from upd obtain existing where ex: "read_stored E coll key lang tx = Inr existing"
    by (auto simp: http_update_txn_def split: sum.splits)
  define d where "d = patched now p existing"
  note A0 = upd [unfolded http_update_txn_def Let_def ex sum.case, folded d_def]
  from A0 have live: "\<not> (ExpiresAt existing > 0 \<and> ExpiresAt existing < now)" by (auto split: if_splits)
  note A1 = A0 [unfolded if_not_P [OF live]]
  from A1 obtain buf where buf: "marshal_doc E d coll = Inr buf" by (auto split: sum.splits)
  note A2 = A1 [unfolded buf sum.case]
  from A2 obtain s1 where s1: "put_log (e_bolt E) ''docs'' (DocKey coll (ID d)) buf (tx, []) = Inr s1" by (auto split: sum.splits)
  note A3 = A2 [unfolded s1 sum.case]
  from A3 obtain s2 where s2: "(if metaDidChange p existing then reindex (e_bolt E) coll existing d s1 else Inr s1) = Inr s2"
    by (auto split: sum.splits)
  note A4 = A3 [unfolded s2 sum.case]
  from A4 have s3: "write_revision E now coll d buf s2 = Inr (tx', bo)" and d: "doc = d" by (auto split: sum.splits)
  note R = indexed_runs [OF B s1 s2]
  have rev: "rev_ops cap now coll (ID d) buf (cont (fst s2)) = rev_ops cap now coll (ID d) buf (cont tx)" for cap
    using R(2) by (rule rev_ops_cong)
  from runs_trans [OF R(1) write_revision_runs [OF B s3]]
  have "runs cont (upd_ops (metaDidChange p existing) coll existing d buf (rev_ops (e_maxRevisions E coll) now coll (ID d) buf (cont tx))) (tx, []) (tx', bo)"
    unfolding rev by (simp only: upd_ops_append [of _ _ _ _ _ "rev_ops (e_maxRevisions E coll) now coll (ID d) buf (cont tx)"])
  then show ?thesis
    using ex live buf d by (intro that [of existing buf]) (auto simp: runs_def d_def marshal_doc_def split: outcome.splits)
qed

lemma grpc_update_runs:
  assumes B: "bolt_laws (e_bolt E) cont" and upd: "grpc_update_txn E now coll key lang p tx = Inr (tx', (doc, bo))"
  obtains existing buf where "read_stored E coll key lang tx = Inr existing" "doc = patched now p existing"
    "e_marshal E doc coll = Ok buf"
    "bo = upd_ops (metaDidChange p existing) coll existing doc buf [put_op ''rev'' buf (RevPrefix coll (ID doc) @ fmt_020d now)]"
    "cont tx' = replay bo (cont tx)"
proof -
  from upd obtain existing where ex: "read_stored E coll key lang tx = Inr existing"
    by (auto simp: grpc_update_txn_def split: sum.splits)
  define d where "d = patched now p existing"
  note A1 = upd [unfolded grpc_update_txn_def Let_def ex sum.case, folded d_def]
  from A1 obtain buf where buf: "marshal_doc E d coll = Inr buf" by (auto split: sum.splits)
  note A2 = A1 [unfolded buf sum.case]
  from A2 obtain s1 where s1: "put_log (e_bolt E) ''docs'' (DocKey coll (ID d)) buf (tx, []) = Inr s1" by (auto split: sum.splits)
  note A3 = A2 [unfolded s1 sum.case]
  from A3 obtain s2 where s2: "(if metaDidChange p existing then reindex (e_bolt E) coll existing d s1 else Inr s1) = Inr s2"
    by (auto split: sum.splits)
  note A4 = A3 [unfolded s2 sum.case]
  from A4 have s3: "put_log (e_bolt E) ''rev'' (RevPrefix coll (ID d) @ fmt_020d now) buf s2 = Inr (tx', bo)" and d: "doc = d"
    by (auto split: sum.splits)
  from runs_trans [OF indexed_runs(1) [OF B s1 s2] put_log_runs [OF B s3]]
  have "runs cont (upd_ops (metaDidChange p existing) coll existing d buf [put_op ''rev'' buf (RevPrefix coll (ID d) @ fmt_020d now)]) (tx, []) (tx', bo)"
    by (simp only: upd_ops_append [of _ _ _ _ _ "[put_op ''rev'' buf (RevPrefix coll (ID d) @ fmt_020d now)]"])
  then show ?thesis
    using ex buf d by (intro that [of existing buf]) (auto simp: runs_def d_def marshal_doc_def split: outcome.splits)
qed

lemma upd_contents:
  assumes "\<forall>e \<in> set revs. BucketName e = ''rev'' \<and> EType e \<noteq> BinlogDeleteBucket"
  shows "replay (upd_ops ch coll existing doc buf revs) c ''docs'' k = (if k = DocKey coll (ID doc) then Some buf else c ''docs'' k)"
    and "replay (upd_ops ch coll existing doc buf revs) c ''bykey'' k = c ''bykey'' k"
    and "replay (upd_ops ch coll existing doc buf revs) c ''idxmeta'' k =
       (if ch then if k \<in> set (meta_keys coll (Meta doc) (ID doc)) then Some ''1''
          else if k \<in> set (meta_keys coll (Meta existing) (ID doc)) then None else c ''idxmeta'' k
        else c ''idxmeta'' k)"
proof -
  have r: "replay revs c b = c b" if "b \<noteq> ''rev''" for c b
    using assms
  proof (induction revs arbitrary: c)
    case (Cons e es)
    then have "replay_entry e c b = c b" using that
      by (auto simp: replay_entry.simps store_simps fun_eq_iff)
    with Cons show ?case by simp
  qed simp
  show "replay (upd_ops ch coll existing doc buf revs) c ''docs'' k = (if k = DocKey coll (ID doc) then Some buf else c ''docs'' k)"
    "replay (upd_ops ch coll existing doc buf revs) c ''bykey'' k = c ''bykey'' k"
    "replay (upd_ops ch coll existing doc buf revs) c ''idxmeta'' k =
       (if ch then if k \<in> set (meta_keys coll (Meta doc) (ID doc)) then Some ''1''
          else if k \<in> set (meta_keys coll (Meta existing) (ID doc)) then None else c ''idxmeta'' k
        else c ''idxmeta'' k)"
    by (simp_all add: upd_ops_def r replay_puts replay_dels store_simps)
qed

lemma rev_ops_buckets:
  "\<forall>e \<in> set (rev_ops cap now coll i buf c). BucketName e = ''rev'' \<and> EType e \<noteq> BinlogDeleteBucket"
  "\<forall>e \<in> set [put_op ''rev'' buf rk]. BucketName e = ''rev'' \<and> EType e \<noteq> BinlogDeleteBucket"
  by (auto simp: rev_ops_def Let_def put_op_def del_op_def zero_entry_def)

lemmas http_update_contents = upd_contents [OF rev_ops_buckets(1)]
lemmas grpc_update_contents = upd_contents [OF rev_ops_buckets(2)]

subsection \<open>The store after an update\<close>

lemma read_stored_at:
  assumes B: "bolt_laws (e_bolt E) cont" and r: "read_stored E coll key lang tx = Inr existing"
    and ok: "docs_ok (e_load E) (cont tx)" and coll: "nosep coll"
  shows "cont tx ''bykey'' (ByKeyKey coll key lang) = Some (ID existing)"
    and "doc_at (e_load E) (cont tx) coll (ID existing) existing"
proof -
  obtain i v where i: "cont tx ''bykey'' (ByKeyKey coll key lang) = Some i" "cont tx ''docs'' (DocKey coll i) = Some v"
    "e_load E v = Ok existing"
    using r unfolding read_stored_def lookup_doc_contents [OF B] by (auto split: option.splits outcome.splits)
  then have at: "doc_at (e_load E) (cont tx) coll i existing" using coll by (simp add: doc_at_def)
  then have "ID existing = i" using docs_okD [OF ok] by blast
  with i at show "cont tx ''bykey'' (ByKeyKey coll key lang) = Some (ID existing)"
    "doc_at (e_load E) (cont tx) coll (ID existing) existing" by simp_all
qed

lemma update_store_ok:
  assumes ok: "store_ok load c" and at: "doc_at load c coll (ID existing) existing"
    and buf: "load buf = Ok doc" and doc: "doc = patched now p existing" and m: "\<forall>m. p_meta p = Some m \<longrightarrow> meta_ok m"
    and docs: "\<And>k. c' ''docs'' k = (if k = DocKey coll (ID doc) then Some buf else c ''docs'' k)"
    and idx: "\<And>k. c' ''idxmeta'' k = (if metaDidChange p existing then
        if k \<in> set (meta_keys coll (Meta doc) (ID doc)) then Some ''1''
        else if k \<in> set (meta_keys coll (Meta existing) (ID doc)) then None else c ''idxmeta'' k
      else c ''idxmeta'' k)"
  shows "store_ok load c'"
proof -
  let ?i = "ID existing"
  have d: "docs_ok load c" using ok by (simp add: store_ok_def)
  have coll: "nosep coll" using at by (simp add: doc_at_def)
  have i: "?i \<noteq> []" "meta_ok (Meta existing)" using docs_okD [OF d at] by simp_all
  have md: "meta_ok (Meta doc)" using m i(2) unfolding doc by (simp split: option.splits)
  have id: "ID doc = ?i" unfolding doc by simp
  have "doc_at load c coll ?i d' \<longleftrightarrow> d' = existing" for d' using doc_at_fun at by blast
  then have old: "set (meta_keys coll (Meta existing) ?i) = {k. \<exists>d. doc_at load c coll ?i d \<and> k \<in> set (meta_keys coll (Meta d) ?i)}"
    by simp
  have same: "set (meta_keys coll (Meta doc) ?i) = set (meta_keys coll (Meta existing) ?i)" if "\<not> metaDidChange p existing"
  proof -
    have "\<not> metadataChanged (Meta existing) (Meta doc)"
      using that i(2) metadataChanged_iff [of "Meta existing" "Meta existing"]
      by (cases "p_meta p") (simp_all add: doc metaDidChange_def meta_ok_def)
    then have "set (meta_keys coll (Meta existing) ?i) = set (meta_keys coll (Meta doc) ?i)"
      using i(2) md by (intro meta_keys_cong) (simp_all add: meta_ok_def)
    then show ?thesis by simp
  qed
  have old_idx: "k \<in> set (meta_keys coll (Meta existing) ?i) \<Longrightarrow> c ''idxmeta'' k \<noteq> None" for k
    using ok at unfolding store_ok_def index_exact_def by blast
  show ?thesis
  proof (rule store_ok_replace [OF ok coll i(1), where v = "Some buf" and N = "set (meta_keys coll (Meta doc) ?i)"])
    show "c' ''docs'' k = (if k = DocKey coll ?i then Some buf else c ''docs'' k)" for k using docs id by simp
    show "case Some buf of None \<Rightarrow> set (meta_keys coll (Meta doc) ?i) = {} | Some b \<Rightarrow> \<exists>d. load b = Ok d \<and> ID d = ?i \<and>
        meta_ok (Meta d) \<and> set (meta_keys coll (Meta doc) ?i) = set (meta_keys coll (Meta d) ?i)"
      using buf id md by simp
    show "set (meta_keys coll (Meta existing) ?i) = {k. \<exists>d. doc_at load c coll ?i d \<and> k \<in> set (meta_keys coll (Meta d) ?i)}"
      by (rule old)
    show "c' ''idxmeta'' k \<noteq> None \<longleftrightarrow> k \<in> set (meta_keys coll (Meta doc) ?i) \<or>
        (c ''idxmeta'' k \<noteq> None \<and> k \<notin> set (meta_keys coll (Meta existing) ?i))" for k
      using idx [of k] same old_idx [of k] unfolding id by auto
  qed
qed

lemma logged_update_cases:
  assumes B: "bolt_laws B cont" and u: "logged_update B ck fn hooks s = (s', r)"
  obtains (Failed) err where "r = Inl err" "s' = s"
    | (Done) saved bo tx' where "r = Inr saved" "fn (sv_db s) = Inr (tx', (saved, bo))" "cont (sv_db s') = cont tx'"
      "sv_binlog s' = FlushTo (ck_binlog ck) (ck_io ck) bo (sv_binlog s)" "sv_cache s' = sv_cache s"
      "sv_lfcache s' = sv_lfcache s" "sv_extreme s' = sv_extreme s"
proof -
  obtain db q where d: "DBUpdate B CommitError fn (sv_db s) = (db, q)" by (cases "DBUpdate B CommitError fn (sv_db s)")
  show ?thesis
  proof (cases q)
    case (Inl err)
    with d u have "r = Inl (UpdateFailed err)" "s' = s" using DBUpdate_Inl [of B CommitError fn "sv_db s" db err]
      by (auto simp: logged_update_def)
    then show ?thesis by (rule Failed)
  next
    case (Inr x)
    obtain saved bo where x: "x = (saved, bo)" by (cases x)
    with d Inr obtain tx' where "fn (sv_db s) = Inr (tx', (saved, bo))" "bk_commit B tx' = Some db" by (auto simp: DBUpdate_Inr)
    then show ?thesis
      using u d Inr x bolt_laws.commit_law [OF B] by (intro Done [of saved tx' bo]) (auto simp: logged_update_def)
  qed
qed

text \<open>What a successful update over HTTP or gRPC does.\<close>

lemma update_done:
  assumes B: "bolt_laws (e_bolt E) cont" and codec: "doc_codec (e_marshal E) (e_load E) (e_unmarshal E)"
    and ok: "store_ok (e_load E) (cont tx)" and coll: "nosep coll" and m: "\<forall>m. p_meta p = Some m \<longrightarrow> meta_ok m"
    and R: "read_stored E coll key lang tx = Inr existing" "saved = patched now p existing" "e_marshal E saved coll = Ok buf"
      "bo = upd_ops (metaDidChange p existing) coll existing saved buf revs" "cont tx' = replay bo (cont tx)"
    and revs: "\<forall>e \<in> set revs. BucketName e = ''rev'' \<and> EType e \<noteq> BinlogDeleteBucket"
  shows "store_ok (e_load E) (cont tx') \<and> cont tx' = replay bo (cont tx) \<and>
    cont tx' ''bykey'' (ByKeyKey coll key lang) = Some (ID saved) \<and>
    (\<exists>buf. cont tx' ''docs'' (DocKey coll (ID saved)) = Some buf \<and> e_load E buf = Ok saved)"
proof -
  have load: "e_load E buf = Ok saved" by (rule doc_codec.load_marshal [OF codec R(3)])
  have d: "docs_ok (e_load E) (cont tx)" using ok by (simp add: store_ok_def)
  note at = read_stored_at [OF B R(1) d coll]
  note C = upd_contents [OF revs]
  have "store_ok (e_load E) (cont tx')"
    by (rule update_store_ok [OF ok at(2) load R(2) m]) (simp_all only: R(4,5) C)
  moreover have "cont tx' ''bykey'' (ByKeyKey coll key lang) = Some (ID saved)"
    using at(1) R(2) by (simp only: R(4,5) C) simp
  moreover have "\<exists>buf. cont tx' ''docs'' (DocKey coll (ID saved)) = Some buf \<and> e_load E buf = Ok saved"
    using load by (simp add: R(4,5) C)
  ultimately show ?thesis using R(5) by blast
qed

definition update_of :: "bool \<Rightarrow> ('tx, 'p) env \<Rightarrow> int \<Rightarrow> bytes \<Rightarrow> bytes \<Rightarrow> bytes \<Rightarrow> patch \<Rightarrow> 'tx \<Rightarrow>
    op_error + ('tx \<times> (Doc \<times> BinlogOps))" where
  "update_of http = (if http then http_update_txn else grpc_update_txn)"

lemma update_of_done:
  assumes B: "bolt_laws (e_bolt E) cont" and codec: "doc_codec (e_marshal E) (e_load E) (e_unmarshal E)"
    and ok: "store_ok (e_load E) (cont tx)" and coll: "nosep coll" and m: "\<forall>m. p_meta p = Some m \<longrightarrow> meta_ok m"
    and u: "update_of http E now coll key lang p tx = Inr (tx', (saved, bo))"
  shows "store_ok (e_load E) (cont tx') \<and> cont tx' = replay bo (cont tx) \<and>
    cont tx' ''bykey'' (ByKeyKey coll key lang) = Some (ID saved) \<and>
    (\<exists>buf. cont tx' ''docs'' (DocKey coll (ID saved)) = Some buf \<and> e_load E buf = Ok saved)"
proof (cases http)
  case True
  then have "http_update_txn E now coll key lang p tx = Inr (tx', (saved, bo))" using u by (simp add: update_of_def)
  then obtain existing buf where R: "read_stored E coll key lang tx = Inr existing" "saved = patched now p existing"
    "e_marshal E saved coll = Ok buf"
    "bo = upd_ops (metaDidChange p existing) coll existing saved buf (rev_ops (e_maxRevisions E coll) now coll (ID saved) buf (cont tx))"
    "cont tx' = replay bo (cont tx)"
    using http_update_runs [OF B] by metis
  show ?thesis by (rule update_done [OF B codec ok coll m R rev_ops_buckets(1)])
next
  case False
  then have "grpc_update_txn E now coll key lang p tx = Inr (tx', (saved, bo))" using u by (simp add: update_of_def)
  then obtain existing buf where R: "read_stored E coll key lang tx = Inr existing" "saved = patched now p existing"
    "e_marshal E saved coll = Ok buf"
    "bo = upd_ops (metaDidChange p existing) coll existing saved buf [put_op ''rev'' buf (RevPrefix coll (ID saved) @ fmt_020d now)]"
    "cont tx' = replay bo (cont tx)"
    using grpc_update_runs [OF B] by metis
  show ?thesis by (rule update_done [OF B codec ok coll m R rev_ops_buckets(2)])
qed

text \<open>From the request to its transaction.\<close>

lemma handleUpdate_cases:
  assumes "handleUpdate E ck coll key lang p s = (s', r)"
  obtains err where "r = Inl err" "s' = s"
    | "coll \<noteq> []" "key \<noteq> []" "lang \<noteq> []"
      "logged_update (e_bolt E) ck (update_of True E (ck_now ck) coll key lang p) (http_update_hooks E coll key lang p) s = (s', r)"
  using assms by (auto simp: handleUpdate_def update_of_def split: if_splits)

lemma grpc_UpdateDocument_cases:
  assumes "grpc_UpdateDocument E ck coll key lang p s = (s', r)"
  obtains err where "r = Inl err" "s' = s"
    | "coll \<noteq> []" "key \<noteq> []" "lang \<noteq> []"
      "logged_update (e_bolt E) ck (update_of False E (ck_now ck) coll key lang p) (grpc_update_hooks E coll p) s = (s', r)"
  using assms by (auto simp: grpc_UpdateDocument_def update_of_def split: if_splits)

subsection \<open>Properties\<close>

definition update_correct :: "('tx, 'p) env \<Rightarrow> ('tx \<Rightarrow> contents) \<Rightarrow> clock \<Rightarrow> bytes \<Rightarrow> bytes \<Rightarrow> bytes \<Rightarrow>
    ('tx, 'p) server \<Rightarrow> ('tx, 'p) server \<times> (update_error + Doc) \<Rightarrow> bool" where
  "update_correct E cont ck coll key lang s res \<longleftrightarrow>
     (case res of (s', r) \<Rightarrow>
        store_ok (e_load E) (cont (sv_db s')) \<and>
        (case r of Inl err \<Rightarrow> s' = s
         | Inr saved \<Rightarrow>
             (\<exists>bo. cont (sv_db s') = replay bo (cont (sv_db s)) \<and>
                sv_binlog s' = FlushTo (ck_binlog ck) (ck_io ck) bo (sv_binlog s)) \<and>
             (\<forall>t. handleGet E t coll key lang s' =
                (if ExpiresAt saved > 0 \<and> ExpiresAt saved < t then Inl GetNotFound else Inr saved))))"

lemma logged_update_correct:
  assumes B: "bolt_laws (e_bolt E) cont" and codec: "doc_codec (e_marshal E) (e_load E) (e_unmarshal E)"
    and ok: "store_ok (e_load E) (cont (sv_db s))" and coll: "nosep coll" and m: "\<forall>m. p_meta p = Some m \<longrightarrow> meta_ok m"
    and ne: "coll \<noteq> []" "key \<noteq> []" "lang \<noteq> []"
    and u: "logged_update (e_bolt E) ck (update_of http E (ck_now ck) coll key lang p) hooks s = (s', r)"
  shows "update_correct E cont ck coll key lang s (s', r)"
proof (cases rule: logged_update_cases [OF B u])
  case 1
  with ok show ?thesis by (simp add: update_correct_def)
next
  case Done: (2 saved bo tx')
  note D = update_of_done [OF B codec ok coll m Done(2)]
  then obtain buf where buf: "cont tx' ''docs'' (DocKey coll (ID saved)) = Some buf" "e_load E buf = Ok saved" by blast
  have "lookup_doc (e_bolt E) coll key lang (sv_db s') = Some buf"
    unfolding lookup_doc_contents [OF B] Done(3) using D [THEN conjunct2, THEN conjunct2, THEN conjunct1] buf(1) by simp
  then have "handleGet E t coll key lang s' = (if ExpiresAt saved > 0 \<and> ExpiresAt saved < t then Inl GetNotFound else Inr saved)" for t
    using ne buf(2) by (simp add: handleGet_def)
  with D Done show ?thesis unfolding update_correct_def by auto
qed


subsection \<open>Updates that are not logged\<close>

lemma replay_entry_of_read: "replay_entry (entry_read e) c = replay_entry e c"
  by (simp add: replay_entry.simps entry_read_def)

text \<open>A log has one meaning.\<close>

lemma log_bytes_replay:
  "\<forall>e \<in> set es. entry_fits e \<Longrightarrow> \<forall>e \<in> set es'. entry_fits e \<Longrightarrow> log_bytes es = log_bytes es' \<Longrightarrow> replay es c = replay es' c"
proof (induction es arbitrary: es' c)
  case Nil
  then have "es' = []" using length_Marshal by (cases es') (auto simp: log_bytes_def dest!: arg_cong [of _ _ length])
  then show ?case by simp
next
  case (Cons e es)
  obtain e' es'' where es': "es' = e' # es''"
    using Cons.prems(3) length_Marshal [of e] by (cases es') (auto simp: log_bytes_def dest!: arg_cong [of _ _ length])
  have eq: "MarshalBinlogEntry e @ log_bytes es = MarshalBinlogEntry e' @ log_bytes es''"
    using Cons.prems(3) by (simp add: es' log_bytes_def)
  have "UnmarshalBinlogEntry (MarshalBinlogEntry e @ log_bytes es) = Inr (entry_read e, length (MarshalBinlogEntry e))"
    "UnmarshalBinlogEntry (MarshalBinlogEntry e' @ log_bytes es'') = Inr (entry_read e', length (MarshalBinlogEntry e'))"
    using Cons.prems(1,2) by (simp_all add: es' Unmarshal_Marshal)
  with eq have r: "entry_read e = entry_read e'" and "length (MarshalBinlogEntry e) = length (MarshalBinlogEntry e')" by simp_all
  with eq have "log_bytes es = log_bytes es''" by simp
  then have "replay es (replay_entry e c) = replay es'' (replay_entry e c)" for c
    using Cons.IH Cons.prems(1,2) by (simp add: es')
  moreover have "replay_entry e c = replay_entry e' c" for c using replay_entry_of_read r by metis
  ultimately show ?case by (simp add: es')
qed

lemma leader_ok_unlogged:
  assumes "leader_ok cont c0 s" and "sv_binlog s' = sv_binlog s" and "cont (sv_db s') \<noteq> cont (sv_db s)"
  shows "\<not> leader_ok cont c0 s'"
proof
  assume "leader_ok cont c0 s'"
  then obtain b es' where b: "sv_binlog s' = Some b" "log_rep b es'" "replay es' c0 = cont (sv_db s')"
    by (auto simp: leader_ok_def)
  obtain es where es: "log_rep b es" "replay es c0 = cont (sv_db s)" using assms(1,2) b(1) by (auto simp: leader_ok_def)
  then have "replay es c0 = replay es' c0" using b(2) by (intro log_bytes_replay) (auto simp: log_rep_def)
  with b(3) es(2) assms(3) show False by simp
qed

lemma mcp_update_done:
  assumes B: "bolt_laws (e_bolt E) cont" and codec: "doc_codec (e_marshal E) (e_load E) (e_unmarshal E)"
    and u: "mcp_UpdateDocument E ck coll key lang p s = (s', Inr saved)"
  obtains existing buf where "read_stored E coll key lang (sv_db s) = Inr existing" "saved = patched (ck_now ck) p existing"
    "e_load E buf = Ok saved" "e_unmarshal E buf = Ok saved"
    "cont (sv_db s') = c_put ''docs'' (DocKey coll (ID saved)) buf (cont (sv_db s))" "sv_binlog s' = sv_binlog s"
    "sv_cache s' = sv_cache s" "sv_lfcache s' = sv_lfcache s" "sv_extreme s' = sv_extreme s"
    "coll \<noteq> []" "key \<noteq> []" "lang \<noteq> []"
proof -
  have ne: "coll \<noteq> []" "key \<noteq> []" "lang \<noteq> []" and nf: "\<not> no_fields p"
    using u by (auto simp: mcp_UpdateDocument_def split: if_splits)
  obtain db q where d: "DBUpdate (e_bolt E) CommitError (mcp_update_txn E (ck_now ck) coll key lang p) (sv_db s) = (db, q)"
    by (cases "DBUpdate (e_bolt E) CommitError (mcp_update_txn E (ck_now ck) coll key lang p) (sv_db s)")
  have q: "q = Inr saved" "s' = s\<lparr>sv_db := db\<rparr>"
    using u ne nf d by (auto simp: mcp_UpdateDocument_def split: sum.splits)
  then obtain tx' where t: "mcp_update_txn E (ck_now ck) coll key lang p (sv_db s) = Inr (tx', saved)" "bk_commit (e_bolt E) tx' = Some db"
    using d by (auto simp: DBUpdate_Inr)
  then obtain existing buf where ex: "read_stored E coll key lang (sv_db s) = Inr existing" "saved = patched (ck_now ck) p existing"
    "e_marshal E saved coll = Ok buf" "bk_put (e_bolt E) ''docs'' (DocKey coll (ID saved)) buf (sv_db s) = Some tx'"
    by (auto simp: mcp_update_txn_def Let_def marshal_doc_def split: sum.splits outcome.splits option.splits)
  show ?thesis
    using ex(1,2) doc_codec.load_marshal [OF codec ex(3)] doc_codec.unmarshal_marshal [OF codec ex(3)]
      bolt_laws.put_law [OF B ex(4)] bolt_laws.commit_law [OF B t(2)] ne q(2)
    by (intro that [of existing buf]) simp_all
qed

lemma set_ttl_txn_done:
  assumes B: "bolt_laws B cont" and t: "set_ttl_txn B load mdoc coll i e tx = Inr (tx', (saved, bo))"
  obtains v d buf where "cont tx ''docs'' (DocKey coll i) = Some v" "load v = Ok d" "saved = d\<lparr>ExpiresAt := e\<rparr>"
    "mdoc saved = Inr buf" "cont tx' = c_put ''docs'' (DocKey coll i) buf (cont tx)" "bo = [put_op ''docs'' buf (DocKey coll i)]"
proof -
  from t obtain v where v: "bk_get B ''docs'' (DocKey coll i) tx = Some v" by (auto simp: set_ttl_txn_def split: option.splits)
  note A = t [unfolded set_ttl_txn_def v option.case]
  from A obtain d where d: "load v = Ok d" by (auto split: outcome.splits)
  note A1 = A [unfolded d outcome.case Let_def]
  from A1 obtain buf where buf: "mdoc (d\<lparr>ExpiresAt := e\<rparr>) = Inr buf" by (auto split: sum.splits)
  note A2 = A1 [unfolded buf sum.case]
  then have s: "put_log B ''docs'' (DocKey coll i) buf (tx, []) = Inr (tx', bo)" and "saved = d\<lparr>ExpiresAt := e\<rparr>"
    by (auto split: sum.splits)
  with put_log_runs [OF B s] v d buf bolt_laws.get_law [OF B] show ?thesis
    by (intro that [of v d buf]) (simp_all add: runs_def)
qed

lemma unlogged_update_done:
  assumes B: "bolt_laws B cont" and u: "unlogged_update B fn hooks s = (s', Inr saved)"
  obtains tx' bo where "fn (sv_db s) = Inr (tx', (saved, bo))" "cont (sv_db s') = cont tx'" "sv_binlog s' = sv_binlog s"
  using u bolt_laws.commit_law [OF B] that
  by (auto simp: unlogged_update_def DBUpdate_Inr split: prod.splits sum.splits)

text \<open>Three of the six operations change the store behind the back of the followers: a
  successful \<open>UpdateDocument\<close> over MCP and a successful \<open>SetTTL\<close> over gRPC or MCP leave the binlog
  as it was, so a leader whose log described its store is no longer one.\<close>

theorem unlogged_updates_diverge:
  assumes "bolt_laws (e_bolt E) cont" and "doc_codec (e_marshal E) (e_load E) (e_unmarshal E)"
    and "\<forall>d buf. mdoc d = Inr buf \<longrightarrow> e_load E buf = Ok d"
    and "(s', Inr saved) \<in> {mcp_UpdateDocument E ck coll key lang p s, grpc_SetTTL E mdoc ck coll key lang ttl s,
           mcp_SetTTL E mdoc ck coll key lang ttl s}"
    and "\<forall>k v. cont (sv_db s) ''docs'' k = Some v \<longrightarrow> e_load E v \<noteq> Ok saved" and "leader_ok cont c0 s"
  shows "sv_binlog s' = sv_binlog s \<and> \<not> leader_ok cont c0 s'"
proof -
  have changed: "c_put ''docs'' k buf (cont (sv_db s)) \<noteq> cont (sv_db s)" if "e_load E buf = Ok saved" for k buf
  proof
    assume eq: "c_put ''docs'' k buf (cont (sv_db s)) = cont (sv_db s)"
    have "c_put ''docs'' k buf (cont (sv_db s)) ''docs'' k = Some buf" by (simp add: store_simps)
    then show False using that assms(5) unfolding eq by blast
  qed
  have ttl: "sv_binlog s' = sv_binlog s \<and> cont (sv_db s') \<noteq> cont (sv_db s)"
    if u: "unlogged_update (e_bolt E) (set_ttl_txn (e_bolt E) load mdoc coll i e) hooks s = (s', Inr saved)" for load i e hooks
  proof -
    obtain tx' bo where t: "set_ttl_txn (e_bolt E) load mdoc coll i e (sv_db s) = Inr (tx', (saved, bo))"
      "cont (sv_db s') = cont tx'" "sv_binlog s' = sv_binlog s" using unlogged_update_done [OF assms(1) u] by metis
    obtain buf where "mdoc saved = Inr buf" "cont tx' = c_put ''docs'' (DocKey coll i) buf (cont (sv_db s))"
      using set_ttl_txn_done [OF assms(1) t(1)] by metis
    with t assms(3) changed show ?thesis by metis
  qed
  from assms(4) consider (mcp) "mcp_UpdateDocument E ck coll key lang p s = (s', Inr saved)"
    | (grpc_ttl) "grpc_SetTTL E mdoc ck coll key lang ttl s = (s', Inr saved)"
    | (mcp_ttl) "mcp_SetTTL E mdoc ck coll key lang ttl s = (s', Inr saved)" by auto
  then have "sv_binlog s' = sv_binlog s \<and> cont (sv_db s') \<noteq> cont (sv_db s)"
  proof cases
    case mcp
    obtain buf where "e_load E buf = Ok saved" "sv_binlog s' = sv_binlog s"
      "cont (sv_db s') = c_put ''docs'' (DocKey coll (ID saved)) buf (cont (sv_db s))"
      using mcp_update_done [OF assms(1,2) mcp] by metis
    with changed show ?thesis by metis
  next
    case grpc_ttl
    then show ?thesis using ttl by (auto simp: grpc_SetTTL_def Let_def simp del: genID.simps split: if_splits)
  next
    case mcp_ttl
    then show ?thesis using ttl by (auto simp: mcp_SetTTL_def Let_def simp del: genID.simps split: if_splits)
  qed
  with leader_ok_unlogged [OF assms(6)] show ?thesis by blast
qed

text \<open>\<open>UpdateDocument\<close> over MCP does not maintain the metadata index: when it replaces metadata
  by metadata with other index keys, the index is wrong afterwards, and a search by the old
  metadata still leads to the document.\<close>

theorem mcp_update_breaks_index:
  assumes "bolt_laws (e_bolt E) cont" and "doc_codec (e_marshal E) (e_load E) (e_unmarshal E)"
    and "store_ok (e_load E) (cont (sv_db s))" and "nosep coll"
    and "mcp_UpdateDocument E ck coll key lang p s = (s', Inr saved)" and "p_meta p = Some m" and "meta_ok m"
    and "doc_at (e_load E) (cont (sv_db s)) coll (ID saved) old"
    and "k \<in> set (meta_keys coll (Meta old) (ID saved))" and "k \<notin> set (meta_keys coll m (ID saved))"
  shows "Meta saved = m \<and> cont (sv_db s') ''idxmeta'' k \<noteq> None \<and> \<not> index_exact (e_load E) (cont (sv_db s'))"
proof -
  obtain existing buf where u: "saved = patched (ck_now ck) p existing" "e_load E buf = Ok saved"
    "cont (sv_db s') = c_put ''docs'' (DocKey coll (ID saved)) buf (cont (sv_db s))"
    using mcp_update_done [OF assms(1,2,5)] by metis
  have m: "Meta saved = m" using u(1) assms(6) by simp
  have docs: "docs_ok (e_load E) (cont (sv_db s))" and exact: "index_exact (e_load E) (cont (sv_db s))"
    using assms(3) by (simp_all add: store_ok_def)
  have "cont (sv_db s) ''idxmeta'' k \<noteq> None"
    using exact assms(8,9) unfolding index_exact_def by blast
  then have idx: "cont (sv_db s') ''idxmeta'' k \<noteq> None" by (simp add: u(3) store_simps)
  have "\<not> index_exact (e_load E) (cont (sv_db s'))"
  proof
    assume "index_exact (e_load E) (cont (sv_db s'))"
    then obtain coll' i' d where d: "doc_at (e_load E) (cont (sv_db s')) coll' i' d" "k \<in> set (meta_keys coll' (Meta d) i')"
      using idx unfolding index_exact_def by blast
    have coll': "nosep coll'" using d(1) by (simp add: doc_at_def)
    have old: "meta_ok (Meta old)" using docs_okD [OF docs assms(8)] by simp
    have "meta_ok (Meta d)"
    proof (cases "coll' = coll \<and> i' = ID saved")
      case True
      then have "d = saved" using d(1) u(2) by (auto simp: doc_at_def u(3) store_simps)
      with m assms(7) show ?thesis by simp
    next
      case False
      then have "doc_at (e_load E) (cont (sv_db s)) coll' i' d"
        using d(1) DocKey_inject [OF coll' assms(4), of i' "ID saved"] by (auto simp: doc_at_def u(3) store_simps split: if_splits)
      then show ?thesis using docs_okD [OF docs] by blast
    qed
    from meta_keys_disjoint [OF old this assms(4) coll' assms(9) d(2)] have "coll' = coll" "i' = ID saved" by simp_all
    moreover from this have "d = saved" using d(1) u(2) by (auto simp: doc_at_def u(3) store_simps)
    ultimately show False using d(2) m assms(10) by simp
  qed
  with m idx show ?thesis by blast
qed

text \<open>An update does not touch the read caches: after an update over any of the three transports
  the gRPC read keeps returning the cached document it replaced, while an HTTP read returns the
  new one.\<close>

theorem updates_leave_cache:
  assumes "bolt_laws (e_bolt E) cont" and "doc_codec (e_marshal E) (e_load E) (e_unmarshal E)"
    and "store_ok (e_load E) (cont (sv_db s))" and "nosep coll" and "\<forall>m. p_meta p = Some m \<longrightarrow> meta_ok m"
    and "(s', Inr saved) \<in> {handleUpdate E ck coll key lang p s, grpc_UpdateDocument E ck coll key lang p s,
           mcp_UpdateDocument E ck coll key lang p s}"
    and "\<not> sv_extreme s" and "sv_cache s = Some c" and "dc_lookup (ck_now ck') c (BuildCacheKey coll key lang) = Some buf"
    and "e_unmarshal E buf = Ok old" and "ExpiresAt saved = 0"
  shows "snd (grpc_Get E ck' coll key lang s') = Inr old \<and> handleGet E t coll key lang s' = Inr saved"
proof -
  have logged: "sv_cache s' = sv_cache s \<and> sv_extreme s' = sv_extreme s \<and> coll \<noteq> [] \<and> key \<noteq> [] \<and> lang \<noteq> [] \<and>
      handleGet E t coll key lang s' = Inr saved"
    if ne: "coll \<noteq> []" "key \<noteq> []" "lang \<noteq> []"
      and u: "logged_update (e_bolt E) ck (update_of http E (ck_now ck) coll key lang p) hooks s = (s', Inr saved)" for http hooks
    using logged_update_cases [OF assms(1) u] logged_update_correct [OF assms(1-5) ne u] ne assms(11)
    unfolding update_correct_def by fastforce
  from assms(6) consider (http) "handleUpdate E ck coll key lang p s = (s', Inr saved)"
    | (grpc) "grpc_UpdateDocument E ck coll key lang p s = (s', Inr saved)"
    | (mcp) "mcp_UpdateDocument E ck coll key lang p s = (s', Inr saved)" by auto
  then have "sv_cache s' = sv_cache s \<and> sv_extreme s' = sv_extreme s \<and> coll \<noteq> [] \<and> key \<noteq> [] \<and> lang \<noteq> [] \<and>
      handleGet E t coll key lang s' = Inr saved"
  proof cases
    case http
    show ?thesis by (rule handleUpdate_cases [OF http]) (use logged in auto)
  next
    case grpc
    show ?thesis by (rule grpc_UpdateDocument_cases [OF grpc]) (use logged in auto)
  next
    case mcp
    obtain existing b where u: "read_stored E coll key lang (sv_db s) = Inr existing" "saved = patched (ck_now ck) p existing"
      "e_load E b = Ok saved" "cont (sv_db s') = c_put ''docs'' (DocKey coll (ID saved)) b (cont (sv_db s))"
      "sv_cache s' = sv_cache s" "sv_extreme s' = sv_extreme s" "coll \<noteq> []" "key \<noteq> []" "lang \<noteq> []"
      using mcp_update_done [OF assms(1,2) mcp] by metis
    have "docs_ok (e_load E) (cont (sv_db s))" using assms(3) by (simp add: store_ok_def)
    from read_stored_at(1) [OF assms(1) u(1) this assms(4)]
    have "cont (sv_db s) ''bykey'' (ByKeyKey coll key lang) = Some (ID saved)" using u(2) by simp
    then have "lookup_doc (e_bolt E) coll key lang (sv_db s') = Some b"
      unfolding lookup_doc_contents [OF assms(1)] u(4) by (simp add: store_simps)
    with u assms(11) show ?thesis by (simp add: handleGet_def)
  qed
  moreover from this have "snd (grpc_Get E ck' coll key lang s') = Inr old"
    using assms(7-10) by (simp add: grpc_Get_def cache_get_def case_prod_beta Let_def dc_lookup_def)
  ultimately show ?thesis by blast
qed

lemma CompressDoc_flag: "CompressDoc L c data \<noteq> [] \<and> hd (CompressDoc L c data) \<noteq> CHR ''M''"
  by (simp add: CompressDoc_def Let_def)

lemma IsEncrypted_magic: "IsEncrypted b \<Longrightarrow> hd b = CHR ''M''"
  by (cases b) (auto simp: IsEncrypted_def CiphertextVersion_def MagicV1_def MagicV2_def numeral_eq_Suc split: if_splits)

lemma marshalDoc_clear: "marshalDoc L c doc = Inr buf \<Longrightarrow> \<not> IsEncrypted buf"
  using CompressDoc_flag [of L c] by (auto simp: marshalDoc_def split: option.splits dest!: IsEncrypted_magic)

text \<open>Setting the time to live writes the document in the clear: over every transport the
  stored bytes are those of \<open>marshalDoc\<close>, not encrypted, whether or not the collection is opted
  into encryption; what \<open>marshalAndEncrypt\<close> writes for an opted-in collection is sealed.\<close>

theorem set_ttl_unseals:
  assumes "bolt_laws (e_bolt E) cont"
    and "(s', Inr saved) \<in> {handleSetTTL E (marshalDoc L c) ck coll key lang ttl s,
           grpc_SetTTL E (marshalDoc L c) ck coll key lang ttl s, mcp_SetTTL E (marshalDoc L c) ck coll key lang ttl s}"
  shows "\<exists>buf. cont (sv_db s') ''docs'' (DocKey coll (genID [coll, key, lang])) = Some buf \<and>
     marshalDoc L c saved = Inr buf \<and> \<not> IsEncrypted buf \<and> ExpiresAt saved = expiry_of (ck_now ck) ttl \<and>
     (\<forall>e n sealed. codec_laws L \<and> Enabled e \<and> CollectionEnabled coll e \<and> length n = 12 \<and>
        marshalAndEncrypt L c (Some e) (Some n) saved coll = Ok sealed \<longrightarrow> IsEncrypted sealed)"
proof -
  let ?i = "genID [coll, key, lang]" and ?e = "expiry_of (ck_now ck) ttl"
  have wrote: "(\<exists>buf. cont tx' ''docs'' (DocKey coll ?i) = Some buf \<and> marshalDoc L c saved = Inr buf) \<and> ExpiresAt saved = ?e"
    if "set_ttl_txn (e_bolt E) load (marshalDoc L c) coll ?i ?e tx = Inr (tx', (saved, bo))" (is ?txn) for load tx tx' bo
  proof -
    have t: ?txn by (rule that)
    obtain d buf where "saved = d\<lparr>ExpiresAt := ?e\<rparr>" "marshalDoc L c saved = Inr buf"
      "cont tx' = c_put ''docs'' (DocKey coll ?i) buf (cont tx)"
      using set_ttl_txn_done [OF assms(1) t] by metis
    then show ?thesis by (simp add: store_simps del: genID.simps)
  qed
  from assms(2) consider (http) "handleSetTTL E (marshalDoc L c) ck coll key lang ttl s = (s', Inr saved)"
    | (grpc) "grpc_SetTTL E (marshalDoc L c) ck coll key lang ttl s = (s', Inr saved)"
    | (mcp) "mcp_SetTTL E (marshalDoc L c) ck coll key lang ttl s = (s', Inr saved)" by auto
  then have "(\<exists>buf. cont (sv_db s') ''docs'' (DocKey coll ?i) = Some buf \<and> marshalDoc L c saved = Inr buf) \<and> ExpiresAt saved = ?e"
  proof cases
    case http
    then have "logged_update (e_bolt E) ck (set_ttl_txn (e_bolt E) (e_load E) (marshalDoc L c) coll ?i ?e)
        (\<lambda>_. set_ttl_hooks E coll ?i ?e) s = (s', Inr saved)"
      by (simp add: handleSetTTL_def Let_def del: genID.simps split: if_splits)
    then show ?thesis
      by (rule logged_update_cases [OF assms(1)]) (use wrote in auto)
  next
    case grpc
    then have "unlogged_update (e_bolt E) (set_ttl_txn (e_bolt E) (e_unmarshal E) (marshalDoc L c) coll ?i ?e)
        (set_ttl_hooks E coll ?i ?e) s = (s', Inr saved)"
      by (simp add: grpc_SetTTL_def Let_def del: genID.simps split: if_splits)
    then show ?thesis by (rule unlogged_update_done [OF assms(1)]) (use wrote in auto)
  next
    case mcp
    then have "unlogged_update (e_bolt E) (set_ttl_txn (e_bolt E) (e_load E) (marshalDoc L c) coll ?i ?e)
        (set_ttl_hooks E coll ?i ?e) s = (s', Inr saved)"
      by (simp add: mcp_SetTTL_def Let_def del: genID.simps split: if_splits)
    then show ?thesis by (rule unlogged_update_done [OF assms(1)]) (use wrote in auto)
  qed
  moreover have "IsEncrypted sealed" if "codec_laws L" "Enabled e" "CollectionEnabled coll e" "length n = 12"
    "marshalAndEncrypt L c (Some e) (Some n) saved coll = Ok sealed" for e n sealed
    using sealed_at_rest [OF that(1,5,4,2)] that(3) by simp
  ultimately show ?thesis using marshalDoc_clear by blast
qed

subsection \<open>Witnesses\<close>

definition old_doc :: Doc where "old_doc = ref_doc\<lparr>Meta := [(''t'', [''x''])]\<rparr>"

definition new_doc' :: Doc where "new_doc' = ref_doc\<lparr>UpdatedAt := 9\<rparr>"

definition timed_doc :: Doc where "timed_doc = old_doc\<lparr>ExpiresAt := 109\<rparr>"

definition upd_env :: "(mem_db, unit) env" where
  "upd_env = (ref_env None)\<lparr>
     e_marshal := (\<lambda>d coll. if d = old_doc then Ok ''O'' else if d = new_doc' then Ok ''C'' else Err ProtoError),
     e_load := (\<lambda>b. if b = ''O'' then Ok old_doc else if b = ''C'' then Ok new_doc' else if b = ''E'' then Ok timed_doc else Err ProtoError),
     e_unmarshal := (\<lambda>b. if b = ''O'' then Ok old_doc else if b = ''C'' then Ok new_doc' else Err ProtoError)\<rparr>"

definition upd_mdoc :: "Doc \<Rightarrow> codec_error + bytes" where
  "upd_mdoc d = (if d = timed_doc then Inr ''E'' else Inl ProtoError)"

definition upd_db :: mem_db where
  "upd_db = [(''docs'', [(DocKey ''c'' ''c|k|en'', ''O'')]), (''bykey'', [(ByKeyKey ''c'' ''k'' ''en'', ''c|k|en'')]),
     (''idxmeta'', [(MetaKeyPrefix ''c'' ''t'' ''x'' @ ''c|k|en'', ''1'')])]"

definition upd_patch :: patch where "upd_patch = \<lparr>p_meta = Some [], p_content = None, p_ttl = None\<rparr>"

abbreviation upd_server :: "Binlog option \<Rightarrow> (mem_db, unit) server" where
  "upd_server bl \<equiv> (ref_server bl upd_db)\<lparr>sv_cache := Some (dc_Set 5 0 (BuildCacheKey ''c'' ''k'' ''en'') ''O'' (NewDocumentCache 10 60))\<rparr>"

interpretation upd_env: doc_codec "e_marshal upd_env" "e_load upd_env" "e_unmarshal upd_env"
  by unfold_locales (auto simp: upd_env_def old_doc_def new_doc'_def ref_doc_def split: if_splits)

lemma upd_laws: "bolt_laws (e_bolt upd_env) mem_contents"
  by (simp add: upd_env_def ref_env_def mem.bolt_laws_axioms)

lemma upd_db_doc: "doc_at (e_load upd_env) (mem_contents upd_db) coll i d \<longleftrightarrow> coll = ''c'' \<and> i = ''c|k|en'' \<and> d = old_doc"
  using DocKey_inject [of coll "''c''" i "''c|k|en''"]
  by (auto simp: doc_at_def upd_db_def mem_contents_def mem_bucket_def upd_env_def)

lemma upd_store_ok: "store_ok (e_load upd_env) (mem_contents upd_db)"
proof -
  have "docs_ok (e_load upd_env) (mem_contents upd_db)"
    using DocKey_inject [of _ "''c''" _ "''c|k|en''"]
    by (fastforce simp: docs_ok_def upd_db_def mem_contents_def mem_bucket_def upd_env_def old_doc_def ref_doc_def meta_ok_def
        split: if_splits)
  moreover have "index_exact (e_load upd_env) (mem_contents upd_db)"
    unfolding index_exact_def upd_db_doc
    by (simp add: upd_db_def mem_contents_def mem_bucket_def meta_keys_def old_doc_def)
  ultimately show ?thesis by (simp add: store_ok_def)
qed

lemmas upd_eval = upd_env_def old_doc_def new_doc'_def timed_doc_def upd_db_def upd_patch_def no_fields_def schema_rejects_def
  read_stored_def lookup_doc_def patched_def marshal_doc_def metaDidChange_def reindex_def meta_keys_def del_quiet_def
  ref_eval key_defs length_fmt_020d Let_def

lemma upd_server_db: "sv_db (upd_server bl) = upd_db" "sv_binlog (upd_server bl) = bl" "\<not> sv_extreme (upd_server bl)"
  by (simp_all add: ref_server_def)

lemma upd_http: "snd (handleUpdate upd_env (ref_clock 9) ''c'' ''k'' ''en'' upd_patch (upd_server None)) = Inr new_doc'"
  by (simp add: handleUpdate_def logged_update_def http_update_txn_def upd_eval)

lemma upd_mcp: "snd (mcp_UpdateDocument upd_env (ref_clock 9) ''c'' ''k'' ''en'' upd_patch (upd_server bl)) = Inr new_doc'"
  by (simp add: mcp_UpdateDocument_def mcp_update_txn_def upd_eval)


lemma upd_mcp': obtains s' where
  "mcp_UpdateDocument upd_env (ref_clock 9) ''c'' ''k'' ''en'' upd_patch (upd_server bl) = (s', Inr new_doc')"
  using upd_mcp by (metis prod.collapse)

theorem unlogged_updates_diverge_witness:
  "\<exists>s' :: (mem_db, unit) server. sv_binlog s' = Some (log_of []) \<and> \<not> leader_ok mem_contents (mem_contents upd_db) s'"
proof -
  obtain s' where s': "mcp_UpdateDocument upd_env (ref_clock 9) ''c'' ''k'' ''en'' upd_patch (upd_server (Some (log_of []))) = (s', Inr new_doc')"
    by (rule upd_mcp')
  have mdoc: "\<forall>d buf. upd_mdoc d = Inr buf \<longrightarrow> e_load upd_env buf = Ok d"
    by (auto simp: upd_mdoc_def upd_env_def split: if_splits)
  have old: "\<forall>k v. mem_contents (sv_db (upd_server (Some (log_of [])))) ''docs'' k = Some v \<longrightarrow> e_load upd_env v \<noteq> Ok new_doc'"
    unfolding upd_server_db
    by (auto simp: upd_db_def mem_contents_def mem_bucket_def upd_env_def old_doc_def new_doc'_def ref_doc_def empty_doc_def split: if_splits)
  have "log_rep (log_of []) []" by (rule log_rep_log_of [where l = 1]) simp_all
  then have lead: "leader_ok mem_contents (mem_contents upd_db) (upd_server (Some (log_of [])))"
    unfolding leader_ok_def upd_server_db by (intro exI [of _ "log_of []"] exI [of _ "[]"]) simp
  have "(s', Inr new_doc') \<in> {mcp_UpdateDocument upd_env (ref_clock 9) ''c'' ''k'' ''en'' upd_patch (upd_server (Some (log_of []))),
      grpc_SetTTL upd_env upd_mdoc (ref_clock 9) ''c'' ''k'' ''en'' 100 (upd_server (Some (log_of []))),
      mcp_SetTTL upd_env upd_mdoc (ref_clock 9) ''c'' ''k'' ''en'' 100 (upd_server (Some (log_of [])))}"
    using s' by simp
  from unlogged_updates_diverge [OF upd_laws upd_env.doc_codec_axioms mdoc this old lead] show ?thesis
    unfolding upd_server_db by blast
qed

theorem mcp_update_breaks_index_witness:
  "\<exists>s' :: (mem_db, unit) server. mem_contents (sv_db s') ''idxmeta'' (MetaKeyPrefix ''c'' ''t'' ''x'' @ ''c|k|en'') \<noteq> None \<and>
     \<not> index_exact (e_load upd_env) (mem_contents (sv_db s'))"
proof -
  obtain s' where s': "mcp_UpdateDocument upd_env (ref_clock 9) ''c'' ''k'' ''en'' upd_patch (upd_server None) = (s', Inr new_doc')"
    by (rule upd_mcp')
  have ok: "store_ok (e_load upd_env) (mem_contents (sv_db (upd_server None)))" unfolding upd_server_db by (rule upd_store_ok)
  have i: "ID new_doc' = ''c|k|en''" by (simp add: new_doc'_def ref_doc_def)
  have at: "doc_at (e_load upd_env) (mem_contents (sv_db (upd_server None))) ''c'' (ID new_doc') old_doc"
    unfolding upd_server_db upd_db_doc i by simp
  have p: "p_meta upd_patch = Some []" "meta_ok []" "nosep ''c''" by (simp_all add: upd_patch_def meta_ok_def)
  have k: "MetaKeyPrefix ''c'' ''t'' ''x'' @ ''c|k|en'' \<in> set (meta_keys ''c'' (Meta old_doc) (ID new_doc'))"
    "MetaKeyPrefix ''c'' ''t'' ''x'' @ ''c|k|en'' \<notin> set (meta_keys ''c'' [] (ID new_doc'))"
    unfolding i by (simp_all add: meta_keys_def old_doc_def)
  from mcp_update_breaks_index [OF upd_laws upd_env.doc_codec_axioms ok p(3) s' p(1,2) at k] show ?thesis by blast
qed

theorem updates_leave_cache_witness:
  "\<exists>s' :: (mem_db, unit) server. snd (grpc_Get upd_env (ref_clock 9) ''c'' ''k'' ''en'' s') = Inr old_doc \<and>
     handleGet upd_env 9 ''c'' ''k'' ''en'' s' = Inr new_doc'"
proof -
  let ?c = "dc_Set 5 0 (BuildCacheKey ''c'' ''k'' ''en'') ''O'' (NewDocumentCache 10 60)"
  obtain s' where s': "handleUpdate upd_env (ref_clock 9) ''c'' ''k'' ''en'' upd_patch (upd_server None) = (s', Inr new_doc')"
    using upd_http by (metis prod.collapse)
  have ok: "store_ok (e_load upd_env) (mem_contents (sv_db (upd_server None)))" unfolding upd_server_db by (rule upd_store_ok)
  have m: "\<forall>m. p_meta upd_patch = Some m \<longrightarrow> meta_ok m" "nosep ''c''" by (simp_all add: upd_patch_def meta_ok_def)
  have mem: "(s', Inr new_doc') \<in> {handleUpdate upd_env (ref_clock 9) ''c'' ''k'' ''en'' upd_patch (upd_server None),
      grpc_UpdateDocument upd_env (ref_clock 9) ''c'' ''k'' ''en'' upd_patch (upd_server None),
      mcp_UpdateDocument upd_env (ref_clock 9) ''c'' ''k'' ''en'' upd_patch (upd_server None)}"
    using s' by simp
  have c: "sv_cache (upd_server None) = Some ?c" by simp
  have "dc_inv (NewDocumentCache 10 60)" by (simp add: dc_inv_def NewDocumentCache_def)
  moreover have "ck_now (ref_clock 9) \<le> dc_expiry 5 (NewDocumentCache 10 60)"
    by (simp add: ref_clock_def dc_expiry_def NewDocumentCache_def wrap64_def)
  ultimately have hit: "dc_lookup (ck_now (ref_clock 9)) ?c (BuildCacheKey ''c'' ''k'' ''en'') = Some ''O''"
    by (rule dc.lookup_store)
  have o: "e_unmarshal upd_env ''O'' = Ok old_doc" "ExpiresAt new_doc' = 0"
    by (simp_all add: upd_env_def new_doc'_def ref_doc_def empty_doc_def)
  from updates_leave_cache [OF upd_laws upd_env.doc_codec_axioms ok m(2,1) mem upd_server_db(3) c hit o, of 9]
  show ?thesis by blast
qed

theorem set_ttl_unseals_witness:
  "\<exists>s' :: (mem_db, unit) server. \<exists>buf. mem_contents (sv_db s') ''docs'' (DocKey ''c'' (genID [''c'', ''k'', ''en''])) = Some buf \<and> \<not> IsEncrypted buf"
proof -
  let ?s = "ref_server None [(''docs'', [(DocKey ''c'' ''c|k|en'', ''B'')])]"
  have "snd (handleSetTTL (ref_env None) (marshalDoc ref_lib default_compression) (ref_clock 9) ''c'' ''k'' ''en'' 0 ?s) = Inr ref_doc"
    by (simp add: handleSetTTL_def logged_update_def set_ttl_txn_def marshalDoc_def ref_lib_def expiry_of_def CompressDoc_def
        default_compression_def DocToProto_def ref_eval key_defs Let_def)
  then obtain s' where "handleSetTTL (ref_env None) (marshalDoc ref_lib default_compression) (ref_clock 9) ''c'' ''k'' ''en'' 0 ?s = (s', Inr ref_doc)"
    by (metis prod.collapse)
  then have "(s', Inr ref_doc) \<in> {handleSetTTL (ref_env None) (marshalDoc ref_lib default_compression) (ref_clock 9) ''c'' ''k'' ''en'' 0 ?s,
      grpc_SetTTL (ref_env None) (marshalDoc ref_lib default_compression) (ref_clock 9) ''c'' ''k'' ''en'' 0 ?s,
      mcp_SetTTL (ref_env None) (marshalDoc ref_lib default_compression) (ref_clock 9) ''c'' ''k'' ''en'' 0 ?s}" by simp
  from set_ttl_unseals [OF ref_laws this] show ?thesis by blast
qed

end
