(* ===== verification/Batch_Write.thy ===== *)
theory Batch_Write
  imports Document_Update Index_Queue
begin

section \<open>Batches of writes\<close>

text \<open>
  Models \<^verbatim>\<open>batch.go\<close>, \<^verbatim>\<open>batch_final.go\<close> and the post-commit hooks and the dispatch of
  \<^verbatim>\<open>batch_handler.go\<close>.  A batch is written in two phases.  First every document is prepared
  by a worker in a read transaction of its own, the result of the \<open>i\<close>-th being the slot \<open>i\<close>; a
  worker that finds the request cancelled leaves its slot nil.  Then one write transaction stores
  all prepared documents, going on after the ones that fail.  The standard processor logs what it
  stored; the one of the extreme mode reads all documents in one transaction, does not log, and
  writes the cache from inside the transaction.  The slots a worker filled, and the store it saw,
  are the parameter \<open>views\<close>: \<^term>\<open>None\<close> for a slot whose worker stopped.  A panic in a worker
  ends the process; a panic in the write transaction rolls it back.
\<close>

type_synonym i32 = "32 word"

definition safeInt32 :: "int \<Rightarrow> i32" where
  "safeInt32 v = (if v > 2147483647 then 2147483647 else if v < - 2147483648 then - 2147483648 else word_of_int v)"

record BatchDocument =
  bd_Key :: bytes
  bd_Lang :: bytes
  bd_Meta :: meta
  bd_ContentMd :: bytes
  bd_SaveRevision :: bool

datatype batch_error =
    MissingKeyOrLang | BatchSchema | BatchLoad codec_error | BatchMarshal codec_error
  | BatchPut | BatchByKey | BatchIndex | BatchRevision | BatchTrim | BatchNotFound | BatchDelete
  | BatchTransaction | BatchMetaIndex enqueue_error

record ProcessedDoc =
  pd_DocID :: bytes
  pd_Doc :: Doc
  pd_Buf :: bytes
  pd_Meta :: meta
  pd_Existing :: Doc
  pd_IsUpdate :: bool
  pd_SaveRevision :: bool
  pd_Error :: "batch_error option"

definition no_result :: ProcessedDoc where
  "no_result = \<lparr>pd_DocID = [], pd_Doc = empty_doc, pd_Buf = [], pd_Meta = [], pd_Existing = empty_doc,
     pd_IsUpdate = False, pd_SaveRevision = False, pd_Error = None\<rparr>"

record AddBatchResponse =
  Added :: i32
  Updated :: i32
  Failed :: i32
  Errors :: "(bytes \<times> batch_error) list"

definition no_response :: AddBatchResponse where
  "no_response = \<lparr>Added = 0, Updated = 0, Failed = 0, Errors = []\<rparr>"

definition fail :: "bytes \<Rightarrow> batch_error \<Rightarrow> AddBatchResponse \<Rightarrow> AddBatchResponse" where
  "fail key err r = r\<lparr>Failed := Failed r + 1, Errors := Errors r @ [(key, err)]\<rparr>"

definition success :: "ProcessedDoc \<Rightarrow> AddBatchResponse \<Rightarrow> AddBatchResponse" where
  "success p r = (if pd_IsUpdate p then r\<lparr>Updated := Updated r + 1\<rparr> else r\<lparr>Added := Added r + 1\<rparr>)"

subsection \<open>Preparing a document\<close>

text \<open>The document a batch stores: it has no expiry, whatever the stored one had.\<close>

definition batch_doc :: "int \<Rightarrow> bytes \<Rightarrow> BatchDocument \<Rightarrow> int \<Rightarrow> Doc" where
  "batch_doc now coll bd added =
     \<lparr>ID = genID [coll, bd_Key bd, bd_Lang bd], DKey = bd_Key bd, Lang = bd_Lang bd, Meta = bd_Meta bd,
      ContentMD = bd_ContentMd bd, AddedAt = added, UpdatedAt = now, ExpiresAt = 0\<rparr>"

definition marshal_result :: "('tx, 'p) env \<Rightarrow> bytes \<Rightarrow> BatchDocument \<Rightarrow> int \<Rightarrow> int \<Rightarrow> ProcessedDoc \<Rightarrow> ProcessedDoc option" where
  "marshal_result E coll bd now addedAt r =
     (let doc = batch_doc now coll bd (if addedAt = 0 then now else addedAt)
      in case e_marshal E doc coll of Panic \<Rightarrow> None
         | Err err \<Rightarrow> Some (r\<lparr>pd_Error := Some (BatchMarshal err)\<rparr>)
         | Ok buf \<Rightarrow> Some (r\<lparr>pd_Doc := doc, pd_Buf := buf, pd_SaveRevision := bd_SaveRevision bd\<rparr>))"

definition processDocument :: "('tx, 'p) env \<Rightarrow> bytes \<Rightarrow> int \<Rightarrow> 'tx \<Rightarrow> BatchDocument \<Rightarrow> ProcessedDoc option" where
  "processDocument E coll now view bd =
     (if bd_Key bd = [] \<or> bd_Lang bd = [] then Some (no_result\<lparr>pd_Error := Some MissingKeyOrLang\<rparr>)
      else let r1 = no_result\<lparr>pd_Meta := bd_Meta bd\<rparr>
      in if \<not> e_validate E coll (bd_Meta bd) then Some (r1\<lparr>pd_Error := Some BatchSchema\<rparr>)
      else let docID = genID [coll, bd_Key bd, bd_Lang bd]; r2 = r1\<lparr>pd_DocID := docID\<rparr>
      in case bk_get (e_bolt E) ''docs'' (DocKey coll docID) view of
           None \<Rightarrow> marshal_result E coll bd now 0 r2
         | Some v \<Rightarrow>
             (case e_unmarshal E v of Panic \<Rightarrow> None
              | Err err \<Rightarrow> Some (r2\<lparr>pd_Error := Some (BatchLoad err)\<rparr>)
              | Ok d \<Rightarrow> marshal_result E coll bd now (AddedAt d) (r2\<lparr>pd_IsUpdate := True, pd_Existing := d\<rparr>)))"

text \<open>The slots after all workers are done; \<^term>\<open>None\<close> is a panic in one of them.\<close>

fun parallelProcess :: "('tx, 'p) env \<Rightarrow> bytes \<Rightarrow> int \<Rightarrow> (nat \<Rightarrow> 'tx option) \<Rightarrow> BatchDocument list \<Rightarrow> ProcessedDoc option list option" where
  "parallelProcess E coll now views [] = Some []"
| "parallelProcess E coll now views (bd # bds) =
     (case parallelProcess E coll now (\<lambda>i. views (Suc i)) bds of None \<Rightarrow> None
      | Some slots \<Rightarrow>
          (case views 0 of None \<Rightarrow> Some (None # slots)
           | Some view \<Rightarrow> (case processDocument E coll now view bd of None \<Rightarrow> None | Some p \<Rightarrow> Some (Some p # slots))))"

subsection \<open>The write transaction\<close>

text \<open>The new index entries: an entry that cannot be stored is counted as a failure and passed over.\<close>

fun batch_index_puts :: "'tx bolt \<Rightarrow> bytes \<Rightarrow> bytes list \<Rightarrow> 'tx logged \<times> AddBatchResponse \<Rightarrow> 'tx logged \<times> AddBatchResponse" where
  "batch_index_puts B key [] st = st"
| "batch_index_puts B key (k # ks) (s, r) =
     (case put_log B ''idxmeta'' k ''1'' s of
        Inl _ \<Rightarrow> batch_index_puts B key ks (s, fail key BatchIndex r)
      | Inr s' \<Rightarrow> batch_index_puts B key ks (s', r))"

definition batch_index :: "'tx bolt \<Rightarrow> bytes \<Rightarrow> ProcessedDoc \<Rightarrow> 'tx logged \<times> AddBatchResponse \<Rightarrow> 'tx logged \<times> AddBatchResponse" where
  "batch_index B coll p st =
     (let existing = pd_Existing p; doc = pd_Doc p
      in if metadataChanged (Meta existing) (Meta doc) then
           let s1 = (if ID existing \<noteq> [] then fold (del_quiet B ''idxmeta'') (meta_keys coll (Meta existing) (ID existing)) (fst st)
                     else fst st)
           in batch_index_puts B (DKey doc) (meta_keys coll (Meta doc) (ID doc)) (s1, snd st)
         else st)"

text \<open>\<open>del_some\<close> deletes up to the first error and keeps what was deleted before it.\<close>

fun del_some :: "'tx bolt \<Rightarrow> bytes \<Rightarrow> bytes list \<Rightarrow> 'tx logged \<Rightarrow> 'tx logged \<times> bool" where
  "del_some B b [] s = (s, True)"
| "del_some B b (k # ks) s = (case del_log B b k s of Inl _ \<Rightarrow> (s, False) | Inr s' \<Rightarrow> del_some B b ks s')"

definition batch_trim :: "'tx bolt \<Rightarrow> bytes \<Rightarrow> bytes \<Rightarrow> int \<Rightarrow> 'tx logged \<Rightarrow> 'tx logged \<times> bool" where
  "batch_trim B coll docID keep s =
     (if keep \<le> 0 then (s, True)
      else let keys = map fst (bk_scan B ''rev'' (RevPrefix coll docID) (fst s))
      in if int (length keys) \<le> keep then (s, True)
         else del_some B ''rev'' (take (length keys - nat keep) keys) s)"

definition batch_revision :: "('tx, 'p) env \<Rightarrow> int \<Rightarrow> bytes \<Rightarrow> ProcessedDoc \<Rightarrow> 'tx logged \<Rightarrow> 'tx logged \<times> batch_error option" where
  "batch_revision E now coll p s =
     (if pd_SaveRevision p then
        case put_log (e_bolt E) ''rev'' (RevPrefix coll (ID (pd_Doc p)) @ fmt_020d now) (pd_Buf p) s of
          Inl _ \<Rightarrow> (s, Some BatchRevision)
        | Inr s' \<Rightarrow>
            (case e_maxRevisions E coll of
               Some n \<Rightarrow> if n > 0 then (case batch_trim (e_bolt E) coll (ID (pd_Doc p)) n s' of
                            (s'', True) \<Rightarrow> (s'', None) | (s'', False) \<Rightarrow> (s'', Some BatchTrim))
                         else (s', None)
             | None \<Rightarrow> (s', None))
      else (s, None))"

type_synonym 'tx batch_state = "'tx logged \<times> AddBatchResponse \<times> ProcessedDoc list"

definition commit_doc :: "('tx, 'p) env \<Rightarrow> int \<Rightarrow> bytes \<Rightarrow> ProcessedDoc \<Rightarrow> 'tx batch_state \<Rightarrow> 'tx batch_state" where
  "commit_doc E now coll p = (\<lambda>(s, r, done).
     (let B = e_bolt E; key = DKey (pd_Doc p); docKey = DocKey coll (pd_DocID p)
      in case pd_Error p of Some err \<Rightarrow> (s, fail key err r, done)
      | None \<Rightarrow>
        (case put_log B ''docs'' docKey (pd_Buf p) s of Inl _ \<Rightarrow> (s, fail key BatchPut r, done)
         | Inr s1 \<Rightarrow>
           (case put_log B ''bykey'' (ByKeyKey coll key (Lang (pd_Doc p))) (pd_DocID p) s1 of
              Inl _ \<Rightarrow> (s1, fail key BatchByKey r, done)
            | Inr s2 \<Rightarrow>
              (case batch_index B coll p (s2, r) of (s3, r3) \<Rightarrow>
                 (case batch_revision E now coll p s3 of
                    (s4, Some err) \<Rightarrow> (s4, fail key err r3, done)
                  | (s4, None) \<Rightarrow> (s4, success p r3, done @ [p])))))))"

text \<open>Dereferencing a nil slot panics.\<close>

fun commit_docs :: "('tx, 'p) env \<Rightarrow> int \<Rightarrow> bytes \<Rightarrow> ProcessedDoc option list \<Rightarrow> 'tx batch_state \<Rightarrow> 'tx batch_state option" where
  "commit_docs E now coll [] st = Some st"
| "commit_docs E now coll (None # ps) st = None"
| "commit_docs E now coll (Some p # ps) st = commit_docs E now coll ps (commit_doc E now coll p st)"

text \<open>When the commit fails the response keeps the counts of added and updated documents.\<close>

definition rolled_back :: "nat \<Rightarrow> AddBatchResponse \<Rightarrow> AddBatchResponse" where
  "rolled_back n r = r\<lparr>Failed := safeInt32 (int n), Errors := Errors r @ [([], BatchTransaction)]\<rparr>"

definition commitBatch :: "('tx, 'p) env \<Rightarrow> clock \<Rightarrow> int \<Rightarrow> bytes \<Rightarrow> ProcessedDoc option list \<Rightarrow> ('tx, 'p) server \<Rightarrow>
    ('tx, 'p) server \<times> (AddBatchResponse \<times> ProcessedDoc list) option" where
  "commitBatch E ck now coll slots s =
     (case commit_docs E now coll slots ((sv_db s, []), no_response, []) of
        None \<Rightarrow> (s, None)
      | Some ((tx, bo), r, done) \<Rightarrow>
          (case bk_commit (e_bolt E) tx of
             None \<Rightarrow> (s, Some (rolled_back (length slots) r, []))
           | Some db \<Rightarrow>
               (s\<lparr>sv_db := db, sv_binlog := FlushTo (ck_binlog ck) (ck_io ck) bo (sv_binlog s)\<rparr>, Some (r, done))))"

subsection \<open>The hooks after the commit\<close>

record postBatchOptions =
  SkipEmbeddings :: bool
  SkipFTS :: bool
  SkipWebhooks :: bool

definition no_options :: postBatchOptions where
  "no_options = \<lparr>SkipEmbeddings = False, SkipFTS = False, SkipWebhooks = False\<rparr>"

definition post_batch_hooks :: "('tx, 'p) env \<Rightarrow> bytes \<Rightarrow> postBatchOptions \<Rightarrow> ProcessedDoc \<Rightarrow> 'p effect list" where
  "post_batch_hooks E coll opts p =
     (let i = pd_DocID p; doc = pd_Doc p; event = (if pd_IsUpdate p then ''doc.updated'' else ''doc.added'')
      in (if \<not> SkipEmbeddings opts \<and> e_embedding E \<and> ContentMD doc \<noteq> [] then [EmbedEnqueue coll i (ContentMD doc)] else []) @
         (if e_ttl E \<and> ExpiresAt doc > 0 then [TTLSet coll i (ExpiresAt doc)] else []) @
         (case e_geo E of None \<Rightarrow> []
          | Some geo \<Rightarrow>
              (case geo coll i (Meta doc) of
                 Some pt \<Rightarrow> [GeoAdd coll i pt, GeoStorePut coll i pt] @ (if e_geohash E then [GeoHashAdd coll i pt] else [])
               | None \<Rightarrow> if pd_IsUpdate p
                   then [GeoRemove coll i] @ (if e_geohash E then [GeoHashRemove coll i] else []) @ [GeoStoreDelete coll i]
                   else [])) @
         (if e_temporal E then [TemporalRecord coll i (\<not> pd_IsUpdate p)] else []) @
         (if \<not> SkipFTS opts \<and> e_fts E \<and> ContentMD doc \<noteq> [] then
            [FTSIndex coll i (ContentMD doc) (Lang doc), FTSPositions coll i (ContentMD doc) (Lang doc),
             FTSFields coll i (fts_fields doc) (Lang doc)] else []) @
         (if SkipWebhooks opts then []
          else (if e_webhooks E then [WebhookFire event coll (DKey doc) (Lang doc) (Some doc)] else []) @
               (if e_sse E then [SSEBroadcast event coll (DKey doc) (Lang doc)] else [])) @
         (if e_triggers E then [Trigger coll doc (if pd_IsUpdate p then ''update'' else ''insert'')] else []))"

definition firePostBatchHooks :: "('tx, 'p) env \<Rightarrow> bytes \<Rightarrow> ProcessedDoc list \<Rightarrow> postBatchOptions \<Rightarrow> 'p effect list" where
  "firePostBatchHooks E coll processed opts =
     concat (map (\<lambda>p. if pd_Error p \<noteq> None then [] else post_batch_hooks E coll opts p) processed)"

text \<open>\<open>ProcessBatch\<close> of the standard processor; \<^term>\<open>None\<close> is a panic.\<close>

definition ProcessBatch :: "('tx, 'p) env \<Rightarrow> clock \<Rightarrow> bytes \<Rightarrow> (nat \<Rightarrow> 'tx option) \<Rightarrow> BatchDocument list \<Rightarrow> ('tx, 'p) server \<Rightarrow>
    ('tx, 'p) server \<times> AddBatchResponse option" where
  "ProcessBatch E ck coll views docs s =
     (if docs = [] then (s, Some no_response)
      else case parallelProcess E coll (ck_now ck) views docs of None \<Rightarrow> (s, None)
      | Some slots \<Rightarrow>
          (case commitBatch E ck (ck_now ck) coll slots s of (s1, None) \<Rightarrow> (s1, None)
           | (s1, Some (r, done)) \<Rightarrow>
               (s1\<lparr>sv_effects := sv_effects s1 @ firePostBatchHooks E coll done no_options\<rparr>, Some r)))"

subsection \<open>The processor of the extreme mode\<close>

definition batchReadAll :: "'tx bolt \<Rightarrow> bytes \<Rightarrow> BatchDocument list \<Rightarrow> 'tx \<Rightarrow> bytes \<rightharpoonup> bytes" where
  "batchReadAll B coll docs tx =
     fold (\<lambda>bd m. if bd_Key bd = [] \<or> bd_Lang bd = [] then m
                  else let docID = genID [coll, bd_Key bd, bd_Lang bd]
                       in case bk_get B ''docs'' (''doc|'' @ coll @ ''|'' @ docID) tx of
                            None \<Rightarrow> m | Some v \<Rightarrow> m(docID \<mapsto> v)) docs Map.empty"

definition processDocumentFast :: "('tx, 'p) env \<Rightarrow> bytes \<Rightarrow> (bytes \<rightharpoonup> bytes) \<Rightarrow> int \<Rightarrow> BatchDocument \<Rightarrow> ProcessedDoc option" where
  "processDocumentFast E coll existingMap now bd =
     (if bd_Key bd = [] \<or> bd_Lang bd = [] then Some (no_result\<lparr>pd_Error := Some MissingKeyOrLang\<rparr>)
      else let r1 = no_result\<lparr>pd_Meta := bd_Meta bd\<rparr>
      in if \<not> e_validate E coll (bd_Meta bd) then Some (r1\<lparr>pd_Error := Some BatchSchema\<rparr>)
      else let docID = genID [coll, bd_Key bd, bd_Lang bd]; r2 = r1\<lparr>pd_DocID := docID\<rparr>
      in case existingMap docID of
           None \<Rightarrow> marshal_result E coll bd now 0 r2
         | Some v \<Rightarrow>
             (case e_unmarshal E v of Panic \<Rightarrow> None
              | Err _ \<Rightarrow> marshal_result E coll bd now 0 (r2\<lparr>pd_IsUpdate := True\<rparr>)
              | Ok d \<Rightarrow> marshal_result E coll bd now (AddedAt d) (r2\<lparr>pd_IsUpdate := True, pd_Existing := d\<rparr>)))"

text \<open>\<open>taken i\<close>: a worker prepared document \<open>i\<close> before it found the request cancelled.\<close>

fun parallelMarshal :: "('tx, 'p) env \<Rightarrow> bytes \<Rightarrow> int \<Rightarrow> (bytes \<rightharpoonup> bytes) \<Rightarrow> (nat \<Rightarrow> bool) \<Rightarrow> BatchDocument list \<Rightarrow> ProcessedDoc option list option" where
  "parallelMarshal E coll now m taken [] = Some []"
| "parallelMarshal E coll now m taken (bd # bds) =
     (case parallelMarshal E coll now m (\<lambda>i. taken (Suc i)) bds of None \<Rightarrow> None
      | Some slots \<Rightarrow>
          if taken 0 then (case processDocumentFast E coll m now bd of None \<Rightarrow> None | Some p \<Rightarrow> Some (Some p # slots))
          else Some (None # slots))"

text \<open>The index keys are built in one reused buffer, the errors of \<open>Put\<close> and \<open>trimRevisions\<close> are
  dropped, and so are the operations \<open>trimRevisions\<close> records.\<close>

definition put_quiet :: "'tx bolt \<Rightarrow> bytes \<Rightarrow> bytes \<Rightarrow> bytes \<Rightarrow> 'tx \<Rightarrow> 'tx" where
  "put_quiet B b k v tx = (case bk_put B b k v tx of None \<Rightarrow> tx | Some tx' \<Rightarrow> tx')"

definition delete_quiet :: "'tx bolt \<Rightarrow> bytes \<Rightarrow> bytes \<Rightarrow> 'tx \<Rightarrow> 'tx" where
  "delete_quiet B b k tx = (case bk_delete B b k tx of None \<Rightarrow> tx | Some tx' \<Rightarrow> tx')"

definition final_index :: "'tx bolt \<Rightarrow> bytes \<Rightarrow> ProcessedDoc \<Rightarrow> 'tx \<Rightarrow> 'tx" where
  "final_index B coll p tx =
     (let existing = pd_Existing p; doc = pd_Doc p
      in if metadataChanged (Meta existing) (Meta doc) then
           let tx1 = (if ID existing \<noteq> [] then fold (delete_quiet B ''idxmeta'') (meta_keys coll (Meta existing) (ID existing)) tx else tx)
           in fold (\<lambda>k. put_quiet B ''idxmeta'' k ''1'') (meta_keys coll (Meta doc) (ID doc)) tx1
         else tx)"

definition final_revision :: "('tx, 'p) env \<Rightarrow> int \<Rightarrow> bytes \<Rightarrow> ProcessedDoc \<Rightarrow> 'tx \<Rightarrow> 'tx" where
  "final_revision E now coll p tx =
     (if pd_SaveRevision p then
        let B = e_bolt E; tx1 = put_quiet B ''rev'' (''rev|'' @ coll @ ''|'' @ ID (pd_Doc p) @ ''|'' @ FormatTimestamp now) (pd_Buf p) tx
        in (case e_maxRevisions E coll of
              Some n \<Rightarrow> if n > 0 then fst (fst (batch_trim B coll (ID (pd_Doc p)) n (tx1, []))) else tx1
            | None \<Rightarrow> tx1)
      else tx)"

text \<open>The cache is set while the transaction is open; a nil document cache panics.\<close>

definition final_cache :: "clock \<Rightarrow> bytes \<Rightarrow> ProcessedDoc \<Rightarrow> ('tx, 'p) server \<Rightarrow> ('tx, 'p) server option" where
  "final_cache ck coll p s =
     (let cacheKey = BuildCacheKey coll (DKey (pd_Doc p)) (Lang (pd_Doc p))
      in if (sv_extreme s \<and> sv_lfcache s \<noteq> None) \<or> sv_cache s \<noteq> None then Some (refresh_cache ck cacheKey (pd_Buf p) s) else None)"

definition final_doc :: "('tx, 'p) env \<Rightarrow> clock \<Rightarrow> int \<Rightarrow> bytes \<Rightarrow> ProcessedDoc \<Rightarrow>
    'tx \<times> AddBatchResponse \<times> ProcessedDoc list \<times> ('tx, 'p) server \<Rightarrow> ('tx \<times> AddBatchResponse \<times> ProcessedDoc list \<times> ('tx, 'p) server) option" where
  "final_doc E ck now coll p = (\<lambda>(tx, r, done, s).
     (let B = e_bolt E; doc = pd_Doc p
      in case pd_Error p of Some err \<Rightarrow> Some (tx, fail (DKey doc) err r, done, s)
      | None \<Rightarrow>
        (case bk_put B ''docs'' (''doc|'' @ coll @ ''|'' @ pd_DocID p) (pd_Buf p) tx of
           None \<Rightarrow> Some (tx, r\<lparr>Failed := Failed r + 1\<rparr>, done, s)
         | Some tx1 \<Rightarrow>
           (case bk_put B ''bykey'' (''bykey|'' @ coll @ ''|'' @ DKey doc @ ''|'' @ Lang doc) (pd_DocID p) tx1 of
              None \<Rightarrow> Some (tx1, r\<lparr>Failed := Failed r + 1\<rparr>, done, s)
            | Some tx2 \<Rightarrow>
              (case final_cache ck coll p s of None \<Rightarrow> None
               | Some s' \<Rightarrow> Some (final_revision E now coll p (final_index B coll p tx2), success p r, done @ [p], s'))))))"

text \<open>What a panic leaves behind is the server with the cache entries set so far.\<close>

fun final_docs :: "('tx, 'p) env \<Rightarrow> (nat \<Rightarrow> clock) \<Rightarrow> int \<Rightarrow> bytes \<Rightarrow> ProcessedDoc option list \<Rightarrow>
    'tx \<times> AddBatchResponse \<times> ProcessedDoc list \<times> ('tx, 'p) server \<Rightarrow>
    ('tx, 'p) server \<times> ('tx \<times> AddBatchResponse \<times> ProcessedDoc list) option" where
  "final_docs E cks now coll [] (tx, r, done, s) = (s, Some (tx, r, done))"
| "final_docs E cks now coll (None # ps) (tx, r, done, s) = (s, None)"
| "final_docs E cks now coll (Some p # ps) (tx, r, done, s) =
     (case final_doc E (cks 0) now coll p (tx, r, done, s) of None \<Rightarrow> (s, None)
      | Some st \<Rightarrow> final_docs E (\<lambda>i. cks (Suc i)) now coll ps st)"

definition final_commitBatch :: "('tx, 'p) env \<Rightarrow> (nat \<Rightarrow> clock) \<Rightarrow> int \<Rightarrow> bytes \<Rightarrow> ProcessedDoc option list \<Rightarrow> ('tx, 'p) server \<Rightarrow>
    ('tx, 'p) server \<times> (AddBatchResponse \<times> ProcessedDoc list) option" where
  "final_commitBatch E cks now coll slots s =
     (case final_docs E cks now coll slots (sv_db s, no_response, [], s) of
        (s1, None) \<Rightarrow> (s1, None)
      | (s1, Some (tx, r, done)) \<Rightarrow>
          (case bk_commit (e_bolt E) tx of
             None \<Rightarrow> (s1, Some (rolled_back (length slots) r, []))
           | Some db \<Rightarrow> (s1\<lparr>sv_db := db\<rparr>, Some (r, done))))"

definition final_ProcessBatch :: "('tx, 'p) env \<Rightarrow> (nat \<Rightarrow> clock) \<Rightarrow> int \<Rightarrow> bytes \<Rightarrow> 'tx \<Rightarrow> (nat \<Rightarrow> bool) \<Rightarrow> BatchDocument list \<Rightarrow>
    ('tx, 'p) server \<Rightarrow> ('tx, 'p) server \<times> AddBatchResponse option" where
  "final_ProcessBatch E cks now coll view taken docs s =
     (if docs = [] then (s, Some no_response)
      else case parallelMarshal E coll now (batchReadAll (e_bolt E) coll docs view) taken docs of None \<Rightarrow> (s, None)
      | Some slots \<Rightarrow>
          (case final_commitBatch E cks now coll slots s of (s1, None) \<Rightarrow> (s1, None)
           | (s1, Some (r, done)) \<Rightarrow>
               (s1\<lparr>sv_effects := sv_effects s1 @ firePostBatchHooks E coll done no_options\<rparr>, Some r)))"

text \<open>The choice of the processor over HTTP; the error is the one of a batch that failed as a whole.
  \<open>final\<close> says whether the server has the processor of the extreme mode.\<close>

definition processBatchWithDocs :: "('tx, 'p) env \<Rightarrow> (nat \<Rightarrow> clock) \<Rightarrow> clock \<Rightarrow> bytes \<Rightarrow> bool \<Rightarrow> (nat \<Rightarrow> 'tx option) \<Rightarrow> 'tx \<Rightarrow> BatchDocument list \<Rightarrow>
    ('tx, 'p) server \<Rightarrow> ('tx, 'p) server \<times> (AddBatchResponse \<times> ProcessedDoc list \<times> bool) option" where
  "processBatchWithDocs E cks ck coll final views view docs s =
     (let now = ck_now ck;
          (s1, res) =
            (if sv_extreme s \<and> final then
               (case parallelMarshal E coll now (batchReadAll (e_bolt E) coll docs view) (\<lambda>i. views i \<noteq> None) docs of
                  None \<Rightarrow> (s, None) | Some slots \<Rightarrow> final_commitBatch E cks now coll slots s)
             else (case parallelProcess E coll now views docs of
                     None \<Rightarrow> (s, None) | Some slots \<Rightarrow> commitBatch E ck now coll slots s))
      in (s1, map_option (\<lambda>(r, done). (r, done, Failed r = safeInt32 (int (length docs)) \<and> Errors r \<noteq> [])) res))"

definition handleAddBatch :: "('tx, 'p) env \<Rightarrow> (nat \<Rightarrow> clock) \<Rightarrow> clock \<Rightarrow> bytes \<Rightarrow> bool \<Rightarrow> (nat \<Rightarrow> 'tx option) \<Rightarrow> 'tx \<Rightarrow> BatchDocument list \<Rightarrow>
    ('tx, 'p) server \<Rightarrow> ('tx, 'p) server \<times> (unit + AddBatchResponse) option" where
  "handleAddBatch E cks ck coll final views view docs s =
     (if coll = [] then (s, Some (Inl ()))
      else if docs = [] then (s, Some (Inr no_response))
      else case processBatchWithDocs E cks ck coll final views view docs s of (s1, None) \<Rightarrow> (s1, None)
      | (s1, Some (r, done, err)) \<Rightarrow>
          if err then (s1, Some (Inl ()))
          else (s1\<lparr>sv_effects := sv_effects s1 @ firePostBatchHooks E coll done no_options\<rparr>, Some (Inr r)))"

subsection \<open>What a batch records\<close>

definition logged_step :: "('tx \<Rightarrow> contents) \<Rightarrow> 'tx logged \<Rightarrow> 'tx logged \<Rightarrow> bool" where
  "logged_step cont s s' \<longleftrightarrow> (\<exists>ops. runs cont ops s s')"

lemma logged_stepI: "runs cont ops s s' \<Longrightarrow> logged_step cont s s'"
  by (auto simp: logged_step_def)

lemma logged_step_refl [intro]: "logged_step cont s s"
  by (rule logged_stepI, rule runs_refl)

lemma logged_step_trans [trans]: "logged_step cont s s' \<Longrightarrow> logged_step cont s' s'' \<Longrightarrow> logged_step cont s s''"
  unfolding logged_step_def using runs_trans by blast

lemma batch_index_puts_logged:
  assumes "bolt_laws B cont"
  shows "logged_step cont s (fst (batch_index_puts B key ks (s, r)))"
proof (induction ks arbitrary: s r)
  case (Cons k ks)
  show ?case
  proof (cases "put_log B ''idxmeta'' k ''1'' s")
    case (Inr s')
    with logged_step_trans [OF logged_stepI [OF put_log_runs [OF assms Inr]] Cons.IH] show ?thesis by simp
  qed (simp add: Cons.IH)
qed auto

lemma batch_index_logged:
  assumes "bolt_laws B cont"
  shows "logged_step cont (fst st) (fst (batch_index B coll p st))"
  using logged_step_trans [OF logged_stepI [OF del_quiet_fold_runs [OF assms]] batch_index_puts_logged [OF assms]]
    batch_index_puts_logged [OF assms, of "fst st" _ _ "snd st"]
  by (auto simp: batch_index_def Let_def)

lemma del_some_logged:
  assumes "bolt_laws B cont"
  shows "logged_step cont s (fst (del_some B b ks s))"
proof (induction ks arbitrary: s)
  case (Cons k ks)
  show ?case
  proof (cases "del_log B b k s")
    case (Inr s')
    with logged_step_trans [OF logged_stepI [OF del_log_runs [OF assms Inr]] Cons.IH] show ?thesis by simp
  qed auto
qed auto

lemma batch_revision_logged:
  assumes B: "bolt_laws (e_bolt E) cont"
  shows "logged_step cont s (fst (batch_revision E now coll p s))"
proof (cases "pd_SaveRevision p")
  case True
  show ?thesis
  proof (cases "put_log (e_bolt E) ''rev'' (RevPrefix coll (ID (pd_Doc p)) @ fmt_020d now) (pd_Buf p) s")
    case (Inr s1)
    have "logged_step cont s1 (fst (batch_trim (e_bolt E) coll i n s1))" for i n
      using del_some_logged [OF B] by (auto simp: batch_trim_def Let_def)
    with True Inr logged_step_trans [OF logged_stepI [OF put_log_runs [OF B Inr]]] show ?thesis
      by (auto simp: batch_revision_def logged_stepI [OF put_log_runs [OF B Inr]] split: option.splits prod.splits bool.splits)
        (metis fst_conv)+
  qed (use True in \<open>auto simp: batch_revision_def\<close>)
qed (auto simp: batch_revision_def)

lemma commit_doc_logged:
  assumes B: "bolt_laws (e_bolt E) cont"
  shows "logged_step cont (fst st) (fst (commit_doc E now coll p st))"
proof -
  obtain s r dn where st: "st = (s, r, dn)" by (cases st)
  show ?thesis
  proof (cases "pd_Error p")
    case None
    show ?thesis
    proof (cases "put_log (e_bolt E) ''docs'' (DocKey coll (pd_DocID p)) (pd_Buf p) s")
      case (Inr s1)
      note p1 = logged_stepI [OF put_log_runs [OF B Inr]]
      show ?thesis
      proof (cases "put_log (e_bolt E) ''bykey'' (ByKeyKey coll (DKey (pd_Doc p)) (Lang (pd_Doc p))) (pd_DocID p) s1")
        case (Inr s2)
        note p2 = logged_step_trans [OF p1 logged_stepI [OF put_log_runs [OF B Inr]]]
        obtain s3 r3 where i: "batch_index (e_bolt E) coll p (s2, r) = (s3, r3)" by (cases "batch_index (e_bolt E) coll p (s2, r)")
        obtain s4 err where v: "batch_revision E now coll p s3 = (s4, err)" by (cases "batch_revision E now coll p s3")
        have "logged_step cont s s4"
          using logged_step_trans [OF p2 logged_step_trans] batch_index_logged [OF B, of "(s2, r)" coll p]
            batch_revision_logged [OF B, of s3 now coll p] i v by simp
        with None \<open>put_log _ ''docs'' _ _ _ = _\<close> Inr i v show ?thesis
          by (auto simp: commit_doc_def st Let_def split: option.splits)
      qed (use None Inr p1 in \<open>auto simp: commit_doc_def st Let_def\<close>)
    qed (use None in \<open>auto simp: commit_doc_def st Let_def\<close>)
  qed (auto simp: commit_doc_def st Let_def)
qed

lemma commit_docs_logged:
  assumes "bolt_laws (e_bolt E) cont"
  shows "commit_docs E now coll slots st = Some st' \<Longrightarrow> logged_step cont (fst st) (fst st')"
proof (induction slots arbitrary: st)
  case (Cons sl slots)
  then obtain p where sl: "sl = Some p" by (cases sl) auto
  with Cons.prems have "commit_docs E now coll slots (commit_doc E now coll p st) = Some st'" by simp
  from Cons.IH [OF this] show ?case by (rule logged_step_trans [OF commit_doc_logged [OF assms]])
qed auto

subsection \<open>A batch without errors\<close>

lemma Errors_fail [simp]: "Errors (fail key err r) = Errors r @ [(key, err)]"
  and Errors_success [simp]: "Errors (success p r) = Errors r"
  by (simp_all add: fail_def success_def)

lemma batch_index_puts_errors: "batch_index_puts B key ks (s, r) = (s', r') \<Longrightarrow> prefix (Errors r) (Errors r')"
proof (induction ks arbitrary: s r)
  case (Cons k ks)
  show ?case
  proof (cases "put_log B ''idxmeta'' k ''1'' s")
    case (Inl err)
    with Cons have "prefix (Errors r @ [(key, BatchIndex)]) (Errors r')" by fastforce
    then show ?thesis by (rule append_prefixD)
  next
    case (Inr s1)
    with Cons show ?thesis by simp
  qed
qed simp

lemma batch_index_errors: "batch_index B coll p (s, r) = (s', r') \<Longrightarrow> prefix (Errors r) (Errors r')"
  by (auto simp: batch_index_def Let_def dest: batch_index_puts_errors split: if_splits)

lemma batch_index_puts_clean:
  "batch_index_puts B key ks (s, r) = (s', r') \<Longrightarrow> Errors r' = [] \<Longrightarrow> put_all B ''idxmeta'' ''1'' ks s = Inr s' \<and> r' = r"
proof (induction ks arbitrary: s r)
  case (Cons k ks)
  show ?case
  proof (cases "put_log B ''idxmeta'' k ''1'' s")
    case (Inl err)
    with Cons.prems have "prefix (Errors (fail key BatchIndex r)) (Errors r')" by (intro batch_index_puts_errors) simp
    with Cons.prems(2) show ?thesis by simp
  next
    case (Inr s1)
    with Cons show ?thesis by simp
  qed
qed simp

lemma batch_index_clean:
  assumes "batch_index B coll p (s, r) = (s', r')" and "Errors r' = []"
  shows "update_index B coll (pd_Existing p) (pd_Doc p) s = Inr s' \<and> r' = r"
  using assms by (auto simp: batch_index_def update_index_def Let_def dest: batch_index_puts_clean split: if_splits)

lemma del_some_all: "del_some B b ks s = (s', True) \<Longrightarrow> del_all B b ks s = Inr s'"
  by (induction ks arbitrary: s) (auto split: sum.splits)

lemma batch_revision_clean:
  assumes "batch_revision E now coll p s = (s', None)"
  shows "(if pd_SaveRevision p then write_revision E now coll (pd_Doc p) (pd_Buf p) s else Inr s) = Inr s'"
proof -
  have "batch_trim B coll i n s = (s', True) \<Longrightarrow> trimRevisions B coll i n s = Inr s'" for B i n s
    by (auto simp: batch_trim_def trimRevisions_def Let_def intro: del_some_all split: if_splits)
  with assms show ?thesis
    by (auto simp: batch_revision_def write_revision_def split: if_splits sum.splits option.splits prod.splits bool.splits)
qed

lemma commit_doc_errors: "commit_doc E now coll p (s, r, dn) = (s', r', dn') \<Longrightarrow> prefix (Errors r) (Errors r')"
  by (auto simp: commit_doc_def Let_def append_prefixD dest!: batch_index_errors split: option.splits sum.splits prod.splits)

lemma commit_docs_errors: "commit_docs E now coll slots (s, r, dn) = Some (s', r', dn') \<Longrightarrow> prefix (Errors r) (Errors r')"
proof (induction slots arbitrary: s r dn)
  case (Cons sl slots)
  then obtain p where sl: "sl = Some p" by (cases sl) auto
  obtain s1 r1 dn1 where st: "commit_doc E now coll p (s, r, dn) = (s1, r1, dn1)" by (cases "commit_doc E now coll p (s, r, dn)")
  with Cons sl have "prefix (Errors r1) (Errors r')" by simp
  with commit_doc_errors [OF st] show ?case by (rule prefix_order.trans)
qed simp

text \<open>Without an error a document of a batch is written by the operations of a single write.\<close>

lemma commit_doc_clean:
  assumes B: "bolt_laws (e_bolt E) cont" and c: "commit_doc E now coll p (s, r, dn) = (s', r', dn')"
    and clean: "Errors r' = []" and i: "pd_DocID p = ID (pd_Doc p)"
  shows "pd_Error p = None \<and> r' = success p r \<and> dn' = dn @ [p] \<and>
    runs cont (add_ops (e_maxRevisions E coll) now coll (DKey (pd_Doc p)) (Lang (pd_Doc p)) (pd_Existing p) (pd_Doc p) (pd_Buf p)
      (pd_SaveRevision p) (cont (fst s))) s s'"
proof -
  let ?d = "pd_Doc p"
  note C = c [unfolded commit_doc_def prod.case Let_def i]
  from C clean have err: "pd_Error p = None" by (auto split: option.splits)
  note C1 = C [unfolded err option.case]
  from C1 clean obtain s1 where s1: "put_log (e_bolt E) ''docs'' (DocKey coll (ID ?d)) (pd_Buf p) s = Inr s1"
    by (auto split: sum.splits)
  note C2 = C1 [unfolded s1 sum.case]
  from C2 clean obtain s2 where s2: "put_log (e_bolt E) ''bykey'' (ByKeyKey coll (DKey ?d) (Lang ?d)) (ID ?d) s1 = Inr s2"
    by (auto split: sum.splits)
  obtain s3 r3 where s3: "batch_index (e_bolt E) coll p (s2, r) = (s3, r3)" by (cases "batch_index (e_bolt E) coll p (s2, r)")
  obtain s4 w where s4: "batch_revision E now coll p s3 = (s4, w)" by (cases "batch_revision E now coll p s3")
  note C3 = C2 [unfolded s2 sum.case s3 prod.case s4]
  from C3 clean have w: "w = None" by (auto split: option.splits)
  with C3 have out: "s' = s4" "r' = success p r3" "dn' = dn @ [p]" by simp_all
  from out(2) clean batch_index_clean [OF s3] have u: "update_index (e_bolt E) coll (pd_Existing p) ?d s2 = Inr s3" and r3: "r3 = r"
    by simp_all
  note rev = batch_revision_clean [OF s4 [unfolded w]]
  have r3': "runs cont ([put_op ''docs'' (pd_Buf p) (DocKey coll (ID ?d))] @ [put_op ''bykey'' (ID ?d) (ByKeyKey coll (DKey ?d) (Lang ?d))] @
      idx_ops coll (pd_Existing p) ?d) s s3"
    by (rule runs_trans [OF put_log_runs [OF B s1] runs_trans [OF put_log_runs [OF B s2] update_index_runs [OF B u]]])
  then have "cont (fst s3) ''rev'' = cont (fst s) ''rev''"
    by (auto simp: runs_def replay_idx_ops store_simps fun_eq_iff)
  then have "runs cont (if pd_SaveRevision p then rev_ops (e_maxRevisions E coll) now coll (ID ?d) (pd_Buf p) (cont (fst s)) else []) s3 s4"
    using rev write_revision_runs [OF B, of now coll ?d "pd_Buf p" s3 s4]
      rev_ops_cong [of "cont (fst s3)" "cont (fst s)" "e_maxRevisions E coll" now coll "ID ?d" "pd_Buf p"]
    by (cases "pd_SaveRevision p") (simp_all add: runs_refl)
  from runs_trans [OF r3' this] err out r3 show ?thesis by (simp add: add_ops_def)
qed

subsection \<open>A batch is a sequence of single writes\<close>

abbreviation bd_id :: "bytes \<Rightarrow> BatchDocument \<Rightarrow> bytes" where
  "bd_id coll bd \<equiv> genID [coll, bd_Key bd, bd_Lang bd]"

definition ref_existing :: "('tx, 'p) env \<Rightarrow> contents \<Rightarrow> bytes \<Rightarrow> bytes \<Rightarrow> Doc" where
  "ref_existing E c coll i =
     (case c ''docs'' (DocKey coll i) of None \<Rightarrow> empty_doc
      | Some v \<Rightarrow> (case e_load E v of Ok d \<Rightarrow> d | _ \<Rightarrow> empty_doc))"

text \<open>The reference: what one write does to the contents of the store.\<close>

definition write_ref :: "('tx, 'p) env \<Rightarrow> int \<Rightarrow> bytes \<Rightarrow> BatchDocument \<Rightarrow> contents \<Rightarrow> contents" where
  "write_ref E now coll bd c =
     (let ex = ref_existing E c coll (bd_id coll bd);
          doc = new_doc now coll (bd_Key bd) (bd_Lang bd) (bd_Meta bd) (bd_ContentMd bd) 0 ex
      in case e_marshal E doc coll of
           Ok buf \<Rightarrow> replay (add_ops (e_maxRevisions E coll) now coll (bd_Key bd) (bd_Lang bd) ex doc buf (bd_SaveRevision bd) c) c
         | _ \<Rightarrow> c)"

definition prepared :: "('tx, 'p) env \<Rightarrow> int \<Rightarrow> bytes \<Rightarrow> contents \<Rightarrow> BatchDocument \<Rightarrow> ProcessedDoc \<Rightarrow> bool" where
  "prepared E now coll c bd p \<longleftrightarrow>
     pd_DocID p = bd_id coll bd \<and> pd_Existing p = ref_existing E c coll (bd_id coll bd) \<and>
     pd_Doc p = new_doc now coll (bd_Key bd) (bd_Lang bd) (bd_Meta bd) (bd_ContentMd bd) 0 (pd_Existing p) \<and>
     e_marshal E (pd_Doc p) coll = Ok (pd_Buf p) \<and> pd_SaveRevision p = bd_SaveRevision bd"

lemma load_existing_ref:
  "bolt_laws (e_bolt E) cont \<Longrightarrow> load_existing E coll i tx = Inr existing \<Longrightarrow> existing = ref_existing E (cont tx) coll i"
  by (auto simp: load_existing_def ref_existing_def bolt_laws.get_law split: option.splits outcome.splits)

lemma add_txn_ref:
  assumes B: "bolt_laws (e_bolt E) cont"
    and add: "add_txn E now coll (bd_Key bd) (bd_Lang bd) (bd_Meta bd) (bd_ContentMd bd) 0 (bd_SaveRevision bd) tx = Inr (tx', r)"
  shows "cont tx' = write_ref E now coll bd (cont tx)"
proof -
  obtain doc isNew buf bo where r: "r = (doc, isNew, buf, bo)" by (cases r)
  obtain ex where ex: "load_existing E coll (bd_id coll bd) tx = Inr ex"
    "doc = new_doc now coll (bd_Key bd) (bd_Lang bd) (bd_Meta bd) (bd_ContentMd bd) 0 ex" "e_marshal E doc coll = Ok buf"
    "bo = add_ops (e_maxRevisions E coll) now coll (bd_Key bd) (bd_Lang bd) ex doc buf (bd_SaveRevision bd) (cont tx)"
    "cont tx' = replay bo (cont tx)"
    using add_txn_runs [OF B add [unfolded r]] by metis
  from load_existing_ref [OF B ex(1)] ex(2-5) show ?thesis
    unfolding write_ref_def Let_def by (simp del: genID.simps)
qed

text \<open>Both readers agree on every stored document, as they do on what the code's own codec wrote.\<close>

definition readers_agree :: "('tx, 'p) env \<Rightarrow> contents \<Rightarrow> bool" where
  "readers_agree E c \<longleftrightarrow> (\<forall>k v. c ''docs'' k = Some v \<longrightarrow> e_unmarshal E v = e_load E v)"

lemma marshal_result_Some:
  "marshal_result E coll bd now a r = Some p \<Longrightarrow> pd_Error p = None \<Longrightarrow>
   pd_DocID p = pd_DocID r \<and> pd_Existing p = pd_Existing r \<and> pd_IsUpdate p = pd_IsUpdate r \<and>
   pd_SaveRevision p = bd_SaveRevision bd \<and> pd_Doc p = batch_doc now coll bd (if a = 0 then now else a) \<and>
   e_marshal E (pd_Doc p) coll = Ok (pd_Buf p)"
  by (auto simp: marshal_result_def Let_def split: outcome.splits)

lemma processDocument_marshalled:
  assumes p: "processDocument E coll now view bd = Some p" and ok: "pd_Error p = None"
  obtains a r where "marshal_result E coll bd now a r = Some p" "pd_DocID r = bd_id coll bd"
  using assms by (auto simp: processDocument_def Let_def simp del: genID.simps split: if_splits option.splits outcome.splits)

lemma processDocument_prepared:
  assumes B: "bolt_laws (e_bolt E) cont" and p: "processDocument E coll now view bd = Some p" and ok: "pd_Error p = None"
    and agree: "readers_agree E (cont view)"
  shows "prepared E now coll (cont view) bd p"
proof -
  note P = p [unfolded processDocument_def Let_def bolt_laws.get_law [OF B]]
  let ?v = "cont view ''docs'' (DocKey coll (bd_id coll bd))"
  from P ok have ne: "\<not> (bd_Key bd = [] \<or> bd_Lang bd = [])" "e_validate E coll (bd_Meta bd)"
    by (auto split: if_splits)
  show ?thesis
  proof (cases ?v)
    case None
    with P ne have "marshal_result E coll bd now 0 (no_result\<lparr>pd_Meta := bd_Meta bd, pd_DocID := bd_id coll bd\<rparr>) = Some p" by simp
    from marshal_result_Some [OF this ok] None show ?thesis
      by (auto simp: prepared_def ref_existing_def batch_doc_def new_doc_def no_result_def empty_doc_def simp del: genID.simps)
  next
    case (Some v)
    with P ne ok obtain d where d: "e_unmarshal E v = Ok d" by (auto split: outcome.splits)
    with Some P ne have m: "marshal_result E coll bd now (AddedAt d)
        (no_result\<lparr>pd_Meta := bd_Meta bd, pd_DocID := bd_id coll bd, pd_IsUpdate := True, pd_Existing := d\<rparr>) = Some p" by simp
    have "e_load E v = Ok d" using d Some agree by (simp add: readers_agree_def)
    with marshal_result_Some [OF m ok] Some show ?thesis
      by (auto simp: prepared_def ref_existing_def batch_doc_def new_doc_def no_result_def simp del: genID.simps)
  qed
qed

lemma parallelProcess_slots:
  "parallelProcess E coll now views bds = Some slots \<Longrightarrow>
   list_all2 (\<lambda>bd sl. \<forall>p. sl = Some p \<longrightarrow> (\<exists>i < length bds. \<exists>view. views i = Some view \<and> processDocument E coll now view bd = Some p)) bds slots"
proof (induction bds arbitrary: views slots)
  case (Cons bd bds)
  from Cons.prems obtain rest where rest: "parallelProcess E coll now (\<lambda>i. views (Suc i)) bds = Some rest"
    by (auto split: option.splits)
  from Cons.prems rest obtain sl where sl: "slots = sl # rest"
    "\<forall>p. sl = Some p \<longrightarrow> (\<exists>view. views 0 = Some view \<and> processDocument E coll now view bd = Some p)"
    by (auto split: option.splits)
  have "list_all2 (\<lambda>bd sl. \<forall>p. sl = Some p \<longrightarrow> (\<exists>i < length (bd' # bds). \<exists>view. views i = Some view \<and> processDocument E coll now view bd = Some p)) bds rest" for bd'
    using Cons.IH [OF rest] by (rule list_all2_mono) fastforce
  with sl show ?case by auto
qed simp

lemma write_ref_docs:
  assumes "i \<noteq> bd_id coll bd"
  shows "write_ref E now coll bd c ''docs'' (DocKey coll i) = c ''docs'' (DocKey coll i)"
proof -
  have "DocKey coll i \<noteq> DocKey coll (bd_id coll bd)" using assms by (simp add: DocKey_def del: genID.simps)
  then show ?thesis by (simp add: write_ref_def Let_def add_contents new_doc_def split: outcome.splits del: genID.simps)
qed

lemma prepared_cong:
  "prepared E now coll c bd p \<Longrightarrow> c ''docs'' (DocKey coll (bd_id coll bd)) = c' ''docs'' (DocKey coll (bd_id coll bd)) \<Longrightarrow>
   prepared E now coll c' bd p"
  unfolding prepared_def ref_existing_def by (elim conjE, intro conjI) simp_all

lemma commit_doc_error: "commit_doc E now coll p (s, r, dn) = (s1, r1, dn1) \<Longrightarrow> Errors r1 = [] \<Longrightarrow> pd_Error p = None"
  by (cases "pd_Error p") (auto simp: commit_doc_def Let_def)

lemma prepared_write:
  assumes B: "bolt_laws (e_bolt E) cont" and c: "commit_doc E now coll p (s, r, dn) = (s', r', dn')"
    and clean: "Errors r' = []" and p: "pd_Error p = None \<longrightarrow> prepared E now coll (cont (fst s)) bd p" and "pd_Error p = None"
  shows "cont (fst s') = write_ref E now coll bd (cont (fst s)) \<and> r' = success p r \<and> dn' = dn @ [p]"
proof -
  have P: "prepared E now coll (cont (fst s)) bd p" using p assms(5) by blast
  then have i: "pd_DocID p = ID (pd_Doc p)" by (simp add: prepared_def new_doc_def del: genID.simps)
  have k: "DKey (pd_Doc p) = bd_Key bd" "Lang (pd_Doc p) = bd_Lang bd" using P by (simp_all add: prepared_def new_doc_def del: genID.simps)
  from commit_doc_clean [OF B c clean i] have "cont (fst s') = replay (add_ops (e_maxRevisions E coll) now coll (bd_Key bd) (bd_Lang bd)
      (pd_Existing p) (pd_Doc p) (pd_Buf p) (pd_SaveRevision p) (cont (fst s))) (cont (fst s))" "r' = success p r" "dn' = dn @ [p]"
    by (simp_all add: runs_def k)
  moreover have "write_ref E now coll bd (cont (fst s)) = replay (add_ops (e_maxRevisions E coll) now coll (bd_Key bd) (bd_Lang bd)
      (pd_Existing p) (pd_Doc p) (pd_Buf p) (pd_SaveRevision p) (cont (fst s))) (cont (fst s))" (is "_ = ?rhs")
  proof -
    have ex: "ref_existing E (cont (fst s)) coll (bd_id coll bd) = pd_Existing p"
      and doc: "new_doc now coll (bd_Key bd) (bd_Lang bd) (bd_Meta bd) (bd_ContentMd bd) 0 (pd_Existing p) = pd_Doc p"
      and buf: "e_marshal E (pd_Doc p) coll = Ok (pd_Buf p)" and sv: "bd_SaveRevision bd = pd_SaveRevision p"
      using P unfolding prepared_def by (elim conjE; simp only:)+
    show "write_ref E now coll bd (cont (fst s)) = ?rhs" unfolding write_ref_def Let_def ex doc buf sv by simp
  qed
  ultimately show ?thesis by simp
qed

lemma commit_docs_ref:
  assumes B: "bolt_laws (e_bolt E) cont"
  shows "list_all2 (\<lambda>bd sl. \<forall>p. sl = Some p \<longrightarrow> pd_Error p = None \<longrightarrow> prepared E now coll c0 bd p) bds slots \<Longrightarrow>
    distinct (map (bd_id coll) bds) \<Longrightarrow>
    \<forall>bd \<in> set bds. cont (fst s) ''docs'' (DocKey coll (bd_id coll bd)) = c0 ''docs'' (DocKey coll (bd_id coll bd)) \<Longrightarrow>
    commit_docs E now coll slots (s, r, dn) = Some (s', r', dn') \<Longrightarrow> Errors r' = [] \<Longrightarrow>
    cont (fst s') = fold (write_ref E now coll) bds (cont (fst s)) \<and>
    Added r' + Updated r' = Added r + Updated r + of_nat (length bds) \<and> length dn' = length dn + length bds"
proof (induction bds arbitrary: slots s r dn)
  case (Cons bd bds)
  from Cons.prems(1) obtain sl slots' where slots: "slots = sl # slots'"
    and all: "list_all2 (\<lambda>bd sl. \<forall>p. sl = Some p \<longrightarrow> pd_Error p = None \<longrightarrow> prepared E now coll c0 bd p) bds slots'"
    and hd: "\<forall>p. sl = Some p \<longrightarrow> pd_Error p = None \<longrightarrow> prepared E now coll c0 bd p"
    by (auto simp: list_all2_Cons1)
  from Cons.prems(4) slots obtain p where sl: "sl = Some p" by (cases sl) auto
  obtain s1 r1 dn1 where st: "commit_doc E now coll p (s, r, dn) = (s1, r1, dn1)" by (cases "commit_doc E now coll p (s, r, dn)")
  from Cons.prems(4) slots sl st have rest: "commit_docs E now coll slots' (s1, r1, dn1) = Some (s', r', dn')" by simp
  from commit_docs_errors [OF rest] Cons.prems(5) have r1: "Errors r1 = []" by simp
  have e: "pd_Error p = None" by (rule commit_doc_error [OF st r1])
  have "prepared E now coll (cont (fst s)) bd p"
    using hd sl e prepared_cong [of E now coll c0 bd p "cont (fst s)"] Cons.prems(3) by simp
  then have one: "cont (fst s1) = write_ref E now coll bd (cont (fst s))" "r1 = success p r" "dn1 = dn @ [p]"
    using prepared_write [OF B st r1 _ e] by blast+
  have keep: "\<forall>bd' \<in> set bds. cont (fst s1) ''docs'' (DocKey coll (bd_id coll bd')) = c0 ''docs'' (DocKey coll (bd_id coll bd'))"
  proof
    fix bd' assume bd': "bd' \<in> set bds"
    have "bd_id coll bd \<notin> bd_id coll ` set bds" using Cons.prems(2) unfolding list.map distinct.simps set_map by (rule conjunct1)
    moreover have "bd_id coll bd' \<in> bd_id coll ` set bds" by (rule image_eqI [OF refl bd'])
    ultimately have ne: "bd_id coll bd' \<noteq> bd_id coll bd" by (cases "bd_id coll bd' = bd_id coll bd") (simp_all only: not_False_eq_True)
    have "cont (fst s) ''docs'' (DocKey coll (bd_id coll bd')) = c0 ''docs'' (DocKey coll (bd_id coll bd'))"
      using Cons.prems(3) bd' by (metis list.set_intros(2))
    then show "cont (fst s1) ''docs'' (DocKey coll (bd_id coll bd')) = c0 ''docs'' (DocKey coll (bd_id coll bd'))"
      unfolding one(1) write_ref_docs [OF ne] .
  qed
  have "Added r1 + Updated r1 = Added r + Updated r + 1" by (simp add: one(2) success_def)
  with Cons.IH [OF all _ keep rest Cons.prems(5)] Cons.prems(2) one(1,3) show ?case by simp
qed simp

fun add_seq :: "('tx, 'p) env \<Rightarrow> clock \<Rightarrow> bytes \<Rightarrow> BatchDocument list \<Rightarrow> ('tx, 'p) server \<Rightarrow> ('tx, 'p) server option" where
  "add_seq E ck coll [] s = Some s"
| "add_seq E ck coll (bd # bds) s =
     (case addDocument E ck coll (bd_Key bd) (bd_Lang bd) (bd_Meta bd) (bd_ContentMd bd) 0 (bd_SaveRevision bd) s of
        (s', Inl err) \<Rightarrow> None
      | (s', Inr saved) \<Rightarrow> add_seq E ck coll bds s')"

lemma add_seq_Cons:
  assumes B: "bolt_laws (e_bolt E) cont" and a: "add_seq E ck coll (bd # bds) s = Some s'"
  obtains s1 tx' r where "add_seq E ck coll bds s1 = Some s'" "cont (sv_db s1) = cont tx'" "bd_Key bd \<noteq> []"
    "add_txn E (ck_now ck) coll (bd_Key bd) (bd_Lang bd) (bd_Meta bd) (bd_ContentMd bd) 0 (bd_SaveRevision bd) (sv_db s) = Inr (tx', r)"
proof -
  from a obtain s1 saved isNew where add: "addDocument E ck coll (bd_Key bd) (bd_Lang bd) (bd_Meta bd) (bd_ContentMd bd) 0 (bd_SaveRevision bd) s =
      (s1, Inr (saved, isNew))" and rest: "add_seq E ck coll bds s1 = Some s'"
    by (auto split: prod.splits sum.splits)
  from addDocument_Inr [OF B add] rest that show ?thesis by metis
qed

lemma add_seq_ref:
  assumes B: "bolt_laws (e_bolt E) cont"
  shows "add_seq E ck coll bds s = Some s' \<Longrightarrow> cont (sv_db s') = fold (write_ref E (ck_now ck) coll) bds (cont (sv_db s))"
proof (induction bds arbitrary: s)
  case (Cons bd bds)
  obtain s1 tx' r where s1: "add_seq E ck coll bds s1 = Some s'" "cont (sv_db s1) = cont tx'"
    and t: "add_txn E (ck_now ck) coll (bd_Key bd) (bd_Lang bd) (bd_Meta bd) (bd_ContentMd bd) 0 (bd_SaveRevision bd) (sv_db s) = Inr (tx', r)"
    by (rule add_seq_Cons [OF B Cons.prems])
  from Cons.IH [OF s1(1)] s1(2) add_txn_ref [OF B t] show ?case by simp
qed simp

lemma add_seq_store_ok:
  assumes B: "bolt_laws (e_bolt E) cont" and codec: "doc_codec (e_marshal E) (e_load E) (e_unmarshal E)" and coll: "nosep coll"
  shows "add_seq E ck coll bds s = Some s' \<Longrightarrow> \<forall>bd \<in> set bds. meta_ok (bd_Meta bd) \<Longrightarrow>
    store_ok (e_load E) (cont (sv_db s)) \<Longrightarrow> store_ok (e_load E) (cont (sv_db s'))"
proof (induction bds arbitrary: s)
  case (Cons bd bds)
  obtain s1 tx' r where s1: "add_seq E ck coll bds s1 = Some s'" "cont (sv_db s1) = cont tx'" "bd_Key bd \<noteq> []"
    and t: "add_txn E (ck_now ck) coll (bd_Key bd) (bd_Lang bd) (bd_Meta bd) (bd_ContentMd bd) 0 (bd_SaveRevision bd) (sv_db s) = Inr (tx', r)"
    by (rule add_seq_Cons [OF B Cons.prems(1)])
  obtain doc isNew buf bo where r: "r = (doc, isNew, buf, bo)" by (cases r)
  have "store_ok (e_load E) (cont (sv_db s1))"
    using add_txn_store_ok [OF B codec t [unfolded r] Cons.prems(3) coll _ s1(3)] Cons.prems(2) s1(2) by simp
  with Cons.IH [OF s1(1)] Cons.prems(2) show ?case by simp
qed simp

text \<open>A response without errors comes from a transaction that was committed.\<close>

lemma ProcessBatch_committed:
  assumes "ProcessBatch E ck coll views docs s = (s', Some r)" and "docs \<noteq> []" and "Errors r = []"
  obtains slots tx bo dn db where "parallelProcess E coll (ck_now ck) views docs = Some slots"
    "commit_docs E (ck_now ck) coll slots ((sv_db s, []), no_response, []) = Some ((tx, bo), r, dn)"
    "bk_commit (e_bolt E) tx = Some db" "sv_db s' = db"
  using assms by (auto simp: ProcessBatch_def commitBatch_def rolled_back_def split: option.splits prod.splits)

lemma slots_prepared:
  assumes B: "bolt_laws (e_bolt E) cont" and pp: "parallelProcess E coll now views docs = Some slots"
    and agree: "readers_agree E c" and views: "\<forall>i < length docs. \<forall>view. views i = Some view \<longrightarrow> cont view = c"
  shows "list_all2 (\<lambda>bd sl. \<forall>p. sl = Some p \<longrightarrow> pd_Error p = None \<longrightarrow> prepared E now coll c bd p) docs slots"
proof (rule list_all2_mono [OF parallelProcess_slots [OF pp]])
  fix bd sl assume h: "\<forall>p. sl = Some p \<longrightarrow> (\<exists>i < length docs. \<exists>view. views i = Some view \<and> processDocument E coll now view bd = Some p)"
  show "\<forall>p. sl = Some p \<longrightarrow> pd_Error p = None \<longrightarrow> prepared E now coll c bd p"
  proof (intro allI impI)
    fix p assume "sl = Some p" "pd_Error p = None"
    with h views obtain view where "cont view = c" "processDocument E coll now view bd = Some p" by blast
    with processDocument_prepared [OF B _ \<open>pd_Error p = None\<close>, of coll now view bd] agree
    show "prepared E now coll c bd p" by blast
  qed
qed

text \<open>C34: A batch of different documents that reports no error does to the store what writing the
  documents one after the other does, and so keeps the metadata index exact; each document is
  counted once as added or updated.\<close>

theorem batch_as_sequence:
  assumes B: "bolt_laws (e_bolt E) cont" and "readers_agree E (cont (sv_db s))"
    and "\<forall>i < length docs. \<forall>view. views i = Some view \<longrightarrow> cont view = cont (sv_db s)"
    and "distinct (map (bd_id coll) docs)"
    and "ProcessBatch E ck coll views docs s = (s', Some r)" and "Errors r = []"
    and "add_seq E ck coll docs s = Some s''"
  shows "cont (sv_db s') = cont (sv_db s'') \<and> Added r + Updated r = of_nat (length docs) \<and>
    (doc_codec (e_marshal E) (e_load E) (e_unmarshal E) \<and> nosep coll \<and> (\<forall>bd \<in> set docs. meta_ok (bd_Meta bd)) \<and>
     store_ok (e_load E) (cont (sv_db s)) \<longrightarrow> store_ok (e_load E) (cont (sv_db s')))"
proof (cases "docs = []")
  case True
  with assms(5,7) show ?thesis by (auto simp: ProcessBatch_def no_response_def)
next
  case False
  obtain slots tx bo dn db where P: "parallelProcess E coll (ck_now ck) views docs = Some slots"
    and C: "commit_docs E (ck_now ck) coll slots ((sv_db s, []), no_response, []) = Some ((tx, bo), r, dn)"
    and cm: "bk_commit (e_bolt E) tx = Some db" "sv_db s' = db"
    by (rule ProcessBatch_committed [OF assms(5) False assms(6)])
  have "cont tx = fold (write_ref E (ck_now ck) coll) docs (cont (sv_db s)) \<and> Added r + Updated r = of_nat (length docs)"
    using commit_docs_ref [OF B slots_prepared [OF B P assms(2,3)] assms(4) _ C assms(6)] by (simp add: no_response_def)
  moreover have "cont (sv_db s') = cont tx" using bolt_laws.commit_law [OF B cm(1)] cm(2) by simp
  ultimately have eq: "cont (sv_db s') = cont (sv_db s'')" and n: "Added r + Updated r = of_nat (length docs)"
    using add_seq_ref [OF B assms(7)] by simp_all
  with add_seq_store_ok [OF B _ _ assms(7)] show ?thesis by simp
qed

subsection \<open>The log of a batch\<close>

lemma FlushTo_nil: "FlushTo ts io [] bl = bl"
  by (simp add: FlushTo_def split: option.split)

text \<open>\<open>logged_change\<close>: the flushed operations describe the change of the store, so that a leader whose
  log replays to its store stays one (as long as the disk works and the entries and LSNs fit).\<close>

definition logged_change :: "('tx \<Rightarrow> contents) \<Rightarrow> clock \<Rightarrow> ('tx, 'p) server \<Rightarrow> ('tx, 'p) server \<Rightarrow> bool" where
  "logged_change cont ck s s' \<longleftrightarrow>
     (\<exists>bo. cont (sv_db s') = replay bo (cont (sv_db s)) \<and> sv_binlog s' = FlushTo (ck_binlog ck) (ck_io ck) bo (sv_binlog s) \<and>
       (\<forall>c0. ck_io ck \<and> (\<forall>e \<in> set bo. entry_fits e) \<and> (\<forall>b. sv_binlog s = Some b \<longrightarrow> unat (lsn b) + length bo < 2 ^ 64) \<and>
         leader_ok cont c0 s \<longrightarrow> leader_ok cont c0 s'))"

lemma logged_changeI:
  assumes "cont (sv_db s') = replay bo (cont (sv_db s))" and "sv_binlog s' = FlushTo (ck_binlog ck) (ck_io ck) bo (sv_binlog s)"
  shows "logged_change cont ck s s'"
proof -
  have "leader_ok cont c0 s'"
    if "ck_io ck" "\<forall>e \<in> set bo. entry_fits e" "\<forall>b. sv_binlog s = Some b \<longrightarrow> unat (lsn b) + length bo < 2 ^ 64" "leader_ok cont c0 s" for c0
    using that leader_flush [OF _ _ _ assms(1)] assms(2) unfolding leader_ok_def by metis
  with assms show ?thesis unfolding logged_change_def by blast
qed

lemma logged_change_refl: "logged_change cont ck s s"
  by (rule logged_changeI [of _ _ "[]"]) (simp_all add: FlushTo_nil)

lemma commitBatch_logged:
  assumes B: "bolt_laws (e_bolt E) cont" and c: "commitBatch E ck now coll slots s = (s1, res)"
  shows "logged_change cont ck s s1 \<and> sv_cache s1 = sv_cache s \<and> sv_lfcache s1 = sv_lfcache s"
proof (cases "s1 = s")
  case True
  then show ?thesis by (simp add: logged_change_refl)
next
  case False
  with c obtain tx bo r dn db where d: "commit_docs E now coll slots ((sv_db s, []), no_response, []) = Some ((tx, bo), r, dn)"
    and cm: "bk_commit (e_bolt E) tx = Some db"
    and s1: "s1 = s\<lparr>sv_db := db, sv_binlog := FlushTo (ck_binlog ck) (ck_io ck) bo (sv_binlog s)\<rparr>"
    by (auto simp: commitBatch_def split: option.splits prod.splits)
  from commit_docs_logged [OF B d] have "cont tx = replay bo (cont (sv_db s))" by (auto simp: logged_step_def runs_def)
  with bolt_laws.commit_law [OF B cm] s1 show ?thesis by (auto intro: logged_changeI [of _ _ bo])
qed


lemma final_doc_frame:
  "final_doc E ck now coll p (tx, r, dn, s) = Some (tx', r', dn', s') \<Longrightarrow> sv_db s' = sv_db s \<and> sv_binlog s' = sv_binlog s"
  by (auto simp: final_doc_def final_cache_def refresh_cache_def Let_def split: option.splits if_splits)

lemma final_docs_frame:
  "final_docs E cks now coll slots (tx, r, dn, s) = (s', res) \<Longrightarrow> sv_db s' = sv_db s \<and> sv_binlog s' = sv_binlog s"
proof (induction slots arbitrary: cks tx r dn s)
  case (Cons sl slots)
  show ?case
  proof (cases sl)
    case (Some p)
    show ?thesis
    proof (cases "final_doc E (cks 0) now coll p (tx, r, dn, s)")
      case None
      with Some Cons.prems show ?thesis by simp
    next
      case (Some st)
      obtain tx1 r1 dn1 s1 where st: "st = (tx1, r1, dn1, s1)" by (cases st)
      with Some \<open>sl = Some p\<close> Cons.prems have "final_docs E (\<lambda>i. cks (Suc i)) now coll slots (tx1, r1, dn1, s1) = (s', res)" by simp
      from Cons.IH [OF this] final_doc_frame [OF Some [unfolded st]] show ?thesis by simp
    qed
  qed (use Cons.prems in simp)
qed simp

lemma final_ProcessBatch_frame:
  assumes "final_ProcessBatch E cks now coll view taken docs s = (s', res)"
  shows "sv_binlog s' = sv_binlog s"
proof (cases "docs = [] \<or> parallelMarshal E coll now (batchReadAll (e_bolt E) coll docs view) taken docs = None")
  case True
  with assms show ?thesis by (auto simp: final_ProcessBatch_def split: if_splits)
next
  case False
  then obtain slots where p: "docs \<noteq> []" "parallelMarshal E coll now (batchReadAll (e_bolt E) coll docs view) taken docs = Some slots" by auto
  obtain s1 q where c: "final_docs E cks now coll slots (sv_db s, no_response, [], s) = (s1, q)"
    by (cases "final_docs E cks now coll slots (sv_db s, no_response, [], s)")
  from final_docs_frame [OF c] assms p c show ?thesis
    by (auto simp: final_ProcessBatch_def final_commitBatch_def split: option.splits prod.splits)
qed

text \<open>The batch processor of the extreme mode never logs: a leader whose log replays to its
  store is no longer one after any such batch that changes the store, so its followers and its
  recovery miss the batch.\<close>

theorem extreme_batch_unlogged:
  assumes "final_ProcessBatch E cks now coll view taken docs s = (s', res)"
    and "leader_ok cont c0 s" and "cont (sv_db s') \<noteq> cont (sv_db s)"
  shows "sv_binlog s' = sv_binlog s \<and> \<not> leader_ok cont c0 s'"
  using final_ProcessBatch_frame [OF assms(1)] leader_ok_unlogged [OF assms(2) _ assms(3)] by simp

subsection \<open>A document twice in one batch\<close>

lemma stale_entry:
  assumes at: "nosep coll" "c ''docs'' (DocKey coll i) = Some buf" "load buf = Ok d"
    and k: "c ''idxmeta'' (MetaKeyPrefix coll mk mv @ i) \<noteq> None" "nosep mk" "nosep mv"
    and gone: "\<forall>vs. (mk, vs) \<in> set (Meta d) \<longrightarrow> mv \<notin> set vs"
  shows "\<not> store_ok load c"
proof
  assume ok: "store_ok load c"
  let ?k = "MetaKeyPrefix coll mk mv @ i"
  from ok k(1) obtain coll' i' d' where d': "doc_at load c coll' i' d'" "?k \<in> set (meta_keys coll' (Meta d') i')"
    by (auto simp: store_ok_def index_exact_def)
  then obtain mk' vs' mv' where e: "(mk', vs') \<in> set (Meta d')" "mv' \<in> set vs'" "?k = MetaKeyPrefix coll' mk' mv' @ i'"
    by (auto simp: in_meta_keys)
  have "meta_ok (Meta d')" "nosep coll'"
    using docs_okD [of load c coll' i' d'] ok d'(1) by (auto simp: store_ok_def doc_at_def)
  with e have n: "nosep mk'" "nosep mv'" by (auto simp: meta_ok_def)
  have "coll = coll'" "mk = mk'" "mv = mv'" "i = i'"
    using e(3) meta_key_inject [OF at(1) \<open>nosep coll'\<close> k(2) n(1) k(3) n(2)] by auto
  with d'(1) at have "d' = d" by (auto simp: doc_at_def)
  with e gone \<open>mk = mk'\<close> \<open>mv = mv'\<close> show False by blast
qed

lemma prepared_clean:
  assumes B: "bolt_laws (e_bolt E) cont" and c: "commit_doc E now coll p (s, r, dn) = (s', r', dn')" and "Errors r' = []"
    and p: "pd_Error p = None \<longrightarrow> prepared E now coll c0 bd p" and new: "c0 ''docs'' (DocKey coll (bd_id coll bd)) = None"
  shows "pd_Doc p = new_doc now coll (bd_Key bd) (bd_Lang bd) (bd_Meta bd) (bd_ContentMd bd) 0 empty_doc \<and>
    e_marshal E (pd_Doc p) coll = Ok (pd_Buf p) \<and> Errors r = [] \<and>
    cont (fst s') ''docs'' (DocKey coll (bd_id coll bd)) = Some (pd_Buf p) \<and>
    cont (fst s') ''idxmeta'' k = (if metadataChanged [] (bd_Meta bd) \<and> k \<in> set (meta_keys coll (bd_Meta bd) (bd_id coll bd)) then Some ''1''
      else cont (fst s) ''idxmeta'' k)"
proof -
  have "prepared E now coll c0 bd p" using p commit_doc_error [OF c assms(3)] by blast
  then have P: "pd_DocID p = bd_id coll bd" "pd_Existing p = empty_doc"
    "pd_Doc p = new_doc now coll (bd_Key bd) (bd_Lang bd) (bd_Meta bd) (bd_ContentMd bd) 0 empty_doc"
    "e_marshal E (pd_Doc p) coll = Ok (pd_Buf p)"
    unfolding prepared_def by (auto simp: ref_existing_def new simp del: genID.simps)
  then have i: "ID (pd_Doc p) = bd_id coll bd" "Meta (pd_Doc p) = bd_Meta bd" by (simp_all add: new_doc_def del: genID.simps)
  have e: "ID empty_doc = []" "Meta empty_doc = []" by (simp_all add: empty_doc_def)
  have C: "cont (fst s') = replay (add_ops (e_maxRevisions E coll) now coll (DKey (pd_Doc p)) (Lang (pd_Doc p)) (pd_Existing p) (pd_Doc p)
      (pd_Buf p) (pd_SaveRevision p) (cont (fst s))) (cont (fst s))"
    using commit_doc_clean [OF B c assms(3)] P(1) i(1) by (simp add: runs_def)
  have "Errors r = []" using commit_doc_errors [OF c] assms(3) by simp
  with P show ?thesis unfolding C add_contents i P(2) e by (simp del: genID.simps)
qed

text \<open>A document that occurs twice in a batch breaks the metadata index: both copies are
  compared with the store before the batch, so the index entries of the first one stay when the
  second replaces it, though the response reports no error.\<close>

theorem duplicate_in_batch_stale_index:
  assumes B: "bolt_laws (e_bolt E) cont" and codec: "doc_codec (e_marshal E) (e_load E) (e_unmarshal E)"
    and "readers_agree E (cont (sv_db s))"
    and "\<forall>i < 2. \<forall>view. views i = Some view \<longrightarrow> cont view = cont (sv_db s)"
    and "ProcessBatch E ck coll views [a, b] s = (s', Some r)" and "Errors r = []"
    and "bd_Key a = bd_Key b" and "bd_Lang a = bd_Lang b" and new: "cont (sv_db s) ''docs'' (DocKey coll (bd_id coll b)) = None"
    and mv: "(mk, vs) \<in> set (bd_Meta a)" "mv \<in> set vs" and gone: "\<forall>vs'. (mk, vs') \<in> set (bd_Meta b) \<longrightarrow> mv \<notin> set vs'"
    and "nosep coll" and m: "meta_ok (bd_Meta a)"
  shows "cont (sv_db s') ''idxmeta'' (MetaKeyPrefix coll mk mv @ bd_id coll b) = Some ''1'' \<and> \<not> store_ok (e_load E) (cont (sv_db s'))"
proof -
  let ?i = "bd_id coll b" and ?now = "ck_now ck" and ?c = "cont (sv_db s)"
  let ?k = "MetaKeyPrefix coll mk mv @ ?i"
  obtain slots tx bo dn db where P: "parallelProcess E coll ?now views [a, b] = Some slots"
    and C: "commit_docs E ?now coll slots ((sv_db s, []), no_response, []) = Some ((tx, bo), r, dn)"
    and cm: "bk_commit (e_bolt E) tx = Some db" "sv_db s' = db"
    by (rule ProcessBatch_committed [OF assms(5) _ assms(6)]) simp
  have "list_all2 (\<lambda>bd sl. \<forall>p. sl = Some p \<longrightarrow> pd_Error p = None \<longrightarrow> prepared E ?now coll ?c bd p) [a, b] slots"
    by (rule slots_prepared [OF B P assms(3)]) (use assms(4) in \<open>simp add: numeral_2_eq_2\<close>)
  then obtain sl1 sl2 where sl: "slots = [sl1, sl2]" "\<forall>p. sl1 = Some p \<longrightarrow> pd_Error p = None \<longrightarrow> prepared E ?now coll ?c a p"
    "\<forall>p. sl2 = Some p \<longrightarrow> pd_Error p = None \<longrightarrow> prepared E ?now coll ?c b p" by (auto simp: list_all2_Cons1)
  with C obtain p1 p2 where p: "sl1 = Some p1" "sl2 = Some p2" by (cases sl1; cases sl2) auto
  obtain s1 r1 dn1 where st1: "commit_doc E ?now coll p1 ((sv_db s, []), no_response, []) = (s1, r1, dn1)"
    by (cases "commit_doc E ?now coll p1 ((sv_db s, []), no_response, [])")
  with C sl(1) p have st2: "commit_doc E ?now coll p2 (s1, r1, dn1) = ((tx, bo), r, dn)" by simp
  have ia: "bd_id coll a = ?i" using assms(7,8) by simp
  have two: "pd_Doc p2 = new_doc ?now coll (bd_Key b) (bd_Lang b) (bd_Meta b) (bd_ContentMd b) 0 empty_doc"
    "e_marshal E (pd_Doc p2) coll = Ok (pd_Buf p2)" "Errors r1 = []" "cont tx ''docs'' (DocKey coll ?i) = Some (pd_Buf p2)"
    "cont (fst s1) ''idxmeta'' ?k = Some ''1'' \<Longrightarrow> cont tx ''idxmeta'' ?k = Some ''1''"
    using prepared_clean [OF B st2 assms(6), of ?c b ?k] sl(3) p(2) new by (auto simp del: genID.simps)
  have "metadataChanged [] (bd_Meta a)"
  proof -
    have "map_of (bd_Meta a) mk = Some vs" using mv(1) m by (simp add: meta_ok_def)
    then have "map_of [] \<noteq> map_of (bd_Meta a)" by (metis map_of.simps(1) option.distinct(1))
    then show "metadataChanged [] (bd_Meta a)" using metadataChanged_iff [of "[]" "bd_Meta a"] m by (simp add: meta_ok_def)
  qed
  moreover have "?k \<in> set (meta_keys coll (bd_Meta a) ?i)" using mv by (auto simp: in_meta_keys simp del: genID.simps)
  ultimately have "cont (fst s1) ''idxmeta'' ?k = Some ''1''"
    using prepared_clean [OF B st1 two(3), of ?c a ?k, unfolded ia] sl(2) p(1) new by (simp del: genID.simps)
  with two(5) bolt_laws.commit_law [OF B cm(1)] cm(2) have k: "cont (sv_db s') ''idxmeta'' ?k = Some ''1''" by simp
  have at: "cont (sv_db s') ''docs'' (DocKey coll ?i) = Some (pd_Buf p2)" using two(4) bolt_laws.commit_law [OF B cm(1)] cm(2) by simp
  have "Meta (pd_Doc p2) = bd_Meta b" by (simp add: two(1) new_doc_def)
  with gone have "\<forall>vs. (mk, vs) \<in> set (Meta (pd_Doc p2)) \<longrightarrow> mv \<notin> set vs" by simp
  moreover have "nosep mk" "nosep mv" using m mv by (auto simp: meta_ok_def)
  ultimately have "\<not> store_ok (e_load E) (cont (sv_db s'))"
    using k by (intro stale_entry [where c = "cont (sv_db s')" and load = "e_load E" and i = ?i and coll = coll and mk = mk and mv = mv, OF assms(13) at
      doc_codec.load_marshal [OF codec two(2)]]) simp_all
  with k show ?thesis by blast
qed

subsection \<open>Reports that do not match the store\<close>

text \<open>C36: A batch can be refused as a whole although its document was stored: when one index entry of
  the document cannot be written (its key exceeds the limit of the store), the document is counted
  as added and as failed, the request ends with ``all documents failed'', and the document is in
  the store and in the binlog, without any of the hooks having run.\<close>

theorem refused_batch_is_stored:
  assumes B: "bolt_laws (e_bolt E) cont" and "\<not> (sv_extreme s \<and> final)" and "coll \<noteq> []" and "views 0 = Some view"
    and p: "processDocument E coll (ck_now ck) view bd = Some p" and "pd_Error p = None" and "pd_Existing p = empty_doc"
    and "bd_Meta bd = [(mk, [mv])]" and "\<not> bd_SaveRevision bd"
    and idx: "\<forall>tx. bk_put (e_bolt E) ''idxmeta'' (MetaKeyPrefix coll mk mv @ bd_id coll bd) ''1'' tx = None"
    and d: "bk_put (e_bolt E) ''docs'' (DocKey coll (bd_id coll bd)) (pd_Buf p) (sv_db s) = Some tx1"
    and k: "bk_put (e_bolt E) ''bykey'' (ByKeyKey coll (bd_Key bd) (bd_Lang bd)) (bd_id coll bd) tx1 = Some tx2"
    and cm: "bk_commit (e_bolt E) tx2 = Some db"
  shows "\<exists>s'. handleAddBatch E cks ck coll final views view' [bd] s = (s', Some (Inl ())) \<and>
     cont (sv_db s') ''docs'' (DocKey coll (bd_id coll bd)) = Some (pd_Buf p) \<and>
     sv_binlog s' = FlushTo (ck_binlog ck) (ck_io ck) [put_op ''docs'' (pd_Buf p) (DocKey coll (bd_id coll bd)),
       put_op ''bykey'' (bd_id coll bd) (ByKeyKey coll (bd_Key bd) (bd_Lang bd))] (sv_binlog s) \<and>
     sv_effects s' = sv_effects s"
proof -
  let ?i = "bd_id coll bd"
  have ne: "bd_Key bd \<noteq> []" using p assms(6) by (auto simp: processDocument_def split: if_splits)
  obtain P: "pd_DocID p = ?i" "Meta (pd_Doc p) = [(mk, [mv])]" "ID (pd_Doc p) = ?i" "DKey (pd_Doc p) = bd_Key bd" "Lang (pd_Doc p) = bd_Lang bd"
    "\<not> pd_SaveRevision p"
  proof -
    obtain a r where m: "marshal_result E coll bd (ck_now ck) a r = Some p" and r: "pd_DocID r = ?i"
      by (rule processDocument_marshalled [OF p assms(6)])
    from marshal_result_Some [OF m assms(6)] r assms(8,9) show ?thesis
      by (intro that) (auto simp: batch_doc_def simp del: genID.simps)
  qed
  have keys: "meta_keys coll [(mk, [mv])] ?i = [MetaKeyPrefix coll mk mv @ ?i]" by (simp add: meta_keys_def del: genID.simps)
  have e: "Meta empty_doc = []" "ID empty_doc = []" by (simp_all add: empty_doc_def)
  have ch: "metadataChanged [] [(mk, [mv])]" using metadataChanged_iff [of "[]" "[(mk, [mv])]"] by (simp add: fun_eq_iff)
  let ?bo = "[put_op ''docs'' (pd_Buf p) (DocKey coll ?i), put_op ''bykey'' ?i (ByKeyKey coll (bd_Key bd) (bd_Lang bd))]"
  have "batch_index (e_bolt E) coll p ((tx2, ?bo), no_response) = ((tx2, ?bo), fail (bd_Key bd) BatchIndex no_response)"
    using idx by (simp add: batch_index_def assms(7) e P(2-4) ch keys put_log_def del: genID.simps)
  then have "commit_doc E (ck_now ck) coll p ((sv_db s, []), no_response, []) =
      ((tx2, ?bo), success p (fail (bd_Key bd) BatchIndex no_response), [p])"
    using assms(6) d k P by (simp add: commit_doc_def put_log_def ops_Put_op batch_revision_def Let_def del: genID.simps)
  then have c: "commitBatch E ck (ck_now ck) coll [Some p] s =
      (s\<lparr>sv_db := db, sv_binlog := FlushTo (ck_binlog ck) (ck_io ck) ?bo (sv_binlog s)\<rparr>,
       Some (success p (fail (bd_Key bd) BatchIndex no_response), [p]))"
    using cm by (simp add: commitBatch_def del: genID.simps)
  have "Failed (success p (fail (bd_Key bd) BatchIndex no_response)) = safeInt32 1"
    by (simp add: success_def fail_def no_response_def safeInt32_def)
  with c p assms(2-4) have "handleAddBatch E cks ck coll final views view' [bd] s =
      (s\<lparr>sv_db := db, sv_binlog := FlushTo (ck_binlog ck) (ck_io ck) ?bo (sv_binlog s)\<rparr>, Some (Inl ()))"
    by (auto simp: handleAddBatch_def processBatchWithDocs_def Let_def simp del: genID.simps)
  moreover have "cont db ''docs'' (DocKey coll ?i) = Some (pd_Buf p)"
    unfolding bolt_laws.commit_law [OF B cm] bolt_laws.put_law [OF B k] bolt_laws.put_law [OF B d] by (simp add: store_simps del: genID.simps)
  ultimately show ?thesis by simp
qed

text \<open>In the extreme mode the cache runs ahead of the store: when the commit fails the store is
  as before and the response counts the document both as added and as failed, but the cache holds
  it as if it had been written.\<close>

theorem extreme_failed_commit_cached:
  assumes "processDocumentFast E coll (batchReadAll (e_bolt E) coll [bd] view) now bd = Some p" and "pd_Error p = None"
    and "taken 0" and "sv_extreme s" and "sv_lfcache s \<noteq> None"
    and "bk_put (e_bolt E) ''docs'' (''doc|'' @ coll @ ''|'' @ pd_DocID p) (pd_Buf p) (sv_db s) = Some tx1"
    and "bk_put (e_bolt E) ''bykey'' (''bykey|'' @ coll @ ''|'' @ DKey (pd_Doc p) @ ''|'' @ Lang (pd_Doc p)) (pd_DocID p) tx1 = Some tx2"
    and "\<forall>tx. bk_commit (e_bolt E) tx = None"
  shows "\<exists>r. final_ProcessBatch E cks now coll view taken [bd] s =
       (refresh_cache (cks 0) (BuildCacheKey coll (DKey (pd_Doc p)) (Lang (pd_Doc p))) (pd_Buf p) s, Some r) \<and>
     sv_db (refresh_cache (cks 0) (BuildCacheKey coll (DKey (pd_Doc p)) (Lang (pd_Doc p))) (pd_Buf p) s) = sv_db s \<and>
     Added r + Updated r = 1 \<and> Failed r = 1"
proof -
  have "final_docs E cks now coll [Some p] (sv_db s, no_response, [], s) =
      (refresh_cache (cks 0) (BuildCacheKey coll (DKey (pd_Doc p)) (Lang (pd_Doc p))) (pd_Buf p) s,
       Some (final_revision E now coll p (final_index (e_bolt E) coll p tx2), success p no_response, [p]))"
    using assms by (simp add: final_doc_def final_cache_def Let_def)
  with assms(1,3,8) show ?thesis
    by (simp add: final_ProcessBatch_def final_commitBatch_def rolled_back_def safeInt32_def success_def no_response_def
        firePostBatchHooks_def refresh_cache_def)
qed

subsection \<open>Witnesses\<close>

definition long_value :: bytes where "long_value = replicate 33000 (CHR ''x'')"

lemma length_long_value: "length long_value = 33000"
  by (simp only: long_value_def length_replicate)

definition long_doc :: Doc where "long_doc = ref_doc\<lparr>Meta := [(''t'', [long_value])]\<rparr>"

definition batch_load :: "bytes \<Rightarrow> (codec_error, Doc) outcome" where
  "batch_load b = (if b = ''A'' then Ok old_doc else if b = ''B'' then Ok ref_doc else if b = ''L'' then Ok long_doc else Err ProtoError)"

definition batch_env :: "(mem_db, unit) env" where
  "batch_env = (ref_env None)\<lparr>
     e_marshal := (\<lambda>d coll. if d = old_doc then Ok ''A'' else if d = ref_doc then Ok ''B'' else if d = long_doc then Ok ''L'' else Err ProtoError),
     e_load := batch_load, e_unmarshal := batch_load\<rparr>"

definition batch_of :: "meta \<Rightarrow> bool \<Rightarrow> BatchDocument" where
  "batch_of m sr = \<lparr>bd_Key = ''k'', bd_Lang = ''en'', bd_Meta = m, bd_ContentMd = [], bd_SaveRevision = sr\<rparr>"

lemma tag_docs: "old_doc \<noteq> ref_doc" "long_doc \<noteq> ref_doc" "long_doc \<noteq> old_doc"
proof -
  have "long_value \<noteq> ''x''"
  proof
    assume "long_value = ''x''"
    then have "length long_value = length ''x''" by (simp only:)
    then have "(33000::nat) = 1" unfolding length_long_value by simp
    then show False by simp
  qed
  then show "old_doc \<noteq> ref_doc" "long_doc \<noteq> ref_doc" "long_doc \<noteq> old_doc"
    by (simp_all add: old_doc_def ref_doc_def long_doc_def empty_doc_def)
qed

lemma batch_codec: "doc_codec (e_marshal batch_env) (e_load batch_env) (e_unmarshal batch_env)"
  by unfold_locales (auto simp: batch_env_def batch_load_def tag_docs split: if_splits)

lemma batch_laws: "bolt_laws (e_bolt batch_env) mem_contents"
  by (simp add: batch_env_def ref_env_def mem.bolt_laws_axioms)

lemmas batch_eval = ProcessBatch_def commitBatch_def commit_doc_def batch_index_def batch_revision_def processDocument_def
  marshal_result_def batch_doc_def no_result_def success_def no_response_def firePostBatchHooks_def batch_of_def
  ref_eval key_defs length_fmt_020d Let_def

definition ref_p :: ProcessedDoc where
  "ref_p = no_result\<lparr>pd_DocID := ''c|k|en'', pd_Doc := ref_doc, pd_Buf := ''B'', pd_SaveRevision := True\<rparr>"

lemma ref_process: "parallelProcess (ref_env None) ''c'' 5 (\<lambda>_. Some []) [batch_of [] True] = Some [Some ref_p]" 
  by (simp add: processDocument_def marshal_result_def batch_of_def batch_doc_def no_result_def ref_p_def ref_eval key_defs Let_def)

lemma ref_commit:
  obtains tx bo where "commit_docs (ref_env None) 5 ''c'' [Some ref_p] (([], []), no_response, []) = Some ((tx, bo), success ref_p no_response, [ref_p])"
proof -
  have "\<exists>tx bo. commit_docs (ref_env None) 5 ''c'' [Some ref_p] (([], []), no_response, []) = Some ((tx, bo), success ref_p no_response, [ref_p])"
    by (simp add: commit_doc_def batch_index_def batch_revision_def ref_p_def no_result_def put_log_def ref_env_def mem_bolt_def
      length_fmt_020d key_defs ref_doc_def empty_doc_def metadataChanged_def metadataEqual_def Let_def)
  with that show ?thesis by blast
qed

lemma ref_batch:
  obtains s' where "ProcessBatch (ref_env None) (ref_clock 5) ''c'' (\<lambda>_. Some []) [batch_of [] True] (ref_server bl []) = (s', Some (success ref_p no_response))"
proof -
  obtain tx bo where c: "commit_docs (ref_env None) 5 ''c'' [Some ref_p] (([], []), no_response, []) = Some ((tx, bo), success ref_p no_response, [ref_p])"
    by (rule ref_commit)
  have e: "ck_now (ref_clock 5) = 5" "sv_db (ref_server bl []) = []" "bk_commit (e_bolt (ref_env None)) = Some"
    by (simp_all add: ref_clock_def ref_server_def ref_env_def mem_bolt_def)
  show ?thesis
    by (rule that) (simp add: ProcessBatch_def e ref_process commitBatch_def c del: commit_docs.simps parallelProcess.simps)
qed

lemma readers_agree_empty: "readers_agree E (mem_contents [])"
  by (simp add: readers_agree_def mem_contents_def mem_bucket_def)

theorem batch_as_sequence_witness:
  "\<exists>s' s''. ProcessBatch (ref_env None) (ref_clock 5) ''c'' (\<lambda>_. Some []) [batch_of [] True] (ref_server None []) = (s', Some (success ref_p no_response)) \<and>
     add_seq (ref_env None) (ref_clock 5) ''c'' [batch_of [] True] (ref_server None []) = Some s'' \<and>
     mem_contents (sv_db s') = mem_contents (sv_db s'')"
proof -
  obtain s' where p: "ProcessBatch (ref_env None) (ref_clock 5) ''c'' (\<lambda>_. Some []) [batch_of [] True] (ref_server None []) = (s', Some (success ref_p no_response))"
    by (rule ref_batch)
  obtain s'' where "ref_add None 5 [] = (s'', Inr (ref_doc, True))" by (rule ref_add_new')
  then have a: "add_seq (ref_env None) (ref_clock 5) ''c'' [batch_of [] True] (ref_server None []) = Some s''" by (simp add: batch_of_def)
  have e: "sv_db (ref_server None []) = []" by (simp add: ref_server_def)
  have "mem_contents (sv_db s') = mem_contents (sv_db s'')"
    by (rule conjunct1 [OF batch_as_sequence [OF ref_laws _ _ _ p _ a]]) (simp_all add: e readers_agree_empty no_response_def)
  with p a show ?thesis by blast
qed


lemma ref_fast: "parallelMarshal (ref_env None) ''c'' 5 (batchReadAll mem_bolt ''c'' [batch_of [] True] []) (\<lambda>_. True) [batch_of [] True] = Some [Some ref_p]"
  by (simp add: batchReadAll_def processDocumentFast_def marshal_result_def batch_of_def batch_doc_def no_result_def ref_p_def ref_eval key_defs Let_def)

theorem extreme_batch_unlogged_witness:
  "\<exists>s' :: (mem_db, unit) server. sv_binlog s' = Some (log_of []) \<and> mem_contents (sv_db s') ''docs'' (DocKey ''c'' ''c|k|en'') = Some ''B'' \<and>
     \<not> leader_ok mem_contents (mem_contents []) s'"
proof -
  let ?s = "ref_server (Some (log_of [])) []"
  let ?r = "final_ProcessBatch (ref_env None) (\<lambda>_. ref_clock 5) 5 ''c'' [] (\<lambda>_. True) [batch_of [] True] ?s"
  obtain s' res where r: "?r = (s', res)" by (cases ?r)
  have b: "e_bolt (ref_env None) = mem_bolt" by (simp add: ref_env_def)
  have "mem_contents (sv_db (fst ?r)) ''docs'' (DocKey ''c'' ''c|k|en'') = Some ''B''"
    unfolding final_ProcessBatch_def b ref_fast
    by (simp add: final_commitBatch_def final_doc_def final_cache_def ref_p_def no_result_def ref_server_def refresh_cache_def
      ref_env_def mem_bolt_def mem_contents_def AList.update_conv' final_index_def final_revision_def put_quiet_def metadataChanged_def
      metadataEqual_def ref_doc_def empty_doc_def DocKey_def FormatTimestamp_eq length_fmt_020d mem_bucket_def Let_def)
  with r have d: "mem_contents (sv_db s') ''docs'' (DocKey ''c'' ''c|k|en'') = Some ''B''" by simp
  moreover have e: "sv_db ?s = []" "sv_binlog ?s = Some (log_of [])" by (simp_all add: ref_server_def)
  moreover have "mem_contents [] ''docs'' (DocKey ''c'' ''c|k|en'') = None" by (simp add: mem_contents_def mem_bucket_def)
  ultimately have ne: "mem_contents (sv_db s') \<noteq> mem_contents (sv_db ?s)" by (metis option.distinct(1))
  have "log_rep (log_of []) []" by (rule log_rep_log_of [where l = 1]) simp_all
  then have "leader_ok mem_contents (mem_contents []) ?s"
    unfolding leader_ok_def e by (intro exI [of _ "log_of []"] exI [of _ "[]"]) simp
  from extreme_batch_unlogged [OF r this ne] d e show ?thesis by (intro exI [of _ s']) simp
qed

lemma dup_process: "parallelProcess batch_env ''c'' 5 (\<lambda>_. Some []) [batch_of [(''t'', [''x''])] False, batch_of [] False] =
    Some [Some (no_result\<lparr>pd_DocID := ''c|k|en'', pd_Doc := old_doc, pd_Buf := ''A'', pd_Meta := [(''t'', [''x''])]\<rparr>),
          Some (no_result\<lparr>pd_DocID := ''c|k|en'', pd_Doc := ref_doc, pd_Buf := ''B''\<rparr>)]"
  using tag_docs(1)
  by (simp add: processDocument_def marshal_result_def batch_of_def batch_doc_def no_result_def batch_env_def old_doc_def
      ref_eval key_defs Let_def)

lemma dup_commit:
  "\<exists>tx bo dn. commit_docs batch_env 5 ''c''
     [Some (no_result\<lparr>pd_DocID := ''c|k|en'', pd_Doc := old_doc, pd_Buf := ''A'', pd_Meta := [(''t'', [''x''])]\<rparr>),
      Some (no_result\<lparr>pd_DocID := ''c|k|en'', pd_Doc := ref_doc, pd_Buf := ''B''\<rparr>)] (([], []), no_response, []) =
     Some ((tx, bo), no_response\<lparr>Added := 2\<rparr>, dn)"
  by (simp add: commit_doc_def batch_index_def batch_revision_def no_result_def put_log_def batch_env_def ref_env_def mem_bolt_def
      old_doc_def key_defs ref_doc_def empty_doc_def metadataChanged_def metadataEqual_def meta_keys_def success_def no_response_def Let_def)

theorem duplicate_in_batch_stale_index_witness:
  "\<exists>s'. ProcessBatch batch_env (ref_clock 5) ''c'' (\<lambda>_. Some []) [batch_of [(''t'', [''x''])] False, batch_of [] False] (ref_server None []) =
       (s', Some (no_response\<lparr>Added := 2\<rparr>)) \<and>
     mem_contents (sv_db s') ''idxmeta'' (MetaKeyPrefix ''c'' ''t'' ''x'' @ genID [''c'', ''k'', ''en'']) = Some ''1'' \<and>
     \<not> store_ok (e_load batch_env) (mem_contents (sv_db s'))"
proof -
  obtain tx bo dn where c: "commit_docs batch_env 5 ''c''
     [Some (no_result\<lparr>pd_DocID := ''c|k|en'', pd_Doc := old_doc, pd_Buf := ''A'', pd_Meta := [(''t'', [''x''])]\<rparr>),
      Some (no_result\<lparr>pd_DocID := ''c|k|en'', pd_Doc := ref_doc, pd_Buf := ''B''\<rparr>)] (([], []), no_response, []) =
     Some ((tx, bo), no_response\<lparr>Added := 2\<rparr>, dn)" using dup_commit by blast
  have e: "ck_now (ref_clock 5) = 5" "sv_db (ref_server bl []) = []" "bk_commit (e_bolt batch_env) = Some" for bl
    by (simp_all add: ref_clock_def ref_server_def ref_env_def batch_env_def mem_bolt_def)
  obtain s' where p: "ProcessBatch batch_env (ref_clock 5) ''c'' (\<lambda>_. Some []) [batch_of [(''t'', [''x''])] False, batch_of [] False] (ref_server None []) =
       (s', Some (no_response\<lparr>Added := 2\<rparr>))"
    using that by (simp add: ProcessBatch_def e dup_process commitBatch_def c del: commit_docs.simps parallelProcess.simps)
  have h: "readers_agree batch_env (mem_contents (sv_db (ref_server None [])))"
    "\<forall>i < 2. \<forall>view. (\<lambda>_ :: nat. Some []) i = Some view \<longrightarrow> mem_contents view = mem_contents (sv_db (ref_server None []))"
    "Errors (no_response\<lparr>Added := 2\<rparr>) = []" "bd_Key (batch_of [(''t'', [''x''])] False) = bd_Key (batch_of [] False)"
    "bd_Lang (batch_of [(''t'', [''x''])] False) = bd_Lang (batch_of [] False)"
    "mem_contents (sv_db (ref_server None [])) ''docs'' (DocKey ''c'' (bd_id ''c'' (batch_of [] False))) = None"
    "(''t'', [''x'']) \<in> set (bd_Meta (batch_of [(''t'', [''x''])] False))" "''x'' \<in> set [''x'']"
    "\<forall>vs'. (''t'', vs') \<in> set (bd_Meta (batch_of [] False)) \<longrightarrow> ''x'' \<notin> set vs'" "nosep ''c''"
    "meta_ok (bd_Meta (batch_of [(''t'', [''x''])] False))"
    by (simp_all add: e readers_agree_empty no_response_def batch_of_def meta_ok_def mem_contents_def mem_bucket_def)
  from duplicate_in_batch_stale_index [OF batch_laws batch_codec h(1,2) p h(3-)] p show ?thesis by (simp add: batch_of_def)
qed

theorem refused_batch_is_stored_witness:
  "\<exists>s'. handleAddBatch batch_env (\<lambda>_. ref_clock 5) (ref_clock 5) ''c'' False (\<lambda>_. Some []) [] [batch_of [(''t'', [long_value])] False] (ref_server None []) =
       (s', Some (Inl ())) \<and>
     mem_contents (sv_db s') ''docs'' (DocKey ''c'' (genID [''c'', ''k'', ''en''])) = Some ''L''"
proof -
  let ?bd = "batch_of [(''t'', [long_value])] False"
  let ?p = "no_result\<lparr>pd_DocID := ''c|k|en'', pd_Doc := long_doc, pd_Buf := ''L'', pd_Meta := [(''t'', [long_value])]\<rparr>"
  have p: "processDocument batch_env ''c'' (ck_now (ref_clock 5)) [] ?bd = Some ?p"
    using tag_docs(2,3)
    by (simp add: processDocument_def marshal_result_def batch_of_def batch_doc_def no_result_def batch_env_def long_doc_def
      ref_eval key_defs Let_def)
  have h: "\<not> (sv_extreme (ref_server None [] :: (mem_db, unit) server) \<and> False)" "''c'' \<noteq> []" "(\<lambda>_ :: nat. Some []) 0 = Some []"
    "pd_Error ?p = None" "pd_Existing ?p = empty_doc" "bd_Meta ?bd = [(''t'', [long_value])]" "\<not> bd_SaveRevision ?bd"
    by (simp_all add: no_result_def batch_of_def)
  have idx: "\<forall>tx. bk_put (e_bolt batch_env) ''idxmeta'' (MetaKeyPrefix ''c'' ''t'' long_value @ bd_id ''c'' ?bd) ''1'' tx = None"
    by (simp add: batch_env_def ref_env_def mem_bolt_def MetaKeyPrefix_def length_long_value)
  have "\<exists>tx1 tx2 db. bk_put (e_bolt batch_env) ''docs'' (DocKey ''c'' (bd_id ''c'' ?bd)) (pd_Buf ?p) (sv_db (ref_server None [] :: (mem_db, unit) server)) = Some tx1 \<and>
      bk_put (e_bolt batch_env) ''bykey'' (ByKeyKey ''c'' (bd_Key ?bd) (bd_Lang ?bd)) (bd_id ''c'' ?bd) tx1 = Some tx2 \<and>
      bk_commit (e_bolt batch_env) tx2 = Some db"
    by (simp add: batch_env_def ref_env_def mem_bolt_def batch_of_def key_defs)
  then obtain tx1 tx2 db where t: "bk_put (e_bolt batch_env) ''docs'' (DocKey ''c'' (bd_id ''c'' ?bd)) (pd_Buf ?p) (sv_db (ref_server None [] :: (mem_db, unit) server)) = Some tx1"
    "bk_put (e_bolt batch_env) ''bykey'' (ByKeyKey ''c'' (bd_Key ?bd) (bd_Lang ?bd)) (bd_id ''c'' ?bd) tx1 = Some tx2"
    "bk_commit (e_bolt batch_env) tx2 = Some db" by blast
  from refused_batch_is_stored [OF batch_laws h(1,2,3) p h(4-7) idx t, of "\<lambda>_. ref_clock 5" "[]"] show ?thesis
    by (auto simp: batch_of_def simp del: genID.simps)
qed

theorem extreme_failed_commit_cached_witness:
  "\<exists>r (s' :: (mem_db, unit) server). final_ProcessBatch ((ref_env None)\<lparr>e_bolt := mem_bolt\<lparr>bk_commit := \<lambda>_. None\<rparr>\<rparr>) (\<lambda>_. ref_clock 5) 5 ''c'' [] (\<lambda>_. True)
       [batch_of [] True] ((ref_server None [])\<lparr>sv_extreme := True, sv_lfcache := Some (NewLockFreeCache 10 60)\<rparr>) = (s', Some r) \<and>
     sv_db s' = [] \<and> Added r + Updated r = 1 \<and> Failed r = 1"
proof -
  let ?E = "(ref_env None)\<lparr>e_bolt := mem_bolt\<lparr>bk_commit := \<lambda>_. None\<rparr>\<rparr>"
  let ?s = "(ref_server None [])\<lparr>sv_extreme := True, sv_lfcache := Some (NewLockFreeCache 10 60)\<rparr> :: (mem_db, unit) server"
  have p: "processDocumentFast ?E ''c'' (batchReadAll (e_bolt ?E) ''c'' [batch_of [] True] []) 5 (batch_of [] True) = Some ref_p"
    by (simp add: batchReadAll_def processDocumentFast_def marshal_result_def batch_of_def batch_doc_def no_result_def ref_p_def ref_eval key_defs Let_def)
  have "\<exists>tx1 tx2. bk_put (e_bolt ?E) ''docs'' (''doc|'' @ ''c'' @ ''|'' @ pd_DocID ref_p) (pd_Buf ref_p) (sv_db ?s) = Some tx1 \<and>
      bk_put (e_bolt ?E) ''bykey'' (''bykey|'' @ ''c'' @ ''|'' @ DKey (pd_Doc ref_p) @ ''|'' @ Lang (pd_Doc ref_p)) (pd_DocID ref_p) tx1 = Some tx2"
    by (simp add: mem_bolt_def ref_p_def no_result_def ref_doc_def)
  then obtain tx1 tx2 where t: "bk_put (e_bolt ?E) ''docs'' (''doc|'' @ ''c'' @ ''|'' @ pd_DocID ref_p) (pd_Buf ref_p) (sv_db ?s) = Some tx1"
    "bk_put (e_bolt ?E) ''bykey'' (''bykey|'' @ ''c'' @ ''|'' @ DKey (pd_Doc ref_p) @ ''|'' @ Lang (pd_Doc ref_p)) (pd_DocID ref_p) tx1 = Some tx2"
    by blast
  have h: "pd_Error ref_p = None" "(\<lambda>_ :: nat. True) 0" "sv_extreme ?s" "sv_lfcache ?s \<noteq> None" "\<forall>tx. bk_commit (e_bolt ?E) tx = None" "sv_db ?s = []"
    by (simp_all add: ref_p_def no_result_def ref_server_def)
  from extreme_failed_commit_cached [OF p h(1-4) t h(5), of "\<lambda>_. ref_clock 5"] h(6) show ?thesis by auto
qed

end
