(* ===== verification/Batch_Change.thy ===== *)
theory Batch_Change
  imports Batch_Write
begin

section \<open>Batches of deletes and updates\<close>

text \<open>
  Models \<^verbatim>\<open>batchdelete.go\<close> and \<^verbatim>\<open>batchupdate.go\<close>: as for a batch of writes, every
  document is looked up in a read transaction of its own (\<open>views\<close> gives the stores they saw), and
  one write transaction changes them all.  The document cache is changed while the transaction is
  open; a nil document cache panics.  A batch of updates hands the reindexing of the metadata to
  the index queue after its commit.
\<close>

subsection \<open>Deletes\<close>

record DeleteDocument =
  dl_Key :: bytes
  dl_Lang :: bytes

record DeletedDoc =
  dd_Key :: bytes
  dd_Lang :: bytes
  dd_DocID :: bytes
  dd_Found :: bool
  dd_OldMeta :: meta
  dd_Error :: "batch_error option"

record DeleteBatchResponse =
  dr_Deleted :: i32
  dr_NotFound :: i32
  dr_Failed :: i32
  dr_Errors :: "(bytes \<times> bytes \<times> batch_error) list"

definition delete_response :: DeleteBatchResponse where
  "delete_response = \<lparr>dr_Deleted = 0, dr_NotFound = 0, dr_Failed = 0, dr_Errors = []\<rparr>"

definition delete_fail :: "bytes \<Rightarrow> bytes \<Rightarrow> batch_error \<Rightarrow> DeleteBatchResponse \<Rightarrow> DeleteBatchResponse" where
  "delete_fail key lang err r = r\<lparr>dr_Failed := dr_Failed r + 1, dr_Errors := dr_Errors r @ [(key, lang, err)]\<rparr>"

text \<open>The panic of a worker is \<^term>\<open>None\<close>.\<close>

definition lookupDocument :: "('tx, 'p) env \<Rightarrow> bytes \<Rightarrow> 'tx \<Rightarrow> DeleteDocument \<Rightarrow> DeletedDoc option" where
  "lookupDocument E coll view d =
     (let r = \<lparr>dd_Key = dl_Key d, dd_Lang = dl_Lang d, dd_DocID = [], dd_Found = False, dd_OldMeta = [], dd_Error = None\<rparr>
      in if dl_Key d = [] \<or> dl_Lang d = [] then Some (r\<lparr>dd_Error := Some MissingKeyOrLang\<rparr>)
      else let docID = genID [coll, dl_Key d, dl_Lang d]; r1 = r\<lparr>dd_DocID := docID\<rparr>
      in case bk_get (e_bolt E) ''docs'' (DocKey coll docID) view of None \<Rightarrow> Some r1
         | Some v \<Rightarrow>
             (case e_unmarshal E v of Panic \<Rightarrow> None
              | Err err \<Rightarrow> Some (r1\<lparr>dd_Error := Some (BatchLoad err)\<rparr>)
              | Ok doc \<Rightarrow> Some (r1\<lparr>dd_Found := True, dd_OldMeta := Meta doc\<rparr>)))"

fun parallelLookup :: "('tx, 'p) env \<Rightarrow> bytes \<Rightarrow> (nat \<Rightarrow> 'tx) \<Rightarrow> DeleteDocument list \<Rightarrow> DeletedDoc list option" where
  "parallelLookup E coll views [] = Some []"
| "parallelLookup E coll views (d # ds) =
     (case lookupDocument E coll (views 0) d of None \<Rightarrow> None
      | Some r \<Rightarrow> map_option ((#) r) (parallelLookup E coll (\<lambda>i. views (Suc i)) ds))"

type_synonym 'tx delete_state = "'tx logged \<times> DeleteBatchResponse \<times> DocumentCache option"

definition delete_doc :: "('tx, 'p) env \<Rightarrow> bytes \<Rightarrow> DeletedDoc \<Rightarrow> 'tx delete_state \<Rightarrow> 'tx delete_state option" where
  "delete_doc E coll d = (\<lambda>(s, r, c).
     (case dd_Error d of Some err \<Rightarrow> Some (s, delete_fail (dd_Key d) (dd_Lang d) err r, c)
      | None \<Rightarrow>
        if \<not> dd_Found d then Some (s, r\<lparr>dr_NotFound := dr_NotFound r + 1\<rparr>, c)
        else (case del_log (e_bolt E) ''docs'' (DocKey coll (dd_DocID d)) s of
                Inl _ \<Rightarrow> Some (s, delete_fail (dd_Key d) (dd_Lang d) BatchDelete r, c)
              | Inr s1 \<Rightarrow>
                  let B = e_bolt E;
                      s2 = del_quiet B ''bykey'' (ByKeyKey coll (dd_Key d) (dd_Lang d)) s1;
                      s3 = fold (del_quiet B ''idxmeta'') (meta_keys coll (dd_OldMeta d) (dd_DocID d)) s2;
                      s4 = fold (del_quiet B ''rev'') (bk_walk B ''rev'' (RevPrefix coll (dd_DocID d)) (fst s3)) s3
                  in (case c of None \<Rightarrow> None
                      | Some dc \<Rightarrow> Some (s4, r\<lparr>dr_Deleted := dr_Deleted r + 1\<rparr>,
                                     Some (dc_Delete (BuildCacheKey coll (dd_Key d) (dd_Lang d)) dc))))))"

text \<open>The state with which the loop ends, and whether it ended without a panic.\<close>

fun delete_docs :: "('tx, 'p) env \<Rightarrow> bytes \<Rightarrow> DeletedDoc list \<Rightarrow> 'tx delete_state \<Rightarrow> 'tx delete_state \<times> bool" where
  "delete_docs E coll [] st = (st, True)"
| "delete_docs E coll (d # ds) st = (case delete_doc E coll d st of None \<Rightarrow> (st, False) | Some st' \<Rightarrow> delete_docs E coll ds st')"

definition commitDelete :: "('tx, 'p) env \<Rightarrow> clock \<Rightarrow> bytes \<Rightarrow> DeletedDoc list \<Rightarrow> ('tx, 'p) server \<Rightarrow>
    ('tx, 'p) server \<times> DeleteBatchResponse option" where
  "commitDelete E ck coll deleted s =
     (case delete_docs E coll deleted ((sv_db s, []), delete_response, sv_cache s) of
        ((_, _, c), False) \<Rightarrow> (s\<lparr>sv_cache := c\<rparr>, None)
      | (((tx, bo), r, c), True) \<Rightarrow>
          (case bk_commit (e_bolt E) tx of
             None \<Rightarrow> (s\<lparr>sv_cache := c\<rparr>, Some (delete_fail [] [] BatchTransaction r))
           | Some db \<Rightarrow>
               (s\<lparr>sv_db := db, sv_binlog := FlushTo (ck_binlog ck) (ck_io ck) bo (sv_binlog s), sv_cache := c\<rparr>, Some r)))"

definition ProcessBatchDelete :: "('tx, 'p) env \<Rightarrow> clock \<Rightarrow> bytes \<Rightarrow> (nat \<Rightarrow> 'tx) \<Rightarrow> DeleteDocument list \<Rightarrow> ('tx, 'p) server \<Rightarrow>
    ('tx, 'p) server \<times> DeleteBatchResponse option" where
  "ProcessBatchDelete E ck coll views docs s =
     (if docs = [] then (s, Some delete_response)
      else case parallelLookup E coll views docs of None \<Rightarrow> (s, None) | Some ds \<Rightarrow> commitDelete E ck coll ds s)"

subsection \<open>Updates\<close>

record UpdateDocument =
  ud_Key :: bytes
  ud_Lang :: bytes
  ud_Meta :: meta
  ud_ContentMd :: bytes
  ud_SaveRevision :: bool

record UpdatedDoc =
  up_Key :: bytes
  up_Lang :: bytes
  up_DocID :: bytes
  up_Doc :: Doc
  up_Buf :: bytes
  up_Meta :: meta
  up_Existing :: Doc
  up_Found :: bool
  up_SaveRevision :: bool
  up_Error :: "batch_error option"

record UpdateBatchResponse =
  ur_Updated :: i32
  ur_NotFound :: i32
  ur_Failed :: i32
  ur_Errors :: "(bytes \<times> bytes \<times> batch_error) list"

definition update_response :: UpdateBatchResponse where
  "update_response = \<lparr>ur_Updated = 0, ur_NotFound = 0, ur_Failed = 0, ur_Errors = []\<rparr>"

definition update_fail :: "bytes \<Rightarrow> bytes \<Rightarrow> batch_error \<Rightarrow> UpdateBatchResponse \<Rightarrow> UpdateBatchResponse" where
  "update_fail key lang err r = r\<lparr>ur_Failed := ur_Failed r + 1, ur_Errors := ur_Errors r @ [(key, lang, err)]\<rparr>"

text \<open>The updated document keeps only when it was added: like a new one it has no expiry.\<close>

definition updated_doc :: "int \<Rightarrow> bytes \<Rightarrow> UpdateDocument \<Rightarrow> Doc \<Rightarrow> Doc" where
  "updated_doc now coll u existing =
     \<lparr>ID = genID [coll, ud_Key u, ud_Lang u], DKey = ud_Key u, Lang = ud_Lang u, Meta = ud_Meta u,
      ContentMD = ud_ContentMd u, AddedAt = AddedAt existing, UpdatedAt = now, ExpiresAt = 0\<rparr>"

definition update_processDocument :: "('tx, 'p) env \<Rightarrow> bytes \<Rightarrow> int \<Rightarrow> 'tx \<Rightarrow> UpdateDocument \<Rightarrow> UpdatedDoc option" where
  "update_processDocument E coll now view u =
     (let r = \<lparr>up_Key = ud_Key u, up_Lang = ud_Lang u, up_DocID = [], up_Doc = empty_doc, up_Buf = [], up_Meta = [],
               up_Existing = empty_doc, up_Found = False, up_SaveRevision = ud_SaveRevision u, up_Error = None\<rparr>
      in if ud_Key u = [] \<or> ud_Lang u = [] then Some (r\<lparr>up_Error := Some MissingKeyOrLang\<rparr>)
      else let docID = genID [coll, ud_Key u, ud_Lang u]; r1 = r\<lparr>up_Meta := ud_Meta u, up_DocID := docID\<rparr>
      in case bk_get (e_bolt E) ''docs'' (DocKey coll docID) view of
           None \<Rightarrow> Some (r1\<lparr>up_Error := Some BatchNotFound\<rparr>)
         | Some v \<Rightarrow>
             (case e_unmarshal E v of Panic \<Rightarrow> None
              | Err err \<Rightarrow> Some (r1\<lparr>up_Error := Some (BatchLoad err)\<rparr>)
              | Ok existing \<Rightarrow>
                  let doc = updated_doc now coll u existing; r2 = r1\<lparr>up_Found := True, up_Existing := existing\<rparr>
                  in (case e_marshal E doc coll of Panic \<Rightarrow> None
                      | Err err \<Rightarrow> Some (r2\<lparr>up_Error := Some (BatchMarshal err)\<rparr>)
                      | Ok buf \<Rightarrow> Some (r2\<lparr>up_Doc := doc, up_Buf := buf\<rparr>))))"

fun update_parallelProcess :: "('tx, 'p) env \<Rightarrow> bytes \<Rightarrow> int \<Rightarrow> (nat \<Rightarrow> 'tx) \<Rightarrow> UpdateDocument list \<Rightarrow> UpdatedDoc list option" where
  "update_parallelProcess E coll now views [] = Some []"
| "update_parallelProcess E coll now views (u # us) =
     (case update_processDocument E coll now (views 0) u of None \<Rightarrow> None
      | Some r \<Rightarrow> map_option ((#) r) (update_parallelProcess E coll now (\<lambda>i. views (Suc i)) us))"

text \<open>The jobs for the index queue are collected in the transaction.\<close>

type_synonym 'tx update_state = "'tx logged \<times> UpdateBatchResponse \<times> IndexJob list \<times> DocumentCache option"

definition update_doc :: "('tx, 'p) env \<Rightarrow> clock \<Rightarrow> int \<Rightarrow> bytes \<Rightarrow> UpdatedDoc \<Rightarrow> 'tx update_state \<Rightarrow> 'tx update_state option" where
  "update_doc E ck now coll u = (\<lambda>(s, r, jobs, c).
     (case up_Error u of
        Some err \<Rightarrow> Some (s, if err = BatchNotFound then r\<lparr>ur_NotFound := ur_NotFound r + 1\<rparr>
                            else update_fail (up_Key u) (up_Lang u) err r, jobs, c)
      | None \<Rightarrow>
        (case put_log (e_bolt E) ''docs'' (DocKey coll (up_DocID u)) (up_Buf u) s of
           Inl _ \<Rightarrow> Some (s, update_fail (up_Key u) (up_Lang u) BatchPut r, jobs, c)
         | Inr s1 \<Rightarrow>
             let jobs1 = (if metadataChanged (Meta (up_Existing u)) (Meta (up_Doc u))
                          then jobs @ [\<lparr>j_Collection = coll, j_DocID = up_DocID u, j_OldMeta = Meta (up_Existing u), j_NewMeta = Meta (up_Doc u)\<rparr>]
                          else jobs)
             in (case (if up_SaveRevision u then put_log (e_bolt E) ''rev'' (RevPrefix coll (ID (up_Doc u)) @ fmt_020d now) (up_Buf u) s1
                       else Inr s1) of
                   Inl _ \<Rightarrow> Some (s1, update_fail (up_Key u) (up_Lang u) BatchRevision r, jobs1, c)
                 | Inr s2 \<Rightarrow>
                     (case c of None \<Rightarrow> None
                      | Some dc \<Rightarrow> Some (s2, r\<lparr>ur_Updated := ur_Updated r + 1\<rparr>, jobs1,
                          Some (dc_Set (ck_cache ck) (ck_evict ck) (BuildCacheKey coll (up_Key u) (up_Lang u)) (up_Buf u) dc)))))))"

fun update_docs :: "('tx, 'p) env \<Rightarrow> (nat \<Rightarrow> clock) \<Rightarrow> int \<Rightarrow> bytes \<Rightarrow> UpdatedDoc list \<Rightarrow> 'tx update_state \<Rightarrow> 'tx update_state \<times> bool" where
  "update_docs E cks now coll [] st = (st, True)"
| "update_docs E cks now coll (u # us) st =
     (case update_doc E (cks 0) now coll u st of None \<Rightarrow> (st, False)
      | Some st' \<Rightarrow> update_docs E (\<lambda>i. cks (Suc i)) now coll us st')"

fun enqueue_jobs :: "'tx bolt \<Rightarrow> (nat \<Rightarrow> clock) \<Rightarrow> IndexJob list \<Rightarrow> 'tx IndexQueue \<times> UpdateBatchResponse \<Rightarrow> 'tx IndexQueue \<times> UpdateBatchResponse" where
  "enqueue_jobs B cks [] st = st"
| "enqueue_jobs B cks (job # jobs) (q, r) =
     (case Enqueue B (cks 0) job q of
        (q', None) \<Rightarrow> enqueue_jobs B (\<lambda>i. cks (Suc i)) jobs (q', r)
      | (q', Some err) \<Rightarrow> enqueue_jobs B (\<lambda>i. cks (Suc i)) jobs (q', r\<lparr>ur_Errors := ur_Errors r @ [(j_DocID job, [], BatchMetaIndex err)]\<rparr>))"

text \<open>The queue works on the store and the binlog of the server.\<close>

definition commitUpdate :: "('tx, 'p) env \<Rightarrow> (nat \<Rightarrow> clock) \<Rightarrow> clock \<Rightarrow> int \<Rightarrow> bytes \<Rightarrow> UpdatedDoc list \<Rightarrow>
    ('tx, 'p) server \<times> 'tx IndexQueue option \<Rightarrow> ('tx, 'p) server \<times> 'tx IndexQueue option \<times> UpdateBatchResponse option" where
  "commitUpdate E cks ck now coll updated = (\<lambda>(s, iq).
     (case update_docs E cks now coll updated ((sv_db s, []), update_response, [], sv_cache s) of
        ((_, _, _, c), False) \<Rightarrow> (s\<lparr>sv_cache := c\<rparr>, iq, None)
      | (((tx, bo), r, jobs, c), True) \<Rightarrow>
          (case bk_commit (e_bolt E) tx of
             None \<Rightarrow> (s\<lparr>sv_cache := c\<rparr>, iq, Some (update_fail [] [] BatchTransaction r))
           | Some db \<Rightarrow>
               let bl = FlushTo (ck_binlog ck) (ck_io ck) bo (sv_binlog s)
               in (case iq of
                     None \<Rightarrow> (s\<lparr>sv_db := db, sv_binlog := bl, sv_cache := c\<rparr>, None, Some r)
                   | Some q \<Rightarrow>
                       (case enqueue_jobs (e_bolt E) cks jobs (q\<lparr>iq_tx := db, iq_binlog := bl\<rparr>, r) of
                          (q', r') \<Rightarrow> (s\<lparr>sv_db := iq_tx q', sv_binlog := iq_binlog q', sv_cache := c\<rparr>, Some q', Some r'))))))"

definition ProcessBatchUpdate :: "('tx, 'p) env \<Rightarrow> (nat \<Rightarrow> clock) \<Rightarrow> clock \<Rightarrow> bytes \<Rightarrow> (nat \<Rightarrow> 'tx) \<Rightarrow> UpdateDocument list \<Rightarrow>
    ('tx, 'p) server \<times> 'tx IndexQueue option \<Rightarrow> ('tx, 'p) server \<times> 'tx IndexQueue option \<times> UpdateBatchResponse option" where
  "ProcessBatchUpdate E cks ck coll views docs = (\<lambda>(s, iq).
     (if docs = [] then (s, iq, Some update_response)
      else case update_parallelProcess E coll (ck_now ck) views docs of None \<Rightarrow> (s, iq, None)
      | Some us \<Rightarrow> commitUpdate E cks ck (ck_now ck) coll us (s, iq)))"

subsection \<open>What a batch of deletes does\<close>

definition batch_delete_ops :: "bytes \<Rightarrow> DeletedDoc \<Rightarrow> bytes list \<Rightarrow> BinlogOps" where
  "batch_delete_ops coll d walked =
     [del_op ''docs'' (DocKey coll (dd_DocID d)), del_op ''bykey'' (ByKeyKey coll (dd_Key d) (dd_Lang d))] @
     map (del_op ''idxmeta'') (meta_keys coll (dd_OldMeta d) (dd_DocID d)) @ map (del_op ''rev'') walked"

lemma delete_doc_runs:
  assumes B: "bolt_laws (e_bolt E) cont" and d: "delete_doc E coll d (s, r, c) = Some (s', r', c')"
    and found: "dd_Error d = None" "dd_Found d"
  shows "\<exists>walked. runs cont (batch_delete_ops coll d walked) s s'"
proof -
  obtain s1 where s1: "del_log (e_bolt E) ''docs'' (DocKey coll (dd_DocID d)) s = Inr s1"
    using del_all_ok [OF B, of "''docs''" "[DocKey coll (dd_DocID d)]" s] by (auto split: sum.splits)
  let ?s2 = "del_quiet (e_bolt E) ''bykey'' (ByKeyKey coll (dd_Key d) (dd_Lang d)) s1"
  let ?s3 = "fold (del_quiet (e_bolt E) ''idxmeta'') (meta_keys coll (dd_OldMeta d) (dd_DocID d)) ?s2"
  let ?w = "bk_walk (e_bolt E) ''rev'' (RevPrefix coll (dd_DocID d)) (fst ?s3)"
  from d found s1 have "s' = fold (del_quiet (e_bolt E) ''rev'') ?w ?s3"
    by (auto simp: delete_doc_def Let_def split: option.splits)
  moreover have "runs cont (batch_delete_ops coll d ?w) s (fold (del_quiet (e_bolt E) ''rev'') ?w ?s3)"
    using runs_trans [OF del_log_runs [OF B s1] runs_trans [OF del_quiet_runs [OF B] runs_trans [OF del_quiet_fold_runs [OF B] del_quiet_fold_runs [OF B]]]]
    by (simp add: batch_delete_ops_def)
  ultimately show ?thesis by blast
qed

lemma delete_doc_skipped:
  assumes B: "bolt_laws (e_bolt E) cont" and "delete_doc E coll d (s, r, c) = Some (s', r', c')" and "\<not> (dd_Error d = None \<and> dd_Found d)"
  shows "s' = s \<and> c' = c"
  using assms(2,3) by (auto simp: delete_doc_def split: option.splits)

lemma batch_delete_contents:
  fixes c :: contents and coll d walked
  defines "c' \<equiv> replay (batch_delete_ops coll d walked) c"
  shows "c' ''docs'' k = (if k = DocKey coll (dd_DocID d) then None else c ''docs'' k)"
    and "c' ''idxmeta'' k = (if k \<in> set (meta_keys coll (dd_OldMeta d) (dd_DocID d)) then None else c ''idxmeta'' k)"
  by (auto simp: c'_def batch_delete_ops_def replay_dels store_simps)

text \<open>Removing a document that is stored, or was, with its index entries.\<close>

lemma store_ok_remove:
  assumes ok: "store_ok load c" and coll: "nosep coll" and i: "i \<noteq> []" and d: "load v = Ok d" "meta_ok (Meta d)"
    and here: "c ''docs'' (DocKey coll i) = None \<or> c ''docs'' (DocKey coll i) = Some v"
    and docs: "\<And>k. c' ''docs'' k = (if k = DocKey coll i then None else c ''docs'' k)"
    and idx: "\<And>k. c' ''idxmeta'' k = (if k \<in> set (meta_keys coll (Meta d) i) then None else c ''idxmeta'' k)"
  shows "store_ok load c'"
proof (rule store_ok_replace [where c = c and c' = c' and coll = coll and i = i and v = None and N = "{}" and
    Old = "{k. \<exists>d. doc_at load c coll i d \<and> k \<in> set (meta_keys coll (Meta d) i)}", OF ok coll i])
  show "c' ''docs'' k = (if k = DocKey coll i then None else c ''docs'' k)" for k by (rule docs)
next
  fix k
  have "c ''idxmeta'' k = None" if k: "k \<in> set (meta_keys coll (Meta d) i)" "c ''docs'' (DocKey coll i) = None"
  proof (rule ccontr)
    assume "c ''idxmeta'' k \<noteq> None"
    with ok obtain coll' i' d' where d': "doc_at load c coll' i' d'" "k \<in> set (meta_keys coll' (Meta d') i')"
      by (auto simp: store_ok_def index_exact_def)
    then have "meta_ok (Meta d')" "nosep coll'" using docs_okD [of load c coll' i' d'] ok by (auto simp: store_ok_def doc_at_def)
    from meta_keys_disjoint [OF d(2) this(1) coll this(2) k(1) d'(2)] d'(1) k(2) show False by (auto simp: doc_at_def)
  qed
  moreover have "(\<exists>d. doc_at load c coll i d \<and> k \<in> set (meta_keys coll (Meta d) i)) \<longleftrightarrow>
      c ''docs'' (DocKey coll i) = Some v \<and> k \<in> set (meta_keys coll (Meta d) i)"
    using here d(1) coll by (auto simp: doc_at_def)
  ultimately show "c' ''idxmeta'' k \<noteq> None \<longleftrightarrow>
      k \<in> {} \<or> (c ''idxmeta'' k \<noteq> None \<and> k \<notin> {k. \<exists>d. doc_at load c coll i d \<and> k \<in> set (meta_keys coll (Meta d) i)})"
    using here idx [of k] by auto
qed simp_all

text \<open>What a lookup in the store \<open>c0\<close> found.\<close>

definition looked_up :: "('tx, 'p) env \<Rightarrow> bytes \<Rightarrow> contents \<Rightarrow> DeletedDoc \<Rightarrow> bool" where
  "looked_up E coll c0 d \<longleftrightarrow> (dd_Error d = None \<and> dd_Found d \<longrightarrow> dd_DocID d \<noteq> [] \<and>
     (\<exists>v doc. c0 ''docs'' (DocKey coll (dd_DocID d)) = Some v \<and> e_load E v = Ok doc \<and> meta_ok (Meta doc) \<and> dd_OldMeta d = Meta doc))"

definition removed :: "bytes \<Rightarrow> DeletedDoc list \<Rightarrow> bytes set" where
  "removed coll ds = DocKey coll ` dd_DocID ` {d \<in> set ds. dd_Error d = None \<and> dd_Found d}"

lemma delete_docs_spec:
  assumes B: "bolt_laws (e_bolt E) cont" and coll: "nosep coll"
  shows "delete_docs E coll ds (s, r, c) = ((s', r', c'), fin) \<Longrightarrow> \<forall>d \<in> set ds. looked_up E coll c0 d \<Longrightarrow>
    \<forall>k. cont (fst s) ''docs'' k = None \<or> cont (fst s) ''docs'' k = c0 ''docs'' k \<Longrightarrow> store_ok (e_load E) (cont (fst s)) \<Longrightarrow>
    logged_step cont s s' \<and> store_ok (e_load E) (cont (fst s')) \<and>
    (fin \<longrightarrow> (\<forall>k. cont (fst s') ''docs'' k = (if k \<in> removed coll ds then None else cont (fst s) ''docs'' k)))"
proof (induction ds arbitrary: s r c)
  case Nil
  then show ?case by (auto simp: removed_def)
next
  case (Cons d ds)
  show ?case
  proof (cases "delete_doc E coll d (s, r, c)")
    case None
    with Cons.prems show ?thesis by auto
  next
    case (Some st)
    obtain s1 r1 c1 where st: "st = (s1, r1, c1)" by (cases st)
    with Some Cons.prems(1) have rest: "delete_docs E coll ds (s1, r1, c1) = ((s', r', c'), fin)" by simp
    note step = Some [unfolded st]
    show ?thesis
    proof (cases "dd_Error d = None \<and> dd_Found d")
      case False
      then have "s1 = s" using delete_doc_skipped [OF B step] by blast
      moreover have "removed coll (d # ds) = removed coll ds" using False by (auto simp: removed_def)
      ultimately show ?thesis using Cons.IH [OF rest] Cons.prems by simp
    next
      case True
      then obtain walked where w: "runs cont (batch_delete_ops coll d walked) s s1"
        using delete_doc_runs [OF B step] by blast
      have c1: "cont (fst s1) = replay (batch_delete_ops coll d walked) (cont (fst s))" using w by (simp add: runs_def)
      note C = batch_delete_contents [of coll d walked "cont (fst s)", folded c1]
      from True Cons.prems(2) obtain v doc where v: "dd_DocID d \<noteq> []" "c0 ''docs'' (DocKey coll (dd_DocID d)) = Some v"
        "e_load E v = Ok doc" "meta_ok (Meta doc)" "dd_OldMeta d = Meta doc"
        unfolding looked_up_def by auto
      have "store_ok (e_load E) (cont (fst s1))"
        by (rule store_ok_remove [OF Cons.prems(4) coll v(1,3,4) _ C(1) C(2) [unfolded v(5)]]) (use Cons.prems(3) v(2) in metis)
      moreover have "\<forall>k. cont (fst s1) ''docs'' k = None \<or> cont (fst s1) ''docs'' k = c0 ''docs'' k"
        using Cons.prems(3) C(1) by auto
      ultimately have IH: "logged_step cont s1 s'" "store_ok (e_load E) (cont (fst s'))"
        "fin \<Longrightarrow> cont (fst s') ''docs'' k = (if k \<in> removed coll ds then None else cont (fst s1) ''docs'' k)" for k
        using Cons.IH [OF rest] Cons.prems(2) by auto
      have "removed coll (d # ds) = insert (DocKey coll (dd_DocID d)) (removed coll ds)" using True by (auto simp: removed_def)
      then show ?thesis using IH C(1) logged_step_trans [OF logged_stepI [OF w]] by simp
    qed
  qed
qed

abbreviation dl_id :: "bytes \<Rightarrow> DeleteDocument \<Rightarrow> bytes" where
  "dl_id coll d \<equiv> genID [coll, dl_Key d, dl_Lang d]"

lemma lookupDocument_spec:
  assumes B: "bolt_laws (e_bolt E) cont" and l: "lookupDocument E coll view d = Some r" and agree: "readers_agree E (cont view)"
    and ok: "store_ok (e_load E) (cont view)" and coll: "nosep coll"
  shows "looked_up E coll (cont view) r \<and>
    (dl_Key d \<noteq> [] \<and> dl_Lang d \<noteq> [] \<longrightarrow> dd_DocID r = dl_id coll d \<and> dd_Error r = None \<and>
      (dd_Found r \<longleftrightarrow> cont view ''docs'' (DocKey coll (dl_id coll d)) \<noteq> None)) \<and>
    (dl_Key d = [] \<or> dl_Lang d = [] \<longrightarrow> dd_Error r \<noteq> None)"
proof (cases "dl_Key d = [] \<or> dl_Lang d = []")
  case True
  with l show ?thesis by (auto simp: lookupDocument_def Let_def looked_up_def)
next
  case False
  note L = l [unfolded lookupDocument_def Let_def bolt_laws.get_law [OF B]]
  have ne: "dl_id coll d \<noteq> []" by simp
  show ?thesis
  proof (cases "cont view ''docs'' (DocKey coll (dl_id coll d))")
    case None
    with L False show ?thesis by (auto simp: looked_up_def simp del: genID.simps)
  next
    case (Some v)
    then obtain doc where doc: "e_load E v = Ok doc" "meta_ok (Meta doc)"
      using ok coll unfolding store_ok_def docs_ok_def by blast
    then have "e_unmarshal E v = Ok doc" using agree Some by (simp add: readers_agree_def)
    with L False Some doc ne show ?thesis by (auto simp: looked_up_def simp del: genID.simps)
  qed
qed

lemma parallelLookup_spec:
  "parallelLookup E coll views ds = Some rs \<Longrightarrow> list_all2 (\<lambda>d r. \<exists>i < length ds. lookupDocument E coll (views i) d = Some r) ds rs"
proof (induction ds arbitrary: views rs)
  case (Cons d ds)
  then obtain r rest where r: "lookupDocument E coll (views 0) d = Some r" "parallelLookup E coll (\<lambda>i. views (Suc i)) ds = Some rest" "rs = r # rest"
    by (auto split: option.splits)
  have "list_all2 (\<lambda>d r. \<exists>i < length (d' # ds). lookupDocument E coll (views i) d = Some r) ds rest" for d'
    by (rule list_all2_mono [OF Cons.IH [OF r(2)]]) fastforce
  with r(1,3) show ?case by auto
qed simp

text \<open>How the results of the lookups match the request.\<close>

definition matches :: "('tx, 'p) env \<Rightarrow> bytes \<Rightarrow> contents \<Rightarrow> DeleteDocument \<Rightarrow> DeletedDoc \<Rightarrow> bool" where
  "matches E coll c d r \<longleftrightarrow> looked_up E coll c r \<and>
    (dl_Key d \<noteq> [] \<and> dl_Lang d \<noteq> [] \<longrightarrow> dd_DocID r = dl_id coll d \<and> dd_Error r = None \<and>
      (dd_Found r \<longleftrightarrow> c ''docs'' (DocKey coll (dl_id coll d)) \<noteq> None)) \<and>
    (dl_Key d = [] \<or> dl_Lang d = [] \<longrightarrow> dd_Error r \<noteq> None)"

definition named :: "bytes \<Rightarrow> DeleteDocument list \<Rightarrow> bytes \<Rightarrow> bool" where
  "named coll docs k \<longleftrightarrow> (\<exists>d \<in> set docs. dl_Key d \<noteq> [] \<and> dl_Lang d \<noteq> [] \<and> k = DocKey coll (dl_id coll d))"

lemma lookups_match:
  assumes B: "bolt_laws (e_bolt E) cont" and rs: "parallelLookup E coll views docs = Some rs"
    and views: "\<forall>i < length docs. cont (views i) = c" and "store_ok (e_load E) c" and "readers_agree E c" and "nosep coll"
  shows "list_all2 (matches E coll c) docs rs"
proof (rule list_all2_mono [OF parallelLookup_spec [OF rs]])
  fix d r assume "\<exists>i < length docs. lookupDocument E coll (views i) d = Some r"
  then obtain i where i: "i < length docs" "lookupDocument E coll (views i) d = Some r" by blast
  from views i(1) have c: "cont (views i) = c" by blast
  from lookupDocument_spec [OF B i(2), unfolded c] assms(4-) show "matches E coll c d r" unfolding matches_def by blast
qed

lemma list_all2_memD:
  assumes "list_all2 P xs ys"
  shows "x \<in> set xs \<Longrightarrow> \<exists>y \<in> set ys. P x y" and "y \<in> set ys \<Longrightarrow> \<exists>x \<in> set xs. P x y"
  using assms by (induction rule: list_all2_induct) auto

lemma removed_named:
  assumes all: "list_all2 (matches E coll c) docs rs" and k: "c ''docs'' k \<noteq> None"
  shows "k \<in> removed coll rs \<longleftrightarrow> named coll docs k"
proof
  assume "k \<in> removed coll rs"
  then obtain r where r: "r \<in> set rs" "dd_Error r = None" "k = DocKey coll (dd_DocID r)" by (auto simp: removed_def)
  from list_all2_memD(2) [OF all r(1)] obtain d where d: "d \<in> set docs" "matches E coll c d r" by blast
  with r(2,3) show "named coll docs k" unfolding named_def matches_def by metis
next
  assume "named coll docs k"
  then obtain d where d: "d \<in> set docs" "dl_Key d \<noteq> []" "dl_Lang d \<noteq> []" "k = DocKey coll (dl_id coll d)" unfolding named_def by blast
  from list_all2_memD(1) [OF all d(1)] obtain r where r: "r \<in> set rs" "matches E coll c d r" by blast
  have "dd_DocID r = dl_id coll d" "dd_Error r = None" "dd_Found r"
    using r(2) d k unfolding matches_def by blast+
  moreover from this r(1) have "DocKey coll (dd_DocID r) \<in> removed coll rs" unfolding removed_def by (intro imageI) simp
  ultimately show "k \<in> removed coll rs" unfolding d(4) by (simp only:)
qed


text \<open>A batch of deletes leaves traces that a single delete removes: the lock-free cache keeps
  the document, so that in the extreme mode the gRPC read goes on returning it, and no hook runs,
  so that its vectors, its expiry, its full-text postings and its place in the geo index stay.\<close>

theorem batch_deleted_still_read:
  assumes p: "ProcessBatchDelete E ck coll views docs s = (s', res)"
    and "sv_extreme s" and "sv_lfcache s = Some c" and "lf_lookup (ck_now ck') c (BuildCacheKey coll key lang) = Some buf"
    and "e_unmarshal E buf = Ok old" and "coll \<noteq> []" and "key \<noteq> []" and "lang \<noteq> []"
  shows "snd (grpc_Get E ck' coll key lang s') = Inr old \<and> sv_effects s' = sv_effects s"
proof -
  have s': "sv_lfcache s' = sv_lfcache s \<and> sv_extreme s' = sv_extreme s \<and> sv_effects s' = sv_effects s"
    using p by (auto simp: ProcessBatchDelete_def commitDelete_def split: if_splits option.splits prod.splits bool.splits)
  with assms(2-) show ?thesis
    by (simp add: grpc_Get_def cache_get_def lf_lookup_def case_prod_beta Let_def)
qed

subsection \<open>What a batch of updates does\<close>

definition run_jobs :: "IndexJob list \<Rightarrow> contents \<Rightarrow> contents" where
  "run_jobs jobs c = fold (\<lambda>job. replay (job_ops job)) jobs c"

lemma run_jobs_append [simp]: "run_jobs (jobs @ [job]) c = replay (job_ops job) (run_jobs jobs c)"
  and run_jobs_Nil [simp]: "run_jobs [] c = c"
  by (simp_all add: run_jobs_def)

lemma replay_job_put: "b \<noteq> ''idxmeta'' \<Longrightarrow> replay (job_ops job) (c_put b k v c) = c_put b k v (replay (job_ops job) c)"
  by (auto simp: replay_job store_simps fun_eq_iff)

lemma run_jobs_put: "b \<noteq> ''idxmeta'' \<Longrightarrow> run_jobs jobs (c_put b k v c) = c_put b k v (run_jobs jobs c)"
proof (induction jobs arbitrary: c)
  case (Cons job jobs)
  then show ?case by (simp add: run_jobs_def replay_job_put)
qed simp

lemma run_jobs_other: "b \<noteq> ''idxmeta'' \<Longrightarrow> run_jobs jobs c b = c b"
proof (induction jobs arbitrary: c)
  case (Cons job jobs)
  have "replay (job_ops job) c b = c b" using Cons.prems by (simp add: replay_job fun_eq_iff)
  with Cons show ?case by (simp add: run_jobs_def)
qed simp

lemma store_ok_cong:
  "c ''docs'' = c' ''docs'' \<Longrightarrow> c ''idxmeta'' = c' ''idxmeta'' \<Longrightarrow> store_ok load c = store_ok load c'"
  by (simp add: store_ok_def docs_ok_def index_exact_def doc_at_def)

text \<open>What the first phase prepared from the store \<open>c0\<close>.\<close>

definition update_prepared :: "('tx, 'p) env \<Rightarrow> bytes \<Rightarrow> contents \<Rightarrow> UpdatedDoc \<Rightarrow> bool" where
  "update_prepared E coll c0 u \<longleftrightarrow> (up_Error u = None \<longrightarrow>
     ID (up_Doc u) = up_DocID u \<and> meta_ok (Meta (up_Doc u)) \<and> e_load E (up_Buf u) = Ok (up_Doc u) \<and>
     (\<exists>v. c0 ''docs'' (DocKey coll (up_DocID u)) = Some v \<and> e_load E v = Ok (up_Existing u)))"

definition job_of :: "bytes \<Rightarrow> UpdatedDoc \<Rightarrow> IndexJob" where
  "job_of coll u = \<lparr>j_Collection = coll, j_DocID = up_DocID u, j_OldMeta = Meta (up_Existing u), j_NewMeta = Meta (up_Doc u)\<rparr>"

text \<open>Storing the updated document and running its job keeps the index exact.\<close>

lemma update_with_job:
  assumes ok: "store_ok (e_load E) c" and coll: "nosep coll" and u: "update_prepared E coll c u" "up_Error u = None"
  shows "store_ok (e_load E) ((if metadataChanged (Meta (up_Existing u)) (Meta (up_Doc u)) then replay (job_ops (job_of coll u)) else id)
    (c_put ''docs'' (DocKey coll (up_DocID u)) (up_Buf u) c))" (is "store_ok _ (?J (c_put _ ?k _ c))")
proof -
  let ?old = "up_Existing u" and ?new = "up_Doc u" and ?i = "up_DocID u"
  from u obtain v where v: "c ''docs'' ?k = Some v" "e_load E v = Ok ?old" "ID ?new = ?i" "meta_ok (Meta ?new)" "e_load E (up_Buf u) = Ok ?new"
    by (auto simp: update_prepared_def)
  then have at: "doc_at (e_load E) c coll ?i d \<longleftrightarrow> d = ?old" for d using coll by (auto simp: doc_at_def)
  have old: "?i \<noteq> []" "meta_ok (Meta ?old)" using docs_okD [of "e_load E" c coll ?i ?old] ok at by (auto simp: store_ok_def)
  let ?N = "set (meta_keys coll (Meta ?new) ?i)" and ?O = "{k. \<exists>d. doc_at (e_load E) c coll ?i d \<and> k \<in> set (meta_keys coll (Meta d) ?i)}"
  have O': "?O = set (meta_keys coll (Meta ?old) ?i)" using at by auto
  have sub: "k \<in> ?O \<Longrightarrow> c ''idxmeta'' k \<noteq> None" for k using ok unfolding store_ok_def index_exact_def by blast
  have same: "?N = ?O" if "\<not> metadataChanged (Meta ?old) (Meta ?new)"
    unfolding O' using meta_keys_cong [OF _ _ that] old(2) v(4) by (simp add: meta_ok_def)
  show ?thesis
  proof (rule store_ok_replace [where c = c and coll = coll and i = ?i and v = "Some (up_Buf u)" and N = ?N and Old = ?O, OF ok coll old(1)])
    show "?J (c_put ''docs'' ?k (up_Buf u) c) ''docs'' k = (if k = DocKey coll ?i then Some (up_Buf u) else c ''docs'' k)" for k
      by (simp add: replay_job store_simps)
    show "?J (c_put ''docs'' ?k (up_Buf u) c) ''idxmeta'' k \<noteq> None \<longleftrightarrow> k \<in> ?N \<or> (c ''idxmeta'' k \<noteq> None \<and> k \<notin> ?O)" for k
      using same sub [of k] by (auto simp: replay_job store_simps job_of_def O')
    show "case Some (up_Buf u) of None \<Rightarrow> ?N = {}
      | Some buf \<Rightarrow> \<exists>d. e_load E buf = Ok d \<and> ID d = ?i \<and> meta_ok (Meta d) \<and> ?N = set (meta_keys coll (Meta d) ?i)"
      using v by auto
  qed (rule refl)
qed

lemma update_doc_spec:
  assumes B: "bolt_laws (e_bolt E) cont" and coll: "nosep coll" and d: "update_doc E ck now coll u (s, r, jobs, c) = Some (s', r', jobs', c')"
    and u: "up_Error u = None \<Longrightarrow> update_prepared E coll (cont (fst s)) u"
    and ok: "store_ok (e_load E) (run_jobs jobs (cont (fst s)))"
  shows "logged_step cont s s' \<and> store_ok (e_load E) (run_jobs jobs' (cont (fst s'))) \<and> length jobs' \<le> Suc (length jobs) \<and>
    (\<forall>k. k \<noteq> DocKey coll (up_DocID u) \<longrightarrow> cont (fst s') ''docs'' k = cont (fst s) ''docs'' k) \<and> cont (fst s') ''idxmeta'' = cont (fst s) ''idxmeta''"
proof (cases "up_Error u = None \<and> (\<exists>s1. put_log (e_bolt E) ''docs'' (DocKey coll (up_DocID u)) (up_Buf u) s = Inr s1)")
  case False
  with d have "s' = s \<and> jobs' = jobs" by (auto simp: update_doc_def split: option.splits sum.splits)
  with ok show ?thesis by auto
next
  case True
  then obtain s1 where e: "up_Error u = None" and s1: "put_log (e_bolt E) ''docs'' (DocKey coll (up_DocID u)) (up_Buf u) s = Inr s1" by blast
  let ?ch = "metadataChanged (Meta (up_Existing u)) (Meta (up_Doc u))" and ?c = "cont (fst s)"
  let ?rk = "RevPrefix coll (ID (up_Doc u)) @ fmt_020d now"
  from d e s1 have jobs': "jobs' = (if ?ch then jobs @ [job_of coll u] else jobs)"
    and s': "s' = s1 \<or> put_log (e_bolt E) ''rev'' ?rk (up_Buf u) s1 = Inr s'"
    by (auto simp: update_doc_def job_of_def Let_def split: sum.splits option.splits if_splits)
  have r1: "runs cont [put_op ''docs'' (up_Buf u) (DocKey coll (up_DocID u))] s s1" by (rule put_log_runs [OF B s1])
  then have c1: "cont (fst s1) = c_put ''docs'' (DocKey coll (up_DocID u)) (up_Buf u) ?c" by (simp add: runs_def)
  have c': "cont (fst s') = cont (fst s1) \<or> cont (fst s') = c_put ''rev'' ?rk (up_Buf u) (cont (fst s1))"
    using s' put_log_runs [OF B, of "''rev''" ?rk "up_Buf u" s1 s'] by (auto simp: runs_def)
  have log: "logged_step cont s1 s'"
    using s' logged_stepI [OF put_log_runs [OF B, of "''rev''" ?rk "up_Buf u" s1 s']] by auto
  have "update_prepared E coll (run_jobs jobs ?c) u"
    using u [OF e] by (simp add: update_prepared_def run_jobs_other)
  from update_with_job [OF ok coll this e] have "store_ok (e_load E) (run_jobs jobs' (cont (fst s1)))"
    by (cases ?ch) (simp_all add: c1 jobs' run_jobs_put replay_job_put)
  moreover have "store_ok (e_load E) (run_jobs jobs' (c_put ''rev'' ?rk (up_Buf u) x)) = store_ok (e_load E) (run_jobs jobs' x)" for x
    by (rule store_ok_cong) (simp_all add: run_jobs_put store_simps fun_eq_iff)
  ultimately have store: "store_ok (e_load E) (run_jobs jobs' (cont (fst s')))" by - (rule disjE [OF c'], simp_all only:)
  have b: "cont (fst s') ''docs'' = cont (fst s1) ''docs''" "cont (fst s') ''idxmeta'' = cont (fst s1) ''idxmeta''"
    using c' by (auto simp: store_simps fun_eq_iff)
  have "\<forall>k. k \<noteq> DocKey coll (up_DocID u) \<longrightarrow> cont (fst s') ''docs'' k = ?c ''docs'' k" unfolding b c1 by (simp add: store_simps)
  moreover have "cont (fst s') ''idxmeta'' = ?c ''idxmeta''" unfolding b c1 by (simp add: store_simps fun_eq_iff)
  moreover have "length jobs' \<le> Suc (length jobs)" by (simp add: jobs')
  ultimately show ?thesis using logged_step_trans [OF logged_stepI [OF r1] log] store by blast
qed

lemma update_docs_spec:
  assumes B: "bolt_laws (e_bolt E) cont" and coll: "nosep coll"
  shows "update_docs E cks now coll us (s, r, jobs, c) = ((s', r', jobs', c'), fin) \<Longrightarrow>
    \<forall>u \<in> set us. update_prepared E coll (cont (fst s)) u \<Longrightarrow> distinct (map up_DocID (filter (\<lambda>u. up_Error u = None) us)) \<Longrightarrow>
    store_ok (e_load E) (run_jobs jobs (cont (fst s))) \<Longrightarrow>
    logged_step cont s s' \<and> store_ok (e_load E) (run_jobs jobs' (cont (fst s'))) \<and> length jobs' \<le> length jobs + length us \<and>
    cont (fst s') ''idxmeta'' = cont (fst s) ''idxmeta''"
proof (induction us arbitrary: cks s r jobs c)
  case (Cons u us)
  show ?case
  proof (cases "update_doc E (cks 0) now coll u (s, r, jobs, c)")
    case None
    with Cons.prems show ?thesis by auto
  next
    case (Some st)
    obtain s1 r1 jobs1 c1 where st: "st = (s1, r1, jobs1, c1)" by (cases st)
    with Some Cons.prems(1) have rest: "update_docs E (\<lambda>i. cks (Suc i)) now coll us (s1, r1, jobs1, c1) = ((s', r', jobs', c'), fin)" by simp
    have S: "logged_step cont s s1" "store_ok (e_load E) (run_jobs jobs1 (cont (fst s1)))" "length jobs1 \<le> Suc (length jobs)"
      "\<forall>k. k \<noteq> DocKey coll (up_DocID u) \<longrightarrow> cont (fst s1) ''docs'' k = cont (fst s) ''docs'' k" "cont (fst s1) ''idxmeta'' = cont (fst s) ''idxmeta''"
      using update_doc_spec [OF B coll Some [unfolded st] _ Cons.prems(4)] Cons.prems(2) by auto
    have err: "s1 = s" if "up_Error u \<noteq> None" using Some that st by (auto simp: update_doc_def split: option.splits)
    have "update_prepared E coll (cont (fst s1)) u'" if "u' \<in> set us" for u'
    proof (cases "up_Error u = None \<and> up_Error u' = None")
      case True
      with that have "up_DocID u' \<in> up_DocID ` set (filter (\<lambda>u. up_Error u = None) us)" by simp
      with True Cons.prems(3) have "up_DocID u' \<noteq> up_DocID u" by auto
      then have "DocKey coll (up_DocID u') \<noteq> DocKey coll (up_DocID u)" by (simp add: DocKey_def)
      with S(4) Cons.prems(2) that show ?thesis by (simp add: update_prepared_def)
    next
      case False
      with err Cons.prems(2) that show ?thesis by (auto simp: update_prepared_def)
    qed
    moreover have "distinct (map up_DocID (filter (\<lambda>u. up_Error u = None) us))" using Cons.prems(3) by (simp split: if_splits)
    ultimately have IH: "logged_step cont s1 s'" "store_ok (e_load E) (run_jobs jobs' (cont (fst s')))" "length jobs' \<le> length jobs1 + length us"
      "cont (fst s') ''idxmeta'' = cont (fst s1) ''idxmeta''"
      using Cons.IH [OF rest _ _ S(2)] by blast+
    show ?thesis using logged_step_trans [OF S(1) IH(1)] IH(2-4) S(3,5) by simp
  qed
qed auto

lemma enqueue_jobs_room:
  "\<not> iq_closed q \<Longrightarrow> length (iq_queue q) + length jobs \<le> queue_cap \<Longrightarrow>
   enqueue_jobs B cks jobs (q, r) = (q\<lparr>iq_queue := iq_queue q @ jobs\<rparr>, r)"
proof (induction jobs arbitrary: cks q)
  case (Cons job jobs)
  then have "Enqueue B (cks 0) job q = (q\<lparr>iq_queue := iq_queue q @ [job]\<rparr>, None)" by (simp add: Enqueue_def)
  then show ?case using Cons.IH [of "q\<lparr>iq_queue := iq_queue q @ [job]\<rparr>"] Cons.prems by simp
qed simp

abbreviation ud_id :: "bytes \<Rightarrow> UpdateDocument \<Rightarrow> bytes" where
  "ud_id coll u \<equiv> genID [coll, ud_Key u, ud_Lang u]"

lemma update_processDocument_prepared:
  assumes B: "bolt_laws (e_bolt E) cont" and codec: "doc_codec (e_marshal E) (e_load E) (e_unmarshal E)"
    and p: "update_processDocument E coll now view u = Some r" and agree: "readers_agree E (cont view)" and m: "meta_ok (ud_Meta u)"
  shows "update_prepared E coll (cont view) r \<and> (up_Error r = None \<longrightarrow> up_DocID r = ud_id coll u)"
proof (cases "up_Error r = None")
  case True
  note P = p [unfolded update_processDocument_def Let_def bolt_laws.get_law [OF B]]
  from P True obtain v existing buf where v: "cont view ''docs'' (DocKey coll (ud_id coll u)) = Some v" "e_unmarshal E v = Ok existing"
    "e_marshal E (updated_doc now coll u existing) coll = Ok buf"
    "up_DocID r = ud_id coll u" "up_Doc r = updated_doc now coll u existing" "up_Buf r = buf" "up_Existing r = existing"
    by (auto split: if_splits option.splits outcome.splits simp del: genID.simps)
  have "e_load E v = Ok existing" using agree v(1,2) by (simp add: readers_agree_def)
  with v doc_codec.load_marshal [OF codec v(3)] m show ?thesis
    by (simp add: update_prepared_def updated_doc_def del: genID.simps)
qed (auto simp: update_prepared_def)

lemma update_parallelProcess_spec:
  "update_parallelProcess E coll now views us = Some rs \<Longrightarrow>
   list_all2 (\<lambda>u r. \<exists>i < length us. update_processDocument E coll now (views i) u = Some r) us rs"
proof (induction us arbitrary: views rs)
  case (Cons u us)
  then obtain r rest where r: "update_processDocument E coll now (views 0) u = Some r"
    "update_parallelProcess E coll now (\<lambda>i. views (Suc i)) us = Some rest" "rs = r # rest"
    by (auto split: option.splits)
  have "list_all2 (\<lambda>u r. \<exists>i < length (u' # us). update_processDocument E coll now (views i) u = Some r) us rest" for u'
    by (rule list_all2_mono [OF Cons.IH [OF r(2)]]) fastforce
  with r(1,3) show ?case by auto
qed simp

lemma distinct_filter_ids:
  "list_all2 (\<lambda>u r. up_Error r = None \<longrightarrow> up_DocID r = ud_id coll u) us rs \<Longrightarrow> distinct (map (ud_id coll) us) \<Longrightarrow>
   distinct (map up_DocID (filter (\<lambda>u. up_Error u = None) rs)) \<and>
   set (map up_DocID (filter (\<lambda>u. up_Error u = None) rs)) \<subseteq> set (map (ud_id coll) us)"
  by (induction rule: list_all2_induct) (auto simp del: genID.simps)

lemma update_results:
  assumes B: "bolt_laws (e_bolt E) cont" and codec: "doc_codec (e_marshal E) (e_load E) (e_unmarshal E)"
    and us: "update_parallelProcess E coll now views docs = Some us" and views: "\<forall>i < length docs. cont (views i) = c"
    and agree: "readers_agree E c" and m: "\<forall>u \<in> set docs. meta_ok (ud_Meta u)"
  shows "list_all2 (\<lambda>u r. update_prepared E coll c r \<and> (up_Error r = None \<longrightarrow> up_DocID r = ud_id coll u)) docs us"
  unfolding list_all2_conv_all_nth
proof (intro conjI allI impI)
  note L = update_parallelProcess_spec [OF us, unfolded list_all2_conv_all_nth]
  show "length docs = length us" using L by blast
  fix i assume i: "i < length docs"
  with L obtain j where j: "j < length docs" "update_processDocument E coll now (views j) (docs ! i) = Some (us ! i)" by blast
  from views j(1) have c: "cont (views j) = c" by blast
  have "meta_ok (ud_Meta (docs ! i))" using m i by simp
  from update_processDocument_prepared [OF B codec j(2), unfolded c, OF agree this]
  show "update_prepared E coll c (us ! i)" "up_Error (us ! i) = None \<Longrightarrow> up_DocID (us ! i) = ud_id coll (docs ! i)"
    by blast+
qed


subsection \<open>Witnesses\<close>

lemma upd_readers: "readers_agree upd_env (mem_contents upd_db)"
  by (auto simp: readers_agree_def upd_db_def mem_contents_def mem_bucket_def upd_env_def)

definition del_k :: "DeleteDocument list" where "del_k = [\<lparr>dl_Key = ''k'', dl_Lang = ''en''\<rparr>]"

lemma upd_batch_delete:
  "snd (ProcessBatchDelete upd_env (ref_clock 9) ''c'' (\<lambda>_. upd_db) del_k (upd_server bl)) = Some (delete_response\<lparr>dr_Deleted := 1\<rparr>)"
  by (simp add: del_k_def ProcessBatchDelete_def commitDelete_def delete_doc_def lookupDocument_def delete_response_def del_log_def upd_eval mem_keys_def
      del: FlushTo_def)


theorem batch_deleted_still_read_witness:
  "\<exists>s'. fst (ProcessBatchDelete upd_env (ref_clock 9) ''c'' (\<lambda>_. upd_db) del_k ((upd_server None)\<lparr>sv_extreme := True,
       sv_lfcache := Some (lf_Set 5 0 (BuildCacheKey ''c'' ''k'' ''en'') ''O'' (NewLockFreeCache 10 60))\<rparr>)) = s' \<and>
     snd (grpc_Get upd_env (ref_clock 9) ''c'' ''k'' ''en'' s') = Inr old_doc"
proof -
  let ?c = "lf_Set 5 0 (BuildCacheKey ''c'' ''k'' ''en'') ''O'' (NewLockFreeCache 10 60)"
  let ?s = "(upd_server None)\<lparr>sv_extreme := True, sv_lfcache := Some ?c\<rparr>"
  obtain s' res where p: "ProcessBatchDelete upd_env (ref_clock 9) ''c'' (\<lambda>_. upd_db) del_k ?s = (s', res)"
    by (cases "ProcessBatchDelete upd_env (ref_clock 9) ''c'' (\<lambda>_. upd_db) del_k ?s")
  have "ck_now (ref_clock 9) \<le> lf_expiry 5 (NewLockFreeCache 10 60)"
    by (simp add: ref_clock_def lf_expiry_def NewLockFreeCache_def wrap64_def)
  from lf.lookup_store [OF lf_inv_New this] have hit: "lf_lookup (ck_now (ref_clock 9)) ?c (BuildCacheKey ''c'' ''k'' ''en'') = Some ''O''" .
  have h: "sv_extreme ?s" "sv_lfcache ?s = Some ?c" "e_unmarshal upd_env ''O'' = Ok old_doc" "''c'' \<noteq> []" "''k'' \<noteq> []" "''en'' \<noteq> []"
    by (simp_all add: upd_env_def)
  from batch_deleted_still_read [OF p h(1,2) hit h(3-)] p show ?thesis by simp
qed

definition upd_k :: "UpdateDocument list" where
  "upd_k = [\<lparr>ud_Key = ''k'', ud_Lang = ''en'', ud_Meta = [], ud_ContentMd = [], ud_SaveRevision = False\<rparr>]"

lemma upd_batch_update:
  "\<exists>s' q'. ProcessBatchUpdate upd_env (\<lambda>_. ref_clock 9) (ref_clock 9) ''c'' (\<lambda>_. upd_db) upd_k (upd_server bl, Some (NewIndexQueue upd_db bl 1)) =
     (s', Some q', Some (update_response\<lparr>ur_Updated := 1\<rparr>)) \<and> iq_queue q' = [\<lparr>j_Collection = ''c'', j_DocID = ''c|k|en'', j_OldMeta = Meta old_doc, j_NewMeta = []\<rparr>]"
  by (simp add: upd_k_def ProcessBatchUpdate_def commitUpdate_def update_doc_def update_processDocument_def updated_doc_def update_response_def
      NewIndexQueue_def Enqueue_def queue_cap_def upd_eval del: FlushTo_def)


end
