(* ===== verification/Schema.thy ===== *)
theory Schema
  imports Document_Update Replication_Safety
begin

section \<open>Metadata schemas\<close>

text \<open>
  Models \<^verbatim>\<open>internal/schema/schema.go\<close>: the parser's checks of a schema, the validation of
  metadata, and the manager that keeps the parsed schemas of all collections in memory next to
  the bucket \<open>schemas\<close> that holds their sources.  Parameters are the JSON decoder \<open>js\<close>, which is a
  third-party package and gives \<^term>\<open>None\<close> for a document it refuses, and the engine of regular
  expressions \<open>rx\<close>: \<^term>\<open>None\<close> for a pattern that does not compile, otherwise the strings it
  matches.  The tests of numbers are \<^verbatim>\<open>strconv.ParseFloat\<close> and
  \<^verbatim>\<open>strconv.ParseInt\<close>, written out.
\<close>

subsection \<open>Numbers\<close>

text \<open>The value of a digit in the two bases of a floating-point literal.\<close>

definition float_digit :: "bool \<Rightarrow> char \<Rightarrow> nat option" where
  "float_digit hex c =
     (if is_digit c then Some (of_char c - 48)
      else let l = lower_byte c
           in if hex \<and> 97 \<le> (of_char l :: nat) \<and> (of_char l :: nat) \<le> 102 then Some (of_char l - 87) else None)"

text \<open>The mantissa: its digits as a number, how many of them follow the point, whether a point, a
  digit and an underscore were seen, and the rest of the text.\<close>

fun float_mantissa :: "bool \<Rightarrow> bytes \<Rightarrow> nat \<Rightarrow> nat \<Rightarrow> bool \<Rightarrow> bool \<Rightarrow> bool \<Rightarrow> (nat \<times> nat \<times> bool \<times> bool) \<times> bytes" where
  "float_mantissa hex [] m f dot dig us = ((m, f, dig, us), [])"
| "float_mantissa hex (c # cs) m f dot dig us =
     (if c = CHR ''_'' then float_mantissa hex cs m f dot dig True
      else if c = CHR ''.'' then (if dot then ((m, f, dig, us), c # cs) else float_mantissa hex cs m f True dig us)
      else case float_digit hex c of
             Some d \<Rightarrow> float_mantissa hex cs (m * (if hex then 16 else 10) + d) (if dot then f + 1 else f) dot True us
           | None \<Rightarrow> ((m, f, dig, us), c # cs))"

fun float_exponent :: "bytes \<Rightarrow> nat \<Rightarrow> bool \<Rightarrow> (nat \<times> bool) \<times> bytes" where
  "float_exponent [] e us = ((e, us), [])"
| "float_exponent (c # cs) e us =
     (if c = CHR ''_'' then float_exponent cs e True
      else if is_digit c then float_exponent cs (if e < 10000 then e * 10 + (of_char c - 48) else e) us
      else ((e, us), c # cs))"

text \<open>Underscores must separate digits; the base prefix counts as a digit.  The state is
  \<^verbatim>\<open>'0'\<close> after a digit, \<^verbatim>\<open>'_'\<close> after an underscore and \<^verbatim>\<open>'!'\<close> otherwise.\<close>

fun underscore_scan :: "bool \<Rightarrow> char \<Rightarrow> bytes \<Rightarrow> bool" where
  "underscore_scan hex i [] = (i \<noteq> CHR ''_'')"
| "underscore_scan hex i (c # cs) =
     (if float_digit hex c \<noteq> None then underscore_scan hex (CHR ''0'') cs
      else if c = CHR ''_'' then (if i \<noteq> CHR ''0'' then False else underscore_scan hex (CHR ''_'') cs)
      else if i = CHR ''_'' then False
      else underscore_scan hex (CHR ''!'') cs)"

definition strip_sign :: "bytes \<Rightarrow> bool \<times> bytes" where
  "strip_sign s = (case s of [] \<Rightarrow> (False, [])
     | c # r \<Rightarrow> if c = CHR ''-'' then (True, r) else if c = CHR ''+'' then (False, r) else (False, s))"

definition underscoreOK :: "bytes \<Rightarrow> bool" where
  "underscoreOK s =
     (let s = snd (strip_sign s)
      in case s of
           c # d # r \<Rightarrow> if c = CHR ''0'' \<and> lower_byte d \<in> {CHR ''b'', CHR ''o'', CHR ''x''}
                          then underscore_scan (lower_byte d = CHR ''x'') (CHR ''0'') r
                          else underscore_scan False (CHR ''!'') s
         | _ \<Rightarrow> underscore_scan False (CHR ''!'') s)"

text \<open>\<open>m * base ^ e\<close> rounds to a finite number of 64 bits.\<close>

definition float_fits :: "nat \<Rightarrow> nat \<Rightarrow> int \<Rightarrow> bool" where
  "float_fits m b e =
     (m = 0 \<or> (if e \<ge> 0 then m * b ^ nat e < 2 ^ 1024 - 2 ^ 970 else m < (2 ^ 1024 - 2 ^ 970) * b ^ nat (- e)))"

definition float_literal :: "bytes \<Rightarrow> bool" where
  "float_literal s =
     (let body = snd (strip_sign s);
          hex = (case body of c # d # _ # _ \<Rightarrow> c = CHR ''0'' \<and> lower_byte d = CHR ''x'' | _ \<Rightarrow> False);
          ((m, f, dig, us), rest) = float_mantissa hex (if hex then drop 2 body else body) 0 0 False False False
      in if \<not> dig then False
         else case rest of
           [] \<Rightarrow> \<not> hex \<and> (us \<longrightarrow> underscoreOK s) \<and> float_fits m 10 (- int f)
         | c # r \<Rightarrow>
             if lower_byte c = (if hex then CHR ''p'' else CHR ''e'') then
               (let (neg, digits) = strip_sign r
                in case digits of [] \<Rightarrow> False
                   | d # _ \<Rightarrow> if \<not> is_digit d then False
                              else (let ((e, us'), rest') = float_exponent digits 0 us; e' = (if neg then - int e else int e)
                                    in rest' = [] \<and> (us' \<longrightarrow> underscoreOK s) \<and>
                                       float_fits m (if hex then 2 else 10) (e' - (if hex then 4 else 1) * int f)))
             else False)"

definition ParseFloat_ok :: "bytes \<Rightarrow> bool" where
  "ParseFloat_ok s =
     (let l = map lower_byte s
      in l = ''nan'' \<or> map lower_byte (snd (strip_sign s)) \<in> {''inf'', ''infinity''} \<or> float_literal s)"

text \<open>\<^verbatim>\<open>strconv.ParseInt(value, 10, 64)\<close> reads what \<open>strconv.Atoi\<close> reads.\<close>

definition ParseInt10 :: "bytes \<Rightarrow> int option" where "ParseInt10 = Atoi"

subsection \<open>Schemas\<close>

record PropertySchema =
  ps_Type :: bytes
  ps_Enum :: "bytes list"
  ps_Pattern :: bytes
  ps_MinItems :: int
  ps_MaxItems :: int

record MetaSchema =
  Raw :: bytes
  Required :: "bytes list"
  Properties :: "(bytes \<times> PropertySchema) list"

datatype schema_error =
    InvalidJSON | InvalidPattern bytes | UnsupportedType bytes bytes | NegativeMinItems bytes | NegativeMaxItems bytes
  | SchemaStore op_error | InvalidStored bytes schema_error

type_synonym regex = "bytes \<Rightarrow> (bytes \<Rightarrow> bool) option"

definition check_property :: "regex \<Rightarrow> bytes \<Rightarrow> PropertySchema \<Rightarrow> schema_error option" where
  "check_property rx key prop =
     (if ps_Pattern prop \<noteq> [] \<and> rx (ps_Pattern prop) = None then Some (InvalidPattern key)
      else if ps_Type prop \<noteq> [] \<and> ps_Type prop \<notin> {''string'', ''number'', ''integer'', ''boolean''}
           then Some (UnsupportedType (ps_Type prop) key)
      else if ps_MinItems prop < 0 then Some (NegativeMinItems key)
      else if ps_MaxItems prop < 0 then Some (NegativeMaxItems key)
      else None)"

fun check_properties :: "regex \<Rightarrow> (bytes \<times> PropertySchema) list \<Rightarrow> schema_error option" where
  "check_properties rx [] = None"
| "check_properties rx ((key, prop) # props) =
     (case check_property rx key prop of Some err \<Rightarrow> Some err | None \<Rightarrow> check_properties rx props)"

definition parseSchema :: "(bytes \<Rightarrow> MetaSchema option) \<Rightarrow> regex \<Rightarrow> bytes \<Rightarrow> schema_error + MetaSchema" where
  "parseSchema js rx raw =
     (case js raw of None \<Rightarrow> Inl InvalidJSON
      | Some schema \<Rightarrow>
          let schema = schema\<lparr>Raw := raw\<rparr>
          in (case check_properties rx (Properties schema) of Some err \<Rightarrow> Inl err | None \<Rightarrow> Inr schema))"

subsection \<open>Validation\<close>

datatype invalid =
    MissingRequired bytes | TooFewValues bytes nat int | TooManyValues bytes nat int
  | NotANumber bytes bytes | NotAnInteger bytes bytes | NotABoolean bytes bytes
  | NotAllowed bytes bytes | NoMatch bytes bytes

definition validateType :: "bytes \<Rightarrow> bytes \<Rightarrow> bytes \<Rightarrow> invalid option" where
  "validateType key value expectedType =
     (if expectedType = ''string'' then None
      else if expectedType = ''number'' then (if ParseFloat_ok value then None else Some (NotANumber key value))
      else if expectedType = ''integer'' then (if ParseInt10 value = None then Some (NotAnInteger key value) else None)
      else if expectedType = ''boolean'' then (if value \<noteq> ''true'' \<and> value \<noteq> ''false'' then Some (NotABoolean key value) else None)
      else None)"

text \<open>\<^term>\<open>None\<close> is the panic of \<^verbatim>\<open>regexp.MustCompile\<close>.\<close>

definition validate_value :: "regex \<Rightarrow> bytes \<Rightarrow> PropertySchema \<Rightarrow> bytes \<Rightarrow> invalid list option" where
  "validate_value rx key prop v =
     (let types = (if ps_Type prop = [] then [] else case validateType key v (ps_Type prop) of None \<Rightarrow> [] | Some err \<Rightarrow> [err]);
          enums = (if ps_Enum prop \<noteq> [] \<and> v \<notin> set (ps_Enum prop) then [NotAllowed key v] else [])
      in if ps_Pattern prop = [] then Some (types @ enums)
         else case rx (ps_Pattern prop) of None \<Rightarrow> None
              | Some re \<Rightarrow> Some (types @ enums @ (if re v then [] else [NoMatch key v])))"

fun validate_values :: "regex \<Rightarrow> bytes \<Rightarrow> PropertySchema \<Rightarrow> bytes list \<Rightarrow> invalid list option" where
  "validate_values rx key prop [] = Some []"
| "validate_values rx key prop (v # vs) =
     (case validate_value rx key prop v of None \<Rightarrow> None
      | Some errs \<Rightarrow> map_option ((@) errs) (validate_values rx key prop vs))"

definition validate_property :: "regex \<Rightarrow> meta \<Rightarrow> bytes \<Rightarrow> PropertySchema \<Rightarrow> invalid list option" where
  "validate_property rx m key prop =
     (case map_of m key of None \<Rightarrow> Some []
      | Some vals \<Rightarrow>
          map_option ((@)
            ((if ps_MinItems prop > 0 \<and> int (length vals) < ps_MinItems prop then [TooFewValues key (length vals) (ps_MinItems prop)] else []) @
             (if ps_MaxItems prop > 0 \<and> int (length vals) > ps_MaxItems prop then [TooManyValues key (length vals) (ps_MaxItems prop)] else [])))
            (validate_values rx key prop vals))"

fun validate_properties :: "regex \<Rightarrow> meta \<Rightarrow> (bytes \<times> PropertySchema) list \<Rightarrow> invalid list option" where
  "validate_properties rx m [] = Some []"
| "validate_properties rx m ((key, prop) # props) =
     (case validate_property rx m key prop of None \<Rightarrow> None
      | Some errs \<Rightarrow> map_option ((@) errs) (validate_properties rx m props))"

definition validateMeta :: "regex \<Rightarrow> MetaSchema \<Rightarrow> meta \<Rightarrow> invalid list option" where
  "validateMeta rx schema m =
     map_option ((@) (map MissingRequired (filter (\<lambda>key. case map_of m key of None \<Rightarrow> True | Some vals \<Rightarrow> vals = []) (Required schema))))
       (validate_properties rx m (Properties schema))"

subsection \<open>The manager\<close>

record 'tx SchemaManager =
  sm_db :: 'tx
  sm_schemas :: "bytes \<rightharpoonup> MetaSchema"
  sm_binlog :: "Binlog option"

definition NewSchemaManager :: "'tx \<Rightarrow> 'tx SchemaManager" where
  "NewSchemaManager db = \<lparr>sm_db = db, sm_schemas = Map.empty, sm_binlog = None\<rparr>"

definition sm_SetBinlog :: "Binlog option \<Rightarrow> 'tx SchemaManager \<Rightarrow> 'tx SchemaManager" where
  "sm_SetBinlog bl sm = sm\<lparr>sm_binlog := bl\<rparr>"

definition schema_key :: "bytes \<Rightarrow> bytes" where "schema_key collection = ''schema|'' @ collection"

text \<open>\<^verbatim>\<open>strings.TrimPrefix(k, "schema|")\<close>.\<close>

definition trim_schema :: "bytes \<Rightarrow> bytes" where
  "trim_schema k = (if take 7 k = ''schema|'' then drop 7 k else k)"

text \<open>\<open>LoadAll\<close> adds to the schemas in memory and stops at the first one it cannot parse.\<close>

fun load_schemas :: "(bytes \<Rightarrow> MetaSchema option) \<Rightarrow> regex \<Rightarrow> (bytes \<times> bytes) list \<Rightarrow> (bytes \<rightharpoonup> MetaSchema) \<Rightarrow>
    (bytes \<rightharpoonup> MetaSchema) \<times> schema_error option" where
  "load_schemas js rx [] m = (m, None)"
| "load_schemas js rx ((k, v) # kvs) m =
     (case parseSchema js rx v of Inl err \<Rightarrow> (m, Some (InvalidStored (trim_schema k) err))
      | Inr schema \<Rightarrow> load_schemas js rx kvs (m(trim_schema k \<mapsto> schema)))"

definition sm_LoadAll :: "'tx bolt \<Rightarrow> (bytes \<Rightarrow> MetaSchema option) \<Rightarrow> regex \<Rightarrow> 'tx SchemaManager \<Rightarrow>
    'tx SchemaManager \<times> schema_error option" where
  "sm_LoadAll B js rx sm =
     (case load_schemas js rx (bk_scan B ''schemas'' [] (sm_db sm)) (sm_schemas sm) of (m, err) \<Rightarrow> (sm\<lparr>sm_schemas := m\<rparr>, err))"

definition sm_EnsureBucket :: "'tx bolt \<Rightarrow> 'tx SchemaManager \<Rightarrow> 'tx SchemaManager \<times> schema_error option" where
  "sm_EnsureBucket B sm =
     (case DBUpdate B (SchemaStore CommitError)
         (\<lambda>tx. case bk_create B ''schemas'' tx of None \<Rightarrow> Inl (SchemaStore PutError) | Some tx' \<Rightarrow> Inr (tx', ())) (sm_db sm) of
        (db, Inl err) \<Rightarrow> (sm\<lparr>sm_db := db\<rparr>, Some err) | (db, Inr _) \<Rightarrow> (sm\<lparr>sm_db := db\<rparr>, None))"

definition sm_Reload :: "'tx bolt \<Rightarrow> (bytes \<Rightarrow> MetaSchema option) \<Rightarrow> regex \<Rightarrow> 'tx \<Rightarrow> 'tx SchemaManager \<Rightarrow>
    'tx SchemaManager \<times> schema_error option" where
  "sm_Reload B js rx db sm =
     (case sm_EnsureBucket B (sm\<lparr>sm_db := db, sm_schemas := Map.empty\<rparr>) of
        (sm1, Some err) \<Rightarrow> (sm1, Some err)
      | (sm1, None) \<Rightarrow> sm_LoadAll B js rx sm1)"

text \<open>One change of the bucket, logged by a single append whose error is ignored.\<close>

definition schema_append :: "clock \<Rightarrow> BinlogEntry \<Rightarrow> Binlog option \<Rightarrow> Binlog option" where
  "schema_append ck entry bl = map_option (\<lambda>b. fst (Append (ck_binlog ck) (ck_io ck) entry b)) bl"

definition sm_Set :: "'tx bolt \<Rightarrow> (bytes \<Rightarrow> MetaSchema option) \<Rightarrow> regex \<Rightarrow> clock \<Rightarrow> bytes \<Rightarrow> bytes \<Rightarrow> 'tx SchemaManager \<Rightarrow>
    'tx SchemaManager \<times> schema_error option" where
  "sm_Set B js rx ck collection schemaJSON sm =
     (case parseSchema js rx schemaJSON of Inl err \<Rightarrow> (sm, Some err)
      | Inr schema \<Rightarrow>
        (case DBUpdate B (SchemaStore CommitError)
            (\<lambda>tx. case bk_put B ''schemas'' (schema_key collection) schemaJSON tx of
                    None \<Rightarrow> Inl (SchemaStore PutError) | Some tx' \<Rightarrow> Inr (tx', ())) (sm_db sm) of
           (db, Inl err) \<Rightarrow> (sm\<lparr>sm_db := db\<rparr>, Some err)
         | (db, Inr _) \<Rightarrow>
             (sm\<lparr>sm_db := db, sm_binlog := schema_append ck (put_op ''schemas'' schemaJSON (schema_key collection)) (sm_binlog sm),
                 sm_schemas := (sm_schemas sm)(collection \<mapsto> schema)\<rparr>, None)))"

definition sm_Delete :: "'tx bolt \<Rightarrow> clock \<Rightarrow> bytes \<Rightarrow> 'tx SchemaManager \<Rightarrow> 'tx SchemaManager \<times> schema_error option" where
  "sm_Delete B ck collection sm =
     (case DBUpdate B (SchemaStore CommitError)
         (\<lambda>tx. case bk_delete B ''schemas'' (schema_key collection) tx of
                 None \<Rightarrow> Inl (SchemaStore DeleteError) | Some tx' \<Rightarrow> Inr (tx', ())) (sm_db sm) of
        (db, Inl err) \<Rightarrow> (sm\<lparr>sm_db := db\<rparr>, Some err)
      | (db, Inr _) \<Rightarrow>
          (sm\<lparr>sm_db := db, sm_binlog := schema_append ck (del_op ''schemas'' (schema_key collection)) (sm_binlog sm),
              sm_schemas := (sm_schemas sm)(collection := None)\<rparr>, None))"

definition sm_Get :: "bytes \<Rightarrow> 'tx SchemaManager \<Rightarrow> bytes \<times> bool" where
  "sm_Get collection sm = (case sm_schemas sm collection of None \<Rightarrow> ([], False) | Some s \<Rightarrow> (Raw s, True))"

definition sm_List :: "'tx SchemaManager \<Rightarrow> bytes \<rightharpoonup> bytes" where
  "sm_List sm = (\<lambda>collection. map_option Raw (sm_schemas sm collection))"

text \<open>\<^term>\<open>None\<close> is a panic; no error is the empty list.\<close>

definition sm_Validate :: "regex \<Rightarrow> bytes \<Rightarrow> meta \<Rightarrow> 'tx SchemaManager \<Rightarrow> invalid list option" where
  "sm_Validate rx collection m sm =
     (case sm_schemas sm collection of None \<Rightarrow> Some [] | Some schema \<Rightarrow> validateMeta rx schema m)"

subsection \<open>HTTP\<close>

datatype schema_reply = BadRequest | StatusOk bytes | SchemaInfo bytes bytes bool | ValidReply bool "invalid list"

definition handleSchemaSet :: "'tx bolt \<Rightarrow> (bytes \<Rightarrow> MetaSchema option) \<Rightarrow> regex \<Rightarrow> clock \<Rightarrow> bytes \<Rightarrow> bytes \<Rightarrow> 'tx SchemaManager \<Rightarrow>
    'tx SchemaManager \<times> schema_reply" where
  "handleSchemaSet B js rx ck collection schemaJSON sm =
     (if collection = [] \<or> schemaJSON = [] then (sm, BadRequest)
      else case sm_Set B js rx ck collection schemaJSON sm of
             (sm', Some err) \<Rightarrow> (sm', BadRequest) | (sm', None) \<Rightarrow> (sm', StatusOk collection))"

definition handleSchemaGet :: "bytes \<Rightarrow> 'tx SchemaManager \<Rightarrow> schema_reply" where
  "handleSchemaGet collection sm =
     (if collection = [] then BadRequest else case sm_Get collection sm of (raw, found) \<Rightarrow> SchemaInfo collection raw found)"

definition handleSchemaDelete :: "'tx bolt \<Rightarrow> clock \<Rightarrow> bytes \<Rightarrow> 'tx SchemaManager \<Rightarrow> 'tx SchemaManager \<times> schema_reply" where
  "handleSchemaDelete B ck collection sm =
     (if collection = [] then (sm, BadRequest)
      else case sm_Delete B ck collection sm of (sm', Some err) \<Rightarrow> (sm', BadRequest) | (sm', None) \<Rightarrow> (sm', StatusOk collection))"

definition handleValidate :: "regex \<Rightarrow> bytes \<Rightarrow> meta \<Rightarrow> 'tx SchemaManager \<Rightarrow> schema_reply option" where
  "handleValidate rx collection m sm =
     (if collection = [] then Some BadRequest
      else map_option (\<lambda>errs. ValidReply (errs = []) errs) (sm_Validate rx collection m sm))"

subsection \<open>What validation accepts\<close>

text \<open>The type of a metadata value, and the metadata that conforms to a schema.\<close>

inductive has_type :: "bytes \<Rightarrow> bytes \<Rightarrow> bool" where
  string: "has_type v ''string''"
| number: "ParseFloat_ok v \<Longrightarrow> has_type v ''number''"
| integer: "ParseInt10 v = Some n \<Longrightarrow> has_type v ''integer''"
| boolean: "v \<in> {''true'', ''false''} \<Longrightarrow> has_type v ''boolean''"

definition value_conforms :: "regex \<Rightarrow> PropertySchema \<Rightarrow> bytes \<Rightarrow> bool" where
  "value_conforms rx prop v \<longleftrightarrow>
     (ps_Type prop \<noteq> [] \<longrightarrow> has_type v (ps_Type prop)) \<and> (ps_Enum prop \<noteq> [] \<longrightarrow> v \<in> set (ps_Enum prop)) \<and>
     (ps_Pattern prop \<noteq> [] \<longrightarrow> (\<exists>re. rx (ps_Pattern prop) = Some re \<and> re v))"

definition property_conforms :: "regex \<Rightarrow> PropertySchema \<Rightarrow> bytes list \<Rightarrow> bool" where
  "property_conforms rx prop vals \<longleftrightarrow>
     ps_MinItems prop \<le> int (length vals) \<and> (ps_MaxItems prop \<noteq> 0 \<longrightarrow> int (length vals) \<le> ps_MaxItems prop) \<and>
     (\<forall>v \<in> set vals. value_conforms rx prop v)"

definition conforms :: "regex \<Rightarrow> MetaSchema \<Rightarrow> meta \<Rightarrow> bool" where
  "conforms rx schema m \<longleftrightarrow>
     (\<forall>key \<in> set (Required schema). \<exists>vals. map_of m key = Some vals \<and> vals \<noteq> []) \<and>
     (\<forall>(key, prop) \<in> set (Properties schema). \<forall>vals. map_of m key = Some vals \<longrightarrow> property_conforms rx prop vals)"

inductive_simps has_type_simps: "has_type v ''string''" "has_type v ''number''" "has_type v ''integer''" "has_type v ''boolean''"

lemma validateType_iff:
  "t \<in> {''string'', ''number'', ''integer'', ''boolean''} \<Longrightarrow> validateType key v t = None \<longleftrightarrow> has_type v t"
  by (elim insertE) (auto simp: validateType_def has_type_simps)

lemma validate_value_iff:
  assumes "check_property rx key' prop = None"
  shows "\<exists>errs. validate_value rx key prop v = Some errs \<and> (errs = [] \<longleftrightarrow> value_conforms rx prop v)"
proof -
  have t: "ps_Type prop \<noteq> [] \<Longrightarrow> validateType key v (ps_Type prop) = None \<longleftrightarrow> has_type v (ps_Type prop)"
    using assms by (intro validateType_iff) (auto simp: check_property_def split: if_splits)
  have "ps_Pattern prop \<noteq> [] \<Longrightarrow> \<exists>re. rx (ps_Pattern prop) = Some re" using assms by (auto simp: check_property_def split: if_splits)
  with t show ?thesis
    by (cases "ps_Pattern prop = []"; cases "rx (ps_Pattern prop)")
      (auto simp: validate_value_def value_conforms_def Let_def split: option.split)
qed

lemma validate_values_iff:
  assumes "check_property rx key' prop = None"
  shows "\<exists>errs. validate_values rx key prop vs = Some errs \<and> (errs = [] \<longleftrightarrow> (\<forall>v \<in> set vs. value_conforms rx prop v))"
proof (induction vs)
  case (Cons v vs)
  then show ?case using validate_value_iff [OF assms, of key v] by auto
qed simp

lemma validate_property_iff:
  assumes "check_property rx key' prop = None"
  shows "\<exists>errs. validate_property rx m key prop = Some errs \<and>
    (errs = [] \<longleftrightarrow> (\<forall>vals. map_of m key = Some vals \<longrightarrow> property_conforms rx prop vals))"
proof (cases "map_of m key")
  case (Some vals)
  have "ps_MinItems prop \<ge> 0" "ps_MaxItems prop \<ge> 0" using assms by (auto simp: check_property_def split: if_splits)
  with Some validate_values_iff [OF assms, of key vals] show ?thesis
    by (auto simp: validate_property_def property_conforms_def)
qed (simp add: validate_property_def)

lemma validate_properties_iff:
  "check_properties rx props = None \<Longrightarrow> \<exists>errs. validate_properties rx m props = Some errs \<and>
    (errs = [] \<longleftrightarrow> (\<forall>(key, prop) \<in> set props. \<forall>vals. map_of m key = Some vals \<longrightarrow> property_conforms rx prop vals))"
proof (induction props)
  case (Cons kp props)
  obtain key pr where kp: "kp = (key, pr)" by (cases kp)
  with Cons.prems have "check_property rx key pr = None" "check_properties rx props = None" by (auto split: option.splits)
  then obtain e1 e2 where "validate_property rx m key pr = Some e1" "e1 = [] \<longleftrightarrow> (\<forall>vals. map_of m key = Some vals \<longrightarrow> property_conforms rx pr vals)"
    "validate_properties rx m props = Some e2"
    "e2 = [] \<longleftrightarrow> (\<forall>(key, prop) \<in> set props. \<forall>vals. map_of m key = Some vals \<longrightarrow> property_conforms rx prop vals)"
    using Cons.IH validate_property_iff [of rx key pr m key] by blast
  then show ?case by (simp add: kp)
qed simp

text \<open>A schema the parser accepted.\<close>

definition well_formed :: "regex \<Rightarrow> MetaSchema \<Rightarrow> bool" where
  "well_formed rx schema \<longleftrightarrow> check_properties rx (Properties schema) = None"

lemma parseSchema_well_formed: "parseSchema js rx raw = Inr schema \<Longrightarrow> well_formed rx schema \<and> Raw schema = raw"
  by (auto simp: parseSchema_def well_formed_def Let_def split: option.splits)

lemma validateMeta_iff:
  assumes "well_formed rx schema"
  shows "\<exists>errs. validateMeta rx schema m = Some errs \<and> (errs = [] \<longleftrightarrow> conforms rx schema m)"
proof -
  obtain errs where e: "validate_properties rx m (Properties schema) = Some errs"
    "errs = [] \<longleftrightarrow> (\<forall>(key, prop) \<in> set (Properties schema). \<forall>vals. map_of m key = Some vals \<longrightarrow> property_conforms rx prop vals)"
    using validate_properties_iff assms unfolding well_formed_def by blast
  have "map MissingRequired (filter (\<lambda>key. case map_of m key of None \<Rightarrow> True | Some vals \<Rightarrow> vals = []) (Required schema)) = [] \<longleftrightarrow>
      (\<forall>key \<in> set (Required schema). \<exists>vals. map_of m key = Some vals \<and> vals \<noteq> [])"
    by (auto simp: filter_empty_conv split: option.splits)
  with e show ?thesis by (simp add: validateMeta_def conforms_def)
qed

subsection \<open>Properties of validation\<close>

definition manager_ok :: "regex \<Rightarrow> 'tx SchemaManager \<Rightarrow> bool" where
  "manager_ok rx sm \<longleftrightarrow> (\<forall>coll sch. sm_schemas sm coll = Some sch \<longrightarrow> well_formed rx sch)"

text \<open>The check a server makes before it writes.\<close>

definition validator :: "regex \<Rightarrow> 'tx SchemaManager \<Rightarrow> bytes \<Rightarrow> meta \<Rightarrow> bool" where
  "validator rx sm coll m \<longleftrightarrow> sm_Validate rx coll m sm = Some []"

lemma validator_conforms: "manager_ok rx sm \<Longrightarrow> sm_schemas sm coll = Some sch \<Longrightarrow> validator rx sm coll m \<longleftrightarrow> conforms rx sch m"
  using validateMeta_iff [of rx sch m] by (auto simp: validator_def sm_Validate_def manager_ok_def)

definition typed_store :: "regex \<Rightarrow> MetaSchema \<Rightarrow> (bytes \<Rightarrow> (codec_error, Doc) outcome) \<Rightarrow> bytes \<Rightarrow> contents \<Rightarrow> bool" where
  "typed_store rx sch load coll c \<longleftrightarrow> (\<forall>i d. doc_at load c coll i d \<longrightarrow> conforms rx sch (Meta d))"

lemma typed_store_put:
  assumes "typed_store rx sch load coll c" and "\<And>k. c' ''docs'' k = (if k = k0 then Some buf else c ''docs'' k)"
    and "load buf = Ok d" and "conforms rx sch (Meta d)"
  shows "typed_store rx sch load coll c'"
  using assms by (auto simp: typed_store_def doc_at_def split: if_splits)

lemma typed_store_remove:
  assumes "typed_store rx sch load coll c" and "\<And>k. c' ''docs'' k = (if k = k0 then None else c ''docs'' k)"
  shows "typed_store rx sch load coll c'"
  using assms by (auto simp: typed_store_def doc_at_def split: if_splits)

lemma update_of_docs:
  assumes B: "bolt_laws (e_bolt E) cont" and codec: "doc_codec (e_marshal E) (e_load E) (e_unmarshal E)"
    and u: "update_of http E now coll key lang p tx = Inr (tx', (saved, bo))"
  shows "\<exists>existing buf. read_stored E coll key lang tx = Inr existing \<and> saved = patched now p existing \<and> e_load E buf = Ok saved \<and>
    (\<forall>k. cont tx' ''docs'' k = (if k = DocKey coll (ID saved) then Some buf else cont tx ''docs'' k))"
proof (cases http)
  case True
  then have "http_update_txn E now coll key lang p tx = Inr (tx', (saved, bo))" using u by (simp add: update_of_def)
  then obtain existing buf where R: "read_stored E coll key lang tx = Inr existing" "saved = patched now p existing"
    "e_marshal E saved coll = Ok buf"
    "bo = upd_ops (metaDidChange p existing) coll existing saved buf (rev_ops (e_maxRevisions E coll) now coll (ID saved) buf (cont tx))"
    "cont tx' = replay bo (cont tx)"
    using http_update_runs [OF B] by metis
  show ?thesis
    using R(1,2) doc_codec.load_marshal [OF codec R(3)] unfolding R(5,4) by (simp add: http_update_contents(1))
next
  case False
  then have "grpc_update_txn E now coll key lang p tx = Inr (tx', (saved, bo))" using u by (simp add: update_of_def)
  then obtain existing buf where R: "read_stored E coll key lang tx = Inr existing" "saved = patched now p existing"
    "e_marshal E saved coll = Ok buf"
    "bo = upd_ops (metaDidChange p existing) coll existing saved buf [put_op ''rev'' buf (RevPrefix coll (ID saved) @ fmt_020d now)]"
    "cont tx' = replay bo (cont tx)"
    using grpc_update_runs [OF B] by metis
  show ?thesis
    using R(1,2) doc_codec.load_marshal [OF codec R(3)] unfolding R(5,4) by (simp add: grpc_update_contents(1))
qed

lemma read_stored_doc_at:
  assumes B: "bolt_laws (e_bolt E) cont" and r: "read_stored E coll key lang tx = Inr existing" and "nosep coll"
  shows "\<exists>i. doc_at (e_load E) (cont tx) coll i existing"
  using r assms(3) unfolding read_stored_def lookup_doc_contents [OF B] by (auto simp: doc_at_def split: option.splits outcome.splits)

lemma logged_update_typed:
  assumes B: "bolt_laws (e_bolt E) cont" and codec: "doc_codec (e_marshal E) (e_load E) (e_unmarshal E)" and coll: "nosep coll"
    and t: "typed_store rx sch (e_load E) coll (cont (sv_db s))" and p: "\<forall>m. p_meta p = Some m \<longrightarrow> conforms rx sch m"
    and u: "logged_update (e_bolt E) ck (update_of http E (ck_now ck) coll key lang p) hooks s = (s', r)"
  shows "typed_store rx sch (e_load E) coll (cont (sv_db s'))"
proof (cases rule: logged_update_cases [OF B u])
  case (1 err)
  with t show ?thesis by simp
next
  case (2 saved bo tx')
  obtain existing buf where d: "read_stored E coll key lang (sv_db s) = Inr existing" "saved = patched (ck_now ck) p existing"
    "e_load E buf = Ok saved" "\<And>k. cont tx' ''docs'' k = (if k = DocKey coll (ID saved) then Some buf else cont (sv_db s) ''docs'' k)"
    using update_of_docs [OF B codec 2(2)] by blast
  have "conforms rx sch (Meta existing)" using t read_stored_doc_at [OF B d(1) coll] by (auto simp: typed_store_def)
  then have "conforms rx sch (Meta saved)" using p by (simp add: d(2) patched_def Let_def split: option.splits)
  then have "typed_store rx sch (e_load E) coll (cont tx')"
    using typed_store_put [where ?k0.0 = "DocKey coll (ID saved)" and buf = buf, OF t _ d(3)] d(4) by blast
  with 2(3) show ?thesis by simp
qed


text \<open>An update over MCP is not checked: it stores metadata that the schema in force refuses.\<close>

theorem mcp_update_bypasses_schema:
  assumes B: "bolt_laws (e_bolt E) cont" and codec: "doc_codec (e_marshal E) (e_load E) (e_unmarshal E)"
    and sm: "manager_ok rx sm" "sm_schemas sm coll = Some sch" and v: "e_validate E = validator rx sm" and coll: "nosep coll"
    and "p_meta p = Some m" and "\<not> conforms rx sch m" and u: "mcp_UpdateDocument E ck coll key lang p s = (s', Inr saved)"
  shows "\<not> e_validate E coll (Meta saved) \<and> \<not> typed_store rx sch (e_load E) coll (cont (sv_db s')) \<and>
    handleUpdate E ck coll key lang p s = (s, Inl UpdateSchema) \<and> grpc_UpdateDocument E ck coll key lang p s = (s, Inl UpdateSchema)"
proof -
  obtain existing buf where d: "saved = patched (ck_now ck) p existing" "e_load E buf = Ok saved"
    "cont (sv_db s') = c_put ''docs'' (DocKey coll (ID saved)) buf (cont (sv_db s))" "coll \<noteq> []" "key \<noteq> []" "lang \<noteq> []"
    using mcp_update_done [OF B codec u] by metis
  have m: "Meta saved = m" using assms(7) by (simp add: d(1) patched_def Let_def split: option.splits)
  have "doc_at (e_load E) (cont (sv_db s')) coll (ID saved) saved" using coll d(2) by (simp add: doc_at_def d(3) store_simps)
  then have "\<not> typed_store rx sch (e_load E) coll (cont (sv_db s'))" using assms(8) m by (auto simp: typed_store_def)
  moreover have "\<not> no_fields p" "schema_rejects E coll p"
    using assms(7,8) validator_conforms [OF sm] by (simp_all add: no_fields_def schema_rejects_def v)
  ultimately show ?thesis using assms(8) validator_conforms [OF sm] d(4-6) by (simp add: m v handleUpdate_def grpc_UpdateDocument_def)
qed

subsection \<open>Memory and bucket\<close>

definition stored_schema :: "(bytes \<Rightarrow> MetaSchema option) \<Rightarrow> regex \<Rightarrow> bytes option \<Rightarrow> MetaSchema option" where
  "stored_schema js rx raw = (case raw of None \<Rightarrow> None | Some v \<Rightarrow> (case parseSchema js rx v of Inl _ \<Rightarrow> None | Inr sch \<Rightarrow> Some sch))"

definition bucket_ok :: "(bytes \<Rightarrow> MetaSchema option) \<Rightarrow> regex \<Rightarrow> contents \<Rightarrow> bool" where
  "bucket_ok js rx c \<longleftrightarrow> (\<forall>k v. c ''schemas'' k = Some v \<longrightarrow> (\<exists>coll. k = schema_key coll) \<and> (\<exists>sch. parseSchema js rx v = Inr sch))"

definition mirrors :: "(bytes \<Rightarrow> MetaSchema option) \<Rightarrow> regex \<Rightarrow> ('tx \<Rightarrow> contents) \<Rightarrow> 'tx SchemaManager \<Rightarrow> bool" where
  "mirrors js rx cont sm \<longleftrightarrow> bucket_ok js rx (cont (sm_db sm)) \<and>
     (\<forall>coll. sm_schemas sm coll = stored_schema js rx (cont (sm_db sm) ''schemas'' (schema_key coll)))"

lemma schema_key_simps [simp]: "schema_key a = schema_key b \<longleftrightarrow> a = b" "trim_schema (schema_key a) = a"
  by (simp_all add: schema_key_def trim_schema_def)

lemma load_schemas_map:
  assumes "distinct (map fst kvs)" and "\<forall>(k, v) \<in> set kvs. (\<exists>coll. k = schema_key coll) \<and> (\<exists>sch. parseSchema js rx v = Inr sch)"
  shows "load_schemas js rx kvs m =
    (\<lambda>coll. case map_of kvs (schema_key coll) of None \<Rightarrow> m coll | Some v \<Rightarrow> stored_schema js rx (Some v), None)"
  using assms
proof (induction kvs arbitrary: m)
  case (Cons kv kvs)
  obtain coll v sch where kv: "kv = (schema_key coll, v)" "parseSchema js rx v = Inr sch" using Cons.prems(2) by auto
  have "schema_key coll \<notin> fst ` set kvs" using Cons.prems(1) kv by simp
  then have "map_of kvs (schema_key coll) = None" by (simp add: map_of_eq_None_iff)
  moreover have "load_schemas js rx kvs (m(coll \<mapsto> sch)) =
      (\<lambda>x. case map_of kvs (schema_key x) of None \<Rightarrow> (m(coll \<mapsto> sch)) x | Some v \<Rightarrow> stored_schema js rx (Some v), None)"
    by (rule Cons.IH) (use Cons.prems in auto)
  ultimately show ?case by (auto simp: kv stored_schema_def fun_eq_iff split: option.split)
qed simp

lemma sm_LoadAll_schemas:
  assumes B: "bolt_laws B cont" and "bucket_ok js rx (cont (sm_db sm))"
  shows "sm_LoadAll B js rx sm = (sm\<lparr>sm_schemas := \<lambda>coll. case cont (sm_db sm) ''schemas'' (schema_key coll) of
    None \<Rightarrow> sm_schemas sm coll | Some v \<Rightarrow> stored_schema js rx (Some v)\<rparr>, None)"
proof -
  let ?kvs = "bk_scan B ''schemas'' [] (sm_db sm)"
  have s: "set ?kvs = {(k, v). cont (sm_db sm) ''schemas'' k = Some v}" using bolt_laws.scan_set [OF B] by simp
  note d = bolt_laws.scan_distinct [OF B, of "''schemas''" "[]" "sm_db sm"]
  have "map_of ?kvs k = cont (sm_db sm) ''schemas'' k" for k
  proof (cases "cont (sm_db sm) ''schemas'' k")
    case None
    then have "k \<notin> fst ` set ?kvs" by (auto simp: s)
    with None show ?thesis by (simp add: map_of_eq_None_iff)
  next
    case (Some v)
    then have "(k, v) \<in> set ?kvs" by (simp add: s)
    with d Some show ?thesis by simp
  qed
  moreover have "\<forall>(k, v) \<in> set ?kvs. (\<exists>coll. k = schema_key coll) \<and> (\<exists>sch. parseSchema js rx v = Inr sch)"
    using assms(2) by (auto simp: s bucket_ok_def)
  ultimately show ?thesis unfolding sm_LoadAll_def by (simp add: load_schemas_map [OF d])
qed

lemma sm_Set_cases:
  assumes B: "bolt_laws B cont"
  obtains err where "sm_Set B js rx ck coll raw sm = (sm, Some err)"
  | sch sm' where "sm_Set B js rx ck coll raw sm = (sm', None)" "parseSchema js rx raw = Inr sch"
      "cont (sm_db sm') = c_put ''schemas'' (schema_key coll) raw (cont (sm_db sm))" "sm_schemas sm' = (sm_schemas sm)(coll \<mapsto> sch)"
proof (cases "parseSchema js rx raw")
  case (Inl err)
  then have "sm_Set B js rx ck coll raw sm = (sm, Some err)" by (simp add: sm_Set_def)
  then show ?thesis using that(1) by blast
next
  case (Inr sch)
  show ?thesis
  proof (cases "sm_Set B js rx ck coll raw sm")
    case (Pair sm' r)
    show ?thesis
    proof (cases r)
      case None
      with Pair Inr B show ?thesis
        using bolt_laws.put_law [OF B] bolt_laws.commit_law [OF B]
        by (intro that(2) [of sm' sch]) (auto simp: sm_Set_def DBUpdate_def split: option.splits)
    next
      case (Some err)
      with Pair Inr show ?thesis by (intro that(1) [of err]) (auto simp: sm_Set_def DBUpdate_def split: option.splits)
    qed
  qed
qed

lemma sm_Delete_cases:
  assumes B: "bolt_laws B cont"
  obtains err where "sm_Delete B ck coll sm = (sm, Some err)"
  | sm' where "sm_Delete B ck coll sm = (sm', None)"
      "cont (sm_db sm') = c_delete ''schemas'' (schema_key coll) (cont (sm_db sm))" "sm_schemas sm' = (sm_schemas sm)(coll := None)"
proof (cases "sm_Delete B ck coll sm")
  case (Pair sm' r)
  show ?thesis
  proof (cases r)
    case None
    with Pair B show ?thesis
      using bolt_laws.delete_law [OF B] bolt_laws.commit_law [OF B]
      by (intro that(2) [of sm']) (auto simp: sm_Delete_def DBUpdate_def split: option.splits)
  next
    case (Some err)
    with Pair show ?thesis by (intro that(1) [of err]) (auto simp: sm_Delete_def DBUpdate_def split: option.splits)
  qed
qed

lemma mirrors_Set:
  assumes B: "bolt_laws B cont" and "mirrors js rx cont sm"
  shows "mirrors js rx cont (fst (sm_Set B js rx ck coll raw sm))"
  by (rule sm_Set_cases [OF B, of js rx ck coll raw sm])
    (use assms(2) in \<open>auto simp: mirrors_def bucket_ok_def c_put_def stored_schema_def\<close>)

lemma mirrors_Delete:
  assumes B: "bolt_laws B cont" and "mirrors js rx cont sm"
  shows "mirrors js rx cont (fst (sm_Delete B ck coll sm))"
  by (rule sm_Delete_cases [OF B, of ck coll sm])
    (use assms(2) in \<open>auto simp: mirrors_def bucket_ok_def c_delete_def stored_schema_def\<close>)

lemma sm_EnsureBucket_None:
  assumes B: "bolt_laws B cont" and "sm_EnsureBucket B sm = (sm', None)"
  shows "cont (sm_db sm') = cont (sm_db sm) \<and> sm_schemas sm' = sm_schemas sm"
  using assms(2) bolt_laws.create_law [OF B] bolt_laws.commit_law [OF B]
  by (auto simp: sm_EnsureBucket_def DBUpdate_def split: option.splits)

text \<open>C40: The schemas in memory are those of the bucket: setting and deleting keep this, a schema
  that was set is the one returned, a deleted one is gone, and a manager that reloads the bucket,
  whatever it held before, has exactly the schemas of the manager that wrote it.\<close>

theorem schema_memory_mirrors:
  assumes B: "bolt_laws B cont" and m: "mirrors js rx cont sm"
  shows "mirrors js rx cont (fst (sm_Set B js rx ck coll raw sm)) \<and> mirrors js rx cont (fst (sm_Delete B ck coll sm)) \<and>
    (\<forall>sm'. sm_Set B js rx ck coll raw sm = (sm', None) \<longrightarrow> sm_Get coll sm' = (raw, True)) \<and>
    (\<forall>sm'. sm_Delete B ck coll sm = (sm', None) \<longrightarrow> sm_Get coll sm' = ([], False) \<and> sm_Validate rx coll md sm' = Some []) \<and>
    (\<forall>old new err. sm_Reload B js rx (sm_db sm) old = (new, err) \<and> (\<forall>e. err \<noteq> Some (SchemaStore e)) \<longrightarrow>
       err = None \<and> mirrors js rx cont new \<and> sm_schemas new = sm_schemas sm)"
proof (intro conjI allI impI)
  show "sm_Get coll sm' = (raw, True)" if "sm_Set B js rx ck coll raw sm = (sm', None)" for sm'
    by (rule sm_Set_cases [OF B, of js rx ck coll raw sm]) (use that parseSchema_well_formed in \<open>fastforce simp: sm_Get_def\<close>)+
  show "sm_Get coll sm' = ([], False)" "sm_Validate rx coll md sm' = Some []" if "sm_Delete B ck coll sm = (sm', None)" for sm'
    by (rule sm_Delete_cases [OF B, of ck coll sm]; use that in \<open>auto simp: sm_Get_def sm_Validate_def\<close>)+
  fix old new err assume r: "sm_Reload B js rx (sm_db sm) old = (new, err) \<and> (\<forall>e. err \<noteq> Some (SchemaStore e))"
  obtain sm1 r1 where e: "sm_EnsureBucket B (old\<lparr>sm_db := sm_db sm, sm_schemas := Map.empty\<rparr>) = (sm1, r1)" by fastforce
  have "r1 = None" using r e by (auto simp: sm_Reload_def sm_EnsureBucket_def DBUpdate_def split: option.splits)
  with e sm_EnsureBucket_None [OF B] have s1: "cont (sm_db sm1) = cont (sm_db sm)" "sm_schemas sm1 = Map.empty" by force+
  have b: "bucket_ok js rx (cont (sm_db sm1))" using m by (simp add: mirrors_def s1)
  have "(new, err) = sm_LoadAll B js rx sm1" using r e \<open>r1 = None\<close> by (simp add: sm_Reload_def)
  then have n: "err = None" "sm_db new = sm_db sm1" "sm_schemas new = sm_schemas sm"
    using m by (auto simp: sm_LoadAll_schemas [OF B b] s1 mirrors_def stored_schema_def fun_eq_iff split: option.splits)
  show "err = None" "sm_schemas new = sm_schemas sm" by (fact n)+
  show "mirrors js rx cont new" using m by (simp add: mirrors_def n s1)
qed (use mirrors_Set [OF B m] mirrors_Delete [OF B m] in simp_all)

text \<open>Deleting a schema does not reach a follower's validation: the replicated delete brings
  the bucket up to date and the schemas are loaded again, but loading only adds, so the follower
  keeps checking against the schema the leader no longer has.\<close>

theorem deleted_schema_stays_on_follower:
  assumes B: "bolt_laws (e_bolt E) cont" and "mg_schemas M" and m: "mirrors js rx cont sm"
    and del: "sm_Delete (e_bolt E) ck coll sm = (sm', None)"
    and same: "cont (sv_db (fo_server fo)) = cont (sm_db sm)" and sf: "sm_schemas sf = sm_schemas sm" "sm_schemas sm coll = Some sch"
    and ap: "apply_entry E M (del_op ''schemas'' (schema_key coll)) fo = Ok fo'"
    and load: "sm_LoadAll (e_bolt E) js rx (sf\<lparr>sm_db := sv_db (fo_server fo')\<rparr>) = (sf', err)"
  shows "fo_effects fo' = fo_effects fo @ [ReloadSchemas] \<and> cont (sm_db sf') = cont (sm_db sm') \<and> err = None \<and>
    sm_Validate rx coll md sm' = Some [] \<and> sm_Validate rx coll md sf' = validateMeta rx sch md"
proof -
  have m': "mirrors js rx cont sm'" using mirrors_Delete [OF B m] del by (metis fst_conv)
  have c: "cont (sm_db sm') = c_delete ''schemas'' (schema_key coll) (cont (sm_db sm))" "sm_schemas sm' = (sm_schemas sm)(coll := None)"
    by (rule sm_Delete_cases [OF B, of ck coll sm]; use del in simp)+
  have "cont (sv_db (fo_server fo')) = c_delete ''schemas'' (schema_key coll) (cont (sv_db (fo_server fo)))"
    "fo_effects fo' = fo_effects fo @ [ReloadSchemas]"
    using ap assms(2) bolt_laws.delete_law [OF B] bolt_laws.commit_law [OF B] bolt_laws.create_law [OF B]
    by (auto simp: apply_entry_def apply_txn_def DBUpdate_def del_op_def zero_entry_def updateInMemoryState_def add_effects_def
        split: option.splits)
  then have f: "cont (sv_db (fo_server fo')) = cont (sm_db sm')" "fo_effects fo' = fo_effects fo @ [ReloadSchemas]" by (simp_all add: same c)
  then have b: "bucket_ok js rx (cont (sm_db (sf\<lparr>sm_db := sv_db (fo_server fo')\<rparr>)))" using m' by (simp add: mirrors_def)
  have "cont (sm_db sm') ''schemas'' (schema_key coll) = None" by (simp add: c c_delete_def)
  then have "sm_schemas sf' coll = Some sch" "sm_db sf' = sv_db (fo_server fo')" "err = None"
    using load sf by (auto simp: sm_LoadAll_schemas [OF B b] f)
  then show ?thesis by (simp add: f sm_Validate_def c)
qed

subsection \<open>Witnesses\<close>

definition ref_schema :: "bytes list \<Rightarrow> MetaSchema" where
  "ref_schema req = \<lparr>Raw = ''S'', Required = req,
     Properties = [(''t'', \<lparr>ps_Type = ''string'', ps_Enum = [''x''], ps_Pattern = [], ps_MinItems = 1, ps_MaxItems = 0\<rparr>)]\<rparr>"

definition no_rx :: regex where "no_rx = (\<lambda>_. None)"

definition ref_js :: "bytes \<Rightarrow> MetaSchema option" where "ref_js = (\<lambda>raw. if raw = ''S'' then Some (ref_schema []) else None)"

definition ref_sm :: "bytes list \<Rightarrow> mem_db \<Rightarrow> mem_db SchemaManager" where
  "ref_sm req db = \<lparr>sm_db = db, sm_schemas = [''c'' \<mapsto> ref_schema req], sm_binlog = None\<rparr>"

definition schema_db :: mem_db where "schema_db = [(''schemas'', [(schema_key ''c'', ''S'')])]"

definition schema_env :: "bytes list \<Rightarrow> (mem_db, unit) env" where
  "schema_env req = upd_env\<lparr>e_validate := validator no_rx (ref_sm req upd_db)\<rparr>"

lemma schema_env_simps [simp]: "e_bolt (schema_env req) = e_bolt upd_env" "e_marshal (schema_env req) = e_marshal upd_env"
  "e_load (schema_env req) = e_load upd_env" "e_unmarshal (schema_env req) = e_unmarshal upd_env"
  "e_validate (schema_env req) = validator no_rx (ref_sm req upd_db)"
  by (simp_all add: schema_env_def)

lemma ref_sm_simps [simp]: "sm_schemas (ref_sm req db) = [''c'' \<mapsto> ref_schema req]" "sm_db (ref_sm req db) = db"
  "manager_ok no_rx (ref_sm req db)"
  by (simp_all add: ref_sm_def manager_ok_def well_formed_def ref_schema_def check_property_def)

lemma ref_conforms: "conforms no_rx (ref_schema req) m \<longleftrightarrow> (\<forall>k \<in> set req. \<exists>vs. map_of m k = Some vs \<and> vs \<noteq> []) \<and>
    (\<forall>vs. map_of m ''t'' = Some vs \<longrightarrow> vs \<noteq> [] \<and> set vs \<subseteq> {''x''})"
  by (auto simp: conforms_def ref_schema_def property_conforms_def value_conforms_def has_type_simps Suc_le_eq)

lemma ref_typed: "req \<in> {[], [''t'']} \<Longrightarrow> typed_store no_rx (ref_schema req) (e_load upd_env) ''c'' (mem_contents upd_db)"
  by (auto simp: typed_store_def upd_db_doc ref_conforms old_doc_def ref_doc_def empty_doc_def)


lemma mcp_update_bypasses_schema_witness:
  "\<exists>s'. mcp_UpdateDocument (schema_env [''t'']) (ref_clock 9) ''c'' ''k'' ''en'' upd_patch (upd_server None) = (s', Inr new_doc') \<and>
    \<not> typed_store no_rx (ref_schema [''t'']) (e_load upd_env) ''c'' (mem_contents (sv_db s'))"
proof -
  have "snd (mcp_UpdateDocument (schema_env [''t'']) (ref_clock 9) ''c'' ''k'' ''en'' upd_patch (upd_server None)) = Inr new_doc'"
    by (simp add: mcp_UpdateDocument_def mcp_update_txn_def schema_env_def upd_eval)
  then obtain s' where s': "mcp_UpdateDocument (schema_env [''t'']) (ref_clock 9) ''c'' ''k'' ''en'' upd_patch (upd_server None) = (s', Inr new_doc')"
    by (metis prod.collapse)
  have "\<not> conforms no_rx (ref_schema [''t'']) []" by (simp add: ref_conforms)
  with mcp_update_bypasses_schema [OF _ _ _ _ _ _ _ _ s', of mem_contents no_rx "ref_sm [''t''] upd_db" "ref_schema [''t'']" "[]"]
    upd_laws upd_env.doc_codec_axioms s'
  show ?thesis by (auto simp: upd_patch_def)
qed

lemma schema_db_mirrors: "mirrors ref_js no_rx mem_contents (ref_sm [] schema_db)"
  by (auto simp: mirrors_def bucket_ok_def schema_db_def mem_contents_def mem_bucket_def stored_schema_def parseSchema_def ref_js_def
      ref_schema_def check_property_def fun_eq_iff)

lemma schema_memory_mirrors_witness:
  "mirrors ref_js no_rx mem_contents (fst (sm_Set mem_bolt ref_js no_rx (ref_clock 9) ''d'' ''S'' (ref_sm [] schema_db))) \<and>
    sm_Get ''d'' (fst (sm_Set mem_bolt ref_js no_rx (ref_clock 9) ''d'' ''S'' (ref_sm [] schema_db))) = (''S'', True)"
proof -
  have "snd (sm_Set mem_bolt ref_js no_rx (ref_clock 9) ''d'' ''S'' (ref_sm [] schema_db)) = None"
    by (simp add: sm_Set_def DBUpdate_def mem_bolt_def parseSchema_def ref_js_def ref_schema_def check_property_def schema_key_def)
  then obtain sm' where sm': "sm_Set mem_bolt ref_js no_rx (ref_clock 9) ''d'' ''S'' (ref_sm [] schema_db) = (sm', None)" by (metis prod.collapse)
  with schema_memory_mirrors [OF mem.bolt_laws_axioms schema_db_mirrors, of "ref_clock 9" "''d''" "''S''" "[]"] show ?thesis by simp
qed

lemma deleted_schema_stays_on_follower_witness:
  "\<exists>sm' (sf' :: mem_db SchemaManager). sm_Delete mem_bolt (ref_clock 9) ''c'' (ref_sm [] schema_db) = (sm', None) \<and>
    sm_Validate no_rx ''c'' [(''t'', [''y''])] sm' = Some [] \<and>
    sm_Validate no_rx ''c'' [(''t'', [''y''])] sf' = Some [NotAllowed ''t'' ''y'']"
proof -
  let ?e = "del_op ''schemas'' (schema_key ''c'')"
  obtain sm' where sm': "sm_Delete mem_bolt (ref_clock 9) ''c'' (ref_sm [] schema_db) = (sm', None)"
    using bolt_laws.delete_ok [OF mem.bolt_laws_axioms]
    by (auto simp: sm_Delete_def DBUpdate_def mem_bolt_def schema_key_def split: option.splits)
  obtain fo' where fo': "apply_entry (ref_env None) demo_managers ?e (demo_follower 4 schema_db) = Ok fo'"
    by (simp add: apply_entry_def apply_txn_def DBUpdate_def del_op_def zero_entry_def updateInMemoryState_def ref_env_def mem_bolt_def
        schema_key_def split: option.splits)
  obtain sf' err where sf': "sm_LoadAll mem_bolt ref_js no_rx (ref_sm [] schema_db\<lparr>sm_db := sv_db (fo_server fo')\<rparr>) = (sf', err)" by fastforce
  have v: "validateMeta no_rx (ref_schema []) [(''t'', [''y''])] = Some [NotAllowed ''t'' ''y'']"
    by (simp add: validateMeta_def ref_schema_def validate_property_def validate_value_def validateType_def)
  have "sm_Validate no_rx ''c'' [(''t'', [''y''])] sm' = Some [] \<and>
      sm_Validate no_rx ''c'' [(''t'', [''y''])] sf' = validateMeta no_rx (ref_schema []) [(''t'', [''y''])]"
    using deleted_schema_stays_on_follower [OF ref_laws [of None] _ schema_db_mirrors, where M = demo_managers and ck = "ref_clock 9"
        and coll = "''c''" and sm' = sm' and fo = "demo_follower 4 schema_db" and sf = "ref_sm [] schema_db" and sch = "ref_schema []"
        and fo' = fo' and sf' = sf' and err = err and md = "[(''t'', [''y''])]"] sm' fo' sf'
    by (simp add: demo_managers_def ref_env_def)
  with sm' v show ?thesis by (intro exI [of _ sm'] exI [of _ sf']) simp
qed

end
