(* ===== verification/Sha256.thy ===== *)
theory Sha256
  imports Mddb_Prelude
begin

section \<open>SHA-256 and hexadecimal text\<close>

text \<open>
  \<^verbatim>\<open>crypto/sha256.Sum256\<close> and \<^verbatim>\<open>encoding/hex.EncodeToString\<close>, of which the
  server makes the names under which it stores API keys and the fingerprints of embedded texts.
\<close>

unbundle bit_operations_syntax

definition sha_K :: "u32 list" where
  "sha_K =
     [1116352408, 1899447441, 3049323471, 3921009573, 961987163, 1508970993, 2453635748, 2870763221,
      3624381080, 310598401, 607225278, 1426881987, 1925078388, 2162078206, 2614888103, 3248222580,
      3835390401, 4022224774, 264347078, 604807628, 770255983, 1249150122, 1555081692, 1996064986,
      2554220882, 2821834349, 2952996808, 3210313671, 3336571891, 3584528711, 113926993, 338241895,
      666307205, 773529912, 1294757372, 1396182291, 1695183700, 1986661051, 2177026350, 2456956037,
      2730485921, 2820302411, 3259730800, 3345764771, 3516065817, 3600352804, 4094571909, 275423344,
      430227734, 506948616, 659060556, 883997877, 958139571, 1322822218, 1537002063, 1747873779,
      1955562222, 2024104815, 2227730452, 2361852424, 2428436474, 2756734187, 3204031479, 3329325298]"

type_synonym sha_state = "u32 \<times> u32 \<times> u32 \<times> u32 \<times> u32 \<times> u32 \<times> u32 \<times> u32"

definition sha_init :: sha_state where
  "sha_init = (1779033703, 3144134277, 1013904242, 2773480762, 1359893119, 2600822924, 528734635, 1541459225)"

text \<open>The message, a one bit, zeros up to 8 bytes before the end of a block, and its length in bits.\<close>

definition sha_pad :: "bytes \<Rightarrow> bytes" where
  "sha_pad m = m @ CHR 0x80 # replicate ((119 - length m mod 64) mod 64) (CHR 0x00) @ be64 (word_of_nat (8 * length m))"

lemma sha_pad_blocks: "length (sha_pad m) mod 64 = 0"
proof -
  let ?r = "length m mod 64"
  have r: "?r < 64" by simp
  have "(?r + 9 + (119 - ?r) mod 64) mod 64 = 0"
  proof (cases "?r \<le> 55")
    case True
    then have e: "119 - ?r = 64 + (55 - ?r)" by simp
    have "(119 - ?r) mod 64 = 55 - ?r" unfolding e mod_add_self1 by simp
    then show ?thesis using True by simp
  next
    case False
    then have "(119 - ?r) mod 64 = 119 - ?r" using r by simp
    then show ?thesis using False r by simp
  qed
  then have "(length m + 9 + (119 - ?r) mod 64) mod 64 = 0" by (metis add.assoc mod_add_left_eq)
  then show ?thesis by (simp add: sha_pad_def add.assoc add.commute [of 9] add.left_commute)
qed

fun sha_words :: "nat \<Rightarrow> bytes \<Rightarrow> u32 list" where
  "sha_words 0 b = []"
| "sha_words (Suc n) b = get_be32 (take 4 b) # sha_words n (drop 4 b)"

fun sha_extend :: "nat \<Rightarrow> u32 list \<Rightarrow> u32 list" where
  "sha_extend 0 w = w"
| "sha_extend (Suc n) w =
     (let i = length w; v1 = w ! (i - 2); v2 = w ! (i - 15);
          t1 = word_rotr 17 v1 XOR word_rotr 19 v1 XOR drop_bit 10 v1;
          t2 = word_rotr 7 v2 XOR word_rotr 18 v2 XOR drop_bit 3 v2
      in sha_extend n (w @ [t1 + w ! (i - 7) + t2 + w ! (i - 16)]))"

definition sha_round :: "sha_state \<Rightarrow> u32 \<times> u32 \<Rightarrow> sha_state" where
  "sha_round = (\<lambda>(a, b, c, d, e, f, g, h) (k, w).
     (let t1 = h + (word_rotr 6 e XOR word_rotr 11 e XOR word_rotr 25 e) + ((e AND f) XOR (NOT e AND g)) + k + w;
          t2 = (word_rotr 2 a XOR word_rotr 13 a XOR word_rotr 22 a) + ((a AND b) XOR (a AND c) XOR (b AND c))
      in (t1 + t2, a, b, c, d + t1, e, f, g)))"

definition sha_block :: "sha_state \<Rightarrow> bytes \<Rightarrow> sha_state" where
  "sha_block = (\<lambda>(a, b, c, d, e, f, g, h) blk.
     (case foldl sha_round (a, b, c, d, e, f, g, h) (zip sha_K (sha_extend 48 (sha_words 16 blk))) of
        (a', b', c', d', e', f', g', h') \<Rightarrow> (a + a', b + b', c + c', d + d', e + e', f + f', g + g', h + h')))"

fun sha_blocks :: "nat \<Rightarrow> sha_state \<Rightarrow> bytes \<Rightarrow> sha_state" where
  "sha_blocks 0 s b = s"
| "sha_blocks (Suc n) s b = sha_blocks n (sha_block s (take 64 b)) (drop 64 b)"

definition Sum256 :: "bytes \<Rightarrow> bytes" where
  "Sum256 m =
     (let p = sha_pad m
      in case sha_blocks (length p div 64) sha_init p of
           (a, b, c, d, e, f, g, h) \<Rightarrow> be32 a @ be32 b @ be32 c @ be32 d @ be32 e @ be32 f @ be32 g @ be32 h)"

lemma length_Sum256 [simp]: "length (Sum256 m) = 32"
  by (simp add: Sum256_def Let_def split: prod.split)

definition hex_digit :: "nat \<Rightarrow> char" where
  "hex_digit n = (if n < 10 then char_of (48 + n) else char_of (87 + n))"

fun hex_encode :: "bytes \<Rightarrow> bytes" where
  "hex_encode [] = []"
| "hex_encode (c # cs) = hex_digit (of_char c div 16) # hex_digit (of_char c mod 16) # hex_encode cs"

lemma length_hex_encode [simp]: "length (hex_encode b) = 2 * length b"
  by (induction b) simp_all

lemma hex_digit_inject: "m < 16 \<Longrightarrow> n < 16 \<Longrightarrow> hex_digit m = hex_digit n \<longleftrightarrow> m = n"
proof -
  assume "m < 16" "n < 16"
  then have "48 + m < 256" "87 + m < 256" "48 + n < 256" "87 + n < 256" by simp_all
  then show ?thesis using \<open>m < 16\<close> \<open>n < 16\<close> unfolding hex_digit_def
    by (auto simp: char_of_eq_iff take_bit_nat_eq_self split: if_splits)
qed

lemma hex_encode_inject [simp]: "hex_encode a = hex_encode b \<longleftrightarrow> a = b"
proof (induction a arbitrary: b)
  case Nil
  show ?case by (cases b) simp_all
next
  case (Cons c a)
  have b16: "(of_char c :: nat) div 16 < 16" for c
  proof -
    have "(of_char c :: nat) = of_char c mod 256" by simp
    also have "\<dots> < 256" by (rule mod_less_divisor) simp
    finally show ?thesis by (simp add: less_mult_imp_div_less)
  qed
  have "of_char c div 16 = (of_char d div 16 :: nat) \<and> of_char c mod 16 = (of_char d mod 16 :: nat) \<longleftrightarrow> c = d" for d
    by (metis div_mod_decomp of_char_eq_iff)
  then show ?case using Cons.IH by (cases b) (auto simp: hex_digit_inject b16)
qed

end
