(* ===== verification/Auth_Manager.thy ===== *)
theory Auth_Manager
  imports Document_Store Sha256 "HOL-Library.AList"
begin

section \<open>Users, keys, permissions and tenants\<close>

text \<open>
  Models \<^verbatim>\<open>auth.go\<close>, \<^verbatim>\<open>tenant.go\<close> and \<^verbatim>\<open>auth_manager.go\<close>.
  The manager keeps five tables in memory and in the buckets \<^verbatim>\<open>auth_*\<close>; a Go map is
  an association list, whose order stands for the order in which \<^verbatim>\<open>range\<close> happens to
  visit it.  An object that several variables point to is changed through the table that holds it.
  Parameters (\<open>auth_lib\<close>) are the third-party packages: the JSON codec, bcrypt and the JWT
  library.  Operations run one after the other; the release of the lock between a check and the
  write that follows it is not modelled.
\<close>

subsection \<open>Data\<close>

record User =
  u_Username :: bytes
  u_PasswordHash :: bytes
  u_CreatedAt :: int
  u_Disabled :: bool
  u_Tenant :: bytes

record APIKey =
  k_KeyHash :: bytes
  k_Username :: bytes
  k_CreatedAt :: int
  k_ExpiresAt :: int
  k_Description :: bytes

record Permission =
  pm_Username :: bytes
  pm_Collection :: bytes
  pm_Read :: bool
  pm_Write :: bool
  pm_Admin :: bool

record Group =
  g_Name :: bytes
  g_Description :: bytes
  g_Members :: "bytes list"
  g_CreatedAt :: int

record GroupPermission =
  gp_GroupName :: bytes
  gp_Collection :: bytes
  gp_Read :: bool
  gp_Write :: bool
  gp_Admin :: bool

record JWTClaims =
  c_Username :: bytes
  c_Admin :: bool
  c_Tenant :: bytes
  c_IssuedAt :: int
  c_ExpiresAt :: int

text \<open>Durations are in nanoseconds, as \<^verbatim>\<open>time.Duration\<close> has them.\<close>

record AuthConfig =
  JWTSecret :: bytes
  JWTExpiry :: int
  AdminUsername :: bytes
  AdminPassword :: bytes

datatype auth_error =
    ErrInvalidCredentials | ErrUserNotFound | ErrUserExists | ErrAPIKeyNotFound | ErrAPIKeyExpired | ErrForbidden
  | ErrUnauthorized | ErrInvalidTenant | CredentialsRequired | HashError | RandError | SignError | InvalidToken
  | GroupNameEmpty | GroupExists | GroupNotFound | GroupPermissionIncomplete
  | AuthPut | AuthDelete | AuthCommit | AuthBucket

type_synonym PermissionType = int

abbreviation (input) PermRead :: PermissionType where "PermRead \<equiv> 0"
abbreviation (input) PermWrite :: PermissionType where "PermWrite \<equiv> 1"
abbreviation (input) PermAdmin :: PermissionType where "PermAdmin \<equiv> 2"

text \<open>What the manager uses of other packages.  \<open>al_hash\<close> is bcrypt with a salt, \<open>al_hmac\<close> says
  whether the header of a token names an HMAC method, and \<open>al_parse\<close> gives the claims of a token
  whose signature is that of the secret and which has not expired.\<close>

record auth_lib =
  al_user :: "User \<Rightarrow> bytes"
  al_get_user :: "bytes \<Rightarrow> User option"
  al_key :: "APIKey \<Rightarrow> bytes"
  al_get_key :: "bytes \<Rightarrow> APIKey option"
  al_perm :: "Permission \<Rightarrow> bytes"
  al_get_perm :: "bytes \<Rightarrow> Permission option"
  al_group :: "Group \<Rightarrow> bytes"
  al_get_group :: "bytes \<Rightarrow> Group option"
  al_gperm :: "GroupPermission \<Rightarrow> bytes"
  al_get_gperm :: "bytes \<Rightarrow> GroupPermission option"
  al_hash :: "bytes \<Rightarrow> bytes \<Rightarrow> bytes option"
  al_verify :: "bytes \<Rightarrow> bytes \<Rightarrow> bool"
  al_sign :: "bytes \<Rightarrow> JWTClaims \<Rightarrow> bytes option"
  al_hmac :: "bytes \<Rightarrow> bool"
  al_parse :: "bytes \<Rightarrow> int \<Rightarrow> bytes \<Rightarrow> JWTClaims option"

locale auth_lib =
  fixes L :: auth_lib
  assumes user: "al_get_user L (al_user L u) = Some u"
    and key: "al_get_key L (al_key L k) = Some k"
    and perm: "al_get_perm L (al_perm L p) = Some p"
    and group: "al_get_group L (al_group L g) = Some g"
    and gperm: "al_get_gperm L (al_gperm L gp) = Some gp"
    and verify: "al_hash L salt pw = Some h \<Longrightarrow> al_verify L pw h"
    and signed: "al_sign L secret c = Some tok \<Longrightarrow> tok \<noteq> [] \<and> al_hmac L tok"
    and parsed: "al_sign L secret c = Some tok \<Longrightarrow> now < c_ExpiresAt c * 1000000000 \<Longrightarrow> al_parse L secret now tok = Some c"

subsection \<open>auth.go and tenant.go\<close>

definition secs :: "int \<Rightarrow> int" where "secs t = t div 1000000000"

definition GenerateAPIKey :: "bytes option \<Rightarrow> auth_error + bytes" where
  "GenerateAPIKey random = (case random of None \<Rightarrow> Inl RandError | Some b \<Rightarrow> Inr (''mddb_live_'' @ hex_encode b))"

definition HashAPIKey :: "bytes \<Rightarrow> bytes" where "HashAPIKey key = hex_encode (Sum256 key)"

definition HasPermission :: "PermissionType \<Rightarrow> Permission \<Rightarrow> bool" where
  "HasPermission op p =
     (if op = PermRead then pm_Read p else if op = PermWrite then pm_Write p else if op = PermAdmin then pm_Admin p else False)"

definition gp_HasPermission :: "PermissionType \<Rightarrow> GroupPermission \<Rightarrow> bool" where
  "gp_HasPermission op gp =
     (if op = PermRead then gp_Read gp else if op = PermWrite then gp_Write gp else if op = PermAdmin then gp_Admin gp else False)"

text \<open>Times are read in nanoseconds.\<close>

definition IsExpired :: "int \<Rightarrow> APIKey \<Rightarrow> bool" where
  "IsExpired now k = (if k_ExpiresAt k = 0 then False else secs now > k_ExpiresAt k)"

definition tenant_claims :: "int \<Rightarrow> bytes \<Rightarrow> bytes \<Rightarrow> bool \<Rightarrow> int \<Rightarrow> JWTClaims" where
  "tenant_claims now username tenant isAdmin expiry =
     (let isAdmin = (if tenant \<noteq> [] then False else isAdmin)
      in \<lparr>c_Username = username, c_Admin = isAdmin, c_Tenant = tenant, c_IssuedAt = secs now, c_ExpiresAt = secs (now + expiry)\<rparr>)"

definition GenerateTenantJWT :: "auth_lib \<Rightarrow> int \<Rightarrow> bytes \<Rightarrow> bytes \<Rightarrow> bool \<Rightarrow> bytes \<Rightarrow> int \<Rightarrow> auth_error + bytes" where
  "GenerateTenantJWT L now username tenant isAdmin secret expiry =
     (case al_sign L secret (tenant_claims now username tenant isAdmin expiry) of None \<Rightarrow> Inl SignError | Some tok \<Rightarrow> Inr tok)"

definition GenerateJWT :: "auth_lib \<Rightarrow> int \<Rightarrow> bytes \<Rightarrow> bool \<Rightarrow> bytes \<Rightarrow> int \<Rightarrow> auth_error + bytes" where
  "GenerateJWT L now username isAdmin secret expiry = GenerateTenantJWT L now username [] isAdmin secret expiry"

definition ValidateJWT :: "auth_lib \<Rightarrow> int \<Rightarrow> bytes \<Rightarrow> bytes \<Rightarrow> auth_error + JWTClaims" where
  "ValidateJWT L now tok secret =
     (if \<not> al_hmac L tok then Inl InvalidToken
      else case al_parse L secret now tok of None \<Rightarrow> Inl InvalidToken | Some claims \<Rightarrow> Inr claims)"

text \<open>The expression \<^verbatim>\<open>^[a-zA-Z0-9_-]{1,64}$\<close>.\<close>

definition tenant_char :: "char \<Rightarrow> bool" where
  "tenant_char c \<longleftrightarrow> c \<in> {CHR ''a'' .. CHR ''z''} \<union> {CHR ''A'' .. CHR ''Z''} \<or> is_digit c \<or> c \<in> {CHR ''_'', CHR ''-''}"

definition ValidTenantName :: "bytes \<Rightarrow> bool" where
  "ValidTenantName name = (if name = [] then True else 1 \<le> length name \<and> length name \<le> 64 \<and> list_all tenant_char name)"

definition CollectionInTenant :: "bytes \<Rightarrow> bytes \<Rightarrow> bool" where
  "CollectionInTenant tenant collection =
     (if tenant = [] then True
      else take (length (tenant @ ''/'')) collection = tenant @ ''/'' \<and> length collection > length tenant + 1)"

text \<open>A context is the claims it carries, if any.\<close>

definition TenantFromContext :: "JWTClaims option \<Rightarrow> bytes" where
  "TenantFromContext ctx = (case ctx of None \<Rightarrow> [] | Some claims \<Rightarrow> c_Tenant claims)"

subsection \<open>The manager\<close>

record 'tx AuthManager =
  am_db :: 'tx
  am_config :: AuthConfig
  am_enabled :: bool
  am_public :: "bytes list"
  am_users :: "(bytes \<times> User) list"
  am_apiKeys :: "(bytes \<times> APIKey) list"
  am_permissions :: "(bytes \<times> Permission list) list"
  am_groups :: "(bytes \<times> Group) list"
  am_groupPermissions :: "(bytes \<times> GroupPermission list) list"

text \<open>The paths exempt from authentication; the argument is the value of \<^verbatim>\<open>MDDB_METRICS_PUBLIC\<close>.\<close>

definition buildPublicEndpoints :: "bytes \<Rightarrow> bytes list" where
  "buildPublicEndpoints metrics =
     [''/health'', ''/v1/health'', ''/v1/auth/login''] @ (if metrics = ''true'' then [''/metrics''] else [])"

definition NewAuthManager :: "'tx \<Rightarrow> AuthConfig \<Rightarrow> bytes \<Rightarrow> 'tx AuthManager" where
  "NewAuthManager db config metrics =
     \<lparr>am_db = db, am_config = config, am_enabled = True, am_public = buildPublicEndpoints metrics,
      am_users = [], am_apiKeys = [], am_permissions = [], am_groups = [], am_groupPermissions = []\<rparr>"

definition am_EnsureBuckets :: "'tx bolt \<Rightarrow> 'tx AuthManager \<Rightarrow> 'tx AuthManager \<times> auth_error option" where
  "am_EnsureBuckets B am =
     (case DBUpdate B AuthCommit
         (\<lambda>tx. case foldl (\<lambda>t b. Option.bind t (bk_create B b)) (Some tx)
                  [''auth_users'', ''auth_apikeys'', ''auth_permissions'', ''auth_groups'', ''auth_group_perms''] of
                 None \<Rightarrow> Inl AuthBucket | Some tx' \<Rightarrow> Inr (tx', ())) (am_db am) of
        (db, Inl err) \<Rightarrow> (am\<lparr>am_db := db\<rparr>, Some err) | (db, Inr _) \<Rightarrow> (am\<lparr>am_db := db\<rparr>, None))"

text \<open>The values of a bucket that can be decoded, in the order of their keys; the others are skipped.\<close>

definition read_all :: "'tx bolt \<Rightarrow> (bytes \<Rightarrow> 'a option) \<Rightarrow> bytes \<Rightarrow> 'tx \<Rightarrow> 'a list" where
  "read_all B dec b tx = List.map_filter (\<lambda>(k, v). dec v) (bk_scan B b [] tx)"

definition by_name :: "('a \<Rightarrow> bytes) \<Rightarrow> 'a list \<Rightarrow> (bytes \<times> 'a) list" where
  "by_name name xs = foldl (\<lambda>m x. AList.update (name x) x m) [] xs"

definition entries :: "(bytes \<times> 'a list) list \<Rightarrow> bytes \<Rightarrow> 'a list" where
  "entries m n = (case map_of m n of None \<Rightarrow> [] | Some xs \<Rightarrow> xs)"

definition grouped :: "('a \<Rightarrow> bytes) \<Rightarrow> 'a list \<Rightarrow> (bytes \<times> 'a list) list" where
  "grouped name xs = foldl (\<lambda>m x. AList.update (name x) (entries m (name x) @ [x]) m) [] xs"

definition am_LoadAll :: "auth_lib \<Rightarrow> 'tx bolt \<Rightarrow> 'tx AuthManager \<Rightarrow> 'tx AuthManager" where
  "am_LoadAll L B am =
     am\<lparr>am_users := by_name u_Username (read_all B (al_get_user L) ''auth_users'' (am_db am)),
        am_apiKeys := by_name k_KeyHash (read_all B (al_get_key L) ''auth_apikeys'' (am_db am)),
        am_permissions := grouped pm_Username (read_all B (al_get_perm L) ''auth_permissions'' (am_db am)),
        am_groups := by_name g_Name (read_all B (al_get_group L) ''auth_groups'' (am_db am)),
        am_groupPermissions := grouped gp_GroupName (read_all B (al_get_gperm L) ''auth_group_perms'' (am_db am))\<rparr>"

subsection \<open>Users\<close>

text \<open>One put or delete in a transaction of its own.\<close>

definition auth_put :: "'tx bolt \<Rightarrow> bytes \<Rightarrow> bytes \<Rightarrow> bytes \<Rightarrow> 'tx AuthManager \<Rightarrow> 'tx AuthManager \<times> auth_error option" where
  "auth_put B b k v am =
     (case DBUpdate B AuthCommit (\<lambda>tx. case bk_put B b k v tx of None \<Rightarrow> Inl AuthPut | Some tx' \<Rightarrow> Inr (tx', ())) (am_db am) of
        (db, Inl err) \<Rightarrow> (am\<lparr>am_db := db\<rparr>, Some err) | (db, Inr _) \<Rightarrow> (am\<lparr>am_db := db\<rparr>, None))"

definition auth_delete :: "'tx bolt \<Rightarrow> bytes \<Rightarrow> bytes \<Rightarrow> 'tx AuthManager \<Rightarrow> 'tx AuthManager \<times> auth_error option" where
  "auth_delete B b k am =
     (case DBUpdate B AuthCommit (\<lambda>tx. case bk_delete B b k tx of None \<Rightarrow> Inl AuthDelete | Some tx' \<Rightarrow> Inr (tx', ())) (am_db am) of
        (db, Inl err) \<Rightarrow> (am\<lparr>am_db := db\<rparr>, Some err) | (db, Inr _) \<Rightarrow> (am\<lparr>am_db := db\<rparr>, None))"

definition GetUser :: "bytes \<Rightarrow> 'tx AuthManager \<Rightarrow> auth_error + User" where
  "GetUser username am = (case map_of (am_users am) username of None \<Rightarrow> Inl ErrUserNotFound | Some u \<Rightarrow> Inr u)"

definition CreateTenantUser :: "auth_lib \<Rightarrow> 'tx bolt \<Rightarrow> int \<Rightarrow> bytes \<Rightarrow> bytes \<Rightarrow> bytes \<Rightarrow> bytes \<Rightarrow> 'tx AuthManager \<Rightarrow>
    'tx AuthManager \<times> (auth_error + User)" where
  "CreateTenantUser L B now salt username password tenant am =
     (if username = [] \<or> password = [] then (am, Inl CredentialsRequired)
      else if \<not> ValidTenantName tenant then (am, Inl ErrInvalidTenant)
      else if map_of (am_users am) username \<noteq> None then (am, Inl ErrUserExists)
      else case al_hash L salt password of None \<Rightarrow> (am, Inl HashError)
      | Some passwordHash \<Rightarrow>
          let user = \<lparr>u_Username = username, u_PasswordHash = passwordHash, u_CreatedAt = secs now, u_Disabled = False, u_Tenant = tenant\<rparr>
          in (case auth_put B ''auth_users'' (''user|'' @ username) (al_user L user) am of
                (am1, Some err) \<Rightarrow> (am1, Inl err)
              | (am1, None) \<Rightarrow> (am1\<lparr>am_users := AList.update username user (am_users am1)\<rparr>, Inr user)))"

definition CreateUser :: "auth_lib \<Rightarrow> 'tx bolt \<Rightarrow> int \<Rightarrow> bytes \<Rightarrow> bytes \<Rightarrow> bytes \<Rightarrow> 'tx AuthManager \<Rightarrow>
    'tx AuthManager \<times> (auth_error + User)" where
  "CreateUser L B now salt username password am = CreateTenantUser L B now salt username password [] am"

text \<open>The user object is disabled in memory before it is stored.\<close>

definition DeleteUser :: "auth_lib \<Rightarrow> 'tx bolt \<Rightarrow> bytes \<Rightarrow> 'tx AuthManager \<Rightarrow> 'tx AuthManager \<times> auth_error option" where
  "DeleteUser L B username am =
     (case GetUser username am of Inl err \<Rightarrow> (am, Some err)
      | Inr u \<Rightarrow>
          let user = u\<lparr>u_Disabled := True\<rparr>;
              am1 = am\<lparr>am_users := AList.update username user (am_users am)\<rparr>
          in auth_put B ''auth_users'' (''user|'' @ username) (al_user L user) am1)"

definition Authenticate :: "auth_lib \<Rightarrow> bytes \<Rightarrow> bytes \<Rightarrow> 'tx AuthManager \<Rightarrow> auth_error + User" where
  "Authenticate L username password am =
     (case GetUser username am of Inl _ \<Rightarrow> Inl ErrInvalidCredentials
      | Inr user \<Rightarrow>
          if u_Disabled user then Inl ErrInvalidCredentials
          else if \<not> al_verify L password (u_PasswordHash user) then Inl ErrInvalidCredentials
          else Inr user)"

definition UserTenant :: "bytes \<Rightarrow> 'tx AuthManager \<Rightarrow> bytes" where
  "UserTenant username am = (case map_of (am_users am) username of None \<Rightarrow> [] | Some u \<Rightarrow> u_Tenant u)"

definition ListAllUsers :: "'tx AuthManager \<Rightarrow> User list" where
  "ListAllUsers am = map snd (am_users am)"

subsection \<open>API keys\<close>

definition CreateAPIKey :: "auth_lib \<Rightarrow> 'tx bolt \<Rightarrow> int \<Rightarrow> bytes option \<Rightarrow> bytes \<Rightarrow> bytes \<Rightarrow> int \<Rightarrow> 'tx AuthManager \<Rightarrow>
    'tx AuthManager \<times> (auth_error + bytes)" where
  "CreateAPIKey L B now random username description expiresAt am =
     (case GetUser username am of Inl err \<Rightarrow> (am, Inl err)
      | Inr _ \<Rightarrow>
        (case GenerateAPIKey random of Inl err \<Rightarrow> (am, Inl err)
         | Inr key \<Rightarrow>
             let keyHash = HashAPIKey key;
                 apiKey = \<lparr>k_KeyHash = keyHash, k_Username = username, k_CreatedAt = secs now, k_ExpiresAt = expiresAt,
                           k_Description = description\<rparr>
             in (case auth_put B ''auth_apikeys'' (''apikey|'' @ keyHash) (al_key L apiKey) am of
                   (am1, Some err) \<Rightarrow> (am1, Inl err)
                 | (am1, None) \<Rightarrow> (am1\<lparr>am_apiKeys := AList.update keyHash apiKey (am_apiKeys am1)\<rparr>, Inr key))))"

definition ValidateAPIKey :: "int \<Rightarrow> bytes \<Rightarrow> 'tx AuthManager \<Rightarrow> auth_error + bytes" where
  "ValidateAPIKey now key am =
     (case map_of (am_apiKeys am) (HashAPIKey key) of None \<Rightarrow> Inl ErrAPIKeyNotFound
      | Some apiKey \<Rightarrow> if IsExpired now apiKey then Inl ErrAPIKeyExpired else Inr (k_Username apiKey))"

definition ListAPIKeys :: "bytes \<Rightarrow> 'tx AuthManager \<Rightarrow> APIKey list" where
  "ListAPIKeys username am = filter (\<lambda>k. k_Username k = username) (map snd (am_apiKeys am))"

definition DeleteAPIKey :: "'tx bolt \<Rightarrow> bytes \<Rightarrow> bytes \<Rightarrow> 'tx AuthManager \<Rightarrow> 'tx AuthManager \<times> auth_error option" where
  "DeleteAPIKey B username keyHash am =
     (case map_of (am_apiKeys am) keyHash of None \<Rightarrow> (am, Some ErrAPIKeyNotFound)
      | Some apiKey \<Rightarrow>
          if k_Username apiKey \<noteq> username then (am, Some ErrForbidden)
          else (case auth_delete B ''auth_apikeys'' (''apikey|'' @ keyHash) am of
                  (am1, Some err) \<Rightarrow> (am1, Some err)
                | (am1, None) \<Rightarrow> (am1\<lparr>am_apiKeys := AList.delete keyHash (am_apiKeys am1)\<rparr>, None)))"

subsection \<open>Permissions\<close>

definition perm_key :: "bytes \<Rightarrow> bytes \<Rightarrow> bytes" where
  "perm_key username collection = ''perm|'' @ username @ ''|'' @ collection"

definition SetPermission :: "auth_lib \<Rightarrow> 'tx bolt \<Rightarrow> Permission \<Rightarrow> 'tx AuthManager \<Rightarrow> 'tx AuthManager \<times> auth_error option" where
  "SetPermission L B perm am =
     (case GetUser (pm_Username perm) am of Inl err \<Rightarrow> (am, Some err)
      | Inr _ \<Rightarrow>
        (case auth_put B ''auth_permissions'' (perm_key (pm_Username perm) (pm_Collection perm)) (al_perm L perm) am of
           (am1, Some err) \<Rightarrow> (am1, Some err)
         | (am1, None) \<Rightarrow>
             let filtered = filter (\<lambda>p. pm_Collection p \<noteq> pm_Collection perm) (entries (am_permissions am1) (pm_Username perm)) @ [perm]
             in (am1\<lparr>am_permissions := AList.update (pm_Username perm) filtered (am_permissions am1)\<rparr>, None)))"

definition GetPermissions :: "bytes \<Rightarrow> 'tx AuthManager \<Rightarrow> Permission list" where
  "GetPermissions username am = entries (am_permissions am) username"

text \<open>The permissions of one group: the collection first, the wildcard afterwards.\<close>

definition group_allows :: "bytes \<Rightarrow> PermissionType \<Rightarrow> GroupPermission list \<Rightarrow> bool" where
  "group_allows collection operation groupPerms =
     (if list_ex (\<lambda>gp. gp_Collection gp = collection \<and> gp_HasPermission operation gp) groupPerms then True
      else list_ex (\<lambda>gp. gp_Collection gp = ''*'' \<and> gp_HasPermission operation gp) groupPerms)"

fun check_groups :: "bytes \<Rightarrow> bytes \<Rightarrow> PermissionType \<Rightarrow> (bytes \<times> GroupPermission list) list \<Rightarrow> Group list \<Rightarrow> bool" where
  "check_groups username collection operation gps [] = False"
| "check_groups username collection operation gps (g # gs) =
     (if username \<notin> set (g_Members g) then check_groups username collection operation gps gs
      else if group_allows collection operation (entries gps (g_Name g)) then True
      else check_groups username collection operation gps gs)"

text \<open>\<^term>\<open>None\<close> is permission.\<close>

definition CheckPermission :: "JWTClaims option \<Rightarrow> bytes \<Rightarrow> PermissionType \<Rightarrow> 'tx AuthManager \<Rightarrow> auth_error option" where
  "CheckPermission ctx collection operation am =
     (if \<not> am_enabled am then None
      else case ctx of None \<Rightarrow> Some ErrUnauthorized
      | Some claims \<Rightarrow>
          if c_Tenant claims \<noteq> [] \<and>
             (if collection = ''*'' then operation \<noteq> PermRead else \<not> CollectionInTenant (c_Tenant claims) collection)
          then Some ErrForbidden
          else if c_Admin claims then None
          else let username = c_Username claims; perms = entries (am_permissions am) username
          in if list_ex (\<lambda>p. pm_Collection p = collection \<and> HasPermission operation p) perms then None
             else if list_ex (\<lambda>p. pm_Collection p = ''*'' \<and> HasPermission operation p) perms then None
             else if check_groups username collection operation (am_groupPermissions am) (map snd (am_groups am)) then None
             else Some ErrForbidden)"

definition IsAdmin :: "bytes \<Rightarrow> 'tx AuthManager \<Rightarrow> bool" where
  "IsAdmin username am = list_ex pm_Admin (entries (am_permissions am) username)"

subsection \<open>Groups\<close>

definition CreateGroup :: "auth_lib \<Rightarrow> 'tx bolt \<Rightarrow> int \<Rightarrow> bytes \<Rightarrow> bytes \<Rightarrow> bytes list \<Rightarrow> 'tx AuthManager \<Rightarrow>
    'tx AuthManager \<times> (auth_error + Group)" where
  "CreateGroup L B now name description members am =
     (if name = [] then (am, Inl GroupNameEmpty)
      else if map_of (am_groups am) name \<noteq> None then (am, Inl GroupExists)
      else let grp = \<lparr>g_Name = name, g_Description = description, g_Members = members, g_CreatedAt = secs now\<rparr>
      in case auth_put B ''auth_groups'' name (al_group L grp) am of
           (am1, Some err) \<Rightarrow> (am1, Inl err)
         | (am1, None) \<Rightarrow> (am1\<lparr>am_groups := AList.update name grp (am_groups am1)\<rparr>, Inr grp))"

definition GetGroup :: "bytes \<Rightarrow> 'tx AuthManager \<Rightarrow> auth_error + Group" where
  "GetGroup name am = (case map_of (am_groups am) name of None \<Rightarrow> Inl GroupNotFound | Some g \<Rightarrow> Inr g)"

definition ListGroups :: "'tx AuthManager \<Rightarrow> Group list" where
  "ListGroups am = map snd (am_groups am)"

text \<open>Like a user, a group is changed in memory before it is stored.\<close>

definition UpdateGroup :: "auth_lib \<Rightarrow> 'tx bolt \<Rightarrow> bytes \<Rightarrow> bytes \<Rightarrow> bytes list \<Rightarrow> 'tx AuthManager \<Rightarrow>
    'tx AuthManager \<times> (auth_error + Group)" where
  "UpdateGroup L B name description members am =
     (case map_of (am_groups am) name of None \<Rightarrow> (am, Inl GroupNotFound)
      | Some g \<Rightarrow>
          let grp = g\<lparr>g_Description := description, g_Members := members\<rparr>;
              am1 = am\<lparr>am_groups := AList.update name grp (am_groups am)\<rparr>
          in (case auth_put B ''auth_groups'' name (al_group L grp) am1 of
                (am2, Some err) \<Rightarrow> (am2, Inl err) | (am2, None) \<Rightarrow> (am2, Inr grp)))"

text \<open>The loop of \<open>DeleteGroup\<close> compares \<^verbatim>\<open>string(k[:len(prefix)])\<close>.  A key handed out by
  bbolt has no spare capacity, so the slice of a shorter key panics.  \<open>group_stop\<close> is the key at
  which the loop ends: the first one from the prefix on that does not start with it.  The keys the
  loop visits while its body deletes them are those of \<open>bk_walk\<close>.\<close>

definition group_stop :: "'tx bolt \<Rightarrow> bytes \<Rightarrow> 'tx \<Rightarrow> bytes option" where
  "group_stop B pfx tx =
     (case filter (\<lambda>k. pfx \<le> k \<and> take (length pfx) k \<noteq> pfx) (map fst (bk_scan B ''auth_group_perms'' [] tx)) of
        [] \<Rightarrow> None | k # _ \<Rightarrow> Some k)"

fun delete_keys :: "'tx bolt \<Rightarrow> bytes \<Rightarrow> bytes list \<Rightarrow> 'tx \<Rightarrow> 'tx option" where
  "delete_keys B b [] tx = Some tx"
| "delete_keys B b (k # ks) tx = (case bk_delete B b k tx of None \<Rightarrow> None | Some tx' \<Rightarrow> delete_keys B b ks tx')"

definition delete_group_txn :: "'tx bolt \<Rightarrow> bytes \<Rightarrow> 'tx \<Rightarrow> (auth_error, 'tx) outcome" where
  "delete_group_txn B name tx =
     (case bk_delete B ''auth_groups'' name tx of None \<Rightarrow> Err AuthDelete
      | Some tx1 \<Rightarrow>
          let pfx = name @ ''|''
          in case delete_keys B ''auth_group_perms'' (bk_walk B ''auth_group_perms'' pfx tx1) tx1 of
               None \<Rightarrow> Err AuthDelete
             | Some tx2 \<Rightarrow> (case group_stop B pfx tx1 of
                  Some k \<Rightarrow> if length k < length pfx then Panic else Ok tx2
                | None \<Rightarrow> Ok tx2))"

definition DeleteGroup :: "'tx bolt \<Rightarrow> bytes \<Rightarrow> 'tx AuthManager \<Rightarrow> 'tx AuthManager \<times> (auth_error, unit) outcome" where
  "DeleteGroup B name am =
     (if map_of (am_groups am) name = None then (am, Err GroupNotFound)
      else case delete_group_txn B name (am_db am) of
        Panic \<Rightarrow> (am, Panic) | Err err \<Rightarrow> (am, Err err)
      | Ok tx \<Rightarrow>
          (case bk_commit B tx of None \<Rightarrow> (am, Err AuthCommit)
           | Some db \<Rightarrow>
               (am\<lparr>am_db := db, am_groups := AList.delete name (am_groups am),
                   am_groupPermissions := AList.delete name (am_groupPermissions am)\<rparr>, Ok ())))"

definition gperm_key :: "bytes \<Rightarrow> bytes \<Rightarrow> bytes" where
  "gperm_key groupName collection = groupName @ ''|'' @ collection"

text \<open>The first permission for the collection is replaced, otherwise the new one is appended.\<close>

fun replace_perm :: "GroupPermission \<Rightarrow> GroupPermission list \<Rightarrow> GroupPermission list" where
  "replace_perm gp [] = [gp]"
| "replace_perm gp (p # ps) = (if gp_Collection p = gp_Collection gp then gp # ps else p # replace_perm gp ps)"

definition SetGroupPermission :: "auth_lib \<Rightarrow> 'tx bolt \<Rightarrow> GroupPermission \<Rightarrow> 'tx AuthManager \<Rightarrow> 'tx AuthManager \<times> auth_error option" where
  "SetGroupPermission L B gp am =
     (if gp_GroupName gp = [] \<or> gp_Collection gp = [] then (am, Some GroupPermissionIncomplete)
      else if map_of (am_groups am) (gp_GroupName gp) = None then (am, Some GroupNotFound)
      else case auth_put B ''auth_group_perms'' (gperm_key (gp_GroupName gp) (gp_Collection gp)) (al_gperm L gp) am of
        (am1, Some err) \<Rightarrow> (am1, Some err)
      | (am1, None) \<Rightarrow>
          (am1\<lparr>am_groupPermissions :=
              AList.update (gp_GroupName gp) (replace_perm gp (entries (am_groupPermissions am1) (gp_GroupName gp)))
                (am_groupPermissions am1)\<rparr>, None))"

definition GetGroupPermissions :: "bytes \<Rightarrow> 'tx AuthManager \<Rightarrow> GroupPermission list" where
  "GetGroupPermissions groupName am = entries (am_groupPermissions am) groupName"

definition GetUserGroups :: "bytes \<Rightarrow> 'tx AuthManager \<Rightarrow> bytes list" where
  "GetUserGroups username am = map g_Name (filter (\<lambda>g. username \<in> set (g_Members g)) (map snd (am_groups am)))"

subsection \<open>The first administrator\<close>

definition BootstrapAdmin :: "auth_lib \<Rightarrow> 'tx bolt \<Rightarrow> int \<Rightarrow> bytes \<Rightarrow> 'tx AuthManager \<Rightarrow> 'tx AuthManager \<times> auth_error option" where
  "BootstrapAdmin L B now salt am =
     (let name = AdminUsername (am_config am); password = AdminPassword (am_config am)
      in if name = [] \<or> password = [] then (am, None)
         else if map_of (am_users am) name \<noteq> None then (am, None)
         else case CreateUser L B now salt name password am of
           (am1, Inl err) \<Rightarrow> (am1, Some err)
         | (am1, Inr user) \<Rightarrow>
             SetPermission L B \<lparr>pm_Username = u_Username user, pm_Collection = ''*'', pm_Read = True, pm_Write = True, pm_Admin = True\<rparr> am1)"

end
