(* ===== verification/Auth_Front.thy ===== *)
theory Auth_Front
  imports Auth_Manager
begin

section \<open>Authentication of requests\<close>

text \<open>
  Models \<^verbatim>\<open>auth_middleware.go\<close>, \<^verbatim>\<open>auth_grpc.go\<close>,
  \<^verbatim>\<open>auth_handlers.go\<close> and the client address of \<^verbatim>\<open>audit_handlers.go\<close>.
  A request is what the code reads of it; a handler gets the decoded body, \<^term>\<open>None\<close> when it
  cannot be decoded, and gives the records it sends to the audit log and the failure tracker.  The
  successive readings of the clock are \<open>t 0\<close>, \<open>t 1\<close>, \<open>t 2\<close>.  Encoding a reply does not fail.
\<close>

subsection \<open>Requests and audit records\<close>

record request =
  rq_Method :: bytes
  rq_Path :: bytes
  rq_Authorization :: bytes
  rq_ApiKey :: bytes
  rq_Forwarded :: bytes
  rq_RemoteAddr :: bytes
  rq_UserAgent :: bytes

definition splitHost :: "bytes \<Rightarrow> bytes option" where
  "splitHost addr =
     (if addr = [] then None
      else if CHR '':'' \<in> set addr then Some (rev (tl (dropWhile (\<lambda>c. c \<noteq> CHR '':'') (rev addr))))
      else Some addr)"

definition ClientIP :: "request \<Rightarrow> bytes" where
  "ClientIP r =
     (let xff = rq_Forwarded r
      in if xff \<noteq> [] then
           (if CHR '','' \<in> set xff \<and> hd xff \<noteq> CHR '','' then TrimSpace (takeWhile (\<lambda>c. c \<noteq> CHR '','') xff) else TrimSpace xff)
         else case splitHost (rq_RemoteAddr r) of None \<Rightarrow> rq_RemoteAddr r | Some host \<Rightarrow> host)"

record AuditEvent =
  ae_Actor :: bytes
  ae_Action :: bytes
  ae_Resource :: bytes
  ae_Result :: bytes
  ae_IP :: bytes
  ae_UserAgent :: bytes
  ae_Detail :: bytes

datatype audit_effect = AuditRecord AuditEvent | FailureRecord bytes bytes

text \<open>What of the owning server is there to record to.\<close>

record audit_sinks =
  as_audit :: bool
  as_tracker :: bool

definition auditAuth :: "audit_sinks option \<Rightarrow> request \<Rightarrow> bytes \<Rightarrow> bytes \<Rightarrow> bytes \<Rightarrow> bytes \<Rightarrow> audit_effect list" where
  "auditAuth server r actor action result detail =
     (case server of None \<Rightarrow> []
      | Some s \<Rightarrow>
          (if as_audit s then [AuditRecord \<lparr>ae_Actor = actor, ae_Action = action, ae_Resource = rq_Path r, ae_Result = result,
              ae_IP = ClientIP r, ae_UserAgent = rq_UserAgent r, ae_Detail = detail\<rparr>] else []) @
          (if result = ''fail'' \<and> as_tracker s then [FailureRecord actor (ClientIP r)] else []))"

subsection \<open>The HTTP middleware\<close>

text \<open>The second part is \<open>strings.ToLower\<close> compared with a word of ASCII letters of which no other
  letter is the upper case.\<close>

definition extractTokenFromRequest :: "request \<Rightarrow> bytes" where
  "extractTokenFromRequest r =
     (let auth = rq_Authorization r
      in if auth = [] then []
         else case SplitN 2 (CHR '' '') auth of
           [scheme, tok] \<Rightarrow> if map lower_byte scheme = ''bearer'' then tok else []
         | _ \<Rightarrow> [])"

definition isPublicEndpoint :: "bytes \<Rightarrow> 'tx AuthManager \<Rightarrow> bool" where
  "isPublicEndpoint path am \<longleftrightarrow> path \<in> set (am_public am)"

definition key_error_text :: "auth_error \<Rightarrow> bytes" where
  "key_error_text err = (if err = ErrAPIKeyExpired then ''api key expired'' else ''api key not found'')"

datatype middleware = Pass "JWTClaims option" | Refuse nat

text \<open>An hour, for the token made from an API key.\<close>

definition key_token :: "auth_lib \<Rightarrow> int \<Rightarrow> bytes \<Rightarrow> 'tx AuthManager \<Rightarrow> auth_error + bytes" where
  "key_token L now username am =
     GenerateTenantJWT L now username (UserTenant username am) (IsAdmin username am) (JWTSecret (am_config am)) 3600000000000"

definition check_token :: "auth_lib \<Rightarrow> int \<Rightarrow> bytes \<Rightarrow> 'tx AuthManager \<Rightarrow> (bytes \<times> bytes) + JWTClaims" where
  "check_token L now tok am =
     (case ValidateJWT L now tok (JWTSecret (am_config am)) of Inl _ \<Rightarrow> Inl ([], ''invalid token'')
      | Inr claims \<Rightarrow>
          (case GetUser (c_Username claims) am of Inl _ \<Rightarrow> Inl (c_Username claims, ''user disabled or not found'')
           | Inr user \<Rightarrow> if u_Disabled user then Inl (c_Username claims, ''user disabled or not found'') else Inr claims))"

definition HTTPMiddleware :: "auth_lib \<Rightarrow> (nat \<Rightarrow> int) \<Rightarrow> audit_sinks option \<Rightarrow> request \<Rightarrow> 'tx AuthManager \<Rightarrow>
    audit_effect list \<times> middleware" where
  "HTTPMiddleware L t server r am =
     (if \<not> am_enabled am \<or> isPublicEndpoint (rq_Path r) am then ([], Pass None)
      else let token = extractTokenFromRequest r;
          resolved = (if token \<noteq> [] \<or> rq_ApiKey r = [] then Inr ([], token)
            else case ValidateAPIKey (t 0) (rq_ApiKey r) am of
              Inl err \<Rightarrow> Inl (auditAuth server r [] ''auth.apikey'' ''fail'' (key_error_text err), 401)
            | Inr username \<Rightarrow>
                (case key_token L (t 1) username am of
                   Inl _ \<Rightarrow> Inl (auditAuth server r username ''auth.apikey'' ''fail'' ''jwt generation failed'', 500)
                 | Inr tok \<Rightarrow> Inr (auditAuth server r username ''auth.apikey'' ''ok'' [], tok)))
      in case resolved of Inl (es, code) \<Rightarrow> (es, Refuse code)
         | Inr (es, tok) \<Rightarrow>
             if tok = [] then (es @ auditAuth server r [] ''auth.missing'' ''fail'' [], Refuse 401)
             else (case check_token L (t 2) tok am of
                     Inl (actor, detail) \<Rightarrow> (es @ auditAuth server r actor ''auth.jwt'' ''fail'' detail, Refuse 401)
                   | Inr claims \<Rightarrow> (es, Pass (Some claims))))"

subsection \<open>gRPC\<close>

definition trim_prefix :: "bytes \<Rightarrow> bytes \<Rightarrow> bytes" where
  "trim_prefix p s = (if take (length p) s = p then drop (length p) s else s)"

definition metadata_token :: "bytes \<Rightarrow> bytes" where
  "metadata_token auth =
     (if take 7 (map lower_byte auth) = ''bearer '' then trim_prefix ''bearer '' (trim_prefix ''Bearer '' auth) else auth)"

datatype grpc_refusal = MissingMetadata | InvalidKey | TokenNotMade | MissingAuthentication | BadToken | UserGone

text \<open>The metadata of the call, if it has any: the values of \<^verbatim>\<open>authorization\<close> and of
  \<^verbatim>\<open>x-api-key\<close>.\<close>

definition authenticateContext :: "auth_lib \<Rightarrow> (nat \<Rightarrow> int) \<Rightarrow> (bytes list \<times> bytes list) option \<Rightarrow> 'tx AuthManager \<Rightarrow>
    grpc_refusal + JWTClaims" where
  "authenticateContext L t md am =
     (case md of None \<Rightarrow> Inl MissingMetadata
      | Some (authorization, apiKeys) \<Rightarrow>
          let token = (case authorization of [] \<Rightarrow> [] | auth # _ \<Rightarrow> metadata_token auth);
              resolved = (if token \<noteq> [] then Inr token
                else case apiKeys of [] \<Rightarrow> Inr []
                | apiKey # _ \<Rightarrow>
                    (case ValidateAPIKey (t 0) apiKey am of Inl _ \<Rightarrow> Inl InvalidKey
                     | Inr username \<Rightarrow> (case key_token L (t 1) username am of Inl _ \<Rightarrow> Inl TokenNotMade | Inr tok \<Rightarrow> Inr tok)))
          in (case resolved of Inl e \<Rightarrow> Inl e
              | Inr tok \<Rightarrow>
                  if tok = [] then Inl MissingAuthentication
                  else case ValidateJWT L (t 2) tok (JWTSecret (am_config am)) of Inl _ \<Rightarrow> Inl BadToken
                  | Inr claims \<Rightarrow>
                      (case GetUser (c_Username claims) am of Inl _ \<Rightarrow> Inl UserGone
                       | Inr user \<Rightarrow> if u_Disabled user then Inl UserGone else Inr claims)))"

text \<open>The unary and the stream interceptor: the context the handler runs with.\<close>

definition GRPCUnaryInterceptor :: "auth_lib \<Rightarrow> (nat \<Rightarrow> int) \<Rightarrow> (bytes list \<times> bytes list) option \<Rightarrow> 'tx AuthManager \<Rightarrow>
    grpc_refusal + JWTClaims option" where
  "GRPCUnaryInterceptor L t md am =
     (if \<not> am_enabled am then Inr None else map_sum id Some (authenticateContext L t md am))"

definition GRPCStreamInterceptor :: "auth_lib \<Rightarrow> (nat \<Rightarrow> int) \<Rightarrow> (bytes list \<times> bytes list) option \<Rightarrow> 'tx AuthManager \<Rightarrow>
    grpc_refusal + JWTClaims option" where
  "GRPCStreamInterceptor L t md am =
     (if \<not> am_enabled am then Inr None else map_sum id Some (authenticateContext L t md am))"

subsection \<open>The handlers\<close>

record UserInfo =
  ui_Username :: bytes
  ui_CreatedAt :: int
  ui_Disabled :: bool
  ui_Admin :: bool
  ui_Groups :: "bytes list"

datatype auth_reply =
    Denied nat | LoggedIn bytes int | RegisteredUser bytes int bytes | KeyMade bytes bytes int int
  | KeyItems "(bytes \<times> bytes \<times> int \<times> int) list" | DoneOk | Me bytes bool int bytes | PermissionList "Permission list"
  | UserInfos "UserInfo list" | GroupList "Group list" | GroupMade Group | GroupInfo Group
  | GroupPermissionList "GroupPermission list" | Crashed

definition login_audit :: "audit_sinks \<Rightarrow> request \<Rightarrow> bytes \<Rightarrow> bytes \<Rightarrow> audit_effect list" where
  "login_audit s r actor result =
     (if as_audit s then [AuditRecord \<lparr>ae_Actor = actor, ae_Action = ''auth.login'', ae_Resource = rq_Path r, ae_Result = result,
        ae_IP = ClientIP r, ae_UserAgent = rq_UserAgent r, ae_Detail = []\<rparr>] else [])"

definition handleAuthLogin :: "auth_lib \<Rightarrow> (nat \<Rightarrow> int) \<Rightarrow> audit_sinks \<Rightarrow> request \<Rightarrow> (bytes \<times> bytes) option \<Rightarrow> 'tx AuthManager \<Rightarrow>
    audit_effect list \<times> auth_reply" where
  "handleAuthLogin L t s r body am =
     (if rq_Method r \<noteq> ''POST'' then ([], Denied 405)
      else case body of None \<Rightarrow> ([], Denied 400)
      | Some (username, password) \<Rightarrow>
          (case Authenticate L username password am of
             Inl _ \<Rightarrow> (login_audit s r username ''fail'' @ (if as_tracker s then [FailureRecord username (ClientIP r)] else []), Denied 401)
           | Inr user \<Rightarrow>
               (case GenerateTenantJWT L (t 0) (u_Username user) (u_Tenant user) (IsAdmin (u_Username user) am)
                       (JWTSecret (am_config am)) (JWTExpiry (am_config am)) of
                  Inl _ \<Rightarrow> ([], Denied 500)
                | Inr tok \<Rightarrow> (login_audit s r (u_Username user) ''ok'', LoggedIn tok (secs (t 1 + JWTExpiry (am_config am)))))))"

definition is_admin :: "JWTClaims option \<Rightarrow> bool" where
  "is_admin ctx = (case ctx of None \<Rightarrow> False | Some claims \<Rightarrow> c_Admin claims)"

text \<open>The body is the user name, the password and the tenant.\<close>

definition handleAuthRegister :: "auth_lib \<Rightarrow> 'tx bolt \<Rightarrow> int \<Rightarrow> bytes \<Rightarrow> JWTClaims option \<Rightarrow> request \<Rightarrow> (bytes \<times> bytes \<times> bytes) option \<Rightarrow>
    'tx AuthManager \<Rightarrow> 'tx AuthManager \<times> auth_reply" where
  "handleAuthRegister L B now salt ctx r body am =
     (if rq_Method r \<noteq> ''POST'' then (am, Denied 405)
      else if \<not> is_admin ctx then (am, Denied 403)
      else case body of None \<Rightarrow> (am, Denied 400)
      | Some (username, password, tenant) \<Rightarrow>
          (case CreateTenantUser L B now salt username password tenant am of
             (am1, Inl err) \<Rightarrow> (am1, Denied (if err = ErrUserExists then 409 else if err = ErrInvalidTenant then 400 else 500))
           | (am1, Inr user) \<Rightarrow> (am1, RegisteredUser (u_Username user) (u_CreatedAt user) (u_Tenant user))))"

definition handleAuthAPIKey :: "auth_lib \<Rightarrow> 'tx bolt \<Rightarrow> (nat \<Rightarrow> int) \<Rightarrow> bytes option \<Rightarrow> JWTClaims option \<Rightarrow> request \<Rightarrow> (bytes \<times> int) option \<Rightarrow>
    'tx AuthManager \<Rightarrow> 'tx AuthManager \<times> auth_reply" where
  "handleAuthAPIKey L B t random ctx r body am =
     (if rq_Method r \<noteq> ''POST'' then (am, Denied 405)
      else case ctx of None \<Rightarrow> (am, Denied 401)
      | Some claims \<Rightarrow>
          (case body of None \<Rightarrow> (am, Denied 400)
           | Some (description, expiresAt) \<Rightarrow>
               (case CreateAPIKey L B (t 0) random (c_Username claims) description expiresAt am of
                  (am1, Inl _) \<Rightarrow> (am1, Denied 500)
                | (am1, Inr key) \<Rightarrow> (am1, KeyMade key description expiresAt (secs (t 1))))))"

definition handleAuthAPIKeysList :: "JWTClaims option \<Rightarrow> request \<Rightarrow> 'tx AuthManager \<Rightarrow> auth_reply" where
  "handleAuthAPIKeysList ctx r am =
     (if rq_Method r \<noteq> ''GET'' then Denied 405
      else case ctx of None \<Rightarrow> Denied 401
      | Some claims \<Rightarrow> KeyItems (map (\<lambda>k. (k_KeyHash k, k_Description k, k_CreatedAt k, k_ExpiresAt k)) (ListAPIKeys (c_Username claims) am)))"

definition handleAuthAPIKeyDelete :: "'tx bolt \<Rightarrow> JWTClaims option \<Rightarrow> request \<Rightarrow> 'tx AuthManager \<Rightarrow> 'tx AuthManager \<times> auth_reply" where
  "handleAuthAPIKeyDelete B ctx r am =
     (if rq_Method r \<noteq> ''DELETE'' then (am, Denied 405)
      else case ctx of None \<Rightarrow> (am, Denied 401)
      | Some claims \<Rightarrow>
          let keyHash = trim_prefix ''/v1/auth/api-keys/'' (rq_Path r)
          in if keyHash = [] then (am, Denied 400)
             else case DeleteAPIKey B (c_Username claims) keyHash am of
               (am1, None) \<Rightarrow> (am1, DoneOk)
             | (am1, Some err) \<Rightarrow> (am1, Denied (if err = ErrAPIKeyNotFound then 404 else if err = ErrForbidden then 403 else 500)))"

definition handleAuthMe :: "JWTClaims option \<Rightarrow> request \<Rightarrow> 'tx AuthManager \<Rightarrow> auth_reply" where
  "handleAuthMe ctx r am =
     (if rq_Method r \<noteq> ''GET'' \<and> rq_Method r \<noteq> ''POST'' then Denied 405
      else case ctx of None \<Rightarrow> Denied 401
      | Some claims \<Rightarrow>
          (case GetUser (c_Username claims) am of Inl _ \<Rightarrow> Denied 404
           | Inr user \<Rightarrow> Me (u_Username user) (c_Admin claims) (u_CreatedAt user) (u_Tenant user)))"

text \<open>\<open>query\<close> is the parameter \<^verbatim>\<open>username\<close> or \<^verbatim>\<open>group\<close> of the URL.\<close>

definition handleAuthPermissions :: "auth_lib \<Rightarrow> 'tx bolt \<Rightarrow> JWTClaims option \<Rightarrow> request \<Rightarrow> Permission option \<Rightarrow> bytes \<Rightarrow>
    'tx AuthManager \<Rightarrow> 'tx AuthManager \<times> auth_reply" where
  "handleAuthPermissions L B ctx r body query am =
     (if \<not> is_admin ctx then (am, Denied 403)
      else if rq_Method r = ''POST'' then
        (case body of None \<Rightarrow> (am, Denied 400)
         | Some perm \<Rightarrow> (case SetPermission L B perm am of (am1, Some _) \<Rightarrow> (am1, Denied 500) | (am1, None) \<Rightarrow> (am1, DoneOk)))
      else if rq_Method r = ''GET'' then
        (am, if query = [] then Denied 400 else PermissionList (GetPermissions query am))
      else (am, Denied 405))"

definition handleAuthDeleteUser :: "auth_lib \<Rightarrow> 'tx bolt \<Rightarrow> JWTClaims option \<Rightarrow> request \<Rightarrow> 'tx AuthManager \<Rightarrow> 'tx AuthManager \<times> auth_reply" where
  "handleAuthDeleteUser L B ctx r am =
     (if rq_Method r \<noteq> ''DELETE'' then (am, Denied 405)
      else if \<not> is_admin ctx then (am, Denied 403)
      else let path = trim_prefix ''/v1/auth/users/'' (rq_Path r)
      in if path = [] then (am, Denied 400)
         else case DeleteUser L B path am of
           (am1, None) \<Rightarrow> (am1, DoneOk) | (am1, Some err) \<Rightarrow> (am1, Denied (if err = ErrUserNotFound then 404 else 500)))"

definition handleAuthUsersList :: "JWTClaims option \<Rightarrow> request \<Rightarrow> 'tx AuthManager \<Rightarrow> auth_reply" where
  "handleAuthUsersList ctx r am =
     (if rq_Method r \<noteq> ''GET'' then Denied 405
      else if \<not> is_admin ctx then Denied 403
      else UserInfos (map (\<lambda>u. \<lparr>ui_Username = u_Username u, ui_CreatedAt = u_CreatedAt u, ui_Disabled = u_Disabled u,
             ui_Admin = IsAdmin (u_Username u) am, ui_Groups = GetUserGroups (u_Username u) am\<rparr>) (ListAllUsers am)))"

text \<open>The body is the name, the description and the members.\<close>

definition handleAuthGroups :: "auth_lib \<Rightarrow> 'tx bolt \<Rightarrow> int \<Rightarrow> JWTClaims option \<Rightarrow> request \<Rightarrow> (bytes \<times> bytes \<times> bytes list) option \<Rightarrow>
    'tx AuthManager \<Rightarrow> 'tx AuthManager \<times> auth_reply" where
  "handleAuthGroups L B now ctx r body am =
     (if \<not> is_admin ctx then (am, Denied 403)
      else if rq_Method r = ''GET'' then (am, GroupList (ListGroups am))
      else if rq_Method r = ''POST'' then
        (case body of None \<Rightarrow> (am, Denied 400)
         | Some (name, description, members) \<Rightarrow>
             if name = [] then (am, Denied 400)
             else case CreateGroup L B now name description members am of
               (am1, Inl _) \<Rightarrow> (am1, Denied 400) | (am1, Inr g) \<Rightarrow> (am1, GroupMade g))
      else (am, Denied 405))"

definition handleAuthGroupDetail :: "auth_lib \<Rightarrow> 'tx bolt \<Rightarrow> JWTClaims option \<Rightarrow> request \<Rightarrow> (bytes \<times> bytes list) option \<Rightarrow>
    'tx AuthManager \<Rightarrow> 'tx AuthManager \<times> auth_reply" where
  "handleAuthGroupDetail L B ctx r body am =
     (if \<not> is_admin ctx then (am, Denied 403)
      else let groupName = trim_prefix ''/v1/auth/groups/'' (rq_Path r)
      in if groupName = [] then (am, Denied 400)
         else if rq_Method r = ''GET'' then
           (am, case GetGroup groupName am of Inl _ \<Rightarrow> Denied 404 | Inr g \<Rightarrow> GroupInfo g)
         else if rq_Method r = ''PUT'' then
           (case body of None \<Rightarrow> (am, Denied 400)
            | Some (description, members) \<Rightarrow>
                (case UpdateGroup L B groupName description members am of
                   (am1, Inl err) \<Rightarrow> (am1, Denied (if err = GroupNotFound then 404 else 400))
                 | (am1, Inr g) \<Rightarrow> (am1, GroupInfo g)))
         else if rq_Method r = ''DELETE'' then
           (case DeleteGroup B groupName am of
              (am1, Ok _) \<Rightarrow> (am1, DoneOk)
            | (am1, Err err) \<Rightarrow> (am1, Denied (if err = GroupNotFound then 404 else 500))
            | (am1, Panic) \<Rightarrow> (am1, Crashed))
         else (am, Denied 405))"

definition handleAuthGroupPermissions :: "auth_lib \<Rightarrow> 'tx bolt \<Rightarrow> JWTClaims option \<Rightarrow> request \<Rightarrow> GroupPermission option \<Rightarrow> bytes \<Rightarrow>
    'tx AuthManager \<Rightarrow> 'tx AuthManager \<times> auth_reply" where
  "handleAuthGroupPermissions L B ctx r body query am =
     (if \<not> is_admin ctx then (am, Denied 403)
      else if rq_Method r = ''GET'' then
        (am, if query = [] then Denied 400 else GroupPermissionList (GetGroupPermissions query am))
      else if rq_Method r = ''POST'' then
        (case body of None \<Rightarrow> (am, Denied 400)
         | Some gp \<Rightarrow> (case SetGroupPermission L B gp am of (am1, Some _) \<Rightarrow> (am1, Denied 400) | (am1, None) \<Rightarrow> (am1, DoneOk)))
      else (am, Denied 405))"

end
