(* ===== verification/Auth_Safety.thy ===== *)
theory Auth_Safety
  imports Auth_Front
begin

section \<open>What authentication guarantees\<close>

text \<open>
  The tables in memory mirror the buckets, so a restart changes no decision; the decision of
  \<open>CheckPermission\<close> as a formula over the tables; tenants stay in their namespace; a deleted user
  stays out; and where the code gives away more than it means to.
\<close>

subsection \<open>A table in a bucket\<close>

text \<open>A bucket holds exactly the encodings of a set of records under their keys.\<close>

definition holds :: "(bytes \<rightharpoonup> bytes) \<Rightarrow> ('a \<Rightarrow> bytes) \<Rightarrow> ('a \<Rightarrow> bytes) \<Rightarrow> 'a set \<Rightarrow> bool" where
  "holds c key enc S \<longleftrightarrow> inj_on key S \<and> (\<forall>k v. c k = Some v \<longleftrightarrow> (\<exists>x \<in> S. key x = k \<and> enc x = v))"

lemma holds_put:
  assumes "holds c key enc S"
  shows "holds (c(key x \<mapsto> enc x)) key enc (insert x {y \<in> S. key y \<noteq> key x})"
proof -
  have "inj_on key (insert x {y \<in> S. key y \<noteq> key x})" using assms by (auto simp: holds_def inj_on_def)
  then show ?thesis using assms by (auto simp: holds_def)
qed

lemma holds_delete:
  assumes "holds c key enc S"
  shows "holds (c(k := None)) key enc {y \<in> S. key y \<noteq> k}"
  using assms by (auto simp: holds_def inj_on_def)

lemma holds_key: "holds c key enc S \<Longrightarrow> x \<in> S \<Longrightarrow> y \<in> S \<Longrightarrow> key x = key y \<Longrightarrow> x = y"
  by (auto simp: holds_def dest: inj_onD)

locale auth_entry_codec =
  fixes enc :: "'a \<Rightarrow> bytes" and dec :: "bytes \<Rightarrow> 'a option"
  assumes dec_enc: "dec (enc x) = Some x"
begin

lemma enc_inject: "enc x = enc y \<longleftrightarrow> x = y"
  by (metis dec_enc option.inject)

lemma read_all_holds:
  assumes B: "bolt_laws B cont" and h: "holds (cont tx b) key enc S"
  shows "set (read_all B dec b tx) = S \<and> distinct (read_all B dec b tx)"
proof -
  let ?kvs = "bk_scan B b [] tx"
  have s: "set ?kvs = {(k, v). cont tx b k = Some v}" using bolt_laws.scan_set [OF B] by simp
  have kv: "\<exists>x \<in> S. key x = k \<and> enc x = v" if "(k, v) \<in> set ?kvs" for k v using that h by (simp add: s holds_def)
  have m: "map key (List.map_filter (\<lambda>(k, v). dec v) kvs) = map fst kvs" if "\<forall>(k, v) \<in> set kvs. \<exists>x \<in> S. key x = k \<and> enc x = v" for kvs
    using that by (induction kvs) (auto simp: List.map_filter_simps dec_enc)
  have "map key (read_all B dec b tx) = map fst ?kvs" unfolding read_all_def by (rule m) (use kv in blast)
  then have "distinct (map key (read_all B dec b tx))" using bolt_laws.scan_distinct [OF B] by simp
  then have "distinct (read_all B dec b tx)" by (simp add: distinct_map)
  moreover have "set (read_all B dec b tx) = S"
    using h unfolding read_all_def List.map_filter_def holds_def by (force simp: s dec_enc image_iff)
  ultimately show ?thesis by blast
qed

end

lemma by_name_snoc: "by_name name (xs @ [x]) = AList.update (name x) x (by_name name xs)"
  by (simp add: by_name_def)

lemma by_name_of:
  assumes "inj_on name (set xs)"
  shows "map_of (by_name name xs) n = Some x \<longleftrightarrow> x \<in> set xs \<and> name x = n"
  using assms
proof (induction xs rule: rev_induct)
  case (snoc y xs)
  have i: "\<And>x. x \<in> set xs \<Longrightarrow> name x = name y \<Longrightarrow> x = y" using snoc.prems by (simp add: inj_on_def)
  from snoc have "map_of (by_name name xs) n = Some x \<longleftrightarrow> x \<in> set xs \<and> name x = n" by (simp add: inj_on_Un)
  with i show ?case by (auto simp: by_name_snoc AList.update_conv')
qed (simp add: by_name_def)

lemma by_name_distinct: "distinct (map fst (by_name name xs))"
  by (induction xs rule: rev_induct) (simp_all add: by_name_snoc distinct_update, simp add: by_name_def)

lemma entries_grouped: "entries (grouped name xs) n = filter (\<lambda>x. name x = n) xs"
proof (induction xs rule: rev_induct)
  case Nil
  show ?case by (simp add: grouped_def entries_def)
next
  case (snoc x xs)
  have "grouped name (xs @ [x]) = AList.update (name x) (entries (grouped name xs) (name x) @ [x]) (grouped name xs)"
    by (simp add: grouped_def)
  with snoc show ?case by (simp add: entries_def AList.update_conv')
qed

lemma entries_update [simp]: "entries (AList.update n xs m) n' = (if n' = n then xs else entries m n')"
  by (simp add: entries_def AList.update_conv')

lemma entries_delete [simp]: "entries (AList.delete n m) n' = (if n' = n then [] else entries m n')"
  by (simp add: entries_def AList.delete_conv')

lemma values_of: "distinct (map fst m) \<Longrightarrow> x \<in> set (map snd m) \<longleftrightarrow> (\<exists>n. map_of m n = Some x)"
  by (force simp: map_of_eq_Some_iff)

subsection \<open>Memory and buckets agree\<close>

definition users_of :: "'tx AuthManager \<Rightarrow> User set" where
  "users_of am = {u. map_of (am_users am) (u_Username u) = Some u}"

definition keys_of :: "'tx AuthManager \<Rightarrow> APIKey set" where
  "keys_of am = {k. map_of (am_apiKeys am) (k_KeyHash k) = Some k}"

definition perms_of :: "'tx AuthManager \<Rightarrow> Permission set" where
  "perms_of am = {p. p \<in> set (entries (am_permissions am) (pm_Username p))}"

definition groups_of :: "'tx AuthManager \<Rightarrow> Group set" where
  "groups_of am = {g. map_of (am_groups am) (g_Name g) = Some g}"

definition gperms_of :: "'tx AuthManager \<Rightarrow> GroupPermission set" where
  "gperms_of am = {q. q \<in> set (entries (am_groupPermissions am) (gp_GroupName q))}"

text \<open>Every record is filed under its own name.\<close>

definition filed :: "'tx AuthManager \<Rightarrow> bool" where
  "filed am \<longleftrightarrow>
     (\<forall>n u. map_of (am_users am) n = Some u \<longrightarrow> u_Username u = n) \<and>
     (\<forall>n k. map_of (am_apiKeys am) n = Some k \<longrightarrow> k_KeyHash k = n) \<and>
     (\<forall>n p. p \<in> set (entries (am_permissions am) n) \<longrightarrow> pm_Username p = n \<and> nosep n) \<and>
     (\<forall>n g. map_of (am_groups am) n = Some g \<longrightarrow> g_Name g = n) \<and>
     (\<forall>n q. q \<in> set (entries (am_groupPermissions am) n) \<longrightarrow> gp_GroupName q = n \<and> nosep n) \<and>
     (\<forall>n. distinct (map gp_Collection (entries (am_groupPermissions am) n))) \<and>
     distinct (map fst (am_groups am))"

abbreviation user_key :: "User \<Rightarrow> bytes" where "user_key u \<equiv> ''user|'' @ u_Username u"
abbreviation apikey_key :: "APIKey \<Rightarrow> bytes" where "apikey_key k \<equiv> ''apikey|'' @ k_KeyHash k"
abbreviation pm_key :: "Permission \<Rightarrow> bytes" where "pm_key p \<equiv> perm_key (pm_Username p) (pm_Collection p)"
abbreviation gp_key :: "GroupPermission \<Rightarrow> bytes" where "gp_key q \<equiv> gperm_key (gp_GroupName q) (gp_Collection q)"

definition stored :: "auth_lib \<Rightarrow> contents \<Rightarrow> 'tx AuthManager \<Rightarrow> bool" where
  "stored L c am \<longleftrightarrow>
     holds (c ''auth_users'') user_key (al_user L) (users_of am) \<and>
     holds (c ''auth_apikeys'') apikey_key (al_key L) (keys_of am) \<and>
     holds (c ''auth_permissions'') pm_key (al_perm L) (perms_of am) \<and>
     holds (c ''auth_groups'') g_Name (al_group L) (groups_of am) \<and>
     holds (c ''auth_group_perms'') gp_key (al_gperm L) (gperms_of am)"

definition auth_mirrors :: "auth_lib \<Rightarrow> ('tx \<Rightarrow> contents) \<Rightarrow> 'tx AuthManager \<Rightarrow> bool" where
  "auth_mirrors L cont am \<longleftrightarrow> filed am \<and> stored L (cont (am_db am)) am"

lemmas of_defs = users_of_def keys_of_def perms_of_def groups_of_def gperms_of_def

lemma auth_put_cases:
  assumes B: "bolt_laws B cont"
  obtains err where "auth_put B b k v am = (am, Some err)"
  | db where "auth_put B b k v am = (am\<lparr>am_db := db\<rparr>, None)" "cont db = c_put b k v (cont (am_db am))"
proof (cases "bk_put B b k v (am_db am)")
  case None
  then show ?thesis by (intro that(1)) (simp add: auth_put_def DBUpdate_def)
next
  case (Some tx)
  show ?thesis
  proof (cases "bk_commit B tx")
    case None
    with Some show ?thesis by (intro that(1)) (simp add: auth_put_def DBUpdate_def)
  next
    case (Some db)
    with \<open>bk_put B b k v (am_db am) = Some tx\<close> show ?thesis
      using bolt_laws.put_law [OF B] bolt_laws.commit_law [OF B] by (intro that(2) [of db]) (simp_all add: auth_put_def DBUpdate_def)
  qed
qed

lemma auth_delete_cases:
  assumes B: "bolt_laws B cont"
  obtains err where "auth_delete B b k am = (am, Some err)"
  | db where "auth_delete B b k am = (am\<lparr>am_db := db\<rparr>, None)" "cont db = c_delete b k (cont (am_db am))"
proof (cases "bk_delete B b k (am_db am)")
  case None
  then show ?thesis by (intro that(1)) (simp add: auth_delete_def DBUpdate_def)
next
  case (Some tx)
  show ?thesis
  proof (cases "bk_commit B tx")
    case None
    with Some show ?thesis by (intro that(1)) (simp add: auth_delete_def DBUpdate_def)
  next
    case (Some db)
    with \<open>bk_delete B b k (am_db am) = Some tx\<close> show ?thesis
      using bolt_laws.delete_law [OF B] bolt_laws.commit_law [OF B] by (intro that(2) [of db]) (simp_all add: auth_delete_def DBUpdate_def)
  qed
qed

text \<open>A record filed in memory and put into its bucket.\<close>

lemma mirrors_put_user:
  assumes m: "auth_mirrors L cont am" and c: "cont db = c_put ''auth_users'' (user_key u) (al_user L u) (cont (am_db am))"
  shows "auth_mirrors L cont (am\<lparr>am_db := db, am_users := AList.update (u_Username u) u (am_users am)\<rparr>)"
proof -
  let ?am = "am\<lparr>am_db := db, am_users := AList.update (u_Username u) u (am_users am)\<rparr>"
  have "users_of ?am = insert u {y \<in> users_of am. user_key y \<noteq> user_key u}"
    by (auto simp: users_of_def AList.update_conv')
  moreover have "keys_of ?am = keys_of am" "perms_of ?am = perms_of am" "groups_of ?am = groups_of am" "gperms_of ?am = gperms_of am"
    by (simp_all add: of_defs)
  ultimately show ?thesis using m holds_put [of "cont (am_db am) ''auth_users''" user_key "al_user L" "users_of am" u]
    by (simp add: auth_mirrors_def stored_def filed_def c c_put_def AList.update_conv')
qed

lemma mirrors_put_key:
  assumes m: "auth_mirrors L cont am" and c: "cont db = c_put ''auth_apikeys'' (apikey_key k) (al_key L k) (cont (am_db am))"
  shows "auth_mirrors L cont (am\<lparr>am_db := db, am_apiKeys := AList.update (k_KeyHash k) k (am_apiKeys am)\<rparr>)"
proof -
  let ?am = "am\<lparr>am_db := db, am_apiKeys := AList.update (k_KeyHash k) k (am_apiKeys am)\<rparr>"
  have "keys_of ?am = insert k {y \<in> keys_of am. apikey_key y \<noteq> apikey_key k}"
    by (auto simp: keys_of_def AList.update_conv')
  moreover have "users_of ?am = users_of am" "perms_of ?am = perms_of am" "groups_of ?am = groups_of am" "gperms_of ?am = gperms_of am"
    by (simp_all add: of_defs)
  ultimately show ?thesis using m holds_put [of "cont (am_db am) ''auth_apikeys''" apikey_key "al_key L" "keys_of am" k]
    by (simp add: auth_mirrors_def stored_def filed_def c c_put_def AList.update_conv')
qed

lemma mirrors_put_group:
  assumes m: "auth_mirrors L cont am" and c: "cont db = c_put ''auth_groups'' (g_Name g) (al_group L g) (cont (am_db am))"
  shows "auth_mirrors L cont (am\<lparr>am_db := db, am_groups := AList.update (g_Name g) g (am_groups am)\<rparr>)"
proof -
  let ?am = "am\<lparr>am_db := db, am_groups := AList.update (g_Name g) g (am_groups am)\<rparr>"
  have "groups_of ?am = insert g {y \<in> groups_of am. g_Name y \<noteq> g_Name g}"
    by (auto simp: groups_of_def AList.update_conv')
  moreover have "users_of ?am = users_of am" "perms_of ?am = perms_of am" "keys_of ?am = keys_of am" "gperms_of ?am = gperms_of am"
    by (simp_all add: of_defs)
  ultimately show ?thesis using m holds_put [of "cont (am_db am) ''auth_groups''" g_Name "al_group L" "groups_of am" g]
    by (simp add: auth_mirrors_def stored_def filed_def c c_put_def AList.update_conv' distinct_update)
qed

lemma mirrors_delete_key:
  assumes m: "auth_mirrors L cont am" and c: "cont db = c_delete ''auth_apikeys'' (''apikey|'' @ h) (cont (am_db am))"
  shows "auth_mirrors L cont (am\<lparr>am_db := db, am_apiKeys := AList.delete h (am_apiKeys am)\<rparr>)"
proof -
  let ?am = "am\<lparr>am_db := db, am_apiKeys := AList.delete h (am_apiKeys am)\<rparr>"
  have "keys_of ?am = {y \<in> keys_of am. apikey_key y \<noteq> ''apikey|'' @ h}"
    by (auto simp: keys_of_def AList.delete_conv')
  moreover have "users_of ?am = users_of am" "perms_of ?am = perms_of am" "groups_of ?am = groups_of am" "gperms_of ?am = gperms_of am"
    by (simp_all add: of_defs)
  ultimately show ?thesis using m holds_delete [of "cont (am_db am) ''auth_apikeys''" apikey_key "al_key L" "keys_of am" "''apikey|'' @ h"]
    by (simp add: auth_mirrors_def stored_def filed_def c c_delete_def AList.delete_conv')
qed

lemma perm_key_inject: "nosep u \<Longrightarrow> nosep u' \<Longrightarrow> perm_key u c = perm_key u' c' \<longleftrightarrow> u = u' \<and> c = c'"
  using append_sep_inject [of u "CHR ''|''" c u' c'] by (auto simp: perm_key_def)

lemma gperm_key_inject: "nosep u \<Longrightarrow> nosep u' \<Longrightarrow> gperm_key u c = gperm_key u' c' \<longleftrightarrow> u = u' \<and> c = c'"
  using append_sep_inject [of u "CHR ''|''" c u' c'] by (auto simp: gperm_key_def)

lemma mirrors_put_perm:
  assumes m: "auth_mirrors L cont am" and n: "nosep (pm_Username p)"
    and c: "cont db = c_put ''auth_permissions'' (pm_key p) (al_perm L p) (cont (am_db am))"
  shows "auth_mirrors L cont (am\<lparr>am_db := db, am_permissions := AList.update (pm_Username p)
    (filter (\<lambda>q. pm_Collection q \<noteq> pm_Collection p) (entries (am_permissions am) (pm_Username p)) @ [p]) (am_permissions am)\<rparr>)"
    (is "auth_mirrors L cont ?am")
proof -
  have f: "\<And>q n. q \<in> set (entries (am_permissions am) n) \<Longrightarrow> pm_Username q = n \<and> nosep n" using m by (auto simp: auth_mirrors_def filed_def)
  have "perms_of ?am = insert p {q \<in> perms_of am. pm_key q \<noteq> pm_key p}"
  proof (rule set_eqI)
    fix q
    show "q \<in> perms_of ?am \<longleftrightarrow> q \<in> insert p {q \<in> perms_of am. pm_key q \<noteq> pm_key p}"
    proof (cases "pm_Username q = pm_Username p")
      case True
      then show ?thesis by (auto simp: perms_of_def perm_key_def)
    next
      case False
      then have "q \<in> perms_of am \<Longrightarrow> pm_key q \<noteq> pm_key p" using f [of q "pm_Username q"] n by (simp add: perms_of_def perm_key_inject)
      with False show ?thesis by (auto simp: perms_of_def)
    qed
  qed
  moreover have "users_of ?am = users_of am" "keys_of ?am = keys_of am" "groups_of ?am = groups_of am" "gperms_of ?am = gperms_of am"
    by (simp_all add: of_defs)
  moreover have "filed ?am" using m n by (auto simp: auth_mirrors_def filed_def)
  ultimately show ?thesis using m holds_put [of "cont (am_db am) ''auth_permissions''" pm_key "al_perm L" "perms_of am" p]
    by (simp add: auth_mirrors_def stored_def c c_put_def)
qed

lemma replace_perm_props:
  assumes "distinct (map gp_Collection qs)"
  shows "set (replace_perm gp qs) = insert gp {q \<in> set qs. gp_Collection q \<noteq> gp_Collection gp}"
    "distinct (map gp_Collection (replace_perm gp qs))" "gp_Collection ` set (replace_perm gp qs) = insert (gp_Collection gp) (gp_Collection ` set qs)"
  using assms by (induction qs) (auto simp: image_iff)

lemma mirrors_put_gperm:
  assumes m: "auth_mirrors L cont am" and n: "nosep (gp_GroupName p)"
    and c: "cont db = c_put ''auth_group_perms'' (gp_key p) (al_gperm L p) (cont (am_db am))"
  shows "auth_mirrors L cont (am\<lparr>am_db := db, am_groupPermissions := AList.update (gp_GroupName p)
    (replace_perm p (entries (am_groupPermissions am) (gp_GroupName p))) (am_groupPermissions am)\<rparr>)"
    (is "auth_mirrors L cont ?am")
proof -
  have f: "\<And>q n. q \<in> set (entries (am_groupPermissions am) n) \<Longrightarrow> gp_GroupName q = n \<and> nosep n"
    and d: "\<And>n. distinct (map gp_Collection (entries (am_groupPermissions am) n))" using m by (auto simp: auth_mirrors_def filed_def)
  have "gperms_of ?am = insert p {q \<in> gperms_of am. gp_key q \<noteq> gp_key p}"
  proof (rule set_eqI)
    fix q
    show "q \<in> gperms_of ?am \<longleftrightarrow> q \<in> insert p {q \<in> gperms_of am. gp_key q \<noteq> gp_key p}"
    proof (cases "gp_GroupName q = gp_GroupName p")
      case True
      then show ?thesis by (auto simp: gperms_of_def gperm_key_def replace_perm_props(1) [OF d])
    next
      case False
      then have "q \<in> gperms_of am \<Longrightarrow> gp_key q \<noteq> gp_key p" using f [of q "gp_GroupName q"] n by (simp add: gperms_of_def gperm_key_inject)
      with False show ?thesis by (auto simp: gperms_of_def)
    qed
  qed
  moreover have "users_of ?am = users_of am" "keys_of ?am = keys_of am" "groups_of ?am = groups_of am" "perms_of ?am = perms_of am"
    by (simp_all add: of_defs)
  moreover have "filed ?am" using m n replace_perm_props(1,2) [OF d] by (auto simp: auth_mirrors_def filed_def)
  ultimately show ?thesis using m holds_put [of "cont (am_db am) ''auth_group_perms''" gp_key "al_gperm L" "gperms_of am" p]
    by (simp add: auth_mirrors_def stored_def c c_put_def)
qed

lemma holds_restrict:
  assumes "holds c key enc S"
  shows "holds (\<lambda>k. if k \<in> K then None else c k) key enc {y \<in> S. key y \<notin> K}"
  using assms by (auto simp: holds_def inj_on_def)

lemma delete_keys_contents:
  assumes B: "bolt_laws B cont" and "delete_keys B b ks tx = Some tx'"
  shows "cont tx' b' k = (if b' = b \<and> k \<in> set ks then None else cont tx b' k)"
  using assms(2)
proof (induction ks arbitrary: tx)
  case (Cons k0 ks)
  then obtain tx1 where "bk_delete B b k0 tx = Some tx1" "delete_keys B b ks tx1 = Some tx'" by (auto split: option.splits)
  with Cons.IH bolt_laws.delete_law [OF B] show ?case by (auto simp: c_delete_def)
qed simp

text \<open>A cursor whose body deletes the keys it visits is not promised to visit all of them.\<close>

definition walks_all :: "'tx bolt \<Rightarrow> ('tx \<Rightarrow> contents) \<Rightarrow> bytes \<Rightarrow> bytes \<Rightarrow> bool" where
  "walks_all B cont b p \<longleftrightarrow> (\<forall>tx. set (bk_walk B b p tx) = {k. cont tx b k \<noteq> None \<and> prefix p k})"

lemma DeleteGroup_Ok:
  assumes B: "bolt_laws B cont" and d: "DeleteGroup B name am = (am', Ok ())" and w: "walks_all B cont ''auth_group_perms'' (name @ ''|'')"
  shows "\<exists>db. am' = am\<lparr>am_db := db, am_groups := AList.delete name (am_groups am), am_groupPermissions := AList.delete name (am_groupPermissions am)\<rparr> \<and>
    (\<forall>b k. cont db b k = (if b = ''auth_groups'' \<and> k = name \<or> b = ''auth_group_perms'' \<and> prefix (name @ ''|'') k then None else cont (am_db am) b k))"
proof -
  obtain tx1 tx2 db where t: "bk_delete B ''auth_groups'' name (am_db am) = Some tx1"
    "delete_keys B ''auth_group_perms'' (bk_walk B ''auth_group_perms'' (name @ ''|'') tx1) tx1 = Some tx2" "bk_commit B tx2 = Some db"
    "am' = am\<lparr>am_db := db, am_groups := AList.delete name (am_groups am), am_groupPermissions := AList.delete name (am_groupPermissions am)\<rparr>"
    using d by (auto simp: DeleteGroup_def delete_group_txn_def Let_def split: if_splits option.splits outcome.splits)
  have c1: "cont tx1 = c_delete ''auth_groups'' name (cont (am_db am))" by (rule bolt_laws.delete_law [OF B t(1)])
  have "cont db b k = cont tx2 b k" for b k using bolt_laws.commit_law [OF B t(3)] by simp
  then have "cont db b k = (if b = ''auth_groups'' \<and> k = name \<or> b = ''auth_group_perms'' \<and> prefix (name @ ''|'') k then None else cont (am_db am) b k)" for b k
    using w by (simp add: delete_keys_contents [OF B t(2)] walks_all_def c1 c_delete_def)
  with t(4) show ?thesis by blast
qed

lemma mirrors_delete_group:
  assumes B: "bolt_laws B cont" and m: "auth_mirrors L cont am" and n: "nosep name"
    and d: "DeleteGroup B name am = (am', Ok ())" and w: "walks_all B cont ''auth_group_perms'' (name @ ''|'')"
  shows "auth_mirrors L cont am'"
proof -
  obtain db where am': "am' = am\<lparr>am_db := db, am_groups := AList.delete name (am_groups am), am_groupPermissions := AList.delete name (am_groupPermissions am)\<rparr>"
    and c: "\<And>b k. cont db b k = (if b = ''auth_groups'' \<and> k = name \<or> b = ''auth_group_perms'' \<and> prefix (name @ ''|'') k then None else cont (am_db am) b k)"
    using DeleteGroup_Ok [OF B d w] by blast
  have f: "\<And>q n. q \<in> set (entries (am_groupPermissions am) n) \<Longrightarrow> gp_GroupName q = n \<and> nosep n" using m by (simp add: auth_mirrors_def filed_def)
  have p: "q \<in> gperms_of am \<Longrightarrow> prefix (name @ ''|'') (gp_key q) \<longleftrightarrow> gp_GroupName q = name" for q
    using f [of q "gp_GroupName q"] n append_sep_inject [of "gp_GroupName q" "CHR ''|''" _ name] by (auto simp: gperms_of_def gperm_key_def prefix_def)
  have "gperms_of am' = {q \<in> gperms_of am. gp_key q \<notin> {k. prefix (name @ ''|'') k}}" using p by (auto simp: gperms_of_def am')
  moreover have "groups_of am' = {g \<in> groups_of am. g_Name g \<noteq> name}" by (auto simp: groups_of_def am' AList.delete_conv')
  moreover have "users_of am' = users_of am" "keys_of am' = keys_of am" "perms_of am' = perms_of am" by (simp_all add: of_defs am')
  moreover have "filed am'" using m by (auto simp: auth_mirrors_def filed_def am' AList.delete_conv' distinct_delete)
  moreover have "cont db ''auth_groups'' = (cont (am_db am) ''auth_groups'')(name := None)"
    "cont db ''auth_group_perms'' = (\<lambda>k. if k \<in> {k. prefix (name @ ''|'') k} then None else cont (am_db am) ''auth_group_perms'' k)"
    "cont db ''auth_users'' = cont (am_db am) ''auth_users''" "cont db ''auth_apikeys'' = cont (am_db am) ''auth_apikeys''"
    "cont db ''auth_permissions'' = cont (am_db am) ''auth_permissions''"
    by (simp_all add: c fun_eq_iff)
  ultimately show ?thesis
    using m holds_delete [of "cont (am_db am) ''auth_groups''" g_Name "al_group L" "groups_of am" name]
      holds_restrict [of "cont (am_db am) ''auth_group_perms''" gp_key "al_gperm L" "gperms_of am" "{k. prefix (name @ ''|'') k}"]
    by (simp add: auth_mirrors_def stored_def am')
qed

subsection \<open>Every operation keeps memory and buckets in step\<close>

lemma auth_put_Some: "auth_put B b k v am = (am1, Some err) \<Longrightarrow> am1 = am"
  by (auto simp: auth_put_def DBUpdate_def split: option.splits)

lemma auth_delete_Some: "auth_delete B b k am = (am1, Some err) \<Longrightarrow> am1 = am"
  by (auto simp: auth_delete_def DBUpdate_def split: option.splits)

lemma auth_put_None:
  assumes "bolt_laws B cont" and "auth_put B b k v am = (am1, None)"
  shows "\<exists>db. am1 = am\<lparr>am_db := db\<rparr> \<and> cont db = c_put b k v (cont (am_db am))"
  by (rule auth_put_cases [OF assms(1), of b k v am]) (use assms(2) in auto)

lemma auth_delete_None:
  assumes "bolt_laws B cont" and "auth_delete B b k am = (am1, None)"
  shows "\<exists>db. am1 = am\<lparr>am_db := db\<rparr> \<and> cont db = c_delete b k (cont (am_db am))"
  by (rule auth_delete_cases [OF assms(1), of b k am]) (use assms(2) in auto)

lemma CreateTenantUser_mirrors:
  assumes B: "bolt_laws B cont" and m: "auth_mirrors L cont am"
    and "CreateTenantUser L B now salt username password tenant am = (am', r)"
  shows "auth_mirrors L cont am'"
  using assms(3) m mirrors_put_user [OF m, where u = "\<lparr>u_Username = username, u_PasswordHash = h, u_CreatedAt = secs now, u_Disabled = False, u_Tenant = tenant\<rparr>" for h]
  by (auto simp: CreateTenantUser_def Let_def split: if_splits option.splits prod.splits dest: auth_put_Some dest!: auth_put_None [OF B])

lemma DeleteUser_mirrors:
  assumes B: "bolt_laws B cont" and m: "auth_mirrors L cont am" and d: "DeleteUser L B username am = (am', None)"
  shows "auth_mirrors L cont am'"
proof -
  obtain u where u: "map_of (am_users am) username = Some u" using d by (auto simp: DeleteUser_def GetUser_def split: option.splits)
  then have n: "u_Username u = username" using m by (simp add: auth_mirrors_def filed_def)
  obtain db where a: "am' = am\<lparr>am_users := AList.update username (u\<lparr>u_Disabled := True\<rparr>) (am_users am), am_db := db\<rparr>"
    and c: "cont db = c_put ''auth_users'' (''user|'' @ username) (al_user L (u\<lparr>u_Disabled := True\<rparr>)) (cont (am_db am))"
    using d u by (auto simp: DeleteUser_def GetUser_def Let_def dest!: auth_put_None [OF B])
  have "am' = am\<lparr>am_db := db, am_users := AList.update username (u\<lparr>u_Disabled := True\<rparr>) (am_users am)\<rparr>" by (simp add: a)
  with mirrors_put_user [OF m, of db "u\<lparr>u_Disabled := True\<rparr>"] n c show ?thesis by simp
qed

lemma CreateAPIKey_mirrors:
  assumes B: "bolt_laws B cont" and m: "auth_mirrors L cont am"
    and "CreateAPIKey L B now random username description expiresAt am = (am', r)"
  shows "auth_mirrors L cont am'"
  using assms(3) m mirrors_put_key [OF m, where k = "\<lparr>k_KeyHash = h, k_Username = username, k_CreatedAt = secs now, k_ExpiresAt = expiresAt, k_Description = description\<rparr>" for h]
  by (auto simp: CreateAPIKey_def Let_def split: sum.splits option.splits prod.splits dest: auth_put_Some dest!: auth_put_None [OF B])

lemma DeleteAPIKey_mirrors:
  assumes B: "bolt_laws B cont" and m: "auth_mirrors L cont am" and "DeleteAPIKey B username keyHash am = (am', r)"
  shows "auth_mirrors L cont am'"
  using assms(3) m mirrors_delete_key [OF m]
  by (auto simp: DeleteAPIKey_def split: if_splits option.splits prod.splits dest: auth_delete_Some dest!: auth_delete_None [OF B])

lemma SetPermission_mirrors:
  assumes B: "bolt_laws B cont" and m: "auth_mirrors L cont am" and "nosep (pm_Username p)" and "SetPermission L B p am = (am', r)"
  shows "auth_mirrors L cont am'"
  using assms(4) m mirrors_put_perm [OF m assms(3)]
  by (auto simp: SetPermission_def Let_def split: sum.splits option.splits prod.splits dest: auth_put_Some dest!: auth_put_None [OF B])

lemma CreateGroup_mirrors:
  assumes B: "bolt_laws B cont" and m: "auth_mirrors L cont am" and "CreateGroup L B now name description members am = (am', r)"
  shows "auth_mirrors L cont am'"
  using assms(3) m mirrors_put_group [OF m, where g = "\<lparr>g_Name = name, g_Description = description, g_Members = members, g_CreatedAt = secs now\<rparr>"]
  by (auto simp: CreateGroup_def Let_def split: if_splits option.splits prod.splits dest: auth_put_Some dest!: auth_put_None [OF B])

lemma UpdateGroup_mirrors:
  assumes B: "bolt_laws B cont" and m: "auth_mirrors L cont am" and d: "UpdateGroup L B name description members am = (am', Inr grp)"
  shows "auth_mirrors L cont am'"
proof -
  obtain g where g: "map_of (am_groups am) name = Some g" using d by (auto simp: UpdateGroup_def split: option.splits)
  then have n: "g_Name g = name" using m by (simp add: auth_mirrors_def filed_def)
  let ?g = "g\<lparr>g_Description := description, g_Members := members\<rparr>"
  obtain db where a: "am' = am\<lparr>am_groups := AList.update name ?g (am_groups am), am_db := db\<rparr>"
    and c: "cont db = c_put ''auth_groups'' name (al_group L ?g) (cont (am_db am))"
    using d g by (auto simp: UpdateGroup_def Let_def split: option.splits prod.splits dest!: auth_put_None [OF B])
  have "am' = am\<lparr>am_db := db, am_groups := AList.update name ?g (am_groups am)\<rparr>" by (simp add: a)
  with mirrors_put_group [OF m, of db ?g] n c show ?thesis by simp
qed

lemma SetGroupPermission_mirrors:
  assumes B: "bolt_laws B cont" and m: "auth_mirrors L cont am" and "nosep (gp_GroupName p)" and "SetGroupPermission L B p am = (am', r)"
  shows "auth_mirrors L cont am'"
  using assms(4) m mirrors_put_gperm [OF m assms(3)]
  by (auto simp: SetGroupPermission_def Let_def split: if_splits option.splits prod.splits dest: auth_put_Some dest!: auth_put_None [OF B])

subsection \<open>A restart\<close>

text \<open>What the code reads of the tables, apart from the order in which it visits them.\<close>

definition same_tables :: "'tx AuthManager \<Rightarrow> 'tx AuthManager \<Rightarrow> bool" where
  "same_tables a b \<longleftrightarrow> map_of (am_users a) = map_of (am_users b) \<and> map_of (am_apiKeys a) = map_of (am_apiKeys b) \<and>
     (\<forall>n. set (entries (am_permissions a) n) = set (entries (am_permissions b) n)) \<and> map_of (am_groups a) = map_of (am_groups b) \<and>
     (\<forall>n. set (entries (am_groupPermissions a) n) = set (entries (am_groupPermissions b) n)) \<and>
     distinct (map fst (am_groups a)) \<and> distinct (map fst (am_groups b))"

lemma filed_maps:
  assumes "filed am"
  shows "map_of (am_users am) n = Some u \<longleftrightarrow> u \<in> users_of am \<and> u_Username u = n"
    "map_of (am_apiKeys am) n = Some k \<longleftrightarrow> k \<in> keys_of am \<and> k_KeyHash k = n"
    "map_of (am_groups am) n = Some g \<longleftrightarrow> g \<in> groups_of am \<and> g_Name g = n"
    "p \<in> set (entries (am_permissions am) n) \<longleftrightarrow> p \<in> perms_of am \<and> pm_Username p = n"
    "q \<in> set (entries (am_groupPermissions am) n) \<longleftrightarrow> q \<in> gperms_of am \<and> gp_GroupName q = n"
  using assms by (auto simp: filed_def of_defs)

lemma inj_on_filed: "inj_on name {x. m (name x) = Some x}"
proof (rule inj_onI)
  fix x y assume a: "x \<in> {x. m (name x) = Some x}" "y \<in> {x. m (name x) = Some x}" "name x = name y"
  from a(1) have "m (name y) = Some x" unfolding a(3) [symmetric] by (rule CollectD)
  moreover from a(2) have "m (name y) = Some y" by (rule CollectD)
  ultimately show "x = y" by simp
qed

lemma map_eqI: "(\<And>n x. m n = Some x \<longleftrightarrow> m' n = Some x) \<Longrightarrow> m = m'"
  by (rule ext) (metis not_None_eq)

sublocale auth_lib \<subseteq> user_codec: auth_entry_codec "al_user L" "al_get_user L"
  by unfold_locales (rule user)

sublocale auth_lib \<subseteq> key_codec: auth_entry_codec "al_key L" "al_get_key L"
  by unfold_locales (rule key)

sublocale auth_lib \<subseteq> perm_codec: auth_entry_codec "al_perm L" "al_get_perm L"
  by unfold_locales (rule perm)

sublocale auth_lib \<subseteq> group_codec: auth_entry_codec "al_group L" "al_get_group L"
  by unfold_locales (rule group)

sublocale auth_lib \<subseteq> gperm_codec: auth_entry_codec "al_gperm L" "al_get_gperm L"
  by unfold_locales (rule gperm)

context auth_lib
begin

lemma LoadAll_same:
  assumes B: "bolt_laws B cont" and m: "auth_mirrors L cont am" and db: "am_db new = am_db am"
  shows "same_tables (am_LoadAll L B new) am"
proof -
  let ?l = "am_LoadAll L B new"
  have h: "holds (cont (am_db new) ''auth_users'') user_key (al_user L) (users_of am)"
    "holds (cont (am_db new) ''auth_apikeys'') apikey_key (al_key L) (keys_of am)"
    "holds (cont (am_db new) ''auth_permissions'') pm_key (al_perm L) (perms_of am)"
    "holds (cont (am_db new) ''auth_groups'') g_Name (al_group L) (groups_of am)"
    "holds (cont (am_db new) ''auth_group_perms'') gp_key (al_gperm L) (gperms_of am)" and f: "filed am"
    using m by (simp_all add: auth_mirrors_def stored_def db)
  note r = user_codec.read_all_holds [OF B, OF h(1)] key_codec.read_all_holds [OF B, OF h(2)] perm_codec.read_all_holds [OF B, OF h(3)]
    group_codec.read_all_holds [OF B, OF h(4)] gperm_codec.read_all_holds [OF B, OF h(5)]
  have i: "inj_on u_Username (users_of am)" "inj_on k_KeyHash (keys_of am)" "inj_on g_Name (groups_of am)"
    by (simp_all add: of_defs inj_on_filed)
  have "map_of (am_users ?l) = map_of (am_users am)" "map_of (am_apiKeys ?l) = map_of (am_apiKeys am)" "map_of (am_groups ?l) = map_of (am_groups am)"
    using i by (auto intro!: map_eqI simp: am_LoadAll_def by_name_of r filed_maps [OF f])
  moreover have "set (entries (am_permissions ?l) n) = set (entries (am_permissions am) n)" for n
    by (auto simp: am_LoadAll_def entries_grouped r filed_maps [OF f])
  moreover have "set (entries (am_groupPermissions ?l) n) = set (entries (am_groupPermissions am) n)" for n
    by (auto simp: am_LoadAll_def entries_grouped r filed_maps [OF f])
  moreover have "distinct (map fst (am_groups ?l))" "distinct (map fst (am_groups am))"
    using f by (simp_all add: am_LoadAll_def by_name_distinct filed_def)
  ultimately show ?thesis by (simp add: same_tables_def)
qed

end

text \<open>Decisions read the tables only.\<close>

lemma same_tables_of:
  assumes "same_tables a b"
  shows "users_of a = users_of b" "keys_of a = keys_of b" "perms_of a = perms_of b" "groups_of a = groups_of b" "gperms_of a = gperms_of b"
  using assms by (simp_all add: same_tables_def of_defs)

lemma LoadAll_mirrors:
  assumes L: "auth_lib L" and B: "bolt_laws B cont" and m: "auth_mirrors L cont am" and db: "am_db new = am_db am"
  shows "auth_mirrors L cont (am_LoadAll L B new)"
proof -
  let ?l = "am_LoadAll L B new"
  have s: "same_tables ?l am" by (rule auth_lib.LoadAll_same [OF L B m db])
  have f: "filed am" using m by (simp add: auth_mirrors_def)
  have h: "holds (cont (am_db new) ''auth_group_perms'') gp_key (al_gperm L) (gperms_of am)"
    using m by (simp add: auth_mirrors_def stored_def db)
  have g: "auth_entry_codec (al_gperm L) (al_get_gperm L)" using L by (simp add: auth_entry_codec_def auth_lib.gperm)
  let ?q = "read_all B (al_get_gperm L) ''auth_group_perms'' (am_db new)"
  have r: "set ?q = gperms_of am" "distinct ?q" using auth_entry_codec.read_all_holds [OF g B, OF h] by simp_all
  have "distinct (map gp_Collection (entries (am_groupPermissions ?l) n))" for n
  proof -
    have "inj_on gp_Collection (set (filter (\<lambda>x. gp_GroupName x = n) ?q))"
      using holds_key [OF h] by (auto simp: r inj_on_def)
    then show ?thesis by (simp add: am_LoadAll_def entries_grouped distinct_map r)
  qed
  moreover have "p \<in> set (entries (am_permissions ?l) n) \<Longrightarrow> pm_Username p = n \<and> nosep n"
    "q \<in> set (entries (am_groupPermissions ?l) n) \<Longrightarrow> gp_GroupName q = n \<and> nosep n"
    "map_of (am_users ?l) n = Some u \<Longrightarrow> u_Username u = n" "map_of (am_apiKeys ?l) n = Some k \<Longrightarrow> k_KeyHash k = n"
    "map_of (am_groups ?l) n = Some g \<Longrightarrow> g_Name g = n" for p q u k g n
    using s f by (simp_all add: same_tables_def filed_def)
  ultimately have "filed ?l" using s unfolding filed_def same_tables_def by blast
  moreover have "am_db ?l = am_db am" by (simp add: am_LoadAll_def db)
  ultimately show ?thesis using m by (simp add: auth_mirrors_def stored_def same_tables_of [OF s])
qed

definition grants :: "'tx AuthManager \<Rightarrow> bytes \<Rightarrow> bytes \<Rightarrow> PermissionType \<Rightarrow> bool" where
  "grants am username collection operation \<longleftrightarrow>
     (\<exists>p \<in> set (entries (am_permissions am) username). pm_Collection p \<in> {collection, ''*''} \<and> HasPermission operation p) \<or>
     (\<exists>g \<in> set (map snd (am_groups am)). username \<in> set (g_Members g) \<and>
        (\<exists>q \<in> set (entries (am_groupPermissions am) (g_Name g)). gp_Collection q \<in> {collection, ''*''} \<and> gp_HasPermission operation q))"

definition tenant_allows :: "bytes \<Rightarrow> bytes \<Rightarrow> PermissionType \<Rightarrow> bool" where
  "tenant_allows tenant collection operation \<longleftrightarrow>
     tenant = [] \<or> (if collection = ''*'' then operation = PermRead else \<exists>name. name \<noteq> [] \<and> collection = tenant @ ''/'' @ name)"

lemma CollectionInTenant_iff: "tenant \<noteq> [] \<Longrightarrow> CollectionInTenant tenant collection \<longleftrightarrow> (\<exists>name. name \<noteq> [] \<and> collection = tenant @ ''/'' @ name)"
proof
  assume t: "tenant \<noteq> []" and "CollectionInTenant tenant collection"
  then have p: "take (length (tenant @ ''/'')) collection = tenant @ ''/''" "length collection > length tenant + 1"
    by (simp_all add: CollectionInTenant_def)
  have "collection = (tenant @ ''/'') @ drop (length (tenant @ ''/'')) collection" by (metis append_take_drop_id p(1))
  with p(2) show "\<exists>name. name \<noteq> [] \<and> collection = tenant @ ''/'' @ name"
    by (intro exI [of _ "drop (length (tenant @ ''/'')) collection"]) simp
qed (auto simp: CollectionInTenant_def)

lemma check_groups_iff: "check_groups u coll op gps gs \<longleftrightarrow> (\<exists>g \<in> set gs. u \<in> set (g_Members g) \<and>
    (\<exists>q \<in> set (entries gps (g_Name g)). gp_Collection q \<in> {coll, ''*''} \<and> gp_HasPermission op q))"
  by (induction gs) (auto simp: group_allows_def list_ex_iff)

lemma CheckPermission_iff:
  "CheckPermission ctx collection operation am = None \<longleftrightarrow>
     \<not> am_enabled am \<or>
     (\<exists>claims. ctx = Some claims \<and> tenant_allows (c_Tenant claims) collection operation \<and>
        (c_Admin claims \<or> grants am (c_Username claims) collection operation))"
proof (cases ctx)
  case (Some claims)
  have "(c_Tenant claims \<noteq> [] \<and> (if collection = ''*'' then operation \<noteq> PermRead else \<not> CollectionInTenant (c_Tenant claims) collection)) \<longleftrightarrow>
      \<not> tenant_allows (c_Tenant claims) collection operation"
    by (auto simp: tenant_allows_def CollectionInTenant_iff)
  moreover have "list_ex (\<lambda>p. pm_Collection p = collection \<and> HasPermission operation p) ps \<or> list_ex (\<lambda>p. pm_Collection p = ''*'' \<and> HasPermission operation p) ps \<longleftrightarrow>
      (\<exists>p \<in> set ps. pm_Collection p \<in> {collection, ''*''} \<and> HasPermission operation p)" for ps
    by (auto simp: list_ex_iff)
  ultimately show ?thesis unfolding CheckPermission_def grants_def Some check_groups_iff option.case Let_def by simp blast
qed (simp add: CheckPermission_def)

text \<open>C5: The access decision: with authentication off everything is permitted; with it on, a request
  without claims is unauthorized, and a caller with claims is permitted an operation exactly if its
  tenant allows the collection and it is a global administrator or holds a permission for the
  collection or for all collections, directly or through a group, and is forbidden it otherwise.\<close>

theorem access_decision:
  "CheckPermission ctx collection operation am =
     (if am_enabled am then
        (case ctx of None \<Rightarrow> Some ErrUnauthorized
         | Some claims \<Rightarrow>
             if tenant_allows (c_Tenant claims) collection operation \<and> (c_Admin claims \<or> grants am (c_Username claims) collection operation)
             then None else Some ErrForbidden)
      else None)"
proof (cases ctx)
  case (Some claims)
  have "CheckPermission (Some claims) collection operation am \<in> {None, Some ErrForbidden}"
    by (simp add: CheckPermission_def Let_def)
  then show ?thesis using CheckPermission_iff [of ctx collection operation am] Some by auto
qed (simp add: CheckPermission_def)

lemma same_grants:
  assumes "same_tables a b"
  shows "grants a = grants b"
proof -
  have "set (map snd (am_groups a)) = set (map snd (am_groups b))"
    using assms by (auto simp: same_tables_def values_of simp del: set_map)
  then show ?thesis using assms unfolding same_tables_def grants_def by (intro ext) simp
qed

lemma same_decisions:
  assumes s: "same_tables a b" and "am_enabled a = am_enabled b"
  shows "GetUser n a = GetUser n b" "Authenticate L n pw a = Authenticate L n pw b" "ValidateAPIKey now key a = ValidateAPIKey now key b"
    "UserTenant n a = UserTenant n b" "IsAdmin n a = IsAdmin n b"
    "CheckPermission ctx coll op a = None \<longleftrightarrow> CheckPermission ctx coll op b = None"
  using s assms(2) same_grants [OF s] unfolding CheckPermission_iff
  by (simp_all add: same_tables_def GetUser_def Authenticate_def ValidateAPIKey_def UserTenant_def IsAdmin_def list_ex_iff)


subsection \<open>Tenants\<close>

text \<open>Tokens with the secret's signature are those the server signed.\<close>

definition only_signed :: "auth_lib \<Rightarrow> bytes \<Rightarrow> bool" where
  "only_signed L secret \<longleftrightarrow>
     (\<forall>now tok c. al_parse L secret now tok = Some c \<longrightarrow> (\<exists>t u ten adm ex. c = tenant_claims t u ten adm ex))"

lemma check_token_Inr:
  "check_token L now tok am = Inr c \<longleftrightarrow> ValidateJWT L now tok (JWTSecret (am_config am)) = Inr c \<and>
     (\<exists>u. map_of (am_users am) (c_Username c) = Some u \<and> \<not> u_Disabled u)"
  by (auto simp: check_token_def GetUser_def split: sum.splits option.splits if_splits)

lemma HTTPMiddleware_Pass:
  "HTTPMiddleware L t server r am = (es, Pass (Some c)) \<Longrightarrow> \<exists>tok. check_token L (t 2) tok am = Inr c"
  by (auto simp: HTTPMiddleware_def Let_def split: if_splits sum.splits prod.splits)

lemma authenticateContext_Inr: "authenticateContext L t md am = Inr c \<Longrightarrow> \<exists>tok. check_token L (t 2) tok am = Inr c"
  by (auto simp: authenticateContext_def check_token_Inr GetUser_def Let_def split: option.splits sum.splits list.splits if_splits)

text \<open>The caller of a request that was let through: over HTTP or gRPC.\<close>

definition caller :: "auth_lib \<Rightarrow> 'tx AuthManager \<Rightarrow> JWTClaims \<Rightarrow> bool" where
  "caller L am c \<longleftrightarrow> (\<exists>t server r es. HTTPMiddleware L t server r am = (es, Pass (Some c))) \<or> (\<exists>t md. authenticateContext L t md am = Inr c)"

lemma caller_token: "caller L am c \<Longrightarrow> \<exists>now tok. check_token L now tok am = Inr c"
  using HTTPMiddleware_Pass authenticateContext_Inr unfolding caller_def by metis

lemma tenant_not_admin:
  assumes "only_signed L (JWTSecret (am_config am))" and "caller L am c" and "c_Tenant c \<noteq> []"
  shows "\<not> c_Admin c"
proof -
  obtain now tok where "al_parse L (JWTSecret (am_config am)) now tok = Some c"
    using caller_token [OF assms(2)] by (auto simp: check_token_Inr ValidateJWT_def split: if_splits option.splits)
  then obtain t u ten adm ex where "c = tenant_claims t u ten adm ex" using assms(1) unfolding only_signed_def by blast
  with assms(3) show ?thesis by (simp add: tenant_claims_def split: if_splits)
qed


subsection \<open>Deleted users\<close>

text \<open>A change of the manager, whatever its outcome.\<close>

inductive auth_op :: "auth_lib \<Rightarrow> 'tx bolt \<Rightarrow> 'tx AuthManager \<Rightarrow> 'tx AuthManager \<Rightarrow> bool" for L B am where
  create_user: "auth_op L B am (fst (CreateTenantUser L B now salt username password tenant am))"
| delete_user: "auth_op L B am (fst (DeleteUser L B username am))"
| create_key: "auth_op L B am (fst (CreateAPIKey L B now random username description expiresAt am))"
| delete_key: "auth_op L B am (fst (DeleteAPIKey B username keyHash am))"
| set_permission: "auth_op L B am (fst (SetPermission L B p am))"
| create_group: "auth_op L B am (fst (CreateGroup L B now name description members am))"
| update_group: "auth_op L B am (fst (UpdateGroup L B name description members am))"
| delete_group: "auth_op L B am (fst (DeleteGroup B name am))"
| set_group_permission: "auth_op L B am (fst (SetGroupPermission L B q am))"
| bootstrap: "auth_op L B am (fst (BootstrapAdmin L B now salt am))"

definition is_disabled :: "bytes \<Rightarrow> 'tx AuthManager \<Rightarrow> bool" where
  "is_disabled n am \<longleftrightarrow> (\<exists>u. map_of (am_users am) n = Some u \<and> u_Disabled u)"

lemma auth_put_frame: "auth_put B b k v am = (am1, r) \<Longrightarrow> am_users am1 = am_users am \<and> am_config am1 = am_config am"
  by (auto simp: auth_put_def DBUpdate_def split: option.splits)

lemma auth_delete_frame: "auth_delete B b k am = (am1, r) \<Longrightarrow> am_users am1 = am_users am \<and> am_config am1 = am_config am"
  by (auto simp: auth_delete_def DBUpdate_def split: option.splits)

lemma auth_put_users [simp]: "am_users (fst (auth_put B b k v am)) = am_users am"
  using auth_put_frame [OF prod.collapse [symmetric]] by blast

lemmas frames = auth_put_frame auth_delete_frame

lemma frame_ops:
  "am_users (fst (CreateAPIKey L B now random username description expiresAt am)) = am_users am"
  "am_users (fst (DeleteAPIKey B username keyHash am)) = am_users am"
  "am_users (fst (SetPermission L B p am)) = am_users am"
  "am_users (fst (CreateGroup L B now name description members am)) = am_users am"
  "am_users (fst (UpdateGroup L B name description members am)) = am_users am"
  "am_users (fst (DeleteGroup B name am)) = am_users am"
  "am_users (fst (SetGroupPermission L B q am)) = am_users am"
  by (auto simp: CreateAPIKey_def DeleteAPIKey_def SetPermission_def CreateGroup_def UpdateGroup_def DeleteGroup_def SetGroupPermission_def
      Let_def split: sum.split option.split prod.split outcome.split dest: frames)

lemma CreateTenantUser_disabled:
  assumes "is_disabled n am"
  shows "is_disabled n (fst (CreateTenantUser L B now salt username password tenant am))"
  using assms
  by (auto simp: is_disabled_def CreateTenantUser_def Let_def AList.update_conv' split: option.split prod.split dest: frames)

lemma auth_op_disabled:
  assumes "auth_op L B am am'" and d: "is_disabled n am"
  shows "is_disabled n am'"
  using assms(1)
proof cases
  case (bootstrap now salt)
  show ?thesis
  proof (cases "CreateUser L B now salt (AdminUsername (am_config am)) (AdminPassword (am_config am)) am")
    case (Pair am1 r)
    then have "is_disabled n am1" using CreateTenantUser_disabled [OF d] by (metis CreateUser_def fst_conv)
    then show ?thesis using d Pair
      by (auto simp: bootstrap BootstrapAdmin_def Let_def is_disabled_def frame_ops split: sum.split)
  qed
next
  case (delete_user username)
  then show ?thesis using d
    by (auto simp: is_disabled_def DeleteUser_def GetUser_def Let_def AList.update_conv' split: option.split)
qed (use d CreateTenantUser_disabled [OF d] in \<open>simp_all add: is_disabled_def frame_ops\<close>)

lemma disabled_locked:
  assumes "is_disabled n am"
  shows "\<not> (caller L am c \<and> c_Username c = n)" "Authenticate L n pw am = Inl ErrInvalidCredentials"
  using assms caller_token [of L am c] by (auto simp: is_disabled_def check_token_Inr Authenticate_def GetUser_def)

text \<open>C8: A deleted user stays out: from the deletion of a user on, even when it could not be
  stored, and through every later change of users, keys, permissions and groups, no request with a
  token or key of that user is let through and no password logs it in.\<close>

theorem deleted_user_stays_out:
  assumes "DeleteUser L B n am = (am1, r)" and "r \<noteq> Some ErrUserNotFound" and "(auth_op L B)\<^sup>*\<^sup>* am1 am2"
  shows "(\<forall>c. caller L am2 c \<longrightarrow> c_Username c \<noteq> n) \<and> (\<forall>pw. Authenticate L n pw am2 = Inl ErrInvalidCredentials)"
proof -
  have "is_disabled n am1"
    using assms(1,2) by (auto simp: is_disabled_def DeleteUser_def GetUser_def Let_def AList.update_conv' split: option.splits dest: frames)
  with assms(3) have "is_disabled n am2" by (induction rule: rtranclp_induct) (auto intro: auth_op_disabled)
  from disabled_locked [OF this] show ?thesis by blast
qed

text \<open>A deletion that could not be stored holds only until the next start: it reports an error
  and locks the user out, but the buckets still have the user enabled, and so has the manager that
  loads them.\<close>

theorem failed_delete_until_restart:
  assumes B: "bolt_laws B cont" and L: "auth_lib L" and m: "auth_mirrors L cont am"
    and d: "DeleteUser L B n am = (am', Some err)" and u: "map_of (am_users am) n = Some u" and "\<not> u_Disabled u"
    and new: "am_db new = am_db am'"
  shows "(\<forall>pw. Authenticate L n pw am' = Inl ErrInvalidCredentials) \<and>
    Authenticate L n pw (am_LoadAll L B new) = (if al_verify L pw (u_PasswordHash u) then Inr u else Inl ErrInvalidCredentials)"
proof -
  have db: "am' = am\<lparr>am_users := AList.update n (u\<lparr>u_Disabled := True\<rparr>) (am_users am)\<rparr>"
    using d u by (auto simp: DeleteUser_def GetUser_def Let_def dest: auth_put_Some)
  then have "is_disabled n am'" by (simp add: is_disabled_def AList.update_conv')
  then have "\<forall>pw. Authenticate L n pw am' = Inl ErrInvalidCredentials" by (simp add: disabled_locked(2))
  moreover have "same_tables (am_LoadAll L B new) am" using auth_lib.LoadAll_same [OF L B m] new by (simp add: db)
  then have "map_of (am_users (am_LoadAll L B new)) n = Some u" using u by (simp add: same_tables_def)
  then have "Authenticate L n pw (am_LoadAll L B new) = (if al_verify L pw (u_PasswordHash u) then Inr u else Inl ErrInvalidCredentials)"
    using assms(6) by (simp add: Authenticate_def GetUser_def)
  ultimately show ?thesis by blast
qed

subsection \<open>Administrators and group deletion\<close>

text \<open>A permission to administer one collection makes a global administrator: an API key of a user
  without tenant who holds it for any collection gets a token with the administrator flag, which
  \<open>CheckPermission\<close> accepts for every operation on every collection, and with which the user may
  change the permissions of everybody.\<close>

theorem collection_admin_is_global:
  assumes L: "auth_lib L" and p: "p \<in> set (entries (am_permissions am) n)" "pm_Admin p"
    and u: "map_of (am_users am) n = Some u" "\<not> u_Disabled u" "u_Tenant u = []"
    and k: "ValidateAPIKey (t 0) key am = Inr n"
    and s: "al_sign L (JWTSecret (am_config am)) (tenant_claims (t 1) n [] True 3600000000000) = Some tok"
    and t: "t 2 < secs (t 1 + 3600000000000) * 1000000000"
  shows "\<exists>c. authenticateContext L t (Some ([], [key])) am = Inr c \<and> c_Username c = n \<and>
    (\<forall>collection operation. CheckPermission (Some c) collection operation am = None) \<and>
    (\<forall>B r q. rq_Method r = ''POST'' \<longrightarrow> handleAuthPermissions L B (Some c) r (Some q) [] am =
        (case SetPermission L B q am of (am1, Some _) \<Rightarrow> (am1, Denied 500) | (am1, None) \<Rightarrow> (am1, DoneOk)))"
proof -
  let ?c = "tenant_claims (t 1) n [] True 3600000000000"
  have "IsAdmin n am" using p by (auto simp: IsAdmin_def list_ex_iff)
  then have tok: "key_token L (t 1) n am = Inr tok"
    using u s by (simp add: key_token_def GenerateTenantJWT_def UserTenant_def)
  have "tok \<noteq> []" "al_hmac L tok" using auth_lib.signed [OF L s] by simp_all
  moreover have "al_parse L (JWTSecret (am_config am)) (t 2) tok = Some ?c"
    by (rule auth_lib.parsed [OF L s]) (use t in \<open>simp add: tenant_claims_def\<close>)
  ultimately have "authenticateContext L t (Some ([], [key])) am = Inr ?c"
    using u by (simp add: authenticateContext_def k tok ValidateJWT_def GetUser_def tenant_claims_def del: One_nat_def)
  then show ?thesis
    by (intro exI [of _ ?c]) (simp add: CheckPermission_iff tenant_allows_def handleAuthPermissions_def is_admin_def tenant_claims_def)
qed

text \<open>A group whose permissions are followed in the bucket by a key shorter than its own prefix
  cannot be deleted: the comparison of the loop slices that key beyond its end and panics, and
  nothing changes.\<close>

theorem delete_group_crashes:
  assumes B: "bolt_laws B cont" and g: "map_of (am_groups am) name \<noteq> None"
    and k: "cont (am_db am) ''auth_group_perms'' k \<noteq> None" "name @ ''|'' \<le> k" "length k \<le> length name"
    and first: "\<And>k'. cont (am_db am) ''auth_group_perms'' k' \<noteq> None \<Longrightarrow> name @ ''|'' \<le> k' \<Longrightarrow> \<not> prefix (name @ ''|'') k' \<Longrightarrow> k \<le> k'"
  shows "DeleteGroup B name am = (am, Panic)"
proof -
  let ?p = "name @ ''|''"
  obtain tx1 where t1: "bk_delete B ''auth_groups'' name (am_db am) = Some tx1" using bolt_laws.delete_ok [OF B] by fastforce
  have c: "cont tx1 ''auth_group_perms'' = cont (am_db am) ''auth_group_perms''"
    using bolt_laws.delete_law [OF B t1] by (simp add: c_delete_def)
  let ?ks = "map fst (bk_scan B ''auth_group_perms'' [] tx1)"
  have s: "set ?ks = {k. cont (am_db am) ''auth_group_perms'' k \<noteq> None}" using bolt_laws.scan_keys [OF B, of "''auth_group_perms''" "[]" tx1] by (simp add: c)
  have np: "\<not> prefix ?p k" using k(3) prefix_length_le [of ?p k] by auto
  let ?f = "filter (\<lambda>k. ?p \<le> k \<and> take (length ?p) k \<noteq> ?p) ?ks"
  have kf: "k \<in> set ?f" using k np s by (simp add: take_prefix_iff del: set_map length_append)
  then have "?f \<noteq> []" by (metis empty_iff list.set(1))
  then obtain k0 rest where f: "?f = k0 # rest" by (meson neq_Nil_conv)
  have sorted: "sorted ?ks" using bolt_laws.scan_sorted [OF B] by (simp add: strict_sorted_iff)
  then have "sorted ?f" by (rule sorted_wrt_filter)
  then have "\<forall>x \<in> set rest. k0 \<le> x" unfolding f by simp
  moreover have "k = k0 \<or> k \<in> set rest" using kf unfolding f by (rule set_ConsD)
  ultimately have "k0 \<le> k" by blast
  moreover have "k \<le> k0"
  proof (rule first)
    have "k0 \<in> set ?f" unfolding f by simp
    then show "cont (am_db am) ''auth_group_perms'' k0 \<noteq> None" "?p \<le> k0" "\<not> prefix ?p k0" using s by (simp_all add: take_prefix_iff del: set_map length_append)
  qed
  ultimately have stop: "group_stop B ?p tx1 = Some k" using f unfolding group_stop_def by simp
  have "\<exists>tx2. delete_keys B b ks tx = Some tx2" for b ks tx
    using bolt_laws.delete_ok [OF B] by (induction ks arbitrary: tx) (auto split: option.split)
  then obtain tx2 where "delete_keys B ''auth_group_perms'' (bk_walk B ''auth_group_perms'' ?p tx1) tx1 = Some tx2" by blast
  then show ?thesis using g k(3) stop by (auto simp: DeleteGroup_def delete_group_txn_def t1)
qed

text \<open>C24: The life of an API key: a created key gives its user until it expires and touches no other
  key; nobody else can delete it, and once its user has, it is unknown.\<close>

theorem api_key_lifecycle:
  assumes c: "CreateAPIKey L B now random username description expiresAt am = (am1, Inr key)"
  shows "ValidateAPIKey later key am1 = (if expiresAt \<noteq> 0 \<and> secs later > expiresAt then Inl ErrAPIKeyExpired else Inr username) \<and>
    (\<forall>other. HashAPIKey other \<noteq> HashAPIKey key \<longrightarrow> ValidateAPIKey later other am1 = ValidateAPIKey later other am) \<and>
    (\<forall>u. u \<noteq> username \<longrightarrow> DeleteAPIKey B u (HashAPIKey key) am1 = (am1, Some ErrForbidden)) \<and>
    (\<forall>am2. DeleteAPIKey B username (HashAPIKey key) am1 = (am2, None) \<longrightarrow> ValidateAPIKey later key am2 = Inl ErrAPIKeyNotFound)"
proof -
  have f: "auth_put B b k v am = (x, r) \<Longrightarrow> am_apiKeys x = am_apiKeys am" "auth_delete B b k y = (x, r) \<Longrightarrow> am_apiKeys x = am_apiKeys y" for b k v x y r
    by (auto simp: auth_put_def auth_delete_def DBUpdate_def split: option.splits)
  let ?k = "\<lparr>k_KeyHash = HashAPIKey key, k_Username = username, k_CreatedAt = secs now, k_ExpiresAt = expiresAt, k_Description = description\<rparr>"
  have m: "map_of (am_apiKeys am1) = (map_of (am_apiKeys am))(HashAPIKey key \<mapsto> ?k)"
    using c by (auto simp: CreateAPIKey_def Let_def AList.update_conv' split: sum.splits option.splits prod.splits dest: f)
  have "ValidateAPIKey later key am2 = Inl ErrAPIKeyNotFound" if "DeleteAPIKey B username (HashAPIKey key) am1 = (am2, None)" for am2
    using that m by (auto simp: DeleteAPIKey_def ValidateAPIKey_def AList.delete_conv' split: option.splits prod.splits if_splits dest: f)
  then show ?thesis by (auto simp: ValidateAPIKey_def DeleteAPIKey_def m IsExpired_def)
qed

subsection \<open>A library for examples\<close>

text \<open>Fields with their length in unary in front.\<close>

fun pack :: "bytes list \<Rightarrow> bytes" where
  "pack [] = []"
| "pack (b # bs) = replicate (length b) CHR ''1'' @ CHR ''0'' # b @ pack bs"

fun unpack :: "nat \<Rightarrow> bytes \<Rightarrow> bytes list" where
  "unpack 0 s = []"
| "unpack (Suc n) s = (let k = length (takeWhile (\<lambda>c. c = CHR ''1'') s); r = drop (Suc k) s in take k r # unpack n (drop k r))"

lemma takeWhile_replicate_stop: "takeWhile (\<lambda>c. c = x) (replicate n x @ y # r) = (if y = x then replicate n x @ x # takeWhile (\<lambda>c. c = x) r else replicate n x)"
  by (induction n) auto

lemma unpack_pack [simp]: "length bs = n \<Longrightarrow> unpack n (pack bs) = bs"
  by (induction bs arbitrary: n) (auto simp: takeWhile_replicate_stop Let_def)

definition put_int :: "int \<Rightarrow> bytes" where "put_int i = (if i < 0 then CHR ''-'' else CHR ''+'') # dec_nat (nat \<bar>i\<bar>)"
definition get_int :: "bytes \<Rightarrow> int" where "get_int b = (if hd b = CHR ''-'' then - int (dec_val (tl b)) else int (dec_val (tl b)))"
definition put_bool :: "bool \<Rightarrow> bytes" where "put_bool p = (if p then ''1'' else ''0'')"
definition get_bool :: "bytes \<Rightarrow> bool" where "get_bool b \<longleftrightarrow> b = ''1''"

lemma get_put [simp]: "get_int (put_int i) = i" "get_bool (put_bool p) = p"
  by (simp_all add: get_int_def put_int_def get_bool_def put_bool_def)

definition get_claims :: "bytes list \<Rightarrow> JWTClaims" where
  "get_claims f = \<lparr>c_Username = f ! 1, c_Admin = get_bool (f ! 2), c_Tenant = f ! 3, c_IssuedAt = get_int (f ! 4), c_ExpiresAt = get_int (f ! 5)\<rparr>"

definition put_claims :: "bytes \<Rightarrow> JWTClaims \<Rightarrow> bytes" where
  "put_claims secret c = pack [secret, c_Username c, put_bool (c_Admin c), c_Tenant c, put_int (c_IssuedAt c), put_int (c_ExpiresAt c)]"

definition demo_lib :: auth_lib where
  "demo_lib = \<lparr>
     al_user = (\<lambda>u. pack [u_Username u, u_PasswordHash u, put_int (u_CreatedAt u), put_bool (u_Disabled u), u_Tenant u]),
     al_get_user = (\<lambda>b. let f = unpack 5 b in Some \<lparr>u_Username = f ! 0, u_PasswordHash = f ! 1, u_CreatedAt = get_int (f ! 2),
       u_Disabled = get_bool (f ! 3), u_Tenant = f ! 4\<rparr>),
     al_key = (\<lambda>k. pack [k_KeyHash k, k_Username k, put_int (k_CreatedAt k), put_int (k_ExpiresAt k), k_Description k]),
     al_get_key = (\<lambda>b. let f = unpack 5 b in Some \<lparr>k_KeyHash = f ! 0, k_Username = f ! 1, k_CreatedAt = get_int (f ! 2),
       k_ExpiresAt = get_int (f ! 3), k_Description = f ! 4\<rparr>),
     al_perm = (\<lambda>p. pack [pm_Username p, pm_Collection p, put_bool (pm_Read p), put_bool (pm_Write p), put_bool (pm_Admin p)]),
     al_get_perm = (\<lambda>b. let f = unpack 5 b in Some \<lparr>pm_Username = f ! 0, pm_Collection = f ! 1, pm_Read = get_bool (f ! 2),
       pm_Write = get_bool (f ! 3), pm_Admin = get_bool (f ! 4)\<rparr>),
     al_group = (\<lambda>g. pack [g_Name g, g_Description g, put_int (g_CreatedAt g), put_int (int (length (g_Members g))), pack (g_Members g)]),
     al_get_group = (\<lambda>b. let f = unpack 5 b in Some \<lparr>g_Name = f ! 0, g_Description = f ! 1,
       g_Members = unpack (nat (get_int (f ! 3))) (f ! 4), g_CreatedAt = get_int (f ! 2)\<rparr>),
     al_gperm = (\<lambda>q. pack [gp_GroupName q, gp_Collection q, put_bool (gp_Read q), put_bool (gp_Write q), put_bool (gp_Admin q)]),
     al_get_gperm = (\<lambda>b. let f = unpack 5 b in Some \<lparr>gp_GroupName = f ! 0, gp_Collection = f ! 1, gp_Read = get_bool (f ! 2),
       gp_Write = get_bool (f ! 3), gp_Admin = get_bool (f ! 4)\<rparr>),
     al_hash = (\<lambda>salt pw. Some pw), al_verify = (\<lambda>pw h. pw = h),
     al_sign = (\<lambda>secret c. if c_Tenant c \<noteq> [] \<and> c_Admin c then None else Some (put_claims secret c)),
     al_hmac = (\<lambda>tok. True),
     al_parse = (\<lambda>secret now tok. let c = get_claims (unpack 6 tok) in
       if tok = put_claims secret c \<and> \<not> (c_Tenant c \<noteq> [] \<and> c_Admin c) \<and> now < c_ExpiresAt c * 1000000000 then Some c else None)\<rparr>"

lemma get_put_claims [simp]: "get_claims (unpack 6 (put_claims secret c)) = c"
  by (simp add: get_claims_def put_claims_def del: pack.simps)

interpretation demo_lib: auth_lib demo_lib
proof
  show "al_sign demo_lib secret c = Some tok \<Longrightarrow> tok \<noteq> [] \<and> al_hmac demo_lib tok" for secret c tok
    by (auto simp: demo_lib_def put_claims_def split: if_splits)
  show "al_sign demo_lib secret c = Some tok \<Longrightarrow> now < c_ExpiresAt c * 1000000000 \<Longrightarrow> al_parse demo_lib secret now tok = Some c" for secret c tok now
    by (auto simp: demo_lib_def Let_def split: if_splits)
qed (simp_all add: demo_lib_def Let_def del: pack.simps)

lemma demo_only_signed: "only_signed demo_lib secret"
proof -
  have "\<exists>t u ten adm ex. c = tenant_claims t u ten adm ex" if "c_Tenant c = [] \<or> \<not> c_Admin c" for c
    by (rule exI [of _ "c_IssuedAt c * 1000000000"], rule exI [of _ "c_Username c"], rule exI [of _ "c_Tenant c"], rule exI [of _ "c_Admin c"],
        rule exI [of _ "(c_ExpiresAt c - c_IssuedAt c) * 1000000000"]) (use that in \<open>auto simp: tenant_claims_def secs_def algebra_simps\<close>)
  then show ?thesis by (auto simp: only_signed_def demo_lib_def Let_def split: if_splits)
qed

subsection \<open>Witnesses\<close>

definition demo_config :: AuthConfig where
  "demo_config = \<lparr>JWTSecret = ''s'', JWTExpiry = 3600000000000, AdminUsername = ''root'', AdminPassword = ''pw''\<rparr>"

definition demo_auth :: "mem_db \<Rightarrow> bytes \<Rightarrow> mem_db AuthManager" where
  "demo_auth db tenant = (NewAuthManager db demo_config [])\<lparr>
     am_users := [(''ann'', \<lparr>u_Username = ''ann'', u_PasswordHash = ''pw'', u_CreatedAt = 0, u_Disabled = False, u_Tenant = tenant\<rparr>)],
     am_apiKeys := [(HashAPIKey ''k'', \<lparr>k_KeyHash = HashAPIKey ''k'', k_Username = ''ann'', k_CreatedAt = 0, k_ExpiresAt = 0, k_Description = []\<rparr>)],
     am_permissions := [(''ann'', [\<lparr>pm_Username = ''ann'', pm_Collection = ''blog'', pm_Read = True, pm_Write = True, pm_Admin = True\<rparr>])],
     am_groups := [(''team'', \<lparr>g_Name = ''team'', g_Description = [], g_Members = [''ann''], g_CreatedAt = 0\<rparr>)]\<rparr>"

lemma demo_sign: "c_Tenant c = [] \<or> \<not> c_Admin c \<Longrightarrow> al_sign demo_lib secret c = Some (put_claims secret c)"
  by (simp add: demo_lib_def)

lemma fresh_mirrors: "auth_mirrors demo_lib mem_contents (NewAuthManager [] demo_config [])"
  by (simp add: auth_mirrors_def filed_def stored_def holds_def of_defs NewAuthManager_def entries_def mem_contents_def mem_bucket_def)

definition ann_made :: "mem_db AuthManager" where
  "ann_made = fst (CreateTenantUser demo_lib mem_bolt 0 [] ''ann'' ''pw'' ''acme'' (NewAuthManager [] demo_config []))"

lemma ann_made_mirrors: "auth_mirrors demo_lib mem_contents ann_made"
  unfolding ann_made_def by (rule CreateTenantUser_mirrors [OF mem.bolt_laws_axioms fresh_mirrors prod.collapse [symmetric]])

lemma ann_made_user: "map_of (am_users ann_made) ''ann'' =
    Some \<lparr>u_Username = ''ann'', u_PasswordHash = ''pw'', u_CreatedAt = 0, u_Disabled = False, u_Tenant = ''acme''\<rparr>" "am_enabled ann_made"
  by (simp_all add: ann_made_def CreateTenantUser_def NewAuthManager_def ValidTenantName_def tenant_char_def demo_lib_def auth_put_def DBUpdate_def
      mem_bolt_def secs_def Let_def)


lemma demo_caller: "caller demo_lib (demo_auth db ''acme'') (tenant_claims 0 ''ann'' ''acme'' True 3600000000000)"
proof -
  let ?c = "tenant_claims 0 ''ann'' ''acme'' True 3600000000000"
  have "key_token demo_lib 0 ''ann'' (demo_auth db ''acme'') = Inr (put_claims ''s'' ?c)"
    by (simp add: key_token_def GenerateTenantJWT_def demo_sign tenant_claims_def UserTenant_def IsAdmin_def demo_auth_def NewAuthManager_def demo_config_def entries_def)
  moreover have "put_claims ''s'' ?c \<noteq> []" by (simp add: put_claims_def)
  moreover have "al_parse demo_lib ''s'' 0 (put_claims ''s'' ?c) = Some ?c"
    by (simp add: demo_lib_def tenant_claims_def secs_def Let_def)
  ultimately have "authenticateContext demo_lib (\<lambda>_. 0) (Some ([], [''k''])) (demo_auth db ''acme'') = Inr ?c"
    by (simp add: authenticateContext_def ValidateAPIKey_def ValidateJWT_def GetUser_def IsExpired_def demo_auth_def NewAuthManager_def demo_config_def
        tenant_claims_def) (simp add: demo_lib_def)
  then show ?thesis unfolding caller_def by blast
qed


lemma deleted_user_stays_out_witness:
  "\<exists>am1 am2. DeleteUser demo_lib mem_bolt ''ann'' (demo_auth [] []) = (am1, None) \<and>
     am2 = fst (CreateTenantUser demo_lib mem_bolt 0 [] ''ann'' ''new'' [] am1) \<and> Authenticate demo_lib ''ann'' ''new'' am2 = Inl ErrInvalidCredentials"
proof -
  have "snd (DeleteUser demo_lib mem_bolt ''ann'' (demo_auth [] [])) = None"
    by (simp add: DeleteUser_def GetUser_def demo_auth_def NewAuthManager_def auth_put_def DBUpdate_def mem_bolt_def Let_def)
  then obtain am1 where d: "DeleteUser demo_lib mem_bolt ''ann'' (demo_auth [] []) = (am1, None)" by (metis prod.collapse)
  have "(auth_op demo_lib mem_bolt)\<^sup>*\<^sup>* am1 (fst (CreateTenantUser demo_lib mem_bolt 0 [] ''ann'' ''new'' [] am1))"
    by (rule r_into_rtranclp, rule auth_op.create_user)
  from deleted_user_stays_out [OF d _ this] d show ?thesis by blast
qed

lemma failing_laws: "bolt_laws (mem_bolt\<lparr>bk_commit := \<lambda>_. None\<rparr>) mem_contents"
  using mem.bolt_laws_axioms by (simp add: bolt_laws_def)

lemma failed_delete_until_restart_witness:
  "\<exists>am' err. DeleteUser demo_lib (mem_bolt\<lparr>bk_commit := \<lambda>_. None\<rparr>) ''ann'' ann_made = (am', Some err) \<and>
     Authenticate demo_lib ''ann'' ''pw'' am' = Inl ErrInvalidCredentials \<and>
     is_ok (case Authenticate demo_lib ''ann'' ''pw'' (am_LoadAll demo_lib (mem_bolt\<lparr>bk_commit := \<lambda>_. None\<rparr>) (NewAuthManager (am_db am') demo_config [])) of
       Inl e \<Rightarrow> Err e | Inr u \<Rightarrow> Ok u)"
proof -
  let ?B = "mem_bolt\<lparr>bk_commit := \<lambda>_. None\<rparr>"
  have "snd (DeleteUser demo_lib ?B ''ann'' ann_made) \<noteq> None"
    by (simp add: DeleteUser_def GetUser_def ann_made_user auth_put_def DBUpdate_def Let_def split: option.split)
  then obtain am' err where d: "DeleteUser demo_lib ?B ''ann'' ann_made = (am', Some err)" by (metis not_None_eq prod.collapse)
  have "al_verify demo_lib ''pw'' ''pw''" by (simp add: demo_lib_def)
  with failed_delete_until_restart [OF failing_laws demo_lib.auth_lib_axioms ann_made_mirrors d ann_made_user(1), of "NewAuthManager (am_db am') demo_config []" "''pw''"]
    d show ?thesis by (simp add: NewAuthManager_def)
qed

lemma collection_admin_is_global_witness:
  "\<exists>c. authenticateContext demo_lib (\<lambda>_. 0) (Some ([], [''k''])) (demo_auth [] []) = Inr c \<and> CheckPermission (Some c) ''payroll'' PermWrite (demo_auth [] []) = None"
proof -
  let ?c = "tenant_claims 0 ''ann'' [] True 3600000000000"
  have p: "\<lparr>pm_Username = ''ann'', pm_Collection = ''blog'', pm_Read = True, pm_Write = True, pm_Admin = True\<rparr> \<in> set (entries (am_permissions (demo_auth [] [])) ''ann'')"
    by (simp add: demo_auth_def NewAuthManager_def entries_def)
  have s: "al_sign demo_lib (JWTSecret (am_config (demo_auth [] []))) ?c = Some (put_claims ''s'' ?c)"
    by (simp add: demo_sign tenant_claims_def demo_auth_def NewAuthManager_def demo_config_def)
  have u: "map_of (am_users (demo_auth [] [])) ''ann'' = Some \<lparr>u_Username = ''ann'', u_PasswordHash = ''pw'', u_CreatedAt = 0, u_Disabled = False, u_Tenant = []\<rparr>"
    "ValidateAPIKey 0 ''k'' (demo_auth [] []) = Inr ''ann''"
    by (simp_all add: demo_auth_def NewAuthManager_def ValidateAPIKey_def IsExpired_def)
  show ?thesis
    using collection_admin_is_global [OF demo_lib.auth_lib_axioms p _ u(1) _ _ _ s, where key = "''k''"] u(2) by (auto simp: secs_def)
qed

lemma delete_group_crashes_witness:
  "DeleteGroup mem_bolt ''team'' (demo_auth [(''auth_group_perms'', [(''z|*'', [])])] []) = (demo_auth [(''auth_group_perms'', [(''z|*'', [])])] [], Panic)"
  by (rule delete_group_crashes [OF mem.bolt_laws_axioms, of _ _ "''z|*''"])
    (auto simp: demo_auth_def NewAuthManager_def mem_contents_def mem_bucket_def split: if_splits)

lemma api_key_lifecycle_witness:
  "\<exists>am1 key. CreateAPIKey demo_lib mem_bolt 0 (Some ''r'') ''ann'' [] 5 (demo_auth [] []) = (am1, Inr key) \<and>
     ValidateAPIKey 5000000000 key am1 = Inr ''ann'' \<and> ValidateAPIKey 6000000000 key am1 = Inl ErrAPIKeyExpired"
proof -
  have "\<exists>am1. CreateAPIKey demo_lib mem_bolt 0 (Some ''r'') ''ann'' [] 5 (demo_auth [] []) = (am1, Inr (''mddb_live_'' @ hex_encode ''r''))"
    by (simp add: CreateAPIKey_def GetUser_def GenerateAPIKey_def demo_auth_def NewAuthManager_def auth_put_def DBUpdate_def mem_bolt_def
        HashAPIKey_def Let_def del: hex_encode.simps)
  then obtain am1 where c: "CreateAPIKey demo_lib mem_bolt 0 (Some ''r'') ''ann'' [] 5 (demo_auth [] []) = (am1, Inr (''mddb_live_'' @ hex_encode ''r''))" ..
  from api_key_lifecycle [OF c, of 5000000000] api_key_lifecycle [OF c, of 6000000000] c show ?thesis
    by (intro exI [of _ am1] exI [of _ "''mddb_live_'' @ hex_encode ''r''"]) (simp add: secs_def del: hex_encode.simps)
qed

end
