(* ===== verification/Rate_Limit.thy ===== *)
theory Rate_Limit
  imports Auth_Front
begin

section \<open>The rate limiter\<close>

text \<open>
  Models \<^verbatim>\<open>ratelimit.go\<close> and its place in front of authentication in
  \<^verbatim>\<open>main.go\<close>.  Times are nanoseconds; durations wrap at 64 bits as Go's do.  The map of
  buckets is a function.  A request is granted or refused; the headers of the answer are part of
  the result, the event for the incident webhook is an effect.
\<close>

subsection \<open>State\<close>

record rlBucket =
  rb_count :: int
  rb_windowAt :: int

record RateLimiter =
  rl_enabled :: bool
  rl_limit :: int
  rl_window :: int
  rl_burst :: int
  rl_by :: bytes
  rl_clients :: "bytes \<rightharpoonup> rlBucket"
  rl_cleanupAt :: int
  rl_exempt :: "bytes list"
  rl_onReject :: bool

text \<open>\<^verbatim>\<open>strconv.Atoi\<close> with its error dropped: the nearest 64-bit value when the number is
  out of range, otherwise 0.\<close>

definition Atoi_value :: "bytes \<Rightarrow> int" where
  "Atoi_value s =
     (case Atoi s of Some n \<Rightarrow> n
      | None \<Rightarrow>
          let (neg, ds) = (case s of [] \<Rightarrow> (False, [])
                           | c # r \<Rightarrow> if c = CHR ''-'' then (True, r) else if c = CHR ''+'' then (False, r) else (False, s))
          in if ds = [] \<or> \<not> list_all is_digit ds then 0 else if neg then - (2 ^ 63) else 2 ^ 63 - 1)"

definition zero_time :: int where "zero_time = - 62135596800000000000"

definition NewRateLimiter :: "(bytes \<Rightarrow> bytes) \<Rightarrow> RateLimiter" where
  "NewRateLimiter getenv =
     (let rl = \<lparr>rl_enabled = getenv ''MDDB_RATE_LIMIT_ENABLED'' = ''true'', rl_limit = 0, rl_window = 0, rl_burst = 0, rl_by = [],
                rl_clients = Map.empty, rl_cleanupAt = zero_time, rl_exempt = [''/health'', ''/v1/health'', ''/metrics''], rl_onReject = False\<rparr>
      in if \<not> rl_enabled rl then rl
         else let limit = Atoi_value (getenv ''MDDB_RATE_LIMIT_REQUESTS'');
                  windowSec = Atoi_value (getenv ''MDDB_RATE_LIMIT_WINDOW'');
                  windowSec = (if windowSec \<le> 0 then 60 else windowSec);
                  v = getenv ''MDDB_RATE_LIMIT_BURST''
              in rl\<lparr>rl_limit := if limit \<le> 0 then 100 else limit,
                    rl_window := wrap64 (windowSec * 1000000000),
                    rl_burst := if v = [] then 50 else (case Atoi v of None \<Rightarrow> 50 | Some n \<Rightarrow> if n < 0 then 50 else n),
                    rl_by := if getenv ''MDDB_RATE_LIMIT_BY'' \<noteq> ''user'' then ''ip'' else ''user''\<rparr>)"

definition rl_SetWebhookManager :: "bool \<Rightarrow> RateLimiter \<Rightarrow> RateLimiter" where
  "rl_SetWebhookManager wm rl = (if \<not> wm then rl else rl\<lparr>rl_onReject := True\<rparr>)"

subsection \<open>Accounting\<close>

definition rl_cleanup :: "int \<Rightarrow> RateLimiter \<Rightarrow> RateLimiter" where
  "rl_cleanup now rl =
     (if now > rl_cleanupAt rl then
        rl\<lparr>rl_clients := (\<lambda>k. case rl_clients rl k of None \<Rightarrow> None | Some b \<Rightarrow> if now > rb_windowAt b then None else Some b),
           rl_cleanupAt := now + wrap64 (rl_window rl * 2)\<rparr>
      else rl)"

definition effective :: "RateLimiter \<Rightarrow> int" where
  "effective rl = wrap64 (rl_limit rl + rl_burst rl)"

text \<open>The result is the remaining budget, the second at which the window ends, and the answer.\<close>

definition allow :: "int \<Rightarrow> bytes \<Rightarrow> RateLimiter \<Rightarrow> RateLimiter \<times> int \<times> int \<times> bool" where
  "allow now clientID rl =
     (let rl1 = rl_cleanup now rl;
          fresh = \<lparr>rb_count = 0, rb_windowAt = now + rl_window rl1\<rparr>;
          bucket = (case rl_clients rl1 clientID of None \<Rightarrow> fresh | Some b \<Rightarrow> if now > rb_windowAt b then fresh else b);
          bucket' = bucket\<lparr>rb_count := rb_count bucket + 1\<rparr>;
          remaining = wrap64 (effective rl1 - rb_count bucket')
      in (rl1\<lparr>rl_clients := (rl_clients rl1)(clientID \<mapsto> bucket')\<rparr>, if remaining < 0 then 0 else remaining,
          secs (rb_windowAt bucket'), rb_count bucket' \<le> effective rl1))"

subsection \<open>HTTP and gRPC\<close>

definition rl_httpClientID :: "JWTClaims option \<Rightarrow> request \<Rightarrow> RateLimiter \<Rightarrow> bytes" where
  "rl_httpClientID ctx r rl =
     (case ctx of
        Some claims \<Rightarrow> if rl_by rl = ''user'' \<and> c_Username claims \<noteq> [] then ''user:'' @ c_Username claims else ''ip:'' @ ClientIP r
      | None \<Rightarrow> ''ip:'' @ ClientIP r)"

datatype rate_effect = RateLimitExceeded bytes bytes

record rate_headers =
  rh_Limit :: int
  rh_Remaining :: int
  rh_Reset :: int

text \<open>\<open>Granted\<close> passes the request on; \<open>Limited\<close> answers 429 with the seconds of \<^verbatim>\<open>Retry-After\<close>.\<close>

datatype rate_answer = Granted | Limited int

definition rl_HTTPMiddleware :: "(nat \<Rightarrow> int) \<Rightarrow> JWTClaims option \<Rightarrow> request \<Rightarrow> RateLimiter \<Rightarrow>
    RateLimiter \<times> rate_headers option \<times> rate_effect list \<times> rate_answer" where
  "rl_HTTPMiddleware t ctx r rl =
     (if \<not> rl_enabled rl \<or> rq_Path r \<in> set (rl_exempt rl) then (rl, None, [], Granted)
      else let i = rl_httpClientID ctx r rl
      in case allow (t 0) i rl of (rl1, remaining, resetAt, allowed) \<Rightarrow>
        let h = Some \<lparr>rh_Limit = effective rl, rh_Remaining = remaining, rh_Reset = resetAt\<rparr>
        in if allowed then (rl1, h, [], Granted)
           else (rl1, h, if rl_onReject rl1 then [RateLimitExceeded i ''http''] else [],
                 Limited (if resetAt - secs (t 1) < 1 then 1 else resetAt - secs (t 1))))"

text \<open>The peer is the address of the connection, if it has one.\<close>

definition grpcPeerIP :: "bytes option \<Rightarrow> bytes" where
  "grpcPeerIP peer =
     (case peer of None \<Rightarrow> ''unknown''
      | Some addr \<Rightarrow>
          let host = rev (tl (dropWhile (\<lambda>c. c \<noteq> CHR '':'') (rev addr)))
          in if CHR '':'' \<in> set addr \<and> length host > 0 \<and> take 1 addr \<noteq> ''/'' then host else addr)"

definition grpcClientID :: "JWTClaims option \<Rightarrow> bytes option \<Rightarrow> bytes \<Rightarrow> bytes" where
  "grpcClientID ctx peer mode =
     (case ctx of
        Some claims \<Rightarrow> if mode = ''user'' \<and> c_Username claims \<noteq> [] then ''user:'' @ c_Username claims else ''ip:'' @ grpcPeerIP peer
      | None \<Rightarrow> ''ip:'' @ grpcPeerIP peer)"

definition rl_Interceptor :: "bytes \<Rightarrow> int \<Rightarrow> JWTClaims option \<Rightarrow> bytes option \<Rightarrow> RateLimiter \<Rightarrow> RateLimiter \<times> rate_effect list \<times> bool" where
  "rl_Interceptor transport now ctx peer rl =
     (if \<not> rl_enabled rl then (rl, [], True)
      else let i = grpcClientID ctx peer (rl_by rl)
      in case allow now i rl of (rl1, _, _, allowed) \<Rightarrow>
           if allowed then (rl1, [], True) else (rl1, if rl_onReject rl1 then [RateLimitExceeded i transport] else [], False))"

definition rl_UnaryInterceptor :: "int \<Rightarrow> JWTClaims option \<Rightarrow> bytes option \<Rightarrow> RateLimiter \<Rightarrow> RateLimiter \<times> rate_effect list \<times> bool" where
  "rl_UnaryInterceptor = rl_Interceptor ''grpc''"

definition rl_StreamInterceptor :: "int \<Rightarrow> JWTClaims option \<Rightarrow> bytes option \<Rightarrow> RateLimiter \<Rightarrow> RateLimiter \<times> rate_effect list \<times> bool" where
  "rl_StreamInterceptor = rl_Interceptor ''grpc-stream''"

subsection \<open>The chain in front of the handlers\<close>

text \<open>The limiter wraps authentication, so it runs first, in the context of the bare request; the
  interceptors of gRPC are chained in the same order.\<close>

datatype front = RateLimited int | NotAuthenticated nat | Handled "JWTClaims option"

definition http_chain :: "auth_lib \<Rightarrow> (nat \<Rightarrow> int) \<Rightarrow> audit_sinks option \<Rightarrow> request \<Rightarrow> RateLimiter \<Rightarrow> 'tx AuthManager option \<Rightarrow>
    RateLimiter \<times> audit_effect list \<times> front" where
  "http_chain L t server r rl auth =
     (case rl_HTTPMiddleware t None r rl of
        (rl1, _, _, Limited n) \<Rightarrow> (rl1, [], RateLimited n)
      | (rl1, _, _, Granted) \<Rightarrow>
          (case auth of None \<Rightarrow> (rl1, [], Handled None)
           | Some am \<Rightarrow>
               (case HTTPMiddleware L (\<lambda>i. t (i + 2)) server r am of
                  (es, Refuse code) \<Rightarrow> (rl1, es, NotAuthenticated code) | (es, Pass ctx) \<Rightarrow> (rl1, es, Handled ctx))))"

definition grpc_chain :: "auth_lib \<Rightarrow> (nat \<Rightarrow> int) \<Rightarrow> (bytes list \<times> bytes list) option \<Rightarrow> bytes option \<Rightarrow> RateLimiter \<Rightarrow> 'tx AuthManager option \<Rightarrow>
    RateLimiter \<times> (grpc_refusal option + JWTClaims option)" where
  "grpc_chain L t md peer rl auth =
     (case rl_UnaryInterceptor (t 0) None peer rl of
        (rl1, _, False) \<Rightarrow> (rl1, Inl None)
      | (rl1, _, True) \<Rightarrow>
          (case auth of None \<Rightarrow> (rl1, Inr None)
           | Some am \<Rightarrow> (rl1, map_sum Some id (GRPCUnaryInterceptor L (\<lambda>i. t (i + 1)) md am))))"

subsection \<open>One client at a time\<close>

text \<open>The budget of a single client: a bucket that is renewed when its window is over.\<close>

definition renew :: "int \<Rightarrow> int \<Rightarrow> rlBucket option \<Rightarrow> rlBucket" where
  "renew w t b =
     (let fresh = \<lparr>rb_count = 0, rb_windowAt = t + w\<rparr>
      in case b of None \<Rightarrow> fresh | Some x \<Rightarrow> if t > rb_windowAt x then fresh else x)"

fun quota :: "int \<Rightarrow> int \<Rightarrow> rlBucket option \<Rightarrow> int list \<Rightarrow> bool list" where
  "quota n w b [] = []"
| "quota n w b (t # ts) =
     (let x = renew w t b in (rb_count x + 1 \<le> n) # quota n w (Some (x\<lparr>rb_count := rb_count x + 1\<rparr>)) ts)"

text \<open>The answers a client gets in a sequence of calls of all clients.\<close>

fun answers :: "bytes \<Rightarrow> (int \<times> bytes) list \<Rightarrow> RateLimiter \<Rightarrow> bool list" where
  "answers i [] rl = []"
| "answers i ((t, j) # cs) rl =
     (case allow t j rl of (rl', _, _, ok) \<Rightarrow> (if j = i then [ok] else []) @ answers i cs rl')"

definition times_of :: "bytes \<Rightarrow> (int \<times> bytes) list \<Rightarrow> int list" where
  "times_of i cs = map fst (filter (\<lambda>c. snd c = i) cs)"

definition live :: "int \<Rightarrow> rlBucket option \<Rightarrow> rlBucket option" where
  "live t b = (case b of None \<Rightarrow> None | Some x \<Rightarrow> if t > rb_windowAt x then None else Some x)"

lemma renew_live: "renew w t (live t b) = renew w t b"
  by (simp add: renew_def live_def split: option.split)

lemma live_later: "live t b = live t b' \<Longrightarrow> t \<le> t' \<Longrightarrow> live t' b = live t' b'"
  by (auto simp: live_def split: option.splits if_splits)

lemma quota_live:
  assumes "live t b = live t b'" and "\<forall>t' \<in> set ts. t \<le> t'"
  shows "quota n w b ts = quota n w b' ts"
proof (cases ts)
  case (Cons t' ts')
  with assms(2) have "t \<le> t'" by simp
  with assms(1) have "live t' b = live t' b'" by (rule live_later)
  then have "renew w t' b = renew w t' b'" by (subst (1 2) renew_live [symmetric]) (rule arg_cong)
  with Cons show ?thesis by simp
qed simp

lemma allow_renew: "allow t j rl =
    (let rl1 = rl_cleanup t rl; x = renew (rl_window rl1) t (rl_clients rl1 j); b = x\<lparr>rb_count := rb_count x + 1\<rparr>;
         remaining = wrap64 (effective rl1 - rb_count b)
     in (rl1\<lparr>rl_clients := (rl_clients rl1)(j \<mapsto> b)\<rparr>, if remaining < 0 then 0 else remaining,
         secs (rb_windowAt b), rb_count b \<le> effective rl1))"
  unfolding allow_def renew_def Let_def by (rule refl)

lemma allow_parts:
  assumes "allow t j rl = (rl', rem, reset, ok)"
  shows "rl_window rl' = rl_window rl" "effective rl' = effective rl"
    "j \<noteq> i \<Longrightarrow> live t (rl_clients rl' i) = live t (rl_clients rl i)"
    "ok \<longleftrightarrow> rb_count (renew (rl_window rl) t (rl_clients rl j)) + 1 \<le> effective rl"
    "rl_clients rl' j = Some (let x = renew (rl_window rl) t (rl_clients rl j) in x\<lparr>rb_count := rb_count x + 1\<rparr>)"
proof -
  have c: "rl_window (rl_cleanup t rl) = rl_window rl" "effective (rl_cleanup t rl) = effective rl"
    "live t (rl_clients (rl_cleanup t rl) k) = live t (rl_clients rl k)" for k
    by (auto simp: rl_cleanup_def effective_def live_def split: option.splits)
  then have r: "renew (rl_window rl) t (rl_clients (rl_cleanup t rl) j) = renew (rl_window rl) t (rl_clients rl j)"
    using renew_live [of "rl_window rl" t "rl_clients (rl_cleanup t rl) j"] renew_live [of "rl_window rl" t "rl_clients rl j"] c(3) [of j] by simp
  let ?x = "renew (rl_window rl) t (rl_clients rl j)"
  have "rl' = (rl_cleanup t rl)\<lparr>rl_clients := (rl_clients (rl_cleanup t rl))(j \<mapsto> ?x\<lparr>rb_count := rb_count ?x + 1\<rparr>)\<rparr>"
    "ok \<longleftrightarrow> rb_count ?x + 1 \<le> effective rl"
    using assms unfolding allow_renew c(1,2) r Let_def by simp_all
  with c show "rl_window rl' = rl_window rl" "effective rl' = effective rl" "j \<noteq> i \<Longrightarrow> live t (rl_clients rl' i) = live t (rl_clients rl i)"
    "ok \<longleftrightarrow> rb_count (renew (rl_window rl) t (rl_clients rl j)) + 1 \<le> effective rl"
    "rl_clients rl' j = Some (let x = renew (rl_window rl) t (rl_clients rl j) in x\<lparr>rb_count := rb_count x + 1\<rparr>)"
    by (simp_all add: effective_def Let_def)
qed

lemma answers_quota:
  assumes "sorted (map fst cs)"
  shows "answers i cs rl = quota (effective rl) (rl_window rl) (rl_clients rl i) (times_of i cs)"
  using assms
proof (induction cs arbitrary: rl)
  case Nil
  show ?case by (simp add: times_of_def)
next
  case (Cons c cs)
  obtain t j where c: "c = (t, j)" by fastforce
  obtain rl' rm rs ok where a: "allow t j rl = (rl', rm, rs, ok)" by (cases "allow t j rl")
  note A = allow_parts [OF a]
  have IH: "answers i cs rl' = quota (effective rl) (rl_window rl) (rl_clients rl' i) (times_of i cs)"
    using Cons by (simp add: A(1,2))
  show ?case
  proof (cases "j = i")
    case True
    have "answers i (c # cs) rl = ok # answers i cs rl'" using True a by (simp add: c)
    then show ?thesis using True IH A(4,5) by (simp add: c times_of_def Let_def)
  next
    case False
    have "quota n w (rl_clients rl' i) (times_of i cs) = quota n w (rl_clients rl i) (times_of i cs)" for n w
      by (rule quota_live [OF A(3) [OF False]]) (use Cons.prems in \<open>auto simp: c times_of_def\<close>)
    with IH False show ?thesis by (simp add: c a times_of_def)
  qed
qed

subsection \<open>The bounds of the budget\<close>

definition granted :: "bool list \<Rightarrow> int" where "granted bs = int (length (filter (\<lambda>b. b) bs))"

lemma granted_simps [simp]:
  "granted [] = 0" "granted (b # bs) = (if b then 1 else 0) + granted bs" "granted (replicate k True) = int k"
  by (simp_all add: granted_def)

lemma quota_window:
  assumes "\<forall>t \<in> set ts. t \<le> rb_windowAt x" and "0 \<le> n"
  shows "granted (quota n w (Some x) ts) \<le> max 0 (n - rb_count x)"
  using assms(1)
proof (induction ts arbitrary: x)
  case (Cons t ts)
  then have r: "renew w t (Some x) = x" by (simp add: renew_def)
  have "granted (quota n w (Some (x\<lparr>rb_count := rb_count x + 1\<rparr>)) ts) \<le> max 0 (n - (rb_count x + 1))"
    using Cons.IH [of "x\<lparr>rb_count := rb_count x + 1\<rparr>"] Cons.prems by simp
  then show ?case by (auto simp: r max_def split: if_splits)
qed (use assms(2) in simp)

lemma quota_interval:
  assumes "sorted ts" and "\<forall>t \<in> set ts. t0 \<le> t \<and> t \<le> t0 + w" and n: "0 \<le> n" and "\<forall>x. b = Some x \<longrightarrow> 0 \<le> rb_count x"
  shows "granted (quota n w b ts) \<le> (case b of None \<Rightarrow> n | Some x \<Rightarrow> max 0 (n - rb_count x) + n)"
  using assms(1,2,4)
proof (induction ts arbitrary: b)
  case (Cons t ts)
  let ?x = "renew w t b"
  let ?y = "?x\<lparr>rb_count := rb_count ?x + 1\<rparr>"
  show ?case
  proof (cases "\<exists>x. b = Some x \<and> t \<le> rb_windowAt x")
    case True
    then obtain x where b: "b = Some x" "renew w t (Some x) = x" by (auto simp: renew_def)
    have "granted (quota n w (Some ?y) ts) \<le> max 0 (n - (rb_count x + 1)) + n"
      using Cons.IH [of "Some ?y"] Cons.prems b by auto
    then show ?thesis using n by (auto simp: b max_def split: if_splits)
  next
    case False
    then have x: "?x = \<lparr>rb_count = 0, rb_windowAt = t + w\<rparr>" by (auto simp: renew_def Let_def split: option.split)
    have "\<forall>t' \<in> set ts. t' \<le> rb_windowAt ?y" using Cons.prems(2) by (fastforce simp: x)
    from quota_window [OF this n, of w] have "granted (quota n w (Some ?y) ts) \<le> max 0 (n - 1)" by (simp add: x)
    then have "granted (quota n w b (t # ts)) \<le> n" using n by (auto simp: x max_def split: if_splits)
    then show ?thesis using n by (auto split: option.split)
  qed
qed (use n in \<open>simp split: option.split\<close>)

lemma quota_first:
  assumes "\<forall>t \<in> set ts. t \<le> rb_windowAt x" and "rb_count x + int (length ts) \<le> n"
  shows "quota n w (Some x) (ts @ us) = replicate (length ts) True @ quota n w (Some (x\<lparr>rb_count := rb_count x + int (length ts)\<rparr>)) us"
  using assms
proof (induction ts arbitrary: x)
  case (Cons t ts)
  then have "renew w t (Some x) = x" by (simp add: renew_def)
  with Cons.IH [of "x\<lparr>rb_count := rb_count x + 1\<rparr>"] Cons.prems show ?case by (simp add: algebra_simps)
qed simp

lemma quota_fits:
  assumes "sorted ts" and "\<forall>t \<in> set ts. t \<le> t0 + w" and "\<forall>t \<in> set ts. t0 \<le> t" and "int (length ts) \<le> n"
  shows "quota n w None ts = replicate (length ts) True"
proof (cases ts)
  case (Cons t ts')
  have "\<forall>u \<in> set ts'. u \<le> t + w" using assms(2,3) Cons by fastforce
  with quota_first [of ts' "\<lparr>rb_count = 1, rb_windowAt = t + w\<rparr>" n w "[]"] assms(4) Cons
  show ?thesis by (simp add: renew_def Let_def)
qed simp


definition demo_limiter :: RateLimiter where
  "demo_limiter = NewRateLimiter (\<lambda>k. if k = ''MDDB_RATE_LIMIT_ENABLED'' then ''true'' else if k = ''MDDB_RATE_LIMIT_REQUESTS'' then ''2''
     else if k = ''MDDB_RATE_LIMIT_BURST'' then ''0'' else if k = ''MDDB_RATE_LIMIT_BY'' then ''user'' else [])"

lemma demo_limiter_values: "rl_enabled demo_limiter" "rl_window demo_limiter = 60000000000" "effective demo_limiter = 2"
  "rl_by demo_limiter = ''user''"
  by code_simp+

lemma demo_limiter_clients [simp]: "rl_clients demo_limiter = Map.empty"
  by (simp add: demo_limiter_def NewRateLimiter_def Let_def)


text \<open>The window is not sliding.  A client with no bucket that calls once and then, when its
  window is about to end, uses up its budget, is granted a whole second budget one nanosecond
  later: twice limit plus burst in all, all but one of them within a nanosecond.
\<close>

theorem not_a_sliding_window:
  assumes "effective rl = int (Suc n)" and "0 < rl_window rl" and "rl_clients rl i = None"
  shows "answers i ((t, i) # replicate n (t + rl_window rl, i) @ replicate (Suc n) (t + rl_window rl + 1, i)) rl =
    replicate (2 * Suc n) True"
proof -
  let ?w = "rl_window rl"
  let ?cs = "(t, i) # replicate n (t + ?w, i) @ replicate (Suc n) (t + ?w + 1, i)"
  have ts: "times_of i ?cs = t # replicate n (t + ?w) @ (t + ?w + 1) # replicate n (t + ?w + 1)"
    by (simp add: times_of_def)
  have s: "sorted (map fst ?cs)" using assms(2) by (auto simp: sorted_append)
  let ?x = "\<lparr>rb_count = 1, rb_windowAt = t + ?w\<rparr>" and ?y = "\<lparr>rb_count = 1, rb_windowAt = t + ?w + 1 + ?w\<rparr>"
  have "quota (int (Suc n)) ?w (Some ?x) (replicate n (t + ?w) @ us) =
      replicate n True @ quota (int (Suc n)) ?w (Some (?x\<lparr>rb_count := 1 + int n\<rparr>)) us" for us
    using quota_first [of "replicate n (t + ?w)" ?x "int (Suc n)" ?w us] by simp
  moreover have "quota (int (Suc n)) ?w (Some ?y) (replicate n (t + ?w + 1)) = replicate n True"
    using quota_first [of "replicate n (t + ?w + 1)" ?y "int (Suc n)" ?w "[]"] assms(2) by simp
  moreover have "replicate n True @ True # replicate n True = True # replicate (2 * n) True"
    by (simp add: replicate_app_Cons_same mult_2 replicate_add)
  ultimately show ?thesis
    unfolding answers_quota [OF s] ts assms(1,3) by (simp add: renew_def Let_def)
qed

theorem not_a_sliding_window_witness:
  "answers ''ip:a'' [(0, ''ip:a''), (60000000000, ''ip:a''), (60000000001, ''ip:a''), (60000000001, ''ip:a'')] demo_limiter =
   [True, True, True, True]"
  using not_a_sliding_window [of demo_limiter 1 "''ip:a''" 0] by (simp add: demo_limiter_values numeral_2_eq_2)

text \<open>Limiting by user has no effect.  With \<^verbatim>\<open>MDDB_RATE_LIMIT_BY=user\<close> or without, every
  request over HTTP or gRPC is answered alike, and the limiter's state stays the same but for that
  setting: the limiter runs before authentication, so there is never a user to limit by.
\<close>

theorem user_limit_is_by_address:
  "http_chain L t server r (rl\<lparr>rl_by := mode\<rparr>) auth =
     (case http_chain L t server r rl auth of (rl', res) \<Rightarrow> (rl'\<lparr>rl_by := mode\<rparr>, res)) \<and>
   grpc_chain L t md peer (rl\<lparr>rl_by := mode\<rparr>) auth =
     (case grpc_chain L t md peer rl auth of (rl', res) \<Rightarrow> (rl'\<lparr>rl_by := mode\<rparr>, res))"
proof -
  have e: "effective (rl\<lparr>rl_by := mode\<rparr>) = effective rl" by (simp add: effective_def)
  have c: "rl_cleanup n (rl\<lparr>rl_by := mode\<rparr>) = (rl_cleanup n rl)\<lparr>rl_by := mode\<rparr>" for n
    by (simp add: rl_cleanup_def)
  have a: "allow n i (rl\<lparr>rl_by := mode\<rparr>) = (case allow n i rl of (rl', res) \<Rightarrow> (rl'\<lparr>rl_by := mode\<rparr>, res))" for n i
    by (simp add: allow_renew c Let_def effective_def)
  show ?thesis
    by (auto simp: http_chain_def grpc_chain_def rl_HTTPMiddleware_def rl_UnaryInterceptor_def rl_Interceptor_def
      rl_httpClientID_def grpcClientID_def a e Let_def split: prod.splits option.splits if_splits rate_answer.splits middleware.splits)
qed

end
