(* ===== verification/Fts_Index.thy ===== *)
theory Fts_Index
  imports Document_Ops Query_Expr Embedding_Codec
begin

section \<open>The inverted index of the full-text search\<close>

text \<open>
  Models the index side of \<^verbatim>\<open>internal/fts/fts.go\<close>, \<^verbatim>\<open>fts_bm25.go\<close>,
  \<^verbatim>\<open>fts_positions.go\<close> and \<^verbatim>\<open>fts_language.go\<close>: tokenizers, postings, the statistics of
  the BM25 ranking, the fields of BM25F and the positional index.  A text is the list of runes that
  ranging over it yields; the tables of the package \<^verbatim>\<open>unicode\<close> are parameters.  A stemmer is a
  field of the code's language configuration and here a function in it, a set of stop words a
  predicate; language codes are ASCII.  A Go map is an association list whose order stands for that of one iteration.  The
  buckets exist from the start (\<^verbatim>\<open>EnsureBuckets\<close>), so the branches for a missing bucket are
  left out.
\<close>

subsection \<open>Words and terms\<close>

record text_tables =
  tt_letter :: "rune \<Rightarrow> bool"
  tt_digit :: "rune \<Rightarrow> bool"
  tt_lower :: "rune \<Rightarrow> rune"

text \<open>\<^verbatim>\<open>strings.Builder.WriteRune\<close>.\<close>

definition utf8 :: "rune \<Rightarrow> bytes" where
  "utf8 r =
     (if r < 128 then [char_of r]
      else if r < 2048 then [char_of (192 + r div 64), char_of (128 + r mod 64)]
      else if 1114111 < r \<or> 55296 \<le> r \<and> r \<le> 57343 then [CHR 0xEF, CHR 0xBF, CHR 0xBD]
      else if r < 65536 then [char_of (224 + r div 4096), char_of (128 + r div 64 mod 64), char_of (128 + r mod 64)]
      else [char_of (240 + r div 262144), char_of (128 + r div 4096 mod 64), char_of (128 + r div 64 mod 64), char_of (128 + r mod 64)])"

record LanguageConfig =
  lc_Stemmer :: "(bytes \<Rightarrow> bytes) option"
  lc_StopWords :: "bytes \<Rightarrow> bool"

record LangRegistry =
  lr_langs :: "(bytes \<times> LanguageConfig) list"
  lr_defaultLang :: bytes

definition NewLangRegistry :: "bytes \<Rightarrow> LangRegistry" where
  "NewLangRegistry defaultLang = \<lparr>lr_langs = [], lr_defaultLang = if defaultLang = [] then ''en'' else defaultLang\<rparr>"

definition lr_Register :: "bytes \<Rightarrow> LanguageConfig \<Rightarrow> LangRegistry \<Rightarrow> LangRegistry" where
  "lr_Register code cfg r = r\<lparr>lr_langs := AList.update code cfg (lr_langs r)\<rparr>"

definition lr_Resolve :: "bytes \<Rightarrow> LangRegistry \<Rightarrow> LanguageConfig option" where
  "lr_Resolve lang r =
     (if lang = [] then map_of (lr_langs r) (lr_defaultLang r)
      else case map_of (lr_langs r) lang of Some cfg \<Rightarrow> Some cfg
      | None \<Rightarrow>
          let cut = takeWhile (\<lambda>c. c \<noteq> CHR ''_'' \<and> c \<noteq> CHR ''-'') lang;
              primary = map lower_byte (if cut = [] then lang else cut)
          in (case map_of (lr_langs r) primary of Some cfg \<Rightarrow> Some cfg | None \<Rightarrow> map_of (lr_langs r) (lr_defaultLang r)))"

text \<open>The words of a text: maximal runs of letters and digits, of two bytes or more.\<close>

definition word_done :: "bytes \<Rightarrow> bytes list" where
  "word_done w = (if length w \<ge> 2 then [w] else [])"

fun words_loop :: "text_tables \<Rightarrow> bytes \<Rightarrow> ustring \<Rightarrow> bytes list" where
  "words_loop U w [] = word_done w"
| "words_loop U w (r # rs) =
     (if tt_letter U r \<or> tt_digit U r then words_loop U (w @ utf8 r) rs else word_done w @ words_loop U [] rs)"

definition words_of :: "text_tables \<Rightarrow> ustring \<Rightarrow> bytes list" where
  "words_of U text = words_loop U [] (map (tt_lower U) text)"

definition term_of_word :: "LanguageConfig \<Rightarrow> bytes \<Rightarrow> bytes option" where
  "term_of_word lg w =
     (if lc_StopWords lg w then None else Some (case lc_Stemmer lg of None \<Rightarrow> w | Some stem \<Rightarrow> stem w))"

definition count_term :: "bytes \<Rightarrow> (bytes \<times> nat) list \<Rightarrow> (bytes \<times> nat) list" where
  "count_term t terms = AList.update t (case map_of terms t of None \<Rightarrow> 1 | Some n \<Rightarrow> n + 1) terms"

definition count_terms :: "LanguageConfig \<Rightarrow> bytes list \<Rightarrow> (bytes \<times> nat) list" where
  "count_terms lg ws = fold count_term (List.map_filter (term_of_word lg) ws) []"

text \<open>A position is the number of words before, stop words included.\<close>

fun place_terms :: "LanguageConfig \<Rightarrow> u32 \<Rightarrow> bytes list \<Rightarrow> (bytes \<times> u32 list) list \<Rightarrow> (bytes \<times> u32 list) list" where
  "place_terms lg pos [] m = m"
| "place_terms lg pos (w # ws) m =
     place_terms lg (pos + 1) ws
       (case term_of_word lg w of None \<Rightarrow> m
        | Some t \<Rightarrow> AList.update t ((case map_of m t of None \<Rightarrow> [] | Some ps \<Rightarrow> ps) @ [pos]) m)"

subsection \<open>The index\<close>

record 'tx FTSIndex =
  fx_db :: 'tx
  fx_lang :: LanguageConfig
  fx_registry :: "LangRegistry option"
  fx_binlog :: "Binlog option"
  fx_trained :: "(bytes \<rightharpoonup> bool) option"

definition resolveLang :: "bytes \<Rightarrow> 'tx FTSIndex \<Rightarrow> LanguageConfig" where
  "resolveLang lang f =
     (case fx_registry f of None \<Rightarrow> fx_lang f
      | Some r \<Rightarrow>
          if lang = [] then fx_lang f
          else (case lr_Resolve lang r of None \<Rightarrow> fx_lang f | Some cfg \<Rightarrow> cfg))"

definition fx_Tokenize :: "text_tables \<Rightarrow> ustring \<Rightarrow> 'tx FTSIndex \<Rightarrow> (bytes \<times> nat) list" where
  "fx_Tokenize U text f = count_terms (fx_lang f) (words_of U text)"

definition fx_TokenizeLang :: "text_tables \<Rightarrow> ustring \<Rightarrow> bytes \<Rightarrow> 'tx FTSIndex \<Rightarrow> (bytes \<times> nat) list" where
  "fx_TokenizeLang U text lang f = count_terms (resolveLang lang f) (words_of U text)"

definition fx_TokenizePositions :: "text_tables \<Rightarrow> ustring \<Rightarrow> 'tx FTSIndex \<Rightarrow> (bytes \<times> u32 list) list" where
  "fx_TokenizePositions U text f = place_terms (fx_lang f) 0 (words_of U text) []"

definition fx_TokenizePositionsLang :: "text_tables \<Rightarrow> ustring \<Rightarrow> bytes \<Rightarrow> 'tx FTSIndex \<Rightarrow> (bytes \<times> u32 list) list" where
  "fx_TokenizePositionsLang U text lang f = place_terms (resolveLang lang f) 0 (words_of U text) []"

definition tokenizeOrdered :: "text_tables \<Rightarrow> ustring \<Rightarrow> 'tx FTSIndex \<Rightarrow> bytes list" where
  "tokenizeOrdered U text f = List.map_filter (term_of_word (fx_lang f)) (words_of U text)"

definition InvalidatePMI :: "bytes \<Rightarrow> 'tx FTSIndex \<Rightarrow> 'tx FTSIndex" where
  "InvalidatePMI coll f =
     (case fx_trained f of None \<Rightarrow> f
      | Some m \<Rightarrow> (case m coll of None \<Rightarrow> f | Some _ \<Rightarrow> f\<lparr>fx_trained := Some (m(coll \<mapsto> False))\<rparr>))"

subsection \<open>Keys\<close>

definition ftsKey :: "bytes \<Rightarrow> bytes \<Rightarrow> bytes \<Rightarrow> bytes" where
  "ftsKey coll t docID = ''fts|'' @ coll @ ''|'' @ t @ ''|'' @ docID"

definition ftsRevKey :: "bytes \<Rightarrow> bytes \<Rightarrow> bytes" where "ftsRevKey coll docID = ''ftsrev|'' @ coll @ ''|'' @ docID"
definition ftsMetaKey :: "bytes \<Rightarrow> bytes \<Rightarrow> bytes" where "ftsMetaKey coll docID = ''ftsmeta|'' @ coll @ ''|'' @ docID"
definition ftsStatKey :: "bytes \<Rightarrow> bytes" where "ftsStatKey coll = ''ftsstat|'' @ coll"

definition ftsfKey :: "bytes \<Rightarrow> bytes \<Rightarrow> bytes \<Rightarrow> bytes \<Rightarrow> bytes" where
  "ftsfKey coll field t docID = ''ftsf|'' @ coll @ ''|'' @ field @ ''|'' @ t @ ''|'' @ docID"

definition ftsfMetaKey :: "bytes \<Rightarrow> bytes \<Rightarrow> bytes \<Rightarrow> bytes" where
  "ftsfMetaKey coll field docID = ''ftsfmeta|'' @ coll @ ''|'' @ field @ ''|'' @ docID"

definition ftsfStatKey :: "bytes \<Rightarrow> bytes \<Rightarrow> bytes" where "ftsfStatKey coll field = ''ftsfstat|'' @ coll @ ''|'' @ field"
definition ftsfRevKey :: "bytes \<Rightarrow> bytes \<Rightarrow> bytes" where "ftsfRevKey coll docID = ''ftsfrev|'' @ coll @ ''|'' @ docID"
definition ftspKey :: "bytes \<Rightarrow> bytes \<Rightarrow> bytes \<Rightarrow> bytes" where
  "ftspKey coll t docID = ''ftsp|'' @ coll @ ''|'' @ t @ ''|'' @ docID"
definition ftspRevKey :: "bytes \<Rightarrow> bytes \<Rightarrow> bytes" where "ftspRevKey coll docID = ''ftsprev|'' @ coll @ ''|'' @ docID"

text \<open>\<^verbatim>\<open>strings.Join\<close> and \<^verbatim>\<open>strings.Split\<close> at a comma.\<close>

fun join_comma :: "bytes list \<Rightarrow> bytes" where
  "join_comma [] = []"
| "join_comma [t] = t"
| "join_comma (t # ts) = t @ '','' @ join_comma ts"

fun split_comma :: "bytes \<Rightarrow> bytes \<Rightarrow> bytes list" where
  "split_comma w [] = [w]"
| "split_comma w (c # cs) = (if c = CHR '','' then w # split_comma [] cs else split_comma (w @ [c]) cs)"

subsection \<open>Statistics\<close>

record collectionStats =
  cs_TotalDocs :: u32
  cs_TotalTerms :: u64

definition encodeCollectionStats :: "collectionStats \<Rightarrow> bytes" where
  "encodeCollectionStats s = le32 (cs_TotalDocs s) @ le64 (cs_TotalTerms s)"

definition decodeCollectionStats :: "bytes \<Rightarrow> collectionStats" where
  "decodeCollectionStats b =
     (if length b < 12 then \<lparr>cs_TotalDocs = 0, cs_TotalTerms = 0\<rparr>
      else \<lparr>cs_TotalDocs = get_le32 b, cs_TotalTerms = get_le64 (drop 4 b)\<rparr>)"

definition read_stats :: "'tx bolt \<Rightarrow> bytes \<Rightarrow> bytes \<Rightarrow> 'tx \<Rightarrow> collectionStats" where
  "read_stats B b k tx =
     (case bk_get B b k tx of None \<Rightarrow> \<lparr>cs_TotalDocs = 0, cs_TotalTerms = 0\<rparr> | Some raw \<Rightarrow> decodeCollectionStats raw)"

definition stats_minus :: "u32 \<Rightarrow> collectionStats \<Rightarrow> collectionStats" where
  "stats_minus docLength s =
     \<lparr>cs_TotalDocs = if cs_TotalDocs s > 0 then cs_TotalDocs s - 1 else cs_TotalDocs s,
      cs_TotalTerms = if cs_TotalTerms s \<ge> ucast docLength then cs_TotalTerms s - ucast docLength else 0\<rparr>"

text \<open>A put whose error ends the transaction and which is not recorded for the binlog.\<close>

definition put_plain :: "'tx bolt \<Rightarrow> bytes \<Rightarrow> bytes \<Rightarrow> bytes \<Rightarrow> 'tx \<Rightarrow> op_error + 'tx" where
  "put_plain B b k v tx = (case bk_put B b k v tx of None \<Rightarrow> Inl PutError | Some tx' \<Rightarrow> Inr tx')"

definition del_plain :: "'tx bolt \<Rightarrow> bytes \<Rightarrow> bytes \<Rightarrow> 'tx \<Rightarrow> op_error + 'tx" where
  "del_plain B b k tx = (case bk_delete B b k tx of None \<Rightarrow> Inl DeleteError | Some tx' \<Rightarrow> Inr tx')"

definition IndexBM25Meta :: "'tx bolt \<Rightarrow> bytes \<Rightarrow> bytes \<Rightarrow> u32 \<Rightarrow> 'tx \<Rightarrow> op_error + 'tx" where
  "IndexBM25Meta B coll docID docLength tx =
     (let metaKey = ftsMetaKey coll docID; statKey = ftsStatKey coll;
          old = (case bk_get B ''ftsrev'' metaKey tx of None \<Rightarrow> [] | Some v \<Rightarrow> v)
      in case put_plain B ''ftsrev'' metaKey (le32 docLength) tx of Inl err \<Rightarrow> Inl err
         | Inr tx1 \<Rightarrow>
             let s = read_stats B ''ftsrev'' statKey tx1;
                 s' = (if length old \<ge> 4 then s\<lparr>cs_TotalTerms := cs_TotalTerms s - ucast (get_le32 old) + ucast docLength\<rparr>
                       else s\<lparr>cs_TotalDocs := cs_TotalDocs s + 1, cs_TotalTerms := cs_TotalTerms s + ucast docLength\<rparr>)
             in put_plain B ''ftsrev'' statKey (encodeCollectionStats s') tx1)"

definition RemoveBM25Meta :: "'tx bolt \<Rightarrow> bytes \<Rightarrow> bytes \<Rightarrow> 'tx \<Rightarrow> op_error + 'tx" where
  "RemoveBM25Meta B coll docID tx =
     (let metaKey = ftsMetaKey coll docID; statKey = ftsStatKey coll;
          old = (case bk_get B ''ftsrev'' metaKey tx of None \<Rightarrow> [] | Some v \<Rightarrow> v)
      in if length old < 4 then Inr tx
         else case del_plain B ''ftsrev'' metaKey tx of Inl err \<Rightarrow> Inl err
         | Inr tx1 \<Rightarrow>
             put_plain B ''ftsrev'' statKey (encodeCollectionStats (stats_minus (get_le32 old) (read_stats B ''ftsrev'' statKey tx1))) tx1)"

subsection \<open>Postings\<close>

definition old_terms :: "bytes \<Rightarrow> bytes list" where
  "old_terms old = filter (\<lambda>t. t \<noteq> []) (split_comma [] old)"

text \<open>The old entries go, by the reverse entry.\<close>

definition forget_terms :: "'tx bolt \<Rightarrow> bytes \<Rightarrow> bytes \<Rightarrow> 'tx logged \<Rightarrow> 'tx logged" where
  "forget_terms B coll docID s =
     (case bk_get B ''ftsrev'' (ftsRevKey coll docID) (fst s) of None \<Rightarrow> s
      | Some old \<Rightarrow> fold (\<lambda>t. del_quiet B ''fts'' (ftsKey coll t docID)) (old_terms old) s)"

fun put_terms :: "'tx bolt \<Rightarrow> bytes \<Rightarrow> bytes \<Rightarrow> (bytes \<times> nat) list \<Rightarrow> 'tx logged \<Rightarrow> op_error + 'tx logged" where
  "put_terms B coll docID [] s = Inr s"
| "put_terms B coll docID ((t, n) # ts) s =
     (case put_log B ''fts'' (ftsKey coll t docID) (le32 (word_of_nat n)) s of Inl err \<Rightarrow> Inl err
      | Inr s1 \<Rightarrow> put_terms B coll docID ts s1)"

definition doc_length :: "(bytes \<times> nat) list \<Rightarrow> u32" where
  "doc_length ts = foldl (\<lambda>l (t, n). l + word_of_nat n) 0 ts"

definition index_txn :: "'tx bolt \<Rightarrow> bytes \<Rightarrow> bytes \<Rightarrow> (bytes \<times> nat) list \<Rightarrow> 'tx \<Rightarrow> op_error + 'tx logged" where
  "index_txn B coll docID terms tx =
     (case put_terms B coll docID terms (forget_terms B coll docID (tx, [])) of Inl err \<Rightarrow> Inl err
      | Inr s1 \<Rightarrow>
        (case put_log B ''ftsrev'' (ftsRevKey coll docID) (join_comma (map fst terms)) s1 of Inl err \<Rightarrow> Inl err
         | Inr s2 \<Rightarrow>
           (case IndexBM25Meta B coll docID (doc_length terms) (fst s2) of Inl err \<Rightarrow> Inl err
            | Inr tx' \<Rightarrow> Inr (tx', snd s2))))"

definition fx_commit :: "'tx bolt \<Rightarrow> clock \<Rightarrow> bytes \<Rightarrow> ('tx \<Rightarrow> op_error + 'tx logged) \<Rightarrow> 'tx FTSIndex \<Rightarrow>
    'tx FTSIndex \<times> op_error option" where
  "fx_commit B ck coll fn f =
     (case DBUpdate B CommitError fn (fx_db f) of
        (db, Inl err) \<Rightarrow> (f\<lparr>fx_db := db\<rparr>, Some err)
      | (db, Inr bo) \<Rightarrow>
          (InvalidatePMI coll (f\<lparr>fx_db := db, fx_binlog := FlushTo (ck_binlog ck) (ck_io ck) bo (fx_binlog f)\<rparr>), None))"

definition fx_Index :: "text_tables \<Rightarrow> 'tx bolt \<Rightarrow> clock \<Rightarrow> bytes \<Rightarrow> bytes \<Rightarrow> ustring \<Rightarrow> 'tx FTSIndex \<Rightarrow>
    'tx FTSIndex \<times> op_error option" where
  "fx_Index U B ck coll docID content f =
     (let terms = fx_Tokenize U content f
      in if terms = [] then (f, None) else fx_commit B ck coll (index_txn B coll docID terms) f)"

definition IndexWithLang :: "text_tables \<Rightarrow> 'tx bolt \<Rightarrow> clock \<Rightarrow> bytes \<Rightarrow> bytes \<Rightarrow> ustring \<Rightarrow> bytes \<Rightarrow> 'tx FTSIndex \<Rightarrow>
    'tx FTSIndex \<times> op_error option" where
  "IndexWithLang U B ck coll docID content lang f =
     (let terms = fx_TokenizeLang U content lang f
      in if terms = [] then (f, None) else fx_commit B ck coll (index_txn B coll docID terms) f)"

subsection \<open>Fields\<close>

text \<open>The reverse entry of the fields is JSON: a writer and a reader of it.\<close>

record field_json =
  fj_put :: "(bytes \<times> bytes) list \<Rightarrow> bytes"
  fj_get :: "bytes \<Rightarrow> (bytes \<times> bytes) list option"

definition del_some_plain :: "'tx bolt \<Rightarrow> bytes \<Rightarrow> bytes \<Rightarrow> 'tx \<Rightarrow> 'tx" where
  "del_some_plain B b k tx = (case bk_delete B b k tx of None \<Rightarrow> tx | Some tx' \<Rightarrow> tx')"

definition forget_field :: "'tx bolt \<Rightarrow> bytes \<Rightarrow> bytes \<Rightarrow> bytes \<Rightarrow> 'tx \<Rightarrow> 'tx" where
  "forget_field B coll docID field tx =
     (let mk = ftsfMetaKey coll field docID; sk = ftsfStatKey coll field;
          raw = (case bk_get B ''ftsfmeta'' mk tx of None \<Rightarrow> [] | Some v \<Rightarrow> v);
          tx1 = (if length raw \<ge> 4 then
                   (case bk_put B ''ftsfstat'' sk (encodeCollectionStats (stats_minus (get_le32 raw) (read_stats B ''ftsfstat'' sk tx))) tx of
                      None \<Rightarrow> tx | Some tx' \<Rightarrow> tx')
                 else tx)
      in del_some_plain B ''ftsfmeta'' mk tx1)"

definition removeFieldData :: "field_json \<Rightarrow> 'tx bolt \<Rightarrow> bytes \<Rightarrow> bytes \<Rightarrow> 'tx \<Rightarrow> op_error + 'tx" where
  "removeFieldData J B coll docID tx =
     (let revKey = ftsfRevKey coll docID
      in case bk_get B ''ftsfrev'' revKey tx of None \<Rightarrow> Inr tx
         | Some old \<Rightarrow>
           (case fj_get J old of None \<Rightarrow> del_plain B ''ftsfrev'' revKey tx
            | Some es \<Rightarrow>
                let tx1 = fold (\<lambda>(field, t). del_some_plain B ''ftsf'' (ftsfKey coll field t docID)) es tx;
                    tx2 = fold (forget_field B coll docID) (remdups (map fst es)) tx1
                in del_plain B ''ftsfrev'' revKey tx2))"

fun put_field_terms :: "'tx bolt \<Rightarrow> bytes \<Rightarrow> bytes \<Rightarrow> bytes \<Rightarrow> (bytes \<times> nat) list \<Rightarrow> 'tx \<Rightarrow> op_error + 'tx" where
  "put_field_terms B coll docID field [] tx = Inr tx"
| "put_field_terms B coll docID field ((t, n) # ts) tx =
     (case put_plain B ''ftsf'' (ftsfKey coll field t docID) (le32 (word_of_nat n)) tx of Inl err \<Rightarrow> Inl err
      | Inr tx1 \<Rightarrow> put_field_terms B coll docID field ts tx1)"

fun put_fields :: "'tx bolt \<Rightarrow> bytes \<Rightarrow> bytes \<Rightarrow> (bytes \<times> (bytes \<times> nat) list) list \<Rightarrow> 'tx \<Rightarrow> op_error + 'tx" where
  "put_fields B coll docID [] tx = Inr tx"
| "put_fields B coll docID ((field, tokens) # fs) tx =
     (case put_field_terms B coll docID field tokens tx of Inl err \<Rightarrow> Inl err
      | Inr tx1 \<Rightarrow>
        (case put_plain B ''ftsfmeta'' (ftsfMetaKey coll field docID) (le32 (doc_length tokens)) tx1 of Inl err \<Rightarrow> Inl err
         | Inr tx2 \<Rightarrow>
             let sk = ftsfStatKey coll field; s = read_stats B ''ftsfstat'' sk tx2;
                 s' = \<lparr>cs_TotalDocs = cs_TotalDocs s + 1, cs_TotalTerms = cs_TotalTerms s + ucast (doc_length tokens)\<rparr>
             in (case put_plain B ''ftsfstat'' sk (encodeCollectionStats s') tx2 of Inl err \<Rightarrow> Inl err
                 | Inr tx3 \<Rightarrow> put_fields B coll docID fs tx3)))"

definition fields_txn :: "field_json \<Rightarrow> 'tx bolt \<Rightarrow> bytes \<Rightarrow> bytes \<Rightarrow> (bytes \<times> (bytes \<times> nat) list) list \<Rightarrow> 'tx \<Rightarrow> op_error + ('tx \<times> unit)" where
  "fields_txn J B coll docID fieldTokens tx =
     (case removeFieldData J B coll docID tx of Inl err \<Rightarrow> Inl err
      | Inr tx1 \<Rightarrow>
        (case put_fields B coll docID fieldTokens tx1 of Inl err \<Rightarrow> Inl err
         | Inr tx2 \<Rightarrow>
           (case put_plain B ''ftsfrev'' (ftsfRevKey coll docID)
                   (fj_put J (concat (map (\<lambda>(field, tokens). map (\<lambda>(t, n). (field, t)) tokens) fieldTokens))) tx2 of
              Inl err \<Rightarrow> Inl err | Inr tx3 \<Rightarrow> Inr (tx3, ()))))"

definition fx_update :: "'tx bolt \<Rightarrow> ('tx \<Rightarrow> op_error + ('tx \<times> unit)) \<Rightarrow> 'tx FTSIndex \<Rightarrow> 'tx FTSIndex \<times> op_error option" where
  "fx_update B fn f =
     (case DBUpdate B CommitError fn (fx_db f) of
        (db, Inl err) \<Rightarrow> (f\<lparr>fx_db := db\<rparr>, Some err) | (db, Inr _) \<Rightarrow> (f\<lparr>fx_db := db\<rparr>, None))"

definition field_tokens :: "(ustring \<Rightarrow> (bytes \<times> nat) list) \<Rightarrow> (bytes \<times> ustring) list \<Rightarrow> (bytes \<times> (bytes \<times> nat) list) list" where
  "field_tokens tok flds = filter (\<lambda>(field, ts). ts \<noteq> []) (map (\<lambda>(field, text). (field, tok text)) flds)"

definition IndexFields :: "text_tables \<Rightarrow> field_json \<Rightarrow> 'tx bolt \<Rightarrow> bytes \<Rightarrow> bytes \<Rightarrow> (bytes \<times> ustring) list \<Rightarrow> 'tx FTSIndex \<Rightarrow>
    'tx FTSIndex \<times> op_error option" where
  "IndexFields U J B coll docID flds f =
     (let ft = field_tokens (\<lambda>text. fx_Tokenize U text f) flds
      in if ft = [] then (f, None) else fx_update B (fields_txn J B coll docID ft) f)"

definition IndexFieldsWithLang :: "text_tables \<Rightarrow> field_json \<Rightarrow> 'tx bolt \<Rightarrow> bytes \<Rightarrow> bytes \<Rightarrow> (bytes \<times> ustring) list \<Rightarrow> bytes \<Rightarrow>
    'tx FTSIndex \<Rightarrow> 'tx FTSIndex \<times> op_error option" where
  "IndexFieldsWithLang U J B coll docID flds lang f =
     (let ft = field_tokens (\<lambda>text. fx_TokenizeLang U text lang f) flds
      in if ft = [] then (f, None) else fx_update B (fields_txn J B coll docID ft) f)"

subsection \<open>Positions\<close>

definition encodePositions :: "u32 list \<Rightarrow> bytes" where
  "encodePositions ps = le32 (word_of_nat (length ps)) @ concat (map le32 ps)"

text \<open>Both comparison and loop work on 32-bit words; \<open>None\<close> is the panic of a read past the end.\<close>

fun read_positions :: "nat \<Rightarrow> bytes \<Rightarrow> u32 list option" where
  "read_positions 0 b = Some []"
| "read_positions (Suc n) b = (if length b < 4 then None else map_option ((#) (get_le32 b)) (read_positions n (drop 4 b)))"

definition decodePositions :: "bytes \<Rightarrow> u32 list option" where
  "decodePositions data =
     (if length data < 4 then Some []
      else let count = get_le32 data
           in if (word_of_nat (length data) :: u32) < 4 + count * 4 then Some [] else read_positions (unat count) (drop 4 data))"

definition removePositionsInTx :: "'tx bolt \<Rightarrow> bytes \<Rightarrow> bytes \<Rightarrow> 'tx \<Rightarrow> 'tx" where
  "removePositionsInTx B coll docID tx =
     (let tx1 = (case bk_get B ''ftsp'' (ftspRevKey coll docID) tx of None \<Rightarrow> tx
                 | Some old \<Rightarrow> fold (\<lambda>t. del_some_plain B ''ftsp'' (ftspKey coll t docID)) (old_terms old) tx)
      in del_some_plain B ''ftsp'' (ftspRevKey coll docID) tx1)"

definition forget_positions :: "'tx bolt \<Rightarrow> bytes \<Rightarrow> bytes \<Rightarrow> 'tx \<Rightarrow> 'tx" where
  "forget_positions B coll docID tx =
     (case bk_get B ''ftsp'' (ftspRevKey coll docID) tx of None \<Rightarrow> tx
      | Some old \<Rightarrow> fold (\<lambda>t. del_some_plain B ''ftsp'' (ftspKey coll t docID)) (old_terms old) tx)"

fun put_positions :: "'tx bolt \<Rightarrow> bytes \<Rightarrow> bytes \<Rightarrow> (bytes \<times> u32 list) list \<Rightarrow> 'tx \<Rightarrow> op_error + 'tx" where
  "put_positions B coll docID [] tx = Inr tx"
| "put_positions B coll docID ((t, ps) # m) tx =
     (case put_plain B ''ftsp'' (ftspKey coll t docID) (encodePositions ps) tx of Inl err \<Rightarrow> Inl err
      | Inr tx1 \<Rightarrow> put_positions B coll docID m tx1)"

definition positions_txn :: "'tx bolt \<Rightarrow> bytes \<Rightarrow> bytes \<Rightarrow> (bytes \<times> u32 list) list \<Rightarrow> 'tx \<Rightarrow> op_error + ('tx \<times> unit)" where
  "positions_txn B coll docID positions tx =
     (case put_positions B coll docID positions (forget_positions B coll docID tx) of Inl err \<Rightarrow> Inl err
      | Inr tx1 \<Rightarrow>
        (case put_plain B ''ftsp'' (ftspRevKey coll docID) (join_comma (map fst positions)) tx1 of
           Inl err \<Rightarrow> Inl err | Inr tx2 \<Rightarrow> Inr (tx2, ())))"

definition IndexPositions :: "text_tables \<Rightarrow> 'tx bolt \<Rightarrow> bytes \<Rightarrow> bytes \<Rightarrow> ustring \<Rightarrow> 'tx FTSIndex \<Rightarrow> 'tx FTSIndex \<times> op_error option" where
  "IndexPositions U B coll docID content f =
     (let positions = fx_TokenizePositions U content f
      in if positions = [] then (f, None) else fx_update B (positions_txn B coll docID positions) f)"

definition IndexPositionsWithLang :: "text_tables \<Rightarrow> 'tx bolt \<Rightarrow> bytes \<Rightarrow> bytes \<Rightarrow> ustring \<Rightarrow> bytes \<Rightarrow> 'tx FTSIndex \<Rightarrow>
    'tx FTSIndex \<times> op_error option" where
  "IndexPositionsWithLang U B coll docID content lang f =
     (let positions = fx_TokenizePositionsLang U content lang f
      in if positions = [] then (f, None) else fx_update B (positions_txn B coll docID positions) f)"

definition RemovePositions :: "'tx bolt \<Rightarrow> bytes \<Rightarrow> bytes \<Rightarrow> 'tx FTSIndex \<Rightarrow> 'tx FTSIndex \<times> op_error option" where
  "RemovePositions B coll docID f = fx_update B (\<lambda>tx. Inr (removePositionsInTx B coll docID tx, ())) f"

subsection \<open>Removal of a document\<close>

definition remove_txn :: "field_json \<Rightarrow> 'tx bolt \<Rightarrow> bytes \<Rightarrow> bytes \<Rightarrow> 'tx \<Rightarrow> op_error + 'tx logged" where
  "remove_txn J B coll docID tx =
     (let s = forget_terms B coll docID (tx, [])
      in case RemoveBM25Meta B coll docID (fst s) of Inl err \<Rightarrow> Inl err
         | Inr tx1 \<Rightarrow>
           (case removeFieldData J B coll docID tx1 of Inl err \<Rightarrow> Inl err
            | Inr tx2 \<Rightarrow> del_log B ''ftsrev'' (ftsRevKey coll docID) (removePositionsInTx B coll docID tx2, snd s)))"

definition fx_Remove :: "field_json \<Rightarrow> 'tx bolt \<Rightarrow> clock \<Rightarrow> bytes \<Rightarrow> bytes \<Rightarrow> 'tx FTSIndex \<Rightarrow> 'tx FTSIndex \<times> op_error option" where
  "fx_Remove J B ck coll docID f = fx_commit B ck coll (remove_txn J B coll docID) f"

end
