(* ===== verification/Fts_Search.thy ===== *)
theory Fts_Search
  imports Fts_Index
begin

section \<open>Searching the inverted index\<close>

text \<open>
  Models the searches of \<^verbatim>\<open>internal/fts\<close>: \<^verbatim>\<open>Search\<close> (\<^verbatim>\<open>fts.go\<close>),
  \<^verbatim>\<open>SearchBM25\<close> (\<^verbatim>\<open>fts_bm25.go\<close>), \<^verbatim>\<open>SearchPhrase\<close> and
  \<^verbatim>\<open>SearchProximity\<close> (\<^verbatim>\<open>fts_positions.go\<close>), and the synonyms of
  \<^verbatim>\<open>fts_synonyms.go\<close> that widen a query.  The floating-point formulas are parameters, functions
  of the numbers the code feeds them; so is the comparison of scores.  \<^verbatim>\<open>sort.Slice\<close> leaves
  the order of equal scores open; the model uses the insertion sort that it is for short lists.
\<close>

subsection \<open>Synonyms\<close>

record 'tx SynonymManager =
  sy_db :: 'tx
  sy_cache :: "(bytes \<times> (bytes \<times> bytes list) list) list"
  sy_binlog :: "Binlog option"

definition synKey :: "bytes \<Rightarrow> bytes \<Rightarrow> bytes" where
  "synKey coll t = ''syn|'' @ coll @ ''|'' @ t"

text \<open>The text functions on terms and the JSON of a list of terms.\<close>

record syn_lib =
  sl_lower :: "bytes \<Rightarrow> bytes"
  sl_trim :: "bytes \<Rightarrow> bytes"
  sl_put :: "bytes list \<Rightarrow> bytes"
  sl_get :: "bytes \<Rightarrow> bytes list option"

definition syn_entries :: "'tx SynonymManager \<Rightarrow> bytes \<Rightarrow> (bytes \<times> bytes list) list" where
  "syn_entries sm coll = (case map_of (sy_cache sm) coll of None \<Rightarrow> [] | Some m \<Rightarrow> m)"

definition sy_LoadAll :: "syn_lib \<Rightarrow> 'tx bolt \<Rightarrow> 'tx SynonymManager \<Rightarrow> 'tx SynonymManager" where
  "sy_LoadAll Y B sm =
     sm\<lparr>sy_cache := fold (\<lambda>(k, v) cache.
         (case SplitN 3 (CHR ''|'') k of
            [p, coll, t] \<Rightarrow>
              if p \<noteq> ''syn'' then cache
              else (case sl_get Y v of None \<Rightarrow> cache
                    | Some syns \<Rightarrow> AList.update coll (AList.update t syns (case map_of cache coll of None \<Rightarrow> [] | Some m \<Rightarrow> m)) cache)
          | _ \<Rightarrow> cache)) (bk_scan B ''synonyms'' [] (sy_db sm)) []\<rparr>"

definition sy_Set :: "syn_lib \<Rightarrow> 'tx bolt \<Rightarrow> clock \<Rightarrow> bytes \<Rightarrow> bytes \<Rightarrow> bytes list \<Rightarrow> 'tx SynonymManager \<Rightarrow>
    'tx SynonymManager \<times> op_error option" where
  "sy_Set Y B ck coll t0 synonyms sm =
     (let t = sl_lower Y (sl_trim Y t0)
      in if t = [] \<or> coll = [] then (sm, Some MissingField)
         else let normalized = filter (\<lambda>s. s \<noteq> [] \<and> s \<noteq> t) (map (\<lambda>s. sl_lower Y (sl_trim Y s)) synonyms);
                  data = sl_put Y normalized
         in (case DBUpdate B CommitError (\<lambda>tx. put_log B ''synonyms'' (synKey coll t) data (tx, [])) (sy_db sm) of
               (db, Inl err) \<Rightarrow> (sm\<lparr>sy_db := db\<rparr>, Some err)
             | (db, Inr bo) \<Rightarrow>
                 (sm\<lparr>sy_db := db, sy_binlog := FlushTo (ck_binlog ck) (ck_io ck) bo (sy_binlog sm),
                     sy_cache := AList.update coll (AList.update t normalized (syn_entries sm coll)) (sy_cache sm)\<rparr>, None)))"

definition sy_Get :: "syn_lib \<Rightarrow> bytes \<Rightarrow> bytes \<Rightarrow> 'tx SynonymManager \<Rightarrow> bytes list" where
  "sy_Get Y coll t sm = (case map_of (syn_entries sm coll) (sl_lower Y t) of None \<Rightarrow> [] | Some syns \<Rightarrow> syns)"

definition sy_Delete :: "syn_lib \<Rightarrow> 'tx bolt \<Rightarrow> clock \<Rightarrow> bytes \<Rightarrow> bytes \<Rightarrow> 'tx SynonymManager \<Rightarrow> 'tx SynonymManager \<times> op_error option" where
  "sy_Delete Y B ck coll t0 sm =
     (let t = sl_lower Y (sl_trim Y t0)
      in case DBUpdate B CommitError (\<lambda>tx. del_log B ''synonyms'' (synKey coll t) (tx, [])) (sy_db sm) of
           (db, Inl err) \<Rightarrow> (sm\<lparr>sy_db := db\<rparr>, Some err)
         | (db, Inr bo) \<Rightarrow>
             (sm\<lparr>sy_db := db, sy_binlog := FlushTo (ck_binlog ck) (ck_io ck) bo (sy_binlog sm),
                 sy_cache := (case map_of (sy_cache sm) coll of None \<Rightarrow> sy_cache sm
                              | Some m \<Rightarrow> AList.update coll (AList.delete t m) (sy_cache sm))\<rparr>, None))"

definition sy_List :: "bytes \<Rightarrow> 'tx SynonymManager \<Rightarrow> (bytes \<times> bytes list) list" where
  "sy_List coll sm = syn_entries sm coll"

text \<open>The state of the loops is what has been seen; the result has the same elements in the same order.\<close>

definition see :: "bytes \<Rightarrow> bytes list \<Rightarrow> bytes list" where
  "see t seen = (if t \<in> set seen then seen else seen @ [t])"

definition expand_term :: "(bytes \<times> bytes list) list \<Rightarrow> bytes \<Rightarrow> bytes list \<Rightarrow> bytes list" where
  "expand_term m t seen =
     (if t \<in> set seen then seen
      else fold (\<lambda>(base, syns) s. if t \<in> set syns then fold see syns (see base s) else s) m
             (fold see (case map_of m t of None \<Rightarrow> [] | Some syns \<Rightarrow> syns) (seen @ [t])))"

definition sy_Expand :: "syn_lib \<Rightarrow> bytes \<Rightarrow> bytes list \<Rightarrow> 'tx SynonymManager \<Rightarrow> bytes list" where
  "sy_Expand Y coll ts sm =
     (case map_of (sy_cache sm) coll of None \<Rightarrow> ts
      | Some m \<Rightarrow> fold (\<lambda>t. expand_term m (sl_lower Y t)) ts [])"

text \<open>A query: its terms, and the stemmed synonyms that are not among them.\<close>

definition widen :: "LanguageConfig \<Rightarrow> syn_lib \<Rightarrow> bytes \<Rightarrow> 'tx SynonymManager \<Rightarrow> (bytes \<times> nat) list \<Rightarrow> (bytes \<times> nat) list" where
  "widen lg Y coll sm terms =
     fold (\<lambda>(t, n) out.
         fold (\<lambda>syn m. let s = (case lc_Stemmer lg of None \<Rightarrow> syn | Some stem \<Rightarrow> stem syn)
                in if syn = t \<or> map_of m s \<noteq> None then m else AList.update s 1 m)
           (sy_Expand Y coll [t] sm) (AList.update t n out))
       terms []"

definition TokenizeQuery :: "text_tables \<Rightarrow> syn_lib \<Rightarrow> bytes \<Rightarrow> ustring \<Rightarrow> 'tx SynonymManager option \<Rightarrow> 'tx FTSIndex \<Rightarrow> (bytes \<times> nat) list" where
  "TokenizeQuery U Y coll text syn f =
     (case syn of None \<Rightarrow> fx_Tokenize U text f | Some sm \<Rightarrow> widen (fx_lang f) Y coll sm (fx_Tokenize U text f))"

definition TokenizeQueryLang :: "text_tables \<Rightarrow> syn_lib \<Rightarrow> bytes \<Rightarrow> ustring \<Rightarrow> bytes \<Rightarrow> 'tx SynonymManager option \<Rightarrow> 'tx FTSIndex \<Rightarrow>
    (bytes \<times> nat) list" where
  "TokenizeQueryLang U Y coll text lang syn f =
     (case syn of None \<Rightarrow> fx_TokenizeLang U text lang f
      | Some sm \<Rightarrow> widen (resolveLang lang f) Y coll sm (fx_TokenizeLang U text lang f))"

subsection \<open>Term searches\<close>

text \<open>The postings of a term: the documents under its prefix, with the stored values.\<close>

definition postings :: "'tx bolt \<Rightarrow> bytes \<Rightarrow> bytes \<Rightarrow> 'tx \<Rightarrow> (bytes \<times> bytes) list" where
  "postings B coll t tx =
     (let p = ftsKey coll t [] in filter (\<lambda>(d, v). d \<noteq> []) (map (\<lambda>(k, v). (drop (length p) k, v)) (bk_scan B ''fts'' p tx)))"

definition term_freq :: "bytes \<Rightarrow> u32" where
  "term_freq v = (if length v \<ge> 4 then get_le32 v else 1)"

text \<open>The hits of a document in the order in which they are found.\<close>

definition add_hit :: "bytes \<Rightarrow> bytes \<times> 'x \<Rightarrow> (bytes \<times> (bytes \<times> 'x) list) list \<Rightarrow> (bytes \<times> (bytes \<times> 'x) list) list" where
  "add_hit t dx m = (case dx of (d, x) \<Rightarrow> AList.update d ((case map_of m d of None \<Rightarrow> [] | Some hs \<Rightarrow> hs) @ [(t, x)]) m)"

definition all_hits :: "(bytes \<Rightarrow> (bytes \<times> 'x) list) \<Rightarrow> bytes list \<Rightarrow> (bytes \<times> (bytes \<times> 'x) list) list" where
  "all_hits post ts = fold (\<lambda>t. fold (add_hit t) (post t)) ts []"

definition best_of :: "('f \<Rightarrow> 'f \<Rightarrow> bool) \<Rightarrow> int \<Rightarrow> 'f FTSResult list \<Rightarrow> 'f FTSResult list" where
  "best_of gt limit res =
     (let sorted = sortFTSResultsByScore gt res in if limit > 0 \<and> int (length sorted) > limit then take (nat limit) sorted else sorted)"

text \<open>The formulas: the damped frequency, BM25, the number of phrases, the closeness.\<close>

record 'f ranking =
  rk_simple :: "nat \<Rightarrow> u32 list \<Rightarrow> 'f"
  rk_bm25 :: "collectionStats \<Rightarrow> (int \<times> u32 \<times> u32 option) list \<Rightarrow> 'f"
  rk_count :: "int \<Rightarrow> 'f"
  rk_span :: "int \<Rightarrow> int \<Rightarrow> 'f"
  rk_gt :: "'f \<Rightarrow> 'f \<Rightarrow> bool"

definition fts_Search :: "'f ranking \<Rightarrow> 'tx bolt \<Rightarrow> bytes \<Rightarrow> (bytes \<times> nat) list \<Rightarrow> int \<Rightarrow> 'tx FTSIndex \<Rightarrow> 'f FTSResult list" where
  "fts_Search R B coll queryTerms limit f =
     (if queryTerms = [] then []
      else let hits = all_hits (\<lambda>t. map (\<lambda>(d, v). (d, term_freq v)) (postings B coll t (fx_db f))) (map fst queryTerms)
      in best_of (rk_gt R) limit
           (map (\<lambda>(d, hs). \<lparr>r_DocID = d, r_Score = rk_simple R (length queryTerms) (map snd hs), r_Terms = Unique (map fst hs)\<rparr>) hits))"

definition doc_len :: "'tx bolt \<Rightarrow> bytes \<Rightarrow> bytes \<Rightarrow> 'tx \<Rightarrow> u32 option" where
  "doc_len B coll d tx =
     (case bk_get B ''ftsrev'' (ftsMetaKey coll d) tx of None \<Rightarrow> None | Some m \<Rightarrow> if length m \<ge> 4 then Some (get_le32 m) else None)"

definition fts_SearchBM25 :: "'f ranking \<Rightarrow> 'tx bolt \<Rightarrow> bytes \<Rightarrow> (bytes \<times> nat) list \<Rightarrow> int \<Rightarrow> 'tx FTSIndex \<Rightarrow> 'f FTSResult list" where
  "fts_SearchBM25 R B coll queryTerms limit f =
     (if queryTerms = [] then []
      else let tx = fx_db f; stats = read_stats B ''ftsrev'' (ftsStatKey coll) tx;
          hits = all_hits (\<lambda>t. let ps = postings B coll t tx; df = int (length ps)
                   in map (\<lambda>(d, v). (d, df, term_freq v, doc_len B coll d tx)) ps) (map fst queryTerms)
      in best_of (rk_gt R) limit
           (map (\<lambda>(d, hs). \<lparr>r_DocID = d, r_Score = rk_bm25 R stats (map snd hs), r_Terms = Unique (map fst hs)\<rparr>) hits))"

subsection \<open>Phrases and proximity\<close>

text \<open>The positions of a term in a document; reading them can panic.\<close>

definition positions_in :: "'tx bolt \<Rightarrow> bytes \<Rightarrow> bytes \<Rightarrow> bytes \<Rightarrow> 'tx \<Rightarrow> u32 list option" where
  "positions_in B coll t d tx = decodePositions (case bk_get B ''ftsp'' (ftspKey coll t d) tx of None \<Rightarrow> [] | Some v \<Rightarrow> v)"

definition containsPos :: "u32 list \<Rightarrow> u32 \<Rightarrow> bool" where
  "containsPos ps target \<longleftrightarrow> target \<in> set ps"

fun follows :: "(bytes \<Rightarrow> u32 list option) \<Rightarrow> u32 \<Rightarrow> bytes list \<Rightarrow> bool option" where
  "follows pos expected [] = Some True"
| "follows pos expected (t # ts) =
     (case pos t of None \<Rightarrow> None
      | Some ps \<Rightarrow> if containsPos ps expected then follows pos (expected + 1) ts else Some False)"

fun count_matches :: "(bytes \<Rightarrow> u32 list option) \<Rightarrow> bytes list \<Rightarrow> u32 list \<Rightarrow> int option" where
  "count_matches pos rest [] = Some 0"
| "count_matches pos rest (p # ps) =
     (case follows pos (p + 1) rest of None \<Rightarrow> None
      | Some m \<Rightarrow> map_option (\<lambda>n. n + (if m then 1 else 0)) (count_matches pos rest ps))"

definition pos_entries :: "'tx bolt \<Rightarrow> bytes \<Rightarrow> bytes \<Rightarrow> 'tx \<Rightarrow> (bytes \<times> bytes) list" where
  "pos_entries B coll t tx =
     (let p = ftspKey coll t [] in filter (\<lambda>(d, v). d \<noteq> []) (map (\<lambda>(k, v). (drop (length p) k, v)) (bk_scan B ''ftsp'' p tx)))"

fun phrase_scores :: "'tx bolt \<Rightarrow> bytes \<Rightarrow> bytes list \<Rightarrow> 'tx \<Rightarrow> (bytes \<times> bytes) list \<Rightarrow> (bytes \<times> int) list option" where
  "phrase_scores B coll rest tx [] = Some []"
| "phrase_scores B coll rest tx ((d, v) # es) =
     (case decodePositions v of None \<Rightarrow> None
      | Some first \<Rightarrow>
          (case count_matches (\<lambda>t. positions_in B coll t d tx) rest first of None \<Rightarrow> None
           | Some n \<Rightarrow> map_option (\<lambda>out. if n > 0 then (d, n) # out else out) (phrase_scores B coll rest tx es)))"

definition SearchPhrase :: "'f ranking \<Rightarrow> 'tx bolt \<Rightarrow> bytes \<Rightarrow> bytes list \<Rightarrow> int \<Rightarrow> 'tx FTSIndex \<Rightarrow> 'f FTSResult list option" where
  "SearchPhrase R B coll phraseTerms limit f =
     (case phraseTerms of [] \<Rightarrow> Some []
      | t # rest \<Rightarrow>
          map_option (\<lambda>scores. best_of (rk_gt R) limit
              (map (\<lambda>(d, n). \<lparr>r_DocID = d, r_Score = rk_count R n, r_Terms = phraseTerms\<rparr>) scores))
            (phrase_scores B coll rest (fx_db f) (pos_entries B coll t (fx_db f))))"

definition span_of :: "u32 \<Rightarrow> u32 \<Rightarrow> int" where
  "span_of fp lp = (if lp \<ge> fp then uint (lp - fp) else uint (fp - lp))"

definition between :: "u32 \<Rightarrow> u32 \<Rightarrow> u32 \<Rightarrow> bool" where
  "between fp lp p = (let lo = (if fp > lp then lp else fp); hi = (if fp > lp then fp else lp) in p \<ge> lo \<and> p \<le> hi)"

text \<open>The positions of the terms in order; the window runs from the first term to the last.\<close>

definition findMinSpan :: "u32 list list \<Rightarrow> int \<Rightarrow> int" where
  "findMinSpan pss maxDist =
     (if length pss < 2 then 0
      else foldl (\<lambda>best (fp, lp).
             let span = span_of fp lp
             in if span \<le> maxDist \<and> list_all (list_ex (between fp lp)) (tl (butlast pss)) \<and> (best < 0 \<or> span < best) then span else best)
           (-1) (List.product (hd pss) (last pss)))"

fun proximity_positions :: "(bytes \<times> bytes) list \<Rightarrow> nat \<Rightarrow> (bytes \<times> (nat \<times> u32 list) list) list \<Rightarrow> (bytes \<times> (nat \<times> u32 list) list) list option" where
  "proximity_positions [] i m = Some m"
| "proximity_positions ((d, v) # es) i m =
     (case decodePositions v of None \<Rightarrow> None
      | Some ps \<Rightarrow>
          proximity_positions es i
            (if ps = [] then m else AList.update d (AList.update i ps (case map_of m d of None \<Rightarrow> [] | Some x \<Rightarrow> x)) m))"

fun proximity_docs :: "'tx bolt \<Rightarrow> bytes \<Rightarrow> 'tx \<Rightarrow> nat \<Rightarrow> bytes list \<Rightarrow> (bytes \<times> (nat \<times> u32 list) list) list \<Rightarrow>
    (bytes \<times> (nat \<times> u32 list) list) list option" where
  "proximity_docs B coll tx i [] m = Some m"
| "proximity_docs B coll tx i (t # ts) m =
     (case proximity_positions (pos_entries B coll t tx) i m of None \<Rightarrow> None | Some m' \<Rightarrow> proximity_docs B coll tx (Suc i) ts m')"

definition SearchProximity :: "'f ranking \<Rightarrow> 'tx bolt \<Rightarrow> bytes \<Rightarrow> bytes list \<Rightarrow> int \<Rightarrow> int \<Rightarrow> 'tx FTSIndex \<Rightarrow> 'f FTSResult list option" where
  "SearchProximity R B coll phraseTerms distance limit f =
     (if length phraseTerms < 2 then Some []
      else map_option (\<lambda>m.
          let n = length phraseTerms;
              spans = List.map_filter (\<lambda>(d, tp). if length tp \<noteq> n then None
                  else let s = findMinSpan (map (\<lambda>i. the (map_of tp i)) [0..<n]) distance in if s \<ge> 0 then Some (d, s) else None) m
          in best_of (rk_gt R) limit (map (\<lambda>(d, s). \<lparr>r_DocID = d, r_Score = rk_span R distance s, r_Terms = phraseTerms\<rparr>) spans))
        (proximity_docs B coll (fx_db f) 0 phraseTerms []))"

text \<open>The searches from the text of the query.\<close>

definition Search_text :: "text_tables \<Rightarrow> syn_lib \<Rightarrow> 'f ranking \<Rightarrow> 'tx bolt \<Rightarrow> bytes \<Rightarrow> ustring \<Rightarrow> int \<Rightarrow> 'tx SynonymManager option \<Rightarrow>
    'tx FTSIndex \<Rightarrow> 'f FTSResult list" where
  "Search_text U Y R B coll query limit syn f = fts_Search R B coll (TokenizeQuery U Y coll query syn f) limit f"

definition SearchBM25_text :: "text_tables \<Rightarrow> syn_lib \<Rightarrow> 'f ranking \<Rightarrow> 'tx bolt \<Rightarrow> bytes \<Rightarrow> ustring \<Rightarrow> int \<Rightarrow> 'tx SynonymManager option \<Rightarrow>
    'tx FTSIndex \<Rightarrow> 'f FTSResult list" where
  "SearchBM25_text U Y R B coll query limit syn f = fts_SearchBM25 R B coll (TokenizeQuery U Y coll query syn f) limit f"

definition SearchPhrase_text :: "text_tables \<Rightarrow> 'f ranking \<Rightarrow> 'tx bolt \<Rightarrow> bytes \<Rightarrow> ustring \<Rightarrow> int \<Rightarrow> 'tx FTSIndex \<Rightarrow>
    'f FTSResult list option" where
  "SearchPhrase_text U R B coll phrase limit f = SearchPhrase R B coll (tokenizeOrdered U phrase f) limit f"

definition SearchProximity_text :: "text_tables \<Rightarrow> 'f ranking \<Rightarrow> 'tx bolt \<Rightarrow> bytes \<Rightarrow> ustring \<Rightarrow> int \<Rightarrow> int \<Rightarrow> 'tx FTSIndex \<Rightarrow>
    'f FTSResult list option" where
  "SearchProximity_text U R B coll phrase distance limit f = SearchProximity R B coll (tokenizeOrdered U phrase f) distance limit f"

text \<open>The leaf of a query expression that is a term, and the text it is given.\<close>

definition evalTermNode :: "text_tables \<Rightarrow> syn_lib \<Rightarrow> 'f ranking \<Rightarrow> 'tx bolt \<Rightarrow> bytes \<Rightarrow> ustring \<Rightarrow> 'tx SynonymManager option \<Rightarrow>
    'tx FTSIndex \<Rightarrow> 'f scores" where
  "evalTermNode U Y R B coll t syn f = resultsToMap (SearchBM25_text U Y R B coll t 0 syn f)"

end
