(* ===== verification/Fts_Safety.thy ===== *)
theory Fts_Safety
  imports Fts_Search Document_Store
begin

section \<open>The inverted index holds exactly the indexed documents\<close>

text \<open>
  The postings, the reverse entries and the statistics represent one map from documents to their
  terms; indexing and removing are the updates of that map, and a search returns exactly the
  documents that have a term of the query.  The positional index represents the positions of the
  terms, and a phrase search returns the documents in which the words of the phrase follow each
  other.
\<close>

subsection \<open>Terms\<close>

definition term_ok :: "bytes \<Rightarrow> bool" where
  "term_ok t \<longleftrightarrow> t \<noteq> [] \<and> nosep t \<and> CHR '','' \<notin> set t"

definition terms_ok :: "(bytes \<times> 'x) list \<Rightarrow> bool" where
  "terms_ok ts \<longleftrightarrow> ts \<noteq> [] \<and> distinct (map fst ts) \<and> (\<forall>t \<in> fst ` set ts. term_ok t)"

text \<open>The separators are neither letters nor digits, and stemming keeps a term one.\<close>

definition text_ok :: "text_tables \<Rightarrow> LanguageConfig \<Rightarrow> bool" where
  "text_ok U lg \<longleftrightarrow>
     (\<forall>r. tt_letter U r \<or> tt_digit U r \<longrightarrow> r \<noteq> ch CHR ''|'' \<and> r \<noteq> ch CHR '','') \<and>
     (\<forall>stem w. lc_Stemmer lg = Some stem \<longrightarrow> term_ok w \<longrightarrow> term_ok (stem w))"

lemma utf8_ne: "utf8 r \<noteq> []"
  by (simp add: utf8_def)

lemma of_char_high: "n < 256 \<Longrightarrow> (of_char (char_of n :: char) :: nat) = n"
  by simp

lemma utf8_high:
  assumes "128 \<le> r" and "c \<in> set (utf8 r)"
  shows "128 \<le> (of_char c :: nat)"
proof -
  have m: "128 + k mod 64 < (256 :: nat)" for k using mod_less_divisor [of 64 k] by linarith
  have "r < 2048 \<Longrightarrow> 192 + r div 64 < 256" "r < 65536 \<Longrightarrow> 224 + r div 4096 < 256" "r \<le> 1114111 \<Longrightarrow> 240 + r div 262144 < 256"
    by (simp_all add: div_less_iff_less_mult)
  with assms m show ?thesis
    by (auto simp: utf8_def not_less simp del: of_char_of split: if_splits) (simp_all add: of_char_high)
qed

lemma word_chars:
  assumes "text_ok U lg" and "nosep w \<and> CHR '','' \<notin> set w" and "w' \<in> set (words_loop U w rs)"
  shows "term_ok w'"
proof -
  have sep: "c \<noteq> CHR ''|'' \<and> c \<noteq> CHR '',''" if "tt_letter U r \<or> tt_digit U r" "c \<in> set (utf8 r)" for r c
  proof (cases "r < 128")
    case True
    then have "(of_char c :: nat) = r" using that(2) by (simp add: utf8_def of_char_high)
    moreover have "r \<noteq> ch CHR ''|'' \<and> r \<noteq> ch CHR '',''" using assms(1) that(1) unfolding text_ok_def by blast
    ultimately show ?thesis by blast
  next
    case False
    then have "128 \<le> (of_char c :: nat)" using utf8_high [OF _ that(2)] by simp
    then show ?thesis by auto
  qed
  show ?thesis
    using assms(2,3)
  proof (induction rs arbitrary: w)
    case Nil
    then show ?case by (auto simp: word_done_def term_ok_def split: if_splits)
  next
    case (Cons r rs)
    show ?case
    proof (cases "tt_letter U r \<or> tt_digit U r")
      case True
      have "nosep (w @ utf8 r) \<and> CHR '','' \<notin> set (w @ utf8 r)" using Cons.prems(1) sep [OF True] by auto
      moreover have "w' \<in> set (words_loop U (w @ utf8 r) rs)" using Cons.prems(2) True by simp
      ultimately show ?thesis by (rule Cons.IH)
    next
      case False
      then consider "w' \<in> set (word_done w)" | "w' \<in> set (words_loop U [] rs)" using Cons.prems(2) by auto
      then show ?thesis
      proof cases
        case 1
        then show ?thesis using Cons.prems(1) by (auto simp: word_done_def term_ok_def split: if_splits)
      qed (use Cons.IH [of "[]"] in simp)
    qed
  qed
qed

lemma term_of_word_ok: "text_ok U lg \<Longrightarrow> w \<in> set (words_of U text) \<Longrightarrow> term_of_word lg w = Some t \<Longrightarrow> term_ok t"
  using word_chars [of U lg "[]" w "map (tt_lower U) text"]
  by (auto simp: words_of_def term_of_word_def text_ok_def split: if_splits option.splits)

lemma count_term_simps:
  "distinct (map fst m) \<Longrightarrow> distinct (map fst (count_term t m))" "fst ` set (count_term t m) = insert t (fst ` set m)"
  by (simp_all add: count_term_def distinct_update dom_update)

lemma fold_count:
  "distinct (map fst m) \<Longrightarrow> distinct (map fst (fold count_term ts m)) \<and> fst ` set (fold count_term ts m) = set ts \<union> fst ` set m"
  by (induction ts arbitrary: m) (simp_all add: count_term_simps)

definition terms_in :: "LanguageConfig \<Rightarrow> bytes list \<Rightarrow> bytes set" where
  "terms_in lg ws = {t. \<exists>w \<in> set ws. term_of_word lg w = Some t}"

lemma set_map_filter: "set (List.map_filter f xs) = {y. \<exists>x \<in> set xs. f x = Some y}"
  by (induction xs) (auto simp: List.map_filter_simps split: option.splits)

lemma count_terms_props: "distinct (map fst (count_terms lg ws))" "fst ` set (count_terms lg ws) = terms_in lg ws"
  using fold_count [of "[]" "List.map_filter (term_of_word lg) ws"] by (auto simp: count_terms_def terms_in_def set_map_filter)

lemma count_terms_ok: "text_ok U lg \<Longrightarrow> count_terms lg (words_of U text) \<noteq> [] \<Longrightarrow> terms_ok (count_terms lg (words_of U text))"
  unfolding terms_ok_def using count_terms_props term_of_word_ok by (auto simp: terms_in_def)

subsection \<open>Joining and splitting\<close>

lemma split_comma_prefix: "CHR '','' \<notin> set w \<Longrightarrow> split_comma p (w @ r) = split_comma (p @ w) r"
  by (induction w arbitrary: p) auto

lemma split_join: "ts \<noteq> [] \<Longrightarrow> \<forall>t \<in> set ts. CHR '','' \<notin> set t \<Longrightarrow> split_comma [] (join_comma ts) = ts"
proof (induction ts rule: join_comma.induct)
  case (2 t)
  then show ?case using split_comma_prefix [of t "[]" "[]"] by simp
next
  case (3 t t' ts)
  then show ?case using split_comma_prefix [of t "[]" "CHR '','' # join_comma (t' # ts)"] by simp
qed simp

lemma old_terms_join: "terms_ok ts \<Longrightarrow> old_terms (join_comma (map fst ts)) = map fst ts"
  using split_join [of "map fst ts"] by (auto simp: terms_ok_def term_ok_def old_terms_def filter_id_conv)

subsection \<open>Keys\<close>

lemma ftsKey_inject: "nosep c \<Longrightarrow> nosep c' \<Longrightarrow> nosep t \<Longrightarrow> nosep t' \<Longrightarrow> ftsKey c t i = ftsKey c' t' i' \<longleftrightarrow> c = c' \<and> t = t' \<and> i = i'"
  and ftspKey_inject: "nosep c \<Longrightarrow> nosep c' \<Longrightarrow> nosep t \<Longrightarrow> nosep t' \<Longrightarrow> ftspKey c t i = ftspKey c' t' i' \<longleftrightarrow> c = c' \<and> t = t' \<and> i = i'"
  by (auto simp: ftsKey_def ftspKey_def dest!: append_sep_inject)

lemma same_doc_key [simp]: "ftsKey c t i = ftsKey c t' i \<longleftrightarrow> t = t'" "ftspKey c t i = ftspKey c t' i \<longleftrightarrow> t = t'"
  by (simp_all add: ftsKey_def ftspKey_def)

lemma rev_keys_inject: "nosep c \<Longrightarrow> nosep c' \<Longrightarrow> ftsRevKey c i = ftsRevKey c' i' \<longleftrightarrow> c = c' \<and> i = i'"
  "nosep c \<Longrightarrow> nosep c' \<Longrightarrow> ftsMetaKey c i = ftsMetaKey c' i' \<longleftrightarrow> c = c' \<and> i = i'"
  "ftsStatKey c = ftsStatKey c' \<longleftrightarrow> c = c'"
  "nosep c \<Longrightarrow> nosep c' \<Longrightarrow> ftspRevKey c i = ftspRevKey c' i' \<longleftrightarrow> c = c' \<and> i = i'"
  by (auto simp: ftsRevKey_def ftsMetaKey_def ftsStatKey_def ftspRevKey_def dest!: append_sep_inject)

lemma rev_keys_apart [simp]: "ftsRevKey c i \<noteq> ftsMetaKey c' i'" "ftsRevKey c i \<noteq> ftsStatKey c'" "ftsMetaKey c i \<noteq> ftsStatKey c'"
  "ftsMetaKey c i \<noteq> ftsRevKey c' i'" "ftsStatKey c \<noteq> ftsRevKey c' i'" "ftsStatKey c \<noteq> ftsMetaKey c' i'" "ftspKey c t i \<noteq> ftspRevKey c' i'"
  "ftspRevKey c i \<noteq> ftspKey c' t' i'"
  by (simp_all add: ftsRevKey_def ftsMetaKey_def ftsStatKey_def ftspKey_def ftspRevKey_def)

lemma stats_roundtrip [simp]: "decodeCollectionStats (encodeCollectionStats s) = s"
  using get_le64_le64 [of "cs_TotalTerms s" "[]"] by (simp add: decodeCollectionStats_def encodeCollectionStats_def)

subsection \<open>What the buckets represent\<close>

type_synonym fts_docs = "bytes \<times> bytes \<Rightarrow> (bytes \<times> nat) list option"

definition docs_in :: "fts_docs \<Rightarrow> bytes \<Rightarrow> bytes set" where
  "docs_in A coll = {i. A (coll, i) \<noteq> None}"

definition terms_total :: "fts_docs \<Rightarrow> bytes \<Rightarrow> u64" where
  "terms_total A coll = (\<Sum>i \<in> docs_in A coll. ucast (doc_length (the (A (coll, i)))))"

definition stats_in :: "bytes option \<Rightarrow> collectionStats" where
  "stats_in raw = (case raw of None \<Rightarrow> \<lparr>cs_TotalDocs = 0, cs_TotalTerms = 0\<rparr> | Some r \<Rightarrow> decodeCollectionStats r)"

definition postings_rep :: "contents \<Rightarrow> fts_docs \<Rightarrow> bool" where
  "postings_rep c A \<longleftrightarrow> (\<forall>k v. c ''fts'' k = Some v \<longleftrightarrow>
     (\<exists>coll i ts t n. A (coll, i) = Some ts \<and> (t, n) \<in> set ts \<and> k = ftsKey coll t i \<and> v = le32 (word_of_nat n)))"

definition reverse_rep :: "contents \<Rightarrow> fts_docs \<Rightarrow> bool" where
  "reverse_rep c A \<longleftrightarrow> (\<forall>coll i. nosep coll \<longrightarrow>
     c ''ftsrev'' (ftsRevKey coll i) = map_option (\<lambda>ts. join_comma (map fst ts)) (A (coll, i)) \<and>
     c ''ftsrev'' (ftsMetaKey coll i) = map_option (\<lambda>ts. le32 (doc_length ts)) (A (coll, i)))"

definition stats_rep :: "contents \<Rightarrow> fts_docs \<Rightarrow> bool" where
  "stats_rep c A \<longleftrightarrow> (\<forall>coll. nosep coll \<longrightarrow> finite (docs_in A coll) \<and>
     stats_in (c ''ftsrev'' (ftsStatKey coll)) = \<lparr>cs_TotalDocs = word_of_nat (card (docs_in A coll)), cs_TotalTerms = terms_total A coll\<rparr>)"

definition named_docs :: "fts_docs \<Rightarrow> bool" where
  "named_docs A \<longleftrightarrow> (\<forall>coll i ts. A (coll, i) = Some ts \<longrightarrow> nosep coll \<and> terms_ok ts)"

definition fts_rep :: "contents \<Rightarrow> fts_docs \<Rightarrow> bool" where
  "fts_rep c A \<longleftrightarrow> named_docs A \<and> postings_rep c A \<and> reverse_rep c A \<and> stats_rep c A"

lemma docs_in_update: "docs_in (A((coll, i) := x)) coll' = (if coll' = coll then if x = None then docs_in A coll - {i} else insert i (docs_in A coll) else docs_in A coll')"
  by (auto simp: docs_in_def)

lemma terms_total_other: "coll' \<noteq> coll \<Longrightarrow> terms_total (A((coll, i) := x)) coll' = terms_total A coll'"
  by (simp add: terms_total_def docs_in_update)

lemma terms_total_remove:
  assumes "finite (docs_in A coll)"
  shows "terms_total (A((coll, i) := None)) coll = terms_total A coll - (case A (coll, i) of None \<Rightarrow> 0 | Some ts \<Rightarrow> ucast (doc_length ts))"
proof (cases "A (coll, i)")
  case None
  then have "docs_in A coll - {i} = docs_in A coll" by (auto simp: docs_in_def)
  then show ?thesis using None by (auto simp: terms_total_def docs_in_update docs_in_def intro: sum.cong)
next
  case (Some ts)
  then have i: "i \<in> docs_in A coll" by (simp add: docs_in_def)
  have "(\<Sum>j \<in> docs_in A coll - {i}. ucast (doc_length (the ((A((coll, i) := None)) (coll, j))))) =
      (\<Sum>j \<in> docs_in A coll - {i}. ucast (doc_length (the (A (coll, j)))) :: u64)" by (rule sum.cong) auto
  with sum.remove [OF assms i, of "\<lambda>j. ucast (doc_length (the (A (coll, j)))) :: u64"] show ?thesis
    by (simp add: terms_total_def docs_in_update Some)
qed

lemma terms_total_add:
  assumes "finite (docs_in A coll)"
  shows "terms_total (A((coll, i) \<mapsto> ts)) coll =
    terms_total A coll - (case A (coll, i) of None \<Rightarrow> 0 | Some old \<Rightarrow> ucast (doc_length old)) + ucast (doc_length ts)"
proof -
  let ?A = "A((coll, i) \<mapsto> ts)"
  have "finite (docs_in ?A coll)" using assms by (simp add: docs_in_update)
  from terms_total_remove [OF this, of i] terms_total_remove [OF assms, of i] show ?thesis by simp
qed

subsection \<open>What the transactions do to the contents\<close>

definition forget_keys :: "contents \<Rightarrow> bytes \<Rightarrow> bytes \<Rightarrow> bytes set" where
  "forget_keys c coll i = (case c ''ftsrev'' (ftsRevKey coll i) of None \<Rightarrow> {} | Some old \<Rightarrow> (\<lambda>t. ftsKey coll t i) ` set (old_terms old))"

lemma del_quiet_fold:
  assumes "bolt_laws B cont"
  shows "cont (fst (fold (\<lambda>t. del_quiet B b (g t)) ts s)) b' k = (if b' = b \<and> k \<in> g ` set ts then None else cont (fst s) b' k)"
proof (induction ts arbitrary: s)
  case (Cons t ts)
  have "cont (fst (del_quiet B b (g t) s)) = c_delete b (g t) (cont (fst s))"
    using bolt_laws.delete_law [OF assms] bolt_laws.delete_ok [OF assms]
    by (auto simp: del_quiet_def split: option.split)
  with Cons show ?case by (auto simp: c_delete_apply)
qed simp

lemma del_some_plain_cont: "bolt_laws B cont \<Longrightarrow> cont (del_some_plain B b k tx) = c_delete b k (cont tx)"
  using bolt_laws.delete_law [of B cont] bolt_laws.delete_ok [of B cont] by (auto simp: del_some_plain_def split: option.split)

lemma del_some_plain_fold:
  assumes "bolt_laws B cont"
  shows "cont (fold (\<lambda>t. del_some_plain B b (g t)) ts tx) b' k = (if b' = b \<and> k \<in> g ` set ts then None else cont tx b' k)"
  by (induction ts arbitrary: tx) (auto simp: del_some_plain_cont [OF assms] c_delete_apply)

lemma forget_terms_cont:
  assumes "bolt_laws B cont"
  shows "cont (fst (forget_terms B coll i s)) b k = (if b = ''fts'' \<and> k \<in> forget_keys (cont (fst s)) coll i then None else cont (fst s) b k)"
  using del_quiet_fold [OF assms, of "''fts''" "\<lambda>t. ftsKey coll t i"]
  by (simp add: forget_terms_def forget_keys_def bolt_laws.get_law [OF assms] split: option.split)

lemma put_log_cont: "bolt_laws B cont \<Longrightarrow> put_log B b k v s = Inr s' \<Longrightarrow> cont (fst s') = c_put b k v (cont (fst s))"
  using bolt_laws.put_law [of B cont] by (auto simp: put_log_def split: option.splits)

lemma put_plain_cont: "bolt_laws B cont \<Longrightarrow> put_plain B b k v tx = Inr tx' \<Longrightarrow> cont tx' = c_put b k v (cont tx)"
  using bolt_laws.put_law [of B cont] by (auto simp: put_plain_def split: option.splits)

lemma del_plain_cont: "bolt_laws B cont \<Longrightarrow> del_plain B b k tx = Inr tx' \<Longrightarrow> cont tx' = c_delete b k (cont tx)"
  using bolt_laws.delete_law [of B cont] by (auto simp: del_plain_def split: option.splits)

lemma put_terms_cont:
  assumes B: "bolt_laws B cont"
  shows "put_terms B coll i ts s = Inr s' \<Longrightarrow> distinct (map fst ts) \<Longrightarrow>
    cont (fst s') b k = (if b = ''fts'' \<and> (\<exists>(t, n) \<in> set ts. k = ftsKey coll t i)
      then map_of (map (\<lambda>(t, n). (ftsKey coll t i, le32 (word_of_nat n))) ts) k else cont (fst s) b k)"
proof (induction ts arbitrary: s)
  case (Cons tn ts)
  obtain t n where tn: "tn = (t, n)" by fastforce
  with Cons.prems obtain s1 where s1: "put_log B ''fts'' (ftsKey coll t i) (le32 (word_of_nat n)) s = Inr s1" "put_terms B coll i ts s1 = Inr s'"
    by (auto split: sum.splits)
  have "cont (fst s1) = c_put ''fts'' (ftsKey coll t i) (le32 (word_of_nat n)) (cont (fst s))" by (rule put_log_cont [OF B s1(1)])
  moreover have "t \<notin> fst ` set ts" "(t, m) \<notin> set ts" for m using Cons.prems tn by force+
  ultimately show ?case using Cons.IH [OF s1(2)] Cons.prems(2) by (auto simp: tn c_put_apply)
qed simp

lemma put_terms_posting:
  assumes "bolt_laws B cont" and "put_terms B coll i ts s = Inr s'" and "distinct (map fst ts)"
  shows "cont (fst s') ''fts'' k = Some v \<longleftrightarrow>
     (\<exists>(t, n) \<in> set ts. k = ftsKey coll t i \<and> v = le32 (word_of_nat n)) \<or>
     (\<forall>t \<in> fst ` set ts. k \<noteq> ftsKey coll t i) \<and> cont (fst s) ''fts'' k = Some v"
proof -
  have d: "distinct (map fst (map (\<lambda>(t, n). (ftsKey coll t i, le32 (word_of_nat n))) ts))"
    using assms(3) by (auto simp: distinct_map comp_def case_prod_beta inj_on_def)
  have "map_of (map (\<lambda>(t, n). (ftsKey coll t i, le32 (word_of_nat n))) ts) k = Some v \<longleftrightarrow>
      (\<exists>(t, n) \<in> set ts. k = ftsKey coll t i \<and> v = le32 (word_of_nat n))"
    unfolding map_of_eq_Some_iff [OF d] by force
  then show ?thesis using put_terms_cont [OF assms, of "''fts''" k] by (auto split: if_splits)
qed

lemma forget_keys_rep:
  assumes "fts_rep c A" and "nosep coll"
  shows "forget_keys c coll i = (case A (coll, i) of None \<Rightarrow> {} | Some ts \<Rightarrow> (\<lambda>t. ftsKey coll t i) ` fst ` set ts)"
proof (cases "A (coll, i)")
  case (Some ts)
  then have "terms_ok ts" using assms(1) unfolding fts_rep_def named_docs_def by blast
  from old_terms_join [OF this] show ?thesis using assms Some by (simp add: fts_rep_def reverse_rep_def forget_keys_def)
qed (use assms in \<open>simp add: fts_rep_def reverse_rep_def forget_keys_def\<close>)

text \<open>The postings without those of a document.\<close>

lemma postings_forgotten:
  assumes "fts_rep c A" and "nosep coll"
  shows "(if k \<in> forget_keys c coll i then None else c ''fts'' k) = Some v \<longleftrightarrow>
    (\<exists>coll' i' ts t n. (A((coll, i) := None)) (coll', i') = Some ts \<and> (t, n) \<in> set ts \<and> k = ftsKey coll' t i' \<and> v = le32 (word_of_nat n))"
    (is "?l \<longleftrightarrow> ?r")
proof
  have named: "nosep c' \<and> terms_ok ts" if "A (c', i') = Some ts" for c' i' ts using assms(1) that unfolding fts_rep_def named_docs_def by blast
  have post: "c ''fts'' k = Some v \<longleftrightarrow>
     (\<exists>coll i ts t n. A (coll, i) = Some ts \<and> (t, n) \<in> set ts \<and> k = ftsKey coll t i \<and> v = le32 (word_of_nat n))"
    using assms(1) unfolding fts_rep_def postings_rep_def by blast
  show "?l \<Longrightarrow> ?r"
  proof -
    assume l: ?l
    then obtain coll' i' ts t n where h: "A (coll', i') = Some ts" "(t, n) \<in> set ts" "k = ftsKey coll' t i'" "v = le32 (word_of_nat n)"
      using post by (auto split: if_splits)
    have "(coll', i') \<noteq> (coll, i)"
    proof
      assume "(coll', i') = (coll, i)"
      then have "k \<in> forget_keys c coll i" unfolding forget_keys_rep [OF assms] using h by (force simp: image_iff)
      with l show False by simp
    qed
    with h show ?r by (intro exI conjI) (auto simp: fun_upd_def)
  qed
  show "?r \<Longrightarrow> ?l"
  proof -
    assume ?r
    then obtain coll' i' ts t n where h: "A (coll', i') = Some ts" "(coll', i') \<noteq> (coll, i)" "(t, n) \<in> set ts" "k = ftsKey coll' t i'"
      "v = le32 (word_of_nat n)" by (auto split: if_splits)
    have t: "nosep coll'" "nosep t" using named [OF h(1)] h(3) by (auto simp: terms_ok_def term_ok_def)
    have "k \<notin> forget_keys c coll i"
    proof
      assume "k \<in> forget_keys c coll i"
      then obtain ts' t' where "A (coll, i) = Some ts'" "t' \<in> fst ` set ts'" "k = ftsKey coll t' i"
        unfolding forget_keys_rep [OF assms] by (auto split: option.splits)
      moreover from this have "nosep t'" using named [of coll i ts'] by (auto simp: terms_ok_def term_ok_def)
      ultimately show False using h ftsKey_inject [OF t(1) assms(2) t(2)] by auto
    qed
    moreover have "c ''fts'' k = Some v" unfolding post using h by blast
    ultimately show ?l by simp
  qed
qed

lemma IndexBM25Meta_cont:
  assumes B: "bolt_laws B cont" and "IndexBM25Meta B coll i len tx = Inr tx'"
  shows "cont tx' = c_put ''ftsrev'' (ftsStatKey coll)
      (encodeCollectionStats (let s = stats_in (cont tx ''ftsrev'' (ftsStatKey coll)); old = (case cont tx ''ftsrev'' (ftsMetaKey coll i) of None \<Rightarrow> [] | Some v \<Rightarrow> v)
        in if length old \<ge> 4 then s\<lparr>cs_TotalTerms := cs_TotalTerms s - ucast (get_le32 old) + ucast len\<rparr>
           else s\<lparr>cs_TotalDocs := cs_TotalDocs s + 1, cs_TotalTerms := cs_TotalTerms s + ucast len\<rparr>))
      (c_put ''ftsrev'' (ftsMetaKey coll i) (le32 len) (cont tx))"
proof -
  obtain tx1 where tx1: "put_plain B ''ftsrev'' (ftsMetaKey coll i) (le32 len) tx = Inr tx1"
    using assms(2) by (auto simp: IndexBM25Meta_def Let_def split: sum.splits)
  note c1 = put_plain_cont [OF B tx1]
  have "read_stats B ''ftsrev'' (ftsStatKey coll) tx1 = stats_in (cont tx ''ftsrev'' (ftsStatKey coll))"
    by (simp add: read_stats_def stats_in_def bolt_laws.get_law [OF B] c1 c_put_apply)
  with assms(2) put_plain_cont [OF B, of "''ftsrev''" "ftsStatKey coll"] show ?thesis
    unfolding IndexBM25Meta_def Let_def tx1 by (simp add: bolt_laws.get_law [OF B] c1)
qed

lemma index_txn_rep:
  assumes B: "bolt_laws B cont" and rep: "fts_rep (cont tx) A" and coll: "nosep coll" and ts: "terms_ok ts"
    and "index_txn B coll i ts tx = Inr (tx', bo)"
  shows "fts_rep (cont tx') (A((coll, i) \<mapsto> ts))"
proof -
  let ?A = "A((coll, i) \<mapsto> ts)" and ?s0 = "forget_terms B coll i (tx, [])"
  obtain s1 s2 where s: "put_terms B coll i ts ?s0 = Inr s1"
    "put_log B ''ftsrev'' (ftsRevKey coll i) (join_comma (map fst ts)) s1 = Inr s2"
    "IndexBM25Meta B coll i (doc_length ts) (fst s2) = Inr tx'"
    using assms(5) by (auto simp: index_txn_def split: sum.splits)
  have d: "distinct (map fst ts)" using ts by (simp add: terms_ok_def)
  note c0 = forget_terms_cont [OF B, of coll i "(tx, [])"] and c1 = put_terms_cont [OF B s(1) d]
    and c2 = put_log_cont [OF B s(2)] and c3 = IndexBM25Meta_cont [OF B s(3)]
  have fts: "cont tx' ''fts'' k = cont (fst s1) ''fts'' k" for k by (simp add: c3 c2 c_put_apply)
  have rv: "cont (fst s2) ''ftsrev'' k = (if k = ftsRevKey coll i then Some (join_comma (map fst ts)) else cont tx ''ftsrev'' k)" for k
    by (simp add: c2 c1 c0 c_put_apply)
  have named: "named_docs ?A" using rep coll ts by (auto simp: fts_rep_def named_docs_def)
  have "postings_rep (cont tx') ?A"
    unfolding postings_rep_def
  proof (intro allI)
    fix k v
    have "cont (fst ?s0) ''fts'' k = (if k \<in> forget_keys (cont tx) coll i then None else cont tx ''fts'' k)" by (simp add: c0)
    with postings_forgotten [OF rep coll, of k i v]
    have 0: "cont (fst ?s0) ''fts'' k = Some v \<longleftrightarrow>
      (\<exists>coll' i' ts t n. (A((coll, i) := None)) (coll', i') = Some ts \<and> (t, n) \<in> set ts \<and> k = ftsKey coll' t i' \<and> v = le32 (word_of_nat n))" by simp
    have apart: "ftsKey coll' t i' \<noteq> ftsKey coll t' i"
      if "(A((coll, i) := None)) (coll', i') = Some ts'" "(t, n) \<in> set ts'" "t' \<in> fst ` set ts" for coll' i' t t' ts' n
    proof -
      have "A (coll', i') = Some ts'" "(coll', i') \<noteq> (coll, i)" using that(1) by (auto split: if_splits)
      moreover from this have "nosep coll'" "terms_ok ts'" using rep unfolding fts_rep_def named_docs_def by blast+
      then have "nosep coll'" "nosep t" "nosep t'" using that ts by (auto simp: terms_ok_def term_ok_def)
      ultimately show ?thesis using ftsKey_inject coll by auto
    qed
    show "cont tx' ''fts'' k = Some v \<longleftrightarrow>
        (\<exists>coll' i' ts' t n. ?A (coll', i') = Some ts' \<and> (t, n) \<in> set ts' \<and> k = ftsKey coll' t i' \<and> v = le32 (word_of_nat n))" (is "_ \<longleftrightarrow> ?r")
    proof
      assume "cont tx' ''fts'' k = Some v"
      then consider t n where "(t, n) \<in> set ts" "k = ftsKey coll t i" "v = le32 (word_of_nat n)" | "cont (fst ?s0) ''fts'' k = Some v"
        unfolding fts put_terms_posting [OF B s(1) d] by blast
      then show ?r
      proof cases
        case 1
        moreover have "?A (coll, i) = Some ts" by simp
        ultimately show ?thesis by blast
      next
        case 2
        then obtain coll' i' ts' t n where h: "(A((coll, i) := None)) (coll', i') = Some ts'" "(t, n) \<in> set ts'"
          "k = ftsKey coll' t i'" "v = le32 (word_of_nat n)" unfolding 0 by blast
        from h(1) have "?A (coll', i') = Some ts'" by (auto split: if_splits)
        with h(2-4) show ?thesis by blast
      qed
    next
      assume ?r
      then obtain coll' i' ts' t n where h: "?A (coll', i') = Some ts'" "(t, n) \<in> set ts'" "k = ftsKey coll' t i'" "v = le32 (word_of_nat n)" by blast
      show "cont tx' ''fts'' k = Some v"
      proof (cases "(coll', i') = (coll, i)")
        case True
        with h(1) have "ts' = ts" "coll' = coll" "i' = i" by simp_all
        with h(2-4) have "\<exists>(t, n) \<in> set ts. k = ftsKey coll t i \<and> v = le32 (word_of_nat n)"
          by (intro bexI [of _ "(t, n)"]) simp_all
        then show ?thesis unfolding fts put_terms_posting [OF B s(1) d] by (rule disjI1)
      next
        case False
        with h(1) have a: "(A((coll, i) := None)) (coll', i') = Some ts'" by (simp split: if_splits)
        have "cont (fst ?s0) ''fts'' k = Some v" unfolding 0 using a h(2-4) by blast
        moreover have "\<forall>t \<in> fst ` set ts. k \<noteq> ftsKey coll t i" unfolding h(3) using apart [OF a h(2)] by blast
        ultimately show ?thesis unfolding fts put_terms_posting [OF B s(1) d] by (intro disjI2 conjI)
      qed
    qed
  qed
  moreover have "reverse_rep (cont tx') ?A"
    unfolding reverse_rep_def
  proof (intro allI impI)
    fix coll' i' assume c: "nosep coll'"
    have "cont tx ''ftsrev'' (ftsRevKey coll' i') = map_option (\<lambda>ts. join_comma (map fst ts)) (A (coll', i'))"
      "cont tx ''ftsrev'' (ftsMetaKey coll' i') = map_option (\<lambda>ts. le32 (doc_length ts)) (A (coll', i'))"
      using rep c unfolding fts_rep_def reverse_rep_def by blast+
    then show "cont tx' ''ftsrev'' (ftsRevKey coll' i') = map_option (\<lambda>ts. join_comma (map fst ts)) (?A (coll', i')) \<and>
        cont tx' ''ftsrev'' (ftsMetaKey coll' i') = map_option (\<lambda>ts. le32 (doc_length ts)) (?A (coll', i'))"
      using rev_keys_inject(1,2) [OF c coll, of i' i] by (auto simp: c3 c_put_apply rv)
  qed
  moreover have "stats_rep (cont tx') ?A"
    unfolding stats_rep_def
  proof (intro allI impI)
    fix coll' assume c: "nosep coll'"
    have S: "finite (docs_in A coll')" "stats_in (cont tx ''ftsrev'' (ftsStatKey coll')) =
        \<lparr>cs_TotalDocs = word_of_nat (card (docs_in A coll')), cs_TotalTerms = terms_total A coll'\<rparr>"
      using rep c unfolding fts_rep_def stats_rep_def by blast+
    have old: "cont tx ''ftsrev'' (ftsMetaKey coll i) = map_option (\<lambda>ts. le32 (doc_length ts)) (A (coll, i))"
      using rep coll unfolding fts_rep_def reverse_rep_def by blast
    show "finite (docs_in ?A coll') \<and> stats_in (cont tx' ''ftsrev'' (ftsStatKey coll')) =
        \<lparr>cs_TotalDocs = word_of_nat (card (docs_in ?A coll')), cs_TotalTerms = terms_total ?A coll'\<rparr>"
    proof (cases "coll' = coll")
      case False
      then show ?thesis using S by (simp add: c3 c_put_apply rv rev_keys_inject docs_in_update terms_total_other)
    next
      case True
      have le: "get_le32 (le32 w) = w" for w using get_le32_le32 [of w "[]"] by simp
      show ?thesis
      proof (cases "A (coll, i)")
        case None
        then have "i \<notin> docs_in A coll" by (simp add: docs_in_def)
        then show ?thesis using S None True
          by (simp add: c3 c_put_apply rv stats_in_def [of "Some _"] old docs_in_update terms_total_add Let_def)
      next
        case (Some o)
        then have "i \<in> docs_in A coll" by (simp add: docs_in_def)
        then have "insert i (docs_in A coll) = docs_in A coll" by blast
        then show ?thesis using S Some True
          by (simp add: c3 c_put_apply rv stats_in_def [of "Some _"] old docs_in_update terms_total_add Let_def le)
      qed
    qed
  qed
  ultimately show ?thesis using named by (simp add: fts_rep_def)
qed

subsection \<open>Removal\<close>

definition small :: "fts_docs \<Rightarrow> bool" where
  "small A \<longleftrightarrow> (\<forall>coll. card (docs_in A coll) < 2 ^ 32)"

lemma ucast_as_nat: "(ucast (w :: u32) :: u64) = word_of_nat (unat w)"
  by (rule word_unat_eq_iff [THEN iffD2]) (use unat_less_exp [of w] in \<open>simp add: unat_of_nat\<close>)

lemma terms_total_ge:
  assumes "finite (docs_in A coll)" and "card (docs_in A coll) < 2 ^ 32" and "A (coll, i) = Some ts"
  shows "(ucast (doc_length ts) :: u64) \<le> terms_total A coll"
proof -
  let ?D = "docs_in A coll" and ?f = "\<lambda>i. unat (doc_length (the (A (coll, i))))"
  have i: "i \<in> ?D" using assms(3) by (simp add: docs_in_def)
  have "terms_total A coll = word_of_nat (\<Sum>i \<in> ?D. ?f i)" by (simp only: terms_total_def ucast_as_nat of_nat_sum)
  moreover have "(\<Sum>i \<in> ?D. ?f i) \<le> card ?D * 2 ^ 32"
    using sum_bounded_above [of ?D ?f "2 ^ 32"] unat_less_exp [where 'a = 32] by (simp add: less_imp_le)
  then have "(\<Sum>i \<in> ?D. ?f i) < 2 ^ 64" using assms(2) by simp
  ultimately have "unat (terms_total A coll) = (\<Sum>i \<in> ?D. ?f i)" by (simp only: unat_of_nat) simp
  moreover have "?f i \<le> (\<Sum>i \<in> ?D. ?f i)" by (rule member_le_sum [OF i]) (use assms(1) in auto)
  moreover have "unat (ucast (doc_length ts) :: u64) = unat (doc_length ts)"
    using unat_less_exp [of "doc_length ts"] by (simp only: ucast_as_nat unat_of_nat) simp
  ultimately show ?thesis using assms(3) by (simp add: word_le_nat_alt)
qed

lemma stats_minus_exact:
  assumes "finite (docs_in A coll)" and "card (docs_in A coll) < 2 ^ 32" and "A (coll, i) = Some ts"
  shows "stats_minus (doc_length ts) \<lparr>cs_TotalDocs = word_of_nat (card (docs_in A coll)), cs_TotalTerms = terms_total A coll\<rparr> =
    \<lparr>cs_TotalDocs = word_of_nat (card (docs_in (A((coll, i) := None)) coll)), cs_TotalTerms = terms_total (A((coll, i) := None)) coll\<rparr>"
proof -
  have i: "i \<in> docs_in A coll" using assms(3) by (simp add: docs_in_def)
  with assms(1) have c: "card (docs_in A coll) = Suc (card (docs_in A coll - {i}))" by (metis card_Suc_Diff1)
  have "unat (word_of_nat (card (docs_in A coll)) :: u32) = card (docs_in A coll)" using assms(2) by (simp add: unat_of_nat)
  then have "(word_of_nat (card (docs_in A coll)) :: u32) > 0" using c by (metis unat_0 nat.distinct(1) word_gt_0)
  then show ?thesis using terms_total_ge [OF assms] terms_total_remove [OF assms(1), of i] c
    by (simp add: stats_minus_def docs_in_update assms(3))
qed

lemma forget_field_frame:
  assumes B: "bolt_laws B cont" and "b \<noteq> ''ftsfmeta''" "b \<noteq> ''ftsfstat''"
  shows "cont (forget_field B coll i field tx) b = cont tx b"
proof -
  have "cont tx1 b = cont tx b" if "bk_put B ''ftsfstat'' k v tx = Some tx1" for k v tx1
    using bolt_laws.put_law [OF B that] assms(3) by (simp add: c_put_def)
  then show ?thesis
    using assms(2) by (auto simp: forget_field_def Let_def del_some_plain_cont [OF B] c_delete_def split: option.split)
qed

lemma removeFieldData_frame:
  assumes B: "bolt_laws B cont" and "removeFieldData J B coll i tx = Inr tx'" and "b \<notin> {''ftsf'', ''ftsfmeta'', ''ftsfstat'', ''ftsfrev''}"
  shows "cont tx' b = cont tx b"
proof -
  have 1: "cont (fold (\<lambda>(field, t). del_some_plain B ''ftsf'' (ftsfKey coll field t i)) es x) b = cont x b" for es x
    by (induction es arbitrary: x) (use assms(3) in \<open>auto simp: del_some_plain_cont [OF B] c_delete_def\<close>)
  have 2: "cont (fold (forget_field B coll i) fs x) b = cont x b" for fs x
    by (induction fs arbitrary: x) (use assms(3) in \<open>auto simp: forget_field_frame [OF B]\<close>)
  from assms(2,3) del_plain_cont [OF B] show ?thesis
    by (auto simp: removeFieldData_def Let_def c_delete_def 1 2 split: option.splits)
qed

lemma removePositions_frame: "bolt_laws B cont \<Longrightarrow> b \<noteq> ''ftsp'' \<Longrightarrow> cont (removePositionsInTx B coll i tx) b = cont tx b"
  using del_some_plain_fold [of B cont "''ftsp''" "\<lambda>t. ftspKey coll t i"]
  by (intro ext) (auto simp: removePositionsInTx_def Let_def del_some_plain_cont c_delete_apply split: option.split)

lemma RemoveBM25Meta_cont:
  assumes B: "bolt_laws B cont" and "RemoveBM25Meta B coll i tx = Inr tx'"
    and m: "cont tx ''ftsrev'' (ftsMetaKey coll i) = map_option (\<lambda>ts. le32 (doc_length ts)) (A (coll, i))"
  shows "cont tx' = (case A (coll, i) of None \<Rightarrow> cont tx
    | Some ts \<Rightarrow> c_put ''ftsrev'' (ftsStatKey coll) (encodeCollectionStats (stats_minus (doc_length ts) (stats_in (cont tx ''ftsrev'' (ftsStatKey coll)))))
        (c_delete ''ftsrev'' (ftsMetaKey coll i) (cont tx)))"
proof (cases "A (coll, i)")
  case (Some ts)
  have le: "get_le32 (le32 w) = w" for w using get_le32_le32 [of w "[]"] by simp
  obtain tx1 where tx1: "del_plain B ''ftsrev'' (ftsMetaKey coll i) tx = Inr tx1"
    using assms(2) m Some by (auto simp: RemoveBM25Meta_def bolt_laws.get_law [OF B] Let_def split: sum.splits)
  note c1 = del_plain_cont [OF B tx1]
  have "read_stats B ''ftsrev'' (ftsStatKey coll) tx1 = stats_in (cont tx ''ftsrev'' (ftsStatKey coll))"
    by (simp add: read_stats_def stats_in_def bolt_laws.get_law [OF B] c1 c_delete_apply)
  with assms(2) m Some put_plain_cont [OF B, of "''ftsrev''" "ftsStatKey coll"] show ?thesis
    unfolding RemoveBM25Meta_def Let_def tx1 by (simp add: bolt_laws.get_law [OF B] c1 le)
qed (use assms in \<open>simp add: RemoveBM25Meta_def bolt_laws.get_law [OF B]\<close>)

lemma remove_txn_rep:
  assumes B: "bolt_laws B cont" and rep: "fts_rep (cont tx) A" and coll: "nosep coll" and sm: "small A"
    and "remove_txn J B coll i tx = Inr (tx', bo)"
  shows "fts_rep (cont tx') (A((coll, i) := None))"
proof -
  let ?A = "A((coll, i) := None)" and ?s = "forget_terms B coll i (tx, [])"
  obtain tx1 tx2 where t: "RemoveBM25Meta B coll i (fst ?s) = Inr tx1" "removeFieldData J B coll i tx1 = Inr tx2"
    "del_log B ''ftsrev'' (ftsRevKey coll i) (removePositionsInTx B coll i tx2, snd ?s) = Inr (tx', bo)"
    using assms(5) by (auto simp: remove_txn_def Let_def split: sum.splits)
  note c0 = forget_terms_cont [OF B, of coll i "(tx, [])"]
  have rv0: "cont (fst ?s) ''ftsrev'' = cont tx ''ftsrev''" by (rule ext) (simp add: c0)
  have m: "cont (fst ?s) ''ftsrev'' (ftsMetaKey coll i) = map_option (\<lambda>ts. le32 (doc_length ts)) (A (coll, i))"
    using rep coll unfolding fts_rep_def reverse_rep_def rv0 by blast
  note c1 = RemoveBM25Meta_cont [OF B, OF t(1), of A, OF m]
  have c3: "cont tx' = c_delete ''ftsrev'' (ftsRevKey coll i) (cont (removePositionsInTx B coll i tx2))"
    using t(3) bolt_laws.delete_law [OF B] by (auto simp: del_log_def split: option.splits)
  have rest: "cont tx' b = (if b = ''ftsrev'' then (cont tx1 ''ftsrev'')(ftsRevKey coll i := None) else cont tx1 b)" if "b = ''fts'' \<or> b = ''ftsrev''" for b
    using that removeFieldData_frame [OF B t(2), of b] removePositions_frame [OF B, of b coll i tx2] by (auto simp: c3 c_delete_def)
  have "named_docs ?A" using rep by (auto simp: fts_rep_def named_docs_def)
  moreover have "postings_rep (cont tx') ?A"
    unfolding postings_rep_def
  proof (intro allI)
    fix k v
    have "cont tx' ''fts'' k = (if k \<in> forget_keys (cont tx) coll i then None else cont tx ''fts'' k)"
      using c0 [of "''fts''" k] by (simp add: rest c1 c_put_apply c_delete_apply split: option.split)
    then show "cont tx' ''fts'' k = Some v \<longleftrightarrow>
        (\<exists>coll' i' ts t n. ?A (coll', i') = Some ts \<and> (t, n) \<in> set ts \<and> k = ftsKey coll' t i' \<and> v = le32 (word_of_nat n))"
      using postings_forgotten [OF rep coll, of k i v] by simp
  qed
  moreover have "reverse_rep (cont tx') ?A"
    unfolding reverse_rep_def
  proof (intro allI impI)
    fix coll' i' assume c: "nosep coll'"
    have "cont tx ''ftsrev'' (ftsRevKey coll' i') = map_option (\<lambda>ts. join_comma (map fst ts)) (A (coll', i'))"
      "cont tx ''ftsrev'' (ftsMetaKey coll' i') = map_option (\<lambda>ts. le32 (doc_length ts)) (A (coll', i'))"
      using rep c unfolding fts_rep_def reverse_rep_def by blast+
    then show "cont tx' ''ftsrev'' (ftsRevKey coll' i') = map_option (\<lambda>ts. join_comma (map fst ts)) (?A (coll', i')) \<and>
        cont tx' ''ftsrev'' (ftsMetaKey coll' i') = map_option (\<lambda>ts. le32 (doc_length ts)) (?A (coll', i'))"
      using rev_keys_inject(1,2) [OF c coll, of i' i] m
      by (auto simp: rest c1 rv0 c_put_apply c_delete_apply split: option.split)
  qed
  moreover have "stats_rep (cont tx') ?A"
    unfolding stats_rep_def
  proof (intro allI impI)
    fix coll' assume c: "nosep coll'"
    have S: "finite (docs_in A coll')" "stats_in (cont tx ''ftsrev'' (ftsStatKey coll')) =
        \<lparr>cs_TotalDocs = word_of_nat (card (docs_in A coll')), cs_TotalTerms = terms_total A coll'\<rparr>"
      using rep c unfolding fts_rep_def stats_rep_def by blast+
    have sm': "card (docs_in A coll') < 2 ^ 32" using sm unfolding small_def by blast
    show "finite (docs_in ?A coll') \<and> stats_in (cont tx' ''ftsrev'' (ftsStatKey coll')) =
        \<lparr>cs_TotalDocs = word_of_nat (card (docs_in ?A coll')), cs_TotalTerms = terms_total ?A coll'\<rparr>"
    proof (cases "coll' = coll \<and> A (coll, i) \<noteq> None")
      case True
      then obtain ts where ts: "coll' = coll" "A (coll, i) = Some ts" by blast
      show ?thesis using S stats_minus_exact [OF S(1) sm', of i ts] ts
        by (simp add: rest c1 rv0 c_put_apply stats_in_def [of "Some _"] docs_in_update)
    next
      case False
      then have "docs_in ?A coll' = docs_in A coll' \<and> terms_total ?A coll' = terms_total A coll'"
        using terms_total_remove [of A coll i] S(1) by (auto simp: docs_in_update terms_total_other) (auto simp: docs_in_def)
      then show ?thesis using S False
        by (auto simp: rest c1 rv0 c_put_apply c_delete_apply rev_keys_inject split: option.split)
    qed
  qed
  ultimately show ?thesis by (simp add: fts_rep_def)
qed

subsection \<open>Searches\<close>

definition hit_terms :: "(bytes \<times> (bytes \<times> 'x) list) list \<Rightarrow> bytes \<Rightarrow> bytes set" where
  "hit_terms m d = (case map_of m d of None \<Rightarrow> {} | Some hs \<Rightarrow> fst ` set hs)"

definition hits_ok :: "(bytes \<times> (bytes \<times> 'x) list) list \<Rightarrow> bool" where
  "hits_ok m \<longleftrightarrow> distinct (map fst m)"

lemma add_hit_facts:
  "hits_ok m \<Longrightarrow> hits_ok (add_hit t (d, x) m)" "fst ` set (add_hit t (d, x) m) = insert d (fst ` set m)"
  "hit_terms (add_hit t (d, x) m) e = hit_terms m e \<union> (if e = d then {t} else {})"
  by (auto simp: hits_ok_def add_hit_def hit_terms_def distinct_update dom_update update_conv' split: option.split)

lemma fold_hits:
  "(hits_ok m \<longrightarrow> hits_ok (fold (add_hit t) ps m)) \<and> fst ` set (fold (add_hit t) ps m) = fst ` set ps \<union> fst ` set m \<and>
   hit_terms (fold (add_hit t) ps m) e = hit_terms m e \<union> (if e \<in> fst ` set ps then {t} else {})"
proof (induction ps arbitrary: m)
  case (Cons p ps)
  obtain d x where "p = (d, x)" by fastforce
  then show ?case using Cons [of "add_hit t p m"] by (auto simp: add_hit_facts)
qed simp

lemma all_hits_facts:
  "hits_ok (all_hits post ts)" "fst ` set (all_hits post ts) = (\<Union>t \<in> set ts. fst ` set (post t))"
  "hit_terms (all_hits post ts) e = {t \<in> set ts. e \<in> fst ` set (post t)}"
proof -
  have "(hits_ok m \<longrightarrow> hits_ok (fold (\<lambda>t. fold (add_hit t) (post t)) ts m)) \<and>
      fst ` set (fold (\<lambda>t. fold (add_hit t) (post t)) ts m) = (\<Union>t \<in> set ts. fst ` set (post t)) \<union> fst ` set m \<and>
      hit_terms (fold (\<lambda>t. fold (add_hit t) (post t)) ts m) e = {t \<in> set ts. e \<in> fst ` set (post t)} \<union> hit_terms m e" for m
  proof (induction ts arbitrary: m)
    case (Cons t ts)
    show ?case using Cons [of "fold (add_hit t) (post t) m"] fold_hits [of m t "post t" e] by auto
  qed simp
  from this [of "[]"] show "hits_ok (all_hits post ts)" "fst ` set (all_hits post ts) = (\<Union>t \<in> set ts. fst ` set (post t))"
    "hit_terms (all_hits post ts) e = {t \<in> set ts. e \<in> fst ` set (post t)}"
    by (simp_all add: all_hits_def hits_ok_def hit_terms_def)
qed

lemma best_of_all: "set (best_of gt 0 res) = set res" "mset (best_of gt 0 res) = mset res"
  using sort_perm [of gt res] by (simp_all add: best_of_def Let_def) (metis set_mset_mset)

text \<open>The results made of hits.\<close>

lemma top_hits:
  assumes "score_order gt"
    and res_def: "res = best_of gt 0 (map (\<lambda>(d, hs). \<lparr>r_DocID = d, r_Score = score hs, r_Terms = Unique (map fst hs)\<rparr>) (all_hits post ts))"
  shows "r_DocID ` set res = (\<Union>t \<in> set ts. fst ` set (post t))" "distinct (map r_DocID res)"
    "r \<in> set res \<Longrightarrow> set (r_Terms r) = {t \<in> set ts. r_DocID r \<in> fst ` set (post t)} \<and> distinct (r_Terms r)"
    "sorted_wrt (\<lambda>a b. \<not> gt (r_Score b) (r_Score a)) res"
proof -
  let ?f = "\<lambda>(d, hs). \<lparr>r_DocID = d, r_Score = score hs, r_Terms = Unique (map fst hs)\<rparr>"
  have d: "map r_DocID (map ?f (all_hits post ts)) = map fst (all_hits post ts)" by (simp add: comp_def case_prod_beta)
  have m: "mset (map r_DocID res) = mset (map r_DocID (map ?f (all_hits post ts)))" unfolding res_def mset_map best_of_all(2) ..
  show "r_DocID ` set res = (\<Union>t \<in> set ts. fst ` set (post t))"
    using m mset_eq_setD [OF m] all_hits_facts(2) [of post ts] by (simp only: d set_map [symmetric])
  show "distinct (map r_DocID res)" using mset_eq_imp_distinct_iff [OF m] all_hits_facts(1) [of post ts] by (simp only: d hits_ok_def)
  show "sorted_wrt (\<lambda>a b. \<not> gt (r_Score b) (r_Score a)) res" using sort_sorted [OF assms(1)] by (simp add: res_def best_of_def Let_def)
  assume "r \<in> set res"
  then obtain e hs where r: "(e, hs) \<in> set (all_hits post ts)" "r = ?f (e, hs)" by (auto simp: res_def best_of_all)
  then have "map_of (all_hits post ts) e = Some hs" using all_hits_facts(1) [of post ts] by (simp add: hits_ok_def)
  then have "fst ` set hs = hit_terms (all_hits post ts) e" by (simp add: hit_terms_def)
  with r(2) show "set (r_Terms r) = {t \<in> set ts. r_DocID r \<in> fst ` set (post t)} \<and> distinct (r_Terms r)"
    by (simp add: all_hits_facts)
qed

lemma postings_docs:
  assumes B: "bolt_laws B cont" and rep: "fts_rep (cont tx) A" and "nosep coll" and "nosep t"
  shows "fst ` set (postings B coll t tx) = {d. d \<noteq> [] \<and> (\<exists>ts. A (coll, d) = Some ts \<and> t \<in> fst ` set ts)}"
proof -
  have k: "ftsKey coll t [] @ d = ftsKey coll t d" for d by (simp add: ftsKey_def)
  have k': "drop (length (ftsKey coll t [])) (ftsKey coll t d) = d" for d by (metis k append_eq_conv_conj)
  have "d \<in> fst ` set (postings B coll t tx) \<longleftrightarrow> d \<noteq> [] \<and> cont tx ''fts'' (ftsKey coll t d) \<noteq> None" for d
  proof
    assume "d \<in> fst ` set (postings B coll t tx)"
    then show "d \<noteq> [] \<and> cont tx ''fts'' (ftsKey coll t d) \<noteq> None"
      by (auto simp: postings_def Let_def bolt_laws.scan_set [OF B] prefix_def k k')
  next
    assume "d \<noteq> [] \<and> cont tx ''fts'' (ftsKey coll t d) \<noteq> None"
    then obtain v where v: "d \<noteq> []" "cont tx ''fts'' (ftsKey coll t d) = Some v" by blast
    have "prefix (ftsKey coll t []) (ftsKey coll t d)" using k [of d] by (simp add: prefix_def) metis
    with v(2) have "(ftsKey coll t d, v) \<in> set (bk_scan B ''fts'' (ftsKey coll t []) tx)" by (simp add: bolt_laws.scan_set [OF B])
    then have "(\<lambda>(k, v). (drop (length (ftsKey coll t [])) k, v)) (ftsKey coll t d, v) \<in>
        set (map (\<lambda>(k, v). (drop (length (ftsKey coll t [])) k, v)) (bk_scan B ''fts'' (ftsKey coll t []) tx))"
      unfolding set_map by (rule imageI)
    with v(1) have "(d, v) \<in> set (postings B coll t tx)" by (simp add: postings_def Let_def k')
    then show "d \<in> fst ` set (postings B coll t tx)" by force
  qed
  moreover have "cont tx ''fts'' (ftsKey coll t d) \<noteq> None \<longleftrightarrow> (\<exists>ts. A (coll, d) = Some ts \<and> t \<in> fst ` set ts)" for d
  proof -
    have "cont tx ''fts'' (ftsKey coll t d) = Some v \<longleftrightarrow> (\<exists>coll' i ts t' n. A (coll', i) = Some ts \<and> (t', n) \<in> set ts \<and>
        ftsKey coll t d = ftsKey coll' t' i \<and> v = le32 (word_of_nat n))" for v
      using rep unfolding fts_rep_def postings_rep_def by blast
    moreover have "ftsKey coll t d = ftsKey coll' t' i \<longleftrightarrow> coll = coll' \<and> t = t' \<and> d = i"
      if "A (coll', i) = Some ts" "(t', n) \<in> set ts" for coll' i ts t' n
    proof -
      have "nosep coll'" "terms_ok ts" using rep that(1) unfolding fts_rep_def named_docs_def by blast+
      with that(2) have "nosep t'" by (auto simp: terms_ok_def term_ok_def)
      with \<open>nosep coll'\<close> assms(3,4) show ?thesis by (simp add: ftsKey_inject)
    qed
    ultimately have "(\<exists>v. cont tx ''fts'' (ftsKey coll t d) = Some v) \<longleftrightarrow> (\<exists>ts n. A (coll, d) = Some ts \<and> (t, n) \<in> set ts)"
      by metis
    then show ?thesis by force
  qed
  ultimately show ?thesis by (intro set_eqI) (simp only: mem_Collect_eq)
qed

subsection \<open>An index to start from\<close>

definition demo_text :: text_tables where
  "demo_text = \<lparr>tt_letter = (\<lambda>r. 97 \<le> r \<and> r \<le> 122), tt_digit = (\<lambda>r. False), tt_lower = (\<lambda>r. r)\<rparr>"

definition demo_lang :: LanguageConfig where
  "demo_lang = \<lparr>lc_Stemmer = None, lc_StopWords = (\<lambda>w. w = ''of'')\<rparr>"

definition demo_index :: "mem_db FTSIndex" where
  "demo_index = \<lparr>fx_db = [], fx_lang = demo_lang, fx_registry = None, fx_binlog = None, fx_trained = None\<rparr>"

definition demo_ranking :: "int ranking" where
  "demo_ranking = \<lparr>rk_simple = (\<lambda>n fs. int (length fs)), rk_bm25 = (\<lambda>s fs. int (length fs)), rk_count = (\<lambda>n. n),
     rk_span = (\<lambda>a b. a), rk_gt = (>)\<rparr>"

lemma demo_facts [simp]:
  "text_ok demo_text demo_lang" "fx_db demo_index = []" "resolveLang l demo_index = demo_lang" "score_order (rk_gt demo_ranking)"
  "mem_contents [] = (\<lambda>b k. None)"
  by (auto simp: text_ok_def demo_text_def demo_lang_def demo_index_def resolveLang_def score_order_def demo_ranking_def mem_contents_def
      mem_bucket_def fun_eq_iff)

lemma nothing_indexed [simp]: "fts_rep (\<lambda>b k. None) (\<lambda>_. None)"
  by (simp add: fts_rep_def named_docs_def postings_rep_def reverse_rep_def stats_rep_def docs_in_def stats_in_def terms_total_def)

definition ab_text :: ustring where "ab_text = runes ''ab of cd''"

lemma ab_words: "words_of demo_text ab_text = [''ab'', ''of'', ''cd'']"
  by code_simp

lemma ab_terms [simp]: "fx_TokenizeLang demo_text ab_text l demo_index = [(''ab'', 1), (''cd'', 1)]"
  by (simp add: fx_TokenizeLang_def ab_words count_terms_def count_term_def List.map_filter_simps term_of_word_def demo_lang_def)

definition one_doc :: fts_docs where
  "one_doc = (\<lambda>_. None)((''c'', ''d'') \<mapsto> [(''ab'', 1), (''cd'', 1)])"

text \<open>C28: Indexing refines the map of documents: after it the postings, the reverse entries and the
  statistics of the ranking represent the map in which the document has exactly the terms of its
  text, and after a removal the map without it; whatever fails leaves the store as it was.  A text
  without terms changes nothing, so the document keeps the entries it had.\<close>

theorem fts_index_refines:
  assumes B: "bolt_laws B cont" and rep: "fts_rep (cont (fx_db f)) A" and coll: "nosep coll" and U: "text_ok U (resolveLang lang f)"
    and sm: "small A"
  shows "(let terms = fx_TokenizeLang U content lang f
      in case IndexWithLang U B ck coll i content lang f of
           (f', None) \<Rightarrow> fts_rep (cont (fx_db f')) (if terms = [] then A else A((coll, i) \<mapsto> terms))
         | (f', Some err) \<Rightarrow> fx_db f' = fx_db f) \<and>
    (case fx_Remove J B ck coll i f of
       (f', None) \<Rightarrow> fts_rep (cont (fx_db f')) (A((coll, i) := None))
     | (f', Some err) \<Rightarrow> fx_db f' = fx_db f)"
proof
  have pmi: "fx_db (InvalidatePMI c g) = fx_db g" for c and g :: "'a FTSIndex" by (simp add: InvalidatePMI_def split: option.split)
  have commit: "case fx_commit B ck coll fn f of
      (f', None) \<Rightarrow> (\<exists>tx' bo. fn (fx_db f) = Inr (tx', bo) \<and> cont (fx_db f') = cont tx') | (f', Some err) \<Rightarrow> fx_db f' = fx_db f" for fn
    using bolt_laws.commit_law [OF B] by (auto simp: fx_commit_def DBUpdate_def pmi split: sum.splits option.splits)
  let ?terms = "fx_TokenizeLang U content lang f"
  have ok: "?terms \<noteq> [] \<Longrightarrow> terms_ok ?terms" unfolding fx_TokenizeLang_def by (rule count_terms_ok [OF U])
  show "let terms = ?terms in case IndexWithLang U B ck coll i content lang f of
           (f', None) \<Rightarrow> fts_rep (cont (fx_db f')) (if terms = [] then A else A((coll, i) \<mapsto> terms))
         | (f', Some err) \<Rightarrow> fx_db f' = fx_db f"
  proof (cases "?terms = []")
    case False
    then show ?thesis using commit [of "index_txn B coll i ?terms"] index_txn_rep [OF B, OF rep, OF coll, OF ok [OF False], of i]
      by (auto simp: IndexWithLang_def Let_def split: prod.splits option.splits)
  qed (simp add: IndexWithLang_def rep)
  show "case fx_Remove J B ck coll i f of
       (f', None) \<Rightarrow> fts_rep (cont (fx_db f')) (A((coll, i) := None)) | (f', Some err) \<Rightarrow> fx_db f' = fx_db f"
    using commit [of "remove_txn J B coll i"] remove_txn_rep [OF B, OF rep, OF coll, OF sm, of J i]
    by (auto simp: fx_Remove_def split: prod.splits option.splits)
qed

theorem fts_index_refines_witness:
  "\<exists>f'. IndexWithLang demo_text mem_bolt (ref_clock 1) ''c'' ''d'' ab_text [] demo_index = (f', None) \<and>
     fts_rep (mem_contents (fx_db f')) one_doc"
proof -
  let ?r = "IndexWithLang demo_text mem_bolt (ref_clock 1) ''c'' ''d'' ab_text [] demo_index"
  have "snd ?r = None"
    by (simp add: IndexWithLang_def fx_commit_def DBUpdate_def index_txn_def forget_terms_def put_log_def IndexBM25Meta_def put_plain_def
        mem_bolt_def Let_def ftsKey_def ftsRevKey_def ftsMetaKey_def ftsStatKey_def)
  then obtain f' where f': "?r = (f', None)" by (metis prod.collapse)
  have "fts_rep (mem_contents (fx_db f')) ((\<lambda>_. None)((''c'', ''d'') \<mapsto> [(''ab'', 1), (''cd'', 1)]))"
    using fts_index_refines [OF mem.bolt_laws_axioms, where f = demo_index and A = "\<lambda>_. None" and coll = "''c''" and U = demo_text
        and lang = "[]" and content = ab_text and ck = "ref_clock 1" and i = "''d''"] f'
    by (simp add: small_def docs_in_def)
  with f' show ?thesis by (simp add: one_doc_def)
qed

definition found :: "fts_docs \<Rightarrow> bytes \<Rightarrow> bytes set \<Rightarrow> bytes set" where
  "found A coll q = {d. d \<noteq> [] \<and> (\<exists>ts. A (coll, d) = Some ts \<and> fst ` set ts \<inter> q \<noteq> {})}"

definition exact_results :: "fts_docs \<Rightarrow> bytes \<Rightarrow> bytes set \<Rightarrow> 'f FTSResult list \<Rightarrow> bool" where
  "exact_results A coll q res \<longleftrightarrow>
     r_DocID ` set res = found A coll q \<and> distinct (map r_DocID res) \<and>
     (\<forall>r \<in> set res. \<exists>ts. A (coll, r_DocID r) = Some ts \<and> set (r_Terms r) = fst ` set ts \<inter> q \<and> distinct (r_Terms r))"

text \<open>C29: Both rankings find the same documents, exactly those indexed with a term of the query, each
  once, with exactly the terms that matched, by falling score; a positive limit keeps the first.\<close>

theorem fts_search_exact:
  assumes B: "bolt_laws B cont" and rep: "fts_rep (cont (fx_db f)) A" and coll: "nosep coll"
    and q: "\<forall>t \<in> fst ` set queryTerms. nosep t" and gt: "score_order (rk_gt R)"
  shows "\<forall>search \<in> {fts_Search, fts_SearchBM25}.
    exact_results A coll (fst ` set queryTerms) (search R B coll queryTerms 0 f) \<and>
    sorted_wrt (\<lambda>a b. \<not> rk_gt R (r_Score b) (r_Score a)) (search R B coll queryTerms 0 f) \<and>
    (\<forall>n > 0. search R B coll queryTerms n f = take (nat n) (search R B coll queryTerms 0 f))"
proof -
  let ?q = "map fst queryTerms"
  have docs: "fst ` set (postings B coll t (fx_db f)) = {d. d \<noteq> [] \<and> (\<exists>ts. A (coll, d) = Some ts \<and> t \<in> fst ` set ts)}"
    if "t \<in> set ?q" for t by (rule postings_docs [OF B, OF rep, OF coll]) (use q that in auto)
  have exact: "exact_results A coll (fst ` set queryTerms) res \<and> sorted_wrt (\<lambda>a b. \<not> rk_gt R (r_Score b) (r_Score a)) res"
    if res: "res = best_of (rk_gt R) 0 (map (\<lambda>(d, hs). \<lparr>r_DocID = d, r_Score = score hs, r_Terms = Unique (map fst hs)\<rparr>) (all_hits post ?q))"
      and post: "\<And>t. fst ` set (post t) = fst ` set (postings B coll t (fx_db f))"
    for res score and post :: "bytes \<Rightarrow> (bytes \<times> 'x) list"
  proof -
    note T = top_hits [OF gt res]
    have P: "e \<in> fst ` set (post t) \<longleftrightarrow> e \<noteq> [] \<and> (\<exists>ts. A (coll, e) = Some ts \<and> t \<in> fst ` set ts)" if "t \<in> set ?q" for e t
      unfolding post docs [OF that] by simp
    have "(\<Union>t \<in> set ?q. fst ` set (post t)) = found A coll (set ?q)"
    proof (rule set_eqI)
      fix e
      have "e \<in> (\<Union>t \<in> set ?q. fst ` set (post t)) \<longleftrightarrow> (\<exists>t \<in> set ?q. e \<noteq> [] \<and> (\<exists>ts. A (coll, e) = Some ts \<and> t \<in> fst ` set ts))"
        unfolding UN_iff by (rule bex_cong [OF refl P])
      also have "\<dots> \<longleftrightarrow> e \<in> found A coll (set ?q)" unfolding found_def mem_Collect_eq by blast
      finally show "e \<in> (\<Union>t \<in> set ?q. fst ` set (post t)) \<longleftrightarrow> e \<in> found A coll (set ?q)" .
    qed
    then have ids: "r_DocID ` set res = found A coll (fst ` set queryTerms)" using T(1) by simp
    moreover have "\<exists>ts. A (coll, r_DocID r) = Some ts \<and> set (r_Terms r) = fst ` set ts \<inter> fst ` set queryTerms \<and> distinct (r_Terms r)"
      if r: "r \<in> set res" for r
    proof -
      have "r_DocID r \<in> found A coll (fst ` set queryTerms)" using r ids by blast
      then obtain ts where ts: "r_DocID r \<noteq> []" "A (coll, r_DocID r) = Some ts" by (auto simp: found_def)
      have "set (r_Terms r) = {t \<in> set ?q. r_DocID r \<in> fst ` set (post t)}" using T(3) [OF r] by (rule conjunct1)
      also have "\<dots> = {t \<in> set ?q. t \<in> fst ` set ts}" by (rule Collect_cong, rule conj_cong [OF refl]) (simp only: P ts, simp)
      also have "\<dots> = fst ` set ts \<inter> fst ` set queryTerms" by auto
      finally show ?thesis using ts(2) T(3) [OF r] by blast
    qed
    ultimately show ?thesis using T(2,4) by (simp add: exact_results_def)
  qed
  have limit: "best_of gt n xs = take (nat n) (best_of gt 0 xs)" if "n > 0" for gt :: "'f \<Rightarrow> 'f \<Rightarrow> bool" and n xs
    using that by (auto simp: best_of_def Let_def)
  show ?thesis
  proof (cases "queryTerms = []")
    case True
    then show ?thesis by (auto simp: fts_Search_def fts_SearchBM25_def exact_results_def found_def)
  next
    case False
    have "exact_results A coll (fst ` set queryTerms) (fts_Search R B coll queryTerms 0 f) \<and>
        sorted_wrt (\<lambda>a b. \<not> rk_gt R (r_Score b) (r_Score a)) (fts_Search R B coll queryTerms 0 f)"
      by (rule exact [where post = "\<lambda>t. map (\<lambda>(d, v). (d, term_freq v)) (postings B coll t (fx_db f))"])
        (use False in \<open>simp_all add: fts_Search_def Let_def image_image case_prod_beta\<close>)
    moreover have "exact_results A coll (fst ` set queryTerms) (fts_SearchBM25 R B coll queryTerms 0 f) \<and>
        sorted_wrt (\<lambda>a b. \<not> rk_gt R (r_Score b) (r_Score a)) (fts_SearchBM25 R B coll queryTerms 0 f)"
      by (rule exact [where post = "\<lambda>t. let ps = postings B coll t (fx_db f); df = int (length ps)
              in map (\<lambda>(d, v). (d, df, term_freq v, doc_len B coll d (fx_db f))) ps"])
        (use False in \<open>simp_all add: fts_SearchBM25_def Let_def image_image case_prod_beta\<close>)
    moreover have "search R B coll queryTerms n f = take (nat n) (search R B coll queryTerms 0 f)"
      if "n > 0" "search = fts_Search \<or> search = fts_SearchBM25" for n search
      using that(2) by (auto simp: fts_Search_def fts_SearchBM25_def Let_def False limit [OF that(1)])
    ultimately show ?thesis by simp
  qed
qed

lemma demo_indexed:
  "\<exists>tx' bo. index_txn mem_bolt ''c'' ''d'' [(''ab'', 1), (''cd'', 1)] [] = Inr (tx', bo) \<and>
     fts_rep (mem_contents tx') one_doc"
proof -
  have "\<exists>s. index_txn mem_bolt ''c'' ''d'' [(''ab'', 1), (''cd'', 1)] [] = Inr s"
    by (simp add: index_txn_def forget_terms_def put_log_def IndexBM25Meta_def put_plain_def
        mem_bolt_def Let_def ftsKey_def ftsRevKey_def ftsMetaKey_def ftsStatKey_def)
  then obtain tx' bo where t: "index_txn mem_bolt ''c'' ''d'' [(''ab'', 1), (''cd'', 1)] [] = Inr (tx', bo)" by force
  have "fts_rep (mem_contents tx') ((\<lambda>_. None)((''c'', ''d'') \<mapsto> [(''ab'', 1), (''cd'', 1)]))"
    by (rule index_txn_rep [OF mem.bolt_laws_axioms _ _ _ t]) (simp_all add: terms_ok_def term_ok_def)
  with t show ?thesis by (simp add: one_doc_def)
qed

definition demo_query :: "(bytes \<times> nat) list" where "demo_query = [(''cd'', 1), (''ef'', 1)]"

theorem fts_search_exact_witness:
  "\<exists>f :: mem_db FTSIndex. map r_DocID (fts_SearchBM25 demo_ranking mem_bolt ''c'' demo_query 0 f) = [''d'']"
proof -
  obtain tx where rep: "fts_rep (mem_contents tx) one_doc" using demo_indexed by blast
  let ?f = "demo_index\<lparr>fx_db := tx\<rparr>"
  let ?res = "fts_SearchBM25 demo_ranking mem_bolt ''c'' demo_query 0 ?f"
  have "\<forall>search \<in> {fts_Search, fts_SearchBM25}.
      exact_results one_doc ''c'' (fst ` set demo_query) (search demo_ranking mem_bolt ''c'' demo_query 0 ?f) \<and>
      sorted_wrt (\<lambda>a b. \<not> rk_gt demo_ranking (r_Score b) (r_Score a)) (search demo_ranking mem_bolt ''c'' demo_query 0 ?f) \<and>
      (\<forall>n > 0. search demo_ranking mem_bolt ''c'' demo_query n ?f =
         take (nat n) (search demo_ranking mem_bolt ''c'' demo_query 0 ?f))"
    by (rule fts_search_exact [OF mem.bolt_laws_axioms]) (simp_all add: rep demo_query_def)
  then have "exact_results one_doc ''c'' {''cd'', ''ef''} ?res" by (simp add: demo_query_def)
  then have "set (map r_DocID ?res) = {''d''}" "distinct (map r_DocID ?res)" by (auto simp: exact_results_def found_def one_doc_def split: if_splits)
  then have "length (map r_DocID ?res) = 1" by (metis distinct_card card.empty card_insert_disjoint empty_iff finite.emptyI One_nat_def)
  with \<open>set (map r_DocID ?res) = {''d''}\<close> have "map r_DocID ?res = [''d'']" by (cases "map r_DocID ?res") auto
  then show ?thesis by (rule exI)
qed

end
