(* ===== verification/Fts_Phrase.thy ===== *)
theory Fts_Phrase
  imports Fts_Safety
begin

section \<open>Phrases\<close>

text \<open>
  The positional index represents the positions of the terms of each document, and a phrase search
  returns exactly the documents in which the terms of the phrase follow each other word by word.
  Positions count every word but a phrase is searched by the words that are no stop words, so a
  phrase with a stop word inside is not found where it stands.
\<close>

subsection \<open>The positions of a document\<close>

definition pos_rep :: "contents \<Rightarrow> (bytes \<times> bytes \<Rightarrow> (bytes \<times> u32 list) list option) \<Rightarrow> bool" where
  "pos_rep c P \<longleftrightarrow>
     (\<forall>coll i m. P (coll, i) = Some m \<longrightarrow> nosep coll \<and> terms_ok m) \<and>
     (\<forall>coll i. nosep coll \<longrightarrow> c ''ftsp'' (ftspRevKey coll i) = map_option (\<lambda>m. join_comma (map fst m)) (P (coll, i))) \<and>
     (\<forall>coll t i. nosep coll \<longrightarrow> nosep t \<longrightarrow>
        c ''ftsp'' (ftspKey coll t i) = (case P (coll, i) of None \<Rightarrow> None | Some m \<Rightarrow> map_option encodePositions (map_of m t)))"

lemma pos_repD:
  assumes "pos_rep c P"
  shows "P (coll, i) = Some m \<Longrightarrow> nosep coll \<and> terms_ok m"
    "nosep coll \<Longrightarrow> c ''ftsp'' (ftspRevKey coll i) = map_option (\<lambda>m. join_comma (map fst m)) (P (coll, i))"
    "nosep coll \<Longrightarrow> nosep t \<Longrightarrow> c ''ftsp'' (ftspKey coll t i) = (case P (coll, i) of None \<Rightarrow> None | Some m \<Rightarrow> map_option encodePositions (map_of m t))"
  using assms unfolding pos_rep_def by blast+

lemma read_positions_encoded: "read_positions (length ps) (concat (map le32 ps) @ r) = Some ps"
  by (induction ps) simp_all

lemma decode_encode: "length ps < 2 ^ 30 - 1 \<Longrightarrow> decodePositions (encodePositions ps) = Some ps"
proof -
  assume n: "length ps < 2 ^ 30 - 1"
  let ?n = "word_of_nat (length ps) :: u32"
  have l: "length (concat (map le32 ps)) = 4 * length ps" by (induction ps) simp_all
  have u: "unat ?n = length ps" using n by (simp add: unat_of_nat)
  have "(word_of_nat (4 + 4 * length ps) :: u32) = 4 + ?n * 4" by (simp add: mult.commute)
  then have "\<not> (word_of_nat (length (encodePositions ps)) :: u32) < 4 + ?n * 4" by (simp add: encodePositions_def l)
  then show ?thesis using read_positions_encoded [of ps "[]"] by (simp add: decodePositions_def encodePositions_def u)
qed

subsection \<open>Storing and removing positions\<close>

lemma put_positions_cont:
  assumes B: "bolt_laws B cont"
  shows "put_positions B coll i m tx = Inr tx' \<Longrightarrow> distinct (map fst m) \<Longrightarrow>
    (\<forall>b k. (\<forall>t \<in> fst ` set m. k \<noteq> ftspKey coll t i) \<or> b \<noteq> ''ftsp'' \<longrightarrow> cont tx' b k = cont tx b k) \<and>
    (\<forall>t. cont tx' ''ftsp'' (ftspKey coll t i) = (case map_of m t of None \<Rightarrow> cont tx ''ftsp'' (ftspKey coll t i) | Some ps \<Rightarrow> Some (encodePositions ps)))"
proof (induction m arbitrary: tx)
  case (Cons tp m)
  obtain t ps where tp: "tp = (t, ps)" by fastforce
  with Cons.prems obtain tx1 where tx1: "put_plain B ''ftsp'' (ftspKey coll t i) (encodePositions ps) tx = Inr tx1" "put_positions B coll i m tx1 = Inr tx'"
    by (auto split: sum.splits)
  have c: "cont tx1 = c_put ''ftsp'' (ftspKey coll t i) (encodePositions ps) (cont tx)" by (rule put_plain_cont [OF B tx1(1)])
  have "map_of m t = None" using Cons.prems(2) tp by (simp add: map_of_eq_None_iff)
  with Cons.IH [OF tx1(2)] Cons.prems(2) show ?case by (auto simp: tp c c_put_apply split: option.split)
qed simp

lemma forget_positions_cont:
  assumes B: "bolt_laws B cont" and rep: "pos_rep (cont tx) P" and coll: "nosep coll"
  shows "cont (forget_positions B coll i tx) b k =
    (if b = ''ftsp'' \<and> (\<exists>m t. P (coll, i) = Some m \<and> t \<in> fst ` set m \<and> k = ftspKey coll t i) then None else cont tx b k)"
proof (cases "P (coll, i)")
  case (Some m)
  then have "old_terms (join_comma (map fst m)) = map fst m" using old_terms_join pos_repD(1) [OF rep] by blast
  with Some show ?thesis
    using pos_repD(2) [OF rep coll, of i] del_some_plain_fold [OF B, of "''ftsp''" "\<lambda>t. ftspKey coll t i" "map fst m" tx b k]
    by (auto simp: forget_positions_def bolt_laws.get_law [OF B])
qed (use pos_repD(2) [OF rep coll, of i] in \<open>simp add: forget_positions_def bolt_laws.get_law [OF B]\<close>)

lemma ftsp_other: "nosep c \<Longrightarrow> nosep c' \<Longrightarrow> nosep t \<Longrightarrow> term_ok t' \<Longrightarrow> (c, i) \<noteq> (c', i') \<Longrightarrow> ftspKey c t i \<noteq> ftspKey c' t' i'"
  using ftspKey_inject by (auto simp: term_ok_def)

lemma positions_txn_rep:
  assumes B: "bolt_laws B cont" and rep: "pos_rep (cont tx) P" and coll: "nosep coll" and m: "terms_ok m"
    and "positions_txn B coll i m tx = Inr (tx', u)"
  shows "pos_rep (cont tx') (P((coll, i) \<mapsto> m))"
proof -
  obtain tx1 where t: "put_positions B coll i m (forget_positions B coll i tx) = Inr tx1"
    "put_plain B ''ftsp'' (ftspRevKey coll i) (join_comma (map fst m)) tx1 = Inr tx'"
    using assms(5) by (auto simp: positions_txn_def split: sum.splits)
  have d: "distinct (map fst m)" "\<forall>t \<in> fst ` set m. term_ok t" using m by (auto simp: terms_ok_def)
  note c0 = forget_positions_cont [OF B, OF rep, OF coll, of i] and c1 = put_positions_cont [OF B, OF t(1), OF d(1)] and c2 = put_plain_cont [OF B, OF t(2)]
  have rv: "cont tx1 ''ftsp'' (ftspRevKey c' i') = cont tx ''ftsp'' (ftspRevKey c' i')" for c' i' using c1 c0 by simp
  show ?thesis
    unfolding pos_rep_def
  proof (intro conjI allI impI)
    fix c' i' m' assume "(P((coll, i) \<mapsto> m)) (c', i') = Some m'"
    then show "nosep c'" "terms_ok m'" using coll m pos_repD(1) [OF rep, of c' i' m'] by (auto split: if_splits)
  next
    fix c' i' assume "nosep c'"
    then show "cont tx' ''ftsp'' (ftspRevKey c' i') = map_option (\<lambda>m. join_comma (map fst m)) ((P((coll, i) \<mapsto> m)) (c', i'))"
      using pos_repD(2) [OF rep, of c' i'] rev_keys_inject(4) [of c' coll i' i] coll by (auto simp: c2 c_put_apply rv)
  next
    fix c' t' i' assume c': "nosep c'" "nosep t'"
    note old = pos_repD(3) [OF rep, OF c', of i']
    have k: "cont tx' ''ftsp'' (ftspKey c' t' i') = cont tx1 ''ftsp'' (ftspKey c' t' i')" by (simp add: c2 c_put_apply)
    show "cont tx' ''ftsp'' (ftspKey c' t' i') = (case (P((coll, i) \<mapsto> m)) (c', i') of None \<Rightarrow> None | Some m \<Rightarrow> map_option encodePositions (map_of m t'))"
    proof (cases "(c', i') = (coll, i)")
      case True
      have "cont (forget_positions B coll i tx) ''ftsp'' (ftspKey coll t' i) = None" if "map_of m t' = None"
        using old True by (auto simp: c0 map_of_eq_None_iff split: option.splits)
      then show ?thesis using c1 True unfolding k by (auto split: option.split)
    next
      case False
      have other: "ftspKey c' t' i' \<noteq> ftspKey coll t i" if "term_ok t" for t by (rule ftsp_other [OF c'(1) coll c'(2) that False])
      have "cont (forget_positions B coll i tx) ''ftsp'' (ftspKey c' t' i') = cont tx ''ftsp'' (ftspKey c' t' i')"
        using other pos_repD(1) [OF rep, of coll i] by (auto simp: c0 terms_ok_def)
      moreover have "cont tx1 ''ftsp'' (ftspKey c' t' i') = cont (forget_positions B coll i tx) ''ftsp'' (ftspKey c' t' i')"
        by (rule conjunct1 [OF c1, THEN spec, THEN spec, THEN mp, OF disjI1]) (intro ballI other, use d(2) in blast)
      moreover have "(P((coll, i) \<mapsto> m)) (c', i') = P (c', i')" using False by auto
      ultimately show ?thesis unfolding k by (simp only: old)
    qed
  qed
qed

lemma removePositions_rep:
  assumes B: "bolt_laws B cont" and rep: "pos_rep (cont tx) P" and coll: "nosep coll"
  shows "pos_rep (cont (removePositionsInTx B coll i tx)) (P((coll, i) := None))"
proof -
  let ?tx = "removePositionsInTx B coll i tx"
  have "removePositionsInTx B coll i tx = del_some_plain B ''ftsp'' (ftspRevKey coll i) (forget_positions B coll i tx)"
    by (simp add: removePositionsInTx_def forget_positions_def Let_def)
  then have c: "cont ?tx = c_delete ''ftsp'' (ftspRevKey coll i) (cont (forget_positions B coll i tx))" by (simp add: del_some_plain_cont [OF B])
  note c0 = forget_positions_cont [OF B, OF rep, OF coll, of i]
  show ?thesis
    unfolding pos_rep_def
  proof (intro conjI allI impI)
    fix c' i' m' assume "(P((coll, i) := None)) (c', i') = Some m'"
    then show "nosep c'" "terms_ok m'" using pos_repD(1) [OF rep, of c' i' m'] by (auto split: if_splits)
  next
    fix c' i' assume "nosep c'"
    then show "cont ?tx ''ftsp'' (ftspRevKey c' i') = map_option (\<lambda>m. join_comma (map fst m)) ((P((coll, i) := None)) (c', i'))"
      using pos_repD(2) [OF rep, of c' i'] rev_keys_inject(4) [of c' coll i' i] coll by (auto simp: c c0 c_delete_apply)
  next
    fix c' t' i' assume c': "nosep c'" "nosep t'"
    note old = pos_repD(3) [OF rep, OF c', of i']
    have k: "cont ?tx ''ftsp'' (ftspKey c' t' i') = cont (forget_positions B coll i tx) ''ftsp'' (ftspKey c' t' i')" by (simp add: c c_delete_apply)
    show "cont ?tx ''ftsp'' (ftspKey c' t' i') = (case (P((coll, i) := None)) (c', i') of None \<Rightarrow> None | Some m \<Rightarrow> map_option encodePositions (map_of m t'))"
    proof (cases "(c', i') = (coll, i)")
      case True
      then show ?thesis unfolding k using old by (auto simp: c0 map_of_eq_None_iff split: option.splits)
    next
      case False
      have "ftspKey c' t' i' \<noteq> ftspKey coll t i" if "term_ok t" for t by (rule ftsp_other [OF c'(1) coll c'(2) that False])
      then have "cont (forget_positions B coll i tx) ''ftsp'' (ftspKey c' t' i') = cont tx ''ftsp'' (ftspKey c' t' i')"
        using pos_repD(1) [OF rep, of coll i] by (auto simp: c0 terms_ok_def)
      moreover have "(P((coll, i) := None)) (c', i') = P (c', i')" using False by auto
      ultimately show ?thesis unfolding k by (simp only: old)
    qed
  qed
qed

subsection \<open>Positions of words\<close>

definition pos_of :: "(bytes \<times> u32 list) list \<Rightarrow> bytes \<Rightarrow> u32 list" where
  "pos_of m t = (case map_of m t of None \<Rightarrow> [] | Some ps \<Rightarrow> ps)"

lemma place_terms_keys:
  "distinct (map fst m) \<Longrightarrow> distinct (map fst (place_terms lg p ws m)) \<and> fst ` set (place_terms lg p ws m) = terms_in lg ws \<union> fst ` set m"
  by (induction ws arbitrary: p m) (auto simp: terms_in_def distinct_update dom_update split: option.splits)

lemma pos_of_update: "pos_of (AList.update t ps m) t' = (if t' = t then ps else pos_of m t')"
  by (simp add: pos_of_def update_conv')

lemma place_terms_pos:
  "set (pos_of (place_terms lg p ws m) t) = set (pos_of m t) \<union> {p + word_of_nat k | k. k < length ws \<and> term_of_word lg (ws ! k) = Some t} \<and>
   length (pos_of (place_terms lg p ws m) t) \<le> length (pos_of m t) + length ws"
proof (induction ws arbitrary: p m)
  case (Cons w ws)
  let ?m = "case term_of_word lg w of None \<Rightarrow> m | Some t \<Rightarrow> AList.update t (pos_of m t @ [p]) m"
  have s: "{p + word_of_nat k | k. k < length (w # ws) \<and> term_of_word lg ((w # ws) ! k) = Some t} =
      (if term_of_word lg w = Some t then {p} else {}) \<union> {p + 1 + word_of_nat k | k. k < length ws \<and> term_of_word lg (ws ! k) = Some t}" (is "?l = ?r")
  proof
    show "?l \<subseteq> ?r"
    proof
      fix x assume "x \<in> ?l"
      then obtain k where k: "k < length (w # ws)" "term_of_word lg ((w # ws) ! k) = Some t" "x = p + word_of_nat k" by blast
      then show "x \<in> ?r" by (cases k) (auto simp: add.assoc)
    qed
    show "?r \<subseteq> ?l"
    proof
      fix x assume "x \<in> ?r"
      then consider "term_of_word lg w = Some t" "x = p" | k where "k < length ws" "term_of_word lg (ws ! k) = Some t" "x = p + 1 + word_of_nat k"
        by (auto split: if_splits)
      then show "x \<in> ?l"
      proof cases
        case 1
        then show ?thesis by (intro CollectI exI [of _ 0]) simp
      next
        case 2
        then show ?thesis by (intro CollectI exI [of _ "Suc k"]) simp
      qed
    qed
  qed
  have "place_terms lg p (w # ws) m = place_terms lg (p + 1) ws ?m" unfolding pos_of_def by (rule place_terms.simps(2))
  moreover have "set (pos_of ?m t) = set (pos_of m t) \<union> (if term_of_word lg w = Some t then {p} else {}) \<and> length (pos_of ?m t) \<le> Suc (length (pos_of m t))"
    by (auto simp: pos_of_update split: option.split)
  ultimately show ?case unfolding s using Cons.IH [of "p + 1" ?m] by (auto simp del: place_terms.simps)
qed simp

lemma positions_ok: "text_ok U lg \<Longrightarrow> place_terms lg 0 (words_of U content) [] \<noteq> [] \<Longrightarrow> terms_ok (place_terms lg 0 (words_of U content) [])"
  using place_terms_keys [of "[]" lg 0 "words_of U content"] term_of_word_ok [of U lg _ content] by (auto simp: terms_ok_def terms_in_def)

text \<open>The terms of a phrase stand in a text, one word after the other.\<close>

definition stands :: "LanguageConfig \<Rightarrow> bytes list \<Rightarrow> bytes list \<Rightarrow> bool" where
  "stands lg ws ts \<longleftrightarrow> (\<exists>j. \<forall>k < length ts. j + k < length ws \<and> term_of_word lg (ws ! (j + k)) = Some (ts ! k))"

lemma stands_positions:
  assumes "ts \<noteq> []" and "length ws + length ts < 2 ^ 30 - 1"
  shows "(\<exists>p. \<forall>k < length ts. p + word_of_nat k \<in> set (pos_of (place_terms lg 0 ws []) (ts ! k))) \<longleftrightarrow> stands lg ws ts"
proof -
  have pos: "p \<in> set (pos_of (place_terms lg 0 ws []) t) \<longleftrightarrow> (\<exists>k < length ws. p = word_of_nat k \<and> term_of_word lg (ws ! k) = Some t)" for p t
    using place_terms_pos [of lg 0 ws "[]" t] by (auto simp: pos_of_def)
  have inj: "(word_of_nat a :: u32) = word_of_nat b \<longleftrightarrow> a = b" if "a < 2 ^ 31" "b < 2 ^ 31" for a b
  proof
    assume "(word_of_nat a :: u32) = word_of_nat b"
    then have "unat (word_of_nat a :: u32) = unat (word_of_nat b :: u32)" by simp
    with that show "a = b" by (simp add: unat_of_nat)
  qed simp
  show ?thesis
  proof
    assume "\<exists>p. \<forall>k < length ts. p + word_of_nat k \<in> set (pos_of (place_terms lg 0 ws []) (ts ! k))"
    then obtain p where h: "\<forall>k < length ts. p + word_of_nat k \<in> set (pos_of (place_terms lg 0 ws []) (ts ! k))" ..
    have p: "\<exists>j < length ws. p + word_of_nat k = word_of_nat j \<and> term_of_word lg (ws ! j) = Some (ts ! k)" if "k < length ts" for k
      using h that unfolding pos [symmetric] by simp
    from p [of 0] assms(1) obtain j where j: "j < length ws" "p = word_of_nat j" by auto
    have "j + k < length ws \<and> term_of_word lg (ws ! (j + k)) = Some (ts ! k)" if "k < length ts" for k
    proof -
      from p [OF that] obtain j' where j': "j' < length ws" "(word_of_nat (j + k) :: u32) = word_of_nat j'" "term_of_word lg (ws ! j') = Some (ts ! k)"
        by (auto simp: j(2))
      have "j + k = j'" using j'(2) by (subst (asm) inj) (use j(1) j'(1) that assms(2) in auto)
      with j' show ?thesis by simp
    qed
    then show "stands lg ws ts" unfolding stands_def by blast
  next
    assume "stands lg ws ts"
    then obtain j where "k < length ts \<Longrightarrow> j + k < length ws \<and> term_of_word lg (ws ! (j + k)) = Some (ts ! k)" for k unfolding stands_def by blast
    then have "\<forall>k < length ts. word_of_nat j + word_of_nat k \<in> set (pos_of (place_terms lg 0 ws []) (ts ! k))"
      unfolding pos by (metis of_nat_add)
    then show "\<exists>p. \<forall>k < length ts. p + word_of_nat k \<in> set (pos_of (place_terms lg 0 ws []) (ts ! k))" ..
  qed
qed

subsection \<open>The search\<close>

lemma follows_spec:
  "\<forall>t \<in> set ts. pos t = Some (f t) \<Longrightarrow> follows pos e ts = Some (\<forall>k < length ts. e + word_of_nat k \<in> set (f (ts ! k)))"
proof (induction ts arbitrary: e)
  case (Cons t ts)
  have "(\<forall>k < length (t # ts). e + word_of_nat k \<in> set (f ((t # ts) ! k))) \<longleftrightarrow>
      e \<in> set (f t) \<and> (\<forall>k < length ts. e + 1 + word_of_nat k \<in> set (f (ts ! k)))"
    by (auto simp: less_Suc_eq_0_disj add.assoc)
  with Cons show ?case by (simp add: containsPos_def)
qed simp

lemma count_matches_spec:
  assumes "\<forall>t \<in> set ts. pos t = Some (f t)"
  shows "\<exists>n \<ge> 0. count_matches pos ts ps = Some n \<and> (n > 0 \<longleftrightarrow> (\<exists>p \<in> set ps. \<forall>k < length ts. p + 1 + word_of_nat k \<in> set (f (ts ! k))))"
proof (induction ps)
  case (Cons p ps)
  then obtain n where n: "0 \<le> n" "count_matches pos ts ps = Some n" "n > 0 \<longleftrightarrow> (\<exists>p \<in> set ps. \<forall>k < length ts. p + 1 + word_of_nat k \<in> set (f (ts ! k)))" by blast
  let ?c = "\<forall>k < length ts. p + 1 + word_of_nat k \<in> set (f (ts ! k))"
  have f: "follows pos (p + 1) ts = Some ?c" by (rule follows_spec [OF assms])
  show ?case
  proof (cases ?c)
    case True
    with n f show ?thesis by (intro exI [of _ "n + 1"]) auto
  next
    case False
    have "(\<exists>q \<in> set (p # ps). \<forall>k < length ts. q + 1 + word_of_nat k \<in> set (f (ts ! k))) \<longleftrightarrow>
        (\<exists>q \<in> set ps. \<forall>k < length ts. q + 1 + word_of_nat k \<in> set (f (ts ! k)))" using False by auto
    moreover have "follows pos (p + 1) ts = Some False" using f False by simp
    ultimately show ?thesis using n by (intro exI [of _ n]) simp
  qed
qed simp

lemma phrase_scores_spec:
  assumes "\<forall>(d, v) \<in> set es. decodePositions v \<noteq> None \<and> (\<forall>t \<in> set ts. positions_in B coll t d tx = Some (f d t))"
    and "distinct (map fst es)"
  shows "\<exists>out. phrase_scores B coll ts tx es = Some out \<and> distinct (map fst out) \<and>
    fst ` set out = {d. \<exists>v ps. (d, v) \<in> set es \<and> decodePositions v = Some ps \<and> (\<exists>p \<in> set ps. \<forall>k < length ts. p + 1 + word_of_nat k \<in> set (f d (ts ! k)))}"
  using assms
proof (induction es)
  case (Cons dv es)
  obtain d v where dv: "dv = (d, v)" by fastforce
  with Cons.prems obtain ps where ps: "decodePositions v = Some ps" "\<forall>t \<in> set ts. positions_in B coll t d tx = Some (f d t)" by auto
  obtain n where n: "count_matches (\<lambda>t. positions_in B coll t d tx) ts ps = Some n"
    "n > 0 \<longleftrightarrow> (\<exists>p \<in> set ps. \<forall>k < length ts. p + 1 + word_of_nat k \<in> set (f d (ts ! k)))"
    using count_matches_spec [of ts "\<lambda>t. positions_in B coll t d tx" "f d" ps] ps(2) by blast
  obtain out where out: "phrase_scores B coll ts tx es = Some out" "distinct (map fst out)"
    "fst ` set out = {d. \<exists>v ps. (d, v) \<in> set es \<and> decodePositions v = Some ps \<and> (\<exists>p \<in> set ps. \<forall>k < length ts. p + 1 + word_of_nat k \<in> set (f d (ts ! k)))}"
    using Cons.IH Cons.prems by auto
  have "d \<notin> fst ` set es" using Cons.prems(2) dv by simp
  then have "d \<notin> fst ` set out" unfolding out(3) by force
  then show ?case using n out ps(1) by (auto simp: dv)
qed simp

lemma pos_entries_facts:
  assumes B: "bolt_laws B cont" and rep: "pos_rep (cont tx) P" and coll: "nosep coll" and t: "nosep t"
  shows "distinct (map fst (pos_entries B coll t tx))"
    "(d, v) \<in> set (pos_entries B coll t tx) \<longleftrightarrow> d \<noteq> [] \<and> (\<exists>m ps. P (coll, d) = Some m \<and> map_of m t = Some ps \<and> v = encodePositions ps)"
proof -
  let ?p = "ftspKey coll t []"
  let ?s = "bk_scan B ''ftsp'' ?p tx"
  have k: "ftspKey coll t [] @ d = ftspKey coll t d" for d by (simp add: ftspKey_def)
  have k': "drop (length ?p) (ftspKey coll t d) = d" for d by (metis k append_eq_conv_conj)
  have pre: "prefix ?p x \<longleftrightarrow> (\<exists>d. x = ftspKey coll t d)" for x by (auto simp: prefix_def k)
  have scan: "(x, v) \<in> set ?s \<longleftrightarrow> cont tx ''ftsp'' x = Some v \<and> (\<exists>d. x = ftspKey coll t d)" for x v
    by (simp add: bolt_laws.scan_set [OF B] pre)
  have "(d, v) \<in> set (pos_entries B coll t tx) \<longleftrightarrow> d \<noteq> [] \<and> (\<exists>x. (x, v) \<in> set ?s \<and> d = drop (length ?p) x)"
    by (force simp: pos_entries_def Let_def)
  also have "\<dots> \<longleftrightarrow> d \<noteq> [] \<and> cont tx ''ftsp'' (ftspKey coll t d) = Some v" unfolding scan using k' by (metis (no_types))
  finally show "(d, v) \<in> set (pos_entries B coll t tx) \<longleftrightarrow> d \<noteq> [] \<and> (\<exists>m ps. P (coll, d) = Some m \<and> map_of m t = Some ps \<and> v = encodePositions ps)"
    unfolding pos_repD(3) [OF rep, OF coll, OF t] by (auto split: option.splits)
  have "inj_on (drop (length ?p)) (set (map fst ?s))" using scan k' by (intro inj_onI) (force simp: image_iff)
  then have "distinct (map (drop (length ?p)) (map fst ?s))" using bolt_laws.scan_distinct [OF B] by (simp only: distinct_map)
  then have "distinct (map fst (map (\<lambda>(k, v). (drop (length ?p) k, v)) ?s))" by (simp add: comp_def case_prod_beta)
  then show "distinct (map fst (pos_entries B coll t tx))"
    unfolding pos_entries_def Let_def by (rule distinct_map_filter)
qed

text \<open>The words of the documents of a collection and the language they were indexed in.\<close>

definition texts_in :: "(bytes \<times> bytes \<Rightarrow> (bytes \<times> u32 list) list option) \<Rightarrow> bytes \<Rightarrow> (bytes \<Rightarrow> (LanguageConfig \<times> bytes list) option) \<Rightarrow> bool" where
  "texts_in P coll W \<longleftrightarrow> (\<forall>d. P (coll, d) = map_option (\<lambda>(lg, ws). place_terms lg 0 ws []) (W d))"

lemma follows_split:
  fixes p :: u32
  shows "(\<forall>k < length (t # rest). p + word_of_nat k \<in> set (g ((t # rest) ! k))) \<longleftrightarrow>
    p \<in> set (g t) \<and> (\<forall>k < length rest. p + 1 + word_of_nat k \<in> set (g (rest ! k)))"
proof -
  have "(\<forall>k < Suc (length rest). p + word_of_nat k \<in> set (g ((t # rest) ! k))) \<longleftrightarrow>
      p + word_of_nat 0 \<in> set (g ((t # rest) ! 0)) \<and> (\<forall>k < length rest. p + word_of_nat (Suc k) \<in> set (g ((t # rest) ! Suc k)))"
    by (rule All_less_Suc2)
  then show ?thesis by (simp add: add.assoc)
qed

text \<open>C30: A phrase search returns, once each and by falling number of occurrences, exactly the
  documents in whose text the terms of the phrase stand one word after the other; it never panics
  on the positions the index has written.  Indexing the positions of a document and removing them
  updates what the positional index represents.\<close>

theorem phrase_search_exact:
  assumes B: "bolt_laws B cont" and rep: "pos_rep (cont (fx_db f)) P" and coll: "nosep coll" and W: "texts_in P coll W"
    and ts: "ts \<noteq> []" "\<forall>t \<in> set ts. nosep t" and fits: "\<forall>d lg ws. W d = Some (lg, ws) \<longrightarrow> length ws + length ts < 2 ^ 30 - 1"
    and gt: "score_order (rk_gt R)" and U: "text_ok U (resolveLang lang f)"
  shows "(\<exists>res. SearchPhrase R B coll ts 0 f = Some res \<and> distinct (map r_DocID res) \<and>
      r_DocID ` set res = {d. d \<noteq> [] \<and> (\<exists>lg ws. W d = Some (lg, ws) \<and> stands lg ws ts)} \<and>
      sorted_wrt (\<lambda>a b. \<not> rk_gt R (r_Score b) (r_Score a)) res) \<and>
    (\<forall>f'. IndexPositionsWithLang U B coll i content lang f = (f', None) \<and> fx_TokenizePositionsLang U content lang f \<noteq> [] \<longrightarrow>
      pos_rep (cont (fx_db f')) (P((coll, i) \<mapsto> place_terms (resolveLang lang f) 0 (words_of U content) []))) \<and>
    (\<forall>f'. RemovePositions B coll i f = (f', None) \<longrightarrow> pos_rep (cont (fx_db f')) (P((coll, i) := None)))"
proof (intro conjI allI impI)
  obtain t rest where tr: "ts = t # rest" using ts(1) by (cases ts) auto
  let ?tx = "fx_db f"
  let ?f = "\<lambda>d t. case P (coll, d) of None \<Rightarrow> [] | Some m \<Rightarrow> pos_of m t"
  have wd: "P (coll, d) = map_option (\<lambda>(lg, ws). place_terms lg 0 ws []) (W d)" for d using W unfolding texts_in_def by blast
  have len: "length (pos_of m u) < 2 ^ 30 - 1" if m: "P (coll, d) = Some m" for m d u
  proof -
    obtain lg ws where w: "W d = Some (lg, ws)" "m = place_terms lg 0 ws []" using wd [of d] m by (cases "W d") auto
    have "length (pos_of m u) \<le> length (pos_of [] u) + length ws" unfolding w(2) using place_terms_pos by blast
    moreover have "pos_of [] u = []" by (simp add: pos_of_def)
    moreover have "length ws + length ts < 2 ^ 30 - 1" using fits w(1) by blast
    ultimately show ?thesis by simp
  qed
  have pin: "positions_in B coll u d ?tx = Some (?f d u)" if "nosep u" for u d
  proof (cases "P (coll, d)")
    case None
    then show ?thesis using pos_repD(3) [OF rep, OF coll, OF that, of d] by (simp add: positions_in_def bolt_laws.get_law [OF B] decodePositions_def)
  next
    case (Some m)
    show ?thesis
    proof (cases "map_of m u")
      case None
      then show ?thesis using pos_repD(3) [OF rep, OF coll, OF that, of d] Some
        by (simp add: positions_in_def bolt_laws.get_law [OF B] decodePositions_def pos_of_def)
    next
      case (Some ps)
      then have "decodePositions (encodePositions ps) = Some ps" using len [OF \<open>P (coll, d) = Some m\<close>, of u] by (intro decode_encode) (simp add: pos_of_def)
      then show ?thesis using pos_repD(3) [OF rep, OF coll, OF that, of d] \<open>P (coll, d) = Some m\<close> Some
        by (simp add: positions_in_def bolt_laws.get_law [OF B] pos_of_def)
    qed
  qed
  have t: "nosep t" "\<forall>u \<in> set rest. nosep u" using ts(2) tr by simp_all
  note E = pos_entries_facts [OF B, OF rep, OF coll, OF t(1)]
  have dec: "decodePositions v = Some (?f d t)" if e: "(d, v) \<in> set (pos_entries B coll t ?tx)" for d v
  proof -
    obtain m ps where m: "P (coll, d) = Some m" "map_of m t = Some ps" "v = encodePositions ps" using e unfolding E(2) by blast
    then show ?thesis using decode_encode [of ps] len [OF m(1), of t] by (simp add: pos_of_def)
  qed
  have "\<forall>(d, v) \<in> set (pos_entries B coll t ?tx). decodePositions v \<noteq> None \<and> (\<forall>u \<in> set rest. positions_in B coll u d ?tx = Some (?f d u))"
    using dec pin t(2) by fastforce
  from phrase_scores_spec [OF this, OF E(1)] obtain out where out: "phrase_scores B coll rest ?tx (pos_entries B coll t ?tx) = Some out"
    "distinct (map fst out)" "fst ` set out = {d. \<exists>v ps. (d, v) \<in> set (pos_entries B coll t ?tx) \<and> decodePositions v = Some ps \<and>
        (\<exists>p \<in> set ps. \<forall>k < length rest. p + 1 + word_of_nat k \<in> set (?f d (rest ! k)))}" by blast
  have "fst ` set out = {d. d \<noteq> [] \<and> (\<exists>lg ws. W d = Some (lg, ws) \<and> stands lg ws ts)}"
  proof (rule set_eqI)
    fix d
    have "(\<exists>ps. (d, v) \<in> set (pos_entries B coll t ?tx) \<and> decodePositions v = Some ps \<and> Q ps) \<longleftrightarrow>
        (d, v) \<in> set (pos_entries B coll t ?tx) \<and> Q (?f d t)" for v Q
      using dec [of d v] by (cases "(d, v) \<in> set (pos_entries B coll t ?tx)") simp_all
    then have "d \<in> fst ` set out \<longleftrightarrow> (\<exists>v. (d, v) \<in> set (pos_entries B coll t ?tx)) \<and>
        (\<exists>p \<in> set (?f d t). \<forall>k < length rest. p + 1 + word_of_nat k \<in> set (?f d (rest ! k)))"
      unfolding out(3) mem_Collect_eq by simp
    also have "\<dots> \<longleftrightarrow> d \<noteq> [] \<and> (\<exists>m. P (coll, d) = Some m \<and> (\<exists>p \<in> set (pos_of m t). \<forall>k < length rest. p + 1 + word_of_nat k \<in> set (pos_of m (rest ! k))))"
      unfolding E(2) by (cases "P (coll, d)"; cases "map_of (the (P (coll, d))) t") (simp_all add: pos_of_def [of _ t] Bex_def)
    also have "\<dots> \<longleftrightarrow> d \<noteq> [] \<and> (\<exists>m. P (coll, d) = Some m \<and> (\<exists>p. \<forall>k < length ts. p + word_of_nat k \<in> set (pos_of m (ts ! k))))"
      unfolding tr follows_split by (auto simp: Bex_def)
    also have "\<dots> \<longleftrightarrow> d \<noteq> [] \<and> (\<exists>lg ws. W d = Some (lg, ws) \<and> (\<exists>p. \<forall>k < length ts. p + word_of_nat k \<in> set (pos_of (place_terms lg 0 ws []) (ts ! k))))"
      using wd [of d] by (cases "W d") auto
    also have "\<dots> \<longleftrightarrow> d \<noteq> [] \<and> (\<exists>lg ws. W d = Some (lg, ws) \<and> stands lg ws ts)"
      using fits stands_positions [OF ts(1)] by (metis (no_types, lifting))
    finally show "d \<in> fst ` set out \<longleftrightarrow> d \<in> {d. d \<noteq> [] \<and> (\<exists>lg ws. W d = Some (lg, ws) \<and> stands lg ws ts)}" by simp
  qed
  moreover define xs where "xs = map (\<lambda>(d, n). \<lparr>r_DocID = d, r_Score = rk_count R n, r_Terms = ts\<rparr>) out"
  have "map r_DocID xs = map fst out" by (simp add: xs_def comp_def case_prod_beta)
  then have "r_DocID ` set (best_of (rk_gt R) 0 xs) = fst ` set out" "distinct (map r_DocID (best_of (rk_gt R) 0 xs))"
    using out(2) mset_ids [OF best_of_all(2) [of "rk_gt R" xs]] by (simp_all only: set_map [symmetric])
  moreover have "sorted_wrt (\<lambda>a b. \<not> rk_gt R (r_Score b) (r_Score a)) (best_of (rk_gt R) 0 xs)"
    using sort_sorted [OF gt] by (simp add: best_of_def Let_def)
  moreover have "SearchPhrase R B coll ts 0 f = Some (best_of (rk_gt R) 0 xs)" using out(1) by (simp add: SearchPhrase_def tr xs_def)
  ultimately show "\<exists>res. SearchPhrase R B coll ts 0 f = Some res \<and> distinct (map r_DocID res) \<and>
      r_DocID ` set res = {d. d \<noteq> [] \<and> (\<exists>lg ws. W d = Some (lg, ws) \<and> stands lg ws ts)} \<and>
      sorted_wrt (\<lambda>a b. \<not> rk_gt R (r_Score b) (r_Score a)) res" by simp
next
  fix f' assume h: "IndexPositionsWithLang U B coll i content lang f = (f', None) \<and> fx_TokenizePositionsLang U content lang f \<noteq> []"
  let ?m = "place_terms (resolveLang lang f) 0 (words_of U content) []"
  have "?m \<noteq> []" using h by (simp add: fx_TokenizePositionsLang_def)
  then have m: "terms_ok ?m" by (rule positions_ok [OF U])
  obtain tx' u where "positions_txn B coll i ?m (fx_db f) = Inr (tx', u)" "cont (fx_db f') = cont tx'"
    using h bolt_laws.commit_law [OF B]
    by (auto simp: IndexPositionsWithLang_def fx_TokenizePositionsLang_def fx_update_def DBUpdate_def split: sum.splits option.splits)
  with positions_txn_rep [OF B, OF rep, OF coll, OF m] show "pos_rep (cont (fx_db f')) (P((coll, i) \<mapsto> ?m))" by simp
next
  fix f' assume "RemovePositions B coll i f = (f', None)"
  then have "cont (fx_db f') = cont (removePositionsInTx B coll i (fx_db f))"
    using bolt_laws.commit_law [OF B] by (auto simp: RemovePositions_def fx_update_def DBUpdate_def split: option.splits)
  then show "pos_rep (cont (fx_db f')) (P((coll, i) := None))" using removePositions_rep [OF B, OF rep, OF coll] by simp
qed

definition demo_texts :: "bytes \<Rightarrow> (LanguageConfig \<times> bytes list) option" where
  "demo_texts d = (if d = ''d'' then Some (demo_lang, [''ab'', ''of'', ''cd'']) else None)"

lemma demo_terms [simp]: "term_of_word demo_lang w = (if w = ''of'' then None else Some w)"
  by (simp add: term_of_word_def demo_lang_def)

lemma demo_positions:
  "\<exists>tx. pos_rep (mem_contents tx) (\<lambda>(c, d). if c = ''c'' then map_option (\<lambda>(lg, ws). place_terms lg 0 ws []) (demo_texts d) else None)"
proof -
  let ?m = "[(''ab'', [0 :: u32]), (''cd'', [2])]"
  have m: "place_terms demo_lang 0 [''ab'', ''of'', ''cd''] [] = ?m" by simp
  have "\<exists>r. positions_txn mem_bolt ''c'' ''d'' ?m [] = Inr r"
    by (simp add: positions_txn_def forget_positions_def put_plain_def mem_bolt_def ftspKey_def ftspRevKey_def)
  then obtain tx u where t: "positions_txn mem_bolt ''c'' ''d'' ?m [] = Inr (tx, u)" by force
  have none: "pos_rep (mem_contents []) (\<lambda>_. None)" by (simp add: pos_rep_def)
  have "pos_rep (mem_contents tx) ((\<lambda>_. None)((''c'', ''d'') \<mapsto> ?m))"
    by (rule positions_txn_rep [OF mem.bolt_laws_axioms none _ _ t]) (simp_all add: terms_ok_def term_ok_def)
  moreover have "(\<lambda>(c, d). if c = ''c'' then map_option (\<lambda>(lg, ws). place_terms lg 0 ws []) (demo_texts d) else None) =
      (\<lambda>_. None)((''c'', ''d'') \<mapsto> ?m)"
    by (auto simp: fun_eq_iff demo_texts_def)
  ultimately show ?thesis by metis
qed

text \<open>The text "ab of cd" is found by its first word and not by itself, of which "of" is a stop word.\<close>

theorem phrase_search_exact_witness:
  "\<exists>f :: mem_db FTSIndex. (\<exists>r. SearchPhrase demo_ranking mem_bolt ''c'' [''ab''] 0 f = Some [r] \<and> r_DocID r = ''d'') \<and>
     SearchPhrase_text demo_text demo_ranking mem_bolt ''c'' ab_text 0 f = Some []"
proof -
  let ?P = "\<lambda>(c, d). if c = ''c'' then map_option (\<lambda>(lg, ws). place_terms lg 0 ws []) (demo_texts d) else None"
  obtain tx where rep: "pos_rep (mem_contents tx) ?P" using demo_positions by blast
  let ?f = "demo_index\<lparr>fx_db := tx\<rparr>"
  have phrase: "\<exists>res. SearchPhrase demo_ranking mem_bolt ''c'' ts 0 ?f = Some res \<and> distinct (map r_DocID res) \<and>
      set (map r_DocID res) = (if stands demo_lang [''ab'', ''of'', ''cd''] ts then {''d''} else {})"
    if "ts \<noteq> []" "\<forall>t \<in> set ts. nosep t" "length ts < 9" for ts
  proof -
    have "\<exists>res. SearchPhrase demo_ranking mem_bolt ''c'' ts 0 ?f = Some res \<and> distinct (map r_DocID res) \<and>
        r_DocID ` set res = {d. d \<noteq> [] \<and> (\<exists>lg ws. demo_texts d = Some (lg, ws) \<and> stands lg ws ts)} \<and>
        sorted_wrt (\<lambda>a b. \<not> rk_gt demo_ranking (r_Score b) (r_Score a)) res"
      by (rule phrase_search_exact [where P = ?P and U = demo_text and lang = "[]", OF mem.bolt_laws_axioms, THEN conjunct1])
        (use that rep in \<open>simp_all add: texts_in_def demo_texts_def resolveLang_def demo_index_def\<close>)
    moreover have "{d. d \<noteq> [] \<and> (\<exists>lg ws. demo_texts d = Some (lg, ws) \<and> stands lg ws ts)} =
        (if stands demo_lang [''ab'', ''of'', ''cd''] ts then {''d''} else {})" by (auto simp: demo_texts_def split: if_splits)
    ultimately obtain res where "SearchPhrase demo_ranking mem_bolt ''c'' ts 0 ?f = Some res" "distinct (map r_DocID res)"
      "r_DocID ` set res = (if stands demo_lang [''ab'', ''of'', ''cd''] ts then {''d''} else {})" by (elim exE conjE) simp
    then show ?thesis unfolding set_map by (intro exI [of _ res] conjI)
  qed
  have s: "stands demo_lang [''ab'', ''of'', ''cd''] [''ab'']" by (auto simp: stands_def intro!: exI [of _ 0])
  have n: "\<not> stands demo_lang [''ab'', ''of'', ''cd''] [''ab'', ''cd'']"
    by (auto simp: stands_def All_less_Suc numeral_2_eq_2 nth_Cons' split: if_splits)
  from phrase [of "[''ab'']"] s obtain res where r: "SearchPhrase demo_ranking mem_bolt ''c'' [''ab''] 0 ?f = Some res"
    "distinct (map r_DocID res)" "set (map r_DocID res) = {''d''}" by auto
  then obtain r where "res = [r]" "r_DocID r = ''d''" by (cases res; cases "tl res") auto
  moreover from phrase [of "[''ab'', ''cd'']"] n have "SearchPhrase demo_ranking mem_bolt ''c'' [''ab'', ''cd''] 0 ?f = Some []" by auto
  moreover have "tokenizeOrdered demo_text ab_text ?f = [''ab'', ''cd'']"
    by (simp add: tokenizeOrdered_def ab_words List.map_filter_simps term_of_word_def demo_index_def demo_lang_def)
  ultimately show ?thesis using r(1) by (intro exI [of _ ?f]) (simp add: SearchPhrase_text_def)
qed

end
