(* ===== verification/Spec2Isabelle.thy ===== *)
theory Spec2Isabelle
  imports Replication_Safety Key_Rotation Wal_Log Delta_Codec Mvcc Query_Expr Index_Queue Ttl Batch_Change Schema Auth_Safety Rate_Limit Fts_Phrase
begin

text \<open>
  A verification library for the document database daemon under \<^verbatim>\<open>src/services/mddbd\<close>, a
  server written in Go that stores versioned Markdown documents in a bbolt file, indexes them,
  replicates them to followers through a binary log, and answers over HTTP, gRPC and MCP.  File
  names below are relative to that directory.


  The program.  A write (\<^verbatim>\<open>addDocument\<close> of \<^verbatim>\<open>document_ops.go\<close>, the
  batch processors, the update handlers) encodes the document (compression, then encryption of the
  collections that opt in), and in one transaction puts it under its key, maintains the metadata
  index, and adds a revision.  Every operation it makes on the store is recorded, and after the
  commit the records are appended to the binlog.  Then the read caches are refreshed and the
  subsystems (full text, vectors, expiry, webhooks) are told.  A follower takes a snapshot, streams
  the binlog from the position it has reached, and applies each entry to its store and to what it
  keeps in memory.  In front of all this stand a rate limiter, authentication by token or API key,
  and an access check per collection.


  The theories, in the order of their imports, with what they model.

  \<^item> \<open>Mddb_Prelude\<close>: byte strings, outcomes of calls that can panic, big-endian fields, decimal
    formats, the byte order of keys; the collections \<open>key_defs\<close>, \<open>store_simps\<close> and \<open>cache_simps\<close>.
    \<open>Go_Slices\<close>: sorting, removing duplicates and cutting pages.
  \<^item> \<open>Storage_Keys\<close>: the document record and every key of the store (\<^verbatim>\<open>internal/storage\<close>,
    \<^verbatim>\<open>keybuilder.go\<close>, \<^verbatim>\<open>bytes_utils.go\<close>, \<^verbatim>\<open>metadata.go\<close>): keys are injective in
    names without the separator, and the buffer-reusing builders agree with the plain ones.
  \<^item> \<open>Frame_Codec\<close>, \<open>Binlog_Entry\<close>, \<open>Binlog_Log\<close>, \<open>Wal_Log\<close>: checksummed frames, entries on the
    wire, the binlog with recovery, append, read, rotation and subscribers
    (\<^verbatim>\<open>internal/binlog\<close>), and the write-ahead log (\<^verbatim>\<open>wal.go\<close>).  The state is a record
    with the bytes of the file; a well-formed log represents a list of entries, and every operation
    is shown to be the corresponding one on that list.
  \<^item> \<open>Bolt_Store\<close>: the interface to bbolt, its laws as the locale \<open>bolt_laws\<close>, transactions, the
    effect of recorded operations on the contents (\<open>replay\<close>), and a store in memory that obeys the laws.
  \<^item> \<open>Doc_Cache\<close>, \<open>Doc_Codec\<close>: the two read caches (\<^verbatim>\<open>internal/cache\<close>) behind one locale
    \<open>doc_cache\<close>; compression, envelopes and key ring (\<^verbatim>\<open>internal/compression\<close>,
    \<^verbatim>\<open>internal/encryption\<close>).
  \<^item> \<open>Document_Ops\<close>, \<open>Document_Store\<close>, \<open>Document_Reads\<close>: the write path (\<^verbatim>\<open>document_ops.go\<close>,
    \<^verbatim>\<open>revision_retention.go\<close>) and two readers (\<^verbatim>\<open>http_handlers.go\<close>,
    \<^verbatim>\<open>grpc_server.go\<close>); exact index, exact log, coherent caches, reads after writes.
  \<^item> \<open>Key_Rotation\<close> (\<^verbatim>\<open>encryption_rotate.go\<close>), \<open>Document_Update\<close> (the partial updates of three
    transports), \<open>Ttl\<close> (\<^verbatim>\<open>internal/ttl\<close>, \<^verbatim>\<open>ttl_reaper.go\<close>), \<open>Batch_Write\<close> and
    \<open>Batch_Change\<close> (\<^verbatim>\<open>batch.go\<close>, \<^verbatim>\<open>batch_final.go\<close>, \<^verbatim>\<open>batch_handler.go\<close>,
    \<^verbatim>\<open>batchdelete.go\<close>, \<^verbatim>\<open>batchupdate.go\<close>), \<open>Schema\<close> (\<^verbatim>\<open>internal/schema\<close>,
    \<^verbatim>\<open>schema_handlers.go\<close>), \<open>Index_Queue\<close> (\<^verbatim>\<open>internal/indexqueue\<close>): what else changes
    documents and their index, each over the definitions of the write path.
  \<^item> \<open>Embedding_Codec\<close>, \<open>Vector_Store\<close>: the records of embeddings and their store
    (\<^verbatim>\<open>internal/vector/vector_store.go\<close>, \<^verbatim>\<open>quantization.go\<close>).
  \<^item> \<open>Replication\<close>, \<open>Replication_Safety\<close>: \<^verbatim>\<open>replication_server.go\<close>, \<^verbatim>\<open>replication_applier.go\<close>
    and \<^verbatim>\<open>replication_client.go\<close>, with the leader's stream cut into its steps.
  \<^item> \<open>Query_Expr\<close>: the query language (\<^verbatim>\<open>internal/fts/fts_query_expr.go\<close>) from text to results.
  \<^item> \<open>Fts_Index\<close>, \<open>Fts_Search\<close>, \<open>Fts_Safety\<close>, \<open>Fts_Phrase\<close>: the inverted index with its
    languages, statistics, fields and positions, synonyms, and the term, phrase and proximity
    searches (\<^verbatim>\<open>fts.go\<close>, \<^verbatim>\<open>fts_bm25.go\<close>, \<^verbatim>\<open>fts_positions.go\<close>,
    \<^verbatim>\<open>fts_language.go\<close>, \<^verbatim>\<open>fts_synonyms.go\<close> of \<^verbatim>\<open>internal/fts\<close>): the index is a map from
    documents to terms, and a search returns exactly what that map says.
  \<^item> \<open>Delta_Codec\<close>, \<open>Mvcc\<close>: \<^verbatim>\<open>internal/delta\<close> and \<^verbatim>\<open>mvcc.go\<close>.
  \<^item> \<open>Sha256\<close>, \<open>Auth_Manager\<close>, \<open>Auth_Front\<close>, \<open>Auth_Safety\<close>, \<open>Rate_Limit\<close>: users, keys,
    permissions, groups and tenants (\<^verbatim>\<open>auth.go\<close>, \<^verbatim>\<open>tenant.go\<close>, \<^verbatim>\<open>auth_manager.go\<close>),
    the middleware, the interceptors and the handlers (\<^verbatim>\<open>auth_middleware.go\<close>,
    \<^verbatim>\<open>auth_grpc.go\<close>, \<^verbatim>\<open>auth_handlers.go\<close>), and the limiter in front of them
    (\<^verbatim>\<open>ratelimit.go\<close>).


  Conventions.  A Go string or byte slice is a list of 8-bit characters; where the code ranges over
  runes it is the list of code points.  Integers that can wrap are words or go through \<open>wrap64\<close>.  A Go
  map is an association list or a function; the order of an association list stands for the order
  of one iteration, which Go leaves open, and no property depends on it.  A call that can fail
  returns a sum, one that can panic an \<open>outcome\<close>.  State is passed explicitly: \<open>server\<close> holds the store, the
  binlog, the caches and the settings, and each subsystem has a record of its own; calls into a
  subsystem that is modelled elsewhere are recorded as effects.  Readings of the clock, random
  bytes and the outcomes of system calls are arguments.


  What the lemmas show.  For each component there is an abstract reading of its state (the list of
  entries of a log, the map of expiries behind two buckets, the table behind a bucket of JSON
  records) and each operation is shown to be an operation on that reading, on every branch.  Across
  components the lemmas about \<open>replay\<close> carry most of the weight: an operation whose recorded
  changes replay to its effect keeps a leader's log equal to its store, and what applying entries
  does is to replay them, so a follower that has received the history has the leader's store.
  The findings of the manifest that have a theorem are proved in the same theories, next to the
  properties they limit.


  Bounds.  There is no fuel: loops are structural recursions or recursions with a measure (the
  bytes left in a file, the runes left in a query, the work left in a queue).  Interleavings are an
  inductive relation for the index queue and explicit sequences of steps elsewhere.  Positions in
  the binlog are assumed to stay below \<open>2 ^ 64\<close>, and where an entry or a counter has a fixed width
  the theorems name the bound they need.


  Parameters.  Code outside the repository is an argument with its documented behaviour as laws:
  bbolt (\<open>bolt_laws\<close>), protobuf, snappy, zstd and AES-GCM (\<open>codec_laws\<close>), JSON, bcrypt and JWT
  (\<open>auth_lib\<close>), the regular-expression engine, the Unicode tables, and floating-point arithmetic.
  Each set of laws is interpreted on a concrete instance, which the examples use.


  Not modelled.  Floating-point ranking and the approximate vector indexes (scores are parameters
  where a component needs their order); stemmers and language tables, which are data; the fuzzy,
  wildcard and field-weighted searches, highlighting and the expansion by co-occurrence; the geo
  index; webhooks, server-sent events, automation and MCP tools, which are network delivery around
  the operations modelled here; the GraphQL layer, which is generated; the alternative storage
  backends; configuration, metrics and the command-line client.  Goroutines that only call an
  operation periodically appear as that operation.  Locks are not modelled: each operation is a
  step, and where the code gives up a lock or a transaction in between, the model has two steps.
\<close>

end
